(* ===== verification/Prelude.thy ===== *)
theory Prelude
  imports Main "HOL-Library.Word"
begin

text \<open>
  The shared vocabulary of the development.

  Rust's \<open>Result<T, E>\<close> is the sum type with the error on the left; \<open>Err\<close> and \<open>Ok\<close>
  abbreviate its two injections and \<open>and_then\<close> is the \<open>?\<close> operator. A \<open>for\<close> loop whose
  body may return early with an error is \<open>try_fold\<close> (a loop that threads state) or
  \<open>try_each\<close> (a loop that only checks). A Rust string is the list of its UTF-8 bytes
  (\<open>string\<close>, whose characters are 8-bit), so \<open>length\<close> is \<open>str::len\<close>; where the code counts
  Unicode scalar values the model uses lists of code points (see the chunker).
  Collections: \<open>result_simps\<close> unfolds the combinators, \<open>ascii_defs\<close> the byte classes.
\<close>

named_theorems result_simps "unfolding of the Result combinators"
named_theorems ascii_defs "byte classes of u8"

section \<open>Results\<close>

abbreviation Err :: "'e \<Rightarrow> 'e + 'a" where "Err \<equiv> Inl"
abbreviation Ok :: "'a \<Rightarrow> 'e + 'a" where "Ok \<equiv> Inr"

definition and_then :: "'e + 'a \<Rightarrow> ('a \<Rightarrow> 'e + 'b) \<Rightarrow> 'e + 'b" where
  "and_then r f = (case r of Inl e \<Rightarrow> Inl e | Inr a \<Rightarrow> f a)"

definition map_err :: "('e \<Rightarrow> 'f) \<Rightarrow> 'e + 'a \<Rightarrow> 'f + 'a" where
  "map_err f r = (case r of Inl e \<Rightarrow> Inl (f e) | Inr a \<Rightarrow> Inr a)"

fun try_fold :: "('a \<Rightarrow> 's \<Rightarrow> 'e + 's) \<Rightarrow> 'a list \<Rightarrow> 's \<Rightarrow> 'e + 's" where
  "try_fold f [] s = Ok s"
| "try_fold f (x # xs) s = and_then (f x s) (try_fold f xs)"

fun try_each :: "('a \<Rightarrow> 'e + unit) \<Rightarrow> 'a list \<Rightarrow> 'e + unit" where
  "try_each f [] = Ok ()"
| "try_each f (x # xs) = and_then (f x) (\<lambda>_. try_each f xs)"

definition is_ok :: "'e + 'a \<Rightarrow> bool" where
  "is_ok r \<longleftrightarrow> (case r of Inl _ \<Rightarrow> False | Inr _ \<Rightarrow> True)"

section \<open>Slices, bytes and byte classes\<close>

definition sub_list :: "nat \<Rightarrow> nat \<Rightarrow> 'a list \<Rightarrow> 'a list" where
  "sub_list i j xs = take (j - i) (drop i xs)"

definition byte :: "char \<Rightarrow> nat" where
  "byte c = (of_char c :: nat)"

definition is_ascii_digit :: "char \<Rightarrow> bool" where
  [ascii_defs]: "is_ascii_digit c \<longleftrightarrow> 48 \<le> byte c \<and> byte c \<le> 57"

definition is_ascii_lowercase :: "char \<Rightarrow> bool" where
  [ascii_defs]: "is_ascii_lowercase c \<longleftrightarrow> 97 \<le> byte c \<and> byte c \<le> 122"

definition is_ascii_uppercase :: "char \<Rightarrow> bool" where
  [ascii_defs]: "is_ascii_uppercase c \<longleftrightarrow> 65 \<le> byte c \<and> byte c \<le> 90"

definition is_ascii_alphabetic :: "char \<Rightarrow> bool" where
  [ascii_defs]: "is_ascii_alphabetic c \<longleftrightarrow> is_ascii_lowercase c \<or> is_ascii_uppercase c"

definition is_ascii_alphanumeric :: "char \<Rightarrow> bool" where
  [ascii_defs]: "is_ascii_alphanumeric c \<longleftrightarrow> is_ascii_alphabetic c \<or> is_ascii_digit c"

definition is_ascii_whitespace :: "char \<Rightarrow> bool" where
  [ascii_defs]: "is_ascii_whitespace c \<longleftrightarrow> byte c \<in> {9, 10, 12, 13, 32}"

definition is_ascii_graphic :: "char \<Rightarrow> bool" where
  [ascii_defs]: "is_ascii_graphic c \<longleftrightarrow> 33 \<le> byte c \<and> byte c \<le> 126"

definition is_ascii_control :: "char \<Rightarrow> bool" where
  [ascii_defs]: "is_ascii_control c \<longleftrightarrow> byte c < 32 \<or> byte c = 127"

definition starts_with :: "'a list \<Rightarrow> 'a list \<Rightarrow> bool" where
  "starts_with p xs \<longleftrightarrow> take (length p) xs = p"

definition strip_prefix :: "'a list \<Rightarrow> 'a list \<Rightarrow> 'a list option" where
  "strip_prefix p xs = (if starts_with p xs then Some (drop (length p) xs) else None)"

text \<open>\<open>str::split(sep)\<close>: the fields between the separators, never the empty list.\<close>

fun split_on :: "('a \<Rightarrow> bool) \<Rightarrow> 'a list \<Rightarrow> 'a list list" where
  "split_on p [] = [[]]"
| "split_on p (x # xs) =
     (if p x then [] # split_on p xs
      else case split_on p xs of [] \<Rightarrow> [[x]] | f # fs \<Rightarrow> (x # f) # fs)"

fun join :: "'a list \<Rightarrow> 'a list list \<Rightarrow> 'a list" where
  "join sep [] = []"
| "join sep [x] = x"
| "join sep (x # xs) = x @ sep @ join sep xs"

section \<open>Lemmas\<close>

lemma and_then_Err [simp, result_simps]: "and_then (Err e) f = Err e"
  by (simp add: and_then_def)

lemma and_then_Ok [simp, result_simps]: "and_then (Ok a) f = f a"
  by (simp add: and_then_def)

lemma and_then_eq_Ok [simp]: "and_then r f = Ok b \<longleftrightarrow> (\<exists>a. r = Ok a \<and> f a = Ok b)"
  by (cases r) auto

lemma and_then_eq_Err:
  "and_then r f = Err e \<longleftrightarrow> r = Err e \<or> (\<exists>a. r = Ok a \<and> f a = Err e)"
  by (cases r) auto

lemma and_then_assoc: "and_then (and_then r f) g = and_then r (\<lambda>a. and_then (f a) g)"
  by (cases r) auto

lemma and_then_cong_weak [fundef_cong]:
  "r = r' \<Longrightarrow> (\<And>a. f a = g a) \<Longrightarrow> and_then r f = and_then r' g"
  by (cases r') auto

lemma and_then_Ok_right [simp]: "and_then r Ok = r"
  by (cases r) auto

lemma map_err_simps [simp, result_simps]:
  "map_err f (Err e) = Err (f e)" "map_err f (Ok a) = Ok a"
  by (simp_all add: map_err_def)

lemma map_err_eq_Ok [simp]: "map_err f r = Ok a \<longleftrightarrow> r = Ok a"
  by (cases r) auto

lemma is_ok_simps [simp, result_simps]: "is_ok (Err e) = False" "is_ok (Ok a) = True"
  by (simp_all add: is_ok_def)

lemma try_fold_Nil [simp]: "try_fold f [] = Ok"
  by (intro ext) simp

lemma try_fold_append:
  "try_fold f (xs @ ys) s = and_then (try_fold f xs s) (try_fold f ys)"
proof (induction xs arbitrary: s)
  case (Cons x xs)
  then have "try_fold f (xs @ ys) = (\<lambda>a. and_then (try_fold f xs a) (try_fold f ys))"
    by (intro ext)
  then show ?case by (simp add: and_then_assoc)
qed simp

lemma try_fold_invariant:
  assumes "try_fold f xs s = Ok t" "I s"
    and "\<And>x u v. x \<in> set xs \<Longrightarrow> I u \<Longrightarrow> f x u = Ok v \<Longrightarrow> I v"
  shows "I t"
  using assms by (induction xs arbitrary: s) auto

lemma try_each_Ok [simp]: "try_each f xs = Ok u \<longleftrightarrow> (\<forall>x \<in> set xs. f x = Ok ())"
  by (induction xs) auto

lemma sub_list_append: "i \<le> j \<Longrightarrow> j \<le> k \<Longrightarrow> sub_list i j xs @ sub_list j k xs = sub_list i k xs"
proof -
  assume "i \<le> j" "j \<le> k"
  then have "sub_list i k xs = take ((j - i) + (k - j)) (drop i xs)" by (simp add: sub_list_def)
  also have "\<dots> = sub_list i j xs @ sub_list j k xs"
    using \<open>i \<le> j\<close> by (simp only: take_add sub_list_def) simp
  finally show ?thesis by simp
qed

lemma length_sub_list [simp]: "j \<le> length xs \<Longrightarrow> length (sub_list i j xs) = j - i"
  by (auto simp: sub_list_def)

lemma sub_list_full [simp]: "sub_list 0 (length xs) xs = xs"
  by (simp add: sub_list_def)

lemma nth_sub_list: "i + k < j \<Longrightarrow> j \<le> length xs \<Longrightarrow> sub_list i j xs ! k = xs ! (i + k)"
  by (simp add: sub_list_def)

lemma set_sub_list:
  assumes "j \<le> length xs"
  shows "set (sub_list i j xs) = (\<lambda>k. xs ! k) ` {i..<j}"
proof -
  have "sub_list i j xs = map (\<lambda>k. xs ! k) [i..<j]"
    using assms by (intro nth_equalityI) (auto simp: nth_sub_list)
  then show ?thesis by simp
qed

lemma starts_with_append [simp]: "starts_with p (p @ xs)"
  by (simp add: starts_with_def)

lemma starts_with_iff: "starts_with p xs \<longleftrightarrow> (\<exists>ys. xs = p @ ys)"
  by (metis append_take_drop_id starts_with_append starts_with_def)

lemma split_on_nonempty [simp]: "split_on p xs \<noteq> []"
  by (cases xs) (auto split: list.splits)

lemma split_on_no_sep: "f \<in> set (split_on p xs) \<Longrightarrow> x \<in> set f \<Longrightarrow> \<not> p x"
  by (induction xs arbitrary: f) (force split: if_splits list.splits)+

lemma join_Cons: "join sep (x # xs) = x @ (if xs = [] then [] else sep @ join sep xs)"
  by (cases xs) auto

lemma join_split_on: "join [c] (split_on (\<lambda>x. x = c) xs) = xs"
proof (induction xs)
  case (Cons x xs)
  then show ?case
    by (cases "split_on (\<lambda>x. x = c) xs") (auto simp: join_Cons split: if_splits)
qed simp

end
