(* ===== verification/Text.thy ===== *)
theory Text
  imports Prelude
begin

text \<open>
  What the components use of Rust's \<open>str\<close>: UTF-8 (the invariant of every \<open>str\<close>, its one-character
  steps, and the encoding of a scalar value), \<open>trim\<close>, \<open>replace\<close> of one ASCII character, \<open>find\<close>,
  ASCII case folding, and the decimal rendering and parsing of integers. All strings are byte
  lists, so every index below is a byte index as in Rust.
\<close>

section \<open>UTF-8\<close>

definition utf8_cont :: "char \<Rightarrow> bool" where
  "utf8_cont c \<longleftrightarrow> 128 \<le> byte c \<and> byte c \<le> 191"

text \<open>\<open>char::len_utf8\<close> of the character a lead byte starts.\<close>

definition utf8_len :: "char \<Rightarrow> nat" where
  "utf8_len c = (if byte c < 128 then 1 else if byte c < 224 then 2
                 else if byte c < 240 then 3 else 4)"

text \<open>Well-formedness of the first character: the byte ranges \<open>str::from_utf8\<close> accepts.\<close>

definition utf8_first_ok :: "string \<Rightarrow> bool" where
  "utf8_first_ok s \<longleftrightarrow> s \<noteq> [] \<and>
     (byte (hd s) < 128 \<or>
      194 \<le> byte (hd s) \<and> byte (hd s) < 245 \<and> utf8_len (hd s) \<le> length s \<and>
      list_all utf8_cont (take (utf8_len (hd s) - 1) (tl s)) \<and>
      (byte (hd s) = 224 \<longrightarrow> 160 \<le> byte (s ! 1)) \<and>
      (byte (hd s) = 237 \<longrightarrow> byte (s ! 1) \<le> 159) \<and>
      (byte (hd s) = 240 \<longrightarrow> 144 \<le> byte (s ! 1)) \<and>
      (byte (hd s) = 244 \<longrightarrow> byte (s ! 1) \<le> 143))"

lemma utf8_len_pos [simp]: "0 < utf8_len c" "utf8_len c \<noteq> 0"
  by (simp_all add: utf8_len_def)

lemma utf8_drop_le: "Suc n - utf8_len c \<le> n"
  by (simp add: utf8_len_def)

function valid_utf8 :: "string \<Rightarrow> bool" where
  "valid_utf8 s =
     (if s = [] then True
      else if utf8_first_ok s then valid_utf8 (drop (utf8_len (hd s)) s)
      else False)"
  by pat_completeness auto
termination
  by (relation "measure length") simp_all

declare valid_utf8.simps [simp del]

text \<open>\<open>char::from_u32\<close> and the UTF-8 bytes of the character it yields.\<close>

definition is_scalar_value :: "nat \<Rightarrow> bool" where
  "is_scalar_value n \<longleftrightarrow> n < 55296 \<or> 57344 \<le> n \<and> n < 1114112"

definition utf8_encode :: "nat \<Rightarrow> string" where
  "utf8_encode n =
     (if n < 128 then [char_of n]
      else if n < 2048 then [char_of (192 + n div 64), char_of (128 + n mod 64)]
      else if n < 65536 then
        [char_of (224 + n div 4096), char_of (128 + n div 64 mod 64), char_of (128 + n mod 64)]
      else
        [char_of (240 + n div 262144), char_of (128 + n div 4096 mod 64),
         char_of (128 + n div 64 mod 64), char_of (128 + n mod 64)])"

section \<open>Trimming and searching\<close>

text \<open>The encodings of the characters with the Unicode property \<open>White_Space\<close>.\<close>

definition white_space :: "string list" where
  "white_space =
     map (\<lambda>n. utf8_encode n)
       ([9, 10, 11, 12, 13, 32, 133, 160, 5760] @ [8192..<8203] @ [8232, 8233, 8239, 8287, 12288])"

function trim_start :: "string \<Rightarrow> string" where
  "trim_start s = (case find (\<lambda>w. w \<noteq> [] \<and> starts_with w s) white_space of
       None \<Rightarrow> s | Some w \<Rightarrow> trim_start (drop (length w) s))"
  by pat_completeness auto
termination
proof (relation "measure length")
  fix s w :: string
  assume "find (\<lambda>w. w \<noteq> [] \<and> starts_with w s) white_space = Some w"
  then have "w \<noteq> []" "starts_with w s" by (auto simp: find_Some_iff)
  then show "(drop (length w) s, s) \<in> measure length"
    by (auto simp: starts_with_iff)
qed simp

function trim_end_rev :: "string \<Rightarrow> string" where
  "trim_end_rev s = (case find (\<lambda>w. w \<noteq> [] \<and> starts_with (rev w) s) white_space of
       None \<Rightarrow> s | Some w \<Rightarrow> trim_end_rev (drop (length w) s))"
  by pat_completeness auto
termination
proof (relation "measure length")
  fix s w :: string
  assume "find (\<lambda>w. w \<noteq> [] \<and> starts_with (rev w) s) white_space = Some w"
  then have "w \<noteq> []" "starts_with (rev w) s" by (auto simp: find_Some_iff)
  then show "(drop (length w) s, s) \<in> measure length"
    by (auto simp: starts_with_iff)
qed simp

declare trim_start.simps [simp del] trim_end_rev.simps [simp del]

definition trim :: "string \<Rightarrow> string" where
  "trim s = rev (trim_end_rev (rev (trim_start s)))"

definition strip_suffix :: "'a list \<Rightarrow> 'a list \<Rightarrow> 'a list option" where
  "strip_suffix p xs = map_option rev (strip_prefix (rev p) (rev xs))"

text \<open>\<open>str::find\<close>: the index of the first occurrence of \<open>p\<close>.\<close>

fun find_sub :: "'a list \<Rightarrow> 'a list \<Rightarrow> nat option" where
  "find_sub p [] = (if p = [] then Some 0 else None)"
| "find_sub p (x # xs) =
     (if starts_with p (x # xs) then Some 0 else map_option Suc (find_sub p xs))"

text \<open>\<open>str::replace\<close> of one character by two copies of it.\<close>

definition double_char :: "char \<Rightarrow> string \<Rightarrow> string" where
  "double_char q s = concat (map (\<lambda>c. if c = q then [q, q] else [c]) s)"

definition to_ascii_lowercase :: "string \<Rightarrow> string" where
  "to_ascii_lowercase s = map (\<lambda>c. if is_ascii_uppercase c then char_of (byte c + 32) else c) s"

section \<open>Integers as text\<close>

fun dec :: "nat \<Rightarrow> string" where
  "dec n = (if n < 10 then [char_of (48 + n)] else dec (n div 10) @ [char_of (48 + n mod 10)])"

declare dec.simps [simp del]

definition dec_int :: "int \<Rightarrow> string" where
  "dec_int i = (if i < 0 then ''-'' @ dec (nat (- i)) else dec (nat i))"

text \<open>\<open>char::to_digit\<close>; \<open>from_str_radix\<close> on a string of digits.\<close>

definition digit_of :: "char \<Rightarrow> nat" where
  "digit_of c = (if is_ascii_digit c then byte c - 48
                 else if is_ascii_lowercase c then byte c - 87
                 else if is_ascii_uppercase c then byte c - 55 else 255)"

definition is_digit :: "nat \<Rightarrow> char \<Rightarrow> bool" where
  "is_digit radix c \<longleftrightarrow> digit_of c < radix"

definition number :: "nat \<Rightarrow> string \<Rightarrow> nat" where
  "number radix s = foldl (\<lambda>n c. n * radix + digit_of c) 0 s"

section \<open>Lemmas\<close>

lemma byte_lt_256 [simp]: "byte c < 256"
  by (simp add: byte_def)

lemma byte_char_of [simp]: "byte (char_of n) = n mod 256"
  by (simp add: byte_def)

lemma byte_eq_iff: "byte c = byte d \<longleftrightarrow> c = d"
  by (simp add: byte_def)

lemma valid_utf8_Nil [simp]: "valid_utf8 []"
  by (simp add: valid_utf8.simps)

lemma valid_utf8_ascii_Cons:
  "byte c < 128 \<Longrightarrow> valid_utf8 (c # s) \<longleftrightarrow> valid_utf8 s"
  by (subst valid_utf8.simps) (simp add: utf8_first_ok_def utf8_len_def)

lemma valid_utf8_ascii: "\<forall>c \<in> set s. byte c < 128 \<Longrightarrow> valid_utf8 s"
  by (induction s) (auto simp: valid_utf8_ascii_Cons)

lemma utf8_first_length: "utf8_first_ok (c # cs) \<Longrightarrow> utf8_len c \<le> length (c # cs)"
  by (auto simp: utf8_first_ok_def utf8_len_def)

text \<open>The bytes of a multi-byte character are all non-ASCII.\<close>

lemma utf8_first_high:
  assumes "utf8_first_ok (c # cs)" "128 \<le> byte c" "x \<in> set (take (utf8_len c) (c # cs))"
  shows "128 \<le> byte x"
proof -
  have "list_all utf8_cont (take (utf8_len c - 1) cs)"
    using assms(1,2) by (simp add: utf8_first_ok_def)
  moreover have "take (utf8_len c) (c # cs) = c # take (utf8_len c - 1) cs"
    by (cases "utf8_len c") auto
  ultimately show ?thesis
    using assms(2,3) by (auto simp: list_all_iff utf8_cont_def)
qed

lemma utf8_first_append:
  assumes "utf8_first_ok s"
  shows "utf8_first_ok (s @ t)"
proof (cases "byte (hd s) < 128")
  case False
  with assms obtain c cs where s: "s = c # cs" by (cases s) (auto simp: utf8_first_ok_def)
  have len: "utf8_len c \<le> Suc (length cs)" using utf8_first_length [of c cs] assms s by simp
  then have "take (utf8_len c - 1) (cs @ t) = take (utf8_len c - 1) cs" by auto
  moreover have "(s @ t) ! 1 = s ! 1"
    using len False by (cases cs) (auto simp: s utf8_len_def split: if_splits)
  ultimately show ?thesis
    using assms False len unfolding utf8_first_ok_def by (simp add: s)
qed (use assms in \<open>simp add: utf8_first_ok_def\<close>)

lemma valid_utf8_append: "valid_utf8 s \<Longrightarrow> valid_utf8 t \<Longrightarrow> valid_utf8 (s @ t)"
proof (induction s rule: valid_utf8.induct)
  case (1 s)
  show ?case
  proof (cases s)
    case (Cons c cs)
    from 1(2) Cons have ok: "utf8_first_ok s" "valid_utf8 (drop (utf8_len c) s)"
      using valid_utf8.simps [of s] by (auto split: if_splits)
    have "drop (utf8_len c) (s @ t) = drop (utf8_len c) s @ t"
      using utf8_first_length [of c cs] ok(1) Cons by (simp only: drop_append) simp
    moreover have "valid_utf8 (drop (utf8_len c) s @ t)"
      using 1 ok Cons by simp
    ultimately show ?thesis
      using Cons ok(1) utf8_first_append [of s t] by (subst valid_utf8.simps) simp
  qed (use 1 in simp)
qed

lemma double_char_Nil [simp]: "double_char q [] = []"
  by (simp add: double_char_def)

lemma double_char_Cons [simp]:
  "double_char q (c # s) = (if c = q then q # q # double_char q s else c # double_char q s)"
  by (simp add: double_char_def)

lemma double_char_append: "double_char q (s @ t) = double_char q s @ double_char q t"
  by (simp add: double_char_def)

lemma double_char_absent: "q \<notin> set s \<Longrightarrow> double_char q s = s"
  by (induction s) auto

lemma length_double_char: "length s \<le> length (double_char q s)"
  by (induction s) auto

lemma dec_digits: "c \<in> set (dec n) \<Longrightarrow> is_ascii_digit c"
proof (induction n rule: dec.induct)
  case (1 n)
  then show ?case
    by (cases "n < 10") (auto simp: dec.simps [of n] is_ascii_digit_def)
qed

lemma dec_nonempty [simp]: "dec n \<noteq> []"
  by (subst dec.simps) simp

lemma number_snoc: "number r (s @ [c]) = number r s * r + digit_of c"
  by (simp add: number_def)

lemma digit_of_char: "n < 10 \<Longrightarrow> digit_of (char_of (48 + n)) = n"
  by (simp add: digit_of_def ascii_defs)

lemma number_dec: "number 10 (dec n) = n"
proof (induction n rule: dec.induct)
  case (1 n)
  then show ?case
    by (subst dec.simps) (auto simp: number_snoc digit_of_char number_def [of 10 "[_]"])
qed

lemma white_space_eval [simp]:
  "white_space = map utf8_encode
     [9, 10, 11, 12, 13, 32, 133, 160, 5760, 8192, 8193, 8194, 8195, 8196, 8197, 8198, 8199, 8200,
      8201, 8202, 8232, 8233, 8239, 8287, 12288]"
  by (simp add: white_space_def upt_rec_numeral)

lemma white_space_not_graphic:
  assumes "w \<in> set white_space" "c \<in> set w"
  shows "\<not> is_ascii_graphic c"
proof -
  have "list_all (\<lambda>w. list_all (\<lambda>c. \<not> is_ascii_graphic c) w) white_space"
    by (simp add: utf8_encode_def is_ascii_graphic_def)
  then show ?thesis using assms by (auto simp only: list_all_iff)
qed

declare white_space_eval [simp del]

lemma white_space_prefix:
  assumes "\<forall>c \<in> set s. is_ascii_graphic c" "w \<in> set white_space" "w \<noteq> []"
  shows "\<not> starts_with w s" "\<not> starts_with (rev w) s"
proof -
  have "\<not> (\<exists>ys. s = w @ ys)" "\<not> (\<exists>ys. s = rev w @ ys)"
    using white_space_not_graphic [OF assms(2), of "hd w"] assms by auto
  then show "\<not> starts_with w s" "\<not> starts_with (rev w) s"
    by (simp_all add: starts_with_iff)
qed

lemma trim_graphic:
  assumes "\<forall>c \<in> set s. is_ascii_graphic c"
  shows "trim s = s"
proof -
  have "find (\<lambda>w. w \<noteq> [] \<and> starts_with w s) white_space = None"
    "find (\<lambda>w. w \<noteq> [] \<and> starts_with (rev w) (rev s)) white_space = None"
    using white_space_prefix(1) [OF assms] white_space_prefix(2) [of "rev s"] assms
    by (auto simp: find_None_iff)
  then have "trim_start s = s" "trim_end_rev (rev s) = rev s"
    using trim_start.simps [of s] trim_end_rev.simps [of "rev s"] by simp_all
  then show ?thesis by (simp add: trim_def)
qed

lemma strip_prefix_append [simp]: "strip_prefix p (p @ xs) = Some xs"
  by (simp add: strip_prefix_def)

lemma strip_suffix_append [simp]: "strip_suffix p (xs @ p) = Some xs"
  by (simp add: strip_suffix_def strip_prefix_def)

lemma split_on_join:
  assumes "xs \<noteq> []" "\<forall>x \<in> set xs. c \<notin> set x"
  shows "split_on (\<lambda>y. y = c) (join [c] xs) = xs"
proof -
  have field: "c \<notin> set f \<Longrightarrow> split_on (\<lambda>y. y = c) (f @ c # r) = f # split_on (\<lambda>y. y = c) r"
    and single: "c \<notin> set f \<Longrightarrow> split_on (\<lambda>y. y = c) f = [f]" for f r
    by (induction f) auto
  show ?thesis
    using assms by (induction xs rule: induct_list012) (auto simp: field single)
qed

section \<open>Cutting UTF-8 at ASCII bytes\<close>

lemma valid_utf8_Cons_cases:
  assumes "valid_utf8 (c # cs)"
  obtains (ascii) "byte c < 128" "valid_utf8 cs"
  | (multi) u r where "128 \<le> byte c" "c # cs = u @ r" "length u = utf8_len c" "u = c # tl u"
      "\<forall>x \<in> set u. 128 \<le> byte x" "valid_utf8 r" "utf8_first_ok (c # cs)"
proof (cases "byte c < 128")
  case True
  then show ?thesis using assms ascii valid_utf8_ascii_Cons by blast
next
  case False
  have ok: "utf8_first_ok (c # cs)" "valid_utf8 (drop (utf8_len c) (c # cs))"
    using assms valid_utf8.simps [of "c # cs"] by (auto split: if_splits)
  have take_c: "take (utf8_len c) (c # cs) = c # take (utf8_len c - 1) cs"
    by (cases "utf8_len c") auto
  show ?thesis
  proof (rule multi [of "take (utf8_len c) (c # cs)" "drop (utf8_len c) (c # cs)"])
    show "take (utf8_len c) (c # cs) = c # tl (take (utf8_len c) (c # cs))"
      by (simp add: take_c)
    show "length (take (utf8_len c) (c # cs)) = utf8_len c"
      using utf8_first_length [OF ok(1)] by simp
    show "\<forall>x \<in> set (take (utf8_len c) (c # cs)). 128 \<le> byte x"
      using utf8_first_high [OF ok(1)] False by auto
  qed (use ok False in simp_all)
qed

lemma utf8_first_prefix:
  assumes "utf8_first_ok (u @ t)" "length u = utf8_len c" "u = c # us" "128 \<le> byte c"
  shows "utf8_first_ok (u @ t')"
proof -
  have two: "2 \<le> length u" using assms(2,4) by (auto simp: utf8_len_def)
  then have nth: "(u @ t) ! 1 = u ! 1" "(u @ t') ! 1 = u ! 1" by (simp_all add: nth_append)
  have "take (utf8_len c - 1) (us @ t) = us" "take (utf8_len c - 1) (us @ t') = us"
    using assms(2,3) by simp_all
  then show ?thesis
    using assms nth unfolding utf8_first_ok_def by (simp add: assms(3))
qed

lemma valid_utf8_cut:
  assumes "byte c < 128"
  shows "valid_utf8 (x @ c # y) \<longleftrightarrow> valid_utf8 x \<and> valid_utf8 y"
proof
  show "valid_utf8 (x @ c # y)" if "valid_utf8 x \<and> valid_utf8 y"
    using that assms by (intro valid_utf8_append) (simp_all add: valid_utf8_ascii_Cons)
  show "valid_utf8 x \<and> valid_utf8 y" if "valid_utf8 (x @ c # y)"
    using that
  proof (induction "length x" arbitrary: x rule: less_induct)
    case less
    show ?case
    proof (cases x)
      case Nil
      then show ?thesis using less(2) assms by (simp add: valid_utf8_ascii_Cons)
    next
      case (Cons d ds)
      have "valid_utf8 (d # (ds @ c # y))" using less(2) Cons by simp
      then show ?thesis
      proof (cases rule: valid_utf8_Cons_cases)
        case ascii
        then show ?thesis using less(1) [of ds] Cons by (simp add: valid_utf8_ascii_Cons)
      next
        case (multi u r)
        have "length u \<le> length x"
        proof (rule ccontr)
          assume "\<not> length u \<le> length x"
          then have "u ! length x = c"
            using multi(2) Cons by (metis append_Cons not_le nth_append nth_append_length)
          then show False using multi(5) assms \<open>\<not> length u \<le> length x\<close>
            by (metis not_le nth_mem)
        qed
        then obtain v where v: "x = u @ v" "r = v @ c # y"
          using multi(2) Cons by (metis append_Cons append_eq_append_conv_if append_take_drop_id)
        have "length v < length x" using v(1) multi(4) by (cases u) auto
        then have "valid_utf8 v" "valid_utf8 y" using less(1) [of v] multi(6) v(2) by simp_all
        moreover have "utf8_first_ok x"
          using utf8_first_prefix [of u r d "tl u" v] multi v by metis
        moreover have "drop (utf8_len d) x = v" using v multi(3) by simp
        ultimately show ?thesis using valid_utf8.simps [of x] Cons by simp
      qed
    qed
  qed
qed

end
