(* ===== verification/Templates.thy ===== *)
theory Templates
  imports Text
begin

text \<open>
  \<open>core/src/registry.rs\<close>: a registry entry, the quoting of identifiers and literals, the SQL
  fragments built for an entry, the grammar of format templates and the render and length
  expressions built from them, and pgvector's text format.

  A function that indexes \<open>pk_columns[0]\<close> or unwraps a stored template panics when the entry
  is malformed; such a function returns an option here, and \<open>None\<close> is the panic.
\<close>

section \<open>Registry entries and quoting\<close>

record registry_entry =
  re_id :: int
  re_table_schema :: string
  re_table_name :: string
  re_source_column :: string
  re_vector_column :: string
  re_pk_columns :: "string list"
  re_pk_types :: "string list"
  re_model :: string
  re_space :: "string option"
  re_dim :: int
  re_fts_config :: string
  re_distance :: string
  re_backfill_mode :: string
  re_backfill_watermark :: "string option"
  re_state :: string
  re_trigger_mode :: string
  re_owns_vector_column :: bool
  re_format :: "string option"
  re_index_mode :: string
  re_index_error :: "string option"
  re_chunking :: string
  re_chunk_size :: "int option"
  re_chunk_overlap :: "int option"
  re_destination_schema :: "string option"
  re_destination_table :: "string option"
  re_destination_view :: "string option"
  re_destination_token :: "string option"

abbreviation apos :: char where "apos \<equiv> CHR 0x27"
abbreviation dquote :: char where "dquote \<equiv> CHR 0x22"
abbreviation backslash :: char where "backslash \<equiv> CHR 0x5C"

definition quote_ident :: "string \<Rightarrow> string" where
  "quote_ident s = [dquote] @ double_char dquote s @ [dquote]"

definition quote_literal :: "string \<Rightarrow> string" where
  "quote_literal s = [apos] @ double_char apos s @ [apos]"

definition quote_literal_estring :: "string \<Rightarrow> string" where
  "quote_literal_estring s =
     ''E'' @ [apos] @
     concat (map (\<lambda>ch. if ch = backslash then [backslash, backslash]
                       else if ch = apos then [backslash, apos] else [ch]) s) @ [apos]"

definition distance_op :: "string \<Rightarrow> string" where
  "distance_op d = (if d = ''l2'' then ''<->'' else if d = ''ip'' then ''<#>'' else ''<=>'')"

definition distance_opclass :: "string \<Rightarrow> string" where
  "distance_opclass d =
     (if d = ''l2'' then ''vector_l2_ops'' else if d = ''ip'' then ''vector_ip_ops''
      else ''vector_cosine_ops'')"

definition halfvec_opclass :: "string \<Rightarrow> string" where
  "halfvec_opclass d =
     (if d = ''l2'' then ''halfvec_l2_ops'' else if d = ''ip'' then ''halfvec_ip_ops''
      else ''halfvec_cosine_ops'')"

definition expected_ann_opclass :: "string \<Rightarrow> int \<Rightarrow> string" where
  "expected_ann_opclass d dim = (if dim > 2000 then halfvec_opclass d else distance_opclass d)"

definition KEY_SETTINGS :: "(string \<times> string) list" where
  "KEY_SETTINGS =
     [(''DateStyle'', ''ISO, MDY''), (''TimeZone'', ''UTC''), (''IntervalStyle'', ''postgres'')]"

definition key_settings_clause :: string where
  "key_settings_clause =
     join '' '' (map (\<lambda>(name, value). ''SET '' @ name @ '' TO '' @ quote_literal value)
                     KEY_SETTINGS)"

definition qualified_table :: "registry_entry \<Rightarrow> string" where
  "qualified_table e = quote_ident (re_table_schema e) @ ''.'' @ quote_ident (re_table_name e)"

definition is_recursive :: "registry_entry \<Rightarrow> bool" where
  "is_recursive e \<longleftrightarrow> re_chunking e = ''recursive''"

definition qualified_source_table :: "registry_entry \<Rightarrow> string" where
  "qualified_source_table e = qualified_table e"

definition qualified_vector_table :: "registry_entry \<Rightarrow> string" where
  "qualified_vector_table e =
     (case (re_destination_schema e, re_destination_table e) of
        (Some s, Some t) \<Rightarrow> quote_ident s @ ''.'' @ quote_ident t
      | _ \<Rightarrow> qualified_table e)"

definition qualified_destination_view :: "registry_entry \<Rightarrow> string option" where
  "qualified_destination_view e =
     (case (re_destination_schema e, re_destination_view e) of
        (Some s, Some v) \<Rightarrow> Some (quote_ident s @ ''.'' @ quote_ident v)
      | _ \<Rightarrow> None)"

text \<open>\<open>v[0]\<close>: \<open>None\<close> is the index panic.\<close>

definition first_of :: "'a list \<Rightarrow> 'a option" where
  "first_of xs = (case xs of [] \<Rightarrow> None | x # _ \<Rightarrow> Some x)"

definition source_pk_join :: "registry_entry \<Rightarrow> string \<Rightarrow> string \<Rightarrow> string option" where
  "source_pk_join e source_alias dest_alias =
     map_option (\<lambda>c. source_alias @ ''.'' @ quote_ident c @ '' = '' @ dest_alias
                       @ ''.postvec_source_pk'')
       (first_of (re_pk_columns e))"

definition is_composite_pk :: "registry_entry \<Rightarrow> bool" where
  "is_composite_pk e \<longleftrightarrow> length (re_pk_columns e) > 1"

definition alias_prefix :: "string \<Rightarrow> string" where
  "alias_prefix a = (if a = [] then [] else a @ ''.'')"

definition pk_text_expr :: "registry_entry \<Rightarrow> string \<Rightarrow> string option" where
  "pk_text_expr e a =
     (if is_composite_pk e
      then Some (''ROW('' @ join '', '' (map (\<lambda>c. alias_prefix a @ quote_ident c) (re_pk_columns e))
                 @ '')::text'')
      else map_option (\<lambda>c. alias_prefix a @ quote_ident c @ ''::text'')
             (first_of (re_pk_columns e)))"

definition pk_any_clause :: "registry_entry \<Rightarrow> string \<Rightarrow> string \<Rightarrow> string option" where
  "pk_any_clause e a param =
     (if is_composite_pk e
      then map_option (\<lambda>x. x @ '' = ANY('' @ param @ '')'') (pk_text_expr e a)
      else case (first_of (re_pk_columns e), first_of (re_pk_types e)) of
             (Some c, Some t) \<Rightarrow>
               Some (alias_prefix a @ quote_ident c @ '' = ANY('' @ param @ ''::'' @ t @ ''[])'')
           | _ \<Rightarrow> None)"

definition pk_staging_join_clause ::
  "registry_entry \<Rightarrow> string \<Rightarrow> string \<Rightarrow> string \<Rightarrow> string option" where
  "pk_staging_join_clause e a staging_alias staging_col =
     (if is_composite_pk e
      then map_option (\<lambda>x. x @ '' = '' @ staging_alias @ ''.'' @ quote_ident staging_col)
             (pk_text_expr e a)
      else case (first_of (re_pk_columns e), first_of (re_pk_types e)) of
             (Some c, Some t) \<Rightarrow>
               Some (alias_prefix a @ quote_ident c @ '' = '' @ staging_alias @ ''.''
                     @ quote_ident staging_col @ ''::'' @ t)
           | _ \<Rightarrow> None)"

definition collate_c :: string where
  "collate_c = '' COLLATE '' @ [dquote] @ ''C'' @ [dquote]"

definition pk_order_expr :: "registry_entry \<Rightarrow> string \<Rightarrow> string option" where
  "pk_order_expr e a =
     (if is_composite_pk e then map_option (\<lambda>x. x @ collate_c) (pk_text_expr e a)
      else map_option (\<lambda>c. alias_prefix a @ quote_ident c) (first_of (re_pk_columns e)))"

definition pk_watermark_clause :: "registry_entry \<Rightarrow> string \<Rightarrow> string \<Rightarrow> string option" where
  "pk_watermark_clause e a watermark =
     (case pk_order_expr e a of
        None \<Rightarrow> None
      | Some x \<Rightarrow>
          if is_composite_pk e
          then Some ('' AND '' @ x @ '' > '' @ quote_literal watermark @ collate_c)
          else map_option (\<lambda>t. '' AND '' @ x @ '' > '' @ quote_literal watermark @ ''::'' @ t)
                 (first_of (re_pk_types e)))"

definition destination_comment :: "registry_entry \<Rightarrow> string \<Rightarrow> string \<Rightarrow> string" where
  "destination_comment e what token =
     ''postvec: managed chunk '' @ what @ '' for '' @ re_table_schema e @ ''.'' @ re_table_name e
     @ ''.'' @ re_source_column e @ '' (registry entry '' @ dec_int (re_id e)
     @ ''); ownership token '' @ token @ ''. Automatic teardown requires this exact comment.''"

definition destination_comments :: "registry_entry \<Rightarrow> (string \<times> string) option" where
  "destination_comments e =
     map_option (\<lambda>token. (destination_comment e ''destination'' token,
                          destination_comment e ''join view'' token))
       (re_destination_token e)"

section \<open>Format templates\<close>

definition FORMAT_MAX_BYTES :: nat where "FORMAT_MAX_BYTES = 16 * 1024"
definition FORMAT_MAX_REFS :: nat where "FORMAT_MAX_REFS = 64"

datatype format_seg = Literal string | Column string

datatype format_msg =
    TemplateEmpty
  | TemplateTooLong nat
  | UnclosedReference
  | EmptyReference
  | DanglingDollar
  | TooManyColumns nat

record format_error =
  fe_pos :: nat
  fe_msg :: format_msg

definition format_error :: "nat \<Rightarrow> format_msg \<Rightarrow> format_error" where
  "format_error p m = \<lparr>fe_pos = p, fe_msg = m\<rparr>"

definition name_start :: "char \<Rightarrow> bool" where
  "name_start c \<longleftrightarrow> is_ascii_alphabetic c \<or> c = CHR ''_''"

definition name_char :: "char \<Rightarrow> bool" where
  "name_char c \<longleftrightarrow> is_ascii_alphanumeric c \<or> c = CHR ''_''"

definition push_column :: "format_seg list \<Rightarrow> string \<Rightarrow> string \<Rightarrow> format_seg list" where
  "push_column segs lit name = segs @ (if lit = [] then [] else [Literal lit]) @ [Column name]"

text \<open>The loop inside braces: the decoded name and the rest after the closing brace.\<close>

fun brace_name :: "string \<Rightarrow> (string \<times> string) option" where
  "brace_name [] = None"
| "brace_name (c # cs) =
     (if c = CHR ''}''
      then (case cs of
              [] \<Rightarrow> Some ([], [])
            | d # ds \<Rightarrow> if d = CHR ''}''
                       then map_option (\<lambda>(n, r). (CHR ''}'' # n, r)) (brace_name ds)
                       else Some ([], cs))
      else map_option (\<lambda>(n, r). (c # n, r)) (brace_name cs))"

lemma brace_name_rest: "brace_name cs = Some (n, r) \<Longrightarrow> length r < length cs"
  by (induction cs arbitrary: n r rule: brace_name.induct)
     (fastforce split: if_splits list.splits)+

function parse_loop ::
  "nat \<Rightarrow> string \<Rightarrow> string \<Rightarrow> format_seg list \<Rightarrow> format_error + string \<times> format_seg list" where
  "parse_loop pos [] lit segs = Ok (lit, segs)"
| "parse_loop pos (ch # cs) lit segs =
     (if ch \<noteq> CHR ''$'' then parse_loop (pos + 1) cs (lit @ [ch]) segs
      else case cs of
        [] \<Rightarrow> Err (format_error pos DanglingDollar)
      | c # ds \<Rightarrow>
          if c = CHR ''$'' then parse_loop (pos + 2) ds (lit @ ''$'') segs
          else if name_start c
          then let name = takeWhile name_char cs in
               parse_loop (pos + 1 + length name) (dropWhile name_char cs) []
                 (push_column segs lit name)
          else if c = CHR ''{''
          then (case brace_name ds of
                  None \<Rightarrow> Err (format_error (pos + 1) UnclosedReference)
                | Some (name, r) \<Rightarrow>
                    if name = [] then Err (format_error (pos + 1) EmptyReference)
                    else parse_loop (pos + (2 + length ds - length r)) r []
                           (push_column segs lit name))
          else Err (format_error pos DanglingDollar))"
  by pat_completeness auto
termination
  by (relation "measure (\<lambda>(pos, s, lit, segs). length s)")
     (auto simp: name_start_def name_char_def is_ascii_alphanumeric_def
           dest: brace_name_rest intro!: le_imp_less_Suc order_trans [OF length_dropWhile_le])

fun format_referenced_columns_from :: "format_seg list \<Rightarrow> string list \<Rightarrow> string list" where
  "format_referenced_columns_from [] out = out"
| "format_referenced_columns_from (Literal s # segs) out = format_referenced_columns_from segs out"
| "format_referenced_columns_from (Column c # segs) out =
     format_referenced_columns_from segs (if c \<in> set out then out else out @ [c])"

definition format_referenced_columns :: "format_seg list \<Rightarrow> string list" where
  "format_referenced_columns segs = format_referenced_columns_from segs []"

definition parse_format :: "string \<Rightarrow> format_error + format_seg list" where
  "parse_format template =
     (if template = [] then Err (format_error 0 TemplateEmpty)
      else if length template > FORMAT_MAX_BYTES
      then Err (format_error FORMAT_MAX_BYTES (TemplateTooLong (length template)))
      else and_then (parse_loop 0 template [] [])
        (\<lambda>(lit, segs).
           let segs = (if lit = [] then segs else segs @ [Literal lit]);
               distinct_refs = format_referenced_columns segs in
           if length distinct_refs > FORMAT_MAX_REFS
           then Err (format_error 0 (TooManyColumns (length distinct_refs)))
           else Ok segs))"

definition referenced_columns :: "registry_entry \<Rightarrow> format_error + string list" where
  "referenced_columns e =
     (case re_format e of
        None \<Rightarrow> Ok [re_source_column e]
      | Some t \<Rightarrow> and_then (parse_format t) (\<lambda>segs.
          let refs = format_referenced_columns segs in
          Ok (if is_recursive e
              then foldl (\<lambda>out c. if c \<noteq> ''chunk'' \<and> c \<notin> set out then out @ [c] else out)
                     [re_source_column e] refs
              else refs)))"

section \<open>Render and length expressions\<close>

definition column_text :: "string \<Rightarrow> string \<Rightarrow> string" where
  "column_text prefix c = ''COALESCE('' @ prefix @ quote_ident c @ ''::text, '' @ [apos, apos] @ '')''"

definition column_len :: "string \<Rightarrow> string \<Rightarrow> string" where
  "column_len prefix c =
     ''COALESCE(octet_length('' @ prefix @ quote_ident c @ ''::text)::bigint, 0)''"

definition anchored :: "string \<Rightarrow> string \<Rightarrow> string" where
  "anchored src body = ''CASE WHEN '' @ src @ '' IS NOT NULL THEN '' @ body @ '' END''"

definition format_expr :: "registry_entry \<Rightarrow> string \<Rightarrow> string option" where
  "format_expr e a =
     (let prefix = alias_prefix a; src = prefix @ quote_ident (re_source_column e) in
      case re_format e of
        None \<Rightarrow> Some (src @ ''::text'')
      | Some t \<Rightarrow>
          (case parse_format t of
             Inl _ \<Rightarrow> None
           | Inr segs \<Rightarrow> Some (anchored src (join '' || ''
               (map (\<lambda>seg. case seg of Literal s \<Rightarrow> quote_literal_estring s
                                     | Column c \<Rightarrow> column_text prefix c) segs)))))"

definition chunk_format_expr :: "registry_entry \<Rightarrow> string \<Rightarrow> string \<Rightarrow> string option" where
  "chunk_format_expr e source_alias chunk_alias =
     (let chunk = chunk_alias @ ''.chunk_text'' in
      case re_format e of
        None \<Rightarrow> Some chunk
      | Some t \<Rightarrow>
          (let prefix = alias_prefix source_alias;
               src = prefix @ quote_ident (re_source_column e) in
           case parse_format t of
             Inl _ \<Rightarrow> None
           | Inr segs \<Rightarrow> Some (anchored src (join '' || ''
               (map (\<lambda>seg. case seg of Literal s \<Rightarrow> quote_literal_estring s
                                     | Column c \<Rightarrow> if c = ''chunk'' then chunk
                                                   else column_text prefix c) segs)))))"

definition literal_bytes :: "format_seg list \<Rightarrow> nat" where
  "literal_bytes segs = sum_list (map (\<lambda>seg. case seg of Literal s \<Rightarrow> length s | Column _ \<Rightarrow> 0) segs)"

definition len_sum :: "format_seg list \<Rightarrow> (string \<Rightarrow> string) \<Rightarrow> string" where
  "len_sum segs term =
     dec (literal_bytes segs) @ ''::bigint'' @
     concat (map (\<lambda>seg. case seg of Literal s \<Rightarrow> [] | Column c \<Rightarrow> '' + '' @ term c) segs)"

definition format_len_expr :: "registry_entry \<Rightarrow> string \<Rightarrow> string option" where
  "format_len_expr e a =
     (let prefix = alias_prefix a; src = prefix @ quote_ident (re_source_column e) in
      case re_format e of
        None \<Rightarrow> Some (''octet_length('' @ src @ ''::text)::bigint'')
      | Some t \<Rightarrow>
          (case parse_format t of
             Inl _ \<Rightarrow> None
           | Inr segs \<Rightarrow> Some (anchored src (len_sum segs (column_len prefix)))))"

definition chunk_format_len_expr :: "registry_entry \<Rightarrow> string \<Rightarrow> string \<Rightarrow> string option" where
  "chunk_format_len_expr e source_alias chunk_alias =
     (let chunk_len = ''octet_length('' @ chunk_alias @ ''.chunk_text)::bigint'' in
      case re_format e of
        None \<Rightarrow> Some chunk_len
      | Some t \<Rightarrow>
          (let prefix = alias_prefix source_alias;
               src = prefix @ quote_ident (re_source_column e) in
           case parse_format t of
             Inl _ \<Rightarrow> None
           | Inr segs \<Rightarrow> Some (anchored src (len_sum segs
               (\<lambda>c. if c = ''chunk'' then chunk_len else column_len prefix c)))))"

section \<open>pgvector's text format\<close>

text \<open>\<open>f32::to_string\<close> and \<open>str::parse::<f32>\<close> are the parameters \<open>fmt\<close> and \<open>prs\<close>.\<close>

definition serialize_vector :: "('f \<Rightarrow> string) \<Rightarrow> 'f list \<Rightarrow> string" where
  "serialize_vector fmt v = ''['' @ join '','' (map fmt v) @ '']''"

datatype vector_error = NotAVector string | BadFloat string

definition parse_vector :: "(string \<Rightarrow> 'f option) \<Rightarrow> string \<Rightarrow> vector_error + 'f list" where
  "parse_vector prs s =
     (case Option.bind (strip_prefix ''['' (trim s)) (strip_suffix '']'') of
        None \<Rightarrow> Err (NotAVector s)
      | Some inner \<Rightarrow>
          if trim inner = [] then Ok []
          else try_fold (\<lambda>f out. case prs (trim f) of
                            None \<Rightarrow> Err (BadFloat f) | Some x \<Rightarrow> Ok (out @ [x]))
                 (split_on (\<lambda>c. c = CHR '','') inner) [])"

section \<open>The templates a segment list can be written as\<close>

definition simple_name :: "string \<Rightarrow> bool" where
  "simple_name n \<longleftrightarrow> n \<noteq> [] \<and> name_start (hd n) \<and> list_all name_char n"

text \<open>
  \<open>expressible\<close> is the image of the parser: literals are non-empty and coalesced, names are
  non-empty, and a literal that starts with a closing brace never follows a reference whose
  name needs braces (the two would be read as an escaped brace).
\<close>

fun expressible :: "format_seg list \<Rightarrow> bool" where
  "expressible [] \<longleftrightarrow> True"
| "expressible (Literal s # segs) \<longleftrightarrow>
     s \<noteq> [] \<and> (case segs of Literal _ # _ \<Rightarrow> False | _ \<Rightarrow> True) \<and> expressible segs"
| "expressible (Column c # segs) \<longleftrightarrow>
     c \<noteq> [] \<and>
     (case segs of Literal s # _ \<Rightarrow> simple_name c \<or> s = [] \<or> hd s \<noteq> CHR ''}'' | _ \<Rightarrow> True) \<and>
     expressible segs"

fun print_format :: "format_seg list \<Rightarrow> string" where
  "print_format [] = []"
| "print_format (Literal s # segs) = double_char (CHR ''$'') s @ print_format segs"
| "print_format (Column c # segs) =
     (let rest = print_format segs in
      if simple_name c \<and> (rest = [] \<or> \<not> name_char (hd rest)) then ''$'' @ c @ rest
      else ''${'' @ double_char (CHR ''}'') c @ ''}'' @ rest)"

lemma name_start_char: "name_start c \<Longrightarrow> name_char c"
  by (auto simp: name_start_def name_char_def is_ascii_alphanumeric_def)

lemma name_char_special [simp]:
  "\<not> name_char (CHR ''$'')" "\<not> name_char (CHR ''{'')" "\<not> name_char (CHR ''}'')"
  "\<not> name_start (CHR ''$'')" "\<not> name_start (CHR ''{'')"
  by (simp_all add: name_char_def name_start_def ascii_defs byte_def)

lemma takeWhile_name:
  assumes "list_all name_char c" "rest = [] \<or> \<not> name_char (hd rest)"
  shows "takeWhile name_char (c @ rest) = c" "dropWhile name_char (c @ rest) = rest"
proof -
  have "\<And>x. x \<in> set c \<Longrightarrow> name_char x" using assms(1) by (simp add: list_all_iff)
  then show "takeWhile name_char (c @ rest) = c" "dropWhile name_char (c @ rest) = rest"
    using assms(2) by (simp_all add: takeWhile_append2 dropWhile_append2, cases rest; simp)+
qed

lemma brace_name_print:
  assumes "rest = [] \<or> hd rest \<noteq> CHR ''}''"
  shows "brace_name (double_char (CHR ''}'') n @ CHR ''}'' # rest) = Some (n, rest)"
  using assms by (induction n) (auto split: list.splits)

lemma brace_name_next:
  "brace_name cs = Some (n, r) \<Longrightarrow> r = [] \<or> hd r \<noteq> CHR ''}''"
  by (induction cs arbitrary: n r rule: brace_name.induct)
     (fastforce split: if_splits list.splits)+

definition flush_literal :: "string \<Rightarrow> format_seg list" where
  "flush_literal lit = (if lit = [] then [] else [Literal lit])"

lemma parse_loop_literal:
  "\<exists>pos'. parse_loop pos (double_char (CHR ''$'') s @ rest) lit segs
     = parse_loop pos' rest (lit @ s) segs"
proof (induction s arbitrary: pos lit)
  case (Cons c s)
  show ?case
    using Cons [of "pos + 1" "lit @ [c]"] Cons [of "pos + 2" "lit @ [c]"] by auto
qed auto

lemma parse_loop_simple:
  assumes "simple_name c" "rest = [] \<or> \<not> name_char (hd rest)"
  shows "\<exists>pos'. parse_loop pos (''$'' @ c @ rest) lit segs
           = parse_loop pos' rest [] (push_column segs lit c)"
proof -
  obtain d ds where c: "c = d # ds" "name_start d" "list_all name_char c"
    using assms(1) by (cases c) (auto simp: simple_name_def)
  then have "d \<noteq> CHR ''$''" by auto
  then show ?thesis
    using c(2) takeWhile_name [OF c(3) assms(2)] by (auto simp: c(1))
qed

lemma parse_loop_braced:
  assumes "c \<noteq> []" "rest = [] \<or> hd rest \<noteq> CHR ''}''"
  shows "\<exists>pos'. parse_loop pos (''${'' @ double_char (CHR ''}'') c @ ''}'' @ rest) lit segs
           = parse_loop pos' rest [] (push_column segs lit c)"
  using assms brace_name_print [OF assms(2), of c] by auto

lemma print_format_hd:
  "expressible (Column c # segs) \<Longrightarrow>
   simple_name c \<or> print_format segs = [] \<or> hd (print_format segs) \<noteq> CHR ''}''"
proof (cases segs)
  case (Cons a as)
  assume e: "expressible (Column c # segs)"
  show ?thesis
  proof (cases a)
    case (Literal s)
    with e Cons show ?thesis by (cases s) auto
  next
    case (Column d)
    with Cons show ?thesis by (simp add: Let_def)
  qed
qed simp

lemma parse_loop_print:
  assumes "expressible segs" "lit = [] \<or> (case segs of Literal _ # _ \<Rightarrow> False | _ \<Rightarrow> True)"
  shows "\<exists>lit' out'. parse_loop pos (print_format segs) lit out = Ok (lit', out') \<and>
           out' @ flush_literal lit' = out @ flush_literal lit @ segs"
  using assms
proof (induction segs arbitrary: pos lit out rule: print_format.induct)
  case (2 s segs)
  from 2(2,3) have l: "lit = []" "s \<noteq> []" "expressible segs"
    "case segs of Literal _ # _ \<Rightarrow> False | _ \<Rightarrow> True" by auto
  obtain pos' where p: "parse_loop pos (print_format (Literal s # segs)) lit out
      = parse_loop pos' (print_format segs) s out"
    using parse_loop_literal [of pos s "print_format segs" lit out] l(1) by auto
  show ?case
    unfolding p using 2(1) [OF l(3), of s pos' out] l by (auto simp: flush_literal_def)
next
  case (3 c segs)
  let ?rest = "print_format segs"
  from 3(2) have c: "c \<noteq> []" "expressible segs" by auto
  have "\<exists>pos'. parse_loop pos (print_format (Column c # segs)) lit out
      = parse_loop pos' ?rest [] (push_column out lit c)"
  proof (cases "simple_name c \<and> (?rest = [] \<or> \<not> name_char (hd ?rest))")
    case True
    then have "print_format (Column c # segs) = ''$'' @ c @ ?rest" by (simp add: Let_def)
    with True parse_loop_simple [of c ?rest pos lit out] show ?thesis by simp
  next
    case False
    have "?rest = [] \<or> hd ?rest \<noteq> CHR ''}''"
      using False print_format_hd [OF 3(2)] by auto
    moreover have "print_format (Column c # segs) = ''${'' @ double_char (CHR ''}'') c @ ''}'' @ ?rest"
      using False by (auto simp: Let_def)
    ultimately show ?thesis using parse_loop_braced [OF c(1), of ?rest pos lit out] by simp
  qed
  then obtain pos' where p: "parse_loop pos (print_format (Column c # segs)) lit out
      = parse_loop pos' ?rest [] (push_column out lit c)" ..
  show ?case
    unfolding p using 3(1) [OF c(2), of "[]" pos' "push_column out lit c"]
    by (auto simp: push_column_def flush_literal_def)
qed (simp add: flush_literal_def)

lemma print_format_nonempty: "expressible segs \<Longrightarrow> segs \<noteq> [] \<Longrightarrow> print_format segs \<noteq> []"
proof (cases segs)
  case (Cons a as)
  assume e: "expressible segs"
  show ?thesis
  proof (cases a)
    case (Literal s)
    with e Cons show ?thesis by (cases s) auto
  qed (simp add: Cons Let_def)
qed simp

text \<open>
  C27. Template round trip. Every expressible, non-empty segment list with at most
  \<open>FORMAT_MAX_REFS\<close> distinct references, whose canonical spelling fits \<open>FORMAT_MAX_BYTES\<close>, is
  exactly what \<open>parse_format\<close> reads back from that spelling: no literal or column is lost,
  merged or re-ordered, dollars and braces inside names included.
\<close>
theorem parse_print_format:
  assumes "expressible segs" "segs \<noteq> []"
    and "length (print_format segs) \<le> FORMAT_MAX_BYTES"
    and "length (format_referenced_columns segs) \<le> FORMAT_MAX_REFS"
  shows "parse_format (print_format segs) = Ok segs"
proof -
  obtain lit out where "parse_loop 0 (print_format segs) [] [] = Ok (lit, out)"
    "out @ flush_literal lit = segs"
    using parse_loop_print [OF assms(1), of "[]" 0 "[]"] by (auto simp: flush_literal_def)
  then show ?thesis
    using assms print_format_nonempty by (auto simp: parse_format_def flush_literal_def Let_def)
qed

theorem parse_print_format_witness:
  "parse_format (print_format [Column ''title'', Literal ''}$ '', Column ''odd }name'', Literal '' x''])
     = Ok [Column ''title'', Literal ''}$ '', Column ''odd }name'', Literal '' x'']"
  by (rule parse_print_format)
     (simp_all add: simple_name_def name_start_def name_char_def ascii_defs byte_def
        format_referenced_columns_def FORMAT_MAX_BYTES_def FORMAT_MAX_REFS_def Let_def)

section \<open>What a parsed template looks like\<close>

text \<open>
  The loop invariant: the segments pushed so far end in a column, and what follows a braced
  reference, in the pending literal or in the rest of the template, is no closing brace.
\<close>

definition after_ok :: "format_seg list \<Rightarrow> string \<Rightarrow> bool" where
  "after_ok segs t \<longleftrightarrow>
     segs = [] \<or>
     (case last segs of
        Column c \<Rightarrow> simple_name c \<or> t = [] \<or> hd t \<noteq> CHR ''}''
      | Literal _ \<Rightarrow> False)"

definition loop_inv :: "string \<Rightarrow> string \<Rightarrow> format_seg list \<Rightarrow> bool" where
  "loop_inv rest lit segs \<longleftrightarrow> expressible segs \<and> after_ok segs (if lit = [] then rest else lit)"

lemma expressible_snoc_column:
  "expressible (segs @ [Column c]) \<longleftrightarrow> expressible segs \<and> c \<noteq> []"
  by (induction segs rule: expressible.induct) (auto split: list.splits format_seg.splits)

lemma expressible_snoc_literal:
  "expressible segs \<Longrightarrow> after_ok segs lit \<Longrightarrow> lit \<noteq> [] \<Longrightarrow> expressible (segs @ [Literal lit])"
proof (induction segs rule: expressible.induct)
  case (2 s segs)
  then have "segs \<noteq> []" by (auto simp: after_ok_def)
  then have "after_ok segs lit" "hd (segs @ [Literal lit]) = hd segs"
    using 2(3) by (simp_all add: after_ok_def)
  with 2 \<open>segs \<noteq> []\<close> show ?case by (cases segs) auto
next
  case (3 c segs)
  show ?case
  proof (cases segs)
    case Nil
    with 3 show ?thesis by (simp add: after_ok_def)
  next
    case (Cons a as)
    then have "after_ok segs lit" using 3(3) by (simp add: after_ok_def)
    with 3 Cons show ?thesis by (simp split: format_seg.splits)
  qed
qed simp

lemma expressible_push:
  assumes "loop_inv rest lit segs" "c \<noteq> []"
  shows "expressible (push_column segs lit c)"
proof (cases "lit = []")
  case False
  then have "expressible (segs @ [Literal lit])"
    using assms by (intro expressible_snoc_literal) (auto simp: loop_inv_def)
  then show ?thesis
    using expressible_snoc_column [of "segs @ [Literal lit]" c] assms(2) False
    by (simp add: push_column_def)
qed (use assms in \<open>simp add: push_column_def loop_inv_def expressible_snoc_column\<close>)

lemma after_ok_push: "simple_name c \<or> t = [] \<or> hd t \<noteq> CHR ''}'' \<Longrightarrow> after_ok (push_column segs lit c) t"
  by (simp add: after_ok_def push_column_def)

lemma after_ok_cong: "after_ok segs (c # s) \<Longrightarrow> after_ok segs (c # t)"
  by (auto simp: after_ok_def split: format_seg.splits)

lemma loop_inv_push_char: "loop_inv (c # cs) lit segs \<Longrightarrow> loop_inv rest (lit @ [c]) segs"
  by (cases lit) (auto simp: loop_inv_def intro: after_ok_cong)

lemma simple_name_taken:
  assumes "name_start c"
  shows "simple_name (takeWhile name_char (c # cs))"
  using assms name_start_char [OF assms]
  by (auto simp: simple_name_def list_all_iff dest: set_takeWhileD)

lemma parse_loop_inv:
  "parse_loop pos s lit segs = Ok (lit', segs') \<Longrightarrow> loop_inv s lit segs \<Longrightarrow> loop_inv [] lit' segs'"
proof (induction pos s lit segs rule: parse_loop.induct)
  case (2 pos ch cs lit segs)
  note inv = \<open>loop_inv (ch # cs) lit segs\<close> and run = \<open>parse_loop pos (ch # cs) lit segs = _\<close>
  consider (plain) "ch \<noteq> CHR ''$''"
    | (dollar) ds where "ch = CHR ''$''" "cs = CHR ''$'' # ds"
    | (name) c ds where "ch = CHR ''$''" "cs = c # ds" "c \<noteq> CHR ''$''" "name_start c"
    | (braced) c ds n r where "ch = CHR ''$''" "cs = c # ds" "\<not> name_start c" "c = CHR ''{''"
        "brace_name ds = Some (n, r)" "n \<noteq> []"
    using run by (cases cs) (auto split: if_splits option.splits)
  then show ?case
  proof cases
    case plain
    have "loop_inv cs (lit @ [ch]) segs" using inv by (rule loop_inv_push_char)
    then show ?thesis using 2(1) plain run by auto
  next
    case dollar
    have "loop_inv ds (lit @ ''$'') segs"
      using loop_inv_push_char [OF inv] dollar by simp
    then show ?thesis using 2(2) dollar run by auto
  next
    case name
    have "simple_name (takeWhile name_char cs)" using name simple_name_taken by simp
    then have "loop_inv (dropWhile name_char cs) [] (push_column segs lit (takeWhile name_char cs))"
      using inv by (auto simp: loop_inv_def simple_name_def intro!: after_ok_push expressible_push)
    then show ?thesis using 2(3) name run by (auto simp: Let_def)
  next
    case braced
    have "loop_inv r [] (push_column segs lit n)"
      using inv braced brace_name_next [OF braced(5)]
      by (auto simp: loop_inv_def intro!: after_ok_push expressible_push)
    then show ?thesis using 2(4) braced run by auto
  qed
qed simp

text \<open>
  C28. What the parser returns. A parsed template is expressible: its literals are non-empty and
  coalesced, its names non-empty, and it references at most \<open>FORMAT_MAX_REFS\<close> distinct columns.
  In particular no template yields a braced (non-identifier) reference directly followed by a
  literal closing brace.
\<close>
theorem parse_format_expressible:
  assumes "parse_format t = Ok segs"
  shows "expressible segs \<and> length (format_referenced_columns segs) \<le> FORMAT_MAX_REFS"
proof -
  obtain lit out where p: "parse_loop 0 t [] [] = Ok (lit, out)"
    and segs: "segs = (if lit = [] then out else out @ [Literal lit])"
    and refs: "length (format_referenced_columns segs) \<le> FORMAT_MAX_REFS"
    using assms by (auto simp: parse_format_def Let_def split: if_splits)
  have "loop_inv [] lit out"
    using parse_loop_inv [OF p] by (simp add: loop_inv_def after_ok_def)
  then have "expressible segs"
    using expressible_snoc_literal by (auto simp: segs loop_inv_def)
  with refs show ?thesis by blast
qed

lemmas template_eval = parse_format_def FORMAT_MAX_BYTES_def FORMAT_MAX_REFS_def
  format_referenced_columns_def push_column_def name_start_def name_char_def ascii_defs byte_def
  simple_name_def Let_def

theorem parse_format_expressible_witness:
  "\<exists>segs. parse_format ''$a} ${b c} d'' = Ok segs \<and> expressible segs"
proof -
  have p: "parse_format ''$a} ${b c} d'' = Ok [Column ''a'', Literal ''} '', Column ''b c'', Literal '' d'']"
    by (simp add: template_eval)
  show ?thesis using parse_format_expressible [OF p] p by blast
qed

section \<open>Vectors as text\<close>

lemma parse_floats:
  assumes "\<forall>x \<in> set v. (\<forall>c \<in> set (fmt x). is_ascii_graphic c) \<and> prs (fmt x) = Some x"
  shows "try_fold (\<lambda>f out. case prs (trim f) of None \<Rightarrow> Err (BadFloat f) | Some x \<Rightarrow> Ok (out @ [x]))
           (map fmt v) out = Ok (out @ v)"
  using assms by (induction v arbitrary: out) (simp_all add: trim_graphic)

lemma join_chars: "x \<in> set (join sep xs) \<Longrightarrow> x \<in> set sep \<or> (\<exists>f \<in> set xs. x \<in> set f)"
  by (induction sep xs rule: join.induct) auto

text \<open>
  Vector round trip. Given float formatting that prints graphic characters without a comma
  and parses back to the same float (Rust's shortest round-tripping formatting), \<open>parse_vector\<close>
  reads back exactly the vector \<open>serialize_vector\<close> wrote, element for element, in order.
\<close>
theorem parse_serialize_vector:
  assumes "\<forall>x \<in> set v. fmt x \<noteq> [] \<and> CHR '','' \<notin> set (fmt x) \<and> prs (fmt x) = Some x \<and>
             (\<forall>c \<in> set (fmt x). is_ascii_graphic c)"
  shows "parse_vector prs (serialize_vector fmt v) = Ok v"
proof -
  let ?inner = "join '','' (map fmt v)"
  have g: "\<forall>c \<in> set ?inner. is_ascii_graphic c"
    using assms by (auto dest!: join_chars simp: is_ascii_graphic_def byte_def)
  have "trim (serialize_vector fmt v) = ''['' @ ?inner @ '']''"
    using g unfolding serialize_vector_def
    by (intro trim_graphic) (auto simp: is_ascii_graphic_def byte_def)
  then have inner: "Option.bind (strip_prefix ''['' (trim (serialize_vector fmt v))) (strip_suffix '']'')
      = Some ?inner"
    by (simp only: strip_prefix_append Option.bind.simps strip_suffix_append)
  show ?thesis
  proof (cases v)
    case Nil
    then show ?thesis using inner trim_graphic [of "[]"] by (simp add: parse_vector_def)
  next
    case (Cons x xs)
    then have "?inner \<noteq> []" using assms by (simp add: join_Cons)
    moreover have "split_on (\<lambda>c. c = CHR '','') ?inner = map fmt v"
      using assms Cons by (intro split_on_join) auto
    ultimately show ?thesis
      using inner parse_floats [of v fmt prs "[]"] assms trim_graphic [OF g]
      by (simp add: parse_vector_def)
  qed
qed

theorem parse_serialize_vector_witness:
  "parse_vector (\<lambda>s. if s = ''t'' then Some True else if s = ''f'' then Some False else None)
     (serialize_vector (\<lambda>b. if b then ''t'' else ''f'') [True, False]) = Ok [True, False]"
  by (rule parse_serialize_vector) (simp add: is_ascii_graphic_def byte_def)

end
