(* ===== verification/Rewrite.thy ===== *)
theory Rewrite
  imports Templates "HOL-Library.Sublist"
begin

text \<open>
  \<open>postvec-server/src/managed/rewrite.rs\<close>: the proxy's SQL lexer, the scan for rewritable
  \<open>postvec.search\<close> and \<open>postvec.embed\<close> calls, and the rendering that appends the vector argument.

  The code walks a byte index over the statement; the model walks the remaining bytes and keeps
  the index beside them, so every token still carries its start and end byte.
\<close>

section \<open>The lexer\<close>

datatype tok = Ident string | Str string | Param nat | Punct string

type_synonym token = "tok \<times> nat \<times> nat"

datatype lex_error =
    UnterminatedComment
  | UnterminatedString
  | InvalidUnicodeEscape
  | NotUtf8
  | UnterminatedIdentifier
  | ParameterOutOfRange
  | UnexpectedDollar
  | UnterminatedDollarString

definition digits :: "nat \<Rightarrow> nat \<Rightarrow> string \<Rightarrow> nat" where
  "digits m radix s = length (takeWhile (is_digit radix) (take m s))"

text \<open>One escape: \<open>e\<close> is the byte after the backslash, \<open>es\<close> what follows it.\<close>

definition escape :: "char \<Rightarrow> string \<Rightarrow> lex_error + string \<times> string" where
  "escape e es =
     (if e = CHR ''n'' then Ok ([CHR 10], es)
      else if e = CHR ''t'' then Ok ([CHR 9], es)
      else if e = CHR ''r'' then Ok ([CHR 13], es)
      else if e = CHR ''b'' then Ok ([CHR 8], es)
      else if e = CHR ''f'' then Ok ([CHR 12], es)
      else if 48 \<le> byte e \<and> byte e \<le> 55
      then let n = 1 + digits 2 8 es in
           Ok ([char_of (number 8 (take n (e # es)) mod 256)], drop (n - 1) es)
      else if e = CHR ''x'' \<and> digits 2 16 es > 0
      then let n = digits 2 16 es in Ok ([char_of (number 16 (take n es) mod 256)], drop n es)
      else if e = CHR ''u'' \<or> e = CHR ''U''
      then let n = (if e = CHR ''u'' then 4 else 8) in
           if digits n 16 es \<noteq> n then Err InvalidUnicodeEscape
           else let v = number 16 (take n es) in
                if is_scalar_value v then Ok (utf8_encode v, drop n es)
                else Err InvalidUnicodeEscape
      else Ok (take (utf8_len e) (e # es), drop (utf8_len e) (e # es)))"

lemma escape_rest: "escape e es = Ok (bs, r) \<Longrightarrow> length r \<le> length es"
  by (auto simp: escape_def Let_def utf8_drop_le split: if_splits)

text \<open>The body of a string: its bytes and what follows the closing quote.\<close>

function str_body :: "bool \<Rightarrow> string \<Rightarrow> lex_error + string \<times> string" where
  "str_body escapes [] = Err UnterminatedString"
| "str_body escapes (ch # cs) =
     (if ch = apos
      then (case cs of
              [] \<Rightarrow> Ok ([], [])
            | d # ds \<Rightarrow> if d = apos
                       then and_then (str_body escapes ds) (\<lambda>(s, r). Ok (apos # s, r))
                       else Ok ([], cs))
      else if ch = backslash \<and> escapes
      then (case cs of
              [] \<Rightarrow> Err UnterminatedString
            | e # es \<Rightarrow>
                (case escape e es of
                   Inl err \<Rightarrow> Err err
                 | Inr (bs, r) \<Rightarrow>
                     and_then (str_body escapes r) (\<lambda>(s, r). Ok (bs @ s, r))))
      else and_then (str_body escapes cs) (\<lambda>(s, r). Ok (ch # s, r)))"
  by pat_completeness auto
termination
  by (relation "measure (\<lambda>(escapes, s). length s)") (auto dest: escape_rest)

function ident_body :: "string \<Rightarrow> lex_error + string \<times> string" where
  "ident_body [] = Err UnterminatedIdentifier"
| "ident_body (ch # cs) =
     (if ch = dquote
      then (case cs of
              [] \<Rightarrow> Ok ([], [])
            | d # ds \<Rightarrow> if d = dquote
                       then and_then (ident_body ds) (\<lambda>(s, r). Ok (dquote # s, r))
                       else Ok ([], cs))
      else and_then (ident_body (drop (utf8_len ch) (ch # cs)))
             (\<lambda>(s, r). Ok (take (utf8_len ch) (ch # cs) @ s, r)))"
  by pat_completeness auto
termination
  by (relation "measure length") (auto simp: utf8_len_def)

text \<open>The nested comment loop: the final depth and what follows.\<close>

function block_comment :: "nat \<Rightarrow> string \<Rightarrow> nat \<times> string" where
  "block_comment depth s =
     (if s = [] then (depth, [])
      else if starts_with ''/*'' s then block_comment (depth + 1) (drop 2 s)
      else if starts_with ''*/'' s
      then (if depth - 1 = 0 then (0, drop 2 s) else block_comment (depth - 1) (drop 2 s))
      else block_comment depth (drop 1 s))"
  by pat_completeness auto
termination
  by (relation "measure (\<lambda>(depth, s). length s)") auto

declare block_comment.simps [simp del]

definition word_char :: "char \<Rightarrow> bool" where
  "word_char c \<longleftrightarrow> is_ascii_alphanumeric c \<or> c = CHR ''_'' \<or> c = CHR ''$'' \<or> byte c \<ge> 128"

definition word_start :: "char \<Rightarrow> bool" where
  "word_start c \<longleftrightarrow> is_ascii_alphabetic c \<or> c = CHR ''_'' \<or> byte c \<ge> 128"

definition lex_string :: "bool \<Rightarrow> string \<Rightarrow> lex_error + tok option \<times> string" where
  "lex_string escapes s =
     and_then (str_body escapes s)
       (\<lambda>(v, r). if valid_utf8 v then Ok (Some (Str v), r) else Err NotUtf8)"

definition lex_param :: "string \<Rightarrow> lex_error + tok option \<times> string" where
  "lex_param s =
     (let ds = takeWhile is_ascii_digit s in
      if number 10 ds \<le> 65535 then Ok (Some (Param (number 10 ds)), drop (length ds) s)
      else Err ParameterOutOfRange)"

text \<open>Dollar quoting; \<open>s\<close> is the input from the dollar on.\<close>

definition lex_dollar :: "string \<Rightarrow> lex_error + tok option \<times> string" where
  "lex_dollar s =
     (let n = length (takeWhile (\<lambda>c. is_ascii_alphanumeric c \<or> c = CHR ''_'') (tl s)) in
      if \<not> (1 + n < length s \<and> s ! (1 + n) = CHR ''$'') then Err UnexpectedDollar
      else let tag = take (n + 2) s; body = drop (n + 2) s in
           case find_sub tag body of
             None \<Rightarrow> Err UnterminatedDollarString
           | Some close \<Rightarrow> Ok (Some (Str (take close body)), drop (close + length tag) body))"

text \<open>One round of the \<open>while\<close> loop: the token pushed, if any, and the remaining input.\<close>

definition next_tok :: "bool \<Rightarrow> char \<Rightarrow> string \<Rightarrow> lex_error + tok option \<times> string" where
  "next_tok standard_strings c cs =
     (let s = c # cs in
      if is_ascii_whitespace c then Ok (None, cs)
      else if starts_with ''--'' s
      then Ok (None, dropWhile (\<lambda>c. c \<noteq> CHR 10 \<and> c \<noteq> CHR 13) s)
      else if starts_with ''/*'' s
      then (case block_comment 0 s of (depth, r) \<Rightarrow>
              if depth \<noteq> 0 then Err UnterminatedComment else Ok (None, r))
      else if c = apos then lex_string (\<not> standard_strings) cs
      else if (c = CHR ''E'' \<or> c = CHR ''e'') \<and> cs \<noteq> [] \<and> hd cs = apos
      then lex_string True (tl cs)
      else if c = dquote
      then and_then (ident_body cs) (\<lambda>(v, r). Ok (Some (Ident v), r))
      else if c = CHR ''$'' \<and> cs \<noteq> [] \<and> is_ascii_digit (hd cs) then lex_param cs
      else if c = CHR ''$'' then lex_dollar s
      else if word_start c
      then Ok (Some (Ident (to_ascii_lowercase (takeWhile word_char s))), dropWhile word_char s)
      else let n = (if starts_with ''::'' s \<or> starts_with ''=>'' s then 2 else 1) in
           Ok (Some (Punct (take n s)), drop n s))"

lemma str_body_rest: "str_body escapes s = Ok (v, r) \<Longrightarrow> length r < length s"
proof (induction escapes s arbitrary: v r rule: str_body.induct)
  case (2 escapes ch cs)
  then show ?case
    by (fastforce split: if_splits list.splits sum.splits dest: escape_rest)
qed simp

lemma ident_body_rest: "ident_body s = Ok (v, r) \<Longrightarrow> length r < length s"
proof (induction s arbitrary: v r rule: ident_body.induct)
  case (2 ch cs)
  show ?case
  proof (cases "ch = dquote")
    case True
    with 2(1,3) show ?thesis by (fastforce split: if_splits list.splits)
  next
    case False
    then obtain v' where "ident_body (drop (utf8_len ch) (ch # cs)) = Ok (v', r)"
      using 2(3) by auto
    then have "length r < length (drop (utf8_len ch) (ch # cs))" using 2(2) False by blast
    then show ?thesis by simp
  qed
qed simp

lemma block_comment_rest: "length (snd (block_comment depth s)) \<le> length s"
  by (induction depth s rule: block_comment.induct)
     (subst block_comment.simps, auto intro: le_trans)

lemma block_comment_step:
  assumes "starts_with ''/*'' s"
  shows "length (snd (block_comment depth s)) < length s"
proof -
  have "block_comment depth s = block_comment (depth + 1) (drop 2 s)" "2 \<le> length s"
    using assms by (auto simp: block_comment.simps [of depth s] starts_with_iff)
  then show ?thesis using block_comment_rest [of "depth + 1" "drop 2 s"] by simp
qed

lemma lex_dollar_rest: "lex_dollar s = Ok (t, r) \<Longrightarrow> length r < length s"
  by (auto simp: lex_dollar_def Let_def split: if_splits option.splits)

lemma lex_string_rest: "lex_string escapes s = Ok (t, r) \<Longrightarrow> length r < length s"
  by (auto simp: lex_string_def split: if_splits dest: str_body_rest)

lemma next_tok_rest:
  assumes "next_tok ss c cs = Ok (t, r)"
  shows "length r < length (c # cs)"
proof -
  let ?s = "c # cs"
  have comment: "length (dropWhile (\<lambda>c. c \<noteq> CHR 10 \<and> c \<noteq> CHR 13) ?s) < length ?s"
    if "starts_with ''--'' ?s"
    using that length_dropWhile_le [of "\<lambda>c. c \<noteq> CHR 10 \<and> c \<noteq> CHR 13" cs]
    by (auto simp: starts_with_def)
  have word: "length (dropWhile word_char ?s) < length ?s" if "word_start c"
    using that length_dropWhile_le [of word_char cs]
    by (auto simp: word_start_def word_char_def is_ascii_alphanumeric_def)
  show ?thesis
    using assms comment word block_comment_step [of ?s 0]
    by (auto simp: next_tok_def Let_def lex_param_def split: if_splits prod.splits
             dest: lex_string_rest ident_body_rest lex_dollar_rest)
qed

function lex_from :: "bool \<Rightarrow> nat \<Rightarrow> string \<Rightarrow> lex_error + token list" where
  "lex_from ss i [] = Ok []"
| "lex_from ss i (c # cs) =
     (case next_tok ss c cs of
        Inl e \<Rightarrow> Err e
      | Inr (t, r) \<Rightarrow>
          (let j = i + (length (c # cs) - length r) in
           and_then (lex_from ss j r)
             (\<lambda>ts. Ok (case t of None \<Rightarrow> ts | Some t \<Rightarrow> (t, i, j) # ts))))"
  by pat_completeness auto
termination
  by (relation "measure (\<lambda>(ss, i, s). length s)") (auto dest: next_tok_rest)

definition lex_sql :: "string \<Rightarrow> bool \<Rightarrow> lex_error + token list" where
  "lex_sql sql standard_strings = lex_from standard_strings 0 sql"

declare lex_from.simps(2) [simp del]

section \<open>Arguments and calls\<close>

datatype arg_value = ArgLiteral string | ArgParam nat

record call =
  c_start :: nat
  c_end :: nat
  c_close :: nat
  c_embed :: bool
  c_relation :: string
  c_column :: string
  c_text :: arg_value
  c_untyped :: bool

definition text_cast :: "token list \<Rightarrow> nat option" where
  "text_cast toks =
     (let n = (case map fst toks of
                 Punct p # Ident a # rest \<Rightarrow>
                   if p \<noteq> ''::'' then None
                   else if a = ''character'' \<and> rest \<noteq> [] \<and> hd rest = Ident ''varying'' then Some 3
                   else if a = ''text'' \<or> a = ''varchar'' then Some 2 else None
               | _ \<Rightarrow> None)
      in case n of
           None \<Rightarrow> None
         | Some n \<Rightarrow> if n < length toks \<and> fst (toks ! n) = Punct ''('' then None else Some n)"

lemma text_cast_pos: "text_cast toks = Some n \<Longrightarrow> 2 \<le> n"
  by (auto simp: text_cast_def Let_def split: option.splits list.splits tok.splits if_splits)

text \<open>The loop of \<open>arg\<close> after the value: the final depth and whether a cast was seen.\<close>

function arg_rest :: "token list \<Rightarrow> nat \<Rightarrow> bool \<Rightarrow> (nat \<times> bool) option" where
  "arg_rest [] depth cast = Some (depth, cast)"
| "arg_rest (t # ts) depth cast =
     (if fst t = Punct '')'' \<and> depth > 0 then arg_rest ts (depth - 1) cast
      else case text_cast (t # ts) of
             None \<Rightarrow> None
           | Some n \<Rightarrow> arg_rest (drop n (t # ts)) depth True)"
  by pat_completeness auto
termination
  by (relation "measure (\<lambda>(ts, depth, cast). length ts)") (auto dest: text_cast_pos)

definition arg :: "token list \<Rightarrow> (arg_value \<times> bool) option" where
  "arg toks =
     (let open = length (takeWhile (\<lambda>t. fst t = Punct ''('') toks) in
      case drop open toks of
        [] \<Rightarrow> None
      | t # rest \<Rightarrow>
          (let v = (case fst t of
                      Str s \<Rightarrow> Some (ArgLiteral s) | Param n \<Rightarrow> Some (ArgParam n) | _ \<Rightarrow> None) in
           case v of
             None \<Rightarrow> None
           | Some value \<Rightarrow>
               (case arg_rest rest open False of
                  None \<Rightarrow> None
                | Some (depth, cast) \<Rightarrow> if depth = 0 then Some (value, cast) else None)))"

definition literal :: "token list \<Rightarrow> string option" where
  "literal toks = (case arg toks of Some (ArgLiteral s, _) \<Rightarrow> Some s | _ \<Rightarrow> None)"

text \<open>
  The argument loop: the arguments up to the closing parenthesis, that token, and the tokens
  after it. \<open>cur\<close> holds the tokens of the argument being read.
\<close>

fun call_args ::
  "token list \<Rightarrow> nat \<Rightarrow> token list \<Rightarrow> token list list \<Rightarrow> (token list list \<times> token \<times> token list) option"
where
  "call_args [] depth cur args = None"
| "call_args (t # ts) depth cur args =
     (if fst t = Punct ''('' \<or> fst t = Punct ''['' then call_args ts (depth + 1) (cur @ [t]) args
      else if (fst t = Punct '')'' \<or> fst t = Punct '']'') \<and> depth > 0
      then call_args ts (depth - 1) (cur @ [t]) args
      else if fst t = Punct '')'' then Some (args @ [cur], t, ts)
      else if fst t = Punct '','' \<and> depth = 0 then call_args ts depth [] (args @ [cur])
      else call_args ts depth (cur @ [t]) args)"

lemma call_args_rest:
  "call_args ts depth cur args = Some (a, t, r) \<Longrightarrow> length r < length ts"
  by (induction ts depth cur args rule: call_args.induct) (auto split: if_splits)

text \<open>The closure \<open>call\<close>: the call record and the span of its text argument.\<close>

definition mk_call ::
  "bool \<Rightarrow> token \<Rightarrow> token \<Rightarrow> token list list \<Rightarrow> (call \<times> nat \<times> nat) option" where
  "mk_call is_embed name_tok close_tok args =
     (let parts =
        (if is_embed
         then (case args of
                 [text, model] \<Rightarrow> map_option (\<lambda>m. (m, [], text)) (literal model)
               | _ \<Rightarrow> None)
         else (case args of
                 rel # col # text # _ \<Rightarrow>
                   (case (literal rel, literal col) of
                      (Some r, Some c) \<Rightarrow> Some (r, c, text) | _ \<Rightarrow> None)
               | _ \<Rightarrow> None))
      in case parts of
           None \<Rightarrow> None
         | Some (relation, column, text) \<Rightarrow>
             (case arg text of
                None \<Rightarrow> None
              | Some (value, cast) \<Rightarrow>
                  if text = [] then None
                  else Some (\<lparr>c_start = fst (snd name_tok), c_end = snd (snd close_tok),
                               c_close = fst (snd close_tok), c_embed = is_embed,
                               c_relation = relation, c_column = column, c_text = value,
                               c_untyped = \<not> cast\<rparr>,
                             fst (snd (hd text)), snd (snd (last text)))))"

text \<open>The scan loop; \<open>prev\<close> is the token before the current one.\<close>

function scan_calls :: "tok option \<Rightarrow> token list \<Rightarrow> (call \<times> nat \<times> nat) list" where
  "scan_calls prev (a # b # c # d # ts) =
     (if fst a = Ident ''postvec'' \<and> fst b = Punct ''.'' \<and>
         (fst c = Ident ''search'' \<or> fst c = Ident ''embed'') \<and> fst d = Punct ''('' \<and>
         prev \<noteq> Some (Punct ''.'')
      then (case call_args ts 0 [] [] of
              None \<Rightarrow> []
            | Some (args, close, r) \<Rightarrow>
                (case mk_call (fst c = Ident ''embed'') a close args of
                   None \<Rightarrow> scan_calls (Some (fst close)) r
                 | Some x \<Rightarrow> x # scan_calls (Some (fst close)) r))
      else scan_calls (Some (fst a)) (b # c # d # ts))"
| "scan_calls prev [] = []"
| "scan_calls prev [a] = []"
| "scan_calls prev [a, b] = []"
| "scan_calls prev [a, b, c] = []"
  by pat_completeness auto
termination
  by (relation "measure (\<lambda>(prev, ts). length ts)") (auto dest: call_args_rest)

definition all_uses_text :: "token list \<Rightarrow> (call \<times> nat \<times> nat) list \<Rightarrow> call \<Rightarrow> nat \<Rightarrow> bool" where
  "all_uses_text toks calls call n \<longleftrightarrow>
     list_all (\<lambda>j. let t = toks ! j in
        fst t \<noteq> Param n \<or> text_cast (drop (j + 1) toks) \<noteq> None \<or>
        list_ex (\<lambda>(c, s, e). c_text c = c_text call \<and> s \<le> fst (snd t) \<and> snd (snd t) \<le> e) calls)
      [0..<length toks]"

definition scan_with_strings :: "string \<Rightarrow> bool \<Rightarrow> call list" where
  "scan_with_strings sql ss =
     (case lex_sql sql ss of
        Inl _ \<Rightarrow> []
      | Inr toks \<Rightarrow>
          (let calls = scan_calls None toks in
           map (\<lambda>(call, _).
                  case c_text call of
                    ArgParam n \<Rightarrow>
                      if \<not> c_untyped call
                      then call\<lparr>c_untyped := all_uses_text toks calls call n\<rparr> else call
                  | ArgLiteral _ \<Rightarrow> call) calls))"

definition literal_vector :: "('f \<Rightarrow> string) \<Rightarrow> 'f list option \<Rightarrow> string" where
  "literal_vector fmt v =
     (case v of None \<Rightarrow> ''NULL::real[]''
              | Some v \<Rightarrow> ''ARRAY'' @ serialize_vector fmt v @ ''::real[]'')"

definition max_param :: "string \<Rightarrow> bool \<Rightarrow> nat" where
  "max_param sql ss =
     (case lex_sql sql ss of
        Inl _ \<Rightarrow> 0
      | Inr toks \<Rightarrow> foldl max 0 (concat (map (\<lambda>t. case fst t of Param n \<Rightarrow> [n] | _ \<Rightarrow> []) toks)))"

fun lifecycle_names :: "tok option \<Rightarrow> token list \<Rightarrow> string list" where
  "lifecycle_names prev [] = []"
| "lifecycle_names prev (t # ts) =
     (case fst t of
        Ident word \<Rightarrow>
          (if (prev = None \<or> prev = Some (Punct '';'')) \<and> (word = ''prepare'' \<or> word = ''deallocate'')
           then (let rest = map fst ts;
                     name = (if word = ''deallocate'' \<and> rest \<noteq> [] \<and> hd rest = Ident ''prepare''
                             then tl rest else rest)
                 in case name of
                      Ident n # _ \<Rightarrow>
                        if n \<noteq> ''all'' \<and> \<not> (word = ''prepare'' \<and> n = ''transaction'') then [n] else []
                    | _ \<Rightarrow> [])
           else [])
      | _ \<Rightarrow> []) @ lifecycle_names (Some (fst t)) ts"

definition lifecycle :: "string \<Rightarrow> bool \<Rightarrow> string list" where
  "lifecycle sql ss = (case lex_sql sql ss of Inl _ \<Rightarrow> [] | Inr toks \<Rightarrow> lifecycle_names None toks)"

definition statement_start :: "string \<Rightarrow> call list \<Rightarrow> bool \<Rightarrow> nat" where
  "statement_start sql calls ss =
     (let at = (case calls of [] \<Rightarrow> 0 | c # _ \<Rightarrow> c_start c) in
      case lex_sql sql ss of
        Inl _ \<Rightarrow> 0
      | Inr toks \<Rightarrow>
          (case find (\<lambda>(t, s, e). t = Punct '';'' \<and> e \<le> at) (rev toks) of
             None \<Rightarrow> 0 | Some (t, s, e) \<Rightarrow> e))"

definition vector_argument :: "call \<Rightarrow> string \<Rightarrow> string" where
  "vector_argument call vector =
     '', '' @ (if c_embed call then ''vector'' else ''query_vector'') @ '' => '' @ vector"

fun render_from :: "string \<Rightarrow> nat \<Rightarrow> (call \<times> string) list \<Rightarrow> string" where
  "render_from sql cursor [] = drop cursor sql"
| "render_from sql cursor ((call, vector) # cvs) =
     sub_list cursor (c_close call) sql @ vector_argument call vector
     @ render_from sql (c_close call) cvs"

definition render :: "string \<Rightarrow> call list \<Rightarrow> string list \<Rightarrow> string" where
  "render sql calls vectors = render_from sql 0 (zip calls vectors)"

section \<open>Spans of tokens and calls\<close>

lemma escape_suffix: "escape e es = Ok (bs, r) \<Longrightarrow> suffix r (e # es)"
  by (auto simp: escape_def Let_def suffix_drop suffix_ConsI split: if_splits)

lemma str_body_suffix: "str_body escapes s = Ok (v, r) \<Longrightarrow> suffix r s"
proof (induction escapes s arbitrary: v r rule: str_body.induct)
  case (2 escapes ch cs)
  then show ?case
    by (fastforce split: if_splits list.splits sum.splits
          intro: suffix_ConsI dest: escape_suffix suffix_order.trans)
qed simp

lemma ident_body_suffix: "ident_body s = Ok (v, r) \<Longrightarrow> suffix r s"
proof (induction s arbitrary: v r rule: ident_body.induct)
  case (2 ch cs)
  show ?case
  proof (cases "ch = dquote")
    case True
    with 2(1,3) show ?thesis by (fastforce split: if_splits list.splits intro: suffix_ConsI)
  next
    case False
    then obtain v' where "ident_body (drop (utf8_len ch) (ch # cs)) = Ok (v', r)"
      using 2(3) by auto
    then have "suffix r (drop (utf8_len ch) (ch # cs))" using 2(2) False by blast
    then show ?thesis by (rule suffix_order.trans) (rule suffix_drop)
  qed
qed simp

lemma block_comment_suffix: "suffix (snd (block_comment depth s)) s"
proof (induction depth s rule: block_comment.induct)
  case (1 depth s)
  then show ?case
    using suffix_drop [of 2 s] suffix_drop [of 1 s]
    by (subst block_comment.simps) (auto intro: suffix_order.trans)
qed

lemma lex_string_suffix: "lex_string escapes s = Ok (t, r) \<Longrightarrow> suffix r s"
  by (auto simp: lex_string_def split: if_splits dest: str_body_suffix)

lemma lex_dollar_suffix: "lex_dollar s = Ok (t, r) \<Longrightarrow> suffix r s"
  by (auto simp: lex_dollar_def Let_def suffix_drop split: if_splits option.splits)

lemma next_tok_suffix:
  assumes "next_tok ss c cs = Ok (t, r)"
  shows "suffix r (c # cs)"
proof -
  have tl: "lex_string True (tl cs) = Ok (t, r) \<Longrightarrow> suffix r (c # cs)" for c
    by (metis lex_string_suffix suffix_ConsI suffix_order.trans suffix_tl)
  show ?thesis
    using assms block_comment_suffix [of 0 "c # cs"] suffix_dropWhile [of word_char "c # cs"]
      suffix_dropWhile [of "\<lambda>c. c \<noteq> CHR 10 \<and> c \<noteq> CHR 13" "c # cs"]
    by (auto simp: next_tok_def Let_def lex_param_def split: if_splits prod.splits
             intro: suffix_ConsI suffix_drop tl
             dest: lex_string_suffix ident_body_suffix lex_dollar_suffix simp del: dropWhile.simps)
qed

lemma next_tok_punct:
  "next_tok ss c cs = Ok (Some (Punct p), r) \<Longrightarrow> c # cs = p @ r"
  by (auto simp: next_tok_def Let_def lex_param_def lex_string_def lex_dollar_def
           split: if_splits prod.splits option.splits)

text \<open>One step of the loop, as used by the inductions below.\<close>

lemma lex_from_Cons_Ok:
  assumes "lex_from ss i (c # cs) = Ok ts"
  obtains t u r us where "next_tok ss c cs = Ok (t, r)" "c # cs = u @ r" "u \<noteq> []"
    "lex_from ss (i + length u) r = Ok us"
    "ts = (case t of None \<Rightarrow> us | Some t \<Rightarrow> (t, i, i + length u) # us)"
proof -
  obtain t r where n: "next_tok ss c cs = Ok (t, r)"
    using assms by (cases "next_tok ss c cs") (auto simp: lex_from.simps)
  define j where "j = i + (length (c # cs) - length r)"
  have "and_then (lex_from ss j r) (\<lambda>ts. Ok (case t of None \<Rightarrow> ts | Some t \<Rightarrow> (t, i, j) # ts)) = Ok ts"
    using assms n by (simp only: lex_from.simps Let_def sum.case prod.case j_def [symmetric])
  then obtain us where l: "lex_from ss j r = Ok us"
    and ts: "ts = (case t of None \<Rightarrow> us | Some t \<Rightarrow> (t, i, j) # us)"
    by auto
  obtain u where u: "c # cs = u @ r" using next_tok_suffix [OF n] by (auto simp: suffix_def)
  moreover have "j = i + length u" using u by (simp add: j_def)
  moreover have "u \<noteq> []" using next_tok_rest [OF n] u by auto
  ultimately show ?thesis using that n l ts by metis
qed

definition before :: "token \<Rightarrow> token \<Rightarrow> bool" where
  "before t u \<longleftrightarrow> snd (snd t) \<le> fst (snd u)"

definition spans_in :: "nat \<Rightarrow> nat \<Rightarrow> token list \<Rightarrow> bool" where
  "spans_in i j ts \<longleftrightarrow>
     sorted_wrt before ts \<and> (\<forall>t \<in> set ts. i \<le> fst (snd t) \<and> fst (snd t) < snd (snd t) \<and> snd (snd t) \<le> j)"

lemma lex_from_spans: "lex_from ss i s = Ok ts \<Longrightarrow> spans_in i (i + length s) ts"
proof (induction "length s" arbitrary: i s ts rule: less_induct)
  case less
  show ?case
  proof (cases s)
    case (Cons c cs)
    with less(2) obtain t u r us where st: "c # cs = u @ r" "u \<noteq> []"
      "lex_from ss (i + length u) r = Ok us"
      "ts = (case t of None \<Rightarrow> us | Some t \<Rightarrow> (t, i, i + length u) # us)"
      by (auto elim: lex_from_Cons_Ok)
    have "length r < length s" using st(1,2) Cons by (cases u) auto
    then have "spans_in (i + length u) (i + length u + length r) us"
      using less(1) st(3) by blast
    moreover have "length s = length u + length r" using st(1) Cons by simp
    ultimately show ?thesis
      using st(2,4) by (cases t) (auto simp: spans_in_def before_def)
  qed (use less in \<open>simp add: spans_in_def\<close>)
qed

lemma lex_from_punct:
  "lex_from ss (length pre) s = Ok ts \<Longrightarrow> (Punct p, a, b) \<in> set ts \<Longrightarrow> sub_list a b (pre @ s) = p"
proof (induction "length s" arbitrary: pre s ts rule: less_induct)
  case less
  show ?case
  proof (cases s)
    case (Cons c cs)
    with less(2) obtain t u r us where st: "next_tok ss c cs = Ok (t, r)" "c # cs = u @ r" "u \<noteq> []"
      "lex_from ss (length pre + length u) r = Ok us"
      "ts = (case t of None \<Rightarrow> us | Some t \<Rightarrow> (t, length pre, length pre + length u) # us)"
      by (auto elim: lex_from_Cons_Ok)
    have "length r < length s" using st(2,3) Cons by (cases u) auto
    then have rest: "(Punct p, a, b) \<in> set us \<Longrightarrow> sub_list a b (pre @ s) = p"
      using less(1) [of r "pre @ u" us] st(2,4) Cons by simp
    show ?thesis
    proof (cases "t = Some (Punct p) \<and> a = length pre \<and> b = length pre + length u")
      case True
      then have "u = p" using next_tok_punct [of ss c cs p r] st(1,2) by simp
      then show ?thesis using True st(2) Cons by (simp add: sub_list_def)
    next
      case False
      then show ?thesis using rest less(3) st(5) by (auto split: option.splits)
    qed
  qed (use less in simp)
qed

lemma spans_in_append:
  "spans_in i j (xs @ ys) \<Longrightarrow> spans_in i j xs \<and> spans_in i j ys"
  by (auto simp: spans_in_def sorted_wrt_append)

text \<open>
  The nesting depth after some tokens, or \<open>None\<close> if a closing parenthesis among them has no
  partner: a call is closed by the first parenthesis reached at depth 0.
\<close>

fun paren_depth :: "token list \<Rightarrow> nat \<Rightarrow> nat option" where
  "paren_depth [] depth = Some depth"
| "paren_depth (t # ts) depth =
     (if fst t = Punct ''('' \<or> fst t = Punct ''['' then paren_depth ts (depth + 1)
      else if (fst t = Punct '')'' \<or> fst t = Punct '']'') \<and> depth > 0 then paren_depth ts (depth - 1)
      else if fst t = Punct '')'' then None
      else paren_depth ts depth)"

lemma call_args_split:
  "call_args ts depth cur args = Some (a, t, r) \<Longrightarrow>
   \<exists>us. ts = us @ t # r \<and> fst t = Punct '')'' \<and> paren_depth us depth = Some 0"
proof (induction ts depth cur args rule: call_args.induct)
  case (2 u ts depth cur args)
  consider (opens) "fst u = Punct ''('' \<or> fst u = Punct ''[''"
    | (closes) "fst u = Punct '')'' \<or> fst u = Punct '']''" "depth > 0"
    | (last) "fst u = Punct '')''" "depth = 0"
    | (other) "fst u \<noteq> Punct ''(''" "fst u \<noteq> Punct ''[''" "fst u \<noteq> Punct '')''" "fst u = Punct '']'' \<Longrightarrow> depth = 0" by blast
  then show ?case
  proof cases
    case opens
    then obtain us where "ts = us @ t # r" "fst t = Punct '')''" "paren_depth us (depth + 1) = Some 0"
      using 2(1,5) by auto
    then show ?thesis using opens by (intro exI [of _ "u # us"]) simp
  next
    case closes
    then obtain us where "ts = us @ t # r" "fst t = Punct '')''" "paren_depth us (depth - 1) = Some 0"
      using 2(2,5) by auto
    then show ?thesis using closes by (intro exI [of _ "u # us"]) auto
  next
    case last
    then show ?thesis using 2(5) by (intro exI [of _ "[]"]) simp
  next
    case other
    then obtain us where "ts = us @ t # r" "fst t = Punct '')''" "paren_depth us depth = Some 0"
      using 2(3-5) by (auto split: if_splits)
    then show ?thesis using other by (intro exI [of _ "u # us"]) auto
  qed
qed simp

lemma mk_call_fields:
  "mk_call k n t args = Some (c, s, e) \<Longrightarrow>
   c_start c = fst (snd n) \<and> c_end c = snd (snd t) \<and> c_close c = fst (snd t) \<and> c_embed c = k"
  by (auto simp: mk_call_def Let_def split: option.splits if_splits list.splits prod.splits)

text \<open>
  What a scanned call is: \<open>postvec.search(\<close> or \<open>postvec.embed(\<close>, then tokens whose brackets
  match, then the parenthesis that closes the call; the call starts at its name and \<open>c_close\<close> is
  where that parenthesis stands.
\<close>

definition call_in :: "token list \<Rightarrow> call \<Rightarrow> bool" where
  "call_in toks c \<longleftrightarrow>
     (\<exists>us n dot f paren vs t ws. toks = us @ n # dot # f # paren # vs @ t # ws \<and>
        fst n = Ident ''postvec'' \<and> fst dot = Punct ''.'' \<and>
        fst f = (if c_embed c then Ident ''embed'' else Ident ''search'') \<and> fst paren = Punct ''('' \<and>
        paren_depth vs 0 = Some 0 \<and> fst t = Punct '')'' \<and>
        c_start c = fst (snd n) \<and> c_end c = snd (snd t) \<and> c_close c = fst (snd t))"

lemma call_in_append: "call_in ts c \<Longrightarrow> call_in (us @ ts) c"
  unfolding call_in_def by (metis append.assoc)

lemma scan_calls_found:
  assumes "spans_in i j toks"
  shows "(\<forall>x \<in> set (scan_calls prev toks). call_in toks (fst x)) \<and>
         sorted_wrt (\<lambda>x y. c_end (fst x) \<le> c_start (fst y)) (scan_calls prev toks)"
  using assms
proof (induction prev toks arbitrary: i rule: scan_calls.induct)
  case (1 prev a b c d ts)
  let ?toks = "a # b # c # d # ts"
  let ?hit = "fst a = Ident ''postvec'' \<and> fst b = Punct ''.'' \<and>
         (fst c = Ident ''search'' \<or> fst c = Ident ''embed'') \<and> fst d = Punct ''('' \<and>
         prev \<noteq> Some (Punct ''.'')"
  show ?case
  proof (cases ?hit)
    case False
    have "spans_in i j (b # c # d # ts)" using 1(4) spans_in_append [of i j "[a]"] by simp
    moreover have step: "scan_calls prev ?toks = scan_calls (Some (fst a)) (b # c # d # ts)"
      using False by auto
    ultimately show ?thesis
      using 1(3) [OF False] call_in_append [of _ _ "[a]"] unfolding step by auto
  next
    case True
    show ?thesis
    proof (cases "call_args ts 0 [] []")
      case None
      then show ?thesis using True by simp
    next
      case (Some p)
      obtain args t r where p: "p = (args, t, r)" by (cases p)
      obtain us where us: "ts = us @ t # r" "fst t = Punct '')''" "paren_depth us 0 = Some 0"
        using call_args_split Some p by blast
      have toks: "?toks = [] @ a # b # c # d # us @ t # r" using us by simp
      have "spans_in (snd (snd t)) j r"
        using 1(4) us by (auto simp: spans_in_def sorted_wrt_append before_def)
      then have ih: "(\<forall>x \<in> set (scan_calls (Some (fst t)) r). call_in r (fst x)) \<and>
         sorted_wrt (\<lambda>x y. c_end (fst x) \<le> c_start (fst y)) (scan_calls (Some (fst t)) r)"
        using 1(1,2) [OF True Some p [symmetric] refl] by (cases "mk_call (fst c = Ident ''embed'') a t args") blast+
      have later: "snd (snd t) \<le> c_start x" if "call_in r x" for x
        using that \<open>spans_in (snd (snd t)) j r\<close> by (auto simp: call_in_def spans_in_def)
      have lift: "call_in ?toks x" if "call_in r x" for x
        using call_in_append [OF that, of "a # b # c # d # us @ [t]"] us by simp
      show ?thesis
      proof (cases "mk_call (fst c = Ident ''embed'') a t args")
        case None
        then have "scan_calls prev ?toks = scan_calls (Some (fst t)) r" using True Some p by simp
        then show ?thesis using ih lift by auto
      next
        case (Some x)
        obtain k s e where x: "x = (k, s, e)" by (cases x)
        have k: "c_start k = fst (snd a)" "c_end k = snd (snd t)" "c_close k = fst (snd t)"
          "fst c = (if c_embed k then Ident ''embed'' else Ident ''search'')"
          using mk_call_fields Some x True by auto
        then have "call_in ?toks k" unfolding call_in_def using toks True us(2,3) by blast
        moreover have "scan_calls prev ?toks = x # scan_calls (Some (fst t)) r"
          using True \<open>call_args ts 0 [] [] = Some p\<close> p Some by simp
        ultimately show ?thesis using ih lift later k(2) x by auto
      qed
    qed
  qed
qed simp_all

lemma call_in_located:
  assumes "lex_sql sql ss = Ok toks" "call_in toks c"
  shows "c_start c < c_close c \<and> c_end c = c_close c + 1 \<and> c_end c \<le> length sql \<and>
         sql ! c_close c = CHR '')''"
proof -
  obtain us n vs t ws where toks: "toks = us @ n # vs @ t # ws" and t: "fst t = Punct '')''"
    and c: "c_start c = fst (snd n)" "c_end c = snd (snd t)" "c_close c = fst (snd t)"
    using assms(2) unfolding call_in_def by (metis append_Cons)
  have sp: "spans_in 0 (length sql) toks"
    using assms(1) lex_from_spans [of ss 0 sql] by (simp add: lex_sql_def)
  have b: "fst (snd t) < snd (snd t)" "snd (snd t) \<le> length sql" "snd (snd n) \<le> fst (snd t)"
    "fst (snd n) < snd (snd n)"
    using sp unfolding toks by (auto simp: spans_in_def sorted_wrt_append before_def)
  have "(Punct '')'', fst (snd t), snd (snd t)) \<in> set toks"
    using t unfolding toks by (cases t) auto
  then have sub: "sub_list (fst (snd t)) (snd (snd t)) sql = '')''"
    using lex_from_punct [of ss "[]" sql] assms(1) by (simp add: lex_sql_def)
  then have "snd (snd t) - fst (snd t) = 1"
    using length_sub_list [OF b(2), of "fst (snd t)"] by simp
  moreover have "sql ! fst (snd t) = CHR '')''"
    using sub nth_sub_list [of "fst (snd t)" 0 "snd (snd t)" sql] b by simp
  ultimately show ?thesis using b c by auto
qed

lemma scan_sound:
  assumes "lex_sql sql ss = Ok toks"
  shows "\<forall>c \<in> set (scan_with_strings sql ss). call_in toks c"
    and "sorted_wrt (\<lambda>c d. c_end c \<le> c_start d) (scan_with_strings sql ss)"
proof -
  let ?f = "\<lambda>(call, _). case c_text call of
     ArgParam n \<Rightarrow> if \<not> c_untyped call
       then call\<lparr>c_untyped := all_uses_text toks (scan_calls None toks) call n\<rparr> else call
   | ArgLiteral _ \<Rightarrow> call"
  have f: "c_start (?f x) = c_start (fst x)" "c_end (?f x) = c_end (fst x)"
    "c_close (?f x) = c_close (fst x)" "c_embed (?f x) = c_embed (fst x)" for x :: "call \<times> nat \<times> nat"
    by (cases x; auto split: arg_value.splits)+
  have s: "scan_with_strings sql ss = map ?f (scan_calls None toks)"
    using assms by (simp add: scan_with_strings_def Let_def)
  have "spans_in 0 (length sql) toks"
    using assms lex_from_spans [of ss 0 sql] by (simp add: lex_sql_def)
  note found = scan_calls_found [OF this, of None]
  show "\<forall>c \<in> set (scan_with_strings sql ss). call_in toks c"
    unfolding s using found f by (simp add: call_in_def)
  show "sorted_wrt (\<lambda>c d. c_end c \<le> c_start d) (scan_with_strings sql ss)"
    unfolding s sorted_wrt_map f using found by blast
qed

lemma scan_lexes: "c \<in> set (scan_with_strings sql ss) \<Longrightarrow> \<exists>toks. lex_sql sql ss = Ok toks"
  by (cases "lex_sql sql ss") (simp_all add: scan_with_strings_def)

text \<open>
  Where the scanned calls lie. Every call the scan returns is a span of the statement that
  ends with its closing parenthesis, and two calls never overlap: each one ends before the next
  begins, in source order.
\<close>
theorem scan_calls_located:
  "sorted_wrt (\<lambda>c d. c_end c \<le> c_start d) (scan_with_strings sql ss) \<and>
   (\<forall>c \<in> set (scan_with_strings sql ss).
      c_start c < c_close c \<and> c_end c = c_close c + 1 \<and> c_end c \<le> length sql \<and>
      sql ! c_close c = CHR '')'')"
proof (cases "lex_sql sql ss")
  case (Inl e)
  then show ?thesis by (simp add: scan_with_strings_def)
next
  case (Inr toks)
  then show ?thesis using scan_sound call_in_located by blast
qed

text \<open>\<open>cuts\<close> cuts a statement at the given positions.\<close>

fun cuts :: "string \<Rightarrow> nat \<Rightarrow> nat list \<Rightarrow> string list" where
  "cuts sql cursor [] = [drop cursor sql]"
| "cuts sql cursor (p # ps) = sub_list cursor p sql # cuts sql p ps"

lemma concat_cuts:
  "sorted (cursor # ps) \<Longrightarrow> \<forall>p \<in> set ps. p \<le> length sql \<Longrightarrow> concat (cuts sql cursor ps) = drop cursor sql"
proof (induction ps arbitrary: cursor)
  case (Cons p ps)
  then have "concat (cuts sql cursor (p # ps)) = sub_list cursor p sql @ drop p sql" by simp
  moreover have "drop p sql = drop (p - cursor) (drop cursor sql)" using Cons(2) by simp
  ultimately show ?case by (simp only: sub_list_def append_take_drop_id)
qed simp

lemma length_cuts [simp]: "length (cuts sql cursor ps) = Suc (length ps)"
  by (induction ps arbitrary: cursor) auto

lemma render_from_cuts:
  "render_from sql cursor cvs =
     hd (cuts sql cursor (map (\<lambda>x. c_close (fst x)) cvs)) @
     concat (map2 (\<lambda>(c, v) piece. vector_argument c v @ piece) cvs
               (tl (cuts sql cursor (map (\<lambda>x. c_close (fst x)) cvs))))"
proof (induction cvs arbitrary: cursor)
  case (Cons cv cvs)
  obtain c v where cv: "cv = (c, v)" by (cases cv)
  obtain p ps where "cuts sql (c_close c) (map (\<lambda>x. c_close (fst x)) cvs) = p # ps"
    using length_cuts by (metis Suc_length_conv)
  then show ?case using Cons [of "c_close c"] by (simp add: cv)
qed simp

text \<open>
  C26. The rewrite inserts one vector argument before the closing parenthesis of every call and
  leaves everything else byte for byte. Each call the scan returns is \<open>postvec.search(\<close> or
  \<open>postvec.embed(\<close>, tokens with matching brackets and the parenthesis that closes it, and
  \<open>c_close\<close> is the position of that very byte. Cutting the statement at these positions gives
  pieces whose concatenation is the original statement, and the rendered statement is those same
  pieces with one vector argument at each cut.
\<close>
theorem render_preserves_sql:
  assumes "calls = scan_with_strings sql ss" "length vectors = length calls"
  shows "(\<forall>c \<in> set calls. (\<exists>toks. lex_sql sql ss = Ok toks \<and> call_in toks c) \<and>
            c_start c < c_close c \<and> c_end c = c_close c + 1 \<and> c_end c \<le> length sql \<and>
            sql ! c_close c = CHR '')'') \<and>
         concat (cuts sql 0 (map c_close calls)) = sql \<and>
         render sql calls vectors =
           hd (cuts sql 0 (map c_close calls)) @
           concat (map2 (\<lambda>(c, v) piece. vector_argument c v @ piece) (zip calls vectors)
                     (tl (cuts sql 0 (map c_close calls))))"
proof -
  have "sorted (map c_close calls)" "\<forall>p \<in> set (map c_close calls). p \<le> length sql"
  proof -
    have loc: "c_close c \<le> c_end c" "c_start c \<le> c_close c" "c_close c \<le> length sql"
      if "c \<in> set calls" for c
      using that scan_lexes call_in_located scan_sound(1) unfolding assms(1)
      by (metis le_add1 less_imp_le order_trans)+
    show "\<forall>p \<in> set (map c_close calls). p \<le> length sql" using loc by auto
    show "sorted (map c_close calls)"
    proof (cases calls)
      case (Cons c cs)
      then obtain toks where "lex_sql sql ss = Ok toks" using scan_lexes assms(1) by (metis list.set_intros(1))
      then have "sorted_wrt (\<lambda>c d. c_end c \<le> c_start d) calls"
        using scan_sound(2) assms(1) by blast
      then have "sorted_wrt (\<lambda>c d. c_close c \<le> c_close d) calls"
        by (rule sorted_wrt_mono_rel [rotated]) (use loc in \<open>meson order_trans\<close>)
      then show ?thesis by (simp add: sorted_map)
    qed simp
  qed
  then have "concat (cuts sql 0 (map c_close calls)) = sql"
    using concat_cuts [of 0 "map c_close calls" sql] by simp
  moreover have "map (\<lambda>x. c_close (fst x)) (zip calls vectors) = map c_close calls"
    using assms(2) by (intro nth_equalityI) simp_all
  moreover have "\<forall>c \<in> set calls. (\<exists>toks. lex_sql sql ss = Ok toks \<and> call_in toks c) \<and> c_start c < c_close c \<and>
      c_end c = c_close c + 1 \<and> c_end c \<le> length sql \<and> sql ! c_close c = CHR '')''"
    unfolding assms(1) using scan_lexes scan_sound(1) call_in_located by blast
  ultimately show ?thesis using render_from_cuts [of sql 0 "zip calls vectors"]
    unfolding render_def by auto
qed

lemmas lex_eval = lex_sql_def lex_from.simps next_tok_def lex_string_def lex_param_def lex_dollar_def
  word_start_def word_char_def to_ascii_lowercase_def starts_with_def number_def digit_of_def
  ascii_defs byte_def Let_def

lemmas scan_eval = scan_with_strings_def mk_call_def literal_def arg_def text_cast_def
  all_uses_text_def

lemma scan_example:
  "scan_with_strings ''SELECT postvec.embed(($1), $$m$$)'' True =
     [\<lparr>c_start = 7, c_end = 33, c_close = 32, c_embed = True, c_relation = ''m'', c_column = [],
       c_text = ArgParam 1, c_untyped = True\<rparr>]"
  by (simp add: lex_eval scan_eval)

theorem render_preserves_sql_witness:
  "render ''SELECT postvec.embed(($1), $$m$$)''
     (scan_with_strings ''SELECT postvec.embed(($1), $$m$$)'' True) [''NULL'']
   = ''SELECT postvec.embed(($1), $$m$$, vector => NULL)''"
  using render_preserves_sql [OF refl, of "[''NULL'']" "''SELECT postvec.embed(($1), $$m$$)''" True]
  by (simp add: scan_example vector_argument_def sub_list_def)

theorem scan_calls_located_witness:
  "\<exists>c. scan_with_strings ''SELECT postvec.embed(($1), $$m$$)'' True = [c] \<and>
     c_start c < c_close c \<and> ''SELECT postvec.embed(($1), $$m$$)'' ! c_close c = CHR '')''"
  using scan_calls_located [of "''SELECT postvec.embed(($1), $$m$$)''" True] scan_example by auto

section \<open>Quoted text is one token\<close>

text \<open>
  The interface between the code that quotes text into SQL and the lexer that reads SQL: a
  quoting function writes, for every admissible text, bytes that the lexer reads as one token
  carrying exactly that text, provided the closing quote is not doubled by what follows.
\<close>

locale sql_quoting =
  fixes quote :: "string \<Rightarrow> string"
    and token :: "string \<Rightarrow> tok"
    and standard :: bool
    and closing :: char
    and admissible :: "string \<Rightarrow> bool"
  assumes token_inj: "token s = token t \<Longrightarrow> s = t"
    and quote_shape: "\<exists>c cs. quote s = c # cs"
    and quote_next: "admissible s \<Longrightarrow> rest = [] \<or> hd rest \<noteq> closing \<Longrightarrow>
      next_tok standard (hd (quote s)) (tl (quote s) @ rest) = Ok (Some (token s), rest)"
begin

lemma lex_quote_from:
  assumes "admissible s" "rest = [] \<or> hd rest \<noteq> closing"
  shows "lex_from standard i (quote s @ rest) =
    and_then (lex_from standard (i + length (quote s)) rest)
      (\<lambda>ts. Ok ((token s, i, i + length (quote s)) # ts))"
proof -
  obtain c cs where q: "quote s = c # cs" using quote_shape by blast
  show ?thesis
    using quote_next [OF assms] by (simp add: q lex_from.simps Let_def)
qed

lemma lex_quote: "admissible s \<Longrightarrow> lex_sql (quote s) standard = Ok [(token s, 0, length (quote s))]"
  using lex_quote_from [of s "[]" 0] by (simp add: lex_sql_def)

lemma quote_inj:
  assumes "admissible s" "admissible t" "quote s = quote t"
  shows "s = t"
  using lex_quote [OF assms(1)] lex_quote [OF assms(2)] assms(3) token_inj by simp

end

lemma str_body_literal:
  assumes "rest = [] \<or> hd rest \<noteq> apos" "\<not> escapes \<or> backslash \<notin> set s"
  shows "str_body escapes (double_char apos s @ apos # rest) = Ok (s, rest)"
  using assms by (induction s) (auto split: list.splits)

lemma escape_self [simp]:
  "escape backslash r = Ok ([backslash], r)" "escape apos r = Ok ([apos], r)"
  by (simp_all add: escape_def byte_def utf8_len_def)

lemma str_body_estring:
  assumes "rest = [] \<or> hd rest \<noteq> apos"
  shows "str_body True (concat (map (\<lambda>ch. if ch = backslash then [backslash, backslash]
            else if ch = apos then [backslash, apos] else [ch]) s) @ apos # rest) = Ok (s, rest)"
  using assms by (induction s) (auto split: list.splits)

lemma ident_body_quoted:
  assumes "valid_utf8 s" "rest = [] \<or> hd rest \<noteq> dquote"
  shows "ident_body (double_char dquote s @ dquote # rest) = Ok (s, rest)"
  using assms(1)
proof (induction "length s" arbitrary: s rule: less_induct)
  case less
  show ?case
  proof (cases s)
    case Nil
    then show ?thesis using assms(2) by (auto split: list.splits)
  next
    case (Cons c cs)
    have "valid_utf8 (c # cs)" using less(2) Cons by simp
    then show ?thesis
    proof (cases rule: valid_utf8_Cons_cases)
      case ascii
      then have "ident_body (double_char dquote cs @ dquote # rest) = Ok (cs, rest)"
        using less(1) Cons by simp
      moreover have "utf8_len c = 1" using ascii by (simp add: utf8_len_def)
      ultimately show ?thesis by (simp add: Cons)
    next
      case (multi u r)
      have noq: "dquote \<notin> set u" using multi(5) by (auto simp: byte_def)
      then have c: "c \<noteq> dquote" using multi(4) by (metis list.set_intros(1))
      have s: "s = u @ r" using multi(2) Cons by simp
      let ?in = "double_char dquote s @ dquote # rest"
      have d: "?in = u @ double_char dquote r @ dquote # rest"
        using noq by (simp add: s double_char_append double_char_absent)
      have "ident_body (double_char dquote r @ dquote # rest) = Ok (r, rest)"
        using less(1) [of r] multi(4,6) s by (cases u) auto
      moreover have "take (utf8_len c) ?in = u" "drop (utf8_len c) ?in = double_char dquote r @ dquote # rest"
        unfolding d multi(3) [symmetric] by simp_all
      moreover obtain xs where xs: "?in = c # xs" using d multi(4) by (metis append_Cons)
      ultimately have "ident_body ?in = Ok (u @ r, rest)"
        using c unfolding xs by (simp del: take_Cons drop_Cons)
      then show ?thesis by (simp add: s)
    qed
  qed
qed

interpretation estring: sql_quoting quote_literal_estring Str ss apos valid_utf8 for ss
proof unfold_locales
  fix s rest :: string
  assume "valid_utf8 s" "rest = [] \<or> hd rest \<noteq> apos"
  then show "next_tok ss (hd (quote_literal_estring s)) (tl (quote_literal_estring s) @ rest)
      = Ok (Some (Str s), rest)"
    using str_body_estring [of rest s]
    by (simp add: quote_literal_estring_def next_tok_def lex_string_def starts_with_def ascii_defs
                  byte_def)
qed (simp_all add: quote_literal_estring_def)

interpretation standard_literal: sql_quoting quote_literal Str True apos valid_utf8
proof unfold_locales
  fix s rest :: string
  assume "valid_utf8 s" "rest = [] \<or> hd rest \<noteq> apos"
  then show "next_tok True (hd (quote_literal s)) (tl (quote_literal s) @ rest) = Ok (Some (Str s), rest)"
    using str_body_literal [of rest False s]
    by (simp add: quote_literal_def next_tok_def lex_string_def starts_with_def ascii_defs byte_def)
qed (simp_all add: quote_literal_def)

interpretation legacy_literal: sql_quoting quote_literal Str False apos
  "\<lambda>s. valid_utf8 s \<and> backslash \<notin> set s"
proof unfold_locales
  fix s rest :: string
  assume "valid_utf8 s \<and> backslash \<notin> set s" "rest = [] \<or> hd rest \<noteq> apos"
  then show "next_tok False (hd (quote_literal s)) (tl (quote_literal s) @ rest) = Ok (Some (Str s), rest)"
    using str_body_literal [of rest True s]
    by (simp add: quote_literal_def next_tok_def lex_string_def starts_with_def ascii_defs byte_def)
qed (simp_all add: quote_literal_def)

interpretation quoted_ident: sql_quoting quote_ident Ident ss dquote valid_utf8 for ss
proof unfold_locales
  fix s rest :: string
  assume "valid_utf8 s" "rest = [] \<or> hd rest \<noteq> dquote"
  then show "next_tok ss (hd (quote_ident s)) (tl (quote_ident s) @ rest) = Ok (Some (Ident s), rest)"
    using ident_body_quoted [of s rest]
    by (simp add: quote_ident_def next_tok_def starts_with_def ascii_defs byte_def)
qed (simp_all add: quote_ident_def)

text \<open>
  Quoting is injection-safe. Whatever the text, \<open>quote_ident\<close> lexes to one identifier token
  with exactly that name and \<open>quote_literal_estring\<close> to one string token with exactly that value,
  under either setting of \<open>standard_conforming_strings\<close>; \<open>quote_literal\<close> does so under the
  standard setting, and under the legacy one for texts without a backslash.
\<close>
theorem quoting_is_one_token:
  assumes "valid_utf8 s"
  shows "lex_sql (quote_ident s) ss = Ok [(Ident s, 0, length (quote_ident s))]
       \<and> lex_sql (quote_literal_estring s) ss = Ok [(Str s, 0, length (quote_literal_estring s))]
       \<and> lex_sql (quote_literal s) True = Ok [(Str s, 0, length (quote_literal s))]
       \<and> (backslash \<in> set s \<or> lex_sql (quote_literal s) False = Ok [(Str s, 0, length (quote_literal s))])"
  using assms quoted_ident.lex_quote [of s ss] estring.lex_quote [of s ss]
    standard_literal.lex_quote [of s] legacy_literal.lex_quote [of s] by blast

theorem quoting_is_one_token_witness:
  "lex_sql (quote_literal_estring (apos # backslash # ''; DROP TABLE t --'')) False
     = Ok [(Str (apos # backslash # ''; DROP TABLE t --''), 0, 24)]"
  using quoting_is_one_token [of "apos # backslash # ''; DROP TABLE t --''" False]
  by (simp add: valid_utf8_ascii byte_def quote_literal_estring_def)

lemma str_body_swallows:
  "backslash \<notin> set s \<Longrightarrow>
   str_body True (double_char apos s @ backslash # apos # rest)
     = and_then (str_body True rest) (\<lambda>(v, r). Ok (s @ apos # v, r))"
  by (induction s) (auto simp: and_then_assoc case_prod_unfold)

text \<open>
  Why stored text goes through \<open>quote_literal_estring\<close>: under the legacy setting a trailing
  backslash escapes the closing apostrophe of \<open>quote_literal\<close>, and the string the lexer reads
  runs on into whatever SQL follows the literal.
\<close>
lemma quote_literal_legacy_runs_on:
  assumes "backslash \<notin> set s"
  shows "next_tok False (hd (quote_literal (s @ [backslash]))) (tl (quote_literal (s @ [backslash])) @ rest)
    = and_then (str_body True rest)
        (\<lambda>(v, r). if valid_utf8 (s @ apos # v) then Ok (Some (Str (s @ apos # v)), r) else Err NotUtf8)"
  using str_body_swallows [OF assms, of rest]
  by (cases "str_body True rest")
     (auto simp: quote_literal_def double_char_append next_tok_def lex_string_def starts_with_def
           ascii_defs byte_def)

end
