(* ===== verification/TemplateSql.thy ===== *)
theory TemplateSql
  imports Rewrite
begin

text \<open>
  How the SQL built by \<open>Templates\<close> is read by the lexer of \<open>Rewrite\<close>: the token sequences of the
  render and length expressions, as functions of the parsed template. Column names, template
  literals and the source column stay inside single tokens whatever bytes they hold.
\<close>

section \<open>Token sequences without positions\<close>

definition lex_toks :: "bool \<Rightarrow> string \<Rightarrow> lex_error + tok list" where
  "lex_toks ss s = and_then (lex_sql s ss) (\<lambda>ts. Ok (map fst ts))"

lemma lex_from_shift:
  "and_then (lex_from ss i s) (\<lambda>ts. Ok (map fst ts)) = and_then (lex_from ss j s) (\<lambda>ts. Ok (map fst ts))"
proof (induction "length s" arbitrary: i j s rule: less_induct)
  case less
  show ?case
  proof (cases s)
    case (Cons c cs)
    show ?thesis
    proof (cases "next_tok ss c cs")
      case (Inr p)
      obtain t r where p: "p = (t, r)" by (cases p)
      have "length r < length s" using next_tok_rest Inr p Cons by blast
      note ih = less [OF this]
      have step: "and_then (lex_from ss k s) (\<lambda>ts. Ok (map fst ts)) =
          and_then (and_then (lex_from ss (k + (length s - length r)) r) (\<lambda>ts. Ok (map fst ts)))
            (\<lambda>ts. Ok (case t of None \<Rightarrow> ts | Some t \<Rightarrow> t # ts))" for k
        using Inr p Cons
        by (cases "lex_from ss (k + (length s - length r)) r")
           (auto simp: lex_from.simps Let_def split: option.splits)
      show ?thesis unfolding step [of i] step [of j]
        by (rule arg_cong [of _ _ "\<lambda>x. and_then x _"]) (rule ih)
    qed (simp add: Cons lex_from.simps)
  qed simp
qed

lemma lex_toks_Nil [simp]: "lex_toks ss [] = Ok []"
  by (simp add: lex_toks_def lex_sql_def)

lemma lex_toks_Cons:
  assumes "next_tok ss c cs = Ok (t, r)"
  shows "lex_toks ss (c # cs) = and_then (lex_toks ss r) (\<lambda>ts. Ok ((case t of None \<Rightarrow> [] | Some t \<Rightarrow> [t]) @ ts))"
proof -
  let ?j = "length (c # cs) - length r"
  have "lex_toks ss r = and_then (lex_from ss ?j r) (\<lambda>ts. Ok (map fst ts))"
    using lex_from_shift [of ss 0 r ?j] by (simp add: lex_toks_def lex_sql_def)
  then show ?thesis
    using assms by (cases "lex_from ss ?j r")
      (auto simp: lex_toks_def lex_sql_def lex_from.simps Let_def split: option.splits)
qed

text \<open>
  \<open>tight ss s ts\<close>: \<open>s\<close> lexes to \<open>ts\<close> whatever follows; \<open>lexes ss s ts\<close>: it does when what follows
  starts with one of the delimiters the builders use.
\<close>

definition delim :: "string \<Rightarrow> bool" where
  "delim s \<longleftrightarrow> s = [] \<or> hd s \<in> set '' .,:()''"

definition emits :: "bool \<Rightarrow> string \<Rightarrow> tok list \<Rightarrow> string \<Rightarrow> bool" where
  "emits ss s ts rest \<longleftrightarrow> lex_toks ss (s @ rest) = and_then (lex_toks ss rest) (\<lambda>us. Ok (ts @ us))"

definition tight :: "bool \<Rightarrow> string \<Rightarrow> tok list \<Rightarrow> bool" where
  "tight ss s ts \<longleftrightarrow> (\<forall>rest. emits ss s ts rest)"

definition lexes :: "bool \<Rightarrow> string \<Rightarrow> tok list \<Rightarrow> bool" where
  "lexes ss s ts \<longleftrightarrow> (\<forall>rest. delim rest \<longrightarrow> emits ss s ts rest)"

lemma emits_append: "emits ss s ts (u @ rest) \<Longrightarrow> emits ss u us rest \<Longrightarrow> emits ss (s @ u) (ts @ us) rest"
  by (simp add: emits_def and_then_assoc)

lemma tight_lexes: "tight ss s ts \<Longrightarrow> lexes ss s ts"
  by (simp add: tight_def lexes_def)

lemma tight_append: "tight ss s ts \<Longrightarrow> tight ss u us \<Longrightarrow> tight ss (s @ u) (ts @ us)"
  by (simp add: tight_def emits_append)

lemma tight_lexes_append: "tight ss s ts \<Longrightarrow> lexes ss u us \<Longrightarrow> lexes ss (s @ u) (ts @ us)"
  by (simp add: tight_def lexes_def emits_append)

lemma delim_append: "delim u \<Longrightarrow> u \<noteq> [] \<Longrightarrow> delim (u @ rest)"
  by (simp add: delim_def)

lemma lexes_tight_append:
  "lexes ss s ts \<Longrightarrow> tight ss u us \<Longrightarrow> delim u \<Longrightarrow> u \<noteq> [] \<Longrightarrow> tight ss (s @ u) (ts @ us)"
  by (simp add: tight_def lexes_def emits_append delim_append)

lemma lexes_append:
  "lexes ss s ts \<Longrightarrow> lexes ss u us \<Longrightarrow> delim u \<Longrightarrow> u \<noteq> [] \<Longrightarrow> lexes ss (s @ u) (ts @ us)"
  by (simp add: lexes_def emits_append delim_append)

lemma tight_Nil [simp]: "tight ss [] []"
  by (simp add: tight_def emits_def)

lemma lexes_final: "lexes ss s ts \<Longrightarrow> lex_toks ss s = Ok ts"
  by (force simp: lexes_def emits_def delim_def)


section \<open>Lexing the building blocks\<close>

text \<open>A quoting function's output is \<open>lexes\<close>-compositional: the delimiters are no quotes.\<close>

context sql_quoting
begin

lemma quote_lexes:
  assumes "admissible s" "closing \<notin> set '' .,:()''"
  shows "lexes standard (quote s) [token s]"
proof -
  obtain c cs where q: "quote s = c # cs" using quote_shape by blast
  have "lex_toks standard (quote s @ rest) = and_then (lex_toks standard rest) (\<lambda>us. Ok (token s # us))"
    if "delim rest" for rest
    using quote_next [OF assms(1), of rest] that assms(2) lex_toks_Cons [of standard c "cs @ rest"]
    by (auto simp: q delim_def)
  then show ?thesis by (simp add: lexes_def emits_def)
qed

end

lemma ident_lexes: "valid_utf8 s \<Longrightarrow> lexes ss (quote_ident s) [Ident s]"
  by (rule quoted_ident.quote_lexes) auto

lemma estring_lexes: "valid_utf8 s \<Longrightarrow> lexes ss (quote_literal_estring s) [Str s]"
  by (rule estring.quote_lexes) auto

lemma emits_step:
  assumes "next_tok ss c (s @ rest) = Ok (t, r @ rest)" "emits ss r ts rest"
  shows "emits ss (c # s) ((case t of None \<Rightarrow> [] | Some t \<Rightarrow> [t]) @ ts) rest"
  using assms lex_toks_Cons [OF assms(1)] by (simp add: emits_def and_then_assoc)

lemma tight_space: "tight ss '' '' []"
  unfolding tight_def
  by (intro allI) (use emits_step [of ss "CHR '' ''" "[]" _ None "[]" "[]"] in
    \<open>simp add: emits_def next_tok_def ascii_defs byte_def\<close>)

lemma tight_punct: "c \<in> set ''.,()|+'' \<Longrightarrow> tight ss [c] [Punct [c]]"
  unfolding tight_def
  by (intro allI) (use emits_step [of ss c "[]" _ "Some (Punct [c])" "[]" "[]"] in
    \<open>auto simp: emits_def next_tok_def starts_with_def ascii_defs byte_def Let_def word_start_def\<close>)

lemma tight_colons: "tight ss ''::'' [Punct ''::'']"
  unfolding tight_def
  by (intro allI) (use emits_step [of ss "CHR '':''" "'':''" _ "Some (Punct ''::'')" "[]" "[]"] in
    \<open>auto simp: emits_def next_tok_def starts_with_def ascii_defs byte_def Let_def word_start_def\<close>)

lemma delim_not_word: "delim rest \<Longrightarrow> takeWhile word_char rest = [] \<and> dropWhile word_char rest = rest"
  by (cases rest) (auto simp: delim_def word_char_def ascii_defs byte_def)

definition is_word :: "string \<Rightarrow> bool" where
  "is_word w \<longleftrightarrow> w \<noteq> [] \<and> word_start (hd w) \<and> list_all word_char w"

lemma not_word_apos: "\<not> word_char apos"
  by (simp add: word_char_def ascii_defs byte_def)

lemma next_tok_word:
  assumes "is_word (c # cs)" "delim rest"
  shows "next_tok ss c (cs @ rest) = Ok (Some (Ident (to_ascii_lowercase (c # cs))), rest)"
proof -
  have c: "word_start c" "word_char c" "\<And>x. x \<in> set cs \<Longrightarrow> word_char x"
    using assms(1) by (auto simp: is_word_def list_all_iff)
  have special: "c \<noteq> apos" "c \<noteq> dquote" "c \<noteq> CHR ''$''" "\<not> is_ascii_whitespace c"
    "c \<noteq> CHR ''-''" "c \<noteq> CHR ''/''"
    using c(1) by (auto simp: word_start_def ascii_defs byte_def)
  have "\<not> (cs @ rest \<noteq> [] \<and> hd (cs @ rest) = apos)"
  proof (cases cs)
    case Nil
    then show ?thesis using assms(2) by (auto simp: delim_def)
  next
    case (Cons d ds)
    then have "word_char d" using c(3) by simp
    then show ?thesis using not_word_apos Cons by auto
  qed
  moreover have "takeWhile word_char (c # cs @ rest) = c # cs" "dropWhile word_char (c # cs @ rest) = rest"
    using c delim_not_word [OF assms(2)] by (simp_all add: takeWhile_append2 dropWhile_append2)
  ultimately show ?thesis
    using c(1) special
    by (auto simp: next_tok_def starts_with_def Let_def simp del: takeWhile.simps dropWhile.simps)
qed

lemma word_lexes:
  assumes "is_word w"
  shows "lexes ss w [Ident (to_ascii_lowercase w)]"
proof -
  obtain c cs where w: "w = c # cs" using assms by (cases w) (auto simp: is_word_def)
  show ?thesis
    unfolding lexes_def w
    using emits_step [of ss c cs _ "Some (Ident (to_ascii_lowercase w))" "[]" "[]"]
      next_tok_word [of c cs _ ss] assms w by (auto simp: emits_def)
qed

section \<open>Stored templates are UTF-8 throughout\<close>

fun seg_text :: "format_seg \<Rightarrow> string" where
  "seg_text (Literal s) = s"
| "seg_text (Column c) = c"

lemma valid_utf8_ascii_snoc: "byte c < 128 \<Longrightarrow> valid_utf8 (x @ [c]) \<longleftrightarrow> valid_utf8 x"
  using valid_utf8_cut [of c x "[]"] by simp

lemma name_char_ascii: "name_char c \<Longrightarrow> byte c < 128"
  by (auto simp: name_char_def ascii_defs byte_def)

lemma brace_name_valid:
  "brace_name s = Some (n, r) \<Longrightarrow> valid_utf8 (x @ s) \<Longrightarrow> valid_utf8 (x @ n) \<and> valid_utf8 r"
proof (induction s arbitrary: n r x rule: brace_name.induct)
  case (2 c cs)
  show ?case
  proof (cases "c = CHR ''}''")
    case False
    then obtain m where "brace_name cs = Some (m, r)" "n = c # m" using 2(3) by auto
    then show ?thesis using 2(2) [OF False, of m r "x @ [c]"] 2(4) by simp
  next
    case True
    have cut: "valid_utf8 x" "valid_utf8 cs"
      using 2(4) valid_utf8_cut [of c x cs] True by (simp_all add: byte_def)
    show ?thesis
    proof (cases "\<exists>ds. cs = CHR ''}'' # ds")
      case False
      then show ?thesis using 2(3) True cut by (auto split: list.splits)
    next
      case True
      then obtain ds where ds: "cs = CHR ''}'' # ds" ..
      then obtain m where m: "brace_name ds = Some (m, r)" "n = CHR ''}'' # m"
        using 2(3) \<open>c = _\<close> by auto
      have "valid_utf8 ((x @ ''}'') @ ds)"
        using cut ds valid_utf8_cut [of "CHR ''}''" x ds] by (simp add: byte_def valid_utf8_ascii_Cons)
      then show ?thesis using 2(1) [OF \<open>c = _\<close> ds refl, of m r "x @ ''}''"] m by simp
    qed
  qed
qed simp

lemma parse_loop_valid:
  assumes "parse_loop pos s lit segs = Ok (lit', segs')" "valid_utf8 (lit @ s)"
    "\<forall>g \<in> set segs. valid_utf8 (seg_text g)"
  shows "valid_utf8 lit' \<and> (\<forall>g \<in> set segs'. valid_utf8 (seg_text g))"
  using assms
proof (induction pos s lit segs rule: parse_loop.induct)
  case (2 pos ch cs lit segs)
  show ?case
  proof (cases "ch = CHR ''$''")
    case False
    then show ?thesis using 2(1) [OF False] 2(5-7) by simp
  next
    case True
    have cut: "valid_utf8 lit" "valid_utf8 cs"
      using 2(6) valid_utf8_cut [of ch lit cs] True by (simp_all add: byte_def)
    have pushed: "\<forall>g \<in> set (push_column segs lit n). valid_utf8 (seg_text g)" if "valid_utf8 n" for n
      using 2(7) cut(1) that by (auto simp: push_column_def)
    obtain c ds where cs: "cs = c # ds" using 2(5) True by (cases cs) auto
    consider (dollar) "c = CHR ''$''" | (name) "c \<noteq> CHR ''$''" "name_start c"
      | (braced) n r where "\<not> name_start c" "c = CHR ''{''" "brace_name ds = Some (n, r)" "n \<noteq> []"
      using 2(5) True cs by (auto split: if_splits option.splits)
    then show ?thesis
    proof cases
      case dollar
      have "valid_utf8 ((lit @ ''$'') @ ds)"
        using cut cs dollar valid_utf8_cut [of "CHR ''$''" lit ds]
        by (simp add: byte_def valid_utf8_ascii_Cons)
      then show ?thesis using 2(2,5,7) True cs dollar by auto
    next
      case name
      let ?n = "takeWhile name_char cs"
      have ascii: "\<forall>x \<in> set ?n. byte x < 128" by (auto dest: set_takeWhileD name_char_ascii)
      then have n: "valid_utf8 ?n" by (rule valid_utf8_ascii)
      have strip: "valid_utf8 v" if "valid_utf8 (u @ v)" "\<forall>x \<in> set u. byte x < 128" for u v
        using that by (induction u) (auto simp: valid_utf8_ascii_Cons)
      have "valid_utf8 (dropWhile name_char cs)"
        using strip [of ?n "dropWhile name_char cs"] cut(2) ascii by simp
      moreover have "parse_loop (pos + 1 + length ?n) (dropWhile name_char cs) [] (push_column segs lit ?n)
          = Ok (lit', segs')"
        using 2(5) True name by (simp add: cs Let_def)
      ultimately show ?thesis
        using 2(3) [OF _ cs name refl] True pushed [OF n] by simp
    next
      case braced
      have "valid_utf8 ds" using cut(2) cs braced(2) by (simp add: valid_utf8_ascii_Cons byte_def)
      then have "valid_utf8 n" "valid_utf8 r" using brace_name_valid [OF braced(3), of "[]"] by simp_all
      moreover have "parse_loop (pos + (2 + length ds - length r)) r [] (push_column segs lit n)
          = Ok (lit', segs')"
        using 2(5) True braced by (simp add: cs)
      ultimately show ?thesis
        using 2(4) [OF _ cs _ braced(1-3) refl braced(4)] True braced(2) pushed by simp
    qed
  qed
qed simp

lemma parse_format_valid:
  assumes "parse_format t = Ok segs" "valid_utf8 t" "g \<in> set segs"
  shows "valid_utf8 (seg_text g)"
proof -
  obtain lit out where p: "parse_loop 0 t [] [] = Ok (lit, out)"
    and segs: "segs = (if lit = [] then out else out @ [Literal lit])"
    using assms(1) by (auto simp: parse_format_def Let_def split: if_splits)
  show ?thesis
    using parse_loop_valid [OF p] assms(2,3) by (auto simp: segs split: if_splits)
qed

section \<open>The expressions as tokens\<close>

definition alias_ok :: "string \<Rightarrow> bool" where
  "alias_ok a \<longleftrightarrow> a = [] \<or> is_word a \<and> to_ascii_lowercase a = a"

definition alias_toks :: "string \<Rightarrow> tok list" where
  "alias_toks a = (if a = [] then [] else [Ident a, Punct ''.''])"

definition column_toks :: "string \<Rightarrow> string \<Rightarrow> tok list" where
  "column_toks a c =
     [Ident ''coalesce'', Punct ''(''] @ alias_toks a @
     [Ident c, Punct ''::'', Ident ''text'', Punct '','', Str [], Punct '')'']"

definition seg_toks :: "string \<Rightarrow> format_seg \<Rightarrow> tok list" where
  "seg_toks a seg = (case seg of Literal s \<Rightarrow> [Str s] | Column c \<Rightarrow> column_toks a c)"

definition anchored_toks :: "string \<Rightarrow> string \<Rightarrow> tok list \<Rightarrow> tok list" where
  "anchored_toks a src body =
     [Ident ''case'', Ident ''when''] @ alias_toks a @
     [Ident src, Ident ''is'', Ident ''not'', Ident ''null'', Ident ''then''] @ body @ [Ident ''end'']"

lemmas word_eval = char_of_def bit_0 is_word_def word_start_def word_char_def to_ascii_lowercase_def ascii_defs byte_def

lemma keyword_tight: "is_word w \<Longrightarrow> to_ascii_lowercase w = v \<Longrightarrow> tight ss (w @ '' '') [Ident v]"
  using lexes_tight_append [OF word_lexes tight_space, of w ss] by (simp add: delim_def)

lemma alias_tight: "alias_ok a \<Longrightarrow> tight ss (alias_prefix a) (alias_toks a)"
proof (cases "a = []")
  case False
  assume "alias_ok a"
  with False have "is_word a" "to_ascii_lowercase a = a" by (auto simp: alias_ok_def)
  then show ?thesis
    using False lexes_tight_append [OF word_lexes [of a ss] tight_punct [of "CHR ''.''" ss]]
    by (simp add: alias_prefix_def alias_toks_def delim_def)
qed (simp add: alias_prefix_def alias_toks_def)

lemma column_text_lexes:
  assumes "alias_ok a" "valid_utf8 c"
  shows "lexes ss (column_text (alias_prefix a) c) (column_toks a c)"
proof -
  have head: "tight ss ''COALESCE('' [Ident ''coalesce'', Punct ''('']"
    using lexes_tight_append [OF word_lexes [of "''COALESCE''" ss] tight_punct [of "CHR ''(''" ss]]
    by (simp add: word_eval delim_def)
  have "lexes ss ''::text'' [Punct ''::'', Ident ''text'']"
    using tight_lexes_append [OF tight_colons word_lexes [of "''text''"], of ss] by (simp add: word_eval)
  moreover have "tight ss '', '' [Punct '','']"
    using tight_append [OF tight_punct [of "CHR '',''"] tight_space, of ss] by simp
  ultimately have "tight ss ''::text, '' [Punct ''::'', Ident ''text'', Punct '','']"
    using lexes_tight_append [of ss "''::text''" _ "'', ''"] by (fastforce simp: delim_def)
  moreover have "lexes ss [apos, apos] [Str []]"
    using standard_literal.quote_lexes [of "[]"] legacy_literal.quote_lexes [of "[]"]
    by (cases ss) (simp_all add: quote_literal_def)
  then have "tight ss ([apos, apos] @ '')'') ([Str []] @ [Punct '')''])"
    by (rule lexes_tight_append) (simp_all add: tight_punct delim_def)
  ultimately have tail: "tight ss (''::text, '' @ [apos, apos] @ '')'')
      ([Punct ''::'', Ident ''text'', Punct '',''] @ [Str []] @ [Punct '')''])"
    by (rule tight_append)
  have "tight ss (quote_ident c @ ''::text, '' @ [apos, apos] @ '')'')
      ([Ident c] @ [Punct ''::'', Ident ''text'', Punct '',''] @ [Str []] @ [Punct '')''])"
    using lexes_tight_append [OF ident_lexes [OF assms(2)] tail] by (simp add: delim_def)
  from tight_lexes [OF tight_append [OF head tight_append [OF alias_tight [OF assms(1)] this]]]
  show ?thesis by (simp add: column_text_def column_toks_def)
qed

lemma tight_digit:
  assumes "is_ascii_digit d"
  shows "tight ss [d] [Punct [d]]"
proof -
  have "next_tok ss d rest = Ok (Some (Punct [d]), rest)" for rest
  proof -
    have "\<not> is_ascii_whitespace d" "\<not> word_start d" "d \<noteq> CHR ''-''" "d \<noteq> CHR ''/''" "d \<noteq> apos"
      "d \<noteq> CHR ''E''" "d \<noteq> CHR ''e''" "d \<noteq> dquote" "d \<noteq> CHR ''$''" "d \<noteq> CHR '':''" "d \<noteq> CHR ''=''"
      using assms by (auto simp: ascii_defs byte_def word_start_def)
    then show ?thesis by (simp add: next_tok_def starts_with_def Let_def)
  qed
  then show ?thesis
    using emits_step [of ss d "[]" _ "Some (Punct [d])" "[]" "[]"] by (simp add: tight_def emits_def)
qed

lemma tight_number: "\<forall>d \<in> set ds. is_ascii_digit d \<Longrightarrow> tight ss ds (map (\<lambda>d. Punct [d]) ds)"
proof (induction ds)
  case (Cons d ds)
  then show ?case using tight_append [OF tight_digit [of d] Cons(1)] by simp
qed simp

definition column_len_toks :: "string \<Rightarrow> string \<Rightarrow> tok list" where
  "column_len_toks a c =
     [Ident ''coalesce'', Punct ''('', Ident ''octet_length'', Punct ''(''] @ alias_toks a @
     [Ident c, Punct ''::'', Ident ''text'', Punct '')'', Punct ''::'', Ident ''bigint'', Punct '','',
      Punct ''0'', Punct '')'']"

lemma column_len_lexes:
  assumes "alias_ok a" "valid_utf8 c"
  shows "lexes ss (column_len (alias_prefix a) c) (column_len_toks a c)"
proof -
  have head: "tight ss ''COALESCE(octet_length('' [Ident ''coalesce'', Punct ''('', Ident ''octet_length'', Punct ''('']"
  proof -
    have "tight ss ''COALESCE('' [Ident ''coalesce'', Punct ''('']"
      "tight ss ''octet_length('' [Ident ''octet_length'', Punct ''('']"
      using lexes_tight_append [OF word_lexes [of "''COALESCE''" ss] tight_punct [of "CHR ''(''" ss]]
        lexes_tight_append [OF word_lexes [of "''octet_length''" ss] tight_punct [of "CHR ''(''" ss]]
      by (simp_all add: word_eval delim_def)
    from tight_append [OF this] show ?thesis by simp
  qed
  have "lexes ss ''::text'' [Punct ''::'', Ident ''text'']" "lexes ss ''::bigint'' [Punct ''::'', Ident ''bigint'']"
    using tight_lexes_append [OF tight_colons word_lexes [of "''text''"], of ss]
      tight_lexes_append [OF tight_colons word_lexes [of "''bigint''"], of ss]
    by (simp_all add: word_eval)
  then have parts: "tight ss ''::text)'' [Punct ''::'', Ident ''text'', Punct '')'']"
    "tight ss ''::bigint,'' [Punct ''::'', Ident ''bigint'', Punct '','']"
    using lexes_tight_append [of ss "''::text''" _ "'')''"] lexes_tight_append [of ss "''::bigint''" _ "'',''"]
      tight_punct [of _ ss] by (fastforce simp: delim_def)+
  have zero: "tight ss ''0'' [Punct ''0'']"
    by (rule tight_digit) (simp add: ascii_defs byte_def)
  have tail: "tight ss (''::text)'' @ ''::bigint,'' @ '' '' @ ''0'' @ '')'')
      ([Punct ''::'', Ident ''text'', Punct '')''] @ [Punct ''::'', Ident ''bigint'', Punct '','']
        @ [] @ [Punct ''0''] @ [Punct '')''])"
    by (rule tight_append parts tight_space zero | (rule tight_punct, simp))+
  have "tight ss (quote_ident c @ ''::text)'' @ ''::bigint,'' @ '' '' @ ''0'' @ '')'')
      ([Ident c] @ [Punct ''::'', Ident ''text'', Punct '')''] @ [Punct ''::'', Ident ''bigint'', Punct '','']
        @ [] @ [Punct ''0''] @ [Punct '')''])"
    using lexes_tight_append [OF ident_lexes [OF assms(2)] tail] by (simp add: delim_def)
  from tight_lexes [OF tight_append [OF head tight_append [OF alias_tight [OF assms(1)] this]]]
  show ?thesis by (simp add: column_len_def column_len_toks_def)
qed

lemma anchored_lexes:
  assumes "alias_ok a" "valid_utf8 src" "tight ss (body @ '' '') ts"
  shows "lexes ss (anchored (alias_prefix a @ quote_ident src) body) (anchored_toks a src ts)"
proof -
  have head: "tight ss (''CASE '' @ ''WHEN '' @ alias_prefix a) ([Ident ''case''] @ [Ident ''when''] @ alias_toks a)"
    using keyword_tight [of "''CASE''" "''case''" ss] keyword_tight [of "''WHEN''" "''when''" ss]
    by (intro tight_append alias_tight assms(1)) (simp_all add: word_eval)
  have "tight ss ('' '' @ ''IS '' @ ''NOT '' @ ''NULL '' @ ''THEN '' @ body @ '' '')
      ([] @ [Ident ''is''] @ [Ident ''not''] @ [Ident ''null''] @ [Ident ''then''] @ ts)"
    using keyword_tight [of "''IS''" "''is''" ss] keyword_tight [of "''NOT''" "''not''" ss]
      keyword_tight [of "''NULL''" "''null''" ss] keyword_tight [of "''THEN''" "''then''" ss]
    by (intro tight_append tight_space assms(3)) (simp_all add: word_eval)
  from lexes_tight_append [OF ident_lexes [OF assms(2)] this]
  have mid: "tight ss (quote_ident src @ '' '' @ ''IS '' @ ''NOT '' @ ''NULL '' @ ''THEN '' @ body @ '' '')
      ([Ident src] @ [] @ [Ident ''is''] @ [Ident ''not''] @ [Ident ''null''] @ [Ident ''then''] @ ts)"
    by (simp add: delim_def)
  have "lexes ss ''END'' [Ident ''end'']"
    using word_lexes [of "''END''" ss] by (simp add: word_eval)
  from tight_lexes_append [OF tight_append [OF head mid] this]
  show ?thesis by (simp add: anchored_def anchored_toks_def)
qed

lemma join_tight:
  assumes "\<And>g. g \<in> set gs \<Longrightarrow> lexes ss (f g) (h g)"
  shows "tight ss (join '' || '' (map f gs) @ '' '') (join [Punct ''|'', Punct ''|''] (map h gs))"
proof -
  have bars: "tight ss ('' '' @ ''|'' @ ''|'' @ '' '') ([] @ [Punct ''|''] @ [Punct ''|''] @ [])"
    by (intro tight_append tight_space tight_punct) simp_all
  show ?thesis
    using assms
  proof (induction gs rule: induct_list012)
    case (2 g)
    then show ?case using lexes_tight_append [OF _ tight_space, of ss "f g"] by (simp add: delim_def)
  next
    case (3 g g' gs)
    then have "tight ss (join '' || '' (map f (g' # gs)) @ '' '') (join [Punct ''|'', Punct ''|''] (map h (g' # gs)))"
      by simp
    from tight_append [OF bars this]
    have "tight ss ('' || '' @ join '' || '' (map f (g' # gs)) @ '' '')
        ([Punct ''|'', Punct ''|''] @ join [Punct ''|'', Punct ''|''] (map h (g' # gs)))" by simp
    then show ?case
      using lexes_tight_append [of ss "f g" "h g"] 3(3) [of g] by (simp add: delim_def)
  qed (simp add: tight_space)
qed

lemma seg_lexes:
  assumes "alias_ok a" "valid_utf8 (seg_text g)"
  shows "lexes ss (case g of Literal s \<Rightarrow> quote_literal_estring s | Column c \<Rightarrow> column_text (alias_prefix a) c)
    (seg_toks a g)"
  using assms estring_lexes column_text_lexes by (cases g) (simp_all add: seg_toks_def)

text \<open>
  C25. The render expression is what it says, token for token, under either string setting. For a
  stored template that parses, \<open>format_expr\<close> never panics, and the lexer reads its SQL as the
  \<open>CASE WHEN source IS NOT NULL THEN ... END\<close> frame around one token per template literal (its
  exact text) and one \<open>COALESCE(column::text, '')\<close> per reference (the exact name), joined by
  \<open>||\<close>: no byte of the template, of a column name or of the source column escapes its token.
\<close>
theorem format_expr_tokens:
  assumes "re_format e = Some t" "parse_format t = Ok segs"
    and "valid_utf8 t" "valid_utf8 (re_source_column e)" "alias_ok a"
  shows "\<exists>sql. format_expr e a = Some sql \<and>
    lex_toks ss sql = Ok (anchored_toks a (re_source_column e)
      (join [Punct ''|'', Punct ''|''] (map (seg_toks a) segs)))"
proof -
  let ?body = "join '' || '' (map (\<lambda>seg. case seg of Literal s \<Rightarrow> quote_literal_estring s
      | Column c \<Rightarrow> column_text (alias_prefix a) c) segs)"
  have "tight ss (?body @ '' '') (join [Punct ''|'', Punct ''|''] (map (seg_toks a) segs))"
    using assms by (intro join_tight seg_lexes parse_format_valid)
  then have "lexes ss (anchored (alias_prefix a @ quote_ident (re_source_column e)) ?body)
      (anchored_toks a (re_source_column e) (join [Punct ''|'', Punct ''|''] (map (seg_toks a) segs)))"
    using assms(4,5) anchored_lexes by blast
  then show ?thesis
    using assms(1,2) lexes_final by (simp add: format_expr_def Let_def)
qed

definition sample_entry :: registry_entry where
  "sample_entry = \<lparr>re_id = 1, re_table_schema = ''public'', re_table_name = ''docs'',
     re_source_column = ''body'', re_vector_column = ''v'', re_pk_columns = [''id''],
     re_pk_types = [''bigint''], re_model = ''m'', re_space = None, re_dim = 3,
     re_fts_config = ''english'', re_distance = ''cosine'', re_backfill_mode = ''none'',
     re_backfill_watermark = None, re_state = ''active'', re_trigger_mode = ''row'',
     re_owns_vector_column = True, re_format = Some ''$title: $body'', re_index_mode = ''manual'',
     re_index_error = None, re_chunking = ''none'', re_chunk_size = None, re_chunk_overlap = None,
     re_destination_schema = None, re_destination_table = None, re_destination_view = None,
     re_destination_token = None\<rparr>"

theorem format_expr_tokens_witness:
  "\<exists>sql. format_expr sample_entry ''s'' = Some sql \<and>
     lex_toks False sql = Ok (anchored_toks ''s'' ''body''
       (join [Punct ''|'', Punct ''|''] (map (seg_toks ''s'')
         [Column ''title'', Literal '': '', Column ''body''])))"
  using format_expr_tokens [of sample_entry "''$title: $body''"
      "[Column ''title'', Literal '': '', Column ''body'']" "''s''" False]
  by (simp add: sample_entry_def template_eval valid_utf8_ascii alias_ok_def word_eval)

lemma concat_terms_lexes:
  assumes "\<And>c. c \<in> set cs \<Longrightarrow> lexes ss (term c) (h c)"
  shows "tight ss (concat (map (\<lambda>c. '' + '' @ term c) cs) @ '' '') (concat (map (\<lambda>c. Punct ''+'' # h c) cs))"
  using assms
proof (induction cs)
  case (Cons c cs)
  have plus: "tight ss ('' '' @ ''+'' @ '' '') ([] @ [Punct ''+''] @ [])"
    by (intro tight_append tight_space tight_punct) simp
  let ?rest = "concat (map (\<lambda>c. '' + '' @ term c) cs) @ '' ''"
  have "delim ?rest" "?rest \<noteq> []" by (cases cs; simp add: delim_def)+
  then have "tight ss (term c @ ?rest) (h c @ concat (map (\<lambda>c. Punct ''+'' # h c) cs))"
    using Cons lexes_tight_append by simp
  from tight_append [OF plus this] show ?case by simp
qed (simp add: tight_space)

definition seg_columns :: "format_seg list \<Rightarrow> string list" where
  "seg_columns segs = concat (map (\<lambda>g. case g of Literal _ \<Rightarrow> [] | Column c \<Rightarrow> [c]) segs)"

lemma len_sum_columns:
  "len_sum segs term = dec (literal_bytes segs) @ ''::bigint'' @ concat (map (\<lambda>c. '' + '' @ term c) (seg_columns segs))"
proof -
  have "concat (map (\<lambda>seg. case seg of Literal s \<Rightarrow> [] | Column c \<Rightarrow> '' + '' @ term c) segs)
      = concat (map (\<lambda>c. '' + '' @ term c) (seg_columns segs))"
    by (induction segs) (auto simp: seg_columns_def split: format_seg.splits)
  then show ?thesis by (simp add: len_sum_def)
qed

text \<open>
  The length expression measures what the render expression renders. Its tokens are the same
  \<open>CASE\<close> frame around the total byte count of the template's literals (as decimal digits) plus one
  \<open>octet_length\<close> term per column reference, for exactly the references the render expression
  concatenates, in the same order.
\<close>
theorem format_len_expr_tokens:
  assumes "re_format e = Some t" "parse_format t = Ok segs"
    and "valid_utf8 t" "valid_utf8 (re_source_column e)" "alias_ok a"
  shows "\<exists>sql. format_len_expr e a = Some sql \<and>
    lex_toks ss sql = Ok (anchored_toks a (re_source_column e)
      (map (\<lambda>d. Punct [d]) (dec (sum_list (map (\<lambda>g. case g of Literal s \<Rightarrow> length s | Column _ \<Rightarrow> 0) segs)))
       @ [Punct ''::'', Ident ''bigint'']
       @ concat (map (\<lambda>c. Punct ''+'' # column_len_toks a c) (seg_columns segs))))"
proof -
  have valid: "lexes ss (column_len (alias_prefix a) c) (column_len_toks a c)" if "c \<in> set (seg_columns segs)" for c
  proof -
    have "Column c \<in> set segs" using that by (auto simp: seg_columns_def split: format_seg.splits)
    then show ?thesis using parse_format_valid assms column_len_lexes by fastforce
  qed
  have num: "tight ss (dec n) (map (\<lambda>d. Punct [d]) (dec n))" for n
    by (rule tight_number) (auto dest: dec_digits)
  have big: "lexes ss ''::bigint'' [Punct ''::'', Ident ''bigint'']"
    using tight_lexes_append [OF tight_colons word_lexes [of "''bigint''"], of ss] by (simp add: word_eval)
  let ?rest = "concat (map (\<lambda>c. '' + '' @ column_len (alias_prefix a) c) (seg_columns segs)) @ '' ''"
  have terms: "tight ss ?rest (concat (map (\<lambda>c. Punct ''+'' # column_len_toks a c) (seg_columns segs)))"
    using valid by (rule concat_terms_lexes)
  have "delim ?rest" "?rest \<noteq> []" by (cases "seg_columns segs"; simp add: delim_def)+
  then have "tight ss (''::bigint'' @ ?rest)
      ([Punct ''::'', Ident ''bigint''] @ concat (map (\<lambda>c. Punct ''+'' # column_len_toks a c) (seg_columns segs)))"
    using lexes_tight_append [OF big terms] by blast
  from tight_append [OF num this] anchored_lexes [OF assms(5,4)]
  have "lexes ss (anchored (alias_prefix a @ quote_ident (re_source_column e)) (len_sum segs (column_len (alias_prefix a))))
      (anchored_toks a (re_source_column e) (map (\<lambda>d. Punct [d]) (dec (literal_bytes segs))
       @ [Punct ''::'', Ident ''bigint'']
       @ concat (map (\<lambda>c. Punct ''+'' # column_len_toks a c) (seg_columns segs))))"
    by (simp add: len_sum_columns)
  then show ?thesis
    using assms(1,2) lexes_final by (simp add: format_len_expr_def literal_bytes_def Let_def)
qed

theorem format_len_expr_tokens_witness:
  "\<exists>sql. format_len_expr sample_entry ''s'' = Some sql \<and>
     lex_toks True sql = Ok (anchored_toks ''s'' ''body''
       (map (\<lambda>d. Punct [d]) (dec 2) @ [Punct ''::'', Ident ''bigint'']
        @ concat (map (\<lambda>c. Punct ''+'' # column_len_toks ''s'' c) [''title'', ''body''])))"
  using format_len_expr_tokens [of sample_entry "''$title: $body''"
      "[Column ''title'', Literal '': '', Column ''body'']" "''s''" True]
  by (simp add: sample_entry_def template_eval valid_utf8_ascii alias_ok_def word_eval seg_columns_def
                numeral_2_eq_2)

end
