(* ===== verification/IndexSchema.thy ===== *)
theory IndexSchema
  imports Text "HOL-Library.List_Lexorder" "HOL-Library.Char_ord"
begin

text \<open>
  \<open>registry/schema/src/lib.rs\<close> and \<open>identity.rs\<close>: the registry index, the rules of its names,
  licences and versions, the full validator (one rule per branch, in the order of the code, with
  Kahn's algorithm at its end), and the identity a model name keeps across revisions.

  The JSON decoder is a parameter of \<open>parse_and_validate_with\<close>. A \<open>BTreeMap\<close> is a map where only
  lookups matter and a list sorted by key where its iteration order does.
\<close>

section \<open>Data\<close>

definition SCHEMA_VERSION :: nat where "SCHEMA_VERSION = 1"
definition MAX_INDEX_BYTES :: nat where "MAX_INDEX_BYTES = 8 * 1024 * 1024"
definition MAX_MODELS :: nat where "MAX_MODELS = 4096"
definition MAX_NAME_BYTES :: nat where "MAX_NAME_BYTES = 128"
definition MAX_LIST_ITEMS :: nat where "MAX_LIST_ITEMS = 64"
definition MAX_SOURCES :: nat where "MAX_SOURCES = 8"
definition MAX_ARCHIVE_BYTES :: nat where "MAX_ARCHIVE_BYTES = 8 ^ 11 - 1"
definition MAX_ENTITLEMENT_ID_BYTES :: nat where "MAX_ENTITLEMENT_ID_BYTES = 64"
definition MAX_LICENSE_ID_BYTES :: nat where "MAX_LICENSE_ID_BYTES = 128"
definition MAX_LICENSE_VERSION_BYTES :: nat where "MAX_LICENSE_VERSION_BYTES = 64"
definition MAX_LICENSE_URL_BYTES :: nat where "MAX_LICENSE_URL_BYTES = 512"
definition MAX_EXPIRES_AT_BYTES :: nat where "MAX_EXPIRES_AT_BYTES = 64"
definition MAX_REVISION :: nat where "MAX_REVISION = 1000000"

definition KNOWN_MODEL_TYPES :: "string list" where
  "KNOWN_MODEL_TYPES = [''embed'', ''convert'', ''embed-bridge'', ''convert-bridge'']"

definition KNOWN_ENTITLEMENTS :: "string list" where
  "KNOWN_ENTITLEMENTS = [''postvec-catalog'']"

definition KNOWN_LICENSE_ACCEPTANCE :: "string list" where
  "KNOWN_LICENSE_ACCEPTANCE = [''none'', ''notice'', ''organization'']"

record archive_info =
  ar_digest :: string
  ar_size :: nat
  ar_installed_size :: nat
  ar_sources :: "string list"

record index_model =
  im_name :: string
  im_access :: string
  im_model_type :: string
  im_backend :: string
  im_quantization :: "string option"
  im_source_model :: "string option"
  im_target_model :: "string option"
  im_source_dim :: "nat option"
  im_target_dim :: "nat option"
  im_sequence_len :: "nat option"
  im_license :: "string option"
  im_license_version :: "string option"
  im_license_url :: "string option"
  im_license_acceptance :: "string option"
  im_source :: "string option"
  im_dependencies :: "string list"
  im_postvec_requires :: "string list"
  im_min_postvec_version :: "string option"
  im_published_at :: "string option"
  im_summary :: "string option"
  im_eval :: "string option"
  im_withdrawn :: bool
  im_revision :: "nat option"
  im_required_entitlements :: "string list"
  im_archive :: archive_info

record viewer_entitlement =
  ve_id :: string
  ve_source :: string
  ve_expires_at :: "string option"

record viewer =
  vi_entitlements :: "viewer_entitlement list"

record index =
  ix_schema_version :: nat
  ix_channel :: string
  ix_authenticated :: bool
  ix_generated_at :: "string option"
  ix_models :: "index_model list"
  ix_viewer :: "viewer option"

text \<open>The reasons behind \<open>SchemaError::Invalid\<close>; the model's name comes first where it is printed.\<close>

datatype token_error = TokenEmpty | TokenTooLong | TokenBadStart | TokenBadByte char

datatype url_error = UrlTooLong | UrlBadByte char | UrlNotHttps | UrlCredentials | UrlNoHost

datatype invalid =
    TooManyModels nat
  | PublicClaimsAuthenticated
  | PrivateNotAuthenticated
  | UnknownChannel string
  | BadModelName token_error
  | DuplicateModel string
  | UnknownAccess string string
  | PrivateEntryInPublicChannel string
  | BadBackend string token_error
  | UnknownModelType string string
  | ZeroDim string string
  | RevisionOutOfRange string nat
  | BadMinimumVersion string string
  | BadLicenseId string token_error
  | UnknownAcceptance string string
  | TermsWithoutLicense string
  | BadLicenseVersion string token_error
  | BadLicenseUrl string url_error
  | AcceptanceNeedsDocument string string
  | VersionXorUrl string
  | OrganizationOnPublic string
  | TermsDisagree string string
  | DependencyListTooLong string
  | DuplicateRequirement string string
  | TooManyEntitlements string
  | BadEntitlementId string token_error
  | UnknownEntitlement string string
  | EntitlementsUnsorted string
  | EntitlementsOnPublic string
  | BadDigest string
  | ImplausibleSize string nat
  | ImplausibleInstalledSize string nat
  | BadSourceCount string
  | MissingRequirement string string
  | PublicRequiresPrivate string string
  | EntitlementNotSubset string string string
  | ViewerOnAnonymous
  | TooManyViewerEntitlements
  | BadViewerEntitlement token_error
  | ViewerUnsorted
  | UnknownViewerSource string string
  | ImplausibleExpiry string
  | DependencyCycle
  | InDegreeUnderflow

datatype schema_error = TooLarge nat | Json string | SchemaVersionError nat | Invalid invalid

datatype entitlement_id_policy = Strict | AcceptUnknown

section \<open>Rules of names, licences and versions\<close>

definition is_hex_lower :: "char \<Rightarrow> bool" where
  "is_hex_lower b \<longleftrightarrow> is_ascii_digit b \<or> 97 \<le> byte b \<and> byte b \<le> 102"

definition parse_sha256_digest :: "string \<Rightarrow> string option" where
  "parse_sha256_digest digest =
     (case strip_prefix ''sha256:'' digest of
        None \<Rightarrow> None
      | Some hex \<Rightarrow> if length hex = 64 \<and> list_all is_hex_lower hex then Some hex else None)"

definition digest_hex :: "archive_info \<Rightarrow> string option" where
  "digest_hex a = parse_sha256_digest (ar_digest a)"

definition valid_token :: "nat \<Rightarrow> (char \<Rightarrow> bool) \<Rightarrow> string \<Rightarrow> token_error + unit" where
  "valid_token max_bytes allowed s =
     (if s = [] then Err TokenEmpty
      else if length s > max_bytes then Err TokenTooLong
      else if \<not> is_ascii_lowercase (hd s) \<and> \<not> is_ascii_digit (hd s) then Err TokenBadStart
      else case find (\<lambda>b. \<not> allowed b) s of
             Some bad \<Rightarrow> Err (TokenBadByte bad)
           | None \<Rightarrow> Ok ())"

definition name_byte :: "char \<Rightarrow> bool" where
  "name_byte b \<longleftrightarrow> is_ascii_lowercase b \<or> is_ascii_digit b \<or> b \<in> set ''._-''"

definition valid_model_name :: "string \<Rightarrow> token_error + unit" where
  "valid_model_name s = valid_token MAX_NAME_BYTES name_byte s"

definition valid_entitlement_id :: "string \<Rightarrow> token_error + unit" where
  "valid_entitlement_id s =
     valid_token MAX_ENTITLEMENT_ID_BYTES
       (\<lambda>b. is_ascii_lowercase b \<or> is_ascii_digit b \<or> b = CHR ''-'') s"

definition valid_license_id :: "string \<Rightarrow> token_error + unit" where
  "valid_license_id s = valid_token MAX_LICENSE_ID_BYTES name_byte s"

definition valid_license_version :: "string \<Rightarrow> token_error + unit" where
  "valid_license_version s =
     (if s = [] then Err TokenEmpty
      else if length s > MAX_LICENSE_VERSION_BYTES then Err TokenTooLong
      else case find (\<lambda>b. \<not> is_ascii_graphic b \<or> b = CHR ''@'') s of
             Some bad \<Rightarrow> Err (TokenBadByte bad)
           | None \<Rightarrow> Ok ())"

definition valid_license_url :: "string \<Rightarrow> url_error + unit" where
  "valid_license_url url =
     (if length url > MAX_LICENSE_URL_BYTES then Err UrlTooLong
      else case find (\<lambda>b. \<not> is_ascii_graphic b) url of
        Some bad \<Rightarrow> Err (UrlBadByte bad)
      | None \<Rightarrow>
          (case strip_prefix ''https://'' url of
             None \<Rightarrow> Err UrlNotHttps
           | Some rest \<Rightarrow>
               (let authority = hd (split_on (\<lambda>c. c \<in> set ''/?#'') rest) in
                if CHR ''@'' \<in> set authority then Err UrlCredentials
                else let host = hd (split_on (\<lambda>c. c = CHR '':'') authority) in
                     if host = [] then Err UrlNoHost else Ok ())))"

definition version_parses :: "string \<Rightarrow> bool" where
  "version_parses raw \<longleftrightarrow>
     (let core = hd (split_on (\<lambda>c. c = CHR ''-'' \<or> c = CHR ''+'') (trim raw));
          part = hd (split_on (\<lambda>c. c = CHR ''.'') core);
          major = takeWhile is_ascii_digit (dropWhile (\<lambda>c. \<not> is_ascii_digit c) part)
      in major \<noteq> [] \<and> number 10 major < 2 ^ 64)"

definition is_public :: "index_model \<Rightarrow> bool" where
  "is_public m \<longleftrightarrow> im_access m = ''public''"

definition revision :: "index_model \<Rightarrow> nat" where
  "revision m = (case im_revision m of None \<Rightarrow> 1 | Some r \<Rightarrow> r)"

definition license_acceptance :: "index_model \<Rightarrow> string" where
  "license_acceptance m = (case im_license_acceptance m of None \<Rightarrow> ''none'' | Some a \<Rightarrow> a)"

definition model_of :: "index \<Rightarrow> string \<Rightarrow> index_model option" where
  "model_of ix name = find (\<lambda>m. im_name m = name) (ix_models ix)"

text \<open>\<open>model.dependencies.iter().chain(&model.postvec_requires)\<close>.\<close>

definition reqs :: "index_model \<Rightarrow> string list" where
  "reqs m = im_dependencies m @ im_postvec_requires m"

section \<open>The validator\<close>

definition check :: "bool \<Rightarrow> 'e \<Rightarrow> 'e + unit" where
  "check bad e = (if bad then Err e else Ok ())"

definition check_dims :: "index_model \<Rightarrow> invalid + unit" where
  "check_dims m =
     try_each (\<lambda>(label, dim). check (dim = Some 0) (ZeroDim (im_name m) label))
       [(''source_dim'', im_source_dim m), (''target_dim'', im_target_dim m),
        (''sequence_len'', im_sequence_len m)]"

definition check_version_url :: "index_model \<Rightarrow> invalid + unit" where
  "check_version_url m =
     (case (im_license_version m, im_license_url m) of
        (Some version, Some url) \<Rightarrow>
          and_then (map_err (BadLicenseVersion (im_name m)) (valid_license_version version)) (\<lambda>_.
          map_err (BadLicenseUrl (im_name m)) (valid_license_url url))
      | (None, None) \<Rightarrow>
          check (license_acceptance m \<noteq> ''none'')
            (AcceptanceNeedsDocument (im_name m) (license_acceptance m))
      | _ \<Rightarrow> Err (VersionXorUrl (im_name m)))"

type_synonym terms_documents = "(string \<times> string option) \<rightharpoonup> (string option \<times> string)"

definition check_terms :: "index_model \<Rightarrow> terms_documents \<Rightarrow> invalid + terms_documents" where
  "check_terms m terms =
     (case im_license m of
        None \<Rightarrow> Ok terms
      | Some license \<Rightarrow>
          (let key = (license, im_license_version m);
               val = (im_license_url m, license_acceptance m) in
           case terms key of
             None \<Rightarrow> Ok (terms(key \<mapsto> val))
           | Some existing \<Rightarrow>
               if existing = val then Ok terms else Err (TermsDisagree (im_name m) license)))"

fun check_requirements :: "string \<Rightarrow> string list \<Rightarrow> string list \<Rightarrow> invalid + unit" where
  "check_requirements name seen [] = Ok ()"
| "check_requirements name seen (d # ds) =
     (if d \<in> set seen then Err (DuplicateRequirement name d)
      else check_requirements name (d # seen) ds)"

fun check_entitlements ::
  "string \<Rightarrow> entitlement_id_policy \<Rightarrow> string option \<Rightarrow> string list \<Rightarrow> invalid + unit" where
  "check_entitlements name policy prev [] = Ok ()"
| "check_entitlements name policy prev (x # xs) =
     and_then (map_err (BadEntitlementId name) (valid_entitlement_id x)) (\<lambda>_.
       if policy = Strict \<and> x \<notin> set KNOWN_ENTITLEMENTS then Err (UnknownEntitlement name x)
       else if (case prev of None \<Rightarrow> False | Some p \<Rightarrow> p \<ge> x) then Err (EntitlementsUnsorted name)
       else check_entitlements name policy (Some x) xs)"

definition check_archive :: "index_model \<Rightarrow> invalid + unit" where
  "check_archive m =
     (let a = im_archive m; name = im_name m in
      and_then (check (digest_hex a = None) (BadDigest name)) (\<lambda>_.
      and_then (check (ar_size a = 0 \<or> ar_size a > MAX_ARCHIVE_BYTES) (ImplausibleSize name (ar_size a))) (\<lambda>_.
      and_then (check (ar_installed_size a > MAX_ARCHIVE_BYTES)
                  (ImplausibleInstalledSize name (ar_installed_size a))) (\<lambda>_.
      check (ar_sources a = [] \<or> length (ar_sources a) > MAX_SOURCES) (BadSourceCount name)))))"

text \<open>One round of the per-model loop, on the maps \<open>by_name\<close> and \<open>terms_documents\<close>.\<close>

definition validate_model ::
  "index \<Rightarrow> entitlement_id_policy \<Rightarrow> index_model \<Rightarrow> (string \<rightharpoonup> index_model) \<times> terms_documents
   \<Rightarrow> invalid + (string \<rightharpoonup> index_model) \<times> terms_documents" where
  "validate_model ix policy m = (\<lambda>(by_name, terms).
     let name = im_name m; acceptance = license_acceptance m in
     and_then (map_err BadModelName (valid_model_name name)) (\<lambda>_.
     and_then (check (by_name name \<noteq> None) (DuplicateModel name)) (\<lambda>_.
     and_then (check (im_access m \<notin> {''public'', ''private''}) (UnknownAccess name (im_access m))) (\<lambda>_.
     and_then (check (ix_channel ix = ''public'' \<and> im_access m \<noteq> ''public'')
                 (PrivateEntryInPublicChannel name)) (\<lambda>_.
     and_then (map_err (BadBackend name) (valid_model_name (im_backend m))) (\<lambda>_.
     and_then (check (im_model_type m \<notin> set KNOWN_MODEL_TYPES)
                 (UnknownModelType name (im_model_type m))) (\<lambda>_.
     and_then (check_dims m) (\<lambda>_.
     and_then (case im_revision m of
                 None \<Rightarrow> Ok ()
               | Some r \<Rightarrow> check (r = 0 \<or> r > MAX_REVISION) (RevisionOutOfRange name r)) (\<lambda>_.
     and_then (case im_min_postvec_version m of
                 None \<Rightarrow> Ok ()
               | Some v \<Rightarrow> check (\<not> version_parses v) (BadMinimumVersion name v)) (\<lambda>_.
     and_then (case im_license m of
                 None \<Rightarrow> Ok ()
               | Some l \<Rightarrow> map_err (BadLicenseId name) (valid_license_id l)) (\<lambda>_.
     and_then (check (acceptance \<notin> set KNOWN_LICENSE_ACCEPTANCE)
                 (UnknownAcceptance name acceptance)) (\<lambda>_.
     and_then (check (im_license m = None \<and>
                      (im_license_version m \<noteq> None \<or> im_license_url m \<noteq> None \<or>
                       im_license_acceptance m \<noteq> None))
                 (TermsWithoutLicense name)) (\<lambda>_.
     and_then (check_version_url m) (\<lambda>_.
     and_then (check (is_public m \<and> acceptance = ''organization'') (OrganizationOnPublic name)) (\<lambda>_.
     and_then (check_terms m terms) (\<lambda>terms.
     and_then (check (length (im_dependencies m) > MAX_LIST_ITEMS \<or>
                      length (im_postvec_requires m) > MAX_LIST_ITEMS)
                 (DependencyListTooLong name)) (\<lambda>_.
     and_then (check_requirements name [] (reqs m)) (\<lambda>_.
     and_then (check (length (im_required_entitlements m) > MAX_LIST_ITEMS)
                 (TooManyEntitlements name)) (\<lambda>_.
     and_then (check_entitlements name policy None (im_required_entitlements m)) (\<lambda>_.
     and_then (check (is_public m \<and> im_required_entitlements m \<noteq> []) (EntitlementsOnPublic name)) (\<lambda>_.
     and_then (check_archive m) (\<lambda>_.
     Ok (by_name(name \<mapsto> m), terms)))))))))))))))))))))))"

definition check_channel :: "index \<Rightarrow> invalid + unit" where
  "check_channel ix =
     (if ix_channel ix = ''public'' then check (ix_authenticated ix) PublicClaimsAuthenticated
      else if ix_channel ix = ''private'' then check (\<not> ix_authenticated ix) PrivateNotAuthenticated
      else Err (UnknownChannel (ix_channel ix)))"

definition check_edge ::
  "(string \<rightharpoonup> index_model) \<Rightarrow> index_model \<Rightarrow> string \<Rightarrow> invalid + unit" where
  "check_edge by_name m d =
     (case by_name d of
        None \<Rightarrow> Err (MissingRequirement (im_name m) d)
      | Some target \<Rightarrow>
          and_then (check (is_public m \<and> \<not> is_public target) (PublicRequiresPrivate (im_name m) d)) (\<lambda>_.
          try_each (\<lambda>r. check (r \<notin> set (im_required_entitlements m))
                          (EntitlementNotSubset (im_name m) d r))
            (im_required_entitlements target)))"

fun check_viewer_entitlements :: "string option \<Rightarrow> viewer_entitlement list \<Rightarrow> invalid + unit" where
  "check_viewer_entitlements prev [] = Ok ()"
| "check_viewer_entitlements prev (v # vs) =
     and_then (map_err BadViewerEntitlement (valid_entitlement_id (ve_id v))) (\<lambda>_.
       if (case prev of None \<Rightarrow> False | Some p \<Rightarrow> p \<ge> ve_id v) then Err ViewerUnsorted
       else if ve_source v \<notin> {''default'', ''grant''} then Err (UnknownViewerSource (ve_id v) (ve_source v))
       else if (case ve_expires_at v of
                  None \<Rightarrow> False | Some x \<Rightarrow> x = [] \<or> length x > MAX_EXPIRES_AT_BYTES)
       then Err (ImplausibleExpiry (ve_id v))
       else check_viewer_entitlements (Some (ve_id v)) vs)"

definition check_viewer :: "index \<Rightarrow> invalid + unit" where
  "check_viewer ix =
     (case ix_viewer ix of
        None \<Rightarrow> Ok ()
      | Some v \<Rightarrow>
          and_then (check (\<not> ix_authenticated ix) ViewerOnAnonymous) (\<lambda>_.
          and_then (check (length (vi_entitlements v) > MAX_LIST_ITEMS) TooManyViewerEntitlements) (\<lambda>_.
          check_viewer_entitlements None (vi_entitlements v))))"

subsection \<open>Kahn's algorithm\<close>

text \<open>
  \<open>in_degree\<close> is the sorted association list of the \<open>BTreeMap\<close>; the queue is a stack whose last
  element is popped. \<open>*d -= 1\<close> at zero would underflow (a panic or a wrap): that is \<open>None\<close>.
\<close>

type_synonym degrees = "(string \<times> nat) list"

fun decrement :: "string \<Rightarrow> degrees \<Rightarrow> (nat \<times> degrees) option" where
  "decrement name [] = None"
| "decrement name ((n, d) # ds) =
     (if n = name then (if d = 0 then None else Some (d - 1, (n, d - 1) # ds))
      else map_option (\<lambda>(k, ds). (k, (n, d) # ds)) (decrement name ds))"

fun relax :: "index_model list \<Rightarrow> string \<Rightarrow> degrees \<Rightarrow> string list \<Rightarrow> (degrees \<times> string list) option" where
  "relax [] name ds queue = Some (ds, queue)"
| "relax (m # ms) name ds queue =
     (if name \<in> set (reqs m)
      then (case decrement (im_name m) ds of
              None \<Rightarrow> None
            | Some (k, ds) \<Rightarrow> relax ms name ds (if k = 0 then queue @ [im_name m] else queue))
      else relax ms name ds queue)"

definition degree_sum :: "degrees \<Rightarrow> nat" where
  "degree_sum ds = sum_list (map snd ds)"

lemma decrement_sum: "decrement name ds = Some (k, ds') \<Longrightarrow> degree_sum ds = Suc (degree_sum ds')"
  by (induction ds arbitrary: ds') (auto simp: degree_sum_def split: if_splits)

lemma relax_measure:
  "relax ms name ds queue = Some (ds', queue') \<Longrightarrow> degree_sum ds' + length queue' \<le> degree_sum ds + length queue"
  by (induction ms arbitrary: ds queue)
     (fastforce split: if_splits option.splits dest: decrement_sum)+

function kahn :: "index_model list \<Rightarrow> degrees \<Rightarrow> string list \<Rightarrow> nat \<Rightarrow> nat option" where
  "kahn ms ds queue visited =
     (if queue = [] then Some visited
      else case relax ms (last queue) ds (butlast queue) of
             None \<Rightarrow> None
           | Some (ds, queue) \<Rightarrow> kahn ms ds queue (visited + 1))"
  by pat_completeness auto
termination
proof (relation "measure (\<lambda>(ms, ds, queue, visited). degree_sum ds + length queue)")
  fix ms ds queue and visited :: nat and x ds' and queue' :: "string list"
  assume "queue \<noteq> []" "relax ms (last queue) ds (butlast queue) = Some x" "(ds', queue') = x"
  then have "degree_sum ds' + length queue' \<le> degree_sum ds + length (butlast queue)" "0 < length queue"
    using relax_measure by blast+
  then show "((ms, ds', queue', visited + 1), (ms, ds, queue, visited))
      \<in> measure (\<lambda>(ms, ds, queue, visited). degree_sum ds + length queue)"
    unfolding length_butlast in_measure prod.case by linarith
qed simp

declare kahn.simps [simp del]

definition in_degrees :: "index_model list \<Rightarrow> degrees" where
  "in_degrees ms =
     sort_key fst (map (\<lambda>m. (im_name m, length (im_dependencies m) + length (im_postvec_requires m))) ms)"

definition check_acyclic :: "index \<Rightarrow> invalid + unit" where
  "check_acyclic ix =
     (let ds = in_degrees (ix_models ix);
          queue = map fst (filter (\<lambda>(_, d). d = 0) ds) in
      case kahn (ix_models ix) ds queue 0 of
        None \<Rightarrow> Err InDegreeUnderflow
      | Some visited \<Rightarrow> check (visited \<noteq> length (ix_models ix)) DependencyCycle)"

definition validate_with :: "index \<Rightarrow> entitlement_id_policy \<Rightarrow> schema_error + unit" where
  "validate_with ix policy = map_err Invalid
     (and_then (check (length (ix_models ix) > MAX_MODELS) (TooManyModels (length (ix_models ix)))) (\<lambda>_.
      and_then (check_channel ix) (\<lambda>_.
      and_then (try_fold (validate_model ix policy) (ix_models ix) (Map.empty, Map.empty))
        (\<lambda>(by_name, _).
      and_then (try_each (\<lambda>m. try_each (check_edge by_name m) (reqs m)) (ix_models ix)) (\<lambda>_.
      and_then (check_viewer ix) (\<lambda>_.
      check_acyclic ix))))))"

definition validate :: "index \<Rightarrow> schema_error + unit" where
  "validate ix = validate_with ix Strict"

definition validate_gateway_base :: "index \<Rightarrow> schema_error + unit" where
  "validate_gateway_base ix = validate_with ix AcceptUnknown"

text \<open>\<open>probe\<close> and \<open>decode\<close> stand for the two uses of \<open>serde_json::from_slice\<close>.\<close>

definition parse_and_validate_with ::
  "(string \<Rightarrow> string + nat) \<Rightarrow> (string \<Rightarrow> string + index) \<Rightarrow> string \<Rightarrow> entitlement_id_policy
   \<Rightarrow> schema_error + index" where
  "parse_and_validate_with probe decode body policy =
     (if length body > MAX_INDEX_BYTES then Err (TooLarge (length body))
      else and_then (map_err Json (probe body)) (\<lambda>v.
        if v \<noteq> SCHEMA_VERSION then Err (SchemaVersionError v)
        else and_then (map_err Json (decode body)) (\<lambda>ix.
             and_then (validate_with ix policy) (\<lambda>_. Ok ix))))"

definition parse_and_validate ::
  "(string \<Rightarrow> string + nat) \<Rightarrow> (string \<Rightarrow> string + index) \<Rightarrow> string \<Rightarrow> schema_error + index" where
  "parse_and_validate probe decode body = parse_and_validate_with probe decode body Strict"

definition parse_and_validate_gateway_base ::
  "(string \<Rightarrow> string + nat) \<Rightarrow> (string \<Rightarrow> string + index) \<Rightarrow> string \<Rightarrow> schema_error + index" where
  "parse_and_validate_gateway_base probe decode body =
     parse_and_validate_with probe decode body AcceptUnknown"

section \<open>The identity behind a name\<close>

record identity =
  id_model_type :: string
  id_backend :: string
  id_source_model :: "string option"
  id_target_model :: "string option"
  id_source_dim :: "nat option"
  id_target_dim :: "nat option"

definition of_index :: "index_model \<Rightarrow> identity" where
  "of_index m = \<lparr>id_model_type = im_model_type m, id_backend = im_backend m,
     id_source_model = im_source_model m, id_target_model = im_target_model m,
     id_source_dim = im_source_dim m, id_target_dim = im_target_dim m\<rparr>"

datatype identity_error =
    ModelTypeChanges | BackendChanges
  | ModelFieldChanges string "string option" "string option"
  | DimFieldChanges string "nat option" "nat option"

definition check_identity_core :: "string \<Rightarrow> string \<Rightarrow> identity \<Rightarrow> identity_error + unit" where
  "check_identity_core installed_model_type installed_backend nxt =
     (if installed_model_type \<noteq> id_model_type nxt then Err ModelTypeChanges
      else if installed_backend \<noteq> id_backend nxt then Err BackendChanges
      else Ok ())"

definition check_identity :: "identity \<Rightarrow> identity \<Rightarrow> identity_error + unit" where
  "check_identity installed nxt =
     and_then (check_identity_core (id_model_type installed) (id_backend installed) nxt) (\<lambda>_.
     and_then (try_each (\<lambda>(label, before, after).
                 check (before \<noteq> after) (ModelFieldChanges label before after))
                [(''source_model'', id_source_model installed, id_source_model nxt),
                 (''target_model'', id_target_model installed, id_target_model nxt)]) (\<lambda>_.
     try_each (\<lambda>(label, before, after). check (before \<noteq> after) (DimFieldChanges label before after))
       [(''source_dim'', id_source_dim installed, id_source_dim nxt),
        (''target_dim'', id_target_dim installed, id_target_dim nxt)]))"

section \<open>Kahn's algorithm decides acyclicity\<close>

definition names :: "index_model list \<Rightarrow> string set" where
  "names ms = im_name ` set ms"

definition closed_graph :: "index_model list \<Rightarrow> bool" where
  "closed_graph ms \<longleftrightarrow>
     distinct (map im_name ms) \<and> (\<forall>m \<in> set ms. distinct (reqs m) \<and> set (reqs m) \<subseteq> names ms)"

text \<open>The requirement relation: \<open>(d, n)\<close> when the entry \<open>n\<close> requires \<open>d\<close>.\<close>

definition requires :: "index_model list \<Rightarrow> (string \<times> string) set" where
  "requires ms = {(d, im_name m) | m d. m \<in> set ms \<and> d \<in> set (reqs m)}"

fun topo :: "index_model list \<Rightarrow> string list \<Rightarrow> bool" where
  "topo ms popped \<longleftrightarrow>
     (\<forall>i < length popped. \<forall>m \<in> set ms. im_name m = popped ! i \<longrightarrow> set (reqs m) \<subseteq> set (take i popped))"

declare topo.simps [simp del]

definition kahn_inv :: "index_model list \<Rightarrow> string list \<Rightarrow> string list \<Rightarrow> degrees \<Rightarrow> bool" where
  "kahn_inv ms popped queue ds \<longleftrightarrow>
     distinct (popped @ queue) \<and> topo ms popped \<and>
     (\<forall>m \<in> set ms. map_of ds (im_name m) = Some (card (set (reqs m) - set popped))) \<and>
     set popped \<union> set queue = {im_name m | m. m \<in> set ms \<and> set (reqs m) \<subseteq> set popped}"

lemma decrement_map_of:
  "map_of ds n = Some (Suc d) \<Longrightarrow> \<exists>ds'. decrement n ds = Some (d, ds') \<and> map_of ds' = (map_of ds)(n \<mapsto> d)"
proof (induction ds)
  case (Cons x ds)
  then show ?case by (cases x) (auto simp: fun_eq_iff)
qed simp

lemma relax_spec:
  assumes "distinct (map im_name ms)"
    and "\<forall>m \<in> set ms. map_of ds (im_name m) = Some (f m) \<and> (name \<in> set (reqs m) \<longrightarrow> 0 < f m)"
  shows "\<exists>ds'. relax ms name ds queue =
           Some (ds', queue @ map im_name (filter (\<lambda>m. name \<in> set (reqs m) \<and> f m = 1) ms)) \<and>
         (\<forall>n. n \<notin> names ms \<longrightarrow> map_of ds' n = map_of ds n) \<and>
         (\<forall>m \<in> set ms. map_of ds' (im_name m) = Some (if name \<in> set (reqs m) then f m - 1 else f m))"
  using assms
proof (induction ms arbitrary: ds queue)
  case (Cons m ms)
  have d: "distinct (map im_name ms)" "im_name m \<notin> names ms" using Cons(2) by (auto simp: names_def)
  show ?case
  proof (cases "name \<in> set (reqs m)")
    case False
    have "\<forall>m \<in> set ms. map_of ds (im_name m) = Some (f m) \<and> (name \<in> set (reqs m) \<longrightarrow> 0 < f m)"
      using Cons(3) by simp
    from Cons(1) [OF d(1) this, of queue] False d(2) Cons(3) show ?thesis
      by (auto simp: names_def)
  next
    case True
    then obtain k where k: "f m = Suc k" "map_of ds (im_name m) = Some (Suc k)"
      using Cons(3) by (metis list.set_intros(1) not0_implies_Suc less_nat_zero_code)
    obtain ds1 where ds1: "decrement (im_name m) ds = Some (k, ds1)"
      "map_of ds1 = (map_of ds)(im_name m \<mapsto> k)"
      using decrement_map_of [OF k(2)] by blast
    have other: "im_name m' \<noteq> im_name m" if "m' \<in> set ms" for m'
      using d(2) that unfolding names_def by (metis imageI)
    then have "\<forall>m \<in> set ms. map_of ds1 (im_name m) = Some (f m) \<and> (name \<in> set (reqs m) \<longrightarrow> 0 < f m)"
      using Cons(3) by (simp add: ds1(2))
    from Cons(1) [OF d(1) this, of "if k = 0 then queue @ [im_name m] else queue"]
    show ?thesis using True d(2) k ds1 by (auto simp: names_def)
  qed
qed (simp add: names_def)

lemma card_insert_diff:
  "finite A \<Longrightarrow> card (A - insert x D) = (if x \<in> A \<and> x \<notin> D then card (A - D) - 1 else card (A - D))"
  by (metis Diff_iff Diff_insert Diff_insert0 card_Diff_singleton insert_absorb)

lemma singleton_by_card:
  "x \<notin> D \<Longrightarrow> x \<in> A \<and> card (A - D) = 1 \<longleftrightarrow> A - D = {x}"
  by (metis Diff_iff One_nat_def card_1_singletonE is_singletonI is_singleton_altdef singleton_iff)

lemma topo_snoc:
  assumes "topo ms popped" "\<forall>m \<in> set ms. im_name m = x \<longrightarrow> set (reqs m) \<subseteq> set popped"
  shows "topo ms (popped @ [x])"
  unfolding topo.simps
proof (intro allI impI ballI)
  fix i m
  assume i: "i < length (popped @ [x])" and m: "m \<in> set ms" "im_name m = (popped @ [x]) ! i"
  show "set (reqs m) \<subseteq> set (take i (popped @ [x]))"
  proof (cases "i < length popped")
    case True
    then show ?thesis using assms(1) m by (simp add: topo.simps nth_append)
  next
    case False
    then have "i = length popped" using i by simp
    then show ?thesis using assms(2) m by simp
  qed
qed

lemma kahn_step:
  assumes g: "closed_graph ms" and inv: "kahn_inv ms popped queue ds" and q: "queue \<noteq> []"
  shows "\<exists>ds' queue'. relax ms (last queue) ds (butlast queue) = Some (ds', queue') \<and>
           kahn_inv ms (popped @ [last queue]) queue' ds'"
proof -
  let ?x = "last queue" and ?p' = "popped @ [last queue]"
  let ?f = "\<lambda>m. card (set (reqs m) - set popped)"
  have dist: "distinct (map im_name ms)" using g by (simp add: closed_graph_def)
  have split: "queue = butlast queue @ [?x]" using q by simp
  have "distinct (popped @ butlast queue @ [?x])" using inv split by (simp add: kahn_inv_def)
  then have x: "?x \<notin> set popped" "?x \<notin> set (butlast queue)" "distinct (popped @ butlast queue)"
    by auto
  have ready: "set popped \<union> set queue = {im_name m | m. m \<in> set ms \<and> set (reqs m) \<subseteq> set popped}"
    using inv by (simp add: kahn_inv_def)
  have uniq: "m = m'" if "m \<in> set ms" "m' \<in> set ms" "im_name m = im_name m'" for m m'
    using that dist unfolding distinct_map by (meson inj_onD)
  have deg: "\<forall>m \<in> set ms. map_of ds (im_name m) = Some (?f m) \<and> (?x \<in> set (reqs m) \<longrightarrow> 0 < ?f m)"
    using inv x(1) by (auto simp: kahn_inv_def card_gt_0_iff)
  obtain ds' where r: "relax ms ?x ds (butlast queue) = Some (ds', butlast queue @
        map im_name (filter (\<lambda>m. ?x \<in> set (reqs m) \<and> ?f m = 1) ms))"
    and ds': "\<forall>m \<in> set ms. map_of ds' (im_name m) = Some (if ?x \<in> set (reqs m) then ?f m - 1 else ?f m)"
    using relax_spec [OF dist deg] by blast
  let ?new = "map im_name (filter (\<lambda>m. ?x \<in> set (reqs m) \<and> ?f m = 1) ms)"
  have newly: "?x \<in> set (reqs m) \<and> ?f m = 1 \<longleftrightarrow>
      set (reqs m) \<subseteq> set ?p' \<and> \<not> set (reqs m) \<subseteq> set popped" for m
  proof -
    have "?x \<in> set (reqs m) \<and> ?f m = 1 \<longleftrightarrow> set (reqs m) - set popped = {?x}"
      using x(1) by (rule singleton_by_card)
    also have "\<dots> \<longleftrightarrow> set (reqs m) \<subseteq> set ?p' \<and> \<not> set (reqs m) \<subseteq> set popped"
      using x(1) by auto
    finally show ?thesis .
  qed
  have new: "set ?new = {im_name m | m. m \<in> set ms \<and> set (reqs m) \<subseteq> set ?p' \<and> \<not> set (reqs m) \<subseteq> set popped}"
    using newly by auto
  have x_ready: "\<forall>m \<in> set ms. im_name m = ?x \<longrightarrow> set (reqs m) \<subseteq> set popped"
  proof (intro ballI impI)
    fix m assume m: "m \<in> set ms" "im_name m = ?x"
    have "?x \<in> set popped \<union> set queue" using q by simp
    then obtain m' where "m' \<in> set ms" "im_name m' = ?x" "set (reqs m') \<subseteq> set popped"
      unfolding ready by auto
    then show "set (reqs m) \<subseteq> set popped" using uniq m by metis
  qed
  have fresh: "n \<notin> set popped \<union> set queue" if n: "n \<in> set ?new" for n
  proof -
    obtain m where "m \<in> set ms" "n = im_name m" "\<not> set (reqs m) \<subseteq> set popped"
      using n unfolding new by blast
    then show ?thesis unfolding ready using uniq by blast
  qed
  have "distinct ?new" using dist by (simp add: distinct_map inj_on_def)
  moreover have "?x \<in> set queue" "set (butlast queue) \<subseteq> set queue" using q by (auto dest: in_set_butlastD)
  ultimately have distinct': "distinct (?p' @ butlast queue @ ?new)"
    using x fresh by fastforce
  have "set ?p' \<union> set (butlast queue @ ?new) = (set popped \<union> set queue) \<union> set ?new"
    by (subst (2) split) auto
  also have "\<dots> = {im_name m | m. m \<in> set ms \<and> set (reqs m) \<subseteq> set ?p'}"
    unfolding ready new by auto
  finally have "kahn_inv ms ?p' (butlast queue @ ?new) ds'"
    using distinct' topo_snoc [OF _ x_ready] inv ds' x(1)
    by (auto simp: kahn_inv_def card_insert_diff)
  then show ?thesis using r by blast
qed

lemma kahn_runs:
  assumes "closed_graph ms" "kahn_inv ms popped queue ds"
  shows "\<exists>popped' ds'. kahn ms ds queue (length popped) = Some (length popped') \<and>
           kahn_inv ms popped' [] ds'"
  using assms
proof (induction ms ds queue "length popped" arbitrary: popped rule: kahn.induct)
  case (1 ms ds queue)
  show ?case
  proof (cases "queue = []")
    case True
    then show ?thesis using 1(3) by (auto simp: kahn.simps)
  next
    case False
    obtain ds' queue' where r: "relax ms (last queue) ds (butlast queue) = Some (ds', queue')"
      and inv: "kahn_inv ms (popped @ [last queue]) queue' ds'"
      using kahn_step [OF 1(2,3) False] by blast
    have "kahn ms ds queue (length popped) = kahn ms ds' queue' (length (popped @ [last queue]))"
      using False r by (subst kahn.simps) simp
    then show ?thesis using 1(1) [OF False r refl _ 1(2) inv] by simp
  qed
qed

lemma sort_key_keys: "distinct (map fst xs) \<Longrightarrow> distinct (map fst (sort_key fst xs))"
  by (simp add: distinct_map)

lemma in_degrees_map_of:
  assumes "closed_graph ms" "m \<in> set ms"
  shows "map_of (in_degrees ms) (im_name m) = Some (card (set (reqs m)))"
proof -
  let ?xs = "map (\<lambda>m. (im_name m, length (im_dependencies m) + length (im_postvec_requires m))) ms"
  have d: "distinct (map fst ?xs)" using assms(1) by (simp add: closed_graph_def comp_def)
  have "distinct (map fst (sort_key fst ?xs))" using d by (rule sort_key_keys)
  then have "map_of (in_degrees ms) = map_of ?xs"
    using d map_of_inject_set [of "sort_key fst ?xs" ?xs] by (simp add: in_degrees_def)
  moreover have "map_of ?xs (im_name m) = Some (length (im_dependencies m) + length (im_postvec_requires m))"
    using assms(2) d by (intro map_of_is_SomeI) auto
  moreover have "length (im_dependencies m) + length (im_postvec_requires m) = card (set (reqs m))"
    using assms distinct_card [of "reqs m"] by (auto simp: closed_graph_def reqs_def)
  ultimately show ?thesis by simp
qed

lemma kahn_start:
  assumes "closed_graph ms"
  shows "kahn_inv ms [] (map fst (filter (\<lambda>(_, d). d = 0) (in_degrees ms))) (in_degrees ms)"
proof -
  let ?xs = "map (\<lambda>m. (im_name m, length (im_dependencies m) + length (im_postvec_requires m))) ms"
  have d: "distinct (map fst ?xs)" using assms by (simp add: closed_graph_def comp_def)
  have "distinct (map fst (in_degrees ms))" using sort_key_keys [OF d] by (simp add: in_degrees_def)
  then have "distinct (map fst (filter (\<lambda>(_, d). d = 0) (in_degrees ms)))"
    by (rule distinct_map_filter)
  moreover have "set (map fst (filter (\<lambda>(_, d). d = 0) (in_degrees ms)))
      = {im_name m | m. m \<in> set ms \<and> set (reqs m) \<subseteq> {}}"
    by (auto simp: in_degrees_def reqs_def image_iff)
  ultimately show ?thesis
    using in_degrees_map_of [OF assms] by (simp add: kahn_inv_def topo.simps)
qed

lemma topo_acyclic:
  assumes "topo ms popped" "distinct popped" "names ms \<subseteq> set popped" "closed_graph ms"
  shows "acyclic (requires ms)"
proof -
  define pos where "pos n = (LEAST i. i < length popped \<and> popped ! i = n)" for n
  have pos: "pos (popped ! i) = i" if "i < length popped" for i
    unfolding pos_def using that assms(2) by (intro Least_equality) (auto simp: nth_eq_iff_index_eq)
  have "requires ms \<subseteq> measure pos"
  proof
    fix e assume "e \<in> requires ms"
    then obtain d m where e: "e = (d, im_name m)" "m \<in> set ms" "d \<in> set (reqs m)"
      by (auto simp: requires_def)
    then obtain i where i: "i < length popped" "popped ! i = im_name m"
      using assms(3) by (metis imageI in_set_conv_nth names_def subsetD)
    have "set (reqs m) \<subseteq> set (take i popped)" using assms(1) i e(2) by (simp add: topo.simps)
    then have "d \<in> set (take i popped)" using e(3) by blast
    then obtain j where j: "j < i" "popped ! j = d" using i(1) by (auto simp: in_set_conv_nth)
    then have "pos d = j" "pos (im_name m) = i" using pos [of j] pos [of i] i by auto
    then show "e \<in> measure pos" using j e(1) by simp
  qed
  then show ?thesis using wf_acyclic wf_measure wf_subset by blast
qed

lemma finite_requires: "finite (requires ms)"
proof -
  have "requires ms = (\<Union>m \<in> set ms. (\<lambda>d. (d, im_name m)) ` set (reqs m))"
    by (auto simp: requires_def)
  then show ?thesis by simp
qed

lemma kahn_complete:
  assumes "kahn_inv ms popped [] ds" "acyclic (requires ms)" "closed_graph ms"
  shows "names ms \<subseteq> set popped"
proof
  fix n assume "n \<in> names ms"
  have "wf (requires ms)" using assms(2) finite_requires by (simp add: finite_acyclic_wf)
  then show "n \<in> set popped" using \<open>n \<in> names ms\<close>
  proof (induction n rule: wf_induct_rule)
    case (less n)
    then obtain m where m: "m \<in> set ms" "n = im_name m" by (auto simp: names_def)
    have "set (reqs m) \<subseteq> set popped"
    proof
      fix d assume "d \<in> set (reqs m)"
      then show "d \<in> set popped"
        using less(1) [of d] m assms(3) by (auto simp: requires_def closed_graph_def)
    qed
    then show ?case using assms(1) m by (auto simp: kahn_inv_def)
  qed
qed

lemma kahn_decides:
  assumes "closed_graph (ix_models ix)"
  shows "check_acyclic ix =
    (if acyclic (requires (ix_models ix)) then Ok () else Err DependencyCycle)"
proof -
  let ?ms = "ix_models ix"
  let ?queue = "map fst (filter (\<lambda>(_, d). d = 0) (in_degrees ?ms))"
  obtain popped ds where run: "kahn ?ms (in_degrees ?ms) ?queue 0 = Some (length popped)"
    and inv: "kahn_inv ?ms popped [] ds"
    using kahn_runs [OF assms kahn_start [OF assms]] by auto
  have d: "distinct popped" "topo ?ms popped" "set popped \<subseteq> names ?ms"
    using inv by (auto simp: kahn_inv_def names_def)
  have n: "card (names ?ms) = length ?ms"
    using assms by (simp add: closed_graph_def names_def distinct_card flip: set_map)
  have "length popped = length ?ms \<longleftrightarrow> names ?ms \<subseteq> set popped"
    using d n by (metis card_subset_eq distinct_card finite_set names_def finite_imageI order_refl subset_antisym)
  moreover have "acyclic (requires ?ms) \<longleftrightarrow> names ?ms \<subseteq> set popped"
    using topo_acyclic [OF d(2,1) _ assms] kahn_complete [OF inv _ assms] by blast
  ultimately show ?thesis using run by (simp add: check_acyclic_def Let_def check_def)
qed

text \<open>
  Kahn's algorithm decides acyclicity. On an index whose names are distinct and whose
  requirement lists are duplicate-free and closed, the in-degree bookkeeping never underflows and
  the check accepts exactly when the requirement graph has no cycle; otherwise the error is the
  cycle error and nothing else.
\<close>
theorem check_acyclic_decides:
  assumes "closed_graph (ix_models ix)"
  shows "check_acyclic ix =
    (if acyclic (requires (ix_models ix)) then Ok () else Err DependencyCycle)"
  using assms by (rule kahn_decides)

definition sample_model :: "string \<Rightarrow> string list \<Rightarrow> index_model" where
  "sample_model n ds = \<lparr>im_name = n, im_access = ''public'', im_model_type = ''embed'',
     im_backend = ''onnx'', im_quantization = None, im_source_model = None, im_target_model = None,
     im_source_dim = None, im_target_dim = Some 3, im_sequence_len = None, im_license = None,
     im_license_version = None, im_license_url = None, im_license_acceptance = None,
     im_source = None, im_dependencies = ds, im_postvec_requires = [],
     im_min_postvec_version = None, im_published_at = None, im_summary = None, im_eval = None,
     im_withdrawn = False, im_revision = None, im_required_entitlements = [],
     im_archive = \<lparr>ar_digest = ''sha256:'' @ replicate 64 (CHR ''a''), ar_size = 1,
       ar_installed_size = 1, ar_sources = [''https://x'']\<rparr>\<rparr>"

definition sample_index :: "index_model list \<Rightarrow> index" where
  "sample_index ms = \<lparr>ix_schema_version = 1, ix_channel = ''public'', ix_authenticated = False,
     ix_generated_at = None, ix_models = ms, ix_viewer = None\<rparr>"

lemma sample_fields [simp]:
  "im_name (sample_model n ds) = n" "reqs (sample_model n ds) = ds" "ix_models (sample_index ms) = ms"
  "im_withdrawn (sample_model n ds) = False" "is_public (sample_model n ds)"
  "im_required_entitlements (sample_model n ds) = []"
  by (simp_all add: sample_model_def sample_index_def reqs_def is_public_def)

lemma requires_simps [simp]:
  "requires [] = {}"
  "requires (m # ms) = (\<lambda>d. (d, im_name m)) ` set (reqs m) \<union> requires ms"
  by (auto simp: requires_def)

theorem check_acyclic_decides_witness:
  "check_acyclic (sample_index [sample_model ''a'' [''b''], sample_model ''b'' [''a'']]) = Err DependencyCycle"
proof -
  let ?ix = "sample_index [sample_model ''a'' [''b''], sample_model ''b'' [''a'']]"
  have g: "closed_graph (ix_models ?ix)"
    by (simp add: closed_graph_def names_def)
  have "(''b'', ''a'') \<in> requires (ix_models ?ix)" "(''a'', ''b'') \<in> requires (ix_models ?ix)"
    by simp_all
  then have "\<not> acyclic (requires (ix_models ?ix))"
    by (meson acyclic_def r_into_trancl' trancl_trans)
  then show ?thesis using check_acyclic_decides [OF g] by simp
qed

section \<open>What a validated index promises\<close>

lemma check_Ok [simp]: "check b e = Ok u \<longleftrightarrow> \<not> b"
  by (simp add: check_def)

lemma check_requirements_Ok:
  "check_requirements name seen ds = Ok () \<longleftrightarrow> distinct ds \<and> set seen \<inter> set ds = {}"
  by (induction name seen ds rule: check_requirements.induct) auto

lemma sorted_wrt_from:
  "sorted_wrt (<) (xs :: string list) \<and> (case prev of None \<Rightarrow> True | Some p \<Rightarrow> xs = [] \<or> p < hd xs) \<longleftrightarrow>
   (case xs of [] \<Rightarrow> True | x # ys \<Rightarrow> (case prev of None \<Rightarrow> True | Some p \<Rightarrow> p < x) \<and>
      sorted_wrt (<) ys \<and> (ys = [] \<or> x < hd ys))"
proof (cases xs)
  case (Cons x ys)
  have "(\<forall>y \<in> set ys. x < y) \<longleftrightarrow> ys = [] \<or> x < hd ys" if "sorted_wrt (<) ys"
    using that by (cases ys) (auto intro: less_trans)
  then show ?thesis using Cons by (auto split: option.splits)
qed (auto split: option.splits)

lemma check_entitlements_Ok:
  "check_entitlements name policy prev xs = Ok () \<longleftrightarrow>
     (\<forall>x \<in> set xs. valid_entitlement_id x = Ok () \<and> (policy = Strict \<longrightarrow> x \<in> set KNOWN_ENTITLEMENTS)) \<and>
     sorted_wrt (<) xs \<and> (case prev of None \<Rightarrow> True | Some p \<Rightarrow> xs = [] \<or> p < hd xs)"
proof (induction xs arbitrary: prev)
  case (Cons x xs)
  show ?case
    unfolding sorted_wrt_from [of "x # xs" prev]
    by (auto simp: Cons not_le split: option.splits if_splits)
qed (auto split: option.splits)

text \<open>The rules that concern one entry alone.\<close>

definition terms_ok :: "index_model \<Rightarrow> bool" where
  "terms_ok m \<longleftrightarrow>
     (\<forall>l. im_license m = Some l \<longrightarrow> valid_license_id l = Ok ()) \<and>
     license_acceptance m \<in> set KNOWN_LICENSE_ACCEPTANCE \<and>
     (im_license m = None \<longrightarrow> im_license_version m = None \<and> im_license_url m = None \<and>
        im_license_acceptance m = None) \<and>
     (case (im_license_version m, im_license_url m) of
        (Some v, Some u) \<Rightarrow> valid_license_version v = Ok () \<and> valid_license_url u = Ok ()
      | (None, None) \<Rightarrow> license_acceptance m = ''none''
      | _ \<Rightarrow> False) \<and>
     (is_public m \<longrightarrow> license_acceptance m \<noteq> ''organization'')"

definition archive_ok :: "archive_info \<Rightarrow> bool" where
  "archive_ok a \<longleftrightarrow> digest_hex a \<noteq> None \<and> 0 < ar_size a \<and> ar_size a \<le> MAX_ARCHIVE_BYTES \<and>
     ar_installed_size a \<le> MAX_ARCHIVE_BYTES \<and> ar_sources a \<noteq> [] \<and> length (ar_sources a) \<le> MAX_SOURCES"

definition entitlements_ok :: "entitlement_id_policy \<Rightarrow> index_model \<Rightarrow> bool" where
  "entitlements_ok policy m \<longleftrightarrow>
     length (im_required_entitlements m) \<le> MAX_LIST_ITEMS \<and>
     sorted_wrt (<) (im_required_entitlements m) \<and>
     (\<forall>x \<in> set (im_required_entitlements m). valid_entitlement_id x = Ok () \<and>
        (policy = Strict \<longrightarrow> x \<in> set KNOWN_ENTITLEMENTS)) \<and>
     (is_public m \<longrightarrow> im_required_entitlements m = [])"

definition entry_ok :: "index \<Rightarrow> entitlement_id_policy \<Rightarrow> index_model \<Rightarrow> bool" where
  "entry_ok ix policy m \<longleftrightarrow>
     valid_model_name (im_name m) = Ok () \<and> valid_model_name (im_backend m) = Ok () \<and>
     im_access m \<in> {''public'', ''private''} \<and> (ix_channel ix = ''public'' \<longrightarrow> is_public m) \<and>
     im_model_type m \<in> set KNOWN_MODEL_TYPES \<and>
     im_source_dim m \<noteq> Some 0 \<and> im_target_dim m \<noteq> Some 0 \<and> im_sequence_len m \<noteq> Some 0 \<and>
     1 \<le> revision m \<and> revision m \<le> MAX_REVISION \<and>
     (\<forall>v. im_min_postvec_version m = Some v \<longrightarrow> version_parses v) \<and>
     length (im_dependencies m) \<le> MAX_LIST_ITEMS \<and> length (im_postvec_requires m) \<le> MAX_LIST_ITEMS \<and>
     distinct (reqs m) \<and> terms_ok m \<and> entitlements_ok policy m \<and> archive_ok (im_archive m)"

lemma check_version_url_Ok:
  "check_version_url m = Ok () \<longleftrightarrow>
     (case (im_license_version m, im_license_url m) of
        (Some v, Some u) \<Rightarrow> valid_license_version v = Ok () \<and> valid_license_url u = Ok ()
      | (None, None) \<Rightarrow> license_acceptance m = ''none''
      | _ \<Rightarrow> False)"
  by (auto simp: check_version_url_def split: option.splits)

lemma check_archive_Ok: "check_archive m = Ok () \<longleftrightarrow> archive_ok (im_archive m)"
  by (auto simp: check_archive_def archive_ok_def Let_def)

lemma check_dims_Ok:
  "check_dims m = Ok () \<longleftrightarrow> im_source_dim m \<noteq> Some 0 \<and> im_target_dim m \<noteq> Some 0 \<and> im_sequence_len m \<noteq> Some 0"
  by (simp add: check_dims_def)

lemma validate_model_Ok:
  "validate_model ix policy m (by_name, terms) = Ok (by_name', terms') \<longleftrightarrow>
     entry_ok ix policy m \<and> by_name (im_name m) = None \<and> check_terms m terms = Ok terms' \<and>
     by_name' = by_name(im_name m \<mapsto> m)"
proof -
  have rev: "(case im_revision m of None \<Rightarrow> Ok ()
               | Some r \<Rightarrow> check (r = 0 \<or> r > MAX_REVISION) (RevisionOutOfRange (im_name m) r)) = Ok ()
      \<longleftrightarrow> 1 \<le> revision m \<and> revision m \<le> MAX_REVISION"
    by (auto simp: revision_def MAX_REVISION_def split: option.splits)
  have min: "(case im_min_postvec_version m of None \<Rightarrow> Ok ()
               | Some v \<Rightarrow> check (\<not> version_parses v) (BadMinimumVersion (im_name m) v)) = Ok ()
      \<longleftrightarrow> (\<forall>v. im_min_postvec_version m = Some v \<longrightarrow> version_parses v)"
    by (auto split: option.splits)
  have lic: "(case im_license m of None \<Rightarrow> Ok ()
               | Some l \<Rightarrow> map_err (BadLicenseId (im_name m)) (valid_license_id l)) = Ok ()
      \<longleftrightarrow> (\<forall>l. im_license m = Some l \<longrightarrow> valid_license_id l = Ok ())"
    by (auto split: option.splits)
  show ?thesis
    unfolding validate_model_def Let_def prod.case and_then_eq_Ok ex_simps
    by (auto simp: rev min lic check_version_url_Ok check_archive_Ok check_dims_Ok
          check_requirements_Ok check_entitlements_Ok entry_ok_def terms_ok_def entitlements_ok_def
          is_public_def not_less)
qed

text \<open>One licence id and version identify one document.\<close>

definition same_terms :: "index_model \<Rightarrow> index_model \<Rightarrow> bool" where
  "same_terms m m' \<longleftrightarrow>
     (im_license m = None \<or> im_license m \<noteq> im_license m' \<or> im_license_version m \<noteq> im_license_version m' \<or>
      im_license_url m = im_license_url m' \<and> license_acceptance m = license_acceptance m')"

text \<open>\<open>terms\<close> holds exactly the documents of the entries \<open>done\<close> seen so far.\<close>

definition terms_of :: "index_model list \<Rightarrow> terms_documents \<Rightarrow> bool" where
  "terms_of seen terms \<longleftrightarrow>
     (\<forall>l v. terms (l, v) = None \<longleftrightarrow> (\<forall>m \<in> set seen. im_license m \<noteq> Some l \<or> im_license_version m \<noteq> v)) \<and>
     (\<forall>m \<in> set seen. \<forall>l. im_license m = Some l \<longrightarrow>
        terms (l, im_license_version m) = Some (im_license_url m, license_acceptance m))"

lemma check_terms_step:
  assumes "terms_of seen terms"
  shows "(\<exists>terms'. check_terms m terms = Ok terms') \<longleftrightarrow> (\<forall>m' \<in> set seen. same_terms m m')"
    and "check_terms m terms = Ok terms' \<Longrightarrow> terms_of (seen @ [m]) terms'"
proof -
  have known: "terms (l, v) = Some (im_license_url m', license_acceptance m')"
    if "m' \<in> set seen" "im_license m' = Some l" "im_license_version m' = v" for m' l v
    using assms that by (auto simp: terms_of_def)
  have found: "\<exists>m' \<in> set seen. im_license m' = Some l \<and> im_license_version m' = v"
    if "terms (l, v) \<noteq> None" for l v
    using assms that unfolding terms_of_def by (metis (no_types, lifting))
  show "(\<exists>terms'. check_terms m terms = Ok terms') \<longleftrightarrow> (\<forall>m' \<in> set seen. same_terms m m')"
  proof (cases "im_license m")
    case (Some l)
    show ?thesis
    proof (cases "terms (l, im_license_version m)")
      case None
      then have "same_terms m m'" if "m' \<in> set seen" for m'
        using that known [of m' l "im_license_version m"] Some unfolding same_terms_def by force
      then show ?thesis using Some None by (simp add: check_terms_def Let_def)
    next
      case (Some val)
      obtain m' where m': "m' \<in> set seen" "im_license m' = Some l" "im_license_version m' = im_license_version m"
        using found [of l "im_license_version m"] Some by auto
      have "val = (im_license_url m', license_acceptance m')" using known [OF m'] Some by simp
      then have "val = (im_license_url m, license_acceptance m) \<longleftrightarrow> same_terms m m'"
        using m'(2,3) \<open>im_license m = Some l\<close> by (auto simp: same_terms_def)
      moreover have "(\<exists>t. check_terms m terms = Ok t) \<longleftrightarrow> val = (im_license_url m, license_acceptance m)"
        using Some \<open>im_license m = Some l\<close> by (simp add: check_terms_def Let_def)
      moreover have "same_terms m m''" if "m'' \<in> set seen" "same_terms m m'" for m''
      proof (cases "im_license m'' = Some l \<and> im_license_version m'' = im_license_version m")
        case True
        then have "im_license_url m'' = im_license_url m'" "license_acceptance m'' = license_acceptance m'"
          using known [OF m'] known [of m'' l "im_license_version m"] that(1) by simp_all
        then show ?thesis
          using that(2) m'(2,3) \<open>im_license m = Some l\<close> by (simp add: same_terms_def)
      next
        case False
        then show ?thesis using \<open>im_license m = Some l\<close> by (auto simp: same_terms_def)
      qed
      ultimately show ?thesis using m'(1) by blast
    qed
  qed (simp add: check_terms_def same_terms_def)
  show "terms_of (seen @ [m]) terms'" if "check_terms m terms = Ok terms'"
  proof (cases "im_license m")
    case None
    then show ?thesis using that assms by (auto simp: check_terms_def terms_of_def)
  next
    case (Some l)
    show ?thesis
    proof (cases "terms (l, im_license_version m)")
      case None
      then have "terms' = terms((l, im_license_version m) \<mapsto> (im_license_url m, license_acceptance m))"
        using that Some by (simp add: check_terms_def Let_def)
      then show ?thesis
        using assms None Some unfolding terms_of_def by (auto split: if_splits)
    next
      case val: (Some val)
      then have "terms' = terms" "val = (im_license_url m, license_acceptance m)"
        using that Some by (auto simp: check_terms_def Let_def split: if_splits)
      then show ?thesis using assms val Some unfolding terms_of_def by auto (metis option.distinct(1))
    qed
  qed
qed

lemma validate_fold:
  assumes "terms_of seen terms" "\<forall>n. by_name n = None \<longleftrightarrow> n \<notin> names seen"
    and "\<forall>m \<in> set seen. by_name (im_name m) = Some m"
  shows "(\<exists>st. try_fold (validate_model ix policy) ms (by_name, terms) = Ok st) \<longleftrightarrow>
      (\<forall>m \<in> set ms. entry_ok ix policy m) \<and> distinct (map im_name ms) \<and> names seen \<inter> names ms = {} \<and>
      sorted_wrt (\<lambda>m m'. same_terms m' m) ms \<and> (\<forall>m \<in> set ms. \<forall>m' \<in> set seen. same_terms m m')"
    (is "?run \<longleftrightarrow> ?ok")
    and "try_fold (validate_model ix policy) ms (by_name, terms) = Ok (by_name', terms') \<Longrightarrow>
      (\<forall>n. by_name' n = None \<longleftrightarrow> n \<notin> names (seen @ ms)) \<and>
      (\<forall>m \<in> set (seen @ ms). by_name' (im_name m) = Some m)"
  using assms
proof (induction ms arbitrary: seen by_name terms)
  case (Cons m ms)
  { case 1
    show ?case
    proof (cases "entry_ok ix policy m \<and> by_name (im_name m) = None \<and> (\<exists>t. check_terms m terms = Ok t)")
      case True
      then obtain t where t: "check_terms m terms = Ok t" by blast
      then have st: "validate_model ix policy m (by_name, terms) = Ok (by_name(im_name m \<mapsto> m), t)"
        using True by (simp add: validate_model_Ok)
      have "terms_of (seen @ [m]) t" using check_terms_step(2) [OF 1(1) t] .
      moreover have "\<forall>n. (by_name(im_name m \<mapsto> m)) n = None \<longleftrightarrow> n \<notin> names (seen @ [m])"
        "\<forall>m' \<in> set (seen @ [m]). (by_name(im_name m \<mapsto> m)) (im_name m') = Some m'"
        using 1(2,3) True by (auto simp: names_def) (metis option.distinct(1))
      ultimately have "(\<exists>st. try_fold (validate_model ix policy) ms (by_name(im_name m \<mapsto> m), t) = Ok st) \<longleftrightarrow>
        (\<forall>m \<in> set ms. entry_ok ix policy m) \<and> distinct (map im_name ms) \<and> names (seen @ [m]) \<inter> names ms = {} \<and>
        sorted_wrt (\<lambda>m m'. same_terms m' m) ms \<and> (\<forall>m'' \<in> set ms. \<forall>m' \<in> set (seen @ [m]). same_terms m'' m')"
        by (rule Cons(1))
      moreover have "\<forall>m' \<in> set seen. same_terms m m'" using check_terms_step(1) [OF 1(1)] t by blast
      moreover have "im_name m \<notin> names seen" using 1(2) True by blast
      ultimately show ?thesis using st True by (auto simp: names_def)
    next
      case False
      then have "\<nexists>st. validate_model ix policy m (by_name, terms) = Ok st"
        by (auto simp: validate_model_Ok)
      moreover have "\<not> (entry_ok ix policy m \<and> im_name m \<notin> names seen \<and> (\<forall>m' \<in> set seen. same_terms m m'))"
        using False 1(2) check_terms_step(1) [OF 1(1)] by blast
      ultimately show ?thesis by (auto simp: names_def)
    qed
  next
    case 2
    then obtain bn t where st: "validate_model ix policy m (by_name, terms) = Ok (bn, t)"
      and rest: "try_fold (validate_model ix policy) ms (bn, t) = Ok (by_name', terms')" by auto
    then have bn: "bn = by_name(im_name m \<mapsto> m)" "check_terms m terms = Ok t" "by_name (im_name m) = None"
      by (simp_all add: validate_model_Ok)
    have "terms_of (seen @ [m]) t" using check_terms_step(2) [OF 2(2) bn(2)] .
    moreover have "\<forall>n. bn n = None \<longleftrightarrow> n \<notin> names (seen @ [m])"
      "\<forall>m' \<in> set (seen @ [m]). bn (im_name m') = Some m'"
      using 2(3,4) bn by (auto simp: names_def) (metis option.distinct(1))
    ultimately show ?case using Cons(2) [OF rest] by simp
  }
qed (auto simp: names_def)

definition channel_ok :: "index \<Rightarrow> bool" where
  "channel_ok ix \<longleftrightarrow> ix_channel ix = ''public'' \<and> \<not> ix_authenticated ix \<or>
     ix_channel ix = ''private'' \<and> ix_authenticated ix"

definition edges_ok :: "index \<Rightarrow> bool" where
  "edges_ok ix \<longleftrightarrow>
     (\<forall>m \<in> set (ix_models ix). \<forall>d \<in> set (reqs m). \<exists>t \<in> set (ix_models ix). im_name t = d \<and>
        (is_public m \<longrightarrow> is_public t) \<and>
        set (im_required_entitlements t) \<subseteq> set (im_required_entitlements m))"

definition viewer_ok :: "index \<Rightarrow> bool" where
  "viewer_ok ix \<longleftrightarrow> (\<forall>v. ix_viewer ix = Some v \<longrightarrow>
     ix_authenticated ix \<and> length (vi_entitlements v) \<le> MAX_LIST_ITEMS \<and>
     sorted_wrt (<) (map ve_id (vi_entitlements v)) \<and>
     (\<forall>e \<in> set (vi_entitlements v). valid_entitlement_id (ve_id e) = Ok () \<and>
        ve_source e \<in> {''default'', ''grant''} \<and>
        (\<forall>x. ve_expires_at e = Some x \<longrightarrow> x \<noteq> [] \<and> length x \<le> MAX_EXPIRES_AT_BYTES)))"

definition index_ok :: "entitlement_id_policy \<Rightarrow> index \<Rightarrow> bool" where
  "index_ok policy ix \<longleftrightarrow>
     length (ix_models ix) \<le> MAX_MODELS \<and> channel_ok ix \<and> distinct (map im_name (ix_models ix)) \<and>
     (\<forall>m \<in> set (ix_models ix). entry_ok ix policy m) \<and>
     (\<forall>m \<in> set (ix_models ix). \<forall>m' \<in> set (ix_models ix). same_terms m m') \<and>
     edges_ok ix \<and> viewer_ok ix \<and> acyclic (requires (ix_models ix))"

lemma same_terms_sym: "same_terms m m' \<Longrightarrow> same_terms m' m"
  by (auto simp: same_terms_def)

lemma same_terms_all:
  "sorted_wrt (\<lambda>m m'. same_terms m' m) ms \<longleftrightarrow> (\<forall>m \<in> set ms. \<forall>m' \<in> set ms. same_terms m m')"
proof (induction ms)
  case (Cons m ms)
  have "same_terms m m" by (simp add: same_terms_def)
  then show ?case using Cons same_terms_sym by auto
qed simp

lemma check_viewer_entitlements_Ok:
  "check_viewer_entitlements prev vs = Ok () \<longleftrightarrow>
     (\<forall>e \<in> set vs. valid_entitlement_id (ve_id e) = Ok () \<and> ve_source e \<in> {''default'', ''grant''} \<and>
        (\<forall>x. ve_expires_at e = Some x \<longrightarrow> x \<noteq> [] \<and> length x \<le> MAX_EXPIRES_AT_BYTES)) \<and>
     sorted_wrt (<) (map ve_id vs) \<and>
     (case prev of None \<Rightarrow> True | Some p \<Rightarrow> map ve_id vs = [] \<or> p < hd (map ve_id vs))"
proof (induction vs arbitrary: prev)
  case (Cons v vs)
  show ?case
    unfolding sorted_wrt_from [of "map ve_id (v # vs)" prev]
    by (auto simp: Cons not_le not_less hd_map split: option.splits if_splits)
qed (auto split: option.splits)

lemma check_viewer_Ok: "check_viewer ix = Ok () \<longleftrightarrow> viewer_ok ix"
  by (auto simp: check_viewer_def viewer_ok_def check_viewer_entitlements_Ok not_less split: option.splits)

lemma check_channel_Ok: "check_channel ix = Ok () \<longleftrightarrow> channel_ok ix"
  by (auto simp: check_channel_def channel_ok_def)

lemma check_edge_Ok:
  assumes "\<forall>n. by_name n = None \<longleftrightarrow> n \<notin> names ms" "\<forall>m \<in> set ms. by_name (im_name m) = Some m"
  shows "check_edge by_name m d = Ok () \<longleftrightarrow>
    (\<exists>t \<in> set ms. im_name t = d \<and> (is_public m \<longrightarrow> is_public t) \<and>
       set (im_required_entitlements t) \<subseteq> set (im_required_entitlements m))"
proof (cases "by_name d")
  case None
  then have "\<forall>t \<in> set ms. im_name t \<noteq> d" using assms(1) by (auto simp: names_def)
  then show ?thesis using None by (auto simp: check_edge_def)
next
  case (Some t)
  then have "d \<in> names ms" using assms(1) by (metis option.distinct(1))
  then obtain t' where "t' \<in> set ms" "im_name t' = d" by (auto simp: names_def)
  then have t: "t \<in> set ms" "im_name t = d" using assms(2) Some by auto
  have "t'' = t" if "t'' \<in> set ms" "im_name t'' = d" for t'' using assms(2) that Some by auto
  then have "(\<exists>t \<in> set ms. im_name t = d \<and> P t) \<longleftrightarrow> P t" for P using t by blast
  moreover have "check_edge by_name m d = Ok () \<longleftrightarrow> (is_public m \<longrightarrow> is_public t) \<and>
      set (im_required_entitlements t) \<subseteq> set (im_required_entitlements m)"
    using Some by (simp add: check_edge_def subset_iff Ball_def)
  ultimately show ?thesis by simp
qed

lemma edges_closed:
  assumes "\<forall>m \<in> set (ix_models ix). entry_ok ix policy m" "distinct (map im_name (ix_models ix))" "edges_ok ix"
  shows "closed_graph (ix_models ix)"
  using assms unfolding closed_graph_def entry_ok_def edges_ok_def names_def by fastforce

lemma validate_spec: "validate_with ix policy = Ok () \<longleftrightarrow> index_ok policy ix"
proof -
  let ?ms = "ix_models ix"
  let ?loop = "try_fold (validate_model ix policy) ?ms (Map.empty, Map.empty)"
  let ?entries = "(\<forall>m \<in> set ?ms. entry_ok ix policy m) \<and> distinct (map im_name ?ms) \<and>
     (\<forall>m \<in> set ?ms. \<forall>m' \<in> set ?ms. same_terms m m')"
  have start: "terms_of [] Map.empty" "\<forall>n. Map.empty n = None \<longleftrightarrow> n \<notin> names []"
    "\<forall>m \<in> set []. Map.empty (im_name m) = Some m"
    by (simp_all add: terms_of_def names_def)
  have loop: "(\<exists>st. ?loop = Ok st) \<longleftrightarrow> ?entries"
    unfolding validate_fold(1) [OF start] same_terms_all by (auto simp: names_def)
  show ?thesis
  proof (cases ?entries)
    case False
    then have "\<nexists>st. ?loop = Ok st" using loop by blast
    then show ?thesis using False by (auto simp: validate_with_def index_ok_def)
  next
    case True
    then obtain by_name terms where st: "?loop = Ok (by_name, terms)" using loop by auto
    have maps: "\<forall>n. by_name n = None \<longleftrightarrow> n \<notin> names ?ms" "\<forall>m \<in> set ?ms. by_name (im_name m) = Some m"
      using validate_fold(2) [OF start st] by simp_all
    have edges: "(\<forall>m \<in> set ?ms. \<forall>d \<in> set (reqs m). check_edge by_name m d = Ok ()) \<longleftrightarrow> edges_ok ix"
      by (simp add: edges_ok_def check_edge_Ok [OF maps])
    have "edges_ok ix \<Longrightarrow> check_acyclic ix = Ok () \<longleftrightarrow> acyclic (requires ?ms)"
      using kahn_decides [OF edges_closed [of ix policy]] True by auto
    then show ?thesis
      using True st edges
      by (auto simp: validate_with_def index_ok_def check_viewer_Ok check_channel_Ok not_less)
  qed
qed

text \<open>
  C29. The validator accepts exactly the well-formed indexes. Under either entitlement policy
  \<open>validate_with\<close> returns \<open>Ok\<close> if and only if the index satisfies the declarative rule set: the
  channel agrees with authentication and access, names are unique and well shaped, every entry
  satisfies its own rules, one licence id and version names one document, every requirement
  exists without a public entry needing a private one or a dependency demanding an entitlement
  its dependent does not, the viewer block is well formed, and the requirement graph is acyclic.
\<close>
theorem validate_with_iff: "validate_with ix policy = Ok () \<longleftrightarrow> index_ok policy ix"
  by (rule validate_spec)

text \<open>
  Gateway mode relaxes exactly one rule. The gateway-base validator accepts an index if and
  only if the strict one would once the known-entitlement rule is set aside: strict acceptance is
  gateway acceptance plus every required entitlement being a known one.
\<close>
lemma gateway_relaxes_one_rule:
  "validate ix = Ok () \<longleftrightarrow>
   validate_gateway_base ix = Ok () \<and>
   (\<forall>m \<in> set (ix_models ix). set (im_required_entitlements m) \<subseteq> set KNOWN_ENTITLEMENTS)"
proof -
  have "entitlements_ok Strict m \<longleftrightarrow> entitlements_ok AcceptUnknown m \<and>
      set (im_required_entitlements m) \<subseteq> set KNOWN_ENTITLEMENTS" for m
    by (auto simp: entitlements_ok_def)
  then have "entry_ok ix Strict m \<longleftrightarrow> entry_ok ix AcceptUnknown m \<and>
      set (im_required_entitlements m) \<subseteq> set KNOWN_ENTITLEMENTS" for m
    by (auto simp: entry_ok_def)
  then show ?thesis
    unfolding validate_def validate_gateway_base_def validate_spec index_ok_def by blast
qed

lemma sample_digest: "digest_hex (im_archive (sample_model n ds)) = Some (replicate 64 (CHR ''a''))"
proof -
  have "strip_prefix ''sha256:'' (''sha256:'' @ replicate 64 (CHR ''a'')) = Some (replicate 64 (CHR ''a''))"
    by (rule strip_prefix_append)
  then show ?thesis
    by (simp add: digest_hex_def parse_sha256_digest_def sample_model_def list_all_iff is_hex_lower_def
                  byte_def is_ascii_digit_def)
qed

lemma sample_entry_ok:
  assumes "valid_model_name n = Ok ()" "distinct ds" "length ds \<le> MAX_LIST_ITEMS"
  shows "entry_ok (sample_index ms) policy (sample_model n ds)"
proof -
  have "valid_model_name ''onnx'' = Ok ()"
    by (simp add: valid_model_name_def valid_token_def MAX_NAME_BYTES_def name_byte_def ascii_defs byte_def)
  moreover have "archive_ok (im_archive (sample_model n ds))"
    unfolding archive_ok_def sample_digest
    by (simp add: sample_model_def MAX_ARCHIVE_BYTES_def MAX_SOURCES_def)
  ultimately show ?thesis
    using assms unfolding entry_ok_def
    by (simp add: sample_model_def sample_index_def is_public_def KNOWN_MODEL_TYPES_def revision_def
          MAX_REVISION_def MAX_LIST_ITEMS_def reqs_def terms_ok_def license_acceptance_def
          KNOWN_LICENSE_ACCEPTANCE_def entitlements_ok_def)
qed

text \<open>
  Schema gate. A body over the size limit or with another schema version is refused with
  exactly that reason before the rest of the document is decoded, and every index the parser
  returns satisfies the full rule set, with its body within the limit.
\<close>
theorem parse_and_validate_sound:
  "(length body > MAX_INDEX_BYTES \<longrightarrow>
      parse_and_validate probe decode body = Err (TooLarge (length body))) \<and>
   (length body \<le> MAX_INDEX_BYTES \<and> probe body = Ok v \<and> v \<noteq> SCHEMA_VERSION \<longrightarrow>
      parse_and_validate probe decode body = Err (SchemaVersionError v)) \<and>
   (parse_and_validate probe decode body = Ok ix \<longrightarrow>
      length body \<le> MAX_INDEX_BYTES \<and> probe body = Ok SCHEMA_VERSION \<and> decode body = Ok ix \<and>
      index_ok Strict ix)"
  by (auto simp: parse_and_validate_def parse_and_validate_with_def validate_spec split: if_splits)

theorem parse_and_validate_sound_witness:
  "parse_and_validate (\<lambda>_. Ok 1) (\<lambda>_. Ok (sample_index [])) ''{}'' = Ok (sample_index []) \<and>
   index_ok Strict (sample_index [])"
proof -
  have "index_ok Strict (sample_index [])"
    by (simp add: index_ok_def sample_index_def MAX_MODELS_def channel_ok_def edges_ok_def viewer_ok_def
        requires_def acyclic_def)
  then have "parse_and_validate (\<lambda>_. Ok 1) (\<lambda>_. Ok (sample_index [])) ''{}'' = Ok (sample_index [])"
    by (simp add: parse_and_validate_def parse_and_validate_with_def MAX_INDEX_BYTES_def
          SCHEMA_VERSION_def validate_spec)
  then show ?thesis
    using parse_and_validate_sound [of "''{}''" "\<lambda>_. Ok 1" "\<lambda>_. Ok (sample_index [])" 1 "sample_index []"]
    by blast
qed

text \<open>
  Identity is equality. The identity check accepts a revision exactly when all six identity
  fields are unchanged, absence included; the core check accepts exactly when the two
  always-recorded fields agree.
\<close>
lemma check_identity_iff:
  "(check_identity a b = Ok () \<longleftrightarrow> a = b) \<and>
   (check_identity_core (id_model_type a) (id_backend a) b = Ok () \<longleftrightarrow>
      id_model_type a = id_model_type b \<and> id_backend a = id_backend b)"
  by (cases a; cases b) (auto simp: check_identity_def check_identity_core_def)

end
