(* ===== verification/Closure.thy ===== *)
theory Closure
  imports IndexSchema
begin

text \<open>
  \<open>registry/client/src/index.rs\<close> (\<open>expand_closure\<close>), the two inventory walks of
  \<open>registry/client/src/root.rs\<close>, and the server's own closure and unload order
  (\<open>postvec-server/src/models.rs\<close>, \<open>admin.rs\<close>).

  The recursive visits carry fuel. A visit of the client enters every name at most once on its
  path (\<open>in_progress\<close>), so one more than the number of entries is enough fuel on every index;
  the server's and the inventory's visits are bounded by their depth limits.
\<close>

section \<open>The interface of a validated requirement graph\<close>

text \<open>
  What the walks rely on and the validator provides: on every admitted index the requirement
  relation is finite and acyclic, and every requirement of a node is a node.
\<close>

locale requirement_graph =
  fixes nodes :: "'ix \<Rightarrow> 'n set"
    and needs :: "'ix \<Rightarrow> ('n \<times> 'n) set"
    and admits :: "'ix \<Rightarrow> bool"
  assumes admits_finite: "admits ix \<Longrightarrow> finite (needs ix)"
    and admits_acyclic: "admits ix \<Longrightarrow> acyclic (needs ix)"
    and admits_closed: "admits ix \<Longrightarrow> (d, n) \<in> needs ix \<Longrightarrow> d \<in> nodes ix"
begin

lemma needs_wf: "admits ix \<Longrightarrow> wf (needs ix)"
  using admits_finite admits_acyclic finite_acyclic_wf by blast

lemma no_path_back: "admits ix \<Longrightarrow> (n, n) \<notin> (needs ix)\<^sup>+"
  using admits_acyclic by (auto simp: acyclic_def)

lemma reach_nodes: "admits ix \<Longrightarrow> n \<in> nodes ix \<Longrightarrow> (d, n) \<in> (needs ix)\<^sup>* \<Longrightarrow> d \<in> nodes ix"
  by (metis admits_closed converse_rtranclE)

end

lemma index_ok_closed:
  assumes "index_ok policy ix"
  shows "closed_graph (ix_models ix)"
  using assms edges_closed by (auto simp: index_ok_def)

interpretation validated: requirement_graph "\<lambda>ix. names (ix_models ix)" "\<lambda>ix. requires (ix_models ix)"
  "\<lambda>ix. validate_with ix policy = Ok ()" for policy
proof unfold_locales
  fix ix and d n :: string
  assume v: "validate_with ix policy = Ok ()"
  then have ok: "index_ok policy ix" by (simp add: validate_spec)
  show "finite (requires (ix_models ix))" by (rule finite_requires)
  show "acyclic (requires (ix_models ix))" using ok by (simp add: index_ok_def)
  assume "(d, n) \<in> requires (ix_models ix)"
  then show "d \<in> names (ix_models ix)"
    using index_ok_closed [OF ok] by (auto simp: closed_graph_def requires_def)
qed

section \<open>The client's pull closure\<close>

datatype pull_reason = Requested | EngineDependency | PostvecCompanion

datatype closure_error =
    NotInCatalogue string "string option"
  | NotOffered string "string option"
  | Withdrawn string
  | CycleThrough string
  | OutOfFuel

record closure_state =
  cs_reasons :: "string \<rightharpoonup> pull_reason"
  cs_order :: "index_model list"
  cs_in_progress :: "string set"

fun visit ::
  "nat \<Rightarrow> index \<Rightarrow> pull_reason \<Rightarrow> string option \<Rightarrow> string \<Rightarrow> closure_state
   \<Rightarrow> closure_error + closure_state" where
  "visit 0 ix reason requested_by name st = Err OutOfFuel"
| "visit (Suc fuel) ix reason requested_by name st =
     (case model_of ix name of
        None \<Rightarrow> if ix_authenticated ix then Err (NotInCatalogue name requested_by)
                else Err (NotOffered name requested_by)
      | Some m \<Rightarrow>
          if im_withdrawn m \<and> requested_by = None then Err (Withdrawn name)
          else if cs_reasons st (im_name m) \<noteq> None
          then Ok (if reason = Requested
                   then st\<lparr>cs_reasons := (cs_reasons st)(im_name m \<mapsto> reason)\<rparr> else st)
          else if im_name m \<in> cs_in_progress st then Err (CycleThrough name)
          else
            and_then (try_fold (\<lambda>d. visit fuel ix EngineDependency (Some (im_name m)) d)
                        (im_dependencies m)
                        (st\<lparr>cs_in_progress := insert (im_name m) (cs_in_progress st)\<rparr>)) (\<lambda>st.
            and_then (try_fold (\<lambda>d. visit fuel ix PostvecCompanion (Some (im_name m)) d)
                        (im_postvec_requires m) st) (\<lambda>st.
            Ok (st\<lparr>cs_in_progress := cs_in_progress st - {im_name m},
                   cs_reasons := (cs_reasons st)(im_name m \<mapsto> reason),
                   cs_order := cs_order st @ [m]\<rparr>))))"

definition closure_start :: closure_state where
  "closure_start = \<lparr>cs_reasons = Map.empty, cs_order = [], cs_in_progress = {}\<rparr>"

record closure_entry =
  ce_model :: index_model
  ce_reason :: pull_reason

text \<open>\<open>reasons[name]\<close> panics on a missing key; every ordered model has a reason.\<close>

definition expand_closure :: "index \<Rightarrow> string list \<Rightarrow> closure_error + closure_entry list" where
  "expand_closure ix requested =
     and_then (try_fold (visit (Suc (length (ix_models ix))) ix Requested None) requested closure_start)
       (\<lambda>st. Ok (map (\<lambda>m. \<lparr>ce_model = m, ce_reason = the (cs_reasons st (im_name m))\<rparr>) (cs_order st)))"

declare visit.simps [simp del]

section \<open>Invariant of the walk\<close>

definition reach :: "index \<Rightarrow> string \<Rightarrow> string set" where
  "reach ix n = {d. (d, n) \<in> (requires (ix_models ix))\<^sup>*}"

definition order_names :: "closure_state \<Rightarrow> string list" where
  "order_names st = map im_name (cs_order st)"

definition walk_inv :: "index \<Rightarrow> closure_state \<Rightarrow> bool" where
  "walk_inv ix st \<longleftrightarrow>
     set (cs_order st) \<subseteq> set (ix_models ix) \<and> distinct (order_names st) \<and>
     dom (cs_reasons st) = set (order_names st) \<and>
     (\<forall>i < length (cs_order st). set (reqs (cs_order st ! i)) \<subseteq> set (take i (order_names st)))"

text \<open>What a successful visit (or run of visits) does to the state.\<close>

definition advances :: "index \<Rightarrow> string set \<Rightarrow> closure_state \<Rightarrow> closure_state \<Rightarrow> bool" where
  "advances ix roots st st' \<longleftrightarrow>
     walk_inv ix st' \<and> cs_in_progress st' = cs_in_progress st \<and>
     (\<exists>new. cs_order st' = cs_order st @ new) \<and>
     set (order_names st') = set (order_names st) \<union> (\<Union>n \<in> roots. reach ix n)"

lemma name_unique:
  "distinct (map im_name ms) \<Longrightarrow> m \<in> set ms \<Longrightarrow> m' \<in> set ms \<Longrightarrow> im_name m = im_name m' \<Longrightarrow> m = m'"
  by (meson distinct_map inj_onD)

lemma model_of_unique:
  assumes "distinct (map im_name (ix_models ix))" "m \<in> set (ix_models ix)"
  shows "model_of ix (im_name m) = Some m"
  using assms unfolding model_of_def
proof (induction "ix_models ix" arbitrary: ix)
  case (Cons x xs)
  have "find (\<lambda>m'. im_name m' = im_name m) (x # xs) = Some m"
    using Cons(1) [of "ix\<lparr>ix_models := xs\<rparr>"] Cons(2-4) by (auto simp flip: Cons(2))
  then show ?case using Cons(2) by simp
qed simp

lemma model_of_Some: "model_of ix n = Some m \<Longrightarrow> m \<in> set (ix_models ix) \<and> im_name m = n"
  unfolding model_of_def by (auto simp: find_Some_iff)

lemma reach_step:
  assumes "m \<in> set (ix_models ix)" "distinct (map im_name (ix_models ix))"
  shows "reach ix (im_name m) = insert (im_name m) (\<Union>d \<in> set (reqs m). reach ix d)"
proof -
  have uniq: "m' = m" if "m' \<in> set (ix_models ix)" "im_name m' = im_name m" for m'
    using that assms unfolding distinct_map by (meson inj_onD)
  have "(x, im_name m) \<in> (requires (ix_models ix))\<^sup>* \<longleftrightarrow>
      x = im_name m \<or> (\<exists>d \<in> set (reqs m). (x, d) \<in> (requires (ix_models ix))\<^sup>*)" for x
  proof
    assume "(x, im_name m) \<in> (requires (ix_models ix))\<^sup>*"
    then show "x = im_name m \<or> (\<exists>d \<in> set (reqs m). (x, d) \<in> (requires (ix_models ix))\<^sup>*)"
    proof (cases rule: rtranclE)
      case (step d)
      then obtain m' where "m' \<in> set (ix_models ix)" "im_name m' = im_name m" "d \<in> set (reqs m')"
        by (auto simp: requires_def)
      then show ?thesis using step(1) uniq by metis
    qed simp
  next
    assume "x = im_name m \<or> (\<exists>d \<in> set (reqs m). (x, d) \<in> (requires (ix_models ix))\<^sup>*)"
    moreover have "(d, im_name m) \<in> requires (ix_models ix)" if "d \<in> set (reqs m)" for d
      using that assms(1) by (auto simp: requires_def)
    ultimately show "(x, im_name m) \<in> (requires (ix_models ix))\<^sup>*" by (meson rtrancl.simps)
  qed
  then show ?thesis by (auto simp: reach_def)
qed

lemma reach_self [simp]: "n \<in> reach ix n"
  by (simp add: reach_def)

text \<open>The ordered names are closed under requirements, so a name in the order brings its whole reach.\<close>

lemma ordered_reach:
  assumes "walk_inv ix st" "distinct (map im_name (ix_models ix))" "n \<in> set (order_names st)"
  shows "reach ix n \<subseteq> set (order_names st)"
proof
  fix x assume "x \<in> reach ix n"
  then have "(x, n) \<in> (requires (ix_models ix))\<^sup>*" by (simp add: reach_def)
  then show "x \<in> set (order_names st)" using assms(3)
  proof (induction rule: rtrancl_induct)
    case (step d n)
    obtain m where m: "m \<in> set (ix_models ix)" "im_name m = n" "d \<in> set (reqs m)"
      using step(2) by (auto simp: requires_def)
    obtain i where i: "i < length (cs_order st)" "order_names st ! i = n"
      using step(4) by (auto simp: in_set_conv_nth order_names_def)
    then have "cs_order st ! i \<in> set (ix_models ix)" "im_name (cs_order st ! i) = n"
      using assms(1) by (auto simp: walk_inv_def order_names_def)
    then have "cs_order st ! i = m" using name_unique [OF assms(2)] m(1,2) by simp
    then have "d \<in> set (take i (order_names st))" using assms(1) i(1) m(3) by (auto simp: walk_inv_def)
    then show ?case using step(3) by (meson in_set_takeD)
  qed
qed

definition requested_set :: "closure_state \<Rightarrow> string set" where
  "requested_set st = {n. cs_reasons st n = Some Requested}"

lemma advances_trans:
  "advances ix A st st' \<Longrightarrow> advances ix B st' st'' \<Longrightarrow> advances ix (A \<union> B) st st''"
  unfolding advances_def by auto

lemma fold_advances:
  assumes "\<And>d st. d \<in> set ds \<Longrightarrow> walk_inv ix st \<Longrightarrow> cs_in_progress st = ip \<Longrightarrow>
      \<exists>st'. f d st = Ok st' \<and> advances ix {d} st st' \<and>
        requested_set st' = requested_set st \<union> (if rq then {d} else {})"
    and "walk_inv ix st" "cs_in_progress st = ip"
  shows "\<exists>st'. try_fold f ds st = Ok st' \<and> advances ix (set ds) st st' \<and>
      requested_set st' = requested_set st \<union> (if rq then set ds else {})"
  using assms
proof (induction ds arbitrary: st)
  case Nil
  then show ?case by (simp add: advances_def)
next
  case (Cons d ds)
  obtain st1 where st1: "f d st = Ok st1" "advances ix {d} st st1"
    "requested_set st1 = requested_set st \<union> (if rq then {d} else {})"
    using Cons(2) [of d st] Cons(3,4) by auto
  have "\<exists>st'. try_fold f ds st1 = Ok st' \<and> advances ix (set ds) st1 st' \<and>
      requested_set st' = requested_set st1 \<union> (if rq then set ds else {})"
    using st1(2) Cons(2-4) by (intro Cons(1)) (auto simp: advances_def)
  then obtain st2 where st2: "try_fold f ds st1 = Ok st2" "advances ix (set ds) st1 st2"
    "requested_set st2 = requested_set st1 \<union> (if rq then set ds else {})" by blast
  have "advances ix (set (d # ds)) st st2"
    using advances_trans [OF st1(2) st2(2)] by simp
  then show ?case using st1 st2 by auto
qed

text \<open>Leaving a node: all its requirements are ordered, it is not.\<close>

lemma finish_advances:
  fixes reason :: pull_reason
  assumes ok: "index_ok policy ix" and inv: "walk_inv ix st" and m: "m \<in> set (ix_models ix)"
    and fresh: "cs_reasons st (im_name m) = None" "im_name m \<notin> cs_in_progress st"
    and adv: "advances ix (set (reqs m)) (st\<lparr>cs_in_progress := insert (im_name m) (cs_in_progress st)\<rparr>) st2"
    and same: "requested_set st2 = requested_set st"
  defines "st3 \<equiv> st2\<lparr>cs_in_progress := cs_in_progress st2 - {im_name m},
      cs_reasons := (cs_reasons st2)(im_name m \<mapsto> reason), cs_order := cs_order st2 @ [m]\<rparr>"
  shows "advances ix {im_name m} st st3 \<and>
      requested_set st3 = requested_set st \<union> (if reason = Requested then {im_name m} else {})"
proof -
  let ?n = "im_name m"
  have dist: "distinct (map im_name (ix_models ix))" using ok by (simp add: index_ok_def)
  have inv2: "walk_inv ix st2" and ip2: "cs_in_progress st2 = insert ?n (cs_in_progress st)"
    using adv by (simp_all add: advances_def)
  obtain new where new: "cs_order st2 = cs_order st @ new"
    using adv by (auto simp: advances_def)
  have names2: "set (order_names st2) = set (order_names st) \<union> (\<Union>d \<in> set (reqs m). reach ix d)"
    using adv by (simp add: advances_def order_names_def)
  have "\<not> (?n \<in> reach ix d)" if "d \<in> set (reqs m)" for d
  proof
    assume "?n \<in> reach ix d"
    then have "(?n, d) \<in> (requires (ix_models ix))\<^sup>*" by (simp add: reach_def)
    moreover have "(d, ?n) \<in> requires (ix_models ix)" using that m by (auto simp: requires_def)
    ultimately have "(?n, ?n) \<in> (requires (ix_models ix))\<^sup>+" by (rule rtrancl_into_trancl1)
    then show False using validated.no_path_back [of ix policy] ok by (simp add: validate_spec)
  qed
  moreover have "?n \<notin> set (order_names st)" using inv fresh(1) by (auto simp: walk_inv_def)
  ultimately have n2: "?n \<notin> set (order_names st2)" using names2 by auto
  have reqs2: "set (reqs m) \<subseteq> set (order_names st2)" using names2 by auto
  have "set (reqs ((cs_order st2 @ [m]) ! i)) \<subseteq> set (take i (order_names st2 @ [?n]))"
    if "i < length (cs_order st2 @ [m])" for i
  proof (cases "i < length (cs_order st2)")
    case True
    then show ?thesis using inv2 by (simp add: walk_inv_def nth_append order_names_def)
  next
    case False
    then have "i = length (cs_order st2)" using that by simp
    then show ?thesis using reqs2 by (simp add: order_names_def)
  qed
  then have "walk_inv ix st3"
    using inv2 n2 m by (auto simp: walk_inv_def st3_def order_names_def)
  moreover have "cs_in_progress st3 = cs_in_progress st" using ip2 fresh(2) by (auto simp: st3_def)
  moreover have "set (order_names st3) = set (order_names st) \<union> reach ix ?n"
    using names2 reach_step [OF m dist] by (auto simp: st3_def order_names_def)
  moreover have "cs_reasons st2 ?n = None" using inv2 n2 by (auto simp: walk_inv_def)
  ultimately show ?thesis
    using new same fresh(1) by (auto simp: advances_def st3_def requested_set_def)
qed

definition may_pull :: "index \<Rightarrow> string option \<Rightarrow> string \<Rightarrow> bool" where
  "may_pull ix requested_by n \<longleftrightarrow>
     (\<exists>m \<in> set (ix_models ix). im_name m = n \<and> (requested_by = None \<longrightarrow> \<not> im_withdrawn m))"

lemma visit_advances:
  assumes "index_ok policy ix" "walk_inv ix st" "may_pull ix requested_by name"
    and "card (names (ix_models ix) - cs_in_progress st) < fuel"
    and "\<forall>p \<in> cs_in_progress st. (name, p) \<in> (requires (ix_models ix))\<^sup>+"
  shows "\<exists>st'. visit fuel ix reason requested_by name st = Ok st' \<and> advances ix {name} st st' \<and>
      requested_set st' = requested_set st \<union> (if reason = Requested then {name} else {})"
  using assms
proof (induction fuel arbitrary: reason requested_by name st)
  case (Suc fuel)
  have ok: "index_ok policy ix" and dist: "distinct (map im_name (ix_models ix))"
    using Suc(2) by (simp_all add: index_ok_def)
  obtain m where m: "m \<in> set (ix_models ix)" "im_name m = name" "requested_by = None \<longrightarrow> \<not> im_withdrawn m"
    using Suc(4) by (auto simp: may_pull_def)
  have found: "model_of ix name = Some m" using model_of_unique [OF dist m(1)] m(2) by simp
  show ?case
  proof (cases "cs_reasons st name = None")
    case False
    then have mem: "name \<in> set (order_names st)" using Suc(3) by (auto simp: walk_inv_def)
    let ?st' = "if reason = Requested then st\<lparr>cs_reasons := (cs_reasons st)(name \<mapsto> reason)\<rparr> else st"
    have "visit (Suc fuel) ix reason requested_by name st = Ok ?st'"
      using found m False by (auto simp: visit.simps)
    moreover have "advances ix {name} st ?st'"
      using Suc(3) mem ordered_reach [OF Suc(3) dist mem]
      by (auto simp: advances_def walk_inv_def order_names_def)
    moreover have "requested_set ?st' = requested_set st \<union> (if reason = Requested then {name} else {})"
      by (auto simp: requested_set_def)
    ultimately show ?thesis by blast
  next
    case True
    have nip: "name \<notin> cs_in_progress st"
      using Suc(6) validated.no_path_back [of ix policy] ok by (auto simp: validate_spec)
    let ?st1 = "st\<lparr>cs_in_progress := insert name (cs_in_progress st)\<rparr>"
    let ?ip = "insert name (cs_in_progress st)"
    have inv1: "walk_inv ix ?st1" using Suc(3) by (simp add: walk_inv_def order_names_def)
    have "name \<in> names (ix_models ix)" using m by (auto simp: names_def)
    then have fuel: "card (names (ix_models ix) - ?ip) < fuel"
      using Suc(5) nip by (simp add: card_insert_diff names_def)
        (metis (no_types, lifting) Diff_eq_empty_iff List.finite_set One_nat_def Suc_pred card_gt_0_iff finite_Diff finite_imageI insertE not_less_eq subset_iff DiffI empty_iff)
    have child: "\<exists>st'. visit fuel ix r (Some name) d s = Ok st' \<and> advances ix {d} s st' \<and>
        requested_set st' = requested_set s \<union> (if False then {d} else {})"
      if d: "d \<in> set (reqs m)" and s: "walk_inv ix s" "cs_in_progress s = ?ip" and r: "r \<noteq> Requested" for r d s
    proof -
      have edge: "(d, name) \<in> requires (ix_models ix)" using d m by (auto simp: requires_def)
      then have "d \<in> names (ix_models ix)"
        using validated.admits_closed [of ix policy] ok by (simp add: validate_spec)
      then have "may_pull ix (Some name) d" by (auto simp: may_pull_def names_def)
      moreover have "\<forall>p \<in> cs_in_progress s. (d, p) \<in> (requires (ix_models ix))\<^sup>+"
        using edge Suc(6) s(2) by (auto intro: trancl_into_trancl2)
      ultimately show ?thesis using Suc(1) [OF ok s(1), of "Some name" d r] fuel s(2) r by simp
    qed
    obtain sa where sa: "try_fold (visit fuel ix EngineDependency (Some name)) (im_dependencies m) ?st1 = Ok sa"
      "advances ix (set (im_dependencies m)) ?st1 sa" "requested_set sa = requested_set ?st1"
      using fold_advances [of "im_dependencies m" ix ?ip "visit fuel ix EngineDependency (Some name)" False ?st1]
        child [of _ _ EngineDependency] inv1 by (fastforce simp: reqs_def)
    have "walk_inv ix sa" "cs_in_progress sa = ?ip" using sa(2) by (simp_all add: advances_def)
    then obtain sb where sb: "try_fold (visit fuel ix PostvecCompanion (Some name)) (im_postvec_requires m) sa = Ok sb"
      "advances ix (set (im_postvec_requires m)) sa sb" "requested_set sb = requested_set sa"
      using fold_advances [of "im_postvec_requires m" ix ?ip "visit fuel ix PostvecCompanion (Some name)" False sa]
        child [of _ _ PostvecCompanion] by (fastforce simp: reqs_def)
    have adv: "advances ix (set (reqs m)) ?st1 sb"
      using advances_trans [OF sa(2) sb(2)] by (simp add: reqs_def)
    have "visit (Suc fuel) ix reason requested_by name st = Ok (sb\<lparr>cs_in_progress := cs_in_progress sb - {name},
        cs_reasons := (cs_reasons sb)(name \<mapsto> reason), cs_order := cs_order sb @ [m]\<rparr>)"
      using found m True nip sa(1) sb(1) by (auto simp: visit.simps)
    moreover have "requested_set sb = requested_set st"
      using sa(3) sb(3) by (simp add: requested_set_def)
    ultimately show ?thesis
      using finish_advances [OF ok Suc(3) m(1), of sb reason] True nip adv m(2) by auto
  qed
qed simp

text \<open>Requests the index can serve: every name is listed and not withdrawn.\<close>

definition servable :: "index \<Rightarrow> string list \<Rightarrow> bool" where
  "servable ix requested \<longleftrightarrow> (\<forall>n \<in> set requested. may_pull ix None n)"

lemma expand_closure_runs:
  assumes ok: "index_ok policy ix" and req: "servable ix requested"
  shows "\<exists>st. try_fold (visit (Suc (length (ix_models ix))) ix Requested None) requested closure_start = Ok st \<and>
    advances ix (set requested) closure_start st \<and> requested_set st = set requested"
proof -
  have start: "walk_inv ix closure_start" "cs_in_progress closure_start = {}" "requested_set closure_start = {}"
    by (simp_all add: closure_start_def walk_inv_def order_names_def requested_set_def)
  have "card (names (ix_models ix)) \<le> length (ix_models ix)"
    using card_length [of "map im_name (ix_models ix)"] by (simp add: names_def)
  then have "\<exists>st'. visit (Suc (length (ix_models ix))) ix Requested None n st = Ok st' \<and>
      advances ix {n} st st' \<and> requested_set st' = requested_set st \<union> (if True then {n} else {})"
    if "n \<in> set requested" "walk_inv ix st" "cs_in_progress st = {}" for n st
    using visit_advances [OF ok that(2), of None n "Suc (length (ix_models ix))" Requested] that req
    by (simp add: servable_def)
  then show ?thesis
    using fold_advances [of requested ix "{}" "visit (Suc (length (ix_models ix))) ix Requested None" True
        closure_start] start by auto
qed

text \<open>
  C30. A pull closure is complete and ordered. On a validated index every servable request
  succeeds, and the closure is exactly the set of models reachable from the requested ones, each
  listed once, in an order in which every requirement of an entry comes before it; an entry is
  marked \<open>Requested\<close> exactly when it was asked for by name.
\<close>
theorem expand_closure_correct:
  assumes "validate_with ix policy = Ok ()" "servable ix requested"
  shows "\<exists>es. expand_closure ix requested = Ok es \<and>
    set (map (im_name \<circ> ce_model) es) = (\<Union>n \<in> set requested. reach ix n) \<and>
    distinct (map (im_name \<circ> ce_model) es) \<and>
    (\<forall>i < length es. ce_model (es ! i) \<in> set (ix_models ix) \<and>
       set (reqs (ce_model (es ! i))) \<subseteq> set (take i (map (im_name \<circ> ce_model) es)) \<and>
       (ce_reason (es ! i) = Requested \<longleftrightarrow> im_name (ce_model (es ! i)) \<in> set requested))"
proof -
  obtain st where st: "try_fold (visit (Suc (length (ix_models ix))) ix Requested None) requested closure_start = Ok st"
    "advances ix (set requested) closure_start st" "requested_set st = set requested"
    using expand_closure_runs [of policy ix requested] assms by (auto simp: validate_spec)
  let ?es = "map (\<lambda>m. \<lparr>ce_model = m, ce_reason = the (cs_reasons st (im_name m))\<rparr>) (cs_order st)"
  have inv: "walk_inv ix st" using st(2) by (simp add: advances_def)
  have names: "map (im_name \<circ> ce_model) ?es = order_names st" by (simp add: order_names_def)
  have "the (cs_reasons st n) = Requested \<longleftrightarrow> n \<in> set requested" if "n \<in> set (order_names st)" for n
    using that inv st(3) unfolding walk_inv_def requested_set_def by force
  then have "\<forall>i < length ?es. ce_model (?es ! i) \<in> set (ix_models ix) \<and>
       set (reqs (ce_model (?es ! i))) \<subseteq> set (take i (order_names st)) \<and>
       (ce_reason (?es ! i) = Requested \<longleftrightarrow> im_name (ce_model (?es ! i)) \<in> set requested)"
    using inv by (auto simp: walk_inv_def order_names_def)
  moreover have "set (order_names st) = (\<Union>n \<in> set requested. reach ix n)" "distinct (order_names st)"
    using st(2) inv by (auto simp: advances_def walk_inv_def closure_start_def order_names_def)
  moreover have "expand_closure ix requested = Ok ?es" using st(1) by (simp add: expand_closure_def)
  ultimately show ?thesis unfolding names [symmetric] by blast
qed

definition sample_chain :: index where
  "sample_chain = sample_index [sample_model ''b'' [''a''], sample_model ''a'' []]"

lemma sample_chain_ok: "validate_with sample_chain Strict = Ok ()"
proof -
  have "valid_model_name ''a'' = Ok ()" "valid_model_name ''b'' = Ok ()"
    by (simp_all add: valid_model_name_def valid_token_def MAX_NAME_BYTES_def name_byte_def ascii_defs byte_def)
  then have "entry_ok sample_chain Strict (sample_model ''b'' [''a''])" "entry_ok sample_chain Strict (sample_model ''a'' [])"
    unfolding sample_chain_def by (auto intro!: sample_entry_ok simp: MAX_LIST_ITEMS_def)
  moreover have "same_terms (sample_model x xs) (sample_model y ys)" for x xs y ys
    by (simp add: same_terms_def sample_model_def)
  moreover have "edges_ok sample_chain"
    by (simp add: edges_ok_def sample_chain_def)
  moreover have "acyclic {(''a'', ''b'')}" by (simp add: acyclic_insert) (simp add: acyclic_def)
  ultimately show ?thesis
    unfolding validate_spec index_ok_def
    by (simp add: sample_chain_def channel_ok_def viewer_ok_def MAX_MODELS_def) (simp add: sample_index_def)
qed

theorem expand_closure_correct_witness:
  "\<exists>es. expand_closure sample_chain [''b''] = Ok es \<and> distinct (map (im_name \<circ> ce_model) es)"
proof -
  have "servable sample_chain [''b'']"
    by (simp add: servable_def may_pull_def sample_chain_def)
  from expand_closure_correct [OF sample_chain_ok this] show ?thesis by blast
qed

text \<open>
  Refusals of a pull are truthful. On a validated index the first name that is not servable
  decides: an unlisted name is refused as unlisted (with the wording of the document's audience)
  and a withdrawn one as withdrawn, whatever follows it; the cycle guard and the fuel never fire.
\<close>
theorem expand_closure_refusal:
  assumes "validate_with ix policy = Ok ()" "servable ix good" "\<not> may_pull ix None bad"
  shows "expand_closure ix (good @ bad # rest) =
    Err (if bad \<in> names (ix_models ix) then Withdrawn bad
         else if ix_authenticated ix then NotInCatalogue bad None else NotOffered bad None)"
proof -
  obtain st where st: "try_fold (visit (Suc (length (ix_models ix))) ix Requested None) good closure_start = Ok st"
    using expand_closure_runs [of policy ix good] assms by (auto simp: validate_spec)
  have dist: "distinct (map im_name (ix_models ix))" using assms(1) by (simp add: validate_spec index_ok_def)
  have "visit (Suc (length (ix_models ix))) ix Requested None bad st =
    Err (if bad \<in> names (ix_models ix) then Withdrawn bad
         else if ix_authenticated ix then NotInCatalogue bad None else NotOffered bad None)"
  proof (cases "bad \<in> names (ix_models ix)")
    case True
    then obtain m where m: "m \<in> set (ix_models ix)" "im_name m = bad" by (auto simp: names_def)
    then have "im_withdrawn m" using assms(3) by (auto simp: may_pull_def)
    then show ?thesis using model_of_unique [OF dist m(1)] m(2) True by (simp add: visit.simps)
  next
    case False
    then have "model_of ix bad = None"
      by (auto simp: model_of_def find_None_iff names_def)
    then show ?thesis using False by (simp add: visit.simps)
  qed
  then show ?thesis using st by (simp add: expand_closure_def try_fold_append)
qed

theorem expand_closure_refusal_witness:
  "expand_closure sample_chain ([''a''] @ ''c'' # [''b'']) = Err (NotOffered ''c'' None)"
proof -
  have "servable sample_chain [''a'']" "\<not> may_pull sample_chain None ''c''"
    by (simp_all add: servable_def may_pull_def sample_chain_def)
  from expand_closure_refusal [OF sample_chain_ok this, of "[''b'']"] show ?thesis
    by (simp add: sample_chain_def names_def) (simp add: sample_index_def)
qed

section \<open>The server's load closure\<close>

text \<open>
  \<open>postvec-server/src/models.rs\<close>. The descriptor index maps a name to its descriptor paths;
  reading and parsing a descriptor file is the parameter \<open>read\<close>.
\<close>

record descriptor =
  de_name :: string
  de_enabled :: bool
  de_dependencies :: "string list"

definition MAX_DEPENDENCY_DEPTH :: nat where "MAX_DEPENDENCY_DEPTH = 32"

datatype load_error =
    TooDeep string
  | LoadCycle string
  | OverCeiling string
  | NoDescriptor string
  | MultipleBackends string
  | Unreadable string
  | NameMismatch string string
  | Deactivated string
  | DependsOnDeactivated string "string set"
  | LoadFuel

record load_state =
  ls_visiting :: "string set"
  ls_planned :: "string set"
  ls_disabled :: "string set"

type_synonym descriptor_index = "string \<rightharpoonup> string list"

fun load_visit ::
  "nat \<Rightarrow> (string \<Rightarrow> string + descriptor) \<Rightarrow> descriptor_index \<Rightarrow> nat \<Rightarrow> bool \<Rightarrow> nat
   \<Rightarrow> string \<Rightarrow> load_state \<Rightarrow> load_error + load_state" where
  "load_visit 0 read index depth is_root ceiling name st = Err LoadFuel"
| "load_visit (Suc fuel) read index depth is_root ceiling name st =
     (if name \<in> ls_planned st then Ok st
      else if depth > MAX_DEPENDENCY_DEPTH then Err (TooDeep name)
      else if name \<in> ls_visiting st then Err (LoadCycle name)
      else
        (let st = st\<lparr>ls_visiting := insert name (ls_visiting st)\<rparr> in
         if card (ls_visiting st) + card (ls_planned st) > ceiling then Err (OverCeiling name)
         else case index name of
           None \<Rightarrow> Err (NoDescriptor name)
         | Some paths \<Rightarrow>
             (case paths of
                [path] \<Rightarrow>
                  and_then (map_err Unreadable (read path)) (\<lambda>d.
                  if de_name d \<noteq> name then Err (NameMismatch path (de_name d))
                  else if is_root \<and> \<not> de_enabled d then Err (Deactivated name)
                  else
                    (let st = (if de_enabled d then st
                               else st\<lparr>ls_disabled := insert name (ls_disabled st)\<rparr>) in
                     and_then (try_fold (load_visit fuel read index (depth + 1) False ceiling)
                                 (de_dependencies d) st) (\<lambda>st.
                     Ok (st\<lparr>ls_visiting := ls_visiting st - {name},
                            ls_planned := insert name (ls_planned st)\<rparr>))))
              | _ \<Rightarrow> Err (MultipleBackends name))))"

declare load_visit.simps [simp del]

text \<open>The depth bound makes \<open>MAX_DEPENDENCY_DEPTH + 2\<close> units of fuel enough.\<close>

definition closure_of ::
  "(string \<Rightarrow> string + descriptor) \<Rightarrow> descriptor_index \<Rightarrow> string list \<Rightarrow> nat \<Rightarrow> load_error + load_state" where
  "closure_of read index roots ceiling =
     try_fold (load_visit (MAX_DEPENDENCY_DEPTH + 2) read index 0 True ceiling) roots
       \<lparr>ls_visiting = {}, ls_planned = {}, ls_disabled = {}\<rparr>"

text \<open>\<open>usize::MAX\<close> as the ceiling.\<close>

definition admin_load_closure ::
  "(string \<Rightarrow> string + descriptor) \<Rightarrow> descriptor_index \<Rightarrow> string \<Rightarrow> load_error + string set" where
  "admin_load_closure read index name =
     and_then (closure_of read index [name] (2 ^ 64 - 1)) (\<lambda>c.
       if ls_disabled c \<noteq> {} then Err (DependsOnDeactivated name (ls_disabled c))
       else Ok (ls_planned c))"

text \<open>The descriptor the engine would load under a name, if exactly one is readable and matches.\<close>

definition descriptor_of ::
  "(string \<Rightarrow> string + descriptor) \<Rightarrow> descriptor_index \<Rightarrow> string \<Rightarrow> descriptor option" where
  "descriptor_of read index name =
     (case index name of
        Some [path] \<Rightarrow> (case read path of Inr d \<Rightarrow> if de_name d = name then Some d else None | _ \<Rightarrow> None)
      | _ \<Rightarrow> None)"

definition load_inv ::
  "(string \<Rightarrow> string + descriptor) \<Rightarrow> descriptor_index \<Rightarrow> nat \<Rightarrow> load_state \<Rightarrow> bool" where
  "load_inv read index ceiling st \<longleftrightarrow>
     finite (ls_planned st) \<and> finite (ls_visiting st) \<and> ls_planned st \<inter> ls_visiting st = {} \<and>
     card (ls_visiting st) + card (ls_planned st) \<le> ceiling \<and>
     (\<forall>n \<in> ls_planned st. \<exists>d. descriptor_of read index n = Some d \<and>
        set (de_dependencies d) \<subseteq> ls_planned st \<and> (n \<in> ls_disabled st \<longleftrightarrow> \<not> de_enabled d)) \<and>
     ls_disabled st \<subseteq> ls_planned st \<union> ls_visiting st"

definition load_step ::
  "(string \<Rightarrow> string + descriptor) \<Rightarrow> descriptor_index \<Rightarrow> nat \<Rightarrow> string set \<Rightarrow> load_state \<Rightarrow> load_state \<Rightarrow> bool" where
  "load_step read index ceiling roots st st' \<longleftrightarrow>
     load_inv read index ceiling st' \<and> ls_visiting st' = ls_visiting st \<and>
     ls_planned st \<union> roots \<subseteq> ls_planned st' \<and>
     (\<forall>n \<in> ls_visiting st. n \<in> ls_disabled st' \<longleftrightarrow> n \<in> ls_disabled st)"

lemma load_fold:
  assumes "\<And>d s s'. d \<in> set ds \<Longrightarrow> load_inv read index ceiling s \<Longrightarrow> f d s = Ok s' \<Longrightarrow>
      load_step read index ceiling {d} s s'"
    and "load_inv read index ceiling st" "try_fold f ds st = Ok st'"
  shows "load_step read index ceiling (set ds) st st'"
  using assms
proof (induction ds arbitrary: st)
  case Nil
  then show ?case by (simp add: load_step_def)
next
  case (Cons d ds)
  then obtain s where s: "f d st = Ok s" "try_fold f ds s = Ok st'" by auto
  have one: "load_step read index ceiling {d} st s" using Cons(2) [of d st s] Cons(3) s(1) by simp
  have "load_inv read index ceiling s" using one by (simp add: load_step_def)
  then have "load_step read index ceiling (set ds) s st'"
    by (rule Cons(1) [rotated]) (use Cons(2) s(2) in auto)
  then show ?case using one unfolding load_step_def by auto
qed

lemma load_visit_sound:
  "load_visit fuel read index depth is_root ceiling name st = Ok st' \<Longrightarrow>
   load_inv read index ceiling st \<Longrightarrow> load_step read index ceiling {name} st st'"
proof (induction fuel arbitrary: depth is_root name st st')
  case (Suc fuel)
  show ?case
  proof (cases "name \<in> ls_planned st")
    case True
    then show ?thesis using Suc(2,3) by (simp add: load_visit.simps load_step_def)
  next
    case False
    let ?s0 = "st\<lparr>ls_visiting := insert name (ls_visiting st)\<rparr>"
    obtain path d where nv: "name \<notin> ls_visiting st"
      and room: "card (ls_visiting ?s0) + card (ls_planned st) \<le> ceiling"
      and path: "index name = Some [path]" "read path = Ok d" "de_name d = name"
      and run: "and_then (try_fold (load_visit fuel read index (depth + 1) False ceiling) (de_dependencies d)
            (if de_enabled d then ?s0 else ?s0\<lparr>ls_disabled := insert name (ls_disabled st)\<rparr>)) (\<lambda>st.
          Ok (st\<lparr>ls_visiting := ls_visiting st - {name}, ls_planned := insert name (ls_planned st)\<rparr>)) = Ok st'"
      using Suc(2) False
      by (auto simp: load_visit.simps Let_def split: if_splits option.splits list.splits)
    define s1 where "s1 = (if de_enabled d then ?s0 else ?s0\<lparr>ls_disabled := insert name (ls_disabled st)\<rparr>)"
    obtain s2 where s2: "try_fold (load_visit fuel read index (depth + 1) False ceiling) (de_dependencies d) s1 = Ok s2"
      and st': "st' = s2\<lparr>ls_visiting := ls_visiting s2 - {name}, ls_planned := insert name (ls_planned s2)\<rparr>"
      using run by (auto simp: s1_def)
    have s1: "ls_visiting s1 = insert name (ls_visiting st)" "ls_planned s1 = ls_planned st"
      "name \<in> ls_disabled s1 \<longleftrightarrow> \<not> de_enabled d" "\<And>n. n \<noteq> name \<Longrightarrow> n \<in> ls_disabled s1 \<longleftrightarrow> n \<in> ls_disabled st"
      using Suc(3) False nv by (auto simp: s1_def load_inv_def)
    have dis: "n \<in> ls_disabled s1 \<longleftrightarrow> n \<in> ls_disabled st" if "n \<in> ls_planned st" for n
      using s1(4) False that by metis
    have sub: "ls_disabled s1 \<subseteq> ls_planned st \<union> insert name (ls_visiting st)"
      using Suc(3) s1(4) unfolding load_inv_def by blast
    have inv1: "load_inv read index ceiling s1"
      using Suc(3) False room sub unfolding load_inv_def s1(1,2) by (simp add: dis)
    have step: "load_step read index ceiling (set (de_dependencies d)) s1 s2"
      using load_fold [OF _ inv1 s2] Suc(1) by blast
    have desc: "descriptor_of read index name = Some d" using path by (simp add: descriptor_of_def)
    have inv2: "load_inv read index ceiling s2" and v2: "ls_visiting s2 = insert name (ls_visiting st)"
      and p2: "ls_planned st \<union> set (de_dependencies d) \<subseteq> ls_planned s2"
      and d2: "\<forall>n \<in> insert name (ls_visiting st). n \<in> ls_disabled s2 \<longleftrightarrow> n \<in> ls_disabled s1"
      using step s1 by (auto simp: load_step_def)
    have "card (ls_visiting s2) = Suc (card (ls_visiting st))" "name \<notin> ls_planned s2"
      "finite (ls_visiting st)" "finite (ls_planned s2)"
      using inv2 v2 nv by (auto simp: load_inv_def)
    moreover have "\<forall>n \<in> ls_planned s2. \<exists>d. descriptor_of read index n = Some d \<and>
        set (de_dependencies d) \<subseteq> insert name (ls_planned s2) \<and> (n \<in> ls_disabled s2 \<longleftrightarrow> \<not> de_enabled d)"
      using inv2 unfolding load_inv_def by (meson subset_insertI2)
    moreover have "card (ls_visiting s2) + card (ls_planned s2) \<le> ceiling" "ls_planned s2 \<inter> ls_visiting s2 = {}"
      "ls_disabled s2 \<subseteq> ls_planned s2 \<union> ls_visiting s2"
      using inv2 by (simp_all add: load_inv_def)
    ultimately have "load_inv read index ceiling st'"
      using v2 nv desc p2 d2 s1(3) by (auto simp: load_inv_def st')
    moreover have "\<forall>n \<in> ls_visiting st. n \<in> ls_disabled st' \<longleftrightarrow> n \<in> ls_disabled st"
    proof
      fix n assume n: "n \<in> ls_visiting st"
      then have "n \<noteq> name" using nv by auto
      then show "n \<in> ls_disabled st' \<longleftrightarrow> n \<in> ls_disabled st" using d2 s1(4) n by (simp add: st')
    qed
    ultimately show ?thesis using p2 v2 nv unfolding load_step_def st' by auto
  qed
qed (simp add: load_visit.simps)

lemma load_visit_fuel:
  "MAX_DEPENDENCY_DEPTH + 2 \<le> fuel + depth \<Longrightarrow> 0 < fuel \<Longrightarrow>
   load_visit fuel read index depth is_root ceiling name st \<noteq> Err LoadFuel"
proof (induction fuel arbitrary: depth is_root name st)
  case (Suc fuel)
  have fold: "try_fold f ds s \<noteq> Err LoadFuel" if "\<And>d s. f d s \<noteq> Err LoadFuel"
    for f :: "string \<Rightarrow> load_state \<Rightarrow> load_error + load_state" and ds s
    using that by (induction ds arbitrary: s) (auto simp: and_then_eq_Err)
  have child: "load_visit fuel read index (depth + 1) False ceiling d s \<noteq> Err LoadFuel"
    if "depth \<le> MAX_DEPENDENCY_DEPTH" for d s
    using Suc(1) [of "depth + 1" False d s] Suc(2) that by (cases fuel) auto
  show ?case
    using fold [OF child]
    by (auto simp: load_visit.simps Let_def and_then_eq_Err map_err_def split: option.splits list.splits sum.splits)
qed simp

text \<open>
  The server's load closure. Whatever the descriptors on disk, cyclic ones included, the walk
  ends; and when it succeeds the plan holds every root, is closed under the dependencies of the
  descriptors it read (each of them the single, matching descriptor of its name), stays within the
  resident ceiling, and records exactly its deactivated members.
\<close>
theorem load_closure_sound:
  "closure_of read index roots ceiling \<noteq> Err LoadFuel \<and>
   (\<forall>c. closure_of read index roots ceiling = Ok c \<longrightarrow>
      set roots \<subseteq> ls_planned c \<and> card (ls_planned c) \<le> ceiling \<and> ls_visiting c = {} \<and>
      ls_disabled c \<subseteq> ls_planned c \<and>
      (\<forall>n \<in> ls_planned c. \<exists>d. descriptor_of read index n = Some d \<and>
         set (de_dependencies d) \<subseteq> ls_planned c \<and> (n \<in> ls_disabled c \<longleftrightarrow> \<not> de_enabled d)))"
proof -
  let ?st = "\<lparr>ls_visiting = {}, ls_planned = {}, ls_disabled = {}\<rparr>"
  let ?visit = "load_visit (MAX_DEPENDENCY_DEPTH + 2) read index 0 True ceiling"
  have fuel: "try_fold ?visit ds s \<noteq> Err LoadFuel" for ds s
    by (induction ds arbitrary: s)
       (auto simp: and_then_eq_Err load_visit_fuel [of "MAX_DEPENDENCY_DEPTH + 2" 0, simplified])
  have inv: "load_inv read index ceiling ?st" by (simp add: load_inv_def)
  have "load_step read index ceiling (set roots) ?st c" if "closure_of read index roots ceiling = Ok c" for c
    using load_fold [OF _ inv, of roots ?visit c] load_visit_sound that by (auto simp: closure_of_def)
  then show ?thesis
    using fuel unfolding load_step_def load_inv_def by (auto simp: closure_of_def)
qed

definition sample_read :: "string \<Rightarrow> string + descriptor" where
  "sample_read p =
     (if p = ''A'' then Ok \<lparr>de_name = ''a'', de_enabled = True, de_dependencies = [''b'']\<rparr>
      else Ok \<lparr>de_name = ''b'', de_enabled = False, de_dependencies = []\<rparr>)"

definition sample_paths :: descriptor_index where
  "sample_paths = [''a'' \<mapsto> [''A''], ''b'' \<mapsto> [''B'']]"

lemmas load_eval = closure_of_def load_visit.simps MAX_DEPENDENCY_DEPTH_def sample_read_def
  sample_paths_def Let_def eval_nat_numeral

theorem load_closure_sound_witness:
  "\<exists>c. closure_of sample_read sample_paths [''a''] 2 = Ok c \<and> card (ls_planned c) \<le> 2 \<and>
     set [''a''] \<subseteq> ls_planned c"
proof -
  have "\<exists>c. closure_of sample_read sample_paths [''a''] 2 = Ok c"
    by (simp add: load_eval)
  then show ?thesis
    using load_closure_sound [of sample_read sample_paths "[''a'']" 2] by blast
qed

text \<open>
  A deactivated root is refused or accepted depending on the order of the roots. Named first,
  the deactivated model is refused as a root; named after a root that depends on it, it has
  already been planned as a dependency and passes.
\<close>
theorem deactivated_root_order:
  "closure_of sample_read sample_paths [''b'', ''a''] 8 = Err (Deactivated ''b'') \<and>
   (\<exists>c. closure_of sample_read sample_paths [''a'', ''b''] 8 = Ok c \<and> ls_disabled c = {''b''})"
  by (simp add: load_eval)

section \<open>Unload order\<close>

definition depends :: "(string \<rightharpoonup> string list) \<Rightarrow> string \<Rightarrow> string \<Rightarrow> bool" where
  "depends deps a b \<longleftrightarrow> (case deps a of None \<Rightarrow> False | Some ds \<Rightarrow> b \<in> set ds)"

fun dedup_first :: "string list \<Rightarrow> string list \<Rightarrow> string list" where
  "dedup_first out [] = out"
| "dedup_first out (n # ns) = dedup_first (if n \<in> set out then out else out @ [n]) ns"

definition free_of :: "(string \<rightharpoonup> string list) \<Rightarrow> string list \<Rightarrow> string \<Rightarrow> bool" where
  "free_of deps remaining c \<longleftrightarrow> \<not> list_ex (\<lambda>other. other \<noteq> c \<and> depends deps other c) remaining"

text \<open>\<open>iter().position(..).unwrap_or(0)\<close>.\<close>

definition next_unload :: "(string \<rightharpoonup> string list) \<Rightarrow> string list \<Rightarrow> nat" where
  "next_unload deps remaining =
     (case List.find (\<lambda>i. free_of deps remaining (remaining ! i)) [0..<length remaining] of
        None \<Rightarrow> 0 | Some i \<Rightarrow> i)"

lemma next_unload_in: "remaining \<noteq> [] \<Longrightarrow> next_unload deps remaining < length remaining"
  by (auto simp: next_unload_def find_Some_iff split: option.splits)

function unload_loop :: "(string \<rightharpoonup> string list) \<Rightarrow> string list \<Rightarrow> string list" where
  "unload_loop deps remaining =
     (if remaining = [] then []
      else let i = next_unload deps remaining in
           remaining ! i # unload_loop deps (take i remaining @ drop (Suc i) remaining))"
  by pat_completeness auto
termination
proof (relation "measure (\<lambda>(deps, r). length r)")
  fix deps and remaining :: "string list" and i
  assume "remaining \<noteq> []" "i = next_unload deps remaining"
  then have "i < length remaining" using next_unload_in by simp
  then show "((deps, take i remaining @ drop (Suc i) remaining), deps, remaining)
      \<in> measure (\<lambda>(deps, r). length r)" by simp
qed simp

declare unload_loop.simps [simp del]

definition reverse_dependency_order :: "string list \<Rightarrow> (string \<rightharpoonup> string list) \<Rightarrow> string list" where
  "reverse_dependency_order ns deps = unload_loop deps (dedup_first [] ns)"

lemma dedup_first_set: "set (dedup_first out ns) = set out \<union> set ns"
  by (induction out ns rule: dedup_first.induct) auto

lemma dedup_first_distinct: "distinct out \<Longrightarrow> distinct (dedup_first out ns)"
  by (induction out ns rule: dedup_first.induct) auto

lemma remove_nth:
  assumes "i < length xs" "distinct xs"
  shows "set (take i xs @ drop (Suc i) xs) = set xs - {xs ! i}" "distinct (take i xs @ drop (Suc i) xs)"
proof -
  have xs: "xs = take i xs @ xs ! i # drop (Suc i) xs" using assms(1) by (rule id_take_nth_drop)
  then have "distinct (take i xs @ xs ! i # drop (Suc i) xs)" using assms(2) by simp
  then show "distinct (take i xs @ drop (Suc i) xs)" "set (take i xs @ drop (Suc i) xs) = set xs - {xs ! i}"
    by (auto simp: arg_cong [OF xs, of set])
qed

lemma unload_loop_set: "distinct r \<Longrightarrow> set (unload_loop deps r) = set r \<and> distinct (unload_loop deps r)"
proof (induction deps r rule: unload_loop.induct)
  case (1 deps r)
  show ?case
  proof (cases "r = []")
    case False
    note i = next_unload_in [OF False, of deps]
    note rest = remove_nth [OF i 1(2)]
    have "set (unload_loop deps (take (next_unload deps r) r @ drop (Suc (next_unload deps r)) r))
        = set r - {r ! next_unload deps r} \<and>
      distinct (unload_loop deps (take (next_unload deps r) r @ drop (Suc (next_unload deps r)) r))"
      using 1(1) [OF False refl rest(2)] rest(1) by simp
    moreover have "r ! next_unload deps r \<in> set r" using i by simp
    ultimately show ?thesis using False by (subst (1 2) unload_loop.simps) (auto simp: Let_def)
  qed (simp add: unload_loop.simps)
qed

definition dep_edges :: "(string \<rightharpoonup> string list) \<Rightarrow> string set \<Rightarrow> (string \<times> string) set" where
  "dep_edges deps S = {(a, b). a \<in> S \<and> b \<in> S \<and> a \<noteq> b \<and> depends deps a b}"

lemma next_unload_free:
  assumes "acyclic (dep_edges deps (set r))" "r \<noteq> []"
  shows "free_of deps r (r ! next_unload deps r)"
proof -
  have "finite (dep_edges deps (set r))"
    by (rule finite_subset [of _ "set r \<times> set r"]) (auto simp: dep_edges_def)
  then have "wf (dep_edges deps (set r))" using assms(1) finite_acyclic_wf by blast
  then obtain c where c: "c \<in> set r" "\<And>b. (b, c) \<in> dep_edges deps (set r) \<Longrightarrow> b \<notin> set r"
    using wfE_min [of "dep_edges deps (set r)" "hd r" "set r"] assms(2) by (metis hd_in_set)
  then have "free_of deps r c" unfolding free_of_def list_ex_iff dep_edges_def by blast
  then have "\<exists>i < length r. free_of deps r (r ! i)" using c(1) by (metis in_set_conv_nth)
  then have "List.find (\<lambda>i. free_of deps r (r ! i)) [0..<length r] \<noteq> None"
    by (auto simp: find_None_iff)
  then obtain i where i: "List.find (\<lambda>i. free_of deps r (r ! i)) [0..<length r] = Some i" by blast
  then have "free_of deps r (r ! i)" by (auto simp: find_Some_iff)
  then show ?thesis using i by (simp add: next_unload_def)
qed

lemma unload_loop_order:
  "distinct r \<Longrightarrow> acyclic (dep_edges deps (set r)) \<Longrightarrow>
   sorted_wrt (\<lambda>a b. \<not> depends deps b a) (unload_loop deps r)"
proof (induction deps r rule: unload_loop.induct)
  case (1 deps r)
  show ?case
  proof (cases "r = []")
    case False
    let ?i = "next_unload deps r"
    let ?rest = "take ?i r @ drop (Suc ?i) r"
    note rest = remove_nth [OF next_unload_in [OF False] 1(2)]
    have "acyclic (dep_edges deps (set ?rest))"
      using 1(3) by (rule acyclic_subset) (unfold rest(1), auto simp: dep_edges_def)
    then have ih: "sorted_wrt (\<lambda>a b. \<not> depends deps b a) (unload_loop deps ?rest)"
      using 1(1) [OF False refl rest(2)] by simp
    have "\<not> depends deps b (r ! ?i)" if "b \<in> set (unload_loop deps ?rest)" for b
    proof -
      have "b \<in> set r - {r ! ?i}" using that unload_loop_set [OF rest(2)] unfolding rest(1) by blast
      then show ?thesis
        using next_unload_free [OF 1(3) False] by (auto simp: free_of_def list_ex_iff)
    qed
    then show ?thesis using False ih by (subst unload_loop.simps) (simp add: Let_def)
  qed (simp add: unload_loop.simps)
qed

text \<open>
  Unload order. The unload order lists every requested name exactly once, whatever the
  dependency map; and when the dependencies among the requested names are acyclic, no name is
  unloaded before another one that depends on it.
\<close>
theorem reverse_dependency_order_correct:
  "set (reverse_dependency_order ns deps) = set ns \<and> distinct (reverse_dependency_order ns deps) \<and>
   (acyclic (dep_edges deps (set ns)) \<longrightarrow>
      sorted_wrt (\<lambda>a b. \<not> depends deps b a) (reverse_dependency_order ns deps))"
  using unload_loop_set [of "dedup_first [] ns" deps] unload_loop_order [of "dedup_first [] ns" deps]
    dedup_first_distinct [of "[]" ns] dedup_first_set [of "[]" ns]
  by (simp add: reverse_dependency_order_def)

theorem reverse_dependency_order_correct_witness:
  "sorted_wrt (\<lambda>a b. \<not> depends [''c'' \<mapsto> [''b'']] b a)
     (reverse_dependency_order [''b'', ''c'', ''b''] [''c'' \<mapsto> [''b'']])"
proof -
  have "dep_edges [''c'' \<mapsto> [''b'']] (set [''b'', ''c'', ''b'']) = {(''c'', ''b'')}"
    by (auto simp: dep_edges_def depends_def split: if_splits)
  then have "acyclic (dep_edges [''c'' \<mapsto> [''b'']] (set [''b'', ''c'', ''b'']))"
    by (simp add: acyclic_insert) (simp add: acyclic_def)
  then show ?thesis using reverse_dependency_order_correct by blast
qed

section \<open>Walks over the installed models\<close>

text \<open>\<open>registry/client/src/root.rs\<close>; the fields the walks read.\<close>

record receipt_deps =
  rd_dependencies :: "string list"
  rd_postvec_requires :: "string list"

record installed_model =
  in_dir_name :: string
  in_enabled :: bool
  in_dependencies :: "string list"
  in_receipt :: "receipt_deps option"

text \<open>\<open>collect\<close> into a \<open>BTreeMap\<close>: the last entry of a name wins.\<close>

definition by_dir_name :: "installed_model list \<Rightarrow> string \<rightharpoonup> installed_model" where
  "by_dir_name inventory = map_of (rev (map (\<lambda>m. (in_dir_name m, m)) inventory))"

fun enable_visit ::
  "nat \<Rightarrow> (string \<rightharpoonup> installed_model) \<Rightarrow> nat \<Rightarrow> string \<Rightarrow> string set \<times> string list \<Rightarrow> string set \<times> string list"
where
  "enable_visit 0 by_name depth name st = st"
| "enable_visit (Suc fuel) by_name depth name (visited, ordered) =
     (if depth > 32 \<or> name \<in> visited then (visited, ordered)
      else case by_name name of
        None \<Rightarrow> (insert name visited, ordered)
      | Some m \<Rightarrow>
          (case fold (enable_visit fuel by_name (depth + 1)) (in_dependencies m) (insert name visited, ordered) of
             (visited, ordered) \<Rightarrow>
               (visited, if in_enabled m then ordered else ordered @ [name])))"

text \<open>A call at depth 33 returns at once, so 34 units of fuel are enough.\<close>

definition disabled_closure_to_enable :: "installed_model list \<Rightarrow> string list \<Rightarrow> string list" where
  "disabled_closure_to_enable inventory ns =
     snd (fold (enable_visit 34 (by_dir_name inventory) 0) ns ({}, []))"

definition enabled_dependants :: "installed_model list \<Rightarrow> string \<Rightarrow> string list \<Rightarrow> string list" where
  "enabled_dependants inventory name exempt =
     map in_dir_name
       (filter (\<lambda>other. name \<in> set (in_dependencies other) \<or>
            (case in_receipt other of
               None \<Rightarrow> False
             | Some r \<Rightarrow> name \<in> set (rd_dependencies r) \<or> name \<in> set (rd_postvec_requires r)))
         (filter in_enabled
           (filter (\<lambda>other. in_dir_name other \<noteq> name \<and> in_dir_name other \<notin> set exempt) inventory)))"

definition enable_inv :: "(string \<rightharpoonup> installed_model) \<Rightarrow> string set \<times> string list \<Rightarrow> bool" where
  "enable_inv by_name st \<longleftrightarrow>
     distinct (snd st) \<and> set (snd st) \<subseteq> fst st \<and>
     (\<forall>n \<in> set (snd st). \<exists>m. by_name n = Some m \<and> \<not> in_enabled m)"

text \<open>Nothing is enabled twice, and a name pushed by the walk was not visited before it.\<close>

definition enable_step :: "(string \<rightharpoonup> installed_model) \<Rightarrow> string set \<times> string list \<Rightarrow> string set \<times> string list \<Rightarrow> bool" where
  "enable_step by_name st st' \<longleftrightarrow>
     enable_inv by_name st' \<and> fst st \<subseteq> fst st' \<and>
     (\<exists>new. snd st' = snd st @ new \<and> set new \<inter> fst st = {})"

lemma enable_step_trans:
  "enable_step by_name s t \<Longrightarrow> enable_step by_name t u \<Longrightarrow> enable_step by_name s u"
  unfolding enable_step_def by fastforce

lemma enable_fold:
  assumes "\<And>d s. d \<in> set ds \<Longrightarrow> enable_inv by_name s \<Longrightarrow> enable_step by_name s (f d s)" "enable_inv by_name st"
  shows "enable_step by_name st (fold f ds st)"
  using assms
proof (induction ds arbitrary: st)
  case (Cons d ds)
  have one: "enable_step by_name st (f d st)" using Cons(2,3) by simp
  then have "enable_step by_name (f d st) (fold f ds (f d st))"
    using Cons by (auto simp: enable_step_def)
  then show ?case using enable_step_trans [OF one] by simp
qed (simp add: enable_step_def)

lemma enable_visit_step:
  "enable_inv by_name st \<Longrightarrow> enable_step by_name st (enable_visit fuel by_name depth name st)"
proof (induction fuel arbitrary: depth name st)
  case 0
  then show ?case by (simp add: enable_step_def)
next
  case (Suc fuel)
  obtain visited ordered where st: "st = (visited, ordered)" by (cases st)
  show ?case
  proof (cases "depth > 32 \<or> name \<in> visited \<or> by_name name = None")
    case True
    then show ?thesis
      using Suc(2) by (auto simp: st enable_step_def enable_inv_def split: option.splits)
  next
    case False
    then obtain m where m: "by_name name = Some m" by blast
    have "enable_inv by_name (insert name visited, ordered)" using Suc(2) st by (auto simp: enable_inv_def)
    note step = enable_fold [of "in_dependencies m" by_name "enable_visit fuel by_name (depth + 1)",
        OF Suc(1) this]
    obtain v o2 where vo: "fold (enable_visit fuel by_name (depth + 1)) (in_dependencies m)
        (insert name visited, ordered) = (v, o2)" by fastforce
    then have v: "enable_inv by_name (v, o2)" "insert name visited \<subseteq> v"
      "\<exists>new. o2 = ordered @ new \<and> set new \<inter> insert name visited = {}"
      using step by (auto simp: enable_step_def)
    have "name \<notin> set o2" using v(3) False Suc(2) st by (auto simp: enable_inv_def)
    then show ?thesis using v m False vo by (auto simp: st enable_step_def enable_inv_def)
  qed
qed

text \<open>
  Activation enables each model once. The names to enable are pairwise different, and each is
  an installed model that is currently deactivated, whatever cycles the installed dependency
  lists contain.
\<close>
lemma disabled_closure_sound:
  "distinct (disabled_closure_to_enable inventory ns) \<and>
   (\<forall>n \<in> set (disabled_closure_to_enable inventory ns).
      \<exists>m \<in> set inventory. in_dir_name m = n \<and> \<not> in_enabled m)"
proof -
  let ?b = "by_dir_name inventory"
  have "enable_step ?b ({}, []) (fold (enable_visit 34 ?b 0) ns ({}, []))"
    by (rule enable_fold) (auto intro: enable_visit_step simp: enable_inv_def)
  then have inv: "enable_inv ?b (fold (enable_visit 34 ?b 0) ns ({}, []))" by (simp add: enable_step_def)
  have "m \<in> set inventory \<and> in_dir_name m = n" if "?b n = Some m" for n m
    using that by (auto simp: by_dir_name_def dest!: map_of_SomeD)
  then show ?thesis
    using inv unfolding enable_inv_def disabled_closure_to_enable_def by blast
qed

definition sample_inventory :: "installed_model list" where
  "sample_inventory =
     [\<lparr>in_dir_name = ''a'', in_enabled = False, in_dependencies = [''b''], in_receipt = None\<rparr>,
      \<lparr>in_dir_name = ''b'', in_enabled = False, in_dependencies = [''a''], in_receipt = None\<rparr>]"

end
