(* ===== verification/Queue.thy ===== *)
theory Queue
  imports Templates "HOL-Library.Product_Lexorder"
begin

text \<open>
  The job table of \<open>postvec/src/jobs.rs\<close>: claiming, release, dead-lettering, recovery of stale
  claims and of failed write-backs, and the state they share with the registry and the live
  migrations (\<open>quarantine_entry\<close>, \<open>fail_migration\<close>).

  A table is the list of its rows; \<open>db_next\<close> is the identity sequence of \<open>postvec.jobs\<close>. Every
  operation runs in one transaction, whose \<open>now()\<close> is the parameter \<open>now\<close>. Times and delays are
  integers in microseconds, the resolution of \<open>timestamptz\<close>. Where SQL leaves the order of rows
  open (the order in which several released rows receive their fresh ids), rows keep table order.
  The catalogue, the rows locked by other sessions and the contents of user tables are parameters.
\<close>

section \<open>Tables\<close>

datatype job_op = EmbedOp | RefreshOp

record job =
  jb_id :: int
  jb_registry :: int
  jb_pk :: string
  jb_op :: job_op
  jb_chunk :: "int option"
  jb_attempts :: int
  jb_not_before :: int
  jb_claimed :: "int option"
  jb_error :: "string option"
  jb_created :: int

record migration =
  mg_id :: int
  mg_registry :: int
  mg_new_model :: string
  mg_new_column :: string
  mg_new_dim :: int
  mg_space :: "string option"
  mg_state :: string
  mg_error :: "string option"
  mg_old_model :: string
  mg_old_dim :: int
  mg_kind :: string
  mg_via :: "string option"
  mg_reindex :: string
  mg_rows_done :: int
  mg_rows_skipped :: int
  mg_last_pk :: "string option"
  mg_retry_failures :: nat
  mg_not_before :: int

text \<open>What a transaction does to user tables is kept as the list of its statements.\<close>

datatype table_write =
    NullVectors int "string list" "string list"
  | WriteVectors int string "(string \<times> string) list"
  | WriteChunkVectors int string "(int \<times> string \<times> string) list"
  | Notify int
  | Teardown int
  | DropColumns int "string list"
  | DropDestination int

record db =
  db_jobs :: "job list"
  db_dead :: "job list"
  db_next :: int
  db_registry :: "registry_entry list"
  db_migrations :: "migration list"
  db_cursor :: int
  db_writes :: "table_write list"

type_synonym job_key = "int \<times> job_op \<times> string \<times> int option"

definition job_key :: "job \<Rightarrow> job_key" where
  "job_key j = (jb_registry j, jb_op j, jb_pk j, jb_chunk j)"

definition is_pending :: "job \<Rightarrow> bool" where
  "is_pending j \<longleftrightarrow> jb_claimed j = None"

definition pending_keys :: "job list \<Rightarrow> job_key list" where
  "pending_keys js = map job_key (filter is_pending js)"

definition load_entry :: "int \<Rightarrow> db \<Rightarrow> registry_entry option" where
  "load_entry i d = find (\<lambda>e. re_id e = i) (db_registry d)"

text \<open>\<open>left(err, 1024)\<close> counts characters, not bytes.\<close>

fun left_chars :: "nat \<Rightarrow> string \<Rightarrow> string" where
  "left_chars n [] = []"
| "left_chars n (c # cs) =
     (if utf8_cont c then c # left_chars n cs
      else case n of 0 \<Rightarrow> [] | Suc m \<Rightarrow> c # left_chars m cs)"

section \<open>Finishing, dead-lettering and releasing jobs\<close>

definition has_id :: "int list \<Rightarrow> job \<Rightarrow> bool" where
  "has_id ids j \<longleftrightarrow> jb_id j \<in> set ids"

definition delete_jobs :: "int list \<Rightarrow> db \<Rightarrow> db" where
  "delete_jobs ids d =
     (if ids = [] then d else d\<lparr>db_jobs := filter (\<lambda>j. \<not> has_id ids j) (db_jobs d)\<rparr>)"

definition move_to_dead :: "int list \<Rightarrow> string \<Rightarrow> db \<Rightarrow> db" where
  "move_to_dead ids err d =
     (if ids = [] then d
      else d\<lparr>db_dead := db_dead d @ map (\<lambda>j. j\<lparr>jb_error := Some (left_chars 1024 err)\<rparr>)
                                     (filter (has_id ids) (db_jobs d)),
             db_jobs := filter (\<lambda>j. \<not> has_id ids j) (db_jobs d)\<rparr>)"

text \<open>
  \<open>INSERT ... ON CONFLICT DO NOTHING\<close> against the partial unique index on pending rows. A skipped
  row has used up its value of the sequence all the same.
\<close>

definition insert_pending :: "job \<Rightarrow> db \<Rightarrow> db" where
  "insert_pending row d =
     (let d' = d\<lparr>db_next := db_next d + 1\<rparr> in
      if job_key row \<in> set (pending_keys (db_jobs d)) then d'
      else d'\<lparr>db_jobs := db_jobs d @ [row\<lparr>jb_id := db_next d\<rparr>]\<rparr>)"

definition release_row :: "int \<Rightarrow> int \<Rightarrow> string \<Rightarrow> bool \<Rightarrow> bool \<Rightarrow> job \<Rightarrow> job" where
  "release_row now delay err keep_prior_error refund_attempt j =
     j\<lparr>jb_attempts := (if refund_attempt then max (jb_attempts j - 1) 0 else jb_attempts j),
       jb_not_before := now + delay,
       jb_claimed := None,
       jb_error := (if keep_prior_error
                    then (case jb_error j of Some e \<Rightarrow> Some e | None \<Rightarrow> Some (left_chars 1024 err))
                    else Some (left_chars 1024 err))\<rparr>"

definition newest_of_key :: "job list \<Rightarrow> job list" where
  "newest_of_key released =
     filter (\<lambda>j. list_all (\<lambda>k. job_key k = job_key j \<longrightarrow> jb_id k \<le> jb_id j) released) released"

definition unclaim_jobs_inner :: "int \<Rightarrow> int list \<Rightarrow> int \<Rightarrow> string \<Rightarrow> bool \<Rightarrow> bool \<Rightarrow> db \<Rightarrow> db" where
  "unclaim_jobs_inner now ids delay err keep_prior_error refund_attempt d =
     (if ids = [] then d
      else let released = filter (has_id ids) (db_jobs d) in
           fold insert_pending
             (map (release_row now delay err keep_prior_error refund_attempt) (newest_of_key released))
             (d\<lparr>db_jobs := filter (\<lambda>j. \<not> has_id ids j) (db_jobs d)\<rparr>))"

definition unclaim_jobs :: "int \<Rightarrow> int list \<Rightarrow> int \<Rightarrow> string \<Rightarrow> bool \<Rightarrow> db \<Rightarrow> db" where
  "unclaim_jobs now ids delay err keep_prior_error d =
     unclaim_jobs_inner now ids delay err keep_prior_error False d"

definition defer_jobs :: "int \<Rightarrow> int list \<Rightarrow> db \<Rightarrow> db" where
  "defer_jobs now ids d =
     unclaim_jobs_inner now ids 0 ''deferred: batch byte budget reached'' True True d"

definition backoff_delay :: "int \<Rightarrow> int \<Rightarrow> int" where
  "backoff_delay backoff_ms attempts = backoff_ms * 1000 * 2 ^ nat (min (max attempts 0) 10)"

definition retry_job :: "int \<Rightarrow> int \<Rightarrow> int \<Rightarrow> string \<Rightarrow> int \<Rightarrow> db \<Rightarrow> db" where
  "retry_job now job_id attempts err backoff_ms d =
     unclaim_jobs now [job_id] (backoff_delay backoff_ms attempts) err False d"

record applied =
  ap_done :: int
  ap_nulled :: int
  ap_retried :: int
  ap_dead :: int

definition no_applied :: applied where
  "no_applied = \<lparr>ap_done = 0, ap_nulled = 0, ap_retried = 0, ap_dead = 0\<rparr>"

definition release_failed_group ::
  "int \<Rightarrow> int list \<Rightarrow> int \<Rightarrow> int \<Rightarrow> string \<Rightarrow> db \<Rightarrow> applied \<times> db" where
  "release_failed_group now ids max_retries backoff_ms err d =
     (if ids = [] then (no_applied, d)
      else
        let t = filter (has_id ids) (db_jobs d);
            exhausted = map jb_id (filter (\<lambda>j. jb_attempts j > max_retries) t);
            rest = filter (\<lambda>j. \<not> jb_attempts j > max_retries) t;
            max_attempts = fold (\<lambda>j m. max m (jb_attempts j)) rest 0;
            d = move_to_dead exhausted (''write-back failed; retries exhausted: '' @ err) d;
            d = unclaim_jobs now (map jb_id rest) (backoff_delay (max backoff_ms 0) max_attempts)
                  (''write-back failed: '' @ err) False d
        in (no_applied\<lparr>ap_dead := int (length exhausted), ap_retried := int (length rest)\<rparr>, d))"

section \<open>Quarantine and failed migrations\<close>

definition is_live_state :: "string \<Rightarrow> bool" where
  "is_live_state s \<longleftrightarrow> s = ''running'' \<or> s = ''awaiting_finalize''"

definition quarantine_entry :: "registry_entry \<Rightarrow> string \<Rightarrow> db \<Rightarrow> db" where
  "quarantine_entry entry reason d =
     d\<lparr>db_writes := db_writes d @ [Teardown (re_id entry)],
       db_jobs := filter (\<lambda>j. jb_registry j \<noteq> re_id entry) (db_jobs d),
       db_migrations := map (\<lambda>m. if mg_registry m = re_id entry \<and> is_live_state (mg_state m)
                                 then m\<lparr>mg_state := ''failed'', mg_error := Some reason\<rparr> else m)
                          (db_migrations d),
       db_registry := map (\<lambda>e. if re_id e = re_id entry then e\<lparr>re_state := ''disabled''\<rparr> else e)
                        (db_registry d)\<rparr>"

definition fail_migration :: "int \<Rightarrow> string \<Rightarrow> db \<Rightarrow> db" where
  "fail_migration migration_id msg d =
     d\<lparr>db_migrations := map (\<lambda>m. if mg_id m = migration_id \<and> mg_state m = ''running''
                                 then m\<lparr>mg_state := ''failed'', mg_error := Some msg\<rparr> else m)
                          (db_migrations d)\<rparr>"

section \<open>Claiming\<close>

definition is_stale :: "int \<Rightarrow> int \<Rightarrow> job \<Rightarrow> bool" where
  "is_stale now vis j = (case jb_claimed j of None \<Rightarrow> False | Some t \<Rightarrow> t < now - vis)"

definition stale_ids :: "int \<Rightarrow> int \<Rightarrow> int list \<Rightarrow> (job \<Rightarrow> bool) \<Rightarrow> db \<Rightarrow> int list" where
  "stale_ids now vis registry_ids extra d =
     map jb_id (filter (\<lambda>j. is_stale now vis j \<and> jb_registry j \<in> set registry_ids \<and> extra j) (db_jobs d))"

definition reclaim_stale :: "int \<Rightarrow> int \<Rightarrow> int \<Rightarrow> int list \<Rightarrow> db \<Rightarrow> db" where
  "reclaim_stale now vis max_retries registry_ids d =
     (if registry_ids = [] then d
      else if stale_ids now vis registry_ids (\<lambda>_. True) d = [] then d
      else
        let d = move_to_dead (stale_ids now vis registry_ids (\<lambda>j. jb_attempts j > max_retries) d)
                  ''visibility timeout expired with attempts exhausted (worker crash mid-batch?)'' d
        in unclaim_jobs now (stale_ids now vis registry_ids (\<lambda>_. True) d) 0
             ''visibility timeout expired; reclaimed'' True d)"

definition is_due :: "int \<Rightarrow> job \<Rightarrow> bool" where
  "is_due now j \<longleftrightarrow> is_pending j \<and> jb_not_before j \<le> now \<and> jb_op j = EmbedOp"

definition min_registry :: "int list \<Rightarrow> int option" where
  "min_registry rs = (case rs of [] \<Rightarrow> None | r # rs \<Rightarrow> Some (fold min rs r))"

text \<open>The round-robin choice: the next entry with due work after the cursor, wrapping around.\<close>

definition next_claim_entry :: "int \<Rightarrow> int \<Rightarrow> job list \<Rightarrow> int option" where
  "next_claim_entry now cursor js =
     (let due = map jb_registry (filter (is_due now) js) in
      case min_registry (filter (\<lambda>r. r > cursor) due) of
        Some r \<Rightarrow> Some r
      | None \<Rightarrow> min_registry due)"

definition claim_candidates :: "int \<Rightarrow> int \<Rightarrow> nat \<Rightarrow> db \<Rightarrow> int list" where
  "claim_candidates now vis batch d =
     sort (remdups
       ((case next_claim_entry now (db_cursor d) (db_jobs d) of None \<Rightarrow> [] | Some r \<Rightarrow> [r]) @
        map jb_registry (take batch
          (sort_key (\<lambda>j. (case jb_claimed j of None \<Rightarrow> 0 | Some t \<Rightarrow> t, jb_id j))
             (filter (is_stale now vis) (db_jobs d))))))"

fun prepare_entries ::
  "(registry_entry \<Rightarrow> string list \<Rightarrow> string option) \<Rightarrow> int list \<Rightarrow> db \<Rightarrow> int list \<times> db" where
  "prepare_entries missing [] d = ([], d)"
| "prepare_entries missing (i # ids) d =
     (case load_entry i d of
        None \<Rightarrow> (case prepare_entries missing ids d of (prepared, d) \<Rightarrow> (i # prepared, d))
      | Some entry \<Rightarrow>
          if re_state entry = ''disabled''
          then (case prepare_entries missing ids d of (prepared, d) \<Rightarrow> (i # prepared, d))
          else (case missing entry [] of
                  Some reason \<Rightarrow> prepare_entries missing ids (quarantine_entry entry reason d)
                | None \<Rightarrow> (case prepare_entries missing ids d of (prepared, d) \<Rightarrow> (i # prepared, d))))"

definition prepare_claim_entries ::
  "(registry_entry \<Rightarrow> string list \<Rightarrow> string option) \<Rightarrow> int \<Rightarrow> int \<Rightarrow> nat \<Rightarrow> db \<Rightarrow> int list \<times> db" where
  "prepare_claim_entries missing now vis batch d =
     (let ids = claim_candidates now vis batch d;
          d = (if ids = [] then d else d\<lparr>db_cursor := last ids\<rparr>)
      in prepare_entries missing ids d)"

text \<open>
  A claimed row is the job row as the claim left it. \<open>locked\<close> are the rows \<open>SKIP LOCKED\<close> passes over.
\<close>

definition due_order :: "int \<Rightarrow> (int \<Rightarrow> bool) \<Rightarrow> int list \<Rightarrow> job list \<Rightarrow> job list" where
  "due_order now locked registry_ids js =
     sort_key (\<lambda>j. (jb_not_before j, jb_id j))
       (filter (\<lambda>j. is_due now j \<and> jb_registry j \<in> set registry_ids \<and> \<not> locked (jb_id j)) js)"

definition claim_row :: "int \<Rightarrow> job \<Rightarrow> job" where
  "claim_row now j = j\<lparr>jb_claimed := Some now, jb_attempts := jb_attempts j + 1\<rparr>"

definition claim_due :: "int \<Rightarrow> (int \<Rightarrow> bool) \<Rightarrow> nat \<Rightarrow> int list \<Rightarrow> db \<Rightarrow> job list \<times> db" where
  "claim_due now locked batch registry_ids d =
     (let picked = take batch (due_order now locked registry_ids (db_jobs d));
          ids = map jb_id picked
      in (map (claim_row now) picked,
          d\<lparr>db_jobs := map (\<lambda>j. if has_id ids j then claim_row now j else j) (db_jobs d)\<rparr>))"

definition claim_batch ::
  "(registry_entry \<Rightarrow> string list \<Rightarrow> string option) \<Rightarrow> int \<Rightarrow> (int \<Rightarrow> bool) \<Rightarrow> int \<Rightarrow> int \<Rightarrow> nat
   \<Rightarrow> db \<Rightarrow> job list \<times> db" where
  "claim_batch missing now locked vis max_retries batch d =
     (case prepare_claim_entries missing now vis batch d of
        (registry_ids, d) \<Rightarrow>
          if registry_ids = [] then ([], d)
          else claim_due now locked batch registry_ids (reclaim_stale now vis max_retries registry_ids d))"

section \<open>The table invariant\<close>

definition queue_inv :: "db \<Rightarrow> bool" where
  "queue_inv d \<longleftrightarrow> distinct (map jb_id (db_jobs d)) \<and> list_all (\<lambda>j. jb_id j < db_next d) (db_jobs d) \<and>
     distinct (pending_keys (db_jobs d))"

lemma queue_invD:
  assumes "queue_inv d"
  shows "distinct (map jb_id (db_jobs d))" "\<And>j. j \<in> set (db_jobs d) \<Longrightarrow> jb_id j < db_next d"
    "distinct (pending_keys (db_jobs d))"
  using assms by (auto simp: queue_inv_def list_all_iff)

lemma job_by_id:
  assumes "queue_inv d" "j \<in> set (db_jobs d)" "k \<in> set (db_jobs d)" "jb_id j = jb_id k"
  shows "j = k"
  using queue_invD(1) [OF assms(1)] assms(2-4) by (auto simp: distinct_map dest: inj_onD)

lemma pending_keys_iff: "k \<in> set (pending_keys js) \<longleftrightarrow> (\<exists>j \<in> set js. is_pending j \<and> job_key j = k)"
  by (auto simp: pending_keys_def)

lemma distinct_map_filter_sub: "distinct (map f xs) \<Longrightarrow> distinct (map f (filter P xs))"
  by (induction xs) auto

lemma queue_inv_filter:
  assumes "queue_inv d" shows "queue_inv (d\<lparr>db_jobs := filter P (db_jobs d)\<rparr>)"
proof -
  have "pending_keys (filter P (db_jobs d)) = map job_key (filter P (filter is_pending (db_jobs d)))"
    by (simp add: pending_keys_def conj_commute)
  then have "distinct (pending_keys (filter P (db_jobs d)))"
    using queue_invD(3) [OF assms] distinct_map_filter_sub unfolding pending_keys_def by metis
  then show ?thesis using assms
    by (auto simp: queue_inv_def list_all_iff distinct_map_filter_sub)
qed

lemma queue_inv_other [simp]:
  "queue_inv (d\<lparr>db_dead := x\<rparr>) = queue_inv d" "queue_inv (d\<lparr>db_registry := r\<rparr>) = queue_inv d"
  "queue_inv (d\<lparr>db_migrations := m\<rparr>) = queue_inv d" "queue_inv (d\<lparr>db_cursor := c\<rparr>) = queue_inv d"
  "queue_inv (d\<lparr>db_writes := w\<rparr>) = queue_inv d"
  by (simp_all add: queue_inv_def)

section \<open>The contract of every operation that takes jobs out of a claim\<close>

definition same_context :: "db \<Rightarrow> db \<Rightarrow> bool" where
  "same_context d d' \<longleftrightarrow> db_registry d' = db_registry d \<and> db_migrations d' = db_migrations d \<and>
     db_cursor d' = db_cursor d \<and> db_writes d' = db_writes d"

definition re_queued :: "int list \<Rightarrow> db \<Rightarrow> job \<Rightarrow> bool" where
  "re_queued ids d j \<longleftrightarrow> db_next d \<le> jb_id j \<and> is_pending j \<and>
     (\<exists>i \<in> set (db_jobs d). has_id ids i \<and> job_key i = job_key j)"

definition disposes :: "int list \<Rightarrow> db \<Rightarrow> db \<Rightarrow> bool" where
  "disposes ids d d' \<longleftrightarrow> queue_inv d' \<and>
     (\<forall>j \<in> set (db_jobs d). \<not> has_id ids j \<longrightarrow> j \<in> set (db_jobs d')) \<and>
     (\<forall>j \<in> set (db_jobs d'). j \<in> set (db_jobs d) \<and> \<not> has_id ids j \<or> re_queued ids d j) \<and>
     (\<exists>extra. db_dead d' = db_dead d @ extra \<and> (\<forall>x \<in> set extra. has_id ids x)) \<and>
     db_next d \<le> db_next d' \<and> same_context d d'"

lemma has_id_append [simp]: "has_id (a @ b) j \<longleftrightarrow> has_id a j \<or> has_id b j"
  by (auto simp: has_id_def)

lemma has_id_Nil [simp]: "\<not> has_id [] j"
  by (simp add: has_id_def)

lemma disposes_none: "queue_inv d \<Longrightarrow> disposes [] d d"
  by (simp add: disposes_def same_context_def)

lemma disposes_inv: "disposes ids d d' \<Longrightarrow> queue_inv d'"
  by (simp add: disposes_def)

lemma disposes_kept: "disposes ids d d' \<Longrightarrow> j \<in> set (db_jobs d) \<Longrightarrow> \<not> has_id ids j \<Longrightarrow> j \<in> set (db_jobs d')"
  by (simp add: disposes_def)

lemma disposes_dead: "disposes ids d d' \<Longrightarrow> x \<in> set (db_dead d) \<Longrightarrow> x \<in> set (db_dead d')"
  by (auto simp: disposes_def)

lemma disposes_origin:
  assumes "disposes ids d d'" "j \<in> set (db_jobs d')"
  obtains (kept) "j \<in> set (db_jobs d)" "\<not> has_id ids j" | (queued) "re_queued ids d j"
  using assms by (auto simp: disposes_def)

lemma disposes_gone:
  assumes "queue_inv d" "disposes ids d d'" "j \<in> set (db_jobs d)" "has_id ids j" "k \<in> set (db_jobs d')"
  shows "jb_id k \<noteq> jb_id j"
  using assms(2,5)
proof (cases rule: disposes_origin)
  case kept
  then show ?thesis using job_by_id [OF assms(1) assms(3)] assms(4) by metis
next
  case queued
  then show ?thesis using queue_invD(2) [OF assms(1,3)] by (auto simp: re_queued_def)
qed

lemma disposes_trans:
  assumes "disposes a d d'" "disposes b d' d''"
  shows "disposes (a @ b) d d''"
proof -
  have "j \<in> set (db_jobs d) \<and> \<not> has_id (a @ b) j \<or> re_queued (a @ b) d j" if "j \<in> set (db_jobs d'')" for j
    using assms(2) that
  proof (cases rule: disposes_origin)
    case kept
    from assms(1) kept(1) show ?thesis
      by (cases rule: disposes_origin) (use kept(2) in \<open>auto simp: re_queued_def\<close>)
  next
    case queued
    then obtain i where i: "i \<in> set (db_jobs d')" "has_id b i" "job_key i = job_key j"
      by (auto simp: re_queued_def)
    have next_le: "db_next d \<le> jb_id j" "is_pending j"
      using queued assms(1) by (auto simp: re_queued_def disposes_def)
    from assms(1) i(1) show ?thesis
      by (cases rule: disposes_origin) (use i next_le in \<open>auto simp: re_queued_def\<close>)
  qed
  moreover have "j \<in> set (db_jobs d'')" if "j \<in> set (db_jobs d)" "\<not> has_id (a @ b) j" for j
    using that disposes_kept [OF assms(1)] disposes_kept [OF assms(2)] by simp
  moreover have "\<exists>extra. db_dead d'' = db_dead d @ extra \<and> (\<forall>x \<in> set extra. has_id (a @ b) x)"
  proof -
    obtain x y where "db_dead d' = db_dead d @ x" "\<forall>j \<in> set x. has_id a j"
      "db_dead d'' = db_dead d' @ y" "\<forall>j \<in> set y. has_id b j"
      using assms unfolding disposes_def by blast
    then show ?thesis by (intro exI [of _ "x @ y"]) auto
  qed
  ultimately show ?thesis using assms by (simp add: disposes_def same_context_def)
qed

lemma disposes_mono:
  assumes "disposes a d d'" "set a \<subseteq> set b" "\<And>j. j \<in> set (db_jobs d) \<Longrightarrow> has_id b j \<Longrightarrow> has_id a j"
  shows "disposes b d d'"
proof -
  have "has_id b j" if "has_id a j" for j using that assms(2) by (auto simp: has_id_def)
  then show ?thesis
    using assms(1,3) unfolding disposes_def re_queued_def by blast
qed

locale disposal =
  fixes dispose :: "int list \<Rightarrow> db \<Rightarrow> db"
  assumes dispose_contract: "queue_inv d \<Longrightarrow> disposes ids d (dispose ids d)"
begin

lemma dispose_inv: "queue_inv d \<Longrightarrow> queue_inv (dispose ids d)"
  using dispose_contract disposes_inv by blast

lemma dispose_gone:
  "queue_inv d \<Longrightarrow> j \<in> set (db_jobs d) \<Longrightarrow> has_id ids j \<Longrightarrow> k \<in> set (db_jobs (dispose ids d)) \<Longrightarrow>
   jb_id k \<noteq> jb_id j"
  using dispose_contract disposes_gone by blast

lemma dispose_each:
  "queue_inv d \<Longrightarrow> disposes ids d (fold (\<lambda>i. dispose [i]) ids d)"
proof (induction ids arbitrary: d)
  case (Cons i ids)
  then show ?case
    using disposes_trans [OF dispose_contract [of d "[i]"], of ids] dispose_inv by simp
qed (simp add: disposes_none)

end

lemma disposes_filter:
  assumes "queue_inv d" "\<forall>x \<in> set extra. has_id ids x"
  shows "disposes ids d (d\<lparr>db_dead := db_dead d @ extra, db_jobs := filter (\<lambda>j. \<not> has_id ids j) (db_jobs d)\<rparr>)"
  using assms queue_inv_filter [of "d\<lparr>db_dead := db_dead d @ extra\<rparr>"] by (simp add: disposes_def same_context_def)

interpretation delete_op: disposal delete_jobs
proof unfold_locales
  fix d ids assume "queue_inv d"
  then show "disposes ids d (delete_jobs ids d)"
    using disposes_filter [of d "[]" ids] by (auto simp: delete_jobs_def disposes_none)
qed

interpretation dead_op: disposal "\<lambda>ids. move_to_dead ids err" for err
proof unfold_locales
  fix d ids assume "queue_inv d"
  moreover have "\<forall>x \<in> set (map (\<lambda>j. j\<lparr>jb_error := Some (left_chars 1024 err)\<rparr>) (filter (has_id ids) (db_jobs d))).
      has_id ids x" by (auto simp: has_id_def)
  ultimately show "disposes ids d (move_to_dead ids err d)"
    using disposes_filter [OF \<open>queue_inv d\<close>] by (simp add: move_to_dead_def disposes_none)
qed

section \<open>Release\<close>

lemma pending_keys_snoc:
  "is_pending row \<Longrightarrow> pending_keys (js @ [row\<lparr>jb_id := i\<rparr>]) = pending_keys js @ [job_key row]"
  by (simp add: pending_keys_def is_pending_def job_key_def)

lemma insert_pending_context [simp]:
  "db_registry (fold insert_pending js d) = db_registry d" "db_migrations (fold insert_pending js d) = db_migrations d"
  "db_writes (fold insert_pending js d) = db_writes d"
  by (induction js arbitrary: d) (simp_all add: insert_pending_def Let_def)

lemma insert_pending_keys:
  assumes "is_pending row"
  shows "set (pending_keys (db_jobs (insert_pending row d))) = insert (job_key row) (set (pending_keys (db_jobs d)))"
  using assms by (auto simp: insert_pending_def Let_def pending_keys_snoc)

lemma fold_insert_pending_keys:
  "list_all is_pending rows \<Longrightarrow>
   set (pending_keys (db_jobs (fold insert_pending rows d))) = job_key ` set rows \<union> set (pending_keys (db_jobs d))"
  by (induction rows arbitrary: d) (auto simp: insert_pending_keys)

lemma load_entry_in: "load_entry i d = Some e \<Longrightarrow> e \<in> set (db_registry d)"
  unfolding load_entry_def by (auto simp: find_Some_iff)

lemma load_entry_unique:
  assumes "distinct (map re_id (db_registry d))" "e \<in> set (db_registry d)"
  shows "load_entry (re_id e) d = Some e"
proof -
  have "find (\<lambda>x. re_id x = re_id e) es = Some e" if "distinct (map re_id es)" "e \<in> set es" for es
    using that by (induction es) auto
  then show ?thesis using assms by (simp add: load_entry_def)
qed

lemma insert_pending_inv:
  assumes "queue_inv d" "is_pending row" shows "queue_inv (insert_pending row d)"
proof -
  have lt: "jb_id j < db_next d" if "j \<in> set (db_jobs d)" for j using queue_invD(2) [OF assms(1) that] .
  have "db_next d \<notin> set (map jb_id (db_jobs d))" using lt by force
  then show ?thesis
    using assms lt by (auto simp: insert_pending_def Let_def queue_inv_def pending_keys_snoc list_all_iff
        dest!: lt intro: less_trans)
qed

definition grown :: "job list \<Rightarrow> db \<Rightarrow> db \<Rightarrow> bool" where
  "grown rows d d' \<longleftrightarrow> queue_inv d' \<and> set (db_jobs d) \<subseteq> set (db_jobs d') \<and>
     (\<forall>j \<in> set (db_jobs d'). j \<in> set (db_jobs d) \<or>
        (\<exists>row \<in> set rows. j = row\<lparr>jb_id := jb_id j\<rparr> \<and> db_next d \<le> jb_id j \<and>
           job_key row \<notin> set (pending_keys (db_jobs d)))) \<and>
     job_key ` set rows \<subseteq> set (pending_keys (db_jobs d')) \<and>
     db_dead d' = db_dead d \<and> db_next d \<le> db_next d' \<and> same_context d d'"

lemma insert_pending_grown:
  assumes "queue_inv d" "is_pending row" shows "grown [row] d (insert_pending row d)"
  using insert_pending_inv [OF assms] assms(2)
  by (auto simp: grown_def insert_pending_def Let_def pending_keys_snoc same_context_def)

lemma grown_trans:
  assumes "grown a d d'" "grown b d' d''" shows "grown (a @ b) d d''"
proof -
  have pk: "set (pending_keys (db_jobs d)) \<subseteq> set (pending_keys (db_jobs d'))"
    "set (pending_keys (db_jobs d')) \<subseteq> set (pending_keys (db_jobs d''))"
    using assms by (auto simp: grown_def pending_keys_def)
  have "j \<in> set (db_jobs d) \<or> (\<exists>row \<in> set (a @ b). j = row\<lparr>jb_id := jb_id j\<rparr> \<and> db_next d \<le> jb_id j \<and>
      job_key row \<notin> set (pending_keys (db_jobs d)))" if "j \<in> set (db_jobs d'')" for j
  proof (cases "j \<in> set (db_jobs d')")
    case True
    then show ?thesis using assms(1) by (auto simp: grown_def)
  next
    case False
    then obtain row where "row \<in> set b" "j = row\<lparr>jb_id := jb_id j\<rparr>" "db_next d' \<le> jb_id j"
      "job_key row \<notin> set (pending_keys (db_jobs d'))"
      using assms(2) \<open>j \<in> set (db_jobs d'')\<close> unfolding grown_def by blast
    moreover have "db_next d \<le> db_next d'" using assms(1) by (simp add: grown_def)
    ultimately show ?thesis using pk(1) by (intro disjI2 bexI [of _ row]) auto
  qed
  then show ?thesis using assms pk
    unfolding grown_def same_context_def by auto
qed

lemma fold_insert_grown:
  "queue_inv d \<Longrightarrow> list_all is_pending rows \<Longrightarrow> grown rows d (fold insert_pending rows d)"
proof (induction rows arbitrary: d)
  case Nil
  then show ?case by (simp add: grown_def same_context_def)
next
  case (Cons row rows)
  have "grown [row] d (insert_pending row d)" using Cons(2,3) insert_pending_grown by simp
  moreover have "grown rows (insert_pending row d) (fold insert_pending rows (insert_pending row d))"
    using Cons insert_pending_inv by simp
  ultimately show ?case using grown_trans by fastforce
qed

lemma newest_of_key_exists:
  assumes "j \<in> set released"
  obtains k where "k \<in> set (newest_of_key released)" "job_key k = job_key j"
proof -
  let ?S = "{k \<in> set released. job_key k = job_key j}"
  have "finite (jb_id ` ?S)" "jb_id ` ?S \<noteq> {}" using assms by auto
  then obtain k where k: "k \<in> ?S" "jb_id k = Max (jb_id ` ?S)" using Max_in by (metis (no_types, lifting) imageE)
  have "jb_id i \<le> jb_id k" if "i \<in> ?S" for i
    using Max_ge [OF \<open>finite (jb_id ` ?S)\<close>, of "jb_id i"] that k(2) by simp
  then have "k \<in> set (newest_of_key released)" using k(1) by (auto simp: newest_of_key_def list_all_iff)
  with that k(1) show thesis by blast
qed

lemma newest_of_key_sub: "k \<in> set (newest_of_key released) \<Longrightarrow> k \<in> set released"
  by (simp add: newest_of_key_def)

lemma release_row_simps [simp]:
  "job_key (release_row now delay err keep refund j) = job_key j"
  "is_pending (release_row now delay err keep refund j)"
  "jb_registry (release_row now delay err keep refund j) = jb_registry j"
  by (simp_all add: release_row_def job_key_def is_pending_def)

lemma is_pending_with_id [simp]: "is_pending (j\<lparr>jb_id := i\<rparr>) = is_pending j"
  by (simp add: is_pending_def)

lemma job_key_with_id [simp]: "job_key (j\<lparr>jb_id := i\<rparr>) = job_key j"
  by (simp add: job_key_def)

lemma unclaim_spec:
  fixes d now ids delay err keep refund
  assumes "queue_inv d"
  defines "d' \<equiv> unclaim_jobs_inner now ids delay err keep refund d"
  shows unclaim_disposes: "disposes ids d d'"
    and unclaim_pending: "\<And>j. j \<in> set (db_jobs d) \<Longrightarrow> has_id ids j \<Longrightarrow> job_key j \<in> set (pending_keys (db_jobs d'))"
    and unclaim_origin: "\<And>j. j \<in> set (db_jobs d') \<Longrightarrow> \<not> (j \<in> set (db_jobs d) \<and> \<not> has_id ids j) \<Longrightarrow>
      \<exists>i \<in> set (db_jobs d). has_id ids i \<and> j = (release_row now delay err keep refund i)\<lparr>jb_id := jb_id j\<rparr> \<and>
        db_next d \<le> jb_id j"
    and unclaim_dead: "db_dead d' = db_dead d"
proof -
  let ?kept = "d\<lparr>db_jobs := filter (\<lambda>j. \<not> has_id ids j) (db_jobs d)\<rparr>"
  let ?released = "filter (has_id ids) (db_jobs d)"
  let ?rows = "map (release_row now delay err keep refund) (newest_of_key ?released)"
  have inv: "queue_inv ?kept" using queue_inv_filter [OF assms(1)] .
  have rows: "\<exists>i \<in> set (db_jobs d). has_id ids i \<and> row = release_row now delay err keep refund i"
    if "row \<in> set ?rows" for row using that newest_of_key_sub by fastforce
  have all: "disposes ids d d' \<and>
    (\<forall>j. j \<in> set (db_jobs d) \<and> has_id ids j \<longrightarrow> job_key j \<in> set (pending_keys (db_jobs d'))) \<and>
    (\<forall>j. j \<in> set (db_jobs d') \<and> \<not> (j \<in> set (db_jobs d) \<and> \<not> has_id ids j) \<longrightarrow>
      (\<exists>i \<in> set (db_jobs d). has_id ids i \<and> j = (release_row now delay err keep refund i)\<lparr>jb_id := jb_id j\<rparr> \<and>
        db_next d \<le> jb_id j)) \<and> db_dead d' = db_dead d"
  proof (cases "ids = []")
    case True
    then show ?thesis using assms(1) by (simp add: d'_def unclaim_jobs_inner_def disposes_none)
  next
    case False
    then have d': "d' = fold insert_pending ?rows ?kept" by (simp add: d'_def unclaim_jobs_inner_def)
    have g: "grown ?rows ?kept d'" unfolding d' using inv
      by (intro fold_insert_grown) (auto simp: list_all_iff)
    have origin: "j \<in> set (db_jobs d) \<and> \<not> has_id ids j \<or>
        (\<exists>i \<in> set (db_jobs d). has_id ids i \<and> j = (release_row now delay err keep refund i)\<lparr>jb_id := jb_id j\<rparr> \<and>
          db_next d \<le> jb_id j)" if j: "j \<in> set (db_jobs d')" for j
    proof (cases "j \<in> set (db_jobs ?kept)")
      case True then show ?thesis by simp
    next
      case False
      then obtain row where "row \<in> set ?rows" "j = row\<lparr>jb_id := jb_id j\<rparr>" "db_next ?kept \<le> jb_id j"
        using g j unfolding grown_def by blast
      then show ?thesis using rows [of row] by auto
    qed
    have "job_key j \<in> set (pending_keys (db_jobs d'))" if j: "j \<in> set (db_jobs d)" "has_id ids j" for j
    proof -
      obtain k where k: "k \<in> set (newest_of_key ?released)" "job_key k = job_key j"
        using newest_of_key_exists [of j ?released] j by auto
      then have "job_key (release_row now delay err keep refund k) \<in> job_key ` set ?rows"
        unfolding set_map by (intro imageI)
      moreover have "job_key ` set ?rows \<subseteq> set (pending_keys (db_jobs d'))" using g by (simp add: grown_def)
      ultimately show ?thesis using k(2) by auto
    qed
    moreover have "re_queued ids d j" if "j \<in> set (db_jobs d')" "\<not> (j \<in> set (db_jobs d) \<and> \<not> has_id ids j)" for j
      using origin [OF that(1)] that(2) unfolding re_queued_def
      by (metis is_pending_with_id job_key_with_id release_row_simps(1,2))
    ultimately show ?thesis using g origin
      unfolding disposes_def grown_def same_context_def by auto
  qed
  then show "disposes ids d d'" "db_dead d' = db_dead d" by blast+
  fix j
  from all show "j \<in> set (db_jobs d) \<Longrightarrow> has_id ids j \<Longrightarrow> job_key j \<in> set (pending_keys (db_jobs d'))"
    "j \<in> set (db_jobs d') \<Longrightarrow> \<not> (j \<in> set (db_jobs d) \<and> \<not> has_id ids j) \<Longrightarrow>
      \<exists>i \<in> set (db_jobs d). has_id ids i \<and> j = (release_row now delay err keep refund i)\<lparr>jb_id := jb_id j\<rparr> \<and>
        db_next d \<le> jb_id j" by blast+
qed

interpretation unclaim_op: disposal "\<lambda>ids. unclaim_jobs_inner now ids delay err keep refund"
  for now delay err keep refund
  by unfold_locales (rule unclaim_disposes)

interpretation defer_op: disposal "defer_jobs now" for now
  by unfold_locales (unfold defer_jobs_def, rule unclaim_disposes)

lemma left_chars_short: "length s \<le> n \<Longrightarrow> left_chars n s = s"
  by (induction n s rule: left_chars.induct) (auto split: nat.splits)

text \<open>
  C8. Releasing claimed jobs loses no work and duplicates none. The table invariant holds
  afterwards (ids unique and below the sequence, at most one pending row per entry, operation, row
  and chunk). The key of every released job is pending. Rows outside the released set are
  unchanged, and every new row is a released job with its key, creation time and (unless the
  attempt is refunded) attempt count, due at the requested time, under a fresh id. Nothing is
  dead-lettered.
\<close>
theorem unclaim_keeps_work:
  assumes "queue_inv d" and "d' = unclaim_jobs_inner now ids delay err keep refund d"
  shows "queue_inv d' \<and> db_dead d' = db_dead d \<and>
    (\<forall>j \<in> set (db_jobs d). if has_id ids j then job_key j \<in> set (pending_keys (db_jobs d')) \<and>
         jb_id j \<notin> jb_id ` set (db_jobs d') else j \<in> set (db_jobs d')) \<and>
    (\<forall>j \<in> set (db_jobs d'). j \<in> set (db_jobs d) \<or>
       (\<exists>i \<in> set (db_jobs d). has_id ids i \<and> job_key j = job_key i \<and> jb_created j = jb_created i \<and>
          jb_attempts j = (if refund then max (jb_attempts i - 1) 0 else jb_attempts i) \<and>
          is_pending j \<and> jb_not_before j = now + delay \<and> db_next d \<le> jb_id j))"
proof (intro conjI ballI)
  note spec = unclaim_spec [where now = now and ids = ids and delay = delay and err = err and keep = keep and
      refund = refund, OF assms(1), folded assms(2)]
  show "queue_inv d'" using spec(1) disposes_inv by blast
  show "db_dead d' = db_dead d" by (fact spec(4))
  fix j
  show "if has_id ids j then job_key j \<in> set (pending_keys (db_jobs d')) \<and>
      jb_id j \<notin> jb_id ` set (db_jobs d') else j \<in> set (db_jobs d')" if j: "j \<in> set (db_jobs d)"
  proof (cases "has_id ids j")
    case True
    then have "jb_id j \<notin> jb_id ` set (db_jobs d')"
      using disposes_gone [OF assms(1) spec(1) j True] by (metis imageE)
    then show ?thesis using True spec(2) [OF j True] by simp
  qed (use disposes_kept [OF spec(1) j] in simp)
  show "j \<in> set (db_jobs d) \<or>
       (\<exists>i \<in> set (db_jobs d). has_id ids i \<and> job_key j = job_key i \<and> jb_created j = jb_created i \<and>
          jb_attempts j = (if refund then max (jb_attempts i - 1) 0 else jb_attempts i) \<and>
          is_pending j \<and> jb_not_before j = now + delay \<and> db_next d \<le> jb_id j)"
    if j: "j \<in> set (db_jobs d')"
  proof (cases "j \<in> set (db_jobs d) \<and> \<not> has_id ids j")
    case False
    obtain i where i: "i \<in> set (db_jobs d)" "has_id ids i" "db_next d \<le> jb_id j"
      "j = (release_row now delay err keep refund i)\<lparr>jb_id := jb_id j\<rparr>"
      using spec(3) [OF j False] by blast
    have "job_key j = job_key i" "is_pending j" by (subst i(4), simp)+
    moreover have "jb_created j = jb_created i" "jb_not_before j = now + delay"
      "jb_attempts j = (if refund then max (jb_attempts i - 1) 0 else jb_attempts i)"
      by (subst i(4), simp add: release_row_def)+
    ultimately show ?thesis using i(1-3) by blast
  qed simp
qed

definition sample_job :: "int \<Rightarrow> string \<Rightarrow> int option \<Rightarrow> job" where
  "sample_job i pk claimed =
     \<lparr>jb_id = i, jb_registry = 7, jb_pk = pk, jb_op = EmbedOp, jb_chunk = None, jb_attempts = 1,
      jb_not_before = 0, jb_claimed = claimed, jb_error = None, jb_created = 0\<rparr>"

definition sample_db :: db where
  "sample_db =
     \<lparr>db_jobs = [sample_job 1 ''a'' (Some 5), sample_job 2 ''b'' (Some 5), sample_job 3 ''a'' None],
      db_dead = [], db_next = 4, db_registry = [], db_migrations = [], db_cursor = 0, db_writes = []\<rparr>"

lemma sample_db_inv: "queue_inv sample_db"
  by (simp add: sample_db_def sample_job_def queue_inv_def pending_keys_def is_pending_def)

theorem unclaim_keeps_work_witness:
  "queue_inv (unclaim_jobs_inner 9 [1, 2] 0 ''x'' True False sample_db) \<and>
   map jb_id (db_jobs (unclaim_jobs_inner 9 [1, 2] 0 ''x'' True False sample_db)) = [3, 5]"
  using unclaim_keeps_work [OF sample_db_inv refl, of 9 "[1, 2]" 0 "''x''" True False]
  by (auto simp: sample_db_def sample_job_def unclaim_jobs_inner_def Let_def has_id_def newest_of_key_def
      job_key_def insert_pending_def pending_keys_def is_pending_def release_row_def)

section \<open>Recovery after crashes and failed write-backs\<close>

lemma unclaim_jobs_inner_eq: "unclaim_jobs now ids delay err keep = unclaim_jobs_inner now ids delay err keep False"
  by (simp add: unclaim_jobs_def fun_eq_iff)

lemma move_to_dead_in:
  "j \<in> set (db_jobs d) \<Longrightarrow> has_id ids j \<Longrightarrow>
   j\<lparr>jb_error := Some (left_chars 1024 err)\<rparr> \<in> set (db_dead (move_to_dead ids err d))"
  by (auto simp: move_to_dead_def)

lemma move_to_dead_jobs:
  "set (db_jobs (move_to_dead ids err d)) = {j \<in> set (db_jobs d). \<not> has_id ids j}"
  by (auto simp: move_to_dead_def)

text \<open>One bulk step that dead-letters the exhausted rows of a set and releases the others.\<close>

definition dead_or_release :: "int \<Rightarrow> int \<Rightarrow> int list \<Rightarrow> db \<Rightarrow> db \<Rightarrow> bool" where
  "dead_or_release now max_retries ids d d' \<longleftrightarrow> disposes ids d d' \<and>
     (\<forall>j \<in> set (db_jobs d). has_id ids j \<longrightarrow>
        (if jb_attempts j > max_retries then \<exists>e. j\<lparr>jb_error := e\<rparr> \<in> set (db_dead d')
         else job_key j \<in> set (pending_keys (db_jobs d')))) \<and>
     (\<forall>x \<in> set (db_dead d'). x \<in> set (db_dead d) \<or> jb_attempts x > max_retries) \<and>
     (\<forall>j \<in> set (db_jobs d'). j \<in> set (db_jobs d) \<and> \<not> has_id ids j \<or>
        (\<exists>i \<in> set (db_jobs d). has_id ids i \<and> job_key i = job_key j \<and> jb_attempts j = jb_attempts i))"

lemma dead_or_releaseI:
  fixes ids :: "int list"
  assumes inv: "queue_inv d"
    and ex: "\<And>j. j \<in> set (db_jobs d) \<Longrightarrow> has_id exhausted j \<longleftrightarrow> has_id ids j \<and> jb_attempts j > max_retries"
    and rest: "\<And>j. j \<in> set (db_jobs d) \<Longrightarrow> has_id rest j \<longleftrightarrow> has_id ids j \<and> \<not> jb_attempts j > max_retries"
    and sub: "set exhausted \<subseteq> set ids" "set rest \<subseteq> set ids"
  shows "dead_or_release now max_retries ids d
    (unclaim_jobs now rest delay err keep (move_to_dead exhausted err' d))"
proof -
  let ?m = "move_to_dead exhausted err' d"
  let ?d' = "unclaim_jobs now rest delay err keep ?m"
  have inv': "queue_inv ?m" using dead_op.dispose_inv [OF inv] .
  have "disposes (exhausted @ rest) d ?d'"
    unfolding unclaim_jobs_inner_eq
    using disposes_trans [OF dead_op.dispose_contract [OF inv] unclaim_op.dispose_contract [OF inv']] .
  then have disp: "disposes ids d ?d'"
    by (rule disposes_mono) (use sub ex rest in \<open>auto simp: has_id_append\<close>)
  have dead: "db_dead ?d' = db_dead ?m" unfolding unclaim_jobs_inner_eq using unclaim_dead [OF inv'] .
  have "if jb_attempts j > max_retries then \<exists>e. j\<lparr>jb_error := e\<rparr> \<in> set (db_dead ?d')
      else job_key j \<in> set (pending_keys (db_jobs ?d'))" if j: "j \<in> set (db_jobs d)" "has_id ids j" for j
  proof (cases "jb_attempts j > max_retries")
    case True
    then have "has_id exhausted j" using ex j by simp
    then show ?thesis using True move_to_dead_in [OF j(1)] dead by auto
  next
    case False
    then have "j \<in> set (db_jobs ?m)" "has_id rest j" using ex rest j by (auto simp: move_to_dead_jobs)
    then show ?thesis using False unclaim_pending [OF inv'] unfolding unclaim_jobs_inner_eq by simp
  qed
  moreover have "x \<in> set (db_dead d) \<or> jb_attempts x > max_retries" if "x \<in> set (db_dead ?d')" for x
    using that ex unfolding dead by (auto simp: move_to_dead_def split: if_splits)
  moreover have "j \<in> set (db_jobs d) \<and> \<not> has_id ids j \<or>
      (\<exists>i \<in> set (db_jobs d). has_id ids i \<and> job_key i = job_key j \<and> jb_attempts j = jb_attempts i)"
    if j: "j \<in> set (db_jobs ?d')" for j
  proof (cases "j \<in> set (db_jobs ?m) \<and> \<not> has_id rest j")
    case True
    then show ?thesis using ex rest by (auto simp: move_to_dead_jobs)
  next
    case False
    obtain i where i: "i \<in> set (db_jobs ?m)" "has_id rest i"
      "j = (release_row now delay err keep False i)\<lparr>jb_id := jb_id j\<rparr>"
      using unclaim_origin [OF inv' _ False] j unfolding unclaim_jobs_inner_eq by blast
    have "job_key j = job_key i" "jb_attempts j = jb_attempts i" by (subst i(3), simp add: release_row_def job_key_def)+
    then show ?thesis using i(1,2) rest by (auto simp: move_to_dead_jobs)
  qed
  ultimately show ?thesis using disp unfolding dead_or_release_def by blast
qed

lemma has_id_map: "queue_inv d \<Longrightarrow> j \<in> set (db_jobs d) \<Longrightarrow>
  has_id (map jb_id (filter P (db_jobs d))) j \<longleftrightarrow> P j"
  by (auto simp: has_id_def dest: job_by_id)

lemma reclaim_stale_cases:
  assumes "queue_inv d"
  shows "dead_or_release now max_retries (stale_ids now vis rids (\<lambda>_. True) d) d (reclaim_stale now vis max_retries rids d)"
proof (cases "stale_ids now vis rids (\<lambda>_. True) d = []")
  case True
  then show ?thesis using assms disposes_none
    by (auto simp: reclaim_stale_def dead_or_release_def)
next
  case False
  let ?all = "stale_ids now vis rids (\<lambda>_. True) d"
  let ?ex = "stale_ids now vis rids (\<lambda>j. jb_attempts j > max_retries) d"
  let ?msg = "''visibility timeout expired with attempts exhausted (worker crash mid-batch?)''"
  let ?rest = "stale_ids now vis rids (\<lambda>_. True) (move_to_dead ?ex ?msg d)"
  have stale: "has_id (stale_ids now vis rids P d) j \<longleftrightarrow> is_stale now vis j \<and> jb_registry j \<in> set rids \<and> P j"
    if "j \<in> set (db_jobs d)" for j P
    unfolding stale_ids_def using has_id_map [OF assms that] by simp
  have "set (db_jobs (move_to_dead ?ex ?msg d)) = {j \<in> set (db_jobs d). \<not> has_id ?ex j}"
    by (rule move_to_dead_jobs)
  then have rest: "set ?rest = jb_id ` {j \<in> set (db_jobs d). is_stale now vis j \<and> jb_registry j \<in> set rids \<and>
      \<not> jb_attempts j > max_retries}"
    unfolding stale_ids_def [of now vis rids "\<lambda>_. True" "move_to_dead ?ex ?msg d"]
    using stale by (auto simp: image_iff)
  then have "has_id ?rest j \<longleftrightarrow> has_id ?all j \<and> \<not> jb_attempts j > max_retries" if "j \<in> set (db_jobs d)" for j
    using stale [OF that] job_by_id [OF assms that] that unfolding has_id_def [of ?rest] rest by auto
  moreover have "has_id ?ex j \<longleftrightarrow> has_id ?all j \<and> jb_attempts j > max_retries" if "j \<in> set (db_jobs d)" for j
    using stale [OF that] by auto
  moreover have "set ?ex \<subseteq> set ?all" "set ?rest \<subseteq> set ?all" unfolding rest by (auto simp: stale_ids_def)
  moreover have "rids \<noteq> []" using False by (auto simp: stale_ids_def)
  ultimately show ?thesis
    using dead_or_releaseI [OF assms, of ?ex ?all max_retries ?rest] False
    by (simp add: reclaim_stale_def Let_def)
qed

lemma release_failed_group_cases:
  assumes "queue_inv d"
  shows "dead_or_release now max_retries ids d (snd (release_failed_group now ids max_retries backoff_ms err d))"
proof (cases "ids = []")
  case True
  then show ?thesis using assms disposes_none by (auto simp: release_failed_group_def dead_or_release_def)
next
  case False
  let ?t = "filter (has_id ids) (db_jobs d)"
  have "has_id (map jb_id (filter P ?t)) j \<longleftrightarrow> has_id ids j \<and> P j" if "j \<in> set (db_jobs d)" for j P
    using has_id_map [OF assms that, of "\<lambda>x. has_id ids x \<and> P x"] by (simp add: conj_commute)
  moreover have "set (map jb_id (filter P ?t)) \<subseteq> set ids" for P by (auto simp: has_id_def)
  ultimately show ?thesis
    using dead_or_releaseI [OF assms] False by (simp add: release_failed_group_def Let_def)
qed

text \<open>
  Recovery converges. After a failed write-back (\<open>release_failed_group\<close>) and after a worker
  crash (\<open>reclaim_stale\<close>, for the stale claims of the given entries), each affected job is
  dead-lettered exactly when its attempts exceed the limit, and otherwise its key is pending
  again. Every other row is untouched, the table invariant holds, and only exhausted jobs are added
  to the dead letters.
\<close>
theorem recovery_dead_or_pending:
  assumes "queue_inv d"
    and "d' = snd (release_failed_group now ids max_retries backoff_ms err d) \<or>
         ids = stale_ids now vis rids (\<lambda>_. True) d \<and> d' = reclaim_stale now vis max_retries rids d"
  shows "queue_inv d' \<and>
    (\<forall>j \<in> set (db_jobs d).
       if \<not> has_id ids j then j \<in> set (db_jobs d')
       else if jb_attempts j > max_retries then \<exists>e. j\<lparr>jb_error := e\<rparr> \<in> set (db_dead d')
       else job_key j \<in> set (pending_keys (db_jobs d'))) \<and>
    (\<forall>x \<in> set (db_dead d'). x \<in> set (db_dead d) \<or> jb_attempts x > max_retries)"
proof -
  have "dead_or_release now max_retries ids d d'"
    using assms(2) release_failed_group_cases [OF assms(1)] reclaim_stale_cases [OF assms(1)] by auto
  then have disp: "disposes ids d d'"
    and handled: "\<And>j. j \<in> set (db_jobs d) \<Longrightarrow> has_id ids j \<Longrightarrow>
        if jb_attempts j > max_retries then \<exists>e. j\<lparr>jb_error := e\<rparr> \<in> set (db_dead d')
        else job_key j \<in> set (pending_keys (db_jobs d'))"
    and dead: "\<forall>x \<in> set (db_dead d'). x \<in> set (db_dead d) \<or> jb_attempts x > max_retries"
    by (simp_all add: dead_or_release_def)
  show ?thesis using disposes_inv [OF disp] disposes_kept [OF disp] handled dead by simp
qed

theorem recovery_dead_or_pending_witness:
  "queue_inv (reclaim_stale 99 10 0 [7] sample_db) \<and>
   map jb_id (db_dead (reclaim_stale 99 10 0 [7] sample_db)) = [1, 2]"
proof -
  have "queue_inv (reclaim_stale 99 10 0 [7] sample_db)"
    using recovery_dead_or_pending [where ids = "stale_ids 99 10 [7] (\<lambda>_. True) sample_db" and
        d' = "reclaim_stale 99 10 0 [7] sample_db" and now = 99 and vis = 10 and max_retries = 0 and
        rids = "[7]", OF sample_db_inv] by simp
  then show ?thesis
    by (simp add: sample_db_def sample_job_def reclaim_stale_def stale_ids_def is_stale_def Let_def
        move_to_dead_def has_id_def unclaim_jobs_def unclaim_jobs_inner_def)
qed

section \<open>Claiming\<close>

lemma pending_keys_claim:
  "pending_keys (map (\<lambda>j. if has_id ids j then claim_row now j else j) js) =
   pending_keys (filter (\<lambda>j. \<not> has_id ids j) js)"
  by (induction js) (auto simp: pending_keys_def is_pending_def claim_row_def)

lemma queue_inv_claim:
  assumes "queue_inv d"
  shows "queue_inv (d\<lparr>db_jobs := map (\<lambda>j. if has_id ids j then claim_row now j else j) (db_jobs d)\<rparr>)"
proof -
  let ?js = "map (\<lambda>j. if has_id ids j then claim_row now j else j) (db_jobs d)"
  have "map jb_id ?js = map jb_id (db_jobs d)" by (simp add: claim_row_def)
  then have "distinct (map jb_id ?js)" using queue_invD(1) [OF assms] by metis
  moreover have "distinct (pending_keys ?js)" unfolding pending_keys_claim
    using queue_inv_filter [OF assms] by (simp add: queue_inv_def)
  moreover have "jb_id j < db_next d" if "j \<in> set ?js" for j
    using that queue_invD(2) [OF assms] by (auto simp: claim_row_def)
  ultimately show ?thesis by (simp add: queue_inv_def list_all_iff)
qed

lemma due_order_set:
  "set (due_order now locked rids js) = {j \<in> set js. is_due now j \<and> jb_registry j \<in> set rids \<and> \<not> locked (jb_id j)}"
  by (auto simp: due_order_def)

lemma due_order_keys:
  assumes "queue_inv d"
  shows "distinct (map job_key (due_order now locked rids (db_jobs d)))"
    and "distinct (map jb_id (due_order now locked rids (db_jobs d)))"
proof -
  have "map job_key (filter P (filter is_pending (db_jobs d))) = map job_key (filter (\<lambda>j. is_pending j \<and> P j) (db_jobs d))" for P
    by (simp add: conj_commute)
  then have "distinct (map job_key (filter (\<lambda>j. is_pending j \<and> P j) (db_jobs d)))" for P
    using distinct_map_filter_sub [of job_key "filter is_pending (db_jobs d)" P] queue_invD(3) [OF assms]
    by (simp add: pending_keys_def)
  from this [of "\<lambda>j. (jb_not_before j \<le> now \<and> jb_op j = EmbedOp) \<and> jb_registry j \<in> set rids \<and> \<not> locked (jb_id j)"]
  have k: "distinct (map job_key (filter (\<lambda>j. is_due now j \<and> jb_registry j \<in> set rids \<and> \<not> locked (jb_id j)) (db_jobs d)))"
    by (simp add: is_due_def conj_assoc)
  then show "distinct (map job_key (due_order now locked rids (db_jobs d)))"
    unfolding due_order_def distinct_map by simp
  show "distinct (map jb_id (due_order now locked rids (db_jobs d)))"
    using distinct_map_filter_sub [OF queue_invD(1) [OF assms]] unfolding due_order_def distinct_map by simp
qed

lemma sorted_take_le:
  assumes "sorted (map f xs)" "x \<in> set (take n xs)" "y \<in> set xs" "y \<notin> set (take n xs)"
  shows "f x \<le> f y"
proof -
  have "y \<in> set (drop n xs)" using assms(3,4) by (metis Un_iff append_take_drop_id set_append)
  moreover have "sorted (map f (take n xs) @ map f (drop n xs))"
    using assms(1) by (metis append_take_drop_id map_append)
  ultimately show ?thesis using assms(2) by (auto simp: sorted_append)
qed

text \<open>
  A claim is exact. Each claimed row is a due, unlocked embed job of one of the given entries,
  marked claimed with its attempt counted once, and stored so. At most \<open>batch\<close> jobs are claimed and
  no two of them have the same entry, row and chunk. Rows not claimed are unchanged, and a due
  unlocked job left behind is not ahead of a claimed one in \<open>(not_before, id)\<close> order. The table
  invariant holds afterwards.
\<close>
theorem claim_due_exact:
  assumes "queue_inv d" and "claim_due now locked batch rids d = (claims, d')"
  shows "queue_inv d' \<and> length claims \<le> batch \<and> distinct (map job_key claims) \<and>
    (\<forall>c \<in> set claims. c \<in> set (db_jobs d') \<and>
       (\<exists>j \<in> set (db_jobs d). c = j\<lparr>jb_claimed := Some now, jb_attempts := jb_attempts j + 1\<rparr> \<and>
          is_due now j \<and> jb_registry j \<in> set rids \<and> \<not> locked (jb_id j))) \<and>
    (\<forall>j \<in> set (db_jobs d). j \<in> set (db_jobs d') \<or> jb_id j \<in> jb_id ` set claims) \<and>
    (\<forall>j \<in> set (db_jobs d). is_due now j \<and> jb_registry j \<in> set rids \<and> \<not> locked (jb_id j) \<and>
       jb_id j \<notin> jb_id ` set claims \<longrightarrow>
       (\<forall>c \<in> set claims. (jb_not_before c, jb_id c) \<le> (jb_not_before j, jb_id j)))"
proof -
  let ?order = "due_order now locked rids (db_jobs d)"
  let ?picked = "take batch ?order"
  have claims: "claims = map (claim_row now) ?picked"
    and d': "d' = d\<lparr>db_jobs := map (\<lambda>j. if has_id (map jb_id ?picked) j then claim_row now j else j) (db_jobs d)\<rparr>"
    using assms(2) by (simp_all add: claim_due_def Let_def)
  have ids: "jb_id ` set claims = jb_id ` set ?picked" by (simp add: claims image_image claim_row_def)
  have key: "job_key (claim_row now j) = job_key j" for j by (simp add: claim_row_def job_key_def)
  have picked: "j \<in> set ?order \<and> j \<in> set (db_jobs d) \<and> is_due now j \<and> jb_registry j \<in> set rids \<and> \<not> locked (jb_id j)"
    if "j \<in> set ?picked" for j using in_set_takeD [OF that] by (simp add: due_order_set)
  have "distinct (map job_key claims)"
    using due_order_keys(1) [OF assms(1), THEN distinct_take, of batch now locked rids]
    by (simp add: claims key comp_def take_map)
  moreover have "c \<in> set (db_jobs d') \<and> (\<exists>j \<in> set (db_jobs d).
      c = j\<lparr>jb_claimed := Some now, jb_attempts := jb_attempts j + 1\<rparr> \<and>
      is_due now j \<and> jb_registry j \<in> set rids \<and> \<not> locked (jb_id j))" if c: "c \<in> set claims" for c
  proof -
    obtain j where j: "j \<in> set ?picked" "c = claim_row now j" using c by (auto simp: claims)
    then have "has_id (map jb_id ?picked) j" by (simp add: has_id_def)
    then have "c \<in> set (db_jobs d')" using picked [OF j(1)] j(2) by (auto simp: d')
    then show ?thesis using picked [OF j(1)] j(2) by (auto simp: claim_row_def)
  qed
  moreover have "j \<in> set (db_jobs d') \<or> jb_id j \<in> jb_id ` set claims" if "j \<in> set (db_jobs d)" for j
    using that unfolding ids d' by (auto simp: has_id_def)
  moreover have "(jb_not_before c, jb_id c) \<le> (jb_not_before j, jb_id j)"
    if c: "c \<in> set claims" and j: "j \<in> set (db_jobs d)" "is_due now j" "jb_registry j \<in> set rids"
      "\<not> locked (jb_id j)" "jb_id j \<notin> jb_id ` set claims" for c j
  proof -
    obtain i where i: "i \<in> set ?picked" "c = claim_row now i" using c by (auto simp: claims)
    have "j \<in> set ?order" "j \<notin> set ?picked" using j unfolding ids by (auto simp: due_order_set)
    then have "(jb_not_before i, jb_id i) \<le> (jb_not_before j, jb_id j)"
      using sorted_take_le [of "\<lambda>j. (jb_not_before j, jb_id j)" ?order i batch j] i(1)
      by (simp add: due_order_def)
    then show ?thesis using i(2) by (simp add: claim_row_def)
  qed
  ultimately show ?thesis
    using queue_inv_claim [OF assms(1)] by (auto simp: d' claims)
qed

theorem claim_due_exact_witness:
  "queue_inv (snd (claim_due 9 (\<lambda>_. False) 5 [7] sample_db)) \<and>
   map (\<lambda>c. (jb_id c, jb_attempts c)) (fst (claim_due 9 (\<lambda>_. False) 5 [7] sample_db)) = [(3, 2)]"
proof -
  have "queue_inv (snd (claim_due 9 (\<lambda>_. False) 5 [7] sample_db))"
    using claim_due_exact [OF sample_db_inv prod.collapse [symmetric], of 9 "\<lambda>_. False" 5 "[7]"] by blast
  then show ?thesis
    by (simp add: sample_db_def sample_job_def claim_due_def Let_def due_order_def is_due_def is_pending_def claim_row_def)
qed

lemma quarantine_inv: "queue_inv d \<Longrightarrow> queue_inv (quarantine_entry entry reason d)"
  using queue_inv_filter [of "d\<lparr>db_writes := db_writes d @ [Teardown (re_id entry)]\<rparr>"]
  by (simp add: quarantine_entry_def queue_inv_def)

lemma quarantine_cursor [simp]: "db_cursor (quarantine_entry entry reason d) = db_cursor d"
  by (simp add: quarantine_entry_def)

lemma prepare_entries_inv: "queue_inv d \<Longrightarrow> queue_inv (snd (prepare_entries missing ids d))"
  by (induction missing ids d rule: prepare_entries.induct)
    (auto simp: quarantine_inv case_prod_beta split: option.splits)

lemma prepare_entries_cursor: "db_cursor (snd (prepare_entries missing ids d)) = db_cursor d"
  by (induction missing ids d rule: prepare_entries.induct)
    (auto simp: case_prod_beta split: option.splits)

lemma reclaim_stale_inv: "queue_inv d \<Longrightarrow> queue_inv (reclaim_stale now vis max_retries rids d)"
  using reclaim_stale_cases disposes_inv unfolding dead_or_release_def by blast

lemma release_failed_group_inv:
  "queue_inv d \<Longrightarrow> queue_inv (snd (release_failed_group now ids max_retries backoff_ms err d))"
  using release_failed_group_cases disposes_inv unfolding dead_or_release_def by blast

lemma claim_due_inv: "queue_inv d \<Longrightarrow> queue_inv (snd (claim_due now locked batch rids d))"
  using queue_inv_claim by (simp add: claim_due_def Let_def)

lemma prepare_claim_inv: "queue_inv d \<Longrightarrow> queue_inv (snd (prepare_claim_entries missing now vis batch d))"
  by (simp add: prepare_claim_entries_def Let_def prepare_entries_inv)

lemma claim_batch_inv: "queue_inv d \<Longrightarrow> queue_inv (snd (claim_batch missing now locked vis max_retries batch d))"
  using prepare_claim_inv [of d missing now vis batch]
  by (auto simp: claim_batch_def claim_due_inv reclaim_stale_inv split: prod.splits)

lemma claim_due_rows:
  assumes "queue_inv d" "claim_due now locked batch rids d = (claims, d')"
  shows "distinct (map jb_id claims)" "\<And>c. c \<in> set claims \<Longrightarrow> c \<in> set (db_jobs d') \<and> \<not> is_pending c"
proof -
  let ?picked = "take batch (due_order now locked rids (db_jobs d))"
  have claims: "claims = map (claim_row now) ?picked"
    and d': "db_jobs d' = map (\<lambda>j. if has_id (map jb_id ?picked) j then claim_row now j else j) (db_jobs d)"
    using assms(2) by (auto simp: claim_due_def Let_def)
  have "map jb_id claims = map jb_id ?picked" by (simp add: claims claim_row_def)
  then show "distinct (map jb_id claims)"
    using distinct_take [OF due_order_keys(2) [OF assms(1)]] by (metis take_map)
  fix c assume "c \<in> set claims"
  then obtain j where j: "j \<in> set ?picked" "c = claim_row now j" by (auto simp: claims)
  have "j \<in> set (db_jobs d)" using in_set_takeD [OF j(1)] by (simp add: due_order_set)
  moreover have "has_id (map jb_id ?picked) j" using j(1) by (simp add: has_id_def)
  ultimately show "c \<in> set (db_jobs d') \<and> \<not> is_pending c"
    using j(2) by (auto simp: d' claim_row_def is_pending_def)
qed

lemma claim_batch_rows:
  assumes "queue_inv d" "claim_batch missing now locked vis max_retries batch d = (claims, d')"
  shows "distinct (map jb_id claims) \<and> (\<forall>c \<in> set claims. c \<in> set (db_jobs d') \<and> \<not> is_pending c)"
proof -
  obtain rids d1 where p: "prepare_claim_entries missing now vis batch d = (rids, d1)" by fastforce
  then have "queue_inv d1" using prepare_claim_inv [OF assms(1), of missing now vis batch] by simp
  then show ?thesis
    using assms(2) p claim_due_rows [OF reclaim_stale_inv] by (auto simp: claim_batch_def split: if_splits)
qed

section \<open>Round-robin over the entries\<close>

lemma fold_min_in: "fold min rs r \<in> set (r # rs) \<and> (\<forall>x \<in> set (r # rs). fold min rs r \<le> (x :: int))"
proof (induction rs arbitrary: r)
  case (Cons a rs)
  show ?case using Cons [of "min a r"] by (auto simp: min_def split: if_splits)
qed simp

lemma min_registry_Some: "min_registry rs = Some r \<Longrightarrow> r \<in> set rs \<and> (\<forall>x \<in> set rs. r \<le> x)"
  using fold_min_in by (auto simp: min_registry_def split: list.splits)

lemma min_registry_None [simp]: "min_registry rs = None \<longleftrightarrow> rs = []"
  by (simp add: min_registry_def split: list.splits)

definition due_registries :: "int \<Rightarrow> job list \<Rightarrow> int set" where
  "due_registries now js = jb_registry ` {j \<in> set js. is_due now j}"

lemma next_claim_entry_cases:
  assumes "r \<in> due_registries now js"
  obtains p where "next_claim_entry now cursor js = Some p" "p \<in> due_registries now js"
    "(cursor < p \<and> (cursor < r \<longrightarrow> p \<le> r)) \<or> (r \<le> cursor \<and> p \<le> r)"
proof -
  let ?due = "map jb_registry (filter (is_due now) js)"
  have set: "set ?due = due_registries now js" by (auto simp: due_registries_def)
  show thesis
  proof (cases "min_registry (filter (\<lambda>x. x > cursor) ?due)")
    case None
    then have "r \<le> cursor" using assms unfolding set [symmetric] min_registry_None
      by (auto simp: filter_empty_conv)
    moreover have "?due \<noteq> []" using assms unfolding set [symmetric] by (auto simp: filter_empty_conv)
    then obtain p where p: "min_registry ?due = Some p" using min_registry_None by blast
    ultimately show thesis
      using that [of p] None min_registry_Some [OF p] assms unfolding set
      by (simp add: next_claim_entry_def Let_def)
  next
    case (Some p)
    have "p \<in> set (filter (\<lambda>x. x > cursor) ?due)" "\<forall>x \<in> set (filter (\<lambda>x. x > cursor) ?due). p \<le> x"
      using min_registry_Some [OF Some] by blast+
    then have "p \<in> due_registries now js" "cursor < p" "cursor < r \<longrightarrow> p \<le> r"
      using assms unfolding set_filter set by auto
    then show thesis using that [of p] Some by (simp add: next_claim_entry_def Let_def)
  qed
qed

text \<open>The entries that can still be served before \<open>r\<close>, counted with \<open>r\<close> itself.\<close>

definition ahead :: "int set \<Rightarrow> int \<Rightarrow> int \<Rightarrow> nat" where
  "ahead U r c = (if c < r then card {u \<in> U. c < u \<and> u \<le> r}
                  else card {u \<in> U. c < u} + card {u \<in> U. u \<le> r})"

lemma ahead_decreases:
  assumes "finite U" "p \<in> U" "p \<noteq> r" "(c < p \<and> (c < r \<longrightarrow> p \<le> r)) \<or> (r \<le> c \<and> p \<le> r)"
  shows "ahead U r p < ahead U r c"
proof -
  have less: "card A < card B" if "A \<subseteq> B" "p \<in> B" "p \<notin> A" "B \<subseteq> U" for A B
    using that assms(1) by (metis finite_subset psubsetI psubset_card_mono)
  consider (a) "c < r" "p < r" "c < p" | (b) "r \<le> c" "c < p" | (c) "r \<le> c" "p < r"
    using assms(3,4) by linarith
  then show ?thesis
  proof cases
    case a
    then show ?thesis using assms(2) by (auto simp: ahead_def intro!: less)
  next
    case b
    then have "card {u \<in> U. p < u} < card {u \<in> U. c < u}" using assms(2) by (intro less) auto
    then show ?thesis using b by (simp add: ahead_def)
  next
    case c
    then have "card {u \<in> U. p < u \<and> u \<le> r} < card {u \<in> U. u \<le> r}" using assms(2) by (intro less) auto
    then show ?thesis using c by (simp add: ahead_def)
  qed
qed

lemma ahead_le_card: "finite U \<Longrightarrow> ahead U r c \<le> card U"
proof -
  assume U: "finite U"
  have "card {u \<in> U. c < u} + card {u \<in> U. u \<le> r} = card ({u \<in> U. c < u} \<union> {u \<in> U. u \<le> r})" if "r \<le> c"
    using U that by (intro card_Un_disjoint [symmetric]) auto
  moreover have "card ({u \<in> U. c < u} \<union> {u \<in> U. u \<le> r}) \<le> card U" using U by (intro card_mono) auto
  moreover have "card {u \<in> U. c < u \<and> u \<le> r} \<le> card U" using U by (intro card_mono) auto
  ultimately show ?thesis by (simp add: ahead_def)
qed

lemma served_within:
  assumes "finite U"
    and "\<And>i. due_registries (now i) (js i) \<subseteq> U" and "\<And>i. r \<in> due_registries (now i) (js i)"
    and "\<And>i. next_claim_entry (now i) (cur i) (js i) = Some (cur (Suc i))"
  shows "\<exists>i < ahead U r (cur 0). cur (Suc i) = r"
  using assms(2-4)
proof (induction "ahead U r (cur 0)" arbitrary: now js cur rule: less_induct)
  case less
  obtain p where p: "next_claim_entry (now 0) (cur 0) (js 0) = Some p" "p \<in> U"
    "(cur 0 < p \<and> (cur 0 < r \<longrightarrow> p \<le> r)) \<or> (r \<le> cur 0 \<and> p \<le> r)"
    using next_claim_entry_cases [OF less(3), of 0 "cur 0"] less(2) [of 0] by blast
  then have cur1: "cur (Suc 0) = p" using less(4) [of 0] by simp
  show ?case
  proof (cases "p = r")
    case True
    then have "r \<in> {u \<in> U. cur 0 < u \<and> u \<le> r} \<or> \<not> cur 0 < r \<and> r \<in> {u \<in> U. u \<le> r}" using p by auto
    then have "0 < ahead U r (cur 0)" using assms(1) by (auto simp: ahead_def card_gt_0_iff)
    then show ?thesis using cur1 True by blast
  next
    case False
    then have dec: "ahead U r (cur (Suc 0)) < ahead U r (cur 0)"
      using ahead_decreases [OF assms(1) p(2) False p(3)] cur1 by simp
    obtain i where "i < ahead U r (cur (Suc 0))" "cur (Suc (Suc i)) = r"
      using less(1) [of "\<lambda>i. cur (Suc i)" "\<lambda>i. now (Suc i)" "\<lambda>i. js (Suc i)"] dec less(2-4) by blast
    then show ?thesis using dec by (intro exI [of _ "Suc i"]) auto
  qed
qed

lemma prepare_claim_cursor:
  assumes "\<And>j. j \<in> set (db_jobs d) \<Longrightarrow> \<not> is_stale now vis j"
    and "next_claim_entry now (db_cursor d) (db_jobs d) = Some p"
  shows "claim_candidates now vis batch d = [p]"
    and "db_cursor (snd (prepare_claim_entries missing now vis batch d)) = p"
proof -
  have none: "filter (is_stale now vis) (db_jobs d) = []" using assms(1) by (simp add: filter_empty_conv)
  show one: "claim_candidates now vis batch d = [p]" by (simp add: claim_candidates_def assms(2) none)
  show "db_cursor (snd (prepare_claim_entries missing now vis batch d)) = p"
    by (simp add: prepare_claim_entries_def Let_def one prepare_entries_cursor
        del: prepare_entries.simps)
qed

text \<open>
  C20. No entry's backlog holds back another. Take any sequence of claim passes in which the tables
  change freely between passes but the cursor is the one the previous pass left, and no stale
  claims are around. If an entry has due work at every pass, then it is the entry chosen within as
  many passes as there are entries that ever have due work.
\<close>
theorem round_robin_serves:
  assumes "finite U" and "\<forall>i. due_registries (now i) (db_jobs (d i)) \<subseteq> U"
    and "\<forall>i. r \<in> due_registries (now i) (db_jobs (d i))"
    and "\<forall>i. list_all (\<lambda>j. \<not> is_stale (now i) vis j) (db_jobs (d i))"
    and "\<forall>i. db_cursor (d (Suc i)) = db_cursor (snd (prepare_claim_entries missing (now i) vis batch (d i)))"
  shows "\<exists>i < card U. claim_candidates (now i) vis batch (d i) = [r]"
proof -
  have pick: "next_claim_entry (now i) (db_cursor (d i)) (db_jobs (d i)) = Some (db_cursor (d (Suc i))) \<and>
      claim_candidates (now i) vis batch (d i) = [db_cursor (d (Suc i))]" for i
  proof -
    obtain p where p: "next_claim_entry (now i) (db_cursor (d i)) (db_jobs (d i)) = Some p"
      using next_claim_entry_cases assms(3) by metis
    have fresh: "\<not> is_stale (now i) vis j" if "j \<in> set (db_jobs (d i))" for j
      using assms(4) that by (auto simp: list_all_iff)
    show ?thesis using p prepare_claim_cursor [OF fresh p] assms(5) by simp
  qed
  have "\<exists>i < ahead U r (db_cursor (d 0)). db_cursor (d (Suc i)) = r"
    by (rule served_within [OF assms(1), where now = now and js = "\<lambda>i. db_jobs (d i)"])
      (use assms(2,3) pick in blast)+
  then show ?thesis using ahead_le_card [OF assms(1)] pick by (metis order_less_le_trans)
qed

theorem round_robin_serves_witness: "claim_candidates 9 100 5 sample_db = [7]"
proof -
  let ?d = "\<lambda>i. case i of 0 \<Rightarrow> sample_db | Suc _ \<Rightarrow> sample_db\<lparr>db_cursor := 7\<rparr>"
  have jobs: "db_jobs (?d i) = db_jobs sample_db" for i by (simp split: nat.splits)
  have "{j \<in> set (db_jobs sample_db). is_due 9 j} = {sample_job 3 ''a'' None}"
    by (auto simp: sample_db_def sample_job_def is_due_def is_pending_def)
  then have due: "due_registries 9 (db_jobs sample_db) = {7}" by (simp add: due_registries_def sample_job_def)
  have fresh: "list_all (\<lambda>j. \<not> is_stale 9 100 j) (db_jobs sample_db)"
    by (simp add: sample_db_def sample_job_def is_stale_def)
  have cur: "db_cursor (?d (Suc i)) = db_cursor (snd (prepare_claim_entries (\<lambda>_ _. None) 9 100 5 (?d i)))" for i
  proof -
    have "next_claim_entry 9 (db_cursor (?d i)) (db_jobs (?d i)) = Some 7"
      by (simp add: sample_db_def sample_job_def next_claim_entry_def Let_def is_due_def is_pending_def
          min_registry_def split: nat.splits)
    then show ?thesis using prepare_claim_cursor(2) [of "?d i" 9 100] fresh
      unfolding jobs by (simp add: list_all_iff)
  qed
  have "\<exists>i < card {7 :: int}. claim_candidates 9 100 5 (?d i) = [7]"
    by (rule round_robin_serves [where now = "\<lambda>_. 9" and d = ?d and missing = "\<lambda>_ _. None"])
      (use due fresh cur in \<open>auto simp: jobs\<close>)
  then show ?thesis by simp
qed

end
