(* ===== verification/Embed.thy ===== *)
theory Embed
  imports Text
begin

text \<open>
  \<open>core/src/client/mod.rs\<close> (error vocabulary and retry classes) and the network phase of
  \<open>postvec/src/jobs.rs\<close>: response and request budgets, sub-batching, bisection of poison rows,
  and the mapping to per-row outcomes.

  The inference client is a parameter \<open>emb\<close>. It carries a state, so two calls with the same
  texts may answer differently; \<open>Err\<close> covers its own failures and the deadline of
  \<open>block_on_with_timeout\<close>. Floats are a type parameter, with \<open>is_finite\<close> a parameter.
\<close>

section \<open>Errors and retry classes\<close>

datatype ravenna_code =
    InternalError | InvalidInput | Timeout | ModelNotFound | ModelNotLoaded | ModelDisabled
  | ContextLengthExceeded | GpuOutOfMemory | CpuOverload | BridgePathNotFound | ConverterNotFound
  | TargetRestricted | UpstreamServiceUnavailable | UpstreamAuthFailed | UnknownCode

definition code_table :: "(string \<times> string \<times> ravenna_code) list" where
  "code_table =
     [(''INTERNAL_ERROR'', ''InternalError'', InternalError),
      (''INVALID_INPUT'', ''InvalidInput'', InvalidInput),
      (''TIMEOUT'', ''Timeout'', Timeout),
      (''MODEL_NOT_FOUND'', ''ModelNotFound'', ModelNotFound),
      (''MODEL_NOT_LOADED'', ''ModelNotLoaded'', ModelNotLoaded),
      (''MODEL_DISABLED'', ''ModelDisabled'', ModelDisabled),
      (''CONTEXT_LENGTH_EXCEEDED'', ''ContextLengthExceeded'', ContextLengthExceeded),
      (''GPU_OUT_OF_MEMORY'', ''GpuOutOfMemory'', GpuOutOfMemory),
      (''CPU_OVERLOAD'', ''CpuOverload'', CpuOverload),
      (''BRIDGE_PATH_NOT_FOUND'', ''BridgePathNotFound'', BridgePathNotFound),
      (''CONVERTER_NOT_FOUND'', ''ConverterNotFound'', ConverterNotFound),
      (''TARGET_RESTRICTED'', ''TargetRestricted'', TargetRestricted),
      (''UPSTREAM_SERVICE_UNAVAILABLE'', ''UpstreamServiceUnavailable'', UpstreamServiceUnavailable),
      (''UPSTREAM_AUTH_FAILED'', ''UpstreamAuthFailed'', UpstreamAuthFailed)]"

definition parse_code :: "string \<Rightarrow> ravenna_code" where
  "parse_code s =
     (case find (\<lambda>(a, b, _). s = a \<or> s = b) code_table of
        None \<Rightarrow> UnknownCode | Some (_, _, c) \<Rightarrow> c)"

datatype error_class = Transient | Config | PoisonRow | Permanent

datatype pv_error =
    NoEndpoints
  | Transport string string
  | Deadline nat
  | Remote ravenna_code string
  | Decode string
  | UnknownModel string
  | NoEmbedPath string string
  | NoConvertPath string string
  | InvalidInputError string
  | Internal string

fun code_class :: "ravenna_code \<Rightarrow> error_class" where
  "code_class Timeout = Transient"
| "code_class CpuOverload = Transient"
| "code_class GpuOutOfMemory = Transient"
| "code_class UpstreamServiceUnavailable = Transient"
| "code_class InternalError = Transient"
| "code_class UnknownCode = Transient"
| "code_class ModelNotFound = Config"
| "code_class ModelNotLoaded = Config"
| "code_class ModelDisabled = Config"
| "code_class BridgePathNotFound = Config"
| "code_class ConverterNotFound = Config"
| "code_class UpstreamAuthFailed = Config"
| "code_class ContextLengthExceeded = PoisonRow"
| "code_class InvalidInput = Permanent"
| "code_class TargetRestricted = Permanent"

fun error_class_of :: "pv_error \<Rightarrow> error_class" where
  "error_class_of NoEndpoints = Config"
| "error_class_of (Transport _ _) = Transient"
| "error_class_of (Deadline _) = Transient"
| "error_class_of (Remote code _) = code_class code"
| "error_class_of (Decode _) = Permanent"
| "error_class_of (InvalidInputError _) = Permanent"
| "error_class_of (UnknownModel _) = Permanent"
| "error_class_of (NoEmbedPath _ _) = Permanent"
| "error_class_of (NoConvertPath _ _) = Permanent"
| "error_class_of (Internal _) = Permanent"

section \<open>Budgets\<close>

definition RESPONSE_WIRE_BUDGET_BYTES :: nat where "RESPONSE_WIRE_BUDGET_BYTES = 48 * 1024 * 1024"
definition WIRE_BYTES_PER_FLOAT :: nat where "WIRE_BYTES_PER_FLOAT = 12"
definition RESPONSE_TREE_BUDGET_BYTES :: nat where "RESPONSE_TREE_BUDGET_BYTES = 96 * 1024 * 1024"
definition TRANSIENT_TREE_BYTES_PER_FLOAT :: nat where "TRANSIENT_TREE_BYTES_PER_FLOAT = 96"
definition TRANSIENT_TREE_BYTES_PER_ITEM :: nat where "TRANSIENT_TREE_BYTES_PER_ITEM = 256"
definition MAX_REQUEST_ITEMS :: nat where "MAX_REQUEST_ITEMS = 4096"
definition REQUEST_WIRE_BUDGET_BYTES :: nat where "REQUEST_WIRE_BUDGET_BYTES = 48 * 1024 * 1024"

definition u64_max :: nat where "u64_max = 2 ^ 64 - 1"

definition saturating_mul :: "nat \<Rightarrow> nat \<Rightarrow> nat" where
  "saturating_mul a b = min (a * b) u64_max"

definition saturating_add :: "nat \<Rightarrow> nat \<Rightarrow> nat" where
  "saturating_add a b = min (a + b) u64_max"

definition max_items_for_dim :: "int \<Rightarrow> nat" where
  "max_items_for_dim dim =
     (let d = nat (max dim 1);
          wire = RESPONSE_WIRE_BUDGET_BYTES div saturating_mul d WIRE_BYTES_PER_FLOAT;
          trees = RESPONSE_TREE_BUDGET_BYTES div
            saturating_add (saturating_mul d TRANSIENT_TREE_BYTES_PER_FLOAT) TRANSIENT_TREE_BYTES_PER_ITEM
      in min (max (min wire trees) 1) MAX_REQUEST_ITEMS)"

text \<open>The two settings are the parameters \<open>max_document\<close> and \<open>max_batch\<close>.\<close>

definition effective_item_cap :: "int \<Rightarrow> int \<Rightarrow> int" where
  "effective_item_cap max_document max_batch =
     max (min (min max_document max_batch) (int REQUEST_WIRE_BUDGET_BYTES)) 1"

text \<open>The inner loop extends the current sub-batch of \<open>n\<close> texts and \<open>bytes\<close> bytes.\<close>

fun extend_chunk :: "nat \<Rightarrow> nat \<Rightarrow> nat \<Rightarrow> string list \<Rightarrow> nat" where
  "extend_chunk max_items n bytes [] = n"
| "extend_chunk max_items n bytes (t # ts) =
     (if n < max_items \<and> saturating_add bytes (length t) \<le> REQUEST_WIRE_BUDGET_BYTES
      then extend_chunk max_items (n + 1) (saturating_add bytes (length t)) ts
      else n)"

lemma extend_chunk_ge: "n \<le> extend_chunk max_items n bytes ts"
  by (induction ts arbitrary: n bytes) (auto intro: Suc_leD)

function request_chunks_from :: "nat \<Rightarrow> string list \<Rightarrow> string list list" where
  "request_chunks_from max_items [] = []"
| "request_chunks_from max_items (t # ts) =
     (let n = extend_chunk max_items 1 (length t) ts in
      take n (t # ts) # request_chunks_from max_items (drop n (t # ts)))"
  by pat_completeness auto
termination
proof (relation "measure (\<lambda>(m, ts). length ts)")
  fix max_items n :: nat and t :: string and ts
  assume "n = extend_chunk max_items 1 (length t) ts"
  then have "1 \<le> n" using extend_chunk_ge by simp
  then show "((max_items, drop n (t # ts)), max_items, t # ts) \<in> measure (\<lambda>(m, ts). length ts)" by simp
qed simp

definition request_chunks :: "string list \<Rightarrow> int \<Rightarrow> string list list" where
  "request_chunks texts dim = request_chunks_from (max_items_for_dim dim) texts"

section \<open>Bisection\<close>

datatype 'f item_outcome = OutcomeOk "'f list" | OutcomeDead string | OutcomeRetry string

function bisect_embed ::
  "('c \<Rightarrow> string list \<Rightarrow> (pv_error + 'f list list) \<times> 'c) \<Rightarrow> (pv_error \<Rightarrow> string)
   \<Rightarrow> 'c \<Rightarrow> string list \<Rightarrow> (pv_error + (string + 'f list) list) \<times> 'c" where
  "bisect_embed emb display c texts =
     (if texts = [] then (Ok [], c)
      else case emb c texts of
        (Inr vecs, c) \<Rightarrow>
          (if length vecs = length texts then Ok (map Ok vecs)
           else Err (Decode (''embedding count mismatch: got '' @ dec_int (int (length vecs)) @ '', want '' @ dec_int (int (length texts)))), c)
      | (Inl e, c) \<Rightarrow>
          if error_class_of e = PoisonRow
          then (if length texts = 1 then (Ok [Err (display e)], c)
                else let mid = length texts div 2 in
                     case bisect_embed emb display c (take mid texts) of
                       (Inl e, c) \<Rightarrow> (Err e, c)
                     | (Inr out, c) \<Rightarrow>
                         (case bisect_embed emb display c (drop mid texts) of
                            (Inl e, c) \<Rightarrow> (Err e, c)
                          | (Inr out2, c) \<Rightarrow> (Ok (out @ out2), c)))
          else (Err e, c))"
  by pat_completeness auto
termination
proof (relation "measure (\<lambda>(emb, display, c, texts). length texts)")
  fix emb :: "'c \<Rightarrow> string list \<Rightarrow> (pv_error + 'f list list) \<times> 'c"
    and display :: "pv_error \<Rightarrow> string" and c c' :: 'c and texts :: "string list" and mid
  assume "texts \<noteq> []" "length texts \<noteq> 1" "mid = length texts div 2"
  then have "0 < mid" "mid < length texts" by (cases texts; auto)+
  then show "((emb, display, c', take mid texts), emb, display, c, texts)
      \<in> measure (\<lambda>(emb, display, c, texts). length texts)"
    "((emb, display, c', drop mid texts), emb, display, c, texts)
      \<in> measure (\<lambda>(emb, display, c, texts). length texts)" by simp_all
qed simp

declare bisect_embed.simps [simp del]

definition row_outcome :: "('f \<Rightarrow> bool) \<Rightarrow> string + 'f list \<Rightarrow> 'f item_outcome" where
  "row_outcome is_finite row =
     (case row of
        Inr v \<Rightarrow> if list_all is_finite v then OutcomeOk v
                 else OutcomeDead ''model returned a non-finite embedding (NaN/Inf)''
      | Inl poison \<Rightarrow> OutcomeDead poison)"

definition embed_with_bisection ::
  "('f \<Rightarrow> bool) \<Rightarrow> ('c \<Rightarrow> string list \<Rightarrow> (pv_error + 'f list list) \<times> 'c) \<Rightarrow> (pv_error \<Rightarrow> string)
   \<Rightarrow> 'c \<Rightarrow> string list \<Rightarrow> 'f item_outcome list \<times> 'c" where
  "embed_with_bisection is_finite emb display c texts =
     (case bisect_embed emb display c texts of
        (Inr rows, c) \<Rightarrow> (map (row_outcome is_finite) rows, c)
      | (Inl e, c) \<Rightarrow>
          (let outcome = (if error_class_of e = Permanent then OutcomeDead (display e)
                          else OutcomeRetry (display e)) in
           (map (\<lambda>_. outcome) texts, c)))"

fun embed_chunks ::
  "('f \<Rightarrow> bool) \<Rightarrow> ('c \<Rightarrow> string list \<Rightarrow> (pv_error + 'f list list) \<times> 'c) \<Rightarrow> (pv_error \<Rightarrow> string)
   \<Rightarrow> 'c \<Rightarrow> string list list \<Rightarrow> 'f item_outcome list \<times> 'c" where
  "embed_chunks is_finite emb display c [] = ([], c)"
| "embed_chunks is_finite emb display c (chunk # chunks) =
     (case embed_with_bisection is_finite emb display c chunk of
        (out, c) \<Rightarrow> (case embed_chunks is_finite emb display c chunks of (out2, c) \<Rightarrow> (out @ out2, c)))"

definition embed_with_bisection_bounded ::
  "('f \<Rightarrow> bool) \<Rightarrow> ('c \<Rightarrow> string list \<Rightarrow> (pv_error + 'f list list) \<times> 'c) \<Rightarrow> (pv_error \<Rightarrow> string)
   \<Rightarrow> 'c \<Rightarrow> string list \<Rightarrow> int \<Rightarrow> 'f item_outcome list \<times> 'c" where
  "embed_with_bisection_bounded is_finite emb display c texts dim =
     embed_chunks is_finite emb display c (request_chunks texts dim)"

definition all_retry :: "nat \<Rightarrow> string \<Rightarrow> 'f item_outcome list" where
  "all_retry n msg = replicate n (OutcomeRetry msg)"

section \<open>Sub-batches\<close>

definition total_bytes :: "string list \<Rightarrow> nat" where
  "total_bytes ts = sum_list (map length ts)"

lemma saturating_add_le:
  "saturating_add a b \<le> REQUEST_WIRE_BUDGET_BYTES \<Longrightarrow> saturating_add a b = a + b"
  by (auto simp: saturating_add_def REQUEST_WIRE_BUDGET_BYTES_def u64_max_def min_def split: if_splits)

lemma extend_chunk_spec:
  fixes ts :: "string list" and bytes :: nat
  assumes "1 \<le> n" "n \<le> max_items"
  defines "k \<equiv> extend_chunk max_items n bytes ts"
  shows "n \<le> k \<and> k \<le> max_items \<and> k \<le> n + length ts \<and>
    (k = n \<or> bytes + total_bytes (take (k - n) ts) \<le> REQUEST_WIRE_BUDGET_BYTES)"
  unfolding k_def using assms(1,2)
proof (induction ts arbitrary: n bytes)
  case (Cons t ts)
  show ?case
  proof (cases "n < max_items \<and> saturating_add bytes (length t) \<le> REQUEST_WIRE_BUDGET_BYTES")
    case True
    then have sum: "saturating_add bytes (length t) = bytes + length t" using saturating_add_le by blast
    let ?k = "extend_chunk max_items (n + 1) (bytes + length t) ts"
    have ih: "n + 1 \<le> ?k \<and> ?k \<le> max_items \<and> ?k \<le> n + 1 + length ts \<and>
        (?k = n + 1 \<or> bytes + length t + total_bytes (take (?k - (n + 1)) ts) \<le> REQUEST_WIRE_BUDGET_BYTES)"
      using Cons(1) [of "n + 1" "bytes + length t"] Cons(2,3) True by simp
    then have "?k - n = Suc (?k - (n + 1))" by linarith
    then have "take (?k - n) (t # ts) = t # take (?k - (n + 1)) ts" by simp
    then show ?thesis using ih True sum by (auto simp: total_bytes_def)
  qed (use Cons(3) in auto)
qed simp

lemma max_items_pos: "1 \<le> max_items_for_dim dim" "max_items_for_dim dim \<le> MAX_REQUEST_ITEMS"
  by (simp_all add: max_items_for_dim_def Let_def MAX_REQUEST_ITEMS_def)

lemma request_chunks_spec:
  assumes "1 \<le> max_items"
  shows "concat (request_chunks_from max_items texts) = texts \<and>
    (\<forall>c \<in> set (request_chunks_from max_items texts). c \<noteq> [] \<and> length c \<le> max_items \<and>
       (length c = 1 \<or> total_bytes c \<le> REQUEST_WIRE_BUDGET_BYTES))"
  using assms
proof (induction max_items texts rule: request_chunks_from.induct)
  case (2 max_items t ts)
  define n where "n = extend_chunk max_items 1 (length t) ts"
  have n: "1 \<le> n" "n \<le> max_items" "n \<le> 1 + length ts"
    "n = 1 \<or> length t + total_bytes (take (n - 1) ts) \<le> REQUEST_WIRE_BUDGET_BYTES"
    using extend_chunk_spec [of 1 max_items "length t" ts] 2(2) by (simp_all add: n_def)
  have tk: "take n (t # ts) = t # take (n - 1) ts" using n(1) by (cases n) auto
  have "length (take n (t # ts)) \<le> max_items" "take n (t # ts) \<noteq> []" using n by (simp_all add: tk)
  moreover have "length (take n (t # ts)) = 1 \<or> total_bytes (take n (t # ts)) \<le> REQUEST_WIRE_BUDGET_BYTES"
    using n(3,4) by (auto simp: tk total_bytes_def)
  moreover have "request_chunks_from max_items (t # ts) = take n (t # ts) # request_chunks_from max_items (drop n (t # ts))"
    by (simp add: n_def Let_def)
  ultimately show ?case
    using 2(1) [OF n_def 2(2)] by (simp del: take_Cons drop_Cons request_chunks_from.simps)
qed simp

text \<open>
  Sub-batching loses nothing and respects every budget. The sub-batches concatenate back to
  the texts in order, none is empty, none holds more items than the dimension allows (at most
  4096), and each stays within the request budget unless it is a single text. The item bound
  itself respects the response budgets: unless it is 1, that many vectors of the dimension fit
  both the wire and the decoded-tree budget.
\<close>
theorem request_chunks_ok:
  assumes "dim < 2 ^ 31"
  shows "concat (request_chunks texts dim) = texts \<and>
    (\<forall>c \<in> set (request_chunks texts dim). c \<noteq> [] \<and> length c \<le> max_items_for_dim dim \<and>
       (length c = 1 \<or> total_bytes c \<le> REQUEST_WIRE_BUDGET_BYTES)) \<and>
    max_items_for_dim dim \<le> 4096 \<and>
    (max_items_for_dim dim = 1 \<or>
       max_items_for_dim dim * (nat (max dim 1) * 12) \<le> RESPONSE_WIRE_BUDGET_BYTES \<and>
       max_items_for_dim dim * (nat (max dim 1) * 96 + 256) \<le> RESPONSE_TREE_BUDGET_BYTES)"
proof -
  let ?d = "nat (max dim 1)"
  have d: "?d < 2 ^ 31" using assms by auto
  then have sat: "saturating_mul ?d 12 = ?d * 12" "saturating_add (saturating_mul ?d 96) 256 = ?d * 96 + 256"
    by (simp_all add: saturating_mul_def saturating_add_def u64_max_def)
  let ?k = "min (RESPONSE_WIRE_BUDGET_BYTES div (?d * 12)) (RESPONSE_TREE_BUDGET_BYTES div (?d * 96 + 256))"
  have k: "max_items_for_dim dim = min (max ?k 1) 4096"
    using sat by (simp add: max_items_for_dim_def Let_def WIRE_BYTES_PER_FLOAT_def
        TRANSIENT_TREE_BYTES_PER_FLOAT_def TRANSIENT_TREE_BYTES_PER_ITEM_def MAX_REQUEST_ITEMS_def)
  have "m * (?d * 12) \<le> RESPONSE_WIRE_BUDGET_BYTES \<and> m * (?d * 96 + 256) \<le> RESPONSE_TREE_BUDGET_BYTES"
    if "m \<le> ?k" for m
  proof -
    have "m * (?d * 12) \<le> RESPONSE_WIRE_BUDGET_BYTES div (?d * 12) * (?d * 12)"
      "m * (?d * 96 + 256) \<le> RESPONSE_TREE_BUDGET_BYTES div (?d * 96 + 256) * (?d * 96 + 256)"
      using that by (intro mult_le_mono1, simp)+
    then show ?thesis using div_times_less_eq_dividend by (meson order_trans)
  qed
  moreover have "max_items_for_dim dim = 1 \<or> max_items_for_dim dim \<le> ?k" unfolding k by linarith
  ultimately show ?thesis
    using request_chunks_spec [OF max_items_pos(1), of dim texts] max_items_pos(2) [of dim]
    by (auto simp: request_chunks_def MAX_REQUEST_ITEMS_def)
qed

theorem request_chunks_ok_witness:
  "concat (request_chunks [''a'', ''bc''] 1536) = [''a'', ''bc''] \<and> max_items_for_dim 1536 \<le> 4096"
  using request_chunks_ok [of 1536 "[''a'', ''bc'']"] by simp

section \<open>Outcomes are parallel to the texts\<close>

lemma bisect_length:
  "bisect_embed emb display c texts = (Inr rows, c') \<Longrightarrow> length rows = length texts"
proof (induction emb display c texts arbitrary: rows c' rule: bisect_embed.induct)
  case (1 emb display c texts)
  show ?case
  proof (cases "\<exists>e c1. emb c texts = (Inl e, c1) \<and> error_class_of e = PoisonRow \<and> length texts \<noteq> 1 \<and> texts \<noteq> []")
    case False
    then show ?thesis
      using 1(3) by (subst (asm) bisect_embed.simps)
        (auto split: if_splits sum.splits prod.splits)
  next
    case True
    then obtain e c1 where e: "emb c texts = (Inl e, c1)" "error_class_of e = PoisonRow"
      and t: "length texts \<noteq> 1" "texts \<noteq> []" by blast
    let ?mid = "length texts div 2"
    obtain out c2 out2 where halves:
      "bisect_embed emb display c1 (take ?mid texts) = (Inr out, c2)"
      "bisect_embed emb display c2 (drop ?mid texts) = (Inr out2, c')" "rows = out @ out2"
      using 1(3) e t by (subst (asm) bisect_embed.simps)
        (auto simp: Let_def split: sum.splits prod.splits)
    have "length out = length (take ?mid texts)"
      using 1(1) [OF t(2) e(1) [symmetric] refl e(2) t(1) refl halves(1)] .
    moreover have "length out2 = length (drop ?mid texts)"
      using 1(2) [OF t(2) e(1) [symmetric] refl e(2) t(1) refl halves(1) [symmetric] refl halves(2)] .
    ultimately show ?thesis using halves(3) by simp
  qed
qed

lemma embed_with_bisection_length:
  "length (fst (embed_with_bisection is_finite emb display c texts)) = length texts"
  by (auto simp: embed_with_bisection_def Let_def dest: bisect_length split: prod.splits sum.splits)

lemma embed_chunks_length:
  "length (fst (embed_chunks is_finite emb display c chunks)) = length (concat chunks)"
proof (induction chunks arbitrary: c)
  case (Cons chunk chunks)
  show ?case
    using Cons embed_with_bisection_length [of is_finite emb display c chunk]
    by (simp split: prod.splits) (metis fst_conv)
qed simp

lemma request_chunks_concat: "concat (request_chunks texts dim) = texts"
  using request_chunks_spec [OF max_items_pos(1)] by (simp add: request_chunks_def)

text \<open>
  Whatever the inference service answers (wrong counts, errors of any class, a different
  answer on every call), the network phase returns exactly one outcome per text, so outcomes can
  be matched with jobs by position.
\<close>
lemma embed_outcomes_parallel:
  "length (fst (embed_with_bisection_bounded is_finite emb display c texts dim)) = length texts"
  by (simp add: embed_with_bisection_bounded_def embed_chunks_length request_chunks_concat)

section \<open>Poison rows are isolated\<close>

definition poison_client ::
  "(string \<Rightarrow> bool) \<Rightarrow> (string list \<Rightarrow> pv_error) \<Rightarrow> (string \<Rightarrow> 'f list)
   \<Rightarrow> ('c \<Rightarrow> string list \<Rightarrow> (pv_error + 'f list list) \<times> 'c) \<Rightarrow> bool" where
  "poison_client poison err vec emb \<longleftrightarrow>
     (\<forall>c ts. fst (emb c ts) = (if list_ex poison ts then Inl (err ts) else Inr (map vec ts))) \<and>
     (\<forall>ts. error_class_of (err ts) = PoisonRow)"

lemma poison_clientD:
  assumes "poison_client poison err vec emb"
  obtains c' where "emb c ts = (if list_ex poison ts then Inl (err ts) else Inr (map vec ts), c')"
proof -
  have "fst (emb c ts) = (if list_ex poison ts then Inl (err ts) else Inr (map vec ts))"
    using assms by (simp add: poison_client_def)
  then show thesis using that [of "snd (emb c ts)"] by (metis prod.collapse)
qed

lemma bisect_isolates:
  assumes "poison_client poison err vec emb"
  shows "fst (bisect_embed emb display c texts) =
    Inr (map (\<lambda>t. if poison t then Inl (display (err [t])) else Inr (vec t)) texts)"
  using assms
proof (induction emb display c texts rule: bisect_embed.induct)
  case (1 emb display c texts)
  let ?row = "\<lambda>t. if poison t then Inl (display (err [t])) else Inr (vec t)"
  have cls: "error_class_of (err ts) = PoisonRow" for ts using 1(3) by (simp add: poison_client_def)
  obtain c1 where e: "emb c texts = (if list_ex poison texts then Inl (err texts) else Inr (map vec texts), c1)"
    using poison_clientD [OF 1(3)] .
  show ?case
  proof (cases "list_ex poison texts \<and> length texts \<noteq> 1")
    case False
    then show ?thesis
      by (subst bisect_embed.simps)
        (auto simp: e cls length_Suc_conv list_ex_iff)
  next
    case True
    then have t: "texts \<noteq> []" "length texts \<noteq> 1" and e': "emb c texts = (Inl (err texts), c1)"
      using e by auto
    let ?mid = "length texts div 2"
    obtain c2 where h1: "bisect_embed emb display c1 (take ?mid texts) = (Inr (map ?row (take ?mid texts)), c2)"
      using 1(1) [OF t(1) e' [symmetric] refl cls t(2) refl 1(3)] by (metis prod.collapse)
    obtain c3 where h2: "bisect_embed emb display c2 (drop ?mid texts) = (Inr (map ?row (drop ?mid texts)), c3)"
      using 1(2) [OF t(1) e' [symmetric] refl cls t(2) refl h1 [symmetric] refl 1(3)] by (metis prod.collapse)
    show ?thesis using t
      by (subst bisect_embed.simps) (simp add: e' cls Let_def h1 h2 flip: map_append)
  qed
qed

lemma embed_chunks_isolates:
  assumes "poison_client poison err vec emb"
  shows "fst (embed_chunks is_finite emb display c chunks) =
    map (\<lambda>t. row_outcome is_finite (if poison t then Inl (display (err [t])) else Inr (vec t))) (concat chunks)"
proof (induction chunks arbitrary: c)
  case (Cons chunk chunks)
  have "fst (embed_with_bisection is_finite emb display c chunk) =
      map (\<lambda>t. row_outcome is_finite (if poison t then Inl (display (err [t])) else Inr (vec t))) chunk"
    using bisect_isolates [OF assms, of display c chunk]
    by (simp add: embed_with_bisection_def case_prod_beta)
  then show ?case using Cons by (simp add: case_prod_beta)
qed simp

text \<open>
  C21. Bisection isolates the poison rows exactly. When the service refuses every request that
  contains a poison text (with an error of the poison class) and embeds every other request text
  by text, then, whatever the batch, its sub-batches and the state of the service, each poison
  text alone is dead-lettered with the error the service gives for it alone, and every other text
  gets its own vector, dead-lettered only when the vector is not finite.
\<close>
theorem poison_rows_isolated:
  assumes "poison_client poison err vec emb"
  shows "fst (embed_with_bisection_bounded is_finite emb display c texts dim) =
    map (\<lambda>t. if poison t then OutcomeDead (display (err [t]))
             else if list_all is_finite (vec t) then OutcomeOk (vec t)
             else OutcomeDead ''model returned a non-finite embedding (NaN/Inf)'') texts"
  by (auto simp: embed_with_bisection_bounded_def embed_chunks_isolates [OF assms] request_chunks_concat
      row_outcome_def)

definition sample_client :: "unit \<Rightarrow> string list \<Rightarrow> (pv_error + int list list) \<times> unit" where
  "sample_client c ts =
     (if list_ex (\<lambda>t. t = ''long'') ts then Inl (Remote ContextLengthExceeded ''too long'')
      else Inr (map (\<lambda>t. [int (length t)]) ts), c)"

theorem poison_rows_isolated_witness:
  "fst (embed_with_bisection_bounded (\<lambda>_. True) sample_client (\<lambda>_. ''too long'') () [''a'', ''long'', ''bc''] 768) =
     [OutcomeOk [1], OutcomeDead ''too long'', OutcomeOk [2]]"
proof -
  have "poison_client (\<lambda>t. t = ''long'') (\<lambda>_. Remote ContextLengthExceeded ''too long'')
      (\<lambda>t. [int (length t)]) sample_client"
    by (simp add: poison_client_def sample_client_def)
  from poison_rows_isolated [OF this, of "\<lambda>_. True" "\<lambda>_. ''too long''" "()" "[''a'', ''long'', ''bc'']" 768]
  show ?thesis by simp
qed

end
