(* ===== verification/WriteBack.thy ===== *)
theory WriteBack
  imports Queue Embed
begin

text \<open>
  The write-back phase of \<open>postvec/src/jobs.rs\<close>: the routing of an entry's embeddings while a
  migration is live, the split of a group into rows with and without text, the application of the
  outcomes of the network phase (theory \<open>Embed\<close>) to the job table (theory \<open>Queue\<close>), and the
  row-by-row fallback.

  The catalogue (\<open>missing\<close>, the reason why an entry's relation or columns are gone), the chunk rows
  that exist (\<open>chunk_exists\<close>) and the printing of floats (\<open>show_f\<close>) are parameters.
\<close>

section \<open>Routing\<close>

record routing =
  rt_migration :: "int option"
  rt_model :: string
  rt_space :: "string option"
  rt_vector_column :: string
  rt_dim :: int

text \<open>\<open>ORDER BY id DESC LIMIT 1\<close> over the live migrations of the entry.\<close>

definition live_migration :: "int \<Rightarrow> db \<Rightarrow> migration option" where
  "live_migration rid d =
     (case filter (\<lambda>m. mg_registry m = rid \<and> is_live_state (mg_state m)) (db_migrations d) of
        [] \<Rightarrow> None
      | m # ms \<Rightarrow> Some (fold (\<lambda>m best. if mg_id m > mg_id best then m else best) ms m))"

definition embed_routing :: "registry_entry \<Rightarrow> db \<Rightarrow> routing" where
  "embed_routing entry d =
     (let own = \<lparr>rt_migration = None, rt_model = re_model entry, rt_space = re_space entry,
                 rt_vector_column = re_vector_column entry, rt_dim = re_dim entry\<rparr> in
      if re_state entry = ''migrating'' then
        (case live_migration (re_id entry) d of
           Some m \<Rightarrow> \<lparr>rt_migration = Some (mg_id m), rt_model = mg_new_model m, rt_space = mg_space m,
                      rt_vector_column = mg_new_column m, rt_dim = mg_new_dim m\<rparr>
         | None \<Rightarrow> own)
      else own)"

section \<open>Items\<close>

record job_item =
  it_job_id :: int
  it_pk :: string
  it_chunk :: "int option"
  it_attempts :: int
  it_text :: "string option"

type_synonym null_job = "int \<times> string"
type_synonym embed_job = "int \<times> string \<times> int option \<times> int \<times> string"

fun split_items :: "job_item list \<Rightarrow> null_job list \<times> embed_job list" where
  "split_items [] = ([], [])"
| "split_items (it # its) =
     (case split_items its of
        (null_jobs, embed_jobs) \<Rightarrow>
          (case it_text it of
             None \<Rightarrow> ((it_job_id it, it_pk it) # null_jobs, embed_jobs)
           | Some t \<Rightarrow> (null_jobs, (it_job_id it, it_pk it, it_chunk it, it_attempts it, t) # embed_jobs)))"

section \<open>Applying the outcomes of a group\<close>

definition group_ids :: "null_job list \<Rightarrow> embed_job list \<Rightarrow> int list" where
  "group_ids null_jobs embed_jobs = map fst null_jobs @ map fst embed_jobs"

definition write_chunk_vectors ::
  "(registry_entry \<Rightarrow> int \<Rightarrow> string \<Rightarrow> bool) \<Rightarrow> registry_entry \<Rightarrow> string \<Rightarrow> int list \<Rightarrow> string list
   \<Rightarrow> string list \<Rightarrow> db \<Rightarrow> int \<times> db" where
  "write_chunk_vectors chunk_exists entry column chunk_ids pks vecs d =
     (int (length (remdups (map fst (filter (\<lambda>(cid, pk). chunk_exists entry cid pk) (zip chunk_ids pks))))),
      d\<lparr>db_writes := db_writes d @ [WriteChunkVectors (re_id entry) column (zip chunk_ids (zip pks vecs))]\<rparr>)"

definition write_vectors :: "registry_entry \<Rightarrow> string \<Rightarrow> string list \<Rightarrow> string list \<Rightarrow> db \<Rightarrow> db" where
  "write_vectors entry column pks vecs d =
     d\<lparr>db_writes := db_writes d @ [WriteVectors (re_id entry) column (zip pks vecs)]\<rparr>"

text \<open>The rows accepted for the bulk write, in step with the loop over the outcomes.\<close>

record ok_rows =
  ok_pks :: "string list"
  ok_chunks :: "int list"
  ok_vecs :: "string list"
  ok_ids :: "int list"

definition dims_error :: "nat \<Rightarrow> int \<Rightarrow> string" where
  "dims_error n dim = ''model returned '' @ dec n @ '' dims, column is vector('' @ dec_int dim @ '')''"

fun apply_outcomes ::
  "('f \<Rightarrow> string) \<Rightarrow> int \<Rightarrow> int \<Rightarrow> int \<Rightarrow> int \<Rightarrow> (embed_job \<times> 'f item_outcome) list
   \<Rightarrow> ok_rows \<Rightarrow> applied \<Rightarrow> db \<Rightarrow> ok_rows \<times> applied \<times> db" where
  "apply_outcomes show_f now dim max_retries backoff_ms [] ok ap d = (ok, ap, d)"
| "apply_outcomes show_f now dim max_retries backoff_ms (((job_id, pk, chunk_id, attempts, _), outcome) # rest) ok ap d =
     (case outcome of
        OutcomeOk v \<Rightarrow>
          if int (length v) \<noteq> dim
          then apply_outcomes show_f now dim max_retries backoff_ms rest ok (ap\<lparr>ap_dead := ap_dead ap + 1\<rparr>)
                 (move_to_dead [job_id] (dims_error (length v) dim) d)
          else apply_outcomes show_f now dim max_retries backoff_ms rest
                 (ok\<lparr>ok_pks := ok_pks ok @ [pk],
                     ok_chunks := ok_chunks ok @ [case chunk_id of None \<Rightarrow> 0 | Some c \<Rightarrow> c],
                     ok_vecs := ok_vecs ok @ [serialize_vector show_f v],
                     ok_ids := ok_ids ok @ [job_id]\<rparr>) ap d
      | OutcomeDead err \<Rightarrow>
          apply_outcomes show_f now dim max_retries backoff_ms rest ok (ap\<lparr>ap_dead := ap_dead ap + 1\<rparr>)
            (move_to_dead [job_id] err d)
      | OutcomeRetry err \<Rightarrow>
          if attempts > max_retries
          then apply_outcomes show_f now dim max_retries backoff_ms rest ok (ap\<lparr>ap_dead := ap_dead ap + 1\<rparr>)
                 (move_to_dead [job_id] (''retries exhausted: '' @ err) d)
          else apply_outcomes show_f now dim max_retries backoff_ms rest ok (ap\<lparr>ap_retried := ap_retried ap + 1\<rparr>)
                 (retry_job now job_id attempts err backoff_ms d))"

text \<open>The bulk write of the accepted rows, and the notification.\<close>

definition write_ok ::
  "(registry_entry \<Rightarrow> int \<Rightarrow> string \<Rightarrow> bool) \<Rightarrow> registry_entry \<Rightarrow> string \<Rightarrow> ok_rows \<Rightarrow> applied \<Rightarrow> db
   \<Rightarrow> applied \<times> db" where
  "write_ok chunk_exists entry column ok ap d =
     (if ok_ids ok = [] then (ap, d)
      else if is_recursive entry
      then (case write_chunk_vectors chunk_exists entry column (ok_chunks ok) (ok_pks ok) (ok_vecs ok) d of
              (written, d) \<Rightarrow> (ap\<lparr>ap_done := ap_done ap + written\<rparr>, delete_jobs (ok_ids ok) d))
      else (ap\<lparr>ap_done := ap_done ap + int (length (ok_ids ok))\<rparr>,
            delete_jobs (ok_ids ok) (write_vectors entry column (ok_pks ok) (ok_vecs ok) d)))"

definition null_rows :: "registry_entry \<Rightarrow> string \<Rightarrow> null_job list \<Rightarrow> applied \<Rightarrow> db \<Rightarrow> applied \<times> db" where
  "null_rows entry fresh_column null_jobs ap d =
     (if null_jobs = [] then (ap, d)
      else let cols = [re_vector_column entry] @
                 (if fresh_column \<noteq> re_vector_column entry then [fresh_column] else []);
               d = d\<lparr>db_writes := db_writes d @ [NullVectors (re_id entry) cols (map snd null_jobs)]\<rparr>
           in (ap\<lparr>ap_nulled := ap_nulled ap + int (length null_jobs)\<rparr>, delete_jobs (map fst null_jobs) d))"

definition notify_write :: "bool \<Rightarrow> registry_entry \<Rightarrow> applied \<Rightarrow> db \<Rightarrow> db" where
  "notify_write notify entry ap d =
     (if ap_done ap + ap_nulled ap > 0 \<and> notify
      then d\<lparr>db_writes := db_writes d @ [Notify (re_id entry)]\<rparr> else d)"

definition apply_group ::
  "('f \<Rightarrow> string) \<Rightarrow> (registry_entry \<Rightarrow> string list \<Rightarrow> string option) \<Rightarrow> (registry_entry \<Rightarrow> int \<Rightarrow> string \<Rightarrow> bool)
   \<Rightarrow> bool \<Rightarrow> int \<Rightarrow> int \<Rightarrow> routing \<Rightarrow> null_job list \<Rightarrow> embed_job list \<Rightarrow> 'f item_outcome list
   \<Rightarrow> int \<Rightarrow> int \<Rightarrow> db \<Rightarrow> applied \<times> db" where
  "apply_group show_f missing chunk_exists notify now registry_id expected null_jobs embed_jobs outcomes
     max_retries backoff_ms d =
     (case load_entry registry_id d of
        None \<Rightarrow> (no_applied, delete_jobs (group_ids null_jobs embed_jobs) d)
      | Some entry \<Rightarrow>
          if re_state entry = ''disabled'' then (no_applied, delete_jobs (group_ids null_jobs embed_jobs) d)
          else
            let fresh = embed_routing entry d in
            case missing entry [] of
              Some reason \<Rightarrow> (no_applied, quarantine_entry entry reason d)
            | None \<Rightarrow>
                (case (if rt_vector_column fresh \<noteq> re_vector_column entry
                       then missing entry [rt_vector_column fresh] else None) of
                   Some reason \<Rightarrow>
                     let d = (case rt_migration fresh of Some mid \<Rightarrow> fail_migration mid reason d | None \<Rightarrow> d);
                         ids = group_ids null_jobs embed_jobs
                     in (no_applied\<lparr>ap_retried := int (length ids)\<rparr>, unclaim_jobs now ids 0 reason False d)
                 | None \<Rightarrow>
                     (case null_rows entry (rt_vector_column fresh) null_jobs no_applied d of
                        (ap, d) \<Rightarrow>
                          if embed_jobs \<noteq> [] \<and> fresh \<noteq> expected
                          then (ap\<lparr>ap_retried := ap_retried ap + int (length embed_jobs)\<rparr>,
                                unclaim_jobs now (map fst embed_jobs) 0
                                  ''embed routing changed mid-flight (migration)'' False d)
                          else
                            (case apply_outcomes show_f now (rt_dim fresh) max_retries backoff_ms
                                    (zip embed_jobs outcomes)
                                    \<lparr>ok_pks = [], ok_chunks = [], ok_vecs = [], ok_ids = []\<rparr> ap d of
                               (ok, ap, d) \<Rightarrow>
                                 (case write_ok chunk_exists entry (rt_vector_column fresh) ok ap d of
                                    (ap, d) \<Rightarrow> (ap, notify_write notify entry ap d))))))"

section \<open>Row by row\<close>

definition add_applied :: "applied \<Rightarrow> applied \<Rightarrow> applied" where
  "add_applied a b =
     \<lparr>ap_done = ap_done a + ap_done b, ap_nulled = ap_nulled a + ap_nulled b,
      ap_retried = ap_retried a + ap_retried b, ap_dead = ap_dead a + ap_dead b\<rparr>"

text \<open>
  \<open>apply\<close> is one transaction: it answers the applied counts and the new state, or an error, in
  which case its transaction was rolled back and \<open>release\<close> runs on the state before it.
\<close>

fun apply_rows_loop ::
  "(null_job list \<Rightarrow> embed_job list \<Rightarrow> 'f item_outcome list \<Rightarrow> db \<Rightarrow> string + applied \<times> db)
   \<Rightarrow> (int \<Rightarrow> string \<Rightarrow> db \<Rightarrow> applied \<times> db)
   \<Rightarrow> (int \<times> null_job list \<times> embed_job list \<times> 'f item_outcome list) list \<Rightarrow> applied \<Rightarrow> db \<Rightarrow> applied \<times> db" where
  "apply_rows_loop apply1 release [] tot d = (tot, d)"
| "apply_rows_loop apply1 release ((i, n, e, out) # rows) tot d =
     (case (case apply1 n e out d of Inr r \<Rightarrow> r | Inl err \<Rightarrow> release i err d) of
        (ap, d) \<Rightarrow> apply_rows_loop apply1 release rows (add_applied tot ap) d)"

definition apply_rows ::
  "null_job list \<Rightarrow> embed_job list \<Rightarrow> 'f item_outcome list
   \<Rightarrow> (null_job list \<Rightarrow> embed_job list \<Rightarrow> 'f item_outcome list \<Rightarrow> db \<Rightarrow> string + applied \<times> db)
   \<Rightarrow> (int \<Rightarrow> string \<Rightarrow> db \<Rightarrow> applied \<times> db) \<Rightarrow> db \<Rightarrow> applied \<times> db" where
  "apply_rows null_jobs embed_jobs outcomes apply1 release d =
     apply_rows_loop apply1 release
       (map (\<lambda>j. (fst j, [j], [], [])) null_jobs @
        map (\<lambda>(j, out). (fst j, [], [j], [out])) (zip embed_jobs outcomes))
       no_applied d"

section \<open>What an outcome means for its job\<close>

datatype 'f verdict = Written "'f list" | DeadLettered string | Released

definition verdict_of :: "int \<Rightarrow> int \<Rightarrow> int \<Rightarrow> 'f item_outcome \<Rightarrow> 'f verdict" where
  "verdict_of dim max_retries attempts out =
     (case out of
        OutcomeOk v \<Rightarrow> if int (length v) = dim then Written v else DeadLettered (dims_error (length v) dim)
      | OutcomeDead err \<Rightarrow> DeadLettered err
      | OutcomeRetry err \<Rightarrow> if attempts > max_retries then DeadLettered (''retries exhausted: '' @ err) else Released)"

definition pair_verdict :: "int \<Rightarrow> int \<Rightarrow> embed_job \<times> 'f item_outcome \<Rightarrow> 'f verdict" where
  "pair_verdict dim max_retries p = (case p of ((_, _, _, attempts, _), out) \<Rightarrow> verdict_of dim max_retries attempts out)"

definition is_written :: "int \<Rightarrow> int \<Rightarrow> embed_job \<times> 'f item_outcome \<Rightarrow> bool" where
  "is_written dim max_retries p = (case pair_verdict dim max_retries p of Written _ \<Rightarrow> True | _ \<Rightarrow> False)"

definition is_dead :: "'f verdict \<Rightarrow> bool" where
  "is_dead v = (case v of DeadLettered _ \<Rightarrow> True | _ \<Rightarrow> False)"

definition written_vector :: "('f \<Rightarrow> string) \<Rightarrow> embed_job \<times> 'f item_outcome \<Rightarrow> string" where
  "written_vector show_f p = (case snd p of OutcomeOk v \<Rightarrow> serialize_vector show_f v | _ \<Rightarrow> [])"

definition add_ok :: "('f \<Rightarrow> string) \<Rightarrow> (embed_job \<times> 'f item_outcome) list \<Rightarrow> ok_rows \<Rightarrow> ok_rows" where
  "add_ok show_f ps ok =
     \<lparr>ok_pks = ok_pks ok @ map (\<lambda>p. fst (snd (fst p))) ps,
      ok_chunks = ok_chunks ok @ map (\<lambda>p. case fst (snd (snd (fst p))) of None \<Rightarrow> 0 | Some c \<Rightarrow> c) ps,
      ok_vecs = ok_vecs ok @ map (written_vector show_f) ps,
      ok_ids = ok_ids ok @ map (fst \<circ> fst) ps\<rparr>"

text \<open>A job that is not written ends dead-lettered with its message, or pending under its key.\<close>

definition settled :: "'f verdict \<Rightarrow> job \<Rightarrow> db \<Rightarrow> bool" where
  "settled v j d =
     (case v of
        Written _ \<Rightarrow> True
      | DeadLettered msg \<Rightarrow> j\<lparr>jb_error := Some (left_chars 1024 msg)\<rparr> \<in> set (db_dead d)
      | Released \<Rightarrow> job_key j \<in> set (pending_keys (db_jobs d)))"

definition claimed_ids :: "int list \<Rightarrow> db \<Rightarrow> bool" where
  "claimed_ids ids d \<longleftrightarrow> list_all (\<lambda>i. i < db_next d) ids \<and> list_all (\<lambda>j. has_id ids j \<longrightarrow> \<not> is_pending j) (db_jobs d)"

lemma claimed_ids_sub: "claimed_ids ids d \<Longrightarrow> set ids' \<subseteq> set ids \<Longrightarrow> claimed_ids ids' d"
  by (auto simp: claimed_ids_def list_all_iff has_id_def)

lemma claimed_ids_disposes:
  assumes "disposes a d d'" "claimed_ids ids d" shows "claimed_ids ids d'"
proof -
  have "\<not> is_pending j" if j: "j \<in> set (db_jobs d')" "has_id ids j" for j
    using assms(1) j(1)
  proof (cases rule: disposes_origin)
    case kept
    then show ?thesis using assms(2) j(2) by (auto simp: claimed_ids_def list_all_iff)
  next
    case queued
    then show ?thesis using assms(2) j(2) by (force simp: claimed_ids_def list_all_iff has_id_def re_queued_def)
  qed
  then show ?thesis using assms by (force simp: claimed_ids_def disposes_def list_all_iff)
qed

lemma settled_disposes:
  assumes "disposes a d d'" "claimed_ids a d" "settled v j d" shows "settled v j d'"
proof (cases v)
  case Released
  then obtain k where "k \<in> set (db_jobs d)" "is_pending k" "job_key k = job_key j"
    using assms(3) by (auto simp: settled_def pending_keys_iff)
  moreover then have "\<not> has_id a k" using assms(2) by (auto simp: claimed_ids_def list_all_iff)
  ultimately show ?thesis using disposes_kept [OF assms(1)] Released
    by (auto simp: settled_def pending_keys_iff)
qed (use assms disposes_dead in \<open>auto simp: settled_def\<close>)

definition apply_one :: "int \<Rightarrow> int \<Rightarrow> int \<Rightarrow> int \<Rightarrow> embed_job \<times> 'f item_outcome \<Rightarrow> db \<Rightarrow> db" where
  "apply_one now dim max_retries backoff_ms p d =
     (case pair_verdict dim max_retries p of
        Written _ \<Rightarrow> d
      | DeadLettered msg \<Rightarrow> move_to_dead [fst (fst p)] msg d
      | Released \<Rightarrow> (case p of ((job_id, _, _, attempts, _), OutcomeRetry err) \<Rightarrow>
                       retry_job now job_id attempts err backoff_ms d | _ \<Rightarrow> d))"

lemma apply_outcomes_fold:
  "apply_outcomes show_f now dim max_retries backoff_ms ps ok ap d = (ok', ap', d') \<Longrightarrow>
   ok' = add_ok show_f (filter (is_written dim max_retries) ps) ok \<and>
   d' = fold (apply_one now dim max_retries backoff_ms) ps d \<and> ap_done ap' = ap_done ap \<and> ap_nulled ap' = ap_nulled ap \<and>
   ap_dead ap' = ap_dead ap + int (length (filter (\<lambda>p. is_dead (pair_verdict dim max_retries p)) ps)) \<and>
   ap_retried ap' = ap_retried ap + int (length (filter (\<lambda>p. pair_verdict dim max_retries p = Released) ps))"
proof (induction show_f now dim max_retries backoff_ms ps ok ap d
    rule: apply_outcomes.induct)
  case (2 show_f now dim max_retries backoff_ms job_id pk chunk_id attempts t outcome rest ok ap d)
  then show ?case
    by (cases outcome)
      (auto simp: add_ok_def is_written_def is_dead_def pair_verdict_def verdict_of_def apply_one_def written_vector_def
        split: if_splits)
qed (simp add: add_ok_def)

lemma apply_one_disposes:
  assumes "queue_inv d"
  shows "disposes (if is_written dim max_retries p then [] else [fst (fst p)]) d
      (apply_one now dim max_retries backoff_ms p d)"
    and "j \<in> set (db_jobs d) \<Longrightarrow> jb_id j = fst (fst p) \<Longrightarrow>
      settled (pair_verdict dim max_retries p) j (apply_one now dim max_retries backoff_ms p d)"
proof -
  obtain job_id pk chunk attempts t out where p: "p = ((job_id, pk, chunk, attempts, t), out)"
    by (cases p) auto
  have "disposes (if is_written dim max_retries p then [] else [fst (fst p)]) d
      (apply_one now dim max_retries backoff_ms p d) \<and>
    (j \<in> set (db_jobs d) \<and> jb_id j = fst (fst p) \<longrightarrow>
      settled (pair_verdict dim max_retries p) j (apply_one now dim max_retries backoff_ms p d))"
  proof (cases "pair_verdict dim max_retries p")
    case (Written v)
    then show ?thesis using assms disposes_none by (simp add: is_written_def apply_one_def settled_def)
  next
    case (DeadLettered msg)
    then show ?thesis using dead_op.dispose_contract [OF assms] move_to_dead_in [of j d "[fst (fst p)]" msg]
      by (simp add: is_written_def apply_one_def settled_def has_id_def)
  next
    case Released
    then obtain err where out: "out = OutcomeRetry err"
      by (cases out) (auto simp: p pair_verdict_def verdict_of_def split: if_splits)
    have eq: "apply_one now dim max_retries backoff_ms p d =
        unclaim_jobs_inner now [job_id] (backoff_delay backoff_ms attempts) err False False d"
      using Released by (simp add: apply_one_def p out retry_job_def unclaim_jobs_def)
    show ?thesis
      using Released unclaim_op.dispose_contract [OF assms] unclaim_pending [OF assms, of j "[job_id]"]
      unfolding eq by (simp add: is_written_def settled_def p has_id_def)
  qed
  then show "disposes (if is_written dim max_retries p then [] else [fst (fst p)]) d
      (apply_one now dim max_retries backoff_ms p d)"
    "j \<in> set (db_jobs d) \<Longrightarrow> jb_id j = fst (fst p) \<Longrightarrow>
      settled (pair_verdict dim max_retries p) j (apply_one now dim max_retries backoff_ms p d)" by blast+
qed

lemma apply_fold_spec:
  assumes "queue_inv d" "claimed_ids (map (fst \<circ> fst) ps) d" "distinct (map (fst \<circ> fst) ps)"
  shows "disposes (map (fst \<circ> fst) (filter (\<lambda>p. \<not> is_written dim max_retries p) ps)) d
      (fold (apply_one now dim max_retries backoff_ms) ps d) \<and>
    (\<forall>p \<in> set ps. \<forall>j \<in> set (db_jobs d). jb_id j = fst (fst p) \<longrightarrow>
      settled (pair_verdict dim max_retries p) j (fold (apply_one now dim max_retries backoff_ms) ps d))"
  using assms
proof (induction ps arbitrary: d)
  case (Cons p ps)
  let ?d1 = "apply_one now dim max_retries backoff_ms p d"
  let ?ids = "if is_written dim max_retries p then [] else [fst (fst p)]"
  note one = apply_one_disposes [where dim = dim and max_retries = max_retries and p = p and now = now and
      backoff_ms = backoff_ms, OF Cons(2)]
  have inv: "queue_inv ?d1" using one(1) disposes_inv by blast
  have cl: "claimed_ids (map (fst \<circ> fst) ps) ?d1"
    using claimed_ids_disposes [OF one(1) Cons(3)] by (rule claimed_ids_sub) auto
  note rest = Cons(1) [OF inv cl]
  have tail: "disposes (map (fst \<circ> fst) (filter (\<lambda>p. \<not> is_written dim max_retries p) ps)) ?d1
      (fold (apply_one now dim max_retries backoff_ms) ps ?d1)" using rest Cons(4) by (simp add: comp_def)
  have "settled (pair_verdict dim max_retries q) j (fold (apply_one now dim max_retries backoff_ms) ps ?d1)"
    if q: "q \<in> set (p # ps)" and j: "j \<in> set (db_jobs d)" "jb_id j = fst (fst q)" for q j
  proof (cases "q = p")
    case True
    then have "settled (pair_verdict dim max_retries q) j ?d1" using one(2) j by simp
    then show ?thesis
      using settled_disposes [OF tail] cl claimed_ids_sub by (metis (no_types, lifting) filter_is_subset image_mono list.set_map)
  next
    case False
    then have "fst (fst q) \<noteq> fst (fst p)" using q Cons(4) by (force simp: image_iff)
    then have "\<not> has_id ?ids j" using j(2) by (simp add: has_id_def)
    then have "j \<in> set (db_jobs ?d1)" using disposes_kept [OF one(1) j(1)] by simp
    then show ?thesis using rest Cons(4) q j(2) False by auto
  qed
  moreover have "disposes (map (fst \<circ> fst) (filter (\<lambda>p. \<not> is_written dim max_retries p) (p # ps))) d
      (fold (apply_one now dim max_retries backoff_ms) ps ?d1)"
    using disposes_trans [OF one(1) tail] by (cases "is_written dim max_retries p") auto
  ultimately show ?case unfolding fold_simps by blast
qed (simp add: disposes_none)

text \<open>
  The letters an outcome adds, and the row a retried outcome leaves: the job with its key, payload
  and attempts, due after the backoff, with the error recorded, under another id.
\<close>

definition letters_of :: "int \<Rightarrow> int \<Rightarrow> job list \<Rightarrow> embed_job \<times> 'f item_outcome \<Rightarrow> job list" where
  "letters_of dim max_retries jobs p =
     (case pair_verdict dim max_retries p of
        DeadLettered msg \<Rightarrow> map (\<lambda>j. j\<lparr>jb_error := Some (left_chars 1024 msg)\<rparr>) (filter (has_id [fst (fst p)]) jobs)
      | _ \<Rightarrow> [])"

definition retried_row :: "int \<Rightarrow> int \<Rightarrow> int \<Rightarrow> embed_job \<times> 'f item_outcome \<Rightarrow> job \<Rightarrow> job \<Rightarrow> bool" where
  "retried_row now max_retries backoff_ms p j k =
     (case p of
        ((job_id, _, _, attempts, _), OutcomeRetry err) \<Rightarrow>
          attempts \<le> max_retries \<and> jb_id j = job_id \<and>
          k = (release_row now (backoff_delay backoff_ms attempts) err False False j)\<lparr>jb_id := jb_id k\<rparr>
      | _ \<Rightarrow> False)"

lemma released_cases:
  assumes "pair_verdict dim max_retries p = Released"
  obtains job_id pk chunk attempts t err where
    "p = ((job_id, pk, chunk, attempts, t), OutcomeRetry err)" "attempts \<le> max_retries"
proof -
  obtain job_id pk chunk attempts t out where p: "p = ((job_id, pk, chunk, attempts, t), out)" by (cases p) auto
  then show thesis using assms that
    by (cases out) (auto simp: pair_verdict_def verdict_of_def split: if_splits)
qed

lemma fold_insert_old_ids:
  "i < db_next d \<Longrightarrow> filter (has_id [i]) (db_jobs (fold insert_pending rows d)) = filter (has_id [i]) (db_jobs d)"
proof (induction rows arbitrary: d)
  case (Cons row rows)
  have "filter (has_id [i]) (db_jobs (insert_pending row d)) = filter (has_id [i]) (db_jobs d)" "i < db_next (insert_pending row d)"
    using Cons(2) by (auto simp: insert_pending_def Let_def has_id_def)
  then show ?case using Cons(1) [of "insert_pending row d"] by simp
qed simp

lemma filter_other_id: "i \<noteq> k \<Longrightarrow> filter (\<lambda>j. \<not> has_id [k] j \<and> has_id [i] j) js = filter (has_id [i]) js"
  by (rule filter_cong) (auto simp: has_id_def)

lemma apply_one_exact:
  fixes p :: "embed_job \<times> 'f item_outcome"
  assumes "queue_inv d"
  shows "db_dead (apply_one now dim max_retries backoff_ms p d) = db_dead d @ letters_of dim max_retries (db_jobs d) p"
    and "k \<in> set (db_jobs (apply_one now dim max_retries backoff_ms p d)) \<Longrightarrow>
      k \<in> set (db_jobs d) \<or> db_next d \<le> jb_id k \<and> (\<exists>j \<in> set (db_jobs d). retried_row now max_retries backoff_ms p j k)"
    and "i < db_next d \<Longrightarrow> i \<noteq> fst (fst p) \<Longrightarrow>
      filter (has_id [i]) (db_jobs (apply_one now dim max_retries backoff_ms p d)) = filter (has_id [i]) (db_jobs d)"
proof -
  let ?d = "apply_one now dim max_retries backoff_ms p d"
  have "db_dead ?d = db_dead d @ letters_of dim max_retries (db_jobs d) p \<and>
    (\<forall>k \<in> set (db_jobs ?d). k \<in> set (db_jobs d) \<or>
       db_next d \<le> jb_id k \<and> (\<exists>j \<in> set (db_jobs d). retried_row now max_retries backoff_ms p j k)) \<and>
    (i < db_next d \<and> i \<noteq> fst (fst p) \<longrightarrow> filter (has_id [i]) (db_jobs ?d) = filter (has_id [i]) (db_jobs d))"
  proof (cases "pair_verdict dim max_retries p")
    case Released
    then obtain job_id pk chunk attempts t err where p: "p = ((job_id, pk, chunk, attempts, t), OutcomeRetry err)"
      and a: "attempts \<le> max_retries" by (rule released_cases)
    have eq: "?d = unclaim_jobs_inner now [job_id] (backoff_delay backoff_ms attempts) err False False d"
      using Released by (simp add: apply_one_def p retry_job_def unclaim_jobs_def)
    note spec = unclaim_spec [where now = now and ids = "[job_id]" and delay = "backoff_delay backoff_ms attempts" and
        err = err and keep = False and refund = False, OF assms, folded eq]
    have "k \<in> set (db_jobs d) \<or>
        db_next d \<le> jb_id k \<and> (\<exists>j \<in> set (db_jobs d). retried_row now max_retries backoff_ms p j k)" if "k \<in> set (db_jobs ?d)" for k
      using spec(3) [OF that] a unfolding retried_row_def p by (auto simp: has_id_def)
    moreover have "filter (has_id [i]) (db_jobs ?d) = filter (has_id [i]) (db_jobs d)" if "i < db_next d" "i \<noteq> job_id"
      using that by (simp add: eq unclaim_jobs_inner_def Let_def fold_insert_old_ids filter_other_id)
    ultimately show ?thesis using spec(4) Released by (simp add: letters_of_def p)
  qed (auto simp: apply_one_def letters_of_def move_to_dead_def filter_other_id)
  then show "db_dead ?d = db_dead d @ letters_of dim max_retries (db_jobs d) p"
    "k \<in> set (db_jobs ?d) \<Longrightarrow> k \<in> set (db_jobs d) \<or>
       db_next d \<le> jb_id k \<and> (\<exists>j \<in> set (db_jobs d). retried_row now max_retries backoff_ms p j k)"
    "i < db_next d \<Longrightarrow> i \<noteq> fst (fst p) \<Longrightarrow> filter (has_id [i]) (db_jobs ?d) = filter (has_id [i]) (db_jobs d)" by blast+
qed

lemma letters_of_cong:
  "filter (has_id [fst (fst p)]) js = filter (has_id [fst (fst p)]) js' \<Longrightarrow>
   letters_of dim max_retries js p = letters_of dim max_retries js' p"
  by (simp add: letters_of_def split: verdict.splits)

lemma retried_row_id: "retried_row now max_retries backoff_ms p j k \<Longrightarrow> jb_id j = fst (fst p)"
  by (auto simp: retried_row_def split: prod.splits item_outcome.splits)

lemma apply_fold_exact:
  assumes "queue_inv d" "claimed_ids (map (fst \<circ> fst) ps) d" "distinct (map (fst \<circ> fst) ps)"
  shows "db_dead (fold (apply_one now dim max_retries backoff_ms) ps d) =
      db_dead d @ concat (map (letters_of dim max_retries (db_jobs d)) ps) \<and>
    (\<forall>k \<in> set (db_jobs (fold (apply_one now dim max_retries backoff_ms) ps d)). k \<in> set (db_jobs d) \<or>
       db_next d \<le> jb_id k \<and> (\<exists>p \<in> set ps. \<exists>j \<in> set (db_jobs d). retried_row now max_retries backoff_ms p j k))"
  using assms
proof (induction ps arbitrary: d)
  case (Cons p ps)
  let ?d1 = "apply_one now dim max_retries backoff_ms p d"
  note one = apply_one_exact [where now = now and dim = dim and max_retries = max_retries and
      backoff_ms = backoff_ms and p = p, OF Cons(2)]
  note disp = apply_one_disposes(1) [where dim = dim and max_retries = max_retries and p = p and now = now and
      backoff_ms = backoff_ms, OF Cons(2)]
  have cl: "claimed_ids (map (fst \<circ> fst) ps) ?d1"
    using claimed_ids_disposes [OF disp Cons(3)] by (rule claimed_ids_sub) auto
  have next_le: "db_next d \<le> db_next ?d1" using disp by (simp add: disposes_def)
  have old: "fst (fst q) < db_next d" "fst (fst q) \<noteq> fst (fst p)" if "q \<in> set ps" for q
    using that Cons(3,4) by (auto simp: claimed_ids_def list_all_iff image_iff)
  have same: "letters_of dim max_retries (db_jobs ?d1) q = letters_of dim max_retries (db_jobs d) q" if "q \<in> set ps" for q
    using one(3) [OF old [OF that]] by (rule letters_of_cong)
  note rest = Cons(1) [OF disposes_inv [OF disp] cl]
  have "k \<in> set (db_jobs d) \<or>
      db_next d \<le> jb_id k \<and> (\<exists>q \<in> set (p # ps). \<exists>j \<in> set (db_jobs d). retried_row now max_retries backoff_ms q j k)"
    if k: "k \<in> set (db_jobs (fold (apply_one now dim max_retries backoff_ms) ps ?d1))" for k
  proof (cases "k \<in> set (db_jobs ?d1)")
    case True
    then show ?thesis using one(2) by auto
  next
    case False
    then obtain q j where q: "q \<in> set ps" "j \<in> set (db_jobs ?d1)" "retried_row now max_retries backoff_ms q j k" "db_next ?d1 \<le> jb_id k"
      using rest Cons(4) k by (auto simp del: split_paired_Ex)
    have "j \<in> set (db_jobs d)"
      using one(2) [OF q(2)] old(1) [OF q(1)] retried_row_id [OF q(3)] by auto
    then show ?thesis using q next_le by auto
  qed
  moreover have "map (letters_of dim max_retries (db_jobs ?d1)) ps = map (letters_of dim max_retries (db_jobs d)) ps"
    using same by (rule map_cong [OF refl])
  ultimately show ?case using rest Cons(4) one(1) by (simp add: comp_def del: map_eq_conv)
qed simp

section \<open>Statements on user tables do not touch the queue\<close>

definition disposes_w :: "int list \<Rightarrow> db \<Rightarrow> db \<Rightarrow> bool" where
  "disposes_w ids d d' \<longleftrightarrow> disposes ids d (d'\<lparr>db_writes := db_writes d\<rparr>)"

lemma disposes_writes:
  "disposes ids (d\<lparr>db_writes := w\<rparr>) (d'\<lparr>db_writes := w\<rparr>) \<longleftrightarrow> disposes ids d (d'\<lparr>db_writes := db_writes d\<rparr>)"
  by (simp add: disposes_def re_queued_def same_context_def)

lemma disposes_wI: "disposes ids (d\<lparr>db_writes := w\<rparr>) d' \<Longrightarrow> disposes_w ids d d'"
proof -
  assume a: "disposes ids (d\<lparr>db_writes := w\<rparr>) d'"
  then have "db_writes d' = w" by (simp add: disposes_def same_context_def)
  then have "d' = d'\<lparr>db_writes := w\<rparr>" by simp
  with a show ?thesis unfolding disposes_w_def using disposes_writes by metis
qed

lemma disposes_w_of: "disposes ids d d' \<Longrightarrow> disposes_w ids d d'"
  using disposes_wI [where w = "db_writes d"] by simp

lemma disposes_w_trans:
  assumes "disposes_w a d d'" "disposes_w b d' d''" shows "disposes_w (a @ b) d d''"
proof -
  have "disposes b (d'\<lparr>db_writes := db_writes d\<rparr>) (d''\<lparr>db_writes := db_writes d\<rparr>)"
    using assms(2) unfolding disposes_w_def disposes_writes .
  with assms(1) show ?thesis unfolding disposes_w_def by (rule disposes_trans)
qed

lemma settled_writes [simp]: "settled v j (d\<lparr>db_writes := w\<rparr>) = settled v j d"
  by (simp add: settled_def split: verdict.splits)

lemma disposes_wD:
  assumes "disposes_w ids d d'"
  shows "queue_inv d'" "\<And>j. j \<in> set (db_jobs d) \<Longrightarrow> \<not> has_id ids j \<Longrightarrow> j \<in> set (db_jobs d')"
    "\<And>ids'. claimed_ids ids' d \<Longrightarrow> claimed_ids ids' d'"
    "\<And>v j. claimed_ids ids d \<Longrightarrow> settled v j d \<Longrightarrow> settled v j d'"
    "\<And>j k. queue_inv d \<Longrightarrow> j \<in> set (db_jobs d) \<Longrightarrow> has_id ids j \<Longrightarrow> k \<in> set (db_jobs d') \<Longrightarrow> jb_id k \<noteq> jb_id j"
proof -
  note a = assms [unfolded disposes_w_def]
  show "queue_inv d'" using disposes_inv [OF a] by simp
  show "\<And>j. j \<in> set (db_jobs d) \<Longrightarrow> \<not> has_id ids j \<Longrightarrow> j \<in> set (db_jobs d')" using disposes_kept [OF a] by simp
  show "\<And>ids'. claimed_ids ids' d \<Longrightarrow> claimed_ids ids' d'"
    using claimed_ids_disposes [OF a] by (simp add: claimed_ids_def)
  show "\<And>v j. claimed_ids ids d \<Longrightarrow> settled v j d \<Longrightarrow> settled v j d'"
    using settled_disposes [OF a] by (simp add: settled_writes)
  show "\<And>j k. queue_inv d \<Longrightarrow> j \<in> set (db_jobs d) \<Longrightarrow> has_id ids j \<Longrightarrow> k \<in> set (db_jobs d') \<Longrightarrow> jb_id k \<noteq> jb_id j"
    using disposes_gone [OF _ a] by simp
qed

lemma delete_after_write: "queue_inv d \<Longrightarrow> disposes_w ids d (delete_jobs ids (d\<lparr>db_writes := w\<rparr>))"
  using disposes_wI [OF delete_op.dispose_contract] by simp

lemma delete_jobs_writes [simp]: "db_writes (delete_jobs ids d) = db_writes d"
  by (simp add: delete_jobs_def)

lemma null_rows_disposes:
  assumes "queue_inv d" "null_rows entry column null_jobs ap d = (ap', d')"
  shows "disposes_w (map fst null_jobs) d d'"
    and "db_writes d' = db_writes d @ (if null_jobs = [] then []
       else [NullVectors (re_id entry) (re_vector_column entry #
               (if column \<noteq> re_vector_column entry then [column] else [])) (map snd null_jobs)])"
  using assms(2) disposes_none [OF assms(1)] delete_after_write [OF assms(1)]
  by (auto simp: null_rows_def Let_def disposes_w_of split: if_splits)

lemma write_ok_disposes:
  assumes "queue_inv d" "write_ok chunk_exists entry column ok ap d = (ap', d')"
  shows "disposes_w (ok_ids ok) d d'"
    and "db_writes d' = db_writes d @ (if ok_ids ok = [] then []
       else if is_recursive entry
       then [WriteChunkVectors (re_id entry) column (zip (ok_chunks ok) (zip (ok_pks ok) (ok_vecs ok)))]
       else [WriteVectors (re_id entry) column (zip (ok_pks ok) (ok_vecs ok))])"
  using assms(2) disposes_none [OF assms(1)] delete_after_write [OF assms(1)]
  by (auto simp: write_ok_def write_chunk_vectors_def write_vectors_def disposes_w_of split: if_splits)

lemma notify_disposes: "queue_inv d \<Longrightarrow> disposes_w [] d (notify_write notify entry ap d)"
  by (auto simp: notify_write_def disposes_w_def disposes_none)

section \<open>A group on its normal path\<close>

lemma zip_maps: "zip (map f xs) (map g xs) = map (\<lambda>x. (f x, g x)) xs"
  by (induction xs) auto

lemma map_fst_zip_eq: "length xs = length ys \<Longrightarrow> map (f \<circ> fst) (zip xs ys) = map f xs"
  by (induction xs ys rule: list_induct2) auto

definition vector_statement ::
  "('f \<Rightarrow> string) \<Rightarrow> registry_entry \<Rightarrow> routing \<Rightarrow> (embed_job \<times> 'f item_outcome) list \<Rightarrow> table_write list" where
  "vector_statement show_f entry rt acc =
     (if acc = [] then []
      else if is_recursive entry
      then [WriteChunkVectors (re_id entry) (rt_vector_column rt)
              (map (\<lambda>p. (case fst (snd (snd (fst p))) of None \<Rightarrow> 0 | Some c \<Rightarrow> c,
                         fst (snd (fst p)), written_vector show_f p)) acc)]
      else [WriteVectors (re_id entry) (rt_vector_column rt)
              (map (\<lambda>p. (fst (snd (fst p)), written_vector show_f p)) acc)])"

definition null_statement :: "registry_entry \<Rightarrow> routing \<Rightarrow> null_job list \<Rightarrow> table_write list" where
  "null_statement entry rt null_jobs =
     (if null_jobs = [] then []
      else [NullVectors (re_id entry) (re_vector_column entry #
              (if rt_vector_column rt \<noteq> re_vector_column entry then [rt_vector_column rt] else []))
              (map snd null_jobs)])"

text \<open>
  The count of written rows: the rows of a plain entry, the distinct chunks that still exist of a
  chunked one.
\<close>

definition written_count ::
  "(registry_entry \<Rightarrow> int \<Rightarrow> string \<Rightarrow> bool) \<Rightarrow> registry_entry \<Rightarrow> (embed_job \<times> 'f item_outcome) list \<Rightarrow> int" where
  "written_count chunk_exists entry acc =
     (if is_recursive entry
      then int (card ((\<lambda>p. case fst (snd (snd (fst p))) of None \<Rightarrow> 0 | Some c \<Rightarrow> c) `
             {p \<in> set acc. chunk_exists entry (case fst (snd (snd (fst p))) of None \<Rightarrow> 0 | Some c \<Rightarrow> c) (fst (snd (fst p)))}))
      else int (length acc))"

lemma write_ok_counts:
  assumes "write_ok chunk_exists entry column (add_ok show_f acc
      \<lparr>ok_pks = [], ok_chunks = [], ok_vecs = [], ok_ids = []\<rparr>) ap d = (ap', d')"
  shows "ap_done ap' = ap_done ap + written_count chunk_exists entry acc \<and> ap_nulled ap' = ap_nulled ap \<and>
    ap_retried ap' = ap_retried ap \<and> ap_dead ap' = ap_dead ap"
proof -
  let ?c = "\<lambda>p :: embed_job \<times> 'a item_outcome. case fst (snd (snd (fst p))) of None \<Rightarrow> 0 | Some c \<Rightarrow> c"
  have "set (map fst (filter (\<lambda>(cid, pk). chunk_exists entry cid pk) (map (\<lambda>p. (?c p, fst (snd (fst p)))) acc))) =
      ?c ` {p \<in> set acc. chunk_exists entry (?c p) (fst (snd (fst p)))}" by force
  then show ?thesis using assms
    by (auto simp: write_ok_def add_ok_def write_chunk_vectors_def written_count_def zip_maps length_remdups_card_conv
        split: if_splits simp del: set_map set_filter)
qed

lemma null_rows_counts:
  "null_rows entry column null_jobs ap d = (ap', d') \<Longrightarrow>
   ap' = ap\<lparr>ap_nulled := ap_nulled ap + int (length null_jobs)\<rparr>"
  by (auto simp: null_rows_def Let_def split: if_splits)

lemma disposals_exact:
  "disposes_w ids d d' \<Longrightarrow> db_registry d' = db_registry d \<and> db_migrations d' = db_migrations d \<and> db_cursor d' = db_cursor d \<and>
   db_next d \<le> db_next d'"
  by (simp add: disposes_w_def disposes_def same_context_def)

lemma null_rows_exact:
  "null_rows entry column null_jobs ap d = (ap', d') \<Longrightarrow>
   db_jobs d' = filter (\<lambda>j. \<not> has_id (map fst null_jobs) j) (db_jobs d) \<and> db_dead d' = db_dead d \<and> db_next d' = db_next d"
  by (auto simp: null_rows_def Let_def delete_jobs_def split: if_splits)

lemma write_ok_exact:
  "write_ok chunk_exists entry column ok ap d = (ap', d') \<Longrightarrow>
   set (db_jobs d') \<subseteq> set (db_jobs d) \<and> db_dead d' = db_dead d"
  by (auto simp: write_ok_def write_chunk_vectors_def write_vectors_def delete_jobs_def split: if_splits)

lemma group_tables_exact:
  assumes "queue_inv d" "null_rows entry column null_jobs ap d = (ap1, d1)"
    and "set (map (fst \<circ> fst) ps) \<inter> set (map fst null_jobs) = {}"
    and "write_ok chunk_exists entry column' ok ap2 d2 = (ap3, d3)"
    and "d2 = fold (apply_one now dim max_retries backoff_ms) ps d1"
    and "claimed_ids (map (fst \<circ> fst) ps) d1" "distinct (map (fst \<circ> fst) ps)"
  shows "db_dead d3 = db_dead d @ concat (map (letters_of dim max_retries (db_jobs d)) ps)"
    and "\<forall>k \<in> set (db_jobs d3). k \<in> set (db_jobs d) \<or> db_next d \<le> jb_id k \<and>
      (\<exists>p \<in> set ps. \<exists>j \<in> set (db_jobs d). retried_row now max_retries backoff_ms p j k)"
proof -
  note nulled = null_rows_exact [OF assms(2)] and written = write_ok_exact [OF assms(4)]
  note exact = apply_fold_exact [OF disposes_wD(1) [OF null_rows_disposes(1) [OF assms(1,2)]] assms(6,7),
      where now = now and dim = dim and max_retries = max_retries and backoff_ms = backoff_ms, folded assms(5)]
  have "letters_of dim max_retries (db_jobs d1) p = letters_of dim max_retries (db_jobs d) p" if "p \<in> set ps" for p
  proof (rule letters_of_cong)
    have "fst (fst p) \<notin> set (map fst null_jobs)" using that assms(3) by fastforce
    then show "filter (has_id [fst (fst p)]) (db_jobs d1) = filter (has_id [fst (fst p)]) (db_jobs d)"
      by (auto simp: nulled has_id_def simp del: set_map intro!: filter_cong)
  qed
  then have "map (letters_of dim max_retries (db_jobs d1)) ps = map (letters_of dim max_retries (db_jobs d)) ps"
    by (rule map_cong [OF refl])
  then show "db_dead d3 = db_dead d @ concat (map (letters_of dim max_retries (db_jobs d)) ps)"
    using exact written nulled by (simp del: map_eq_conv)
  show "\<forall>k \<in> set (db_jobs d3). k \<in> set (db_jobs d) \<or> db_next d \<le> jb_id k \<and>
      (\<exists>p \<in> set ps. \<exists>j \<in> set (db_jobs d). retried_row now max_retries backoff_ms p j k)"
  proof
    fix k assume "k \<in> set (db_jobs d3)"
    then have "k \<in> set (db_jobs d1) \<or> db_next d1 \<le> jb_id k \<and>
        (\<exists>p \<in> set ps. \<exists>j \<in> set (db_jobs d1). retried_row now max_retries backoff_ms p j k)" using exact written by blast
    then show "k \<in> set (db_jobs d) \<or> db_next d \<le> jb_id k \<and>
        (\<exists>p \<in> set ps. \<exists>j \<in> set (db_jobs d). retried_row now max_retries backoff_ms p j k)" using nulled by auto
  qed
qed

lemma group_tables:
  fixes ps :: "(embed_job \<times> 'f item_outcome) list"
  assumes "ok = add_ok show_f (filter (is_written dim max_retries) ps) \<lparr>ok_pks = [], ok_chunks = [], ok_vecs = [], ok_ids = []\<rparr>"
    and "queue_inv d" "null_rows entry (rt_vector_column rt) null_jobs ap d = (ap1, d1)"
    and "d2 = fold (apply_one now dim max_retries backoff_ms) ps d1"
    and "write_ok chunk_exists entry (rt_vector_column rt) ok ap2 d2 = (ap3, d3)"
    and "distinct (map fst null_jobs @ map (fst \<circ> fst) ps)" "claimed_ids (map fst null_jobs @ map (fst \<circ> fst) ps) d"
  shows "disposes_w (map fst null_jobs @ map (fst \<circ> fst) ps) d d3"
    and "db_writes d3 = db_writes d @ null_statement entry rt null_jobs @
      vector_statement show_f entry rt (filter (is_written dim max_retries) ps)"
    and "\<forall>p \<in> set ps. \<forall>j \<in> set (db_jobs d). jb_id j = fst (fst p) \<longrightarrow> settled (pair_verdict dim max_retries p) j d3"
proof -
  let ?acc = "filter (is_written dim max_retries) ps" and ?rej = "filter (\<lambda>p. \<not> is_written dim max_retries p) ps"
  have s1: "disposes_w (map fst null_jobs) d d1" "db_writes d1 = db_writes d @ null_statement entry rt null_jobs"
    using null_rows_disposes [OF assms(2,3)] by (simp_all add: null_statement_def)
  have cl: "claimed_ids (map (fst \<circ> fst) ps) d1"
    using disposes_wD(3) [OF s1(1) assms(7)] by (rule claimed_ids_sub) simp
  have dist: "distinct (map (fst \<circ> fst) ps)" using assms(6) by simp
  note fold = apply_fold_spec [OF disposes_wD(1) [OF s1(1)] cl dist, of dim max_retries now backoff_ms, folded assms(4)]
  have s2: "disposes_w (map (fst \<circ> fst) ?rej) d1 d2" "db_writes d2 = db_writes d1"
    using fold by (auto simp: disposes_w_of disposes_def same_context_def)
  have s3: "disposes_w (map (fst \<circ> fst) ?acc) d2 d3"
    "db_writes d3 = db_writes d2 @ vector_statement show_f entry rt ?acc"
    using write_ok_disposes [OF disposes_wD(1) [OF s2(1)] assms(5)]
    by (simp_all add: assms(1) add_ok_def vector_statement_def zip_maps)
  show "db_writes d3 = db_writes d @ null_statement entry rt null_jobs @ vector_statement show_f entry rt ?acc"
    using s1(2) s2(2) s3(2) by simp
  have "has_id (map fst null_jobs @ map (fst \<circ> fst) ?rej @ map (fst \<circ> fst) ?acc) j \<longleftrightarrow>
      has_id (map fst null_jobs @ map (fst \<circ> fst) ps) j" for j by (auto simp: has_id_def)
  then show "disposes_w (map fst null_jobs @ map (fst \<circ> fst) ps) d d3"
    using disposes_w_trans [OF s1(1) disposes_w_trans [OF s2(1) s3(1)]]
    unfolding disposes_w_def disposes_def re_queued_def has_id_def by simp
  show "\<forall>p \<in> set ps. \<forall>j \<in> set (db_jobs d). jb_id j = fst (fst p) \<longrightarrow> settled (pair_verdict dim max_retries p) j d3"
  proof (intro ballI impI)
    fix p j assume p: "p \<in> set ps" and j: "j \<in> set (db_jobs d)" "jb_id j = fst (fst p)"
    then have "\<not> has_id (map fst null_jobs) j" using assms(6) by (force simp: has_id_def)
    then have "j \<in> set (db_jobs d1)" using disposes_wD(2) [OF s1(1) j(1)] by simp
    then have "settled (pair_verdict dim max_retries p) j d2" using fold p j(2) by blast
    moreover have "claimed_ids (map (fst \<circ> fst) ?acc) d2"
      using disposes_wD(3) [OF s2(1) cl] by (rule claimed_ids_sub) auto
    ultimately show "settled (pair_verdict dim max_retries p) j d3" using disposes_wD(4) [OF s3(1)] by blast
  qed
qed

lemma apply_group_stages:
  fixes outcomes :: "'f item_outcome list"
  assumes "load_entry registry_id d = Some entry" "re_state entry \<noteq> ''disabled''" "missing entry [] = None"
    and "rt_vector_column expected = re_vector_column entry \<or> missing entry [rt_vector_column expected] = None"
    and "embed_routing entry d = expected"
    and "apply_group show_f missing chunk_exists notify now registry_id expected null_jobs embed_jobs outcomes
           max_retries backoff_ms d = (ap, d')"
  obtains ap1 d1 ok ap2 d2 d3 where
    "null_rows entry (rt_vector_column expected) null_jobs no_applied d = (ap1, d1)"
    "apply_outcomes show_f now (rt_dim expected) max_retries backoff_ms (zip embed_jobs outcomes)
      \<lparr>ok_pks = [], ok_chunks = [], ok_vecs = [], ok_ids = []\<rparr> ap1 d1 = (ok, ap2, d2)"
    "write_ok chunk_exists entry (rt_vector_column expected) ok ap2 d2 = (ap, d3)" "d' = notify_write notify entry ap d3"
proof -
  let ?col = "rt_vector_column expected"
  obtain ap1 d1 where nulls: "null_rows entry ?col null_jobs no_applied d = (ap1, d1)" by fastforce
  obtain ok ap2 d2 where loop: "apply_outcomes show_f now (rt_dim expected) max_retries backoff_ms (zip embed_jobs outcomes)
      \<lparr>ok_pks = [], ok_chunks = [], ok_vecs = [], ok_ids = []\<rparr> ap1 d1 = (ok, ap2, d2)" by (metis prod_cases3)
  obtain ap3 d3 where wr: "write_ok chunk_exists entry ?col ok ap2 d2 = (ap3, d3)" by fastforce
  have "(if ?col \<noteq> re_vector_column entry then missing entry [?col] else None) = None" using assms(4) by auto
  then have "apply_group show_f missing chunk_exists notify now registry_id expected null_jobs embed_jobs outcomes
      max_retries backoff_ms d = (ap3, notify_write notify entry ap3 d3)"
    by (simp add: apply_group_def Let_def assms(1-3,5) nulls loop wr)
  then show thesis using that [OF nulls loop] wr assms(6) by simp
qed

text \<open>
  C1. Every job of a group is accounted for, and nothing else changes. Take a group of claimed jobs
  whose entry is enabled, whose columns are present and whose routing has not changed, with one
  outcome per text. After the write-back the table invariant holds, no row of the group is left
  under its old id, and all other rows are unchanged. Every further row of the table stems from a
  retryable error within the retry limit: it is that job, pending, due after the backoff, with the
  error recorded; and the key of every such job is pending. The dead letters grow by exactly the
  jobs whose outcome is a vector of another dimension, a permanent or poison error, or a retryable
  error past the limit, each with its message, in the order of the group. Registry, migrations and
  cursor are untouched. The user tables see exactly one statement nulling the rows without text (in
  both columns while migrating), one statement writing exactly the accepted vectors to the routed
  column, and a notification exactly when it is switched on and a row was nulled or written. The
  reported counts are the numbers of rows with each fate.
\<close>
theorem apply_group_accounts:
  assumes "queue_inv d" "load_entry registry_id d = Some entry" "re_state entry \<noteq> ''disabled''"
    and "missing entry [] = None"
    and "rt_vector_column expected = re_vector_column entry \<or> missing entry [rt_vector_column expected] = None"
    and "embed_routing entry d = expected" "length outcomes = length embed_jobs"
    and "distinct (group_ids null_jobs embed_jobs)" "claimed_ids (group_ids null_jobs embed_jobs) d"
    and "apply_group show_f missing chunk_exists notify now registry_id expected null_jobs embed_jobs outcomes
           max_retries backoff_ms d = (ap, d')"
  shows "queue_inv d' \<and>
    (\<forall>j \<in> set (db_jobs d). if has_id (group_ids null_jobs embed_jobs) j
       then jb_id j \<notin> jb_id ` set (db_jobs d') else j \<in> set (db_jobs d')) \<and>
    (\<forall>k \<in> set (db_jobs d'). k \<in> set (db_jobs d) \<or> db_next d \<le> jb_id k \<and>
       (\<exists>p \<in> set (zip embed_jobs outcomes). \<exists>j \<in> set (db_jobs d). retried_row now max_retries backoff_ms p j k)) \<and>
    (\<forall>p \<in> set (zip embed_jobs outcomes). \<forall>j \<in> set (db_jobs d).
       jb_id j = fst (fst p) \<and> pair_verdict (rt_dim expected) max_retries p = Released \<longrightarrow>
       job_key j \<in> set (pending_keys (db_jobs d'))) \<and>
    db_dead d' = db_dead d @ concat (map (letters_of (rt_dim expected) max_retries (db_jobs d)) (zip embed_jobs outcomes)) \<and>
    db_registry d' = db_registry d \<and> db_migrations d' = db_migrations d \<and> db_cursor d' = db_cursor d \<and>
    db_writes d' = db_writes d @ null_statement entry expected null_jobs @
      vector_statement show_f entry expected
        (filter (is_written (rt_dim expected) max_retries) (zip embed_jobs outcomes)) @
      (if notify \<and> ap_done ap + ap_nulled ap > 0 then [Notify (re_id entry)] else []) \<and>
    ap_nulled ap = int (length null_jobs) \<and>
    ap_retried ap = int (length (filter (\<lambda>p. pair_verdict (rt_dim expected) max_retries p = Released)
      (zip embed_jobs outcomes))) \<and>
    ap_dead ap = int (length (filter (\<lambda>p. is_dead (pair_verdict (rt_dim expected) max_retries p))
      (zip embed_jobs outcomes))) \<and>
    ap_done ap = written_count chunk_exists entry
      (filter (is_written (rt_dim expected) max_retries) (zip embed_jobs outcomes))"
proof -
  let ?ps = "zip embed_jobs outcomes" and ?ids = "group_ids null_jobs embed_jobs"
  let ?acc = "filter (is_written (rt_dim expected) max_retries) ?ps" and ?col = "rt_vector_column expected"
  obtain ap1 d1 ok ap2 d2 d3 where nulls: "null_rows entry ?col null_jobs no_applied d = (ap1, d1)"
    and loop: "apply_outcomes show_f now (rt_dim expected) max_retries backoff_ms ?ps
      \<lparr>ok_pks = [], ok_chunks = [], ok_vecs = [], ok_ids = []\<rparr> ap1 d1 = (ok, ap2, d2)"
    and wr: "write_ok chunk_exists entry ?col ok ap2 d2 = (ap, d3)" and d': "d' = notify_write notify entry ap d3"
    using apply_group_stages [OF assms(2-6,10)] .
  have ids: "map (fst \<circ> fst) ?ps = map fst embed_jobs" using assms(7) by (simp add: map_fst_zip_eq)
  note loop' = apply_outcomes_fold [OF loop]
  have ok: "ok = add_ok show_f ?acc \<lparr>ok_pks = [], ok_chunks = [], ok_vecs = [], ok_ids = []\<rparr>"
    and d2: "d2 = fold (apply_one now (rt_dim expected) max_retries backoff_ms) ?ps d1" using loop' by blast+
  note tab = group_tables [OF ok assms(1) nulls d2 wr, unfolded ids, OF assms(8,9) [unfolded group_ids_def]]
  have cl: "claimed_ids (map (fst \<circ> fst) ?ps) d1"
    using disposes_wD(3) [OF null_rows_disposes(1) [OF assms(1) nulls] assms(9)] unfolding ids
    by (rule claimed_ids_sub) (simp add: group_ids_def)
  have sep: "set (map (fst \<circ> fst) ?ps) \<inter> set (map fst null_jobs) = {}" "distinct (map (fst \<circ> fst) ?ps)"
    using assms(8) unfolding ids group_ids_def by auto
  note exact = group_tables_exact [OF assms(1) nulls sep(1) wr d2 cl sep(2)]
  have same: "db_dead d' = db_dead d3" "db_jobs d' = db_jobs d3" "db_registry d' = db_registry d3"
    "db_migrations d' = db_migrations d3" "db_cursor d' = db_cursor d3" "queue_inv d' = queue_inv d3"
    by (simp_all add: d' notify_write_def)
  show ?thesis unfolding same
  proof (intro conjI ballI impI)
    show "if has_id ?ids j then jb_id j \<notin> jb_id ` set (db_jobs d3) else j \<in> set (db_jobs d3)"
      if "j \<in> set (db_jobs d)" for j
      using disposes_wD(2,5) [OF tab(1) [folded group_ids_def]] assms(1) that by (metis imageE)
    show "job_key j \<in> set (pending_keys (db_jobs d3))" if "p \<in> set ?ps" "j \<in> set (db_jobs d)"
      "jb_id j = fst (fst p) \<and> pair_verdict (rt_dim expected) max_retries p = Released" for p j
      using tab(3) that by (auto simp: settled_def)
    show "db_writes d' = db_writes d @ null_statement entry expected null_jobs @
        vector_statement show_f entry expected ?acc @
        (if notify \<and> ap_done ap + ap_nulled ap > 0 then [Notify (re_id entry)] else [])"
      using tab(2) by (simp add: d' notify_write_def)
  qed (use disposes_wD(1) [OF tab(1)] disposals_exact [OF tab(1)] exact loop'
      write_ok_counts [OF wr [unfolded ok]] null_rows_counts [OF nulls] in \<open>simp_all add: no_applied_def\<close>)
qed

definition sample_docs :: registry_entry where
  "sample_docs =
     \<lparr>re_id = 7, re_table_schema = ''public'', re_table_name = ''docs'', re_source_column = ''body'',
      re_vector_column = ''v'', re_pk_columns = [''id''], re_pk_types = [''bigint''], re_model = ''m'',
      re_space = None, re_dim = 2, re_fts_config = [], re_distance = ''cosine'', re_backfill_mode = [],
      re_backfill_watermark = None, re_state = ''enabled'', re_trigger_mode = [], re_owns_vector_column = True,
      re_format = None, re_index_mode = [], re_index_error = None, re_chunking = ''none'',
      re_chunk_size = None, re_chunk_overlap = None, re_destination_schema = None,
      re_destination_table = None, re_destination_view = None, re_destination_token = None\<rparr>"

definition sample_group_db :: db where
  "sample_group_db = sample_db\<lparr>db_registry := [sample_docs]\<rparr>"

definition sample_apply :: "applied \<times> db" where
  "sample_apply = apply_group (\<lambda>x :: int. dec_int x) (\<lambda>_ _. None) (\<lambda>_ _ _. True) True 9 7
     (embed_routing sample_docs sample_group_db) [(1, ''a'')] [(2, ''b'', None, 1, ''text'')]
     [OutcomeOk [4, 5]] 3 1000 sample_group_db"

theorem apply_group_accounts_witness:
  "queue_inv (snd sample_apply) \<and> 2 \<notin> jb_id ` set (db_jobs (snd sample_apply)) \<and>
   WriteVectors 7 ''v'' [(''b'', ''[4,5]'')] \<in> set (db_writes (snd sample_apply))"
proof -
  let ?rt = "embed_routing sample_docs sample_group_db"
  have inv: "queue_inv sample_group_db" using sample_db_inv by (simp add: sample_group_db_def)
  have load: "load_entry 7 sample_group_db = Some sample_docs"
    by (simp add: load_entry_def sample_group_db_def sample_docs_def)
  have rt: "rt_vector_column ?rt = ''v''" "rt_dim ?rt = 2" "re_vector_column sample_docs = ''v''"
    "re_state sample_docs \<noteq> ''disabled''" "re_id sample_docs = 7" "\<not> is_recursive sample_docs"
    by (simp_all add: embed_routing_def sample_docs_def is_recursive_def)
  have claimed: "claimed_ids [1, 2] sample_group_db"
    by (simp add: claimed_ids_def sample_group_db_def sample_db_def sample_job_def has_id_def is_pending_def)
  note run = apply_group_accounts [where show_f = "\<lambda>x :: int. dec_int x" and missing = "\<lambda>_ _. None" and
      chunk_exists = "\<lambda>_ _ _. True" and notify = True and now = 9 and registry_id = 7 and expected = ?rt and
      null_jobs = "[(1, ''a'')]" and embed_jobs = "[(2, ''b'', None, 1, ''text'')]" and
      outcomes = "[OutcomeOk [4, 5]]" and max_retries = 3 and backoff_ms = 1000 and
      ap = "fst sample_apply" and d' = "snd sample_apply", OF inv load rt(4)]
  have acc: "filter (is_written (rt_dim ?rt) 3) (zip [(2, ''b'', None, 1, ''text'')] [OutcomeOk [4, 5 :: int]]) =
      [((2, ''b'', None, 1, ''text''), OutcomeOk [4, 5])]"
    by (simp add: is_written_def pair_verdict_def verdict_of_def rt)
  have vec: "vector_statement (\<lambda>x :: int. dec_int x) sample_docs ?rt [((2, ''b'', None, 1, ''text''), OutcomeOk [4, 5])] =
      [WriteVectors 7 ''v'' [(''b'', ''[4,5]'')]]"
    by (simp add: vector_statement_def rt written_vector_def serialize_vector_def dec_int_def dec.simps char_of_def bit_0)
  have job: "sample_job 2 ''b'' (Some 5) \<in> set (db_jobs sample_group_db)" "has_id [1, 2] (sample_job 2 ''b'' (Some 5))"
    "jb_id (sample_job 2 ''b'' (Some 5)) = 2"
    by (simp_all add: sample_group_db_def sample_db_def sample_job_def has_id_def)
  have "queue_inv (snd sample_apply)" "WriteVectors 7 ''v'' [(''b'', ''[4,5]'')] \<in> set (db_writes (snd sample_apply))"
    "2 \<notin> jb_id ` set (db_jobs (snd sample_apply))"
    using run claimed job unfolding acc vec by (auto simp: group_ids_def sample_apply_def [symmetric])
  then show ?thesis by blast
qed

section \<open>A live migration whose column was dropped\<close>

lemma live_migration_in:
  assumes "live_migration rid d = Some m"
  shows "m \<in> set (db_migrations d) \<and> mg_registry m = rid \<and> is_live_state (mg_state m)"
proof -
  have pick: "fold (\<lambda>m best. if mg_id m > mg_id best then m else best) ms m0 \<in> set (m0 # ms)" for ms m0
  proof (induction ms arbitrary: m0)
    case (Cons a ms)
    show ?case using Cons [of "if mg_id a > mg_id m0 then a else m0"] by (auto split: if_splits)
  qed simp
  obtain m0 ms where f: "filter (\<lambda>m. mg_registry m = rid \<and> is_live_state (mg_state m)) (db_migrations d) = m0 # ms"
    and m: "m = fold (\<lambda>m best. if mg_id m > mg_id best then m else best) ms m0"
    using assms by (auto simp: live_migration_def split: list.splits)
  have "m \<in> set (filter (\<lambda>m. mg_registry m = rid \<and> is_live_state (mg_state m)) (db_migrations d))"
    unfolding f m by (rule pick)
  then show ?thesis by simp
qed

lemma fail_migration_not_running:
  assumes "distinct (map mg_id (db_migrations d))" "m \<in> set (db_migrations d)" "mg_state m \<noteq> ''running''"
  shows "fail_migration (mg_id m) reason d = d"
proof -
  have "map (\<lambda>x. if mg_id x = mg_id m \<and> mg_state x = ''running''
      then x\<lparr>mg_state := ''failed'', mg_error := Some reason\<rparr> else x) (db_migrations d) = db_migrations d"
  proof (rule map_idI)
    fix x assume "x \<in> set (db_migrations d)"
    then show "(if mg_id x = mg_id m \<and> mg_state x = ''running''
        then x\<lparr>mg_state := ''failed'', mg_error := Some reason\<rparr> else x) = x"
      using assms by (auto simp: distinct_map dest: inj_onD)
  qed
  then show ?thesis by (simp add: fail_migration_def)
qed

text \<open>
  C31. A write-back that finds the new column of a finished migration gone records nothing and hands
  the work back. When the live migration already awaits its finalize and its new column was dropped,
  one write-back leaves registry, migrations, dead letters, user tables and routing as they were and
  makes every job of the group pending again, due at once, whatever its attempts. All conditions on
  the state under which this happens hold again afterwards: the entry is still migrating, the same
  migration is still live and still awaits its finalize, and the table invariant holds.
\<close>
theorem lost_column_repeats:
  assumes "queue_inv d" "load_entry registry_id d = Some entry" "re_state entry = ''migrating''"
    and "live_migration (re_id entry) d = Some m" "mg_state m = ''awaiting_finalize''"
    and "distinct (map mg_id (db_migrations d))" "mg_new_column m \<noteq> re_vector_column entry"
    and "missing entry [] = None" "missing entry [mg_new_column m] = Some reason"
    and "apply_group show_f missing chunk_exists notify now registry_id expected null_jobs embed_jobs outcomes
           max_retries backoff_ms d = (ap, d')"
  shows "same_context d d' \<and> db_dead d' = db_dead d \<and> embed_routing entry d' = embed_routing entry d \<and>
    queue_inv d' \<and> load_entry registry_id d' = Some entry \<and> live_migration (re_id entry) d' = Some m \<and>
    (\<forall>j \<in> set (db_jobs d). has_id (group_ids null_jobs embed_jobs) j \<longrightarrow>
       job_key j \<in> set (pending_keys (db_jobs d'))) \<and>
    (\<forall>j \<in> set (db_jobs d'). j \<in> set (db_jobs d) \<or> is_pending j \<and> jb_not_before j = now)"
proof -
  let ?ids = "group_ids null_jobs embed_jobs"
  have rt: "rt_vector_column (embed_routing entry d) = mg_new_column m" "rt_migration (embed_routing entry d) = Some (mg_id m)"
    using assms(3,4) by (simp_all add: embed_routing_def)
  have fm: "fail_migration (mg_id m) reason d = d"
    using fail_migration_not_running [OF assms(6), of m] live_migration_in [OF assms(4)] assms(5) by simp
  have d': "d' = unclaim_jobs_inner now ?ids 0 reason False False d"
    using assms(10) by (simp add: apply_group_def Let_def assms(2,3,7-9) rt fm unclaim_jobs_def)
  note spec = unclaim_spec [where now = now and ids = ?ids and delay = 0 and err = reason and keep = False and
      refund = False, OF assms(1), folded d']
  have ctx: "same_context d d'" using spec(1) by (simp add: disposes_def)
  have "is_pending j \<and> jb_not_before j = now" if j: "j \<in> set (db_jobs d')" "j \<notin> set (db_jobs d)" for j
  proof -
    obtain i where i: "j = (release_row now 0 reason False False i)\<lparr>jb_id := jb_id j\<rparr>"
      using spec(3) [OF j(1)] j(2) by blast
    have "is_pending j" "jb_not_before j = now" by (subst i, simp add: release_row_def is_pending_def)+
    then show ?thesis by blast
  qed
  moreover have live: "live_migration rid d' = live_migration rid d" for rid
    using ctx unfolding live_migration_def same_context_def by (simp split: list.splits)
  moreover have "embed_routing entry d' = embed_routing entry d" by (simp add: embed_routing_def Let_def live)
  moreover have "load_entry registry_id d' = Some entry"
    using ctx assms(2) by (simp add: load_entry_def same_context_def)
  ultimately show ?thesis using ctx spec(2,4) disposes_inv [OF spec(1)] assms(4) by auto
qed

definition sample_lost_db :: db where
  "sample_lost_db =
     sample_db\<lparr>db_registry := [sample_docs\<lparr>re_state := ''migrating''\<rparr>],
       db_migrations := [\<lparr>mg_id = 1, mg_registry = 7, mg_new_model = ''n'', mg_new_column = ''v_new'', mg_new_dim = 2,
                          mg_space = None, mg_state = ''awaiting_finalize'', mg_error = None, mg_old_model = ''m'', mg_old_dim = 2,
                          mg_kind = ''direct'', mg_via = None, mg_reindex = ''manual'', mg_rows_done = 0,
                          mg_rows_skipped = 0, mg_last_pk = None, mg_retry_failures = 0, mg_not_before = 0\<rparr>]\<rparr>"

definition sample_lost :: "applied \<times> db" where
  "sample_lost = apply_group (\<lambda>x :: int. dec_int x) (\<lambda>_ cols. if cols = [] then None else Some ''gone'')
     (\<lambda>_ _ _. True) True 9 7 (embed_routing (sample_docs\<lparr>re_state := ''migrating''\<rparr>) sample_lost_db)
     [] [(2, ''b'', None, 1, ''text'')] [OutcomeOk [4, 5]] 0 1000 sample_lost_db"

theorem lost_column_repeats_witness:
  "same_context sample_lost_db (snd sample_lost) \<and> db_dead (snd sample_lost) = []"
proof -
  let ?e = "sample_docs\<lparr>re_state := ''migrating''\<rparr>"
  have inv: "queue_inv sample_lost_db" using sample_db_inv by (simp add: sample_lost_db_def)
  have load: "load_entry 7 sample_lost_db = Some ?e"
    by (simp add: load_entry_def sample_lost_db_def sample_docs_def)
  have live: "live_migration (re_id ?e) sample_lost_db = Some (hd (db_migrations sample_lost_db))"
    by (simp add: live_migration_def sample_lost_db_def sample_docs_def is_live_state_def)
  have dead: "db_dead sample_lost_db = []" by (simp add: sample_lost_db_def sample_db_def)
  have "same_context sample_lost_db (snd sample_lost) \<and> db_dead (snd sample_lost) = db_dead sample_lost_db"
    using lost_column_repeats [OF inv load _ live, where d' = "snd sample_lost" and ap = "fst sample_lost" and
        show_f = "\<lambda>x :: int. dec_int x" and missing = "\<lambda>_ cols. if cols = [] then None else Some ''gone''"]
    by (simp add: sample_lost_def sample_lost_db_def sample_docs_def)
  then show ?thesis using dead by simp
qed

text \<open>The same for what a single row needs to know of a group: its disposal, fate and statements.\<close>

lemma apply_group_disposes:
  fixes outcomes :: "'f item_outcome list"
  assumes "queue_inv d" "load_entry registry_id d = Some entry" "re_state entry \<noteq> ''disabled''"
    and "missing entry [] = None"
    and "rt_vector_column expected = re_vector_column entry \<or> missing entry [rt_vector_column expected] = None"
    and "embed_routing entry d = expected" "length outcomes = length embed_jobs"
    and "distinct (group_ids null_jobs embed_jobs)" "claimed_ids (group_ids null_jobs embed_jobs) d"
    and "apply_group show_f missing chunk_exists notify now registry_id expected null_jobs embed_jobs outcomes
           max_retries backoff_ms d = (ap, d')"
  shows "disposes_w (group_ids null_jobs embed_jobs) d d'"
    and "\<forall>p \<in> set (zip embed_jobs outcomes). \<forall>j \<in> set (db_jobs d). jb_id j = fst (fst p) \<longrightarrow>
      settled (pair_verdict (rt_dim expected) max_retries p) j d'"
    and "\<exists>tail. set tail \<subseteq> {Notify (re_id entry)} \<and> db_writes d' = db_writes d @ null_statement entry expected null_jobs @
      vector_statement show_f entry expected
        (filter (is_written (rt_dim expected) max_retries) (zip embed_jobs outcomes)) @ tail"
proof -
  obtain ap1 d1 ok ap2 d2 d3 where nulls: "null_rows entry (rt_vector_column expected) null_jobs no_applied d = (ap1, d1)"
    and loop: "apply_outcomes show_f now (rt_dim expected) max_retries backoff_ms (zip embed_jobs outcomes)
      \<lparr>ok_pks = [], ok_chunks = [], ok_vecs = [], ok_ids = []\<rparr> ap1 d1 = (ok, ap2, d2)"
    and wr: "write_ok chunk_exists entry (rt_vector_column expected) ok ap2 d2 = (ap, d3)"
    and d': "d' = notify_write notify entry ap d3" using apply_group_stages [OF assms(2-6,10)] .
  have ids: "map (fst \<circ> fst) (zip embed_jobs outcomes) = map fst embed_jobs" using assms(7) by (simp add: map_fst_zip_eq)
  have ok: "ok = add_ok show_f (filter (is_written (rt_dim expected) max_retries) (zip embed_jobs outcomes))
      \<lparr>ok_pks = [], ok_chunks = [], ok_vecs = [], ok_ids = []\<rparr>"
    and d2: "d2 = fold (apply_one now (rt_dim expected) max_retries backoff_ms) (zip embed_jobs outcomes) d1"
    using apply_outcomes_fold [OF loop] by blast+
  note tab = group_tables [OF ok assms(1) nulls d2 wr, unfolded ids, OF assms(8,9) [unfolded group_ids_def]]
  have last: "disposes_w [] d3 d'" "claimed_ids [] d3"
    using notify_disposes [OF disposes_wD(1) [OF tab(1)]] by (simp_all add: d' claimed_ids_def has_id_def list_all_iff)
  show "disposes_w (group_ids null_jobs embed_jobs) d d'"
    using disposes_w_trans [OF tab(1) last(1)] by (simp add: group_ids_def)
  show "\<forall>p \<in> set (zip embed_jobs outcomes). \<forall>j \<in> set (db_jobs d). jb_id j = fst (fst p) \<longrightarrow>
      settled (pair_verdict (rt_dim expected) max_retries p) j d'"
    using tab(3) disposes_wD(4) [OF last] by blast
  show "\<exists>tail. set tail \<subseteq> {Notify (re_id entry)} \<and> db_writes d' = db_writes d @ null_statement entry expected null_jobs @
      vector_statement show_f entry expected
        (filter (is_written (rt_dim expected) max_retries) (zip embed_jobs outcomes)) @ tail"
    using tab(2) by (auto simp: d' notify_write_def)
qed

section \<open>The table invariant on every path\<close>

lemma apply_fold_inv: "queue_inv d \<Longrightarrow> queue_inv (fold (apply_one now dim max_retries backoff_ms) ps d)"
proof (induction ps arbitrary: d)
  case (Cons p ps)
  have "queue_inv (apply_one now dim max_retries backoff_ms p d)"
    using disposes_inv [OF apply_one_disposes(1) [OF Cons(2)]] .
  from Cons(1) [OF this] show ?case by simp
qed simp

lemma fail_migration_inv: "queue_inv d \<Longrightarrow> queue_inv (fail_migration i msg d)"
  by (simp add: fail_migration_def)

lemma unclaim_inv: "queue_inv d \<Longrightarrow> queue_inv (unclaim_jobs now ids delay err keep d)"
  unfolding unclaim_jobs_def by (rule unclaim_op.dispose_inv)

lemma write_path_inv:
  assumes "queue_inv d" "null_rows entry col null_jobs ap0 d = (ap1, d1)"
    and "apply_outcomes show_f now dim max_retries backoff_ms ps ok0 ap1 d1 = (ok, ap2, d2)"
    and "write_ok chunk_exists entry col ok ap2 d2 = (ap3, d3)"
  shows "queue_inv d1" "queue_inv (notify_write notify entry ap3 d3)"
proof -
  show d1: "queue_inv d1" using disposes_wD(1) [OF null_rows_disposes(1) [OF assms(1,2)]] .
  have "d2 = fold (apply_one now dim max_retries backoff_ms) ps d1" using apply_outcomes_fold [OF assms(3)] by blast
  then have "queue_inv d2" using apply_fold_inv [OF d1] by simp
  then have "queue_inv d3" using disposes_wD(1) [OF write_ok_disposes(1) [OF _ assms(4)]] by blast
  then show "queue_inv (notify_write notify entry ap3 d3)" using disposes_wD(1) [OF notify_disposes] by blast
qed

lemma apply_group_inv:
  assumes "queue_inv d"
  shows "queue_inv (snd (apply_group show_f missing chunk_exists notify now rid expected null_jobs embed_jobs outcomes
    max_retries backoff_ms d))"
proof -
  have del: "queue_inv (delete_jobs ids d)" for ids using delete_op.dispose_inv [OF assms] .
  have rel: "queue_inv (unclaim_jobs now ids 0 reason False (case m of Some mid \<Rightarrow> fail_migration mid reason d | None \<Rightarrow> d))" for ids reason m
    using unclaim_inv fail_migration_inv [OF assms] assms by (simp split: option.splits)
  show ?thesis
  proof (cases "load_entry rid d")
    case None
    then show ?thesis by (simp add: apply_group_def del)
  next
    case (Some entry)
    let ?fresh = "embed_routing entry d"
    obtain ap1 d1 where n: "null_rows entry (rt_vector_column ?fresh) null_jobs no_applied d = (ap1, d1)" by fastforce
    obtain ok ap2 d2 where l: "apply_outcomes show_f now (rt_dim ?fresh) max_retries backoff_ms (zip embed_jobs outcomes)
        \<lparr>ok_pks = [], ok_chunks = [], ok_vecs = [], ok_ids = []\<rparr> ap1 d1 = (ok, ap2, d2)" by (rule prod_cases3)
    obtain ap3 d3 where w: "write_ok chunk_exists entry (rt_vector_column ?fresh) ok ap2 d2 = (ap3, d3)" by fastforce
    note path = write_path_inv [OF assms n l w]
    let ?col = "rt_vector_column ?fresh"
    consider (disabled) "re_state entry = ''disabled''"
      | (broken) reason where "re_state entry \<noteq> ''disabled''" "missing entry [] = Some reason"
      | (lost) reason where "re_state entry \<noteq> ''disabled''" "missing entry [] = None" "?col \<noteq> re_vector_column entry"
        "missing entry [?col] = Some reason"
      | (fine) "re_state entry \<noteq> ''disabled''" "missing entry [] = None"
        "(if ?col \<noteq> re_vector_column entry then missing entry [?col] else None) = None"
      by (metis option.exhaust)
    then show ?thesis
    proof cases
      case fine
      then have "apply_group show_f missing chunk_exists notify now rid expected null_jobs embed_jobs outcomes
          max_retries backoff_ms d = (if embed_jobs \<noteq> [] \<and> ?fresh \<noteq> expected
            then (ap1\<lparr>ap_retried := ap_retried ap1 + int (length embed_jobs)\<rparr>,
                  unclaim_jobs now (map fst embed_jobs) 0 ''embed routing changed mid-flight (migration)'' False d1)
            else (ap3, notify_write notify entry ap3 d3))"
        by (simp only: apply_group_def Some option.case Let_def fine n l w prod.case if_False)
      then show ?thesis using path unclaim_inv by simp
    qed (simp_all add: apply_group_def Some del quarantine_inv assms rel Let_def)
  qed
qed

lemma apply_rows_inv:
  assumes "queue_inv d" "\<And>n e out d ap d'. queue_inv d \<Longrightarrow> apply1 n e out d = Inr (ap, d') \<Longrightarrow> queue_inv d'"
    and "\<And>i err d. queue_inv d \<Longrightarrow> queue_inv (snd (release i err d))"
  shows "queue_inv (snd (apply_rows null_jobs embed_jobs outcomes apply1 release d))"
proof -
  have "queue_inv (snd (apply_rows_loop apply1 release rows tot d))" if "queue_inv d" for rows tot d
    using that
  proof (induction rows arbitrary: tot d)
    case (Cons row rows)
    obtain i n e out where row: "row = (i, n, e, out)" by (cases row) auto
    obtain ap d1 where r: "(case apply1 n e out d of Inr r \<Rightarrow> r | Inl err \<Rightarrow> release i err d) = (ap, d1)" by fastforce
    have "queue_inv d1"
    proof (cases "apply1 n e out d")
      case (Inl err)
      then show ?thesis using r assms(3) [OF Cons(2), of i err] by simp
    next
      case (Inr x)
      then show ?thesis using r assms(2) [OF Cons(2)] by simp
    qed
    from Cons(1) [OF this] show ?case by (simp add: row r)
  qed simp
  then show ?thesis using assms(1) by (simp add: apply_rows_def)
qed

end
