(* ===== verification/ClaimRead.thy ===== *)
theory ClaimRead
  imports WriteBack "HOL-Library.Multiset"
begin

text \<open>
  The claim/read transaction of \<open>postvec/src/jobs.rs\<close>: claims are grouped by entry, keys that do
  not cast are dead-lettered, and the source texts are read in two phases (lengths, then only the
  admitted texts) under a per-item ceiling and a byte budget shared by all groups.

  The contents of user tables are parameters. Phase one reads \<open>row_len entry pk\<close> (no row, a row
  whose document is NULL, or its byte length) and phase two \<open>row_render entry pk\<close> (the length and
  text at that later moment); the two may differ, because the transaction runs under READ COMMITTED.
  \<open>chunk_len\<close> and \<open>chunk_render\<close> are the same for chunk rows.
\<close>

section \<open>The tables as the transaction sees them\<close>

record source_tables =
  st_missing :: "registry_entry \<Rightarrow> string list \<Rightarrow> string option"
  st_locked :: "int \<Rightarrow> bool"
  st_input_valid :: "string \<Rightarrow> string \<Rightarrow> bool"
  st_row_len :: "registry_entry \<Rightarrow> string \<Rightarrow> int option option"
  st_row_render :: "registry_entry \<Rightarrow> string \<Rightarrow> (int \<times> string) option option"
  st_chunk_len :: "registry_entry \<Rightarrow> int \<Rightarrow> string \<Rightarrow> bool \<times> bool \<times> int option"
  st_chunk_render :: "registry_entry \<Rightarrow> int \<Rightarrow> string \<Rightarrow> (int \<times> string) option"

definition too_large_error :: "int \<Rightarrow> int \<Rightarrow> string" where
  "too_large_error len item_cap =
     ''rendered text is '' @ dec_int len @ '' bytes; the ceiling is '' @ dec_int item_cap @
     '' (min of postvec.max_document_bytes, postvec.max_batch_total_bytes, and the '' @
     ''48 MiB wire-message ceiling); postvec never truncates '' @
     [CHR 0xE2, CHR 0x80, CHR 0x94] @ '' shorten the '' @
     ''source/template or raise the ceiling, then postvec.retry_dead()''"

definition first_pk_type :: "registry_entry \<Rightarrow> string" where
  "first_pk_type entry = (case re_pk_types entry of [] \<Rightarrow> [] | t # _ \<Rightarrow> t)"

text \<open>
  \<open>pk_types[0]\<close> is read only for entries whose missing-dependency check passed, which refuses an
  entry without key types.
\<close>

definition dead_letter_uncastable_keys ::
  "source_tables \<Rightarrow> registry_entry \<Rightarrow> job list \<Rightarrow> db \<Rightarrow> job list \<times> db" where
  "dead_letter_uncastable_keys st entry claims d =
     (let invalid = filter (\<lambda>pk. \<not> st_input_valid st pk (first_pk_type entry)) (map jb_pk claims) in
      if invalid = [] then (claims, d)
      else let bad = filter (\<lambda>c. jb_pk c \<in> set invalid) claims;
               good = filter (\<lambda>c. jb_pk c \<notin> set invalid) claims
           in (good, move_to_dead (map jb_id bad)
                 (''pk_value is not valid input for PK type '' @ first_pk_type entry @ '' (direct queue insert?)'') d))"

section \<open>Column mode\<close>

datatype source_read = SourceText string | SourceNull | TooLarge int | Deferred

text \<open>
  Admission in claim order. \<open>used\<close> are the bytes admitted so far; once a row does not fit, every
  later row that is not too large is deferred.
\<close>

fun admit_rows ::
  "int \<Rightarrow> int \<Rightarrow> (string \<times> int option) list \<Rightarrow> int \<Rightarrow> bool
   \<Rightarrow> (string \<rightharpoonup> source_read) \<Rightarrow> (string \<rightharpoonup> source_read) \<times> (string \<times> int) list" where
  "admit_rows item_cap budget [] used closed m = (m, [])"
| "admit_rows item_cap budget ((pk, len) # lens) used closed m =
     (case len of
        None \<Rightarrow> admit_rows item_cap budget lens used closed (m(pk \<mapsto> SourceNull))
      | Some l \<Rightarrow>
          if l > item_cap then admit_rows item_cap budget lens used closed (m(pk \<mapsto> TooLarge l))
          else if \<not> closed \<and> used + l \<le> budget
          then (case admit_rows item_cap budget lens (used + l) closed m of (m, adm) \<Rightarrow> (m, (pk, l) # adm))
          else admit_rows item_cap budget lens used True (m(pk \<mapsto> Deferred)))"

definition render_admitted ::
  "source_tables \<Rightarrow> registry_entry \<Rightarrow> string \<times> int \<Rightarrow> (string \<rightharpoonup> source_read) \<Rightarrow> (string \<rightharpoonup> source_read)" where
  "render_admitted st entry row m =
     (case row of (pk, l) \<Rightarrow>
        (case st_row_render st entry pk of
           None \<Rightarrow> m
         | Some None \<Rightarrow> m(pk \<mapsto> SourceNull)
         | Some (Some (len, txt)) \<Rightarrow> if len \<le> l then m(pk \<mapsto> SourceText txt) else m(pk \<mapsto> Deferred)))"

definition read_sources ::
  "source_tables \<Rightarrow> registry_entry \<Rightarrow> string list \<Rightarrow> int \<Rightarrow> int \<Rightarrow> (string \<rightharpoonup> source_read)" where
  "read_sources st entry pks item_cap budget =
     (let lens = List.map_filter (\<lambda>pk. map_option (Pair pk) (st_row_len st entry pk)) pks in
      case admit_rows item_cap budget lens 0 False Map.empty of
        (m, adm) \<Rightarrow> fold (render_admitted st entry) adm m)"

definition mk_item :: "job \<Rightarrow> string option \<Rightarrow> job_item" where
  "mk_item c t = \<lparr>it_job_id = jb_id c, it_pk = jb_pk c, it_chunk = jb_chunk c, it_attempts = jb_attempts c, it_text = t\<rparr>"

fun take_sources ::
  "int \<Rightarrow> job list \<Rightarrow> (string \<rightharpoonup> source_read) \<Rightarrow> int \<Rightarrow> db \<Rightarrow> job_item list \<times> int list \<times> int \<times> db" where
  "take_sources item_cap [] sources remaining d = ([], [], remaining, d)"
| "take_sources item_cap (c # claims) sources remaining d =
     (let src = sources (jb_pk c); sources = sources(jb_pk c := None) in
      case src of
        Some (SourceText t) \<Rightarrow>
          (case take_sources item_cap claims sources (remaining - int (length t)) d of
             (items, deferred, remaining, d) \<Rightarrow> (mk_item c (Some t) # items, deferred, remaining, d))
      | Some (TooLarge len) \<Rightarrow>
          take_sources item_cap claims sources remaining (move_to_dead [jb_id c] (too_large_error len item_cap) d)
      | Some Deferred \<Rightarrow>
          (case take_sources item_cap claims sources remaining d of
             (items, deferred, remaining, d) \<Rightarrow> (items, jb_id c # deferred, remaining, d))
      | _ \<Rightarrow>
          (case take_sources item_cap claims sources remaining d of
             (items, deferred, remaining, d) \<Rightarrow> (mk_item c None # items, deferred, remaining, d)))"

definition read_column_items ::
  "source_tables \<Rightarrow> int \<Rightarrow> registry_entry \<Rightarrow> job list \<Rightarrow> int \<Rightarrow> int \<Rightarrow> db \<Rightarrow> job_item list \<times> int \<times> db" where
  "read_column_items st now entry claims item_cap remaining d =
     (case take_sources item_cap claims (read_sources st entry (map jb_pk claims) item_cap remaining) remaining d of
        (items, deferred, remaining, d) \<Rightarrow> (items, remaining, defer_jobs now deferred d))"

section \<open>Chunk mode\<close>

definition chunk_of :: "job \<Rightarrow> int" where
  "chunk_of c = (case jb_chunk c of None \<Rightarrow> 0 | Some cid \<Rightarrow> cid)"

record chunk_admission =
  ca_admitted :: "(job \<times> int) list"
  ca_obsolete :: "int list"
  ca_mismatched :: "int list"
  ca_deferred :: "int list"

fun admit_chunks ::
  "int \<Rightarrow> (int \<rightharpoonup> bool \<times> bool \<times> int option) \<Rightarrow> job list \<Rightarrow> bool \<Rightarrow> int \<Rightarrow> db
   \<Rightarrow> chunk_admission \<times> int \<times> db" where
  "admit_chunks item_cap resolved [] closed remaining d =
     (\<lparr>ca_admitted = [], ca_obsolete = [], ca_mismatched = [], ca_deferred = []\<rparr>, remaining, d)"
| "admit_chunks item_cap resolved (c # cs) closed remaining d =
     (case resolved (chunk_of c) of
        Some (True, True, Some len) \<Rightarrow>
          if len > item_cap
          then admit_chunks item_cap resolved cs closed remaining
                 (move_to_dead [jb_id c] (too_large_error len item_cap) d)
          else if \<not> closed \<and> len \<le> remaining
          then (case admit_chunks item_cap resolved cs closed (remaining - len) d of
                  (ca, remaining, d) \<Rightarrow> (ca\<lparr>ca_admitted := (c, len) # ca_admitted ca\<rparr>, remaining, d))
          else (case admit_chunks item_cap resolved cs True remaining d of
                  (ca, remaining, d) \<Rightarrow> (ca\<lparr>ca_deferred := jb_id c # ca_deferred ca\<rparr>, remaining, d))
      | Some (True, False, _) \<Rightarrow>
          (case admit_chunks item_cap resolved cs closed remaining d of
             (ca, remaining, d) \<Rightarrow> (ca\<lparr>ca_mismatched := jb_id c # ca_mismatched ca\<rparr>, remaining, d))
      | _ \<Rightarrow>
          (case admit_chunks item_cap resolved cs closed remaining d of
             (ca, remaining, d) \<Rightarrow> (ca\<lparr>ca_obsolete := jb_id c # ca_obsolete ca\<rparr>, remaining, d)))"

definition render_chunk :: "source_tables \<Rightarrow> registry_entry \<Rightarrow> job \<times> int \<Rightarrow> (int \<times> string) option" where
  "render_chunk st entry row =
     (case st_chunk_render st entry (chunk_of (fst row)) (jb_pk (fst row)) of
        Some (len, txt) \<Rightarrow> if len \<le> snd row then Some (chunk_of (fst row), txt) else None
      | None \<Rightarrow> None)"

fun take_chunks :: "(job \<times> int) list \<Rightarrow> (int \<rightharpoonup> string) \<Rightarrow> job_item list \<times> int list" where
  "take_chunks [] texts = ([], [])"
| "take_chunks ((c, _) # cs) texts =
     (case take_chunks cs (texts(chunk_of c := None)) of
        (items, vanished) \<Rightarrow>
          (case texts (chunk_of c) of
             Some t \<Rightarrow> (mk_item c (Some t) # items, vanished)
           | None \<Rightarrow> (items, jb_id c # vanished)))"

definition read_chunk_items ::
  "source_tables \<Rightarrow> int \<Rightarrow> registry_entry \<Rightarrow> job list \<Rightarrow> int \<Rightarrow> int \<Rightarrow> db \<Rightarrow> job_item list \<times> int \<times> db" where
  "read_chunk_items st now entry claims item_cap remaining d =
     (let chunked = filter (\<lambda>c. jb_chunk c \<noteq> None) claims;
          malformed = filter (\<lambda>c. jb_chunk c = None) claims;
          d = move_to_dead (map jb_id malformed)
                ''malformed queue row: a chunked entry's embed jobs are chunk-keyed (direct queue insert?)'' d
      in
      if chunked = [] then ([], remaining, d)
      else
        let resolved = map_of (rev (map (\<lambda>c. (chunk_of c, st_chunk_len st entry (chunk_of c) (jb_pk c))) chunked)) in
        case admit_chunks item_cap resolved chunked False remaining d of
          (ca, remaining, d) \<Rightarrow>
            let d = move_to_dead (ca_mismatched ca)
                      ''chunk identity does not belong to the queued source key (malformed queue row)''
                      (defer_jobs now (ca_deferred ca) (delete_jobs (ca_obsolete ca) d))
            in
            if ca_admitted ca = [] then ([], remaining, d)
            else
              let texts = map_of (rev (List.map_filter (render_chunk st entry) (ca_admitted ca))) in
              case take_chunks (ca_admitted ca) texts of
                (items, vanished) \<Rightarrow> (items, remaining, delete_jobs vanished d))"

section \<open>The whole transaction\<close>

record group_work =
  gw_entry :: registry_entry
  gw_routing :: routing
  gw_items :: "job_item list"

definition read_group ::
  "source_tables \<Rightarrow> int \<Rightarrow> registry_entry \<Rightarrow> job list \<Rightarrow> int \<Rightarrow> int \<Rightarrow> db \<Rightarrow> job_item list \<times> int \<times> db" where
  "read_group st now entry claims item_cap remaining d =
     (case (if is_composite_pk entry then (claims, d) else dead_letter_uncastable_keys st entry claims d) of
        (claims, d) \<Rightarrow>
          if claims = [] then ([], remaining, d)
          else if remaining \<le> 0 then ([], remaining, defer_jobs now (map jb_id claims) d)
          else if is_recursive entry then read_chunk_items st now entry claims item_cap remaining d
          else read_column_items st now entry claims item_cap remaining d)"

fun read_groups ::
  "source_tables \<Rightarrow> int \<Rightarrow> int \<Rightarrow> (int \<times> job list) list \<Rightarrow> int \<Rightarrow> db \<Rightarrow> group_work list \<times> db" where
  "read_groups st now item_cap [] remaining d = ([], d)"
| "read_groups st now item_cap ((rid, claims) # groups) remaining d =
     (case load_entry rid d of
        None \<Rightarrow> read_groups st now item_cap groups remaining (delete_jobs (map jb_id claims) d)
      | Some entry \<Rightarrow>
          if re_state entry = ''disabled''
          then read_groups st now item_cap groups remaining (delete_jobs (map jb_id claims) d)
          else
            (case st_missing st entry [] of
               Some reason \<Rightarrow> read_groups st now item_cap groups remaining (quarantine_entry entry reason d)
             | None \<Rightarrow>
                 (case read_group st now entry claims item_cap remaining d of
                    (items, remaining, d) \<Rightarrow>
                      if items = [] then read_groups st now item_cap groups remaining d
                      else
                        (case read_groups st now item_cap groups remaining d of
                           (work, d') \<Rightarrow>
                             (\<lparr>gw_entry = entry, gw_routing = embed_routing entry d, gw_items = items\<rparr> # work, d')))))"

definition by_registry :: "job list \<Rightarrow> (int \<times> job list) list" where
  "by_registry claims =
     map (\<lambda>r. (r, filter (\<lambda>c. jb_registry c = r) claims)) (sort (remdups (map jb_registry claims)))"

definition claim_and_read_budgeted ::
  "source_tables \<Rightarrow> int \<Rightarrow> int \<Rightarrow> nat \<Rightarrow> int \<Rightarrow> int \<Rightarrow> int \<Rightarrow> db \<Rightarrow> group_work list \<times> db" where
  "claim_and_read_budgeted st now max_retries batch vis item_cap budget d =
     (let budget = max budget 1; item_cap = min (max item_cap 1) budget in
      case claim_batch (st_missing st) now (st_locked st) vis max_retries batch d of
        (claimed, d) \<Rightarrow>
          if claimed = [] then ([], d)
          else read_groups st now item_cap (by_registry claimed) budget d)"

definition claim_and_read ::
  "source_tables \<Rightarrow> int \<Rightarrow> int \<Rightarrow> int \<Rightarrow> int \<Rightarrow> nat \<Rightarrow> int \<Rightarrow> db \<Rightarrow> group_work list \<times> db" where
  "claim_and_read st max_document max_batch now max_retries batch vis d =
     claim_and_read_budgeted st now max_retries batch vis (effective_item_cap max_document max_batch) max_batch d"

section \<open>The byte budget\<close>

definition text_bytes :: "string option \<Rightarrow> int" where
  "text_bytes t = (case t of None \<Rightarrow> 0 | Some t \<Rightarrow> int (length t))"

definition items_bytes :: "job_item list \<Rightarrow> int" where
  "items_bytes its = sum_list (map (text_bytes \<circ> it_text) its)"

definition work_bytes :: "group_work list \<Rightarrow> int" where
  "work_bytes ws = sum_list (map (items_bytes \<circ> gw_items) ws)"

text \<open>What the generated length expressions promise: lengths are not negative, and the length read
  together with a text is the text's.\<close>

definition measured :: "source_tables \<Rightarrow> bool" where
  "measured st \<longleftrightarrow>
     (\<forall>e pk l. st_row_len st e pk = Some (Some l) \<longrightarrow> 0 \<le> l) \<and>
     (\<forall>e pk l t. st_row_render st e pk = Some (Some (l, t)) \<longrightarrow> l = int (length t)) \<and>
     (\<forall>e c pk l. snd (snd (st_chunk_len st e c pk)) = Some l \<longrightarrow> 0 \<le> l) \<and>
     (\<forall>e c pk l t. st_chunk_render st e c pk = Some (l, t) \<longrightarrow> l = int (length t))"

lemma items_bytes_simps [simp]:
  "items_bytes [] = 0" "items_bytes (mk_item c t # its) = text_bytes t + items_bytes its"
  "text_bytes None = 0" "text_bytes (Some s) = int (length s)"
  by (simp_all add: items_bytes_def text_bytes_def mk_item_def)

lemma mk_item_text [simp]: "it_text (mk_item c t) = t"
  by (simp add: mk_item_def)

text \<open>Keys that are each used once weigh no more than the list that admitted them.\<close>

lemma sum_by_witness:
  fixes f :: "'k \<Rightarrow> int" and w :: "'x \<Rightarrow> int"
  assumes "finite S" "\<And>x. x \<in> set xs \<Longrightarrow> 0 \<le> w x"
    and "\<And>k. k \<in> S \<Longrightarrow> f k \<le> 0 \<or> (\<exists>x \<in> set xs. key x = k \<and> f k \<le> w x)"
  shows "sum f S \<le> sum_list (map w xs)"
  using assms(2,3)
proof (induction xs arbitrary: f)
  case Nil
  then have "sum f S \<le> 0" by (intro sum_nonpos) auto
  then show ?case by simp
next
  case (Cons x xs)
  show ?case
  proof (cases "key x \<in> S \<and> 0 < f (key x) \<and> f (key x) \<le> w x")
    case True
    let ?f = "f(key x := 0)"
    have "sum ?f S \<le> sum_list (map w xs)"
    proof (rule Cons(1))
      fix k assume "k \<in> S"
      then show "?f k \<le> 0 \<or> (\<exists>y \<in> set xs. key y = k \<and> ?f k \<le> w y)"
        using Cons(3) [of k] by auto
    qed (use Cons(2) in simp)
    moreover have "sum f S = f (key x) + sum f (S - {key x})" using True assms(1) by (simp add: sum.remove)
    moreover have "sum ?f S = ?f (key x) + sum ?f (S - {key x})" using True assms(1) by (intro sum.remove) auto
    moreover have "sum ?f (S - {key x}) = sum f (S - {key x})" by (intro sum.cong) auto
    ultimately show ?thesis using True by simp
  next
    case False
    have "sum f S \<le> sum_list (map w xs)"
    proof (rule Cons(1))
      fix k assume "k \<in> S"
      then show "f k \<le> 0 \<or> (\<exists>y \<in> set xs. key y = k \<and> f k \<le> w y)"
        using Cons(3) [of k] False by auto
    qed (use Cons(2) in simp)
    then show ?thesis using Cons(2) [of x] by simp
  qed
qed

definition source_text :: "source_read option \<Rightarrow> string option" where
  "source_text s = (case s of Some (SourceText t) \<Rightarrow> Some t | _ \<Rightarrow> None)"

lemma text_bytes_nonneg [simp]: "0 \<le> text_bytes t"
  by (simp add: text_bytes_def split: option.splits)

lemma sum_removed_key:
  fixes f :: "'k \<Rightarrow> int"
  assumes "finite S" "g k = 0" "\<And>x. x \<noteq> k \<Longrightarrow> g x = f x"
  shows "f k + sum g S = sum f (insert k S)"
proof -
  have "sum g S = sum g (S - {k})" using assms(1,2) by (cases "k \<in> S") (simp_all add: sum.remove)
  also have "\<dots> = sum f (S - {k})" using assms(3) by (intro sum.cong) auto
  finally show ?thesis using assms(1) by (simp add: sum.insert_remove)
qed

lemma take_sources_bytes:
  assumes "take_sources item_cap claims m remaining d = (items, deferred, remaining', d')"
  shows "items_bytes items = remaining - remaining' \<and>
    items_bytes items \<le> sum (\<lambda>pk. text_bytes (source_text (m pk))) (set (map jb_pk claims)) \<and>
    (\<forall>it \<in> set items. it_text it = None \<or> (\<exists>pk. it_text it = source_text (m pk)))"
  using assms
proof (induction claims arbitrary: m remaining d items deferred remaining' d')
  case (Cons c claims)
  let ?m = "m(jb_pk c := None)" and ?f = "\<lambda>pk. text_bytes (source_text (m pk))"
  let ?g = "\<lambda>pk. text_bytes (source_text (?m pk))"
  have sum: "?f (jb_pk c) + sum ?g (set (map jb_pk claims)) = sum ?f (set (map jb_pk (c # claims)))"
    using sum_removed_key [of "set (map jb_pk claims)" ?g "jb_pk c" ?f] by (simp add: source_text_def)
  have pos: "0 \<le> ?f (jb_pk c)" by simp
  have texts: "it_text it = None \<or> (\<exists>pk. it_text it = source_text (m pk))"
    if "it_text it = None \<or> (\<exists>pk. it_text it = source_text (?m pk))" for it
    using that by (auto simp: source_text_def split: if_splits)
  show ?case
  proof (cases "source_text (m (jb_pk c))")
    case None
    have "\<exists>items0 d0 deferred0 d1. take_sources item_cap claims ?m remaining d0 = (items0, deferred0, remaining', d1) \<and>
        (items = items0 \<or> items = mk_item c None # items0)"
      using Cons(2) None by (auto simp: source_text_def Let_def split: option.splits source_read.splits prod.splits)
    then obtain items0 d0 deferred0 d1 where
      r: "take_sources item_cap claims ?m remaining d0 = (items0, deferred0, remaining', d1)"
      and it: "items = items0 \<or> items = mk_item c None # items0" by blast
    have ih: "items_bytes items0 = remaining - remaining'" "items_bytes items0 \<le> sum ?g (set (map jb_pk claims))"
      "\<forall>it \<in> set items0. it_text it = None \<or> (\<exists>pk. it_text it = source_text (m pk))"
      using Cons(1) [OF r] texts by blast+
    have "items_bytes items = items_bytes items0" "set items \<subseteq> insert (mk_item c None) (set items0)" using it by auto
    then show ?thesis using ih sum pos by (metis (no_types, lifting) add_increasing insertE mk_item_text subsetD)
  next
    case (Some t)
    then obtain items0 deferred0 where
      r: "take_sources item_cap claims ?m (remaining - int (length t)) d = (items0, deferred0, remaining', d')"
      and it: "items = mk_item c (Some t) # items0"
      using Cons(2) by (auto simp: source_text_def Let_def split: option.splits source_read.splits prod.splits)
    have ih: "items_bytes items0 = remaining - int (length t) - remaining'"
      "items_bytes items0 \<le> sum ?g (set (map jb_pk claims))"
      "\<forall>it \<in> set items0. it_text it = None \<or> (\<exists>pk. it_text it = source_text (m pk))"
      using Cons(1) [OF r] texts by blast+
    have "it_text (mk_item c (Some t)) = source_text (m (jb_pk c))" using Some by simp
    then have "\<forall>it \<in> set items. it_text it = None \<or> (\<exists>pk. it_text it = source_text (m pk))"
      using ih(3) unfolding it by (metis set_ConsD)
    moreover have "items_bytes items = int (length t) + items_bytes items0" "?f (jb_pk c) = int (length t)"
      using it Some by simp_all
    ultimately show ?thesis using ih(1,2) sum by linarith
  qed
qed simp

lemma admit_rows_spec:
  assumes "admit_rows item_cap budget lens used closed m = (m', adm)" "used \<le> budget"
    and "\<And>pk l. (pk, Some l) \<in> set lens \<Longrightarrow> 0 \<le> l" "\<And>pk. source_text (m pk) = None"
  shows "sum_list (map snd adm) \<le> budget - used \<and> (\<forall>(pk, l) \<in> set adm. 0 \<le> l \<and> l \<le> item_cap) \<and>
    (\<forall>pk. source_text (m' pk) = None)"
  using assms
proof (induction item_cap budget lens used closed m arbitrary: m' adm rule: admit_rows.induct)
  case (2 item_cap budget pk len lens used closed m)
  have upd: "source_text ((m(pk \<mapsto> s)) x) = None" if "\<And>t. s \<noteq> SourceText t" for s x
    using 2(8) that by (cases s) (auto simp: source_text_def)
  have lens: "\<And>pk l. (pk, Some l) \<in> set lens \<Longrightarrow> 0 \<le> l" using 2(7) by (meson list.set_intros(2))
  show ?case
  proof (cases len)
    case None
    then have r: "admit_rows item_cap budget lens used closed (m(pk \<mapsto> SourceNull)) = (m', adm)" using 2(5) by simp
    show ?thesis by (rule 2(1) [OF None r 2(6)]) (use lens upd in blast)+
  next
    case (Some l)
    have pos: "0 \<le> l" using 2(7) [of pk l] Some by simp
    consider (big) "l > item_cap" | (fit) "\<not> l > item_cap" "\<not> closed \<and> used + l \<le> budget"
      | (full) "\<not> l > item_cap" "\<not> (\<not> closed \<and> used + l \<le> budget)" by blast
    then show ?thesis
    proof cases
      case big
      then have r: "admit_rows item_cap budget lens used closed (m(pk \<mapsto> TooLarge l)) = (m', adm)"
        using 2(5) Some by simp
      show ?thesis by (rule 2(2) [OF Some big r 2(6)]) (use lens upd in blast)+
    next
      case fit
      obtain adm0 where r: "admit_rows item_cap budget lens (used + l) closed m = (m', adm0)" "adm = (pk, l) # adm0"
        using 2(5) Some fit by (auto split: prod.splits)
      have "sum_list (map snd adm0) \<le> budget - (used + l) \<and> (\<forall>(pk, l) \<in> set adm0. 0 \<le> l \<and> l \<le> item_cap) \<and>
          (\<forall>pk. source_text (m' pk) = None)"
        by (rule 2(3) [OF Some fit r(1)]) (use fit(2) lens 2(8) in blast)+
      then show ?thesis using fit(1) pos r(2) by simp
    next
      case full
      then have r: "admit_rows item_cap budget lens used True (m(pk \<mapsto> Deferred)) = (m', adm)"
        using 2(5) Some by (auto split: if_splits)
      show ?thesis by (rule 2(4) [OF Some full r 2(6)]) (use lens upd in blast)+
    qed
  qed
qed simp

lemma render_fold_text:
  assumes "measured st" "source_text (fold (render_admitted st entry) adm m pk) = Some t"
  shows "source_text (m pk) = Some t \<or> (\<exists>l. (pk, l) \<in> set adm \<and> int (length t) \<le> l)"
  using assms(2)
proof (induction adm arbitrary: m)
  case (Cons row adm)
  obtain pk' l where row: "row = (pk', l)" by (cases row)
  from Cons have "source_text (render_admitted st entry row m pk) = Some t \<or>
      (\<exists>l. (pk, l) \<in> set adm \<and> int (length t) \<le> l)" by simp
  moreover have "source_text (m pk) = Some t \<or> (pk = pk' \<and> int (length t) \<le> l)"
    if "source_text (render_admitted st entry row m pk) = Some t"
  proof -
    have "len = int (length s)" if "st_row_render st entry pk' = Some (Some (len, s))" for len s
      using assms(1) that by (auto simp: measured_def)
    with that show ?thesis
      by (auto simp: render_admitted_def row source_text_def split: option.splits if_splits prod.splits source_read.splits)
  qed
  ultimately show ?case by (auto simp: row)
qed simp

lemma read_sources_bounds:
  assumes "measured st" "0 \<le> budget"
  shows "sum (\<lambda>pk. text_bytes (source_text (read_sources st entry pks item_cap budget pk))) (set S) \<le> budget"
    and "source_text (read_sources st entry pks item_cap budget pk) = Some t \<Longrightarrow> int (length t) \<le> item_cap"
proof -
  let ?lens = "List.map_filter (\<lambda>pk. map_option (Pair pk) (st_row_len st entry pk)) pks"
  obtain m adm where ad: "admit_rows item_cap budget ?lens 0 False Map.empty = (m, adm)" by fastforce
  have rs: "read_sources st entry pks item_cap budget = fold (render_admitted st entry) adm m"
    by (simp add: read_sources_def ad)
  have "0 \<le> l" if "(pk, Some l) \<in> set ?lens" for pk l
    using that assms(1) by (auto simp: List.map_filter_def measured_def split: option.splits)
  then have spec: "sum_list (map snd adm) \<le> budget" "\<And>pk l. (pk, l) \<in> set adm \<Longrightarrow> 0 \<le> l \<and> l \<le> item_cap"
    "\<And>pk. source_text (m pk) = None"
    using admit_rows_spec [OF ad assms(2)] by (auto simp: source_text_def)
  have adm_text: "\<exists>l. (pk, l) \<in> set adm \<and> int (length t) \<le> l"
    if "source_text (read_sources st entry pks item_cap budget pk) = Some t" for pk t
    using render_fold_text [OF assms(1)] that spec(3) unfolding rs by fastforce
  show "source_text (read_sources st entry pks item_cap budget pk) = Some t \<Longrightarrow> int (length t) \<le> item_cap"
    using adm_text spec(2) by fastforce
  have "sum (\<lambda>pk. text_bytes (source_text (read_sources st entry pks item_cap budget pk))) (set S) \<le> sum_list (map snd adm)"
  proof (rule sum_by_witness [where key = fst])
    fix pk
    show "text_bytes (source_text (read_sources st entry pks item_cap budget pk)) \<le> 0 \<or>
        (\<exists>x \<in> set adm. fst x = pk \<and> text_bytes (source_text (read_sources st entry pks item_cap budget pk)) \<le> snd x)"
    proof (cases "source_text (read_sources st entry pks item_cap budget pk)")
      case (Some t)
      then show ?thesis using adm_text [OF Some] by force
    qed simp
  qed (use spec(2) in auto)
  then show "sum (\<lambda>pk. text_bytes (source_text (read_sources st entry pks item_cap budget pk))) (set S) \<le> budget"
    using spec(1) by linarith
qed

definition within :: "int \<Rightarrow> int \<Rightarrow> int \<Rightarrow> job_item list \<Rightarrow> bool" where
  "within item_cap remaining remaining' items \<longleftrightarrow>
     items_bytes items \<le> remaining - remaining' \<and> 0 \<le> remaining' \<and>
     list_all (\<lambda>it. text_bytes (it_text it) \<le> item_cap) items"

lemma read_column_within:
  assumes "measured st" "0 \<le> remaining" "0 \<le> item_cap"
    and "read_column_items st now entry claims item_cap remaining d = (items, remaining', d')"
  shows "within item_cap remaining remaining' items"
proof -
  let ?m = "read_sources st entry (map jb_pk claims) item_cap remaining"
  obtain deferred d1 where t: "take_sources item_cap claims ?m remaining d = (items, deferred, remaining', d1)"
    using assms(4) by (auto simp: read_column_items_def split: prod.splits)
  note tk = take_sources_bytes [OF t]
  have "items_bytes items \<le> remaining" using tk read_sources_bounds(1) [OF assms(1,2)] order_trans by blast
  moreover have "text_bytes (it_text it) \<le> item_cap" if "it \<in> set items" for it
  proof (cases "it_text it")
    case (Some s)
    then obtain pk where "source_text (?m pk) = Some s" using tk \<open>it \<in> set items\<close> by (metis option.distinct(1))
    then show ?thesis using read_sources_bounds(2) [OF assms(1,2)] Some by simp
  qed (simp add: assms(3))
  ultimately show ?thesis using tk by (auto simp: within_def list_all_iff)
qed

lemma admit_chunks_spec:
  assumes "admit_chunks item_cap resolved cs closed remaining d = (ca, remaining', d')" "0 \<le> remaining"
    and "\<And>c a b l. resolved c = Some (a, b, Some l) \<Longrightarrow> 0 \<le> l"
  shows "sum_list (map snd (ca_admitted ca)) = remaining - remaining' \<and> 0 \<le> remaining' \<and>
    (\<forall>(c, l) \<in> set (ca_admitted ca). 0 \<le> l \<and> l \<le> item_cap)"
  using assms
proof (induction cs arbitrary: closed remaining d ca remaining' d')
  case (Cons c cs)
  consider (fit) len where "resolved (chunk_of c) = Some (True, True, Some len)" "\<not> len > item_cap"
      "\<not> closed \<and> len \<le> remaining"
    | (other) closed0 d0 ca0 d1 where "admit_chunks item_cap resolved cs closed0 remaining d0 = (ca0, remaining', d1)"
      "ca_admitted ca = ca_admitted ca0"
    using Cons(2) by (auto split: option.splits bool.splits if_splits prod.splits)
  then show ?case
  proof cases
    case fit
    then obtain ca0 where r: "admit_chunks item_cap resolved cs closed (remaining - len) d = (ca0, remaining', d')"
      "ca_admitted ca = (c, len) # ca_admitted ca0"
      using Cons(2) by (auto split: prod.splits)
    have "0 \<le> remaining - len" using fit(3) by simp
    then show ?thesis using Cons(1) [OF r(1) _ Cons(4)] Cons(4) [OF fit(1)] fit(2) r(2) by auto
  next
    case other
    show ?thesis using Cons(1) [OF other(1) Cons(3,4)] other(2) by simp
  qed
qed simp

lemma take_chunks_bytes:
  assumes "take_chunks cs texts = (items, vanished)"
  shows "items_bytes items \<le> sum (\<lambda>cid. text_bytes (texts cid)) (set (map (chunk_of \<circ> fst) cs)) \<and>
    (\<forall>it \<in> set items. \<exists>cid t. it_text it = Some t \<and> texts cid = Some t)"
  using assms
proof (induction cs arbitrary: texts items vanished)
  case (Cons row cs)
  obtain c l where row: "row = (c, l)" by (cases row)
  let ?t = "texts(chunk_of c := None)" and ?f = "\<lambda>cid. text_bytes (texts cid)"
  let ?g = "\<lambda>cid. text_bytes (?t cid)"
  obtain items0 vanished0 where r: "take_chunks cs ?t = (items0, vanished0)" by fastforce
  have sum: "?f (chunk_of c) + sum ?g (set (map (chunk_of \<circ> fst) cs)) = sum ?f (set (map (chunk_of \<circ> fst) (row # cs)))"
    using sum_removed_key [of "set (map (chunk_of \<circ> fst) cs)" ?g "chunk_of c" ?f] by (simp add: row)
  have ih: "items_bytes items0 \<le> sum ?g (set (map (chunk_of \<circ> fst) cs))"
    "\<forall>it \<in> set items0. \<exists>cid t. it_text it = Some t \<and> texts cid = Some t"
    using Cons(1) [OF r] by (auto split: if_splits) (metis option.distinct(1))
  have "items = (case texts (chunk_of c) of Some t \<Rightarrow> mk_item c (Some t) # items0 | None \<Rightarrow> items0)"
    using Cons(2) r by (auto simp: row split: option.splits)
  then show ?case using ih sum
    by (cases "texts (chunk_of c)") auto
qed simp

lemma render_chunk_text:
  assumes "measured st" "map_of (rev (List.map_filter (render_chunk st entry) adm)) cid = Some t"
  shows "\<exists>row \<in> set adm. chunk_of (fst row) = cid \<and> int (length t) \<le> snd row"
proof -
  have "(cid, t) \<in> set (List.map_filter (render_chunk st entry) adm)" using map_of_SomeD [OF assms(2)] by simp
  then obtain row where row: "row \<in> set adm" "render_chunk st entry row = Some (cid, t)"
    by (auto simp: List.map_filter_def)
  then obtain len where "st_chunk_render st entry (chunk_of (fst row)) (jb_pk (fst row)) = Some (len, t)"
    and row': "len \<le> snd row" "chunk_of (fst row) = cid"
    by (auto simp: render_chunk_def split: option.splits if_splits)
  then have "len = int (length t)" using assms(1) unfolding measured_def by blast
  then show ?thesis using row(1) row' by blast
qed

lemma read_chunk_within:
  assumes "measured st" "0 \<le> remaining" "0 \<le> item_cap"
    and "read_chunk_items st now entry claims item_cap remaining d = (items, remaining', d')"
  shows "within item_cap remaining remaining' items"
proof -
  let ?chunked = "filter (\<lambda>c. jb_chunk c \<noteq> None) claims"
  let ?resolved = "map_of (rev (map (\<lambda>c. (chunk_of c, st_chunk_len st entry (chunk_of c) (jb_pk c))) ?chunked))"
  consider (none) "items = []" "remaining' = remaining"
    | (admitted) d0 ca d1 vanished where
      "admit_chunks item_cap ?resolved ?chunked False remaining d0 = (ca, remaining', d1)"
      "items = [] \<or> take_chunks (ca_admitted ca) (map_of (rev (List.map_filter (render_chunk st entry) (ca_admitted ca))))
         = (items, vanished)"
    using assms(4) by (auto simp: read_chunk_items_def Let_def split: if_splits prod.splits)
  then show ?thesis
  proof cases
    case none
    then show ?thesis using assms(2) by (simp add: within_def)
  next
    case admitted
    have "0 \<le> l" if "?resolved c = Some (a, b, Some l)" for c a b l
    proof -
      from map_of_SomeD [OF that] obtain e cid pk where "st_chunk_len st e cid pk = (a, b, Some l)" by auto
      then have "snd (snd (st_chunk_len st e cid pk)) = Some l" by simp
      then show ?thesis using assms(1) unfolding measured_def by blast
    qed
    then have adm: "sum_list (map snd (ca_admitted ca)) = remaining - remaining'" "0 \<le> remaining'"
      "\<And>row. row \<in> set (ca_admitted ca) \<Longrightarrow> 0 \<le> snd row \<and> snd row \<le> item_cap"
      using admit_chunks_spec [OF admitted(1) assms(2)] by auto
    show ?thesis
    proof (cases "items = []")
      case True
      have "0 \<le> sum_list (map snd (ca_admitted ca))" using adm(3) by (intro sum_list_nonneg) auto
      then show ?thesis using True adm(1,2) by (simp add: within_def)
    next
      case False
      let ?texts = "map_of (rev (List.map_filter (render_chunk st entry) (ca_admitted ca)))"
      have tk: "items_bytes items \<le> sum (\<lambda>cid. text_bytes (?texts cid)) (set (map (chunk_of \<circ> fst) (ca_admitted ca)))"
        "\<forall>it \<in> set items. \<exists>cid t. it_text it = Some t \<and> ?texts cid = Some t"
        using take_chunks_bytes admitted(2) False by blast+
      have "sum (\<lambda>cid. text_bytes (?texts cid)) (set (map (chunk_of \<circ> fst) (ca_admitted ca)))
          \<le> sum_list (map snd (ca_admitted ca))"
      proof (rule sum_by_witness [where key = "chunk_of \<circ> fst"])
        fix cid
        show "text_bytes (?texts cid) \<le> 0 \<or>
            (\<exists>x \<in> set (ca_admitted ca). (chunk_of \<circ> fst) x = cid \<and> text_bytes (?texts cid) \<le> snd x)"
        proof (cases "?texts cid")
          case (Some t)
          then show ?thesis using render_chunk_text [OF assms(1) Some] by auto
        qed simp
      qed (use adm(3) in auto)
      moreover have "text_bytes (it_text it) \<le> item_cap" if "it \<in> set items" for it
        using tk(2) that render_chunk_text [OF assms(1)] adm(3) by (metis items_bytes_simps(4) order_trans)
      ultimately show ?thesis using tk(1) adm(1,2) by (auto simp: within_def list_all_iff)
    qed
  qed
qed

lemma read_group_within:
  assumes "measured st" "0 \<le> remaining" "0 \<le> item_cap"
    and "read_group st now entry claims item_cap remaining d = (items, remaining', d')"
  shows "within item_cap remaining remaining' items"
proof -
  obtain claims' d1 where c:
    "(if is_composite_pk entry then (claims, d) else dead_letter_uncastable_keys st entry claims d) = (claims', d1)"
    by fastforce
  show ?thesis
  proof (cases "claims' = [] \<or> remaining \<le> 0")
    case True
    then have "items = []" "remaining' = remaining"
      using assms(4) c by (auto simp: read_group_def split: if_splits)
    then show ?thesis using assms(2) by (simp add: within_def)
  next
    case False
    then show ?thesis
      using assms(4) c read_chunk_within [OF assms(1-3)] read_column_within [OF assms(1-3)]
      by (auto simp: read_group_def split: if_splits)
  qed
qed

lemma work_bytes_simps [simp]:
  "work_bytes [] = 0" "work_bytes (g # gs) = items_bytes (gw_items g) + work_bytes gs"
  by (simp_all add: work_bytes_def)

lemma read_groups_within:
  assumes "measured st" "0 \<le> item_cap"
  shows "read_groups st now item_cap groups remaining d = (work, d') \<Longrightarrow> 0 \<le> remaining \<Longrightarrow>
    work_bytes work \<le> remaining \<and>
    (\<forall>g \<in> set work. list_all (\<lambda>it. text_bytes (it_text it) \<le> item_cap) (gw_items g))"
proof (induction groups arbitrary: remaining d work d')
  case (Cons group groups)
  obtain rid claims where group: "group = (rid, claims)" by (cases group)
  consider (skip) d0 d1 where "read_groups st now item_cap groups remaining d0 = (work, d1)"
    | (read) entry items remaining' d0 where "read_group st now entry claims item_cap remaining d = (items, remaining', d0)"
      "(items = [] \<and> read_groups st now item_cap groups remaining' d0 = (work, d')) \<or>
       (\<exists>work0 g. read_groups st now item_cap groups remaining' d0 = (work0, d') \<and> work = g # work0 \<and> gw_items g = items)"
    using Cons(2) by (auto simp: group split: option.splits if_splits prod.splits)
  then show ?case
  proof cases
    case skip
    then show ?thesis using Cons(1) Cons(3) by blast
  next
    case read
    have w: "items_bytes items \<le> remaining - remaining'" "0 \<le> remaining'"
      "list_all (\<lambda>it. text_bytes (it_text it) \<le> item_cap) items"
      using read_group_within [OF assms(1) Cons(3) assms(2) read(1)] by (simp_all add: within_def)
    show ?thesis
    proof (cases "items = []")
      case True
      obtain work0 where "read_groups st now item_cap groups remaining' d0 = (work0, d')"
        "work = work0 \<or> (\<exists>g. work = g # work0 \<and> gw_items g = [])" using read(2) True by auto
      then show ?thesis using Cons(1) w True by (fastforce simp: list_all_iff)
    next
      case False
      then obtain work0 g where r: "read_groups st now item_cap groups remaining' d0 = (work0, d')"
        "work = g # work0" "gw_items g = items" using read(2) by blast
      show ?thesis using Cons(1) [OF r(1) w(2)] w r(2,3) by simp
    qed
  qed
qed simp

text \<open>
  C19. A batch never exceeds its byte ceilings. Whatever the user tables hold and however they change
  between the length scan and the rendering, the texts handed to the network phase total at most
  the batch budget over all groups, and each is at most the per-item ceiling (clamped to the
  budget). The hypothesis says that the generated length expressions measure the rendered text.
\<close>
theorem claim_and_read_within_budget:
  assumes "measured st"
    and "claim_and_read_budgeted st now max_retries batch vis item_cap budget d = (work, d')"
  shows "work_bytes work \<le> max budget 1 \<and>
    (\<forall>g \<in> set work. \<forall>it \<in> set (gw_items g). text_bytes (it_text it) \<le> min (max item_cap 1) (max budget 1))"
proof -
  let ?cap = "min (max item_cap 1) (max budget 1)"
  obtain claimed d1 where c: "claim_batch (st_missing st) now (st_locked st) vis max_retries batch d = (claimed, d1)"
    by fastforce
  show ?thesis
  proof (cases "claimed = []")
    case True
    then have "work = []" using assms(2) c by (simp add: claim_and_read_budgeted_def Let_def)
    then show ?thesis by simp
  next
    case False
    then have "read_groups st now ?cap (by_registry claimed) (max budget 1) d1 = (work, d')"
      using assms(2) c by (simp add: claim_and_read_budgeted_def Let_def)
    from read_groups_within [OF assms(1) _ this] show ?thesis by (simp add: list_all_iff)
  qed
qed

section \<open>Where each claim goes\<close>

text \<open>
  Reading a group takes some claims out of the table (dead-lettered, deferred, obsolete) and turns
  the others into items. The two parts make up the claims exactly.
\<close>

definition splits_claims :: "job list \<Rightarrow> job_item list \<Rightarrow> db \<Rightarrow> db \<Rightarrow> bool" where
  "splits_claims claims items d d' \<longleftrightarrow>
     (\<exists>ids. disposes ids d d' \<and> mset (ids @ map it_job_id items) = mset (map jb_id claims)) \<and>
     (\<forall>it \<in> set items. \<exists>c \<in> set claims. it = mk_item c (it_text it))"

lemma mk_item_id [simp]: "it_job_id (mk_item c t) = jb_id c"
  by (simp add: mk_item_def)

lemma dead_then:
  "queue_inv d \<Longrightarrow> disposes ids (move_to_dead [i] err d) d' \<Longrightarrow> disposes (i # ids) d d'"
  using disposes_trans [OF dead_op.dispose_contract [of d "[i]" err]] by simp

lemma take_sources_splits:
  assumes "queue_inv d" "take_sources item_cap claims m remaining d = (items, deferred, remaining', d')"
  shows "(\<exists>ids. disposes ids d d' \<and> mset (ids @ deferred @ map it_job_id items) = mset (map jb_id claims)) \<and>
    (\<forall>it \<in> set items. \<exists>c \<in> set claims. it = mk_item c (it_text it))"
  using assms
proof (induction claims arbitrary: m remaining d items deferred)
  case Nil
  then show ?case using disposes_none by auto
next
  case (Cons c claims)
  let ?m = "m(jb_pk c := None)"
  consider (large) len where "m (jb_pk c) = Some (TooLarge len)" | (deferred) "m (jb_pk c) = Some Deferred"
    | (kept) "m (jb_pk c) \<noteq> Some Deferred" "\<And>len. m (jb_pk c) \<noteq> Some (TooLarge len)"
    by (metis source_read.exhaust option.exhaust)
  then show ?case
  proof cases
    case large
    let ?d = "move_to_dead [jb_id c] (too_large_error len item_cap) d"
    have r: "take_sources item_cap claims ?m remaining ?d = (items, deferred, remaining', d')"
      using Cons(3) large by (simp add: Let_def)
    obtain ids where "disposes ids ?d d'" "mset (ids @ deferred @ map it_job_id items) = mset (map jb_id claims)"
      and it: "\<forall>it \<in> set items. \<exists>c \<in> set claims. it = mk_item c (it_text it)"
      using Cons(1) [OF dead_op.dispose_inv [OF Cons(2)] r] by blast
    then have "disposes (jb_id c # ids) d d'"
      "mset ((jb_id c # ids) @ deferred @ map it_job_id items) = mset (map jb_id (c # claims))"
      using dead_then [OF Cons(2)] by auto
    then show ?thesis using it by fastforce
  next
    case deferred
    then obtain deferred0 where r: "take_sources item_cap claims ?m remaining d = (items, deferred0, remaining', d')"
      and df: "deferred = jb_id c # deferred0"
      using Cons(3) by (auto simp: Let_def split: prod.splits)
    show ?thesis using Cons(1) [OF Cons(2) r] df by fastforce
  next
    case kept
    then obtain items0 t remaining0 where r: "take_sources item_cap claims ?m remaining0 d = (items0, deferred, remaining', d')"
      and its: "items = mk_item c t # items0"
      using Cons(3) by (auto simp: Let_def split: prod.splits option.splits source_read.splits)
    show ?thesis using Cons(1) [OF Cons(2) r] its by fastforce
  qed
qed

lemma admit_chunks_splits:
  assumes "queue_inv d" "admit_chunks item_cap resolved cs closed remaining d = (ca, remaining', d')"
  shows "(\<exists>ids. disposes ids d d' \<and>
      mset (ids @ ca_obsolete ca @ ca_deferred ca @ ca_mismatched ca @ map (jb_id \<circ> fst) (ca_admitted ca)) =
      mset (map jb_id cs)) \<and> fst ` set (ca_admitted ca) \<subseteq> set cs"
  using assms
proof (induction cs arbitrary: closed remaining d ca)
  case Nil
  then show ?case using disposes_none by auto
next
  case (Cons c cs)
  consider (large) len where "admit_chunks item_cap resolved cs closed remaining
      (move_to_dead [jb_id c] (too_large_error len item_cap) d) = (ca, remaining', d')"
    | (kept) closed0 remaining0 ca0 where "admit_chunks item_cap resolved cs closed0 remaining0 d = (ca0, remaining', d')"
      "(\<exists>l. ca = ca0\<lparr>ca_admitted := (c, l) # ca_admitted ca0\<rparr>) \<or> ca = ca0\<lparr>ca_deferred := jb_id c # ca_deferred ca0\<rparr> \<or>
       ca = ca0\<lparr>ca_mismatched := jb_id c # ca_mismatched ca0\<rparr> \<or> ca = ca0\<lparr>ca_obsolete := jb_id c # ca_obsolete ca0\<rparr>"
    using Cons(3) by (fastforce split: option.splits bool.splits if_splits prod.splits)
  then show ?case
  proof cases
    case large
    let ?d = "move_to_dead [jb_id c] (too_large_error len item_cap) d"
    obtain ids where "disposes ids ?d d'"
      "mset (ids @ ca_obsolete ca @ ca_deferred ca @ ca_mismatched ca @ map (jb_id \<circ> fst) (ca_admitted ca)) =
        mset (map jb_id cs)" and adm: "fst ` set (ca_admitted ca) \<subseteq> set cs"
      using Cons(1) [OF dead_op.dispose_inv [OF Cons(2)] large] by blast
    then have "disposes (jb_id c # ids) d d'"
      "mset ((jb_id c # ids) @ ca_obsolete ca @ ca_deferred ca @ ca_mismatched ca @ map (jb_id \<circ> fst) (ca_admitted ca)) =
        mset (map jb_id (c # cs))"
      using dead_then [OF Cons(2)] by auto
    then show ?thesis using adm by fastforce
  next
    case kept
    obtain ids where ids: "disposes ids d d'"
      "mset (ids @ ca_obsolete ca0 @ ca_deferred ca0 @ ca_mismatched ca0 @ map (jb_id \<circ> fst) (ca_admitted ca0)) =
        mset (map jb_id cs)" and adm: "fst ` set (ca_admitted ca0) \<subseteq> set cs"
      using Cons(1) [OF Cons(2) kept(1)] by blast
    have "mset (ids @ ca_obsolete ca @ ca_deferred ca @ ca_mismatched ca @ map (jb_id \<circ> fst) (ca_admitted ca)) =
        mset (map jb_id (c # cs))"
      using kept(2) ids(2) by auto
    moreover have "fst ` set (ca_admitted ca) \<subseteq> insert c (fst ` set (ca_admitted ca0))"
      using kept(2) by auto
    then have "fst ` set (ca_admitted ca) \<subseteq> set (c # cs)" using adm by auto
    ultimately show ?thesis using ids(1) by blast
  qed
qed

lemma take_chunks_splits:
  "take_chunks cs texts = (items, vanished) \<Longrightarrow>
   mset (vanished @ map it_job_id items) = mset (map (jb_id \<circ> fst) cs) \<and>
   (\<forall>it \<in> set items. \<exists>c \<in> fst ` set cs. it = mk_item c (it_text it))"
proof (induction cs texts arbitrary: items vanished rule: take_chunks.induct)
  case (2 c l cs texts)
  obtain items0 vanished0 where r: "take_chunks cs (texts(chunk_of c := None)) = (items0, vanished0)" by fastforce
  note ih = 2(1) [OF r]
  show ?case using 2(2) r ih by (cases "texts (chunk_of c)") auto
qed simp

lemma partition_mset: "mset (map f (filter P xs) @ map f (filter (\<lambda>x. \<not> P x) xs)) = mset (map f xs)"
  by (induction xs) auto

lemma splits_all:
  "queue_inv d \<Longrightarrow> disposes (map jb_id claims) d d' \<Longrightarrow> splits_claims claims [] d d'"
  by (auto simp: splits_claims_def)

lemma read_column_splits:
  assumes "queue_inv d" "read_column_items st now entry claims item_cap remaining d = (items, remaining', d')"
  shows "splits_claims claims items d d'"
proof -
  obtain deferred d1 where
    t: "take_sources item_cap claims (read_sources st entry (map jb_pk claims) item_cap remaining) remaining d =
        (items, deferred, remaining', d1)" and d': "d' = defer_jobs now deferred d1"
    using assms(2) by (auto simp: read_column_items_def split: prod.splits)
  obtain ids where ids: "disposes ids d d1" "mset (ids @ deferred @ map it_job_id items) = mset (map jb_id claims)"
    "\<forall>it \<in> set items. \<exists>c \<in> set claims. it = mk_item c (it_text it)"
    using take_sources_splits [OF assms(1) t] by blast
  have "disposes (ids @ deferred) d d'"
    unfolding d' using disposes_trans [OF ids(1) defer_op.dispose_contract [OF disposes_inv [OF ids(1)]]] .
  moreover have "mset ((ids @ deferred) @ map it_job_id items) = mset (map jb_id claims)" using ids(2) by simp
  ultimately show ?thesis using ids(3) unfolding splits_claims_def by blast
qed

lemma read_chunk_splits:
  assumes "queue_inv d" "read_chunk_items st now entry claims item_cap remaining d = (items, remaining', d')"
  shows "splits_claims claims items d d'"
proof -
  let ?chunked = "filter (\<lambda>c. jb_chunk c \<noteq> None) claims" and ?bad = "filter (\<lambda>c. jb_chunk c = None) claims"
  let ?d0 = "move_to_dead (map jb_id ?bad)
    ''malformed queue row: a chunked entry's embed jobs are chunk-keyed (direct queue insert?)'' d"
  let ?resolved = "map_of (rev (map (\<lambda>c. (chunk_of c, st_chunk_len st entry (chunk_of c) (jb_pk c))) ?chunked))"
  have inv0: "queue_inv ?d0" using dead_op.dispose_inv [OF assms(1)] .
  have s0: "disposes (map jb_id ?bad) d ?d0" using dead_op.dispose_contract [OF assms(1)] .
  have part: "mset (map jb_id ?bad) + mset (map jb_id ?chunked) = mset (map jb_id claims)"
    by (induction claims) auto
  show ?thesis
  proof (cases "?chunked = []")
    case True
    then have "items = []" "d' = ?d0" using assms(2) by (simp_all add: read_chunk_items_def Let_def)
    moreover have "?bad = claims" using True by (simp add: filter_empty_conv)
    ultimately show ?thesis using splits_all [OF assms(1)] s0 by simp
  next
    case False
    obtain ca remaining0 d1 where ad: "admit_chunks item_cap ?resolved ?chunked False remaining ?d0 = (ca, remaining0, d1)"
      by (rule prod_cases3)
    let ?d2 = "move_to_dead (ca_mismatched ca) ''chunk identity does not belong to the queued source key (malformed queue row)''
        (defer_jobs now (ca_deferred ca) (delete_jobs (ca_obsolete ca) d1))"
    obtain ids where ids: "disposes ids ?d0 d1"
      "mset (ids @ ca_obsolete ca @ ca_deferred ca @ ca_mismatched ca @ map (jb_id \<circ> fst) (ca_admitted ca)) =
        mset (map jb_id ?chunked)" and adm: "fst ` set (ca_admitted ca) \<subseteq> set ?chunked"
      using admit_chunks_splits [OF inv0 ad] by blast
    have inv1: "queue_inv d1" using disposes_inv [OF ids(1)] .
    have d2: "disposes (ca_obsolete ca @ ca_deferred ca @ ca_mismatched ca) d1 ?d2"
      using disposes_trans [OF delete_op.dispose_contract [OF inv1]
          disposes_trans [OF defer_op.dispose_contract [OF delete_op.dispose_inv [OF inv1]]
            dead_op.dispose_contract [OF defer_op.dispose_inv [OF delete_op.dispose_inv [OF inv1]]]]] .
    have "\<exists>vanished. disposes vanished ?d2 d' \<and> mset (vanished @ map it_job_id items) = mset (map (jb_id \<circ> fst) (ca_admitted ca)) \<and>
        (\<forall>it \<in> set items. \<exists>c \<in> fst ` set (ca_admitted ca). it = mk_item c (it_text it))"
    proof (cases "ca_admitted ca = []")
      case True
      then have "items = []" "d' = ?d2" using assms(2) False ad by (simp_all add: read_chunk_items_def Let_def)
      then show ?thesis using disposes_none [OF disposes_inv [OF d2]] True by auto
    next
      case adm: False
      obtain items0 vanished where t: "take_chunks (ca_admitted ca)
          (map_of (rev (List.map_filter (render_chunk st entry) (ca_admitted ca)))) = (items0, vanished)" by fastforce
      then have "items = items0" "d' = delete_jobs vanished ?d2"
        using assms(2) False ad adm by (simp_all add: read_chunk_items_def Let_def)
      then show ?thesis using take_chunks_splits [OF t] delete_op.dispose_contract [OF disposes_inv [OF d2]] by blast
    qed
    then obtain vanished where v: "disposes vanished ?d2 d'"
      "mset (vanished @ map it_job_id items) = mset (map (jb_id \<circ> fst) (ca_admitted ca))"
      "\<forall>it \<in> set items. \<exists>c \<in> fst ` set (ca_admitted ca). it = mk_item c (it_text it)" by blast
    let ?ids = "map jb_id ?bad @ ids @ (ca_obsolete ca @ ca_deferred ca @ ca_mismatched ca) @ vanished"
    have "disposes ?ids d d'"
      using disposes_trans [OF s0 disposes_trans [OF ids(1) disposes_trans [OF d2 v(1)]]] .
    moreover have "mset (?ids @ map it_job_id items) = mset (map jb_id claims)"
      using ids(2) v(2) unfolding part [symmetric] by (simp add: ac_simps)
    moreover have "\<forall>it \<in> set items. \<exists>c \<in> set claims. it = mk_item c (it_text it)"
      using v(3) adm by (metis filter_is_subset subsetD)
    ultimately show ?thesis unfolding splits_claims_def by blast
  qed
qed

lemma read_group_splits:
  assumes "queue_inv d" "read_group st now entry claims item_cap remaining d = (items, remaining', d')"
  shows "splits_claims claims items d d'"
proof -
  obtain good d1 where c:
    "(if is_composite_pk entry then (claims, d) else dead_letter_uncastable_keys st entry claims d) = (good, d1)"
    by fastforce
  have "\<exists>bad. disposes bad d d1 \<and> mset (bad @ map jb_id good) = mset (map jb_id claims) \<and> set good \<subseteq> set claims"
  proof (cases "d1 = d \<and> good = claims")
    case True
    then show ?thesis using disposes_none [OF assms(1)] by (intro exI [of _ "[]"]) auto
  next
    case False
    let ?invalid = "filter (\<lambda>pk. \<not> st_input_valid st pk (first_pk_type entry)) (map jb_pk claims)"
    let ?bad = "filter (\<lambda>c. jb_pk c \<in> set ?invalid) claims"
    have good: "good = filter (\<lambda>c. \<not> jb_pk c \<in> set ?invalid) claims"
      and "\<exists>err. d1 = move_to_dead (map jb_id ?bad) err d"
      using c False by (auto simp: dead_letter_uncastable_keys_def Let_def split: if_splits)
    then obtain err where d1: "d1 = move_to_dead (map jb_id ?bad) err d" by blast
    have "disposes (map jb_id ?bad) d d1" unfolding d1 by (rule dead_op.dispose_contract [OF assms(1)])
    moreover have "mset (map jb_id ?bad @ map jb_id good) = mset (map jb_id claims)"
      unfolding good by (rule partition_mset)
    moreover have "set good \<subseteq> set claims" unfolding good by (rule filter_is_subset)
    ultimately show ?thesis by blast
  qed
  then obtain bad where bad: "disposes bad d d1" "mset (bad @ map jb_id good) = mset (map jb_id claims)"
    "set good \<subseteq> set claims" by blast
  have inv1: "queue_inv d1" using disposes_inv [OF bad(1)] .
  have "splits_claims good items d1 d'"
  proof (cases "good = [] \<or> remaining \<le> 0")
    case True
    then have "items = []" "d' = d1 \<and> good = [] \<or> d' = defer_jobs now (map jb_id good) d1"
      using assms(2) c by (auto simp: read_group_def split: if_splits)
    moreover then have "disposes (map jb_id good) d1 d'"
      using disposes_none [OF inv1] defer_op.dispose_contract [OF inv1] by auto
    ultimately show ?thesis using splits_all [OF inv1] by simp
  next
    case False
    then show ?thesis
      using assms(2) c read_chunk_splits [OF inv1] read_column_splits [OF inv1]
      by (auto simp: read_group_def split: if_splits)
  qed
  then obtain ids where ids: "disposes ids d1 d'" "mset (ids @ map it_job_id items) = mset (map jb_id good)"
    "\<forall>it \<in> set items. \<exists>c \<in> set good. it = mk_item c (it_text it)" unfolding splits_claims_def by blast
  have "disposes (bad @ ids) d d'" "mset ((bad @ ids) @ map it_job_id items) = mset (map jb_id claims)"
    using disposes_trans [OF bad(1) ids(1)] bad(2) ids(2) by simp_all
  then show ?thesis using ids(3) bad(3) unfolding splits_claims_def by blast
qed

text \<open>The claims of the remaining groups are rows of the table, claimed, each under its own entry.\<close>

definition holds_claims :: "(int \<times> job list) list \<Rightarrow> db \<Rightarrow> bool" where
  "holds_claims groups d \<longleftrightarrow> queue_inv d \<and> distinct (map fst groups) \<and>
     (\<forall>(rid, claims) \<in> set groups. distinct (map jb_id claims) \<and>
        (\<forall>c \<in> set claims. c \<in> set (db_jobs d) \<and> \<not> is_pending c \<and> jb_registry c = rid))"

definition keeps_others :: "int list \<Rightarrow> db \<Rightarrow> db \<Rightarrow> bool" where
  "keeps_others rids d d' \<longleftrightarrow> (\<forall>j \<in> set (db_jobs d). jb_registry j \<notin> set rids \<longrightarrow> j \<in> set (db_jobs d'))"

lemma load_entry_id: "load_entry i d = Some e \<Longrightarrow> re_id e = i"
  by (auto simp: load_entry_def find_Some_iff)

lemma holds_claims_next:
  assumes "holds_claims ((rid, claims) # groups) d" "queue_inv d'" "keeps_others [rid] d d'"
  shows "holds_claims groups d'"
proof -
  have "distinct (map fst groups)" "rid \<notin> set (map fst groups)" using assms(1) by (auto simp: holds_claims_def)
  moreover have "distinct (map jb_id cs) \<and> (\<forall>c \<in> set cs. c \<in> set (db_jobs d') \<and> \<not> is_pending c \<and> jb_registry c = r)"
    if g: "(r, cs) \<in> set groups" for r cs
  proof -
    have "r \<noteq> rid" using calculation(2) g by force
    moreover have "distinct (map jb_id cs)" "\<forall>c \<in> set cs. c \<in> set (db_jobs d) \<and> \<not> is_pending c \<and> jb_registry c = r"
      using assms(1) g by (auto simp: holds_claims_def)
    ultimately show ?thesis using assms(3) by (simp add: keeps_others_def)
  qed
  ultimately show ?thesis using assms(2) by (auto simp: holds_claims_def)
qed

lemma disposes_keeps:
  assumes "holds_claims ((rid, claims) # groups) d" "disposes ids d d'" "set ids \<subseteq> jb_id ` set claims"
  shows "keeps_others [rid] d d'" "holds_claims groups d'"
proof -
  have inv: "queue_inv d" using assms(1) by (simp add: holds_claims_def)
  have rows: "c \<in> set (db_jobs d)" "jb_registry c = rid" if "c \<in> set claims" for c
    using assms(1) that by (auto simp: holds_claims_def)
  have keep: "j \<in> set (db_jobs d')" if j: "j \<in> set (db_jobs d)" "jb_registry j \<noteq> rid" for j
  proof (rule disposes_kept [OF assms(2) j(1)])
    show "\<not> has_id ids j"
    proof
      assume "has_id ids j"
      then obtain c where "c \<in> set claims" "jb_id c = jb_id j" using assms(3) by (auto simp: has_id_def)
      then show False using rows job_by_id [OF inv _ j(1)] j(2) by metis
    qed
  qed
  then show k: "keeps_others [rid] d d'" by (simp add: keeps_others_def)
  show "holds_claims groups d'" by (rule holds_claims_next [OF assms(1) disposes_inv [OF assms(2)] k])
qed

lemma quarantine_keeps:
  assumes "holds_claims ((rid, claims) # groups) d" "re_id entry = rid"
  shows "keeps_others [rid] d (quarantine_entry entry reason d)" "holds_claims groups (quarantine_entry entry reason d)"
proof -
  show k: "keeps_others [rid] d (quarantine_entry entry reason d)"
    using assms(2) by (simp add: keeps_others_def quarantine_entry_def)
  have "queue_inv d" using assms(1) by (simp add: holds_claims_def)
  then show "holds_claims groups (quarantine_entry entry reason d)"
    by (intro holds_claims_next [OF assms(1) _ k] quarantine_inv)
qed

text \<open>The items of a group are rows of the table, still claimed, with the row's key and attempts.\<close>

definition backed_by :: "db \<Rightarrow> group_work \<Rightarrow> bool" where
  "backed_by d g \<longleftrightarrow> distinct (map it_job_id (gw_items g)) \<and>
     (\<forall>it \<in> set (gw_items g). \<exists>j \<in> set (db_jobs d).
        it = mk_item j (it_text it) \<and> \<not> is_pending j \<and> jb_registry j = re_id (gw_entry g))"

lemma backed_by_keeps:
  "backed_by d g \<Longrightarrow> keeps_others rids d d' \<Longrightarrow> re_id (gw_entry g) \<notin> set rids \<Longrightarrow> backed_by d' g"
  unfolding backed_by_def keeps_others_def by metis

lemma keeps_others_trans: "keeps_others a d d' \<Longrightarrow> keeps_others b d' d'' \<Longrightarrow> keeps_others (a @ b) d d''"
  by (simp add: keeps_others_def)

lemma read_group_backed:
  assumes "holds_claims ((rid, claims) # groups) d" "splits_claims claims items d d'" "re_id entry = rid"
  shows "backed_by d' \<lparr>gw_entry = entry, gw_routing = rt, gw_items = items\<rparr>"
    and "keeps_others [rid] d d'" and "holds_claims groups d'"
proof -
  obtain ids where ids: "disposes ids d d'" "mset (ids @ map it_job_id items) = mset (map jb_id claims)"
    and its: "\<forall>it \<in> set items. \<exists>c \<in> set claims. it = mk_item c (it_text it)"
    using assms(2) unfolding splits_claims_def by blast
  have "set (ids @ map it_job_id items) = set (map jb_id claims)" using ids(2) by (metis set_mset_mset)
  then have sub: "set ids \<subseteq> jb_id ` set claims" by auto
  show "keeps_others [rid] d d'" "holds_claims groups d'" using disposes_keeps [OF assms(1) ids(1) sub] by blast+
  have "distinct (map jb_id claims)" using assms(1) by (simp add: holds_claims_def)
  then have dist: "distinct (ids @ map it_job_id items)" using ids(2) by (metis mset_eq_imp_distinct_iff)
  have "\<exists>j \<in> set (db_jobs d'). it = mk_item j (it_text it) \<and> \<not> is_pending j \<and> jb_registry j = rid"
    if it: "it \<in> set items" for it
  proof -
    obtain c where c: "c \<in> set claims" "it = mk_item c (it_text it)" using its it by blast
    have row: "c \<in> set (db_jobs d)" "\<not> is_pending c" "jb_registry c = rid"
      using assms(1) c(1) by (auto simp: holds_claims_def)
    have "jb_id c \<in> set (map it_job_id items)" using c(2) it by (metis image_eqI list.set_map mk_item_id)
    then have "\<not> has_id ids c" using dist by (auto simp: has_id_def)
    then show ?thesis using disposes_kept [OF ids(1) row(1)] row c(2) by blast
  qed
  then show "backed_by d' \<lparr>gw_entry = entry, gw_routing = rt, gw_items = items\<rparr>"
    using dist assms(3) by (simp add: backed_by_def)
qed

lemma read_groups_backed:
  assumes "holds_claims groups d" "read_groups st now item_cap groups remaining d = (work, d')"
  shows "queue_inv d' \<and> keeps_others (map fst groups) d d' \<and> list_all (backed_by d') work \<and>
    set (map (re_id \<circ> gw_entry) work) \<subseteq> set (map fst groups) \<and> distinct (map (re_id \<circ> gw_entry) work)"
  using assms
proof (induction groups arbitrary: remaining d work)
  case Nil
  then show ?case by (auto simp: holds_claims_def keeps_others_def)
next
  case (Cons group groups)
  obtain rid claims where group: "group = (rid, claims)" by (cases group)
  have inv: "queue_inv d" using Cons(2) by (simp add: holds_claims_def)
  have fresh: "rid \<notin> set (map fst groups)" using Cons(2) by (auto simp: holds_claims_def group)
  note holds = Cons(2) [unfolded group]
  have del: "keeps_others [rid] d (delete_jobs (map jb_id claims) d)" "holds_claims groups (delete_jobs (map jb_id claims) d)"
    using disposes_keeps [OF holds delete_op.dispose_contract [OF inv], of "map jb_id claims"] by auto
  consider (skip) d0 where "keeps_others [rid] d d0" "holds_claims groups d0"
      "read_groups st now item_cap groups remaining d0 = (work, d')"
    | (read) entry items remaining' d0 where "load_entry rid d = Some entry"
      "read_group st now entry claims item_cap remaining d = (items, remaining', d0)"
      "(items = [] \<and> read_groups st now item_cap groups remaining' d0 = (work, d')) \<or>
       (\<exists>work0. read_groups st now item_cap groups remaining' d0 = (work0, d') \<and>
          work = \<lparr>gw_entry = entry, gw_routing = embed_routing entry d0, gw_items = items\<rparr> # work0)"
  proof (cases "load_entry rid d")
    case None
    then show thesis using skip [OF del] Cons(3) by (simp add: group)
  next
    case (Some entry)
    note q = quarantine_keeps [OF holds load_entry_id [OF Some]]
    show thesis
      using Cons(3) Some skip [OF del] skip [OF q] read [OF Some]
      by (auto simp: group split: option.splits if_splits prod.splits)
  qed
  then show ?case
  proof cases
    case skip
    show ?thesis using Cons(1) [OF skip(2,3)] skip(1) fresh keeps_others_trans [OF skip(1)] by (auto simp: group)
  next
    case read
    note rg = read_group_backed [OF holds read_group_splits [OF inv read(2)] load_entry_id [OF read(1)]]
    show ?thesis
    proof (cases "\<exists>work0. read_groups st now item_cap groups remaining' d0 = (work0, d') \<and>
          work = \<lparr>gw_entry = entry, gw_routing = embed_routing entry d0, gw_items = items\<rparr> # work0")
      case False
      then have "read_groups st now item_cap groups remaining' d0 = (work, d')" using read(3) by blast
      from Cons(1) [OF rg(3) this] show ?thesis using keeps_others_trans [OF rg(2)] by (auto simp: group)
    next
      case True
      then obtain work0 where r: "read_groups st now item_cap groups remaining' d0 = (work0, d')"
        "work = \<lparr>gw_entry = entry, gw_routing = embed_routing entry d0, gw_items = items\<rparr> # work0" by blast
      have ih: "queue_inv d'" "keeps_others (map fst groups) d0 d'" "list_all (backed_by d') work0"
        "set (map (re_id \<circ> gw_entry) work0) \<subseteq> set (map fst groups)" "distinct (map (re_id \<circ> gw_entry) work0)"
        using Cons(1) [OF rg(3) r(1)] by blast+
      have "backed_by d' (hd work)"
        using backed_by_keeps [OF rg(1) ih(2)] fresh load_entry_id [OF read(1)] r(2) by simp
      then show ?thesis
        using ih fresh load_entry_id [OF read(1)] r(2) keeps_others_trans [OF rg(2) ih(2)]
        by (auto simp: group comp_def)
    qed
  qed
qed

lemma by_registry_holds:
  assumes "queue_inv d" "distinct (map jb_id claims)" "\<forall>c \<in> set claims. c \<in> set (db_jobs d) \<and> \<not> is_pending c"
  shows "holds_claims (by_registry claims) d"
  using assms by (auto simp: holds_claims_def by_registry_def comp_def distinct_map_filter_sub)

lemma claim_and_read_backed:
  assumes "queue_inv d" "claim_and_read_budgeted st now max_retries batch vis item_cap budget d = (work, d')"
  shows "queue_inv d' \<and> list_all (backed_by d') work \<and> distinct (map (re_id \<circ> gw_entry) work)"
proof -
  obtain claimed d1 where c: "claim_batch (st_missing st) now (st_locked st) vis max_retries batch d = (claimed, d1)"
    by fastforce
  have inv1: "queue_inv d1" using claim_batch_inv [OF assms(1), of "st_missing st" now "st_locked st" vis max_retries batch] c by simp
  show ?thesis
  proof (cases "claimed = []")
    case True
    then have "work = []" "d' = d1" using assms(2) c by (simp_all add: claim_and_read_budgeted_def Let_def)
    then show ?thesis using inv1 by simp
  next
    case False
    have "holds_claims (by_registry claimed) d1"
      using by_registry_holds [OF inv1] claim_batch_rows [OF assms(1) c] by blast
    from read_groups_backed [OF this] assms(2) c False show ?thesis
      by (simp add: claim_and_read_budgeted_def Let_def)
  qed
qed

lemma split_items_mset: "split_items its = (n, e) \<Longrightarrow> mset (group_ids n e) = mset (map it_job_id its)"
proof (induction its arbitrary: n e)
  case (Cons it its)
  obtain n0 e0 where s: "split_items its = (n0, e0)" by fastforce
  note ih = Cons(1) [OF s]
  show ?case using Cons(2) s ih by (cases "it_text it") (auto simp: group_ids_def)
qed (simp add: group_ids_def)

lemma split_items_ids:
  assumes "split_items its = (n, e)"
  shows "set (group_ids n e) = set (map it_job_id its)" "distinct (group_ids n e) = distinct (map it_job_id its)"
  using split_items_mset [OF assms] mset_eq_setD mset_eq_imp_distinct_iff by blast+

lemma backed_claimed:
  assumes "queue_inv d" "backed_by d g" "split_items (gw_items g) = (n, e)"
  shows "distinct (group_ids n e) \<and> claimed_ids (group_ids n e) d"
proof -
  have ids: "set (group_ids n e) = set (map it_job_id (gw_items g))" "distinct (group_ids n e)"
    using split_items_ids [OF assms(3)] assms(2) by (auto simp: backed_by_def)
  have row: "\<exists>j \<in> set (db_jobs d). jb_id j = i \<and> \<not> is_pending j" if "i \<in> set (group_ids n e)" for i
    using that assms(2) unfolding ids(1) backed_by_def by (metis (no_types, lifting) imageE list.set_map mk_item_id)
  have "i < db_next d" if "i \<in> set (group_ids n e)" for i using row [OF that] queue_invD(2) [OF assms(1)] by blast
  moreover have "\<not> is_pending j" if "j \<in> set (db_jobs d)" "has_id (group_ids n e) j" for j
    using row [of "jb_id j"] that job_by_id [OF assms(1)] by (metis has_id_def)
  ultimately show ?thesis using ids(2) by (auto simp: claimed_ids_def list_all_iff)
qed

text \<open>
  C18. The claim transaction hands over exactly claimed rows. Every item it returns is a row of the
  committed table, still claimed, under the item's id, key, chunk and attempts and of the group's
  entry; an entry has at most one group; and the split of a group's items satisfies the conditions
  under which the write-back accounts for every job (distinct ids, all of them claimed).
\<close>
theorem claim_and_read_hands_over:
  assumes "queue_inv d" and "claim_and_read_budgeted st now max_retries batch vis item_cap budget d = (work, d')"
  shows "queue_inv d' \<and> distinct (map (re_id \<circ> gw_entry) work) \<and>
    (\<forall>g \<in> set work. \<forall>it \<in> set (gw_items g). \<exists>j \<in> set (db_jobs d').
       jb_id j = it_job_id it \<and> jb_pk j = it_pk it \<and> jb_chunk j = it_chunk it \<and> jb_attempts j = it_attempts it \<and>
       jb_registry j = re_id (gw_entry g) \<and> \<not> is_pending j) \<and>
    (\<forall>g \<in> set work. distinct (group_ids (fst (split_items (gw_items g))) (snd (split_items (gw_items g)))) \<and>
       claimed_ids (group_ids (fst (split_items (gw_items g))) (snd (split_items (gw_items g)))) d')"
proof -
  have b: "queue_inv d'" "list_all (backed_by d') work" "distinct (map (re_id \<circ> gw_entry) work)"
    using claim_and_read_backed [OF assms] by blast+
  have "\<exists>j \<in> set (db_jobs d'). jb_id j = it_job_id it \<and> jb_pk j = it_pk it \<and> jb_chunk j = it_chunk it \<and>
      jb_attempts j = it_attempts it \<and> jb_registry j = re_id (gw_entry g) \<and> \<not> is_pending j"
    if git: "g \<in> set work" "it \<in> set (gw_items g)" for g it
  proof -
    have "backed_by d' g" using b(2) git(1) by (simp add: list_all_iff)
    then obtain j where j: "j \<in> set (db_jobs d')" "it = mk_item j (it_text it)" "\<not> is_pending j"
      "jb_registry j = re_id (gw_entry g)"
      using git(2) unfolding backed_by_def by blast
    have "it_job_id it = jb_id j" "it_pk it = jb_pk j" "it_chunk it = jb_chunk j" "it_attempts it = jb_attempts j"
      by (subst j(2), simp add: mk_item_def)+
    then show ?thesis using j(1,3,4) by (intro bexI [of _ j]) simp_all
  qed
  moreover have "distinct (group_ids (fst (split_items (gw_items g))) (snd (split_items (gw_items g)))) \<and>
      claimed_ids (group_ids (fst (split_items (gw_items g))) (snd (split_items (gw_items g)))) d'"
    if "g \<in> set work" for g
    using backed_claimed [OF b(1) _ prod.collapse [symmetric]] b(2) that by (simp add: list_all_iff)
  ultimately show ?thesis using b(1,3) by blast
qed

definition sample_tables :: source_tables where
  "sample_tables =
     \<lparr>st_missing = \<lambda>_ _. None, st_locked = \<lambda>_. False, st_input_valid = \<lambda>_ _. True,
      st_row_len = \<lambda>_ _. Some (Some 4), st_row_render = \<lambda>_ _. Some (Some (4, ''text'')),
      st_chunk_len = \<lambda>_ _ _. (False, False, None), st_chunk_render = \<lambda>_ _ _. None\<rparr>"

definition sample_read :: "group_work list \<times> db" where
  "sample_read = claim_and_read_budgeted sample_tables 9 3 5 100 50 100 sample_group_db"

lemma sample_read_items: "map gw_items (fst sample_read) = [[mk_item (claim_row 9 (sample_job 3 ''a'' None)) (Some ''text'')]]"
proof -
  have c: "claim_batch (\<lambda>_ _. None) 9 (\<lambda>_. False) 100 3 5 sample_group_db =
      ([claim_row 9 (sample_job 3 ''a'' None)],
       sample_group_db\<lparr>db_cursor := 7, db_jobs := [sample_job 1 ''a'' (Some 5), sample_job 2 ''b'' (Some 5),
          claim_row 9 (sample_job 3 ''a'' None)]\<rparr>)"
    by (simp add: claim_batch_def prepare_claim_entries_def claim_candidates_def next_claim_entry_def Let_def
        sample_group_db_def sample_db_def sample_job_def is_due_def is_pending_def min_registry_def is_stale_def
        load_entry_def sample_docs_def reclaim_stale_def stale_ids_def claim_due_def due_order_def claim_row_def has_id_def)
  have e: "re_id sample_docs = 7" "re_state sample_docs \<noteq> ''disabled''" "\<not> is_composite_pk sample_docs"
    "\<not> is_recursive sample_docs" "load_entry 7 (sample_group_db\<lparr>db_cursor := x, db_jobs := y\<rparr>) = Some sample_docs" for x y
    by (simp_all add: sample_docs_def is_composite_pk_def is_recursive_def load_entry_def sample_group_db_def)
  show ?thesis
    by (simp add: sample_read_def claim_and_read_budgeted_def Let_def c e sample_tables_def by_registry_def
        claim_row_def sample_job_def read_group_def dead_letter_uncastable_keys_def read_column_items_def
        read_sources_def List.map_filter_def render_admitted_def mk_item_def)
qed

theorem claim_and_read_within_budget_witness:
  "work_bytes (fst sample_read) \<le> 100 \<and> map (map it_text \<circ> gw_items) (fst sample_read) = [[Some ''text'']]"
proof -
  have "measured sample_tables" by (simp add: measured_def sample_tables_def)
  from claim_and_read_within_budget [OF this, where now = 9 and max_retries = 3 and batch = 5 and vis = 100 and item_cap = 50 and
      budget = 100 and d = sample_group_db and work = "fst sample_read" and d' = "snd sample_read"]
  have "work_bytes (fst sample_read) \<le> 100" by (simp add: sample_read_def)
  moreover have "map (map it_text) (map gw_items (fst sample_read)) = [[Some ''text'']]"
    unfolding sample_read_items by simp
  ultimately show ?thesis by (simp add: comp_def)
qed

theorem claim_and_read_hands_over_witness:
  "queue_inv (snd sample_read) \<and> map (map it_job_id \<circ> gw_items) (fst sample_read) = [[3]]"
proof -
  have inv: "queue_inv sample_group_db" using sample_db_inv by (simp add: sample_group_db_def)
  have "queue_inv (snd sample_read)"
    using claim_and_read_hands_over [OF inv, where st = sample_tables and now = 9 and max_retries = 3 and batch = 5 and
        vis = 100 and item_cap = 50 and budget = 100 and work = "fst sample_read" and d' = "snd sample_read"]
    by (simp add: sample_read_def)
  moreover have "map (map it_job_id) (map gw_items (fst sample_read)) = [[3]]"
    unfolding sample_read_items by (simp add: claim_row_def sample_job_def)
  ultimately show ?thesis by (simp add: comp_def)
qed

end
