(* ===== verification/Worker.thy ===== *)
theory Worker
  imports ClaimRead "HOL-Library.Word"
begin

text \<open>
  \<open>postvec/src/worker/mod.rs\<close>: one claim, embed and write-back pass over a batch, composed from the
  theories \<open>ClaimRead\<close>, \<open>Embed\<close> and \<open>WriteBack\<close>; the launcher's slots with their respawn ladder;
  and the small caches and gates around them.

  Transactions that Postgres may abort are parameters: an abort leaves the state as it was and
  yields an error text.
\<close>

section \<open>One pass\<close>

record counters =
  ct_embedded :: int
  ct_nulled :: int
  ct_retried :: int
  ct_dead :: int
  ct_converted :: int
  ct_skipped :: int
  ct_refreshes :: int
  ct_errors :: int
  ct_last_error :: "string option"
  ct_documents_chunked :: int
  ct_chunks_created :: int

definition count_error :: "string \<Rightarrow> counters \<Rightarrow> counters" where
  "count_error msg ct = ct\<lparr>ct_errors := ct_errors ct + 1, ct_last_error := Some msg\<rparr>"

definition count_applied :: "applied \<Rightarrow> counters \<Rightarrow> counters" where
  "count_applied ap ct =
     ct\<lparr>ct_embedded := ct_embedded ct + ap_done ap, ct_nulled := ct_nulled ct + ap_nulled ap,
        ct_retried := ct_retried ct + ap_retried ap, ct_dead := ct_dead ct + ap_dead ap,
        ct_errors := ct_errors ct + ap_dead ap\<rparr>"

text \<open>
  Settings and surroundings of a pass. \<open>ce_resolve\<close> is the model resolution transaction for a model
  and a space; its \<open>Ok\<close> value is the client to call. \<open>ce_apply_abort\<close> says whether the write-back
  transaction of the given jobs is aborted (a raising trigger, a CHECK constraint, a lock timeout),
  \<open>ce_release_abort\<close> the same for the release of one job, \<open>ce_claim_abort\<close> for the claim.
\<close>

record ('f, 'c) cycle_env =
  ce_tables :: source_tables
  ce_chunk_exists :: "registry_entry \<Rightarrow> int \<Rightarrow> string \<Rightarrow> bool"
  ce_show :: "'f \<Rightarrow> string"
  ce_is_finite :: "'f \<Rightarrow> bool"
  ce_display :: "pv_error \<Rightarrow> string"
  ce_resolve :: "string \<Rightarrow> string option \<Rightarrow> string + ('c \<Rightarrow> string list \<Rightarrow> (pv_error + 'f list list) \<times> 'c)"
  ce_claim_abort :: "string option"
  ce_apply_abort :: "null_job list \<Rightarrow> embed_job list \<Rightarrow> db \<Rightarrow> string option"
  ce_release_abort :: "int \<Rightarrow> db \<Rightarrow> string option"
  ce_shutdown :: "nat \<Rightarrow> bool"
  ce_claim_now :: int
  ce_write_now :: int
  ce_notify :: bool
  ce_max_document :: int
  ce_max_batch :: int
  ce_batch :: int
  ce_visibility_ms :: int
  ce_max_retries :: int
  ce_backoff_ms :: int

definition group_outcomes :: "('f, 'c) cycle_env \<Rightarrow> routing \<Rightarrow> embed_job list \<Rightarrow> 'c \<Rightarrow> 'f item_outcome list \<times> 'c" where
  "group_outcomes env rt embed_jobs c =
     (case ce_resolve env (rt_model rt) (rt_space rt) of
        Inr emb \<Rightarrow>
          embed_with_bisection_bounded (ce_is_finite env) emb (ce_display env) c
            (map (\<lambda>(_, _, _, _, t). t) embed_jobs) (rt_dim rt)
      | Inl e \<Rightarrow> (all_retry (length embed_jobs) (''model resolve: '' @ e), c))"

definition try_apply_group ::
  "('f, 'c) cycle_env \<Rightarrow> int \<Rightarrow> routing \<Rightarrow> null_job list \<Rightarrow> embed_job list \<Rightarrow> 'f item_outcome list \<Rightarrow> db
   \<Rightarrow> string + applied \<times> db" where
  "try_apply_group env rid rt n e out d =
     (case ce_apply_abort env n e d of
        Some err \<Rightarrow> Inl err
      | None \<Rightarrow> Inr (apply_group (ce_show env) (st_missing (ce_tables env)) (ce_chunk_exists env) (ce_notify env)
                       (ce_write_now env) rid rt n e out (ce_max_retries env) (max (ce_backoff_ms env) 0) d))"

definition try_release :: "('f, 'c) cycle_env \<Rightarrow> int \<Rightarrow> string \<Rightarrow> db \<Rightarrow> applied \<times> db" where
  "try_release env i err d =
     (case ce_release_abort env i d of
        Some _ \<Rightarrow> (no_applied, d)
      | None \<Rightarrow> release_failed_group (ce_write_now env) [i] (ce_max_retries env) (max (ce_backoff_ms env) 0) err d)"

definition write_back ::
  "('f, 'c) cycle_env \<Rightarrow> int \<Rightarrow> routing \<Rightarrow> null_job list \<Rightarrow> embed_job list \<Rightarrow> 'f item_outcome list
   \<Rightarrow> counters \<Rightarrow> db \<Rightarrow> counters \<times> db" where
  "write_back env rid rt n e out ct d =
     (case try_apply_group env rid rt n e out d of
        Inr (ap, d) \<Rightarrow> (count_applied ap ct, d)
      | Inl err \<Rightarrow>
          (case apply_rows n e out (try_apply_group env rid rt) (try_release env) d of
             (ap, d) \<Rightarrow> (count_applied ap (count_error (''write-back: '' @ err) ct), d)))"

fun process_groups ::
  "('f, 'c) cycle_env \<Rightarrow> nat \<Rightarrow> group_work list \<Rightarrow> 'c \<Rightarrow> counters \<Rightarrow> db \<Rightarrow> 'c \<times> counters \<times> db" where
  "process_groups env k [] c ct d = (c, ct, d)"
| "process_groups env k (g # gs) c ct d =
     (if ce_shutdown env k then (c, ct, d)
      else
        case split_items (gw_items g) of
          (n, e) \<Rightarrow>
            (case group_outcomes env (gw_routing g) e c of
               (out, c) \<Rightarrow>
                 (case write_back env (re_id (gw_entry g)) (gw_routing g) n e out ct d of
                    (ct, d) \<Rightarrow> process_groups env (Suc k) gs c ct d)))"

definition run_one_cycle :: "('f, 'c) cycle_env \<Rightarrow> 'c \<Rightarrow> counters \<Rightarrow> db \<Rightarrow> bool \<times> 'c \<times> counters \<times> db" where
  "run_one_cycle env c ct d =
     (case ce_claim_abort env of
        Some e \<Rightarrow> (False, c, count_error (''claim/read: '' @ e) ct, d)
      | None \<Rightarrow>
          (case claim_and_read (ce_tables env) (ce_max_document env) (ce_max_batch env) (ce_claim_now env)
                  (ce_max_retries env) (nat (max (ce_batch env) 1)) (max (ce_visibility_ms env) 1000 * 1000) d of
             (groups, d) \<Rightarrow>
               if groups = [] then (False, c, ct, d)
               else (case process_groups env 0 groups c ct d of (c, ct, d) \<Rightarrow> (True, c, ct, d))))"

section \<open>The launcher\<close>

text \<open>Durations in milliseconds.\<close>

definition LADDER_BASE :: nat where "LADDER_BASE = 15000"
definition LADDER_MAX :: nat where "LADDER_MAX = 300000"
definition HEALTHY_LIFETIME :: nat where "HEALTHY_LIFETIME = 30000"

definition on_exit :: "nat \<Rightarrow> nat \<Rightarrow> nat \<times> nat" where
  "on_exit lifetime backoff =
     (if lifetime < HEALTHY_LIFETIME then (backoff, min (backoff * 2) LADDER_MAX)
      else (LADDER_BASE, LADDER_BASE))"

datatype handle_status = NotYetStarted | Started | Stopped | PostmasterDied

record slot =
  sl_handle :: bool
  sl_next_spawn :: nat
  sl_ladder :: nat
  sl_spawned_at :: "nat option"

text \<open>
  One tick of one slot at time \<open>now\<close>: \<open>status\<close> is what the handle reports, \<open>spawn_ok\<close> whether a
  worker could be registered. The second component says whether a worker was spawned.
\<close>

definition observe_exit :: "nat \<Rightarrow> handle_status \<Rightarrow> slot \<Rightarrow> slot" where
  "observe_exit now status s =
     (if sl_handle s \<and> (status = Stopped \<or> status = PostmasterDied) then
        (let lifetime = (case sl_spawned_at s of None \<Rightarrow> 0 | Some at \<Rightarrow> now - at);
             (delay, ladder) = on_exit lifetime (sl_ladder s)
         in s\<lparr>sl_handle := False, sl_ladder := ladder, sl_next_spawn := now + delay\<rparr>)
      else s)"

definition slot_tick :: "nat \<Rightarrow> handle_status \<Rightarrow> bool \<Rightarrow> slot \<Rightarrow> slot \<times> bool" where
  "slot_tick now status spawn_ok s =
     (let s = observe_exit now status s in
      if sl_handle s \<or> now < sl_next_spawn s then (s, False)
      else if spawn_ok then (s\<lparr>sl_handle := True, sl_spawned_at := Some now\<rparr>, True)
      else (s\<lparr>sl_next_spawn := now + LADDER_BASE\<rparr>, False))"

section \<open>Gates, caches and schedules\<close>

definition GATE_TTL :: nat where "GATE_TTL = 1000"

definition gate_check :: "nat \<Rightarrow> bool \<Rightarrow> (nat \<times> bool) option \<Rightarrow> bool \<times> (nat \<times> bool) option" where
  "gate_check now probe cached =
     (case cached of
        Some (at, v) \<Rightarrow> if now - at < GATE_TTL then (v, cached) else (probe, Some (now, probe))
      | None \<Rightarrow> (probe, Some (now, probe)))"

datatype catalog_version = Absent | Matched | Mismatched string | Unreadable string

definition classify_catalog_version :: "string \<Rightarrow> string + string option \<Rightarrow> catalog_version" where
  "classify_catalog_version pkg_version read =
     (case read of
        Inr (Some found) \<Rightarrow> if found = pkg_version then Matched else Mismatched found
      | Inr None \<Rightarrow> Absent
      | Inl e \<Rightarrow> Unreadable e)"

definition REPORT_REPEAT :: nat where "REPORT_REPEAT = 300000"

definition should_report :: "nat \<Rightarrow> string \<Rightarrow> (string \<times> nat) option \<Rightarrow> bool \<times> (string \<times> nat) option" where
  "should_report now state seen =
     (let due = (case seen of Some (s, at) \<Rightarrow> s \<noteq> state \<or> now - at \<ge> REPORT_REPEAT | None \<Rightarrow> True)
      in (due, if due then Some (state, now) else seen))"

unbundle bit_operations_syntax

definition jitter_hash :: "string \<Rightarrow> 64 word" where
  "jitter_hash db = fold (\<lambda>b h. (h XOR word_of_nat (byte b)) * 0x1000001b3) db 0xcbf29ce484222325"

definition refresh_jitter :: "string \<Rightarrow> nat \<Rightarrow> nat" where
  "refresh_jitter db interval_ms = unat (jitter_hash db) mod max (interval_ms div 4) 1"

definition startup_refresh_delay :: "string \<Rightarrow> nat" where
  "startup_refresh_delay db = refresh_jitter db 60000"

record heartbeat =
  hb_last_write :: "nat option"
  hb_last_written :: "counters option"
  hb_stamp_refresh :: bool

text \<open>\<open>written\<close> is whether the upsert transaction went through. The first component says whether a
  write was attempted.\<close>

definition write_heartbeat :: "nat \<Rightarrow> int \<Rightarrow> bool \<Rightarrow> counters \<Rightarrow> heartbeat \<Rightarrow> bool \<times> heartbeat" where
  "write_heartbeat now interval_ms written ct hb =
     (let interval = nat (max interval_ms 1000);
          changed = hb_last_written hb \<noteq> Some ct;
          due = (case hb_last_write hb of None \<Rightarrow> True | Some at \<Rightarrow> now - at \<ge> interval)
      in if \<not> changed \<and> \<not> due \<and> \<not> hb_stamp_refresh hb then (False, hb)
         else if written
         then (True, hb\<lparr>hb_last_write := Some now, hb_last_written := Some ct, hb_stamp_refresh := False\<rparr>)
         else (True, hb))"

section \<open>The queue over the life of the worker\<close>

lemma try_apply_group_inv:
  "queue_inv d \<Longrightarrow> try_apply_group env rid rt n e out d = Inr (ap, d') \<Longrightarrow> queue_inv d'"
  using apply_group_inv [of d "ce_show env" "st_missing (ce_tables env)" "ce_chunk_exists env" "ce_notify env"
      "ce_write_now env" rid rt n e out "ce_max_retries env" "max (ce_backoff_ms env) 0"]
  by (auto simp: try_apply_group_def split: option.splits)

lemma try_release_inv: "queue_inv d \<Longrightarrow> queue_inv (snd (try_release env i err d))"
  by (simp add: try_release_def release_failed_group_inv split: option.splits)

lemma write_back_inv: "queue_inv d \<Longrightarrow> queue_inv (snd (write_back env rid rt n e out ct d))"
proof -
  assume inv: "queue_inv d"
  have rows: "queue_inv (snd (apply_rows n e out (try_apply_group env rid rt) (try_release env) d))"
    by (rule apply_rows_inv [OF inv try_apply_group_inv try_release_inv])
  show ?thesis
  proof (cases "try_apply_group env rid rt n e out d")
    case (Inl err)
    then show ?thesis using rows by (simp add: write_back_def case_prod_beta)
  next
    case (Inr r)
    then show ?thesis using try_apply_group_inv [OF inv] by (cases r) (auto simp: write_back_def)
  qed
qed

lemma process_groups_inv: "queue_inv d \<Longrightarrow> queue_inv (snd (snd (process_groups env k gs c ct d)))"
proof (induction gs arbitrary: k c ct d)
  case (Cons g gs)
  obtain n e where s: "split_items (gw_items g) = (n, e)" by fastforce
  obtain out c1 where o: "group_outcomes env (gw_routing g) e c = (out, c1)" by fastforce
  obtain ct1 d1 where w: "write_back env (re_id (gw_entry g)) (gw_routing g) n e out ct d = (ct1, d1)" by fastforce
  have "queue_inv d1" using write_back_inv [OF Cons(2), of env "re_id (gw_entry g)" "gw_routing g" n e out ct] w by simp
  from Cons(1) [OF this] Cons(2) show ?case by (simp add: s o w)
qed simp

lemma claim_and_read_inv: "queue_inv d \<Longrightarrow> queue_inv (snd (claim_and_read st max_document max_batch now max_retries batch vis d))"
  unfolding claim_and_read_def using claim_and_read_backed by (metis prod.collapse)

lemma run_one_cycle_inv:
  assumes "queue_inv d" "run_one_cycle env c ct d = (busy, c', ct', d')"
  shows "queue_inv d'"
proof (cases "ce_claim_abort env")
  case (Some e)
  then show ?thesis using assms by (simp add: run_one_cycle_def)
next
  case None
  let ?cr = "claim_and_read (ce_tables env) (ce_max_document env) (ce_max_batch env) (ce_claim_now env)
      (ce_max_retries env) (nat (max (ce_batch env) 1)) (max (ce_visibility_ms env) 1000 * 1000) d"
  obtain groups d1 where cr: "?cr = (groups, d1)" by fastforce
  then have inv1: "queue_inv d1" using claim_and_read_inv [OF assms(1)] by (metis snd_conv)
  obtain c2 ct2 d2 where pg: "process_groups env 0 groups c ct d1 = (c2, ct2, d2)" by (rule prod_cases3)
  then have "queue_inv d2" using process_groups_inv [OF inv1, of env 0 groups c ct] by simp
  moreover have "d' = d1 \<or> d' = d2"
    using assms(2) cr pg by (simp add: run_one_cycle_def None split: if_splits)
  ultimately show ?thesis using inv1 by blast
qed

text \<open>
  The transactions that touch the queue over time: a trigger enqueues a row, the worker runs a pass,
  it crashes between the claim and the write-back, a lifecycle verb purges jobs, or an entry is
  quarantined. \<open>E\<close> are the settings and surroundings a pass may meet.
\<close>

inductive worker_step :: "('f, 'c) cycle_env set \<Rightarrow> db \<Rightarrow> db \<Rightarrow> bool" for E where
  enqueue: "is_pending row \<Longrightarrow> worker_step E d (insert_pending row d)"
| pass: "env \<in> E \<Longrightarrow> run_one_cycle env c ct d = (busy, c', ct', d') \<Longrightarrow> worker_step E d d'"
| crash: "env \<in> E \<Longrightarrow>
    claim_and_read (ce_tables env) max_document max_batch now max_retries batch vis d = (groups, d') \<Longrightarrow> worker_step E d d'"
| purge: "worker_step E d (delete_jobs ids d)"
| quarantine: "worker_step E d (quarantine_entry entry reason d)"

lemma worker_step_inv: "worker_step E d d' \<Longrightarrow> queue_inv d \<Longrightarrow> queue_inv d'"
proof (induction rule: worker_step.induct)
  case (crash env max_document max_batch now max_retries batch vis d groups d')
  then show ?case using claim_and_read_inv by (metis snd_conv)
qed (auto intro: insert_pending_inv run_one_cycle_inv delete_op.dispose_inv quarantine_inv)

text \<open>
  C5. The queue never holds two pending jobs for the same entry, operation, row and chunk, and
  never reuses an id. This holds after any sequence of enqueues, worker passes (with any service
  answers, aborted transactions, shutdowns and concurrent changes of user tables), crashes between
  claim and write-back, purges and quarantines, starting from an empty queue.
\<close>
theorem queue_stays_deduplicated:
  assumes "(worker_step E)\<^sup>*\<^sup>* d0 d" "db_jobs d0 = []"
  shows "distinct (pending_keys (db_jobs d)) \<and> distinct (map jb_id (db_jobs d)) \<and>
    (\<forall>j \<in> set (db_jobs d). jb_id j < db_next d)"
proof -
  have "queue_inv d0" using assms(2) by (simp add: queue_inv_def pending_keys_def)
  with assms(1) have "queue_inv d" by (induction rule: rtranclp_induct) (auto intro: worker_step_inv)
  then show ?thesis using queue_invD by blast
qed

theorem queue_stays_deduplicated_witness:
  "distinct (pending_keys (db_jobs (insert_pending (sample_job 0 ''a'' None)
     (insert_pending (sample_job 0 ''a'' None) (sample_db\<lparr>db_jobs := []\<rparr>)))))"
proof -
  let ?d0 = "sample_db\<lparr>db_jobs := []\<rparr>" and ?row = "sample_job 0 ''a'' None"
  let ?E = "{} :: (int, unit) cycle_env set"
  have "is_pending ?row" by (simp add: is_pending_def sample_job_def)
  then have "worker_step ?E ?d0 (insert_pending ?row ?d0)"
    "worker_step ?E (insert_pending ?row ?d0) (insert_pending ?row (insert_pending ?row ?d0))"
    by (auto intro: worker_step.enqueue)
  then have "(worker_step ?E)\<^sup>*\<^sup>* ?d0 (insert_pending ?row (insert_pending ?row ?d0))"
    by (meson rtranclp.rtrancl_into_rtrancl rtranclp.rtrancl_refl)
  from queue_stays_deduplicated [OF this] show ?thesis by simp
qed

section \<open>A row the database refuses\<close>

text \<open>
  When the transaction of a group is aborted, the write-back goes through the rows one by one.
  \<open>row_fate\<close> is what becomes of the job of one row: a row whose own transaction aborts too is
  dead-lettered when its attempts are used up and pending again otherwise; any other row gets the
  fate of its outcome. \<open>row_statements\<close> are the statements a row causes on the user's table.
\<close>

type_synonym 'f row_work = "int \<times> null_job list \<times> embed_job list \<times> 'f item_outcome list"

definition row_fate :: "('f, 'c) cycle_env \<Rightarrow> routing \<Rightarrow> int set \<Rightarrow> 'f row_work \<Rightarrow> job \<Rightarrow> db \<Rightarrow> bool" where
  "row_fate env rt refused row j d =
     (case row of (i, n, e, out) \<Rightarrow>
        if i \<in> refused
        then (if jb_attempts j > ce_max_retries env then \<exists>err. j\<lparr>jb_error := err\<rparr> \<in> set (db_dead d)
              else job_key j \<in> set (pending_keys (db_jobs d)))
        else \<forall>p \<in> set (zip e out). settled (pair_verdict (rt_dim rt) (ce_max_retries env) p) j d)"

definition row_statements ::
  "('f, 'c) cycle_env \<Rightarrow> registry_entry \<Rightarrow> routing \<Rightarrow> int set \<Rightarrow> 'f row_work \<Rightarrow> table_write list" where
  "row_statements env entry rt refused row =
     (case row of (i, n, e, out) \<Rightarrow>
        if i \<in> refused then []
        else null_statement entry rt n @
          vector_statement (ce_show env) entry rt (filter (is_written (rt_dim rt) (ce_max_retries env)) (zip e out)))"

definition rows_of :: "null_job list \<Rightarrow> embed_job list \<Rightarrow> 'f item_outcome list \<Rightarrow> 'f row_work list" where
  "rows_of n e out =
     map (\<lambda>j. (fst j, [j], [], [])) n @ map (\<lambda>(j, out). (fst j, [], [j], [out])) (zip e out)"

definition not_notify :: "registry_entry \<Rightarrow> table_write \<Rightarrow> bool" where
  "not_notify entry w \<longleftrightarrow> w \<noteq> Notify (re_id entry)"

lemma row_statements_not_notify: "filter (not_notify entry) (row_statements env entry rt refused row) = row_statements env entry rt refused row"
  by (auto simp: row_statements_def not_notify_def null_statement_def vector_statement_def split: prod.splits)

lemma row_fate_later:
  assumes "row_fate env rt refused row j d" "disposes_w a d d'" "claimed_ids a d"
  shows "row_fate env rt refused row j d'"
proof -
  have dead: "x \<in> set (db_dead d')" if "x \<in> set (db_dead d)" for x
    using disposes_dead [OF assms(2) [unfolded disposes_w_def] that] by simp
  have "settled v j d'" if "settled v j d" for v :: "'a verdict"
    using disposes_wD(4) [OF assms(2,3) that] .
  moreover from this [of Released] have "job_key j \<in> set (pending_keys (db_jobs d'))" if "job_key j \<in> set (pending_keys (db_jobs d))"
    using that by (simp add: settled_def)
  ultimately show ?thesis using assms(1) dead unfolding row_fate_def by (auto split: if_splits prod.splits)
qed

text \<open>What every row meets: its entry is enabled, its columns are there and the routing is the expected one.\<close>

definition ready :: "('f, 'c) cycle_env \<Rightarrow> int \<Rightarrow> registry_entry \<Rightarrow> routing \<Rightarrow> db \<Rightarrow> bool" where
  "ready env rid entry rt d \<longleftrightarrow> queue_inv d \<and> load_entry rid d = Some entry \<and> re_state entry \<noteq> ''disabled'' \<and>
     st_missing (ce_tables env) entry [] = None \<and>
     (rt_vector_column rt = re_vector_column entry \<or> st_missing (ce_tables env) entry [rt_vector_column rt] = None) \<and>
     embed_routing entry d = rt"

lemma ready_later: "ready env rid entry rt d \<Longrightarrow> disposes_w a d d' \<Longrightarrow> ready env rid entry rt d'"
proof -
  assume a: "ready env rid entry rt d" "disposes_w a d d'"
  have ctx: "db_registry d' = db_registry d" "db_migrations d' = db_migrations d" using disposals_exact [OF a(2)] by simp_all
  then have "embed_routing entry d' = embed_routing entry d"
    unfolding embed_routing_def live_migration_def Let_def by simp
  then show "ready env rid entry rt d'"
    using a(1) ctx disposes_wD(1) [OF a(2)] by (simp add: ready_def load_entry_def)
qed

lemma row_step:
  fixes row :: "'f row_work"
  assumes "ready env rid entry rt d" "row = (i, n, e, out)" "length out = length e" "group_ids n e = [i]" "claimed_ids [i] d"
    and "if i \<in> refused then ce_apply_abort env n e d \<noteq> None \<and> ce_release_abort env i d = None else ce_apply_abort env n e d = None"
    and "(case try_apply_group env rid rt n e out d of Inr r \<Rightarrow> r | Inl err \<Rightarrow> try_release env i err d) = (ap, d')"
  shows "disposes_w [i] d d' \<and> (\<forall>j \<in> set (db_jobs d). jb_id j = i \<longrightarrow> row_fate env rt refused row j d') \<and>
    (\<exists>ws. db_writes d' = db_writes d @ ws \<and> filter (not_notify entry) ws = row_statements env entry rt refused row)"
proof (cases "i \<in> refused")
  case True
  then obtain err where run: "d' = snd (release_failed_group (ce_write_now env) [i] (ce_max_retries env) (max (ce_backoff_ms env) 0) err d)"
    using assms(6,7) by (auto simp: try_apply_group_def try_release_def) (metis snd_conv)
  have "dead_or_release (ce_write_now env) (ce_max_retries env) [i] d d'"
    unfolding run by (rule release_failed_group_cases) (use assms(1) in \<open>simp add: ready_def\<close>)
  then show ?thesis using True assms(2)
    by (auto simp: dead_or_release_def disposes_w_of row_fate_def row_statements_def has_id_def disposes_def same_context_def)
next
  case False
  then have run: "apply_group (ce_show env) (st_missing (ce_tables env)) (ce_chunk_exists env) (ce_notify env)
      (ce_write_now env) rid rt n e out (ce_max_retries env) (max (ce_backoff_ms env) 0) d = (ap, d')"
    using assms(6,7) by (simp add: try_apply_group_def)
  note rdy = assms(1) [unfolded ready_def]
  note ag = apply_group_disposes [OF rdy [THEN conjunct1] _ _ _ _ _ assms(3) _ _ run, unfolded assms(4), of entry]
  have disp: "disposes_w [i] d d'" using ag(1) rdy assms(5) by simp
  have "fst (fst p) = i" if "p \<in> set (zip e out)" for p
  proof -
    have "fst p \<in> set e" using that by (metis prod.collapse set_zip_leftD)
    then have "fst (fst p) \<in> set (group_ids n e)" by (simp add: group_ids_def)
    then show ?thesis using assms(4) by simp
  qed
  then have fate: "\<forall>j \<in> set (db_jobs d). jb_id j = i \<longrightarrow> row_fate env rt refused row j d'"
    using ag(2) rdy assms(5) False by (simp add: row_fate_def assms(2))
  obtain tail where tail: "set tail \<subseteq> {Notify (re_id entry)}"
    "db_writes d' = db_writes d @ row_statements env entry rt refused row @ tail"
    using ag(3) rdy assms(5) False by (auto simp: row_statements_def assms(2))
  then have "filter (not_notify entry) tail = []" by (auto simp: not_notify_def filter_empty_conv)
  then have "filter (not_notify entry) (row_statements env entry rt refused row @ tail) = row_statements env entry rt refused row"
    by (simp add: row_statements_not_notify)
  with disp fate tail(2) show ?thesis by blast
qed

text \<open>Whether the row's own transaction aborts, in whatever state it runs, is fixed by \<open>refused\<close>.\<close>

definition aborts_exactly :: "('f, 'c) cycle_env \<Rightarrow> int set \<Rightarrow> 'f row_work \<Rightarrow> bool" where
  "aborts_exactly env refused row \<longleftrightarrow> (case row of (i, n, e, out) \<Rightarrow>
     \<forall>d. if i \<in> refused then ce_apply_abort env n e d \<noteq> None \<and> ce_release_abort env i d = None
         else ce_apply_abort env n e d = None)"

definition row_shape :: "'f row_work \<Rightarrow> bool" where
  "row_shape row = (case row of (i, n, e, out) \<Rightarrow> length out = length e \<and> group_ids n e = [i])"

lemma apply_rows_loop_spec:
  fixes rows :: "'f row_work list"
  assumes "ready env rid entry rt d" "list_all row_shape rows" "list_all (aborts_exactly env refused) rows"
    and "distinct (map fst rows)" "claimed_ids (map fst rows) d"
    and "apply_rows_loop (try_apply_group env rid rt) (try_release env) rows tot d = (tot', d')"
  shows "disposes_w (map fst rows) d d' \<and>
    (\<forall>row \<in> set rows. \<forall>j \<in> set (db_jobs d). jb_id j = fst row \<longrightarrow> row_fate env rt refused row j d') \<and>
    (\<exists>ws. db_writes d' = db_writes d @ ws \<and>
       filter (not_notify entry) ws = concat (map (row_statements env entry rt refused) rows))"
  using assms
proof (induction rows arbitrary: tot d)
  case Nil
  then show ?case using disposes_none by (auto simp: ready_def disposes_w_of)
next
  case (Cons row rows)
  obtain i n e out where row: "row = (i, n, e, out)" by (cases row) auto
  obtain ap d1 where step: "(case try_apply_group env rid rt n e out d of Inr r \<Rightarrow> r | Inl err \<Rightarrow> try_release env i err d) = (ap, d1)"
    by fastforce
  have run: "apply_rows_loop (try_apply_group env rid rt) (try_release env) rows (add_applied tot ap) d1 = (tot', d')"
    using Cons.prems(6) by (simp add: row step)
  have "claimed_ids [i] d" using Cons.prems(5) by (rule claimed_ids_sub) (simp add: row)
  then have one: "disposes_w [i] d d1" "\<forall>j \<in> set (db_jobs d). jb_id j = i \<longrightarrow> row_fate env rt refused row j d1"
    "\<exists>ws. db_writes d1 = db_writes d @ ws \<and> filter (not_notify entry) ws = row_statements env entry rt refused row"
    using row_step [OF Cons.prems(1) row _ _ _ _ step, of refused] Cons.prems(2,3)
    by (simp_all add: row row_shape_def aborts_exactly_def)
  have cl: "claimed_ids (map fst rows) d1"
    using disposes_wD(3) [OF one(1) Cons.prems(5)] by (rule claimed_ids_sub) auto
  have rest: "disposes_w (map fst rows) d1 d'"
    "\<forall>row \<in> set rows. \<forall>j \<in> set (db_jobs d1). jb_id j = fst row \<longrightarrow> row_fate env rt refused row j d'"
    "\<exists>ws. db_writes d' = db_writes d1 @ ws \<and> filter (not_notify entry) ws = concat (map (row_statements env entry rt refused) rows)"
    using Cons.IH [OF ready_later [OF Cons.prems(1) one(1)] _ _ _ cl run] Cons.prems(2-4) by simp_all
  have "row_fate env rt refused q j d'" if q: "q \<in> set (row # rows)" and j: "j \<in> set (db_jobs d)" "jb_id j = fst q" for q j
  proof (cases "q = row")
    case True
    then have "row_fate env rt refused q j d1" using one(2) j by (simp add: row)
    then show ?thesis by (rule row_fate_later [OF _ rest(1) cl])
  next
    case False
    then have "fst q \<noteq> i" using q Cons.prems(4) by (force simp: row)
    then have "j \<in> set (db_jobs d1)" using disposes_wD(2) [OF one(1) j(1)] j(2) by (simp add: has_id_def)
    then show ?thesis using rest(2) q j(2) False by auto
  qed
  moreover have "disposes_w (map fst (row # rows)) d d'" using disposes_w_trans [OF one(1) rest(1)] by (simp add: row)
  moreover have "\<exists>ws. db_writes d' = db_writes d @ ws \<and>
      filter (not_notify entry) ws = concat (map (row_statements env entry rt refused) (row # rows))"
    using one(3) rest(3) by (metis (no_types, lifting) append.assoc concat.simps(2) filter_append list.simps(9))
  ultimately show ?case by blast
qed

lemma rows_of_ids: "length out = length e \<Longrightarrow> map fst (rows_of n e out) = group_ids n e"
proof -
  assume "length out = length e"
  then have "map fst (map (\<lambda>(j, out). (fst j, [] :: null_job list, [j], [out])) (zip e out)) = map fst e"
    by (induction out e rule: list_induct2) auto
  then show ?thesis by (simp add: rows_of_def group_ids_def comp_def)
qed


definition refusing_env :: "(int, unit) cycle_env" where
  "refusing_env =
     \<lparr>ce_tables = sample_tables, ce_chunk_exists = (\<lambda>_ _ _. True), ce_show = dec_int, ce_is_finite = (\<lambda>_. True),
      ce_display = (\<lambda>_. []), ce_resolve = (\<lambda>_ _. Inl ''none''), ce_claim_abort = None,
      ce_apply_abort = (\<lambda>n e _. if e = [] then None else Some ''check violated''), ce_release_abort = (\<lambda>_ _. None),
      ce_shutdown = (\<lambda>_. False), ce_claim_now = 9, ce_write_now = 9, ce_notify = True, ce_max_document = 100,
      ce_max_batch = 100, ce_batch = 5, ce_visibility_ms = 1000, ce_max_retries = 3, ce_backoff_ms = 1000\<rparr>"

definition sample_counters :: counters where
  "sample_counters =
     \<lparr>ct_embedded = 0, ct_nulled = 0, ct_retried = 0, ct_dead = 0, ct_converted = 0, ct_skipped = 0, ct_refreshes = 0,
      ct_errors = 0, ct_last_error = None, ct_documents_chunked = 0, ct_chunks_created = 0\<rparr>"

definition refused_write :: "counters \<times> db" where
  "refused_write = write_back refusing_env 7 (embed_routing sample_docs sample_group_db) [(1, ''a'')]
     [(2, ''b'', None, 1, ''text'')] [OutcomeOk [4, 5]] sample_counters sample_group_db"


section \<open>Respawning\<close>

definition slot_ok :: "slot \<Rightarrow> bool" where
  "slot_ok s \<longleftrightarrow> LADDER_BASE \<le> sl_ladder s \<and> sl_ladder s \<le> LADDER_MAX"

lemma on_exit_bounds:
  "LADDER_BASE \<le> b \<Longrightarrow> b \<le> LADDER_MAX \<Longrightarrow> on_exit lifetime b = (delay, b') \<Longrightarrow>
   LADDER_BASE \<le> delay \<and> delay \<le> LADDER_MAX \<and> LADDER_BASE \<le> b' \<and> b' \<le> LADDER_MAX"
  by (auto simp: on_exit_def LADDER_BASE_def LADDER_MAX_def split: if_splits)

lemma observe_exit_ok:
  assumes "slot_ok s" shows "slot_ok (observe_exit now status s)"
proof -
  obtain delay b where e: "on_exit (case sl_spawned_at s of None \<Rightarrow> 0 | Some at \<Rightarrow> now - at) (sl_ladder s) = (delay, b)"
    by fastforce
  show ?thesis using on_exit_bounds [OF _ _ e] assms by (simp add: slot_ok_def observe_exit_def Let_def e)
qed

lemma slot_tick_ok: "slot_ok s \<Longrightarrow> slot_ok (fst (slot_tick now status spawn_ok s))"
  using observe_exit_ok [of s now status] by (simp add: slot_tick_def Let_def slot_ok_def)

text \<open>
  A worker slot neither doubles nor hammers. From a slot whose ladder is in range, one tick
  keeps it in range. It spawns only when the slot has no live handle and its delay is over, so a slot
  never has two workers. When it observes a death, it spawns again no sooner than 15 seconds and
  schedules the next spawn at most 300 seconds ahead; a death within 30 seconds of the spawn doubles
  the ladder up to that ceiling, and a longer life resets it.
\<close>
theorem slot_tick_respawns:
  assumes "slot_ok s" and "slot_tick now status spawn_ok s = (s', spawned)"
  shows "slot_ok s' \<and>
    (spawned \<longrightarrow> \<not> sl_handle s \<and> sl_next_spawn s \<le> now \<and> sl_handle s' \<and> sl_spawned_at s' = Some now) \<and>
    (sl_handle s \<and> \<not> sl_handle s' \<longrightarrow> \<not> spawned \<and>
       now + LADDER_BASE \<le> sl_next_spawn s' \<and> sl_next_spawn s' \<le> now + LADDER_MAX \<and>
       (if (case sl_spawned_at s of None \<Rightarrow> 0 | Some at \<Rightarrow> now - at) < HEALTHY_LIFETIME
        then sl_next_spawn s' = now + sl_ladder s \<and> sl_ladder s' = min (2 * sl_ladder s) LADDER_MAX
        else sl_next_spawn s' = now + LADDER_BASE \<and> sl_ladder s' = LADDER_BASE))"
proof -
  let ?life = "case sl_spawned_at s of None \<Rightarrow> 0 | Some at \<Rightarrow> now - at"
  have ok: "slot_ok s'" using slot_tick_ok [OF assms(1), of now status spawn_ok] assms(2) by simp
  show ?thesis
  proof (cases "sl_handle s \<and> (status = Stopped \<or> status = PostmasterDied)")
    case True
    obtain delay b where e: "on_exit ?life (sl_ladder s) = (delay, b)" by fastforce
    have bound: "LADDER_BASE \<le> delay" "delay \<le> LADDER_MAX"
      using on_exit_bounds [OF _ _ e] assms(1) by (auto simp: slot_ok_def)
    then have "0 < delay" by (simp add: LADDER_BASE_def)
    then have s': "s' = s\<lparr>sl_handle := False, sl_ladder := b, sl_next_spawn := now + delay\<rparr>" "\<not> spawned"
      using assms(2) True e by (simp_all add: slot_tick_def observe_exit_def Let_def)
    have "if ?life < HEALTHY_LIFETIME then delay = sl_ladder s \<and> b = min (2 * sl_ladder s) LADDER_MAX
        else delay = LADDER_BASE \<and> b = LADDER_BASE" using e by (auto simp: on_exit_def mult.commute)
    then show ?thesis using ok s' bound by (simp split: if_splits)
  next
    case False
    then have "observe_exit now status s = s" unfolding observe_exit_def by (rule if_not_P)
    then show ?thesis using ok assms(2) by (auto simp: slot_tick_def Let_def split: if_splits)
  qed
qed

theorem slot_tick_respawns_witness:
  "fst (slot_tick 1000 Stopped True \<lparr>sl_handle = True, sl_next_spawn = 0, sl_ladder = 15000, sl_spawned_at = Some 900\<rparr>) =
   \<lparr>sl_handle = False, sl_next_spawn = 16000, sl_ladder = 30000, sl_spawned_at = Some 900\<rparr>"
proof -
  let ?s = "\<lparr>sl_handle = True, sl_next_spawn = 0, sl_ladder = 15000, sl_spawned_at = Some 900\<rparr>"
  have ok: "slot_ok ?s" by (simp add: slot_ok_def LADDER_BASE_def LADDER_MAX_def)
  have t: "slot_tick 1000 Stopped True ?s =
      (\<lparr>sl_handle = False, sl_next_spawn = 16000, sl_ladder = 30000, sl_spawned_at = Some 900\<rparr>, False)"
    by (simp add: slot_tick_def observe_exit_def on_exit_def Let_def HEALTHY_LIFETIME_def LADDER_MAX_def)
  from slot_tick_respawns [OF ok t] t show ?thesis by simp
qed

lemma refresh_jitter_bound: "refresh_jitter db interval < max (interval div 4) 1"
  unfolding refresh_jitter_def by (rule mod_less_divisor) simp

end
