(* ===== verification/Migrate.thy ===== *)
theory Migrate
  imports Worker
begin

text \<open>
  The online change of an entry's model: the migration driver of \<open>postvec/src/worker/migrate.rs\<close> (read a
  batch, infer, write back, retry or fail) and the verbs \<open>migrate\<close>, \<open>migration_finalize\<close> and
  \<open>migration_abort\<close> of \<open>postvec/src/api/migrate.rs\<close>.

  The vector table of an entry (the source table in column mode, the chunk table in recursive mode) is
  the list of its rows: key text, whether the source column is set, the rendered text, and the vector
  texts of the old and the new column. The typed order of the keys is the parameter \<open>me_order\<close>. The
  inference client, the catalogue lookups, float formatting and the settings are parameters too. Times
  are microseconds.
\<close>

section \<open>State\<close>

record vec_row =
  vr_key :: string
  vr_source :: bool
  vr_text :: "string option"
  vr_old :: "string option"
  vr_new :: "string option"

record ('f, 'c, 'k) migrate_env =
  me_order :: "string \<Rightarrow> 'k"
  me_missing :: "registry_entry \<Rightarrow> string list \<Rightarrow> string option"
  me_resolve :: "string \<Rightarrow> string option \<Rightarrow> string + ('c \<Rightarrow> string list \<Rightarrow> (pv_error + 'f list list) \<times> 'c)"
  me_convert :: "string \<Rightarrow> 'c \<Rightarrow> 'f list list \<Rightarrow> (pv_error + 'f list list) \<times> 'c"
  me_parse :: "string \<Rightarrow> 'f option"
  me_show :: "'f \<Rightarrow> string"
  me_is_finite :: "'f \<Rightarrow> bool"
  me_display :: "pv_error \<Rightarrow> string"
  me_show_vector_error :: "vector_error \<Rightarrow> string"
  me_debug :: "string \<Rightarrow> string"
  me_item_cap :: int
  me_budget :: int
  me_backoff_ms :: int
  me_now :: int

definition load_migration :: "int \<Rightarrow> db \<Rightarrow> migration option" where
  "load_migration i d = find (\<lambda>m. mg_id m = i) (db_migrations d)"

definition running_ids :: "int \<Rightarrow> db \<Rightarrow> int list" where
  "running_ids now d =
     sort (map mg_id (filter (\<lambda>m. mg_state m = ''running'' \<and> mg_not_before m \<le> now) (db_migrations d)))"

definition update_migration :: "int \<Rightarrow> (migration \<Rightarrow> bool) \<Rightarrow> (migration \<Rightarrow> migration) \<Rightarrow> db \<Rightarrow> db" where
  "update_migration i guard f d =
     d\<lparr>db_migrations := map (\<lambda>m. if mg_id m = i \<and> guard m then f m else m) (db_migrations d)\<rparr>"

section \<open>Retry bookkeeping\<close>

definition MAX_MIGRATION_BACKOFF :: int where "MAX_MIGRATION_BACKOFF = 300 * 1000000"

definition migration_delay :: "int \<Rightarrow> nat \<Rightarrow> int" where
  "migration_delay backoff_ms failures =
     min (max backoff_ms 0 * 1000 * 2 ^ min failures 10) MAX_MIGRATION_BACKOFF"

definition set_migration_error :: "int \<Rightarrow> int \<Rightarrow> int \<Rightarrow> string \<Rightarrow> db \<Rightarrow> db" where
  "set_migration_error now backoff_ms i msg =
     update_migration i (\<lambda>m. mg_state m = ''running'')
       (\<lambda>m. m\<lparr>mg_error := Some (left_chars 1024 msg), mg_retry_failures := mg_retry_failures m + 1,
              mg_not_before := now + migration_delay backoff_ms (mg_retry_failures m)\<rparr>)"

section \<open>Reading a batch\<close>

record ('f, 'c) migration_batch =
  mb_migration :: migration
  mb_entry :: registry_entry
  mb_pks :: "string list"
  mb_payloads :: "(string + string) list"
  mb_embed_call :: "('c \<Rightarrow> string list \<Rightarrow> (pv_error + 'f list list) \<times> 'c) option"

datatype ('f, 'c) batch_read = Idle | Finished | Work "('f, 'c) migration_batch"

definition eligible :: "bool \<Rightarrow> bool \<Rightarrow> vec_row \<Rightarrow> bool" where
  "eligible reembed recursive r \<longleftrightarrow>
     vr_new r = None \<and>
     (if reembed then (if recursive then vr_text r \<noteq> None else vr_source r) else vr_old r \<noteq> None)"

definition past_watermark :: "(string \<Rightarrow> 'k :: linorder) \<Rightarrow> string option \<Rightarrow> vec_row \<Rightarrow> bool" where
  "past_watermark ordk wm r \<longleftrightarrow> (case wm of None \<Rightarrow> True | Some w \<Rightarrow> ordk w < ordk (vr_key r))"

text \<open>\<open>WHERE \<dots> AND key > watermark ORDER BY key LIMIT n\<close>.\<close>

definition scan_rows ::
  "(string \<Rightarrow> 'k :: linorder) \<Rightarrow> (vec_row \<Rightarrow> bool) \<Rightarrow> string option \<Rightarrow> nat \<Rightarrow> vec_row list \<Rightarrow> vec_row list" where
  "scan_rows ordk ok wm limit table =
     take limit (sort_key (\<lambda>r. ordk (vr_key r)) (filter (\<lambda>r. ok r \<and> past_watermark ordk wm r) table))"

definition too_large_payload :: "int \<Rightarrow> int \<Rightarrow> string" where
  "too_large_payload len cap =
     ''payload is '' @ dec_int len @ '' bytes; the ceiling is '' @ dec_int cap @
     '' (min of postvec.max_document_bytes, postvec.max_batch_total_bytes, and the 48 MiB wire-message ceiling); left NULL''"

definition null_payload :: string where
  "null_payload = ''payload read back NULL (concurrent write?)''"

text \<open>
  Re-embedding reads lengths first and admits a strict prefix under the byte budget; a row that is
  decided already takes its reason along, an admitted one its length.
\<close>

fun admit_lens :: "int \<Rightarrow> int \<Rightarrow> int \<Rightarrow> (string \<times> int option) list \<Rightarrow> (string \<times> (string + int)) list" where
  "admit_lens cap budget used [] = []"
| "admit_lens cap budget used ((k, None) # rows) = (k, Inl null_payload) # admit_lens cap budget used rows"
| "admit_lens cap budget used ((k, Some len) # rows) =
     (if len > cap then (k, Inl (too_large_payload len cap)) # admit_lens cap budget used rows
      else if used + len > budget then []
      else (k, Inr len) # admit_lens cap budget (used + len) rows)"

text \<open>The second statement renders the admitted rows; \<open>render\<close> is what it sees of the table.\<close>

definition render_row :: "(string \<Rightarrow> string option) \<Rightarrow> string \<times> (string + int) \<Rightarrow> string \<times> (string + string)" where
  "render_row render = (\<lambda>(k, p).
     (k, case p of
           Inl reason \<Rightarrow> Inl reason
         | Inr len \<Rightarrow>
             (case render k of
                None \<Rightarrow> Inl ''row changed between read phases''
              | Some txt \<Rightarrow> if int (length txt) \<le> len then Inr txt else Inl ''row changed between read phases'')))"

definition read_reembed ::
  "int \<Rightarrow> int \<Rightarrow> (string \<Rightarrow> string option) \<Rightarrow> vec_row list \<Rightarrow> (string \<times> (string + string)) list" where
  "read_reembed cap budget render rows =
     map (render_row render)
       (admit_lens cap budget 0 (map (\<lambda>r. (vr_key r, map_option (\<lambda>t. int (length t)) (vr_text r))) rows))"

text \<open>Conversion reads stored vectors in one pass; \<open>cum\<close> is the window sum over the rows within the ceiling.\<close>

fun budgeted :: "int \<Rightarrow> int \<Rightarrow> int \<Rightarrow> vec_row list \<Rightarrow> (string \<times> (string + string)) list" where
  "budgeted cap budget cum [] = []"
| "budgeted cap budget cum (r # rows) =
     (let txt = vr_old r;
          len = map_option (\<lambda>t. int (length t)) txt;
          cum = cum + (case len of Some l \<Rightarrow> if l \<le> cap then l else 0 | None \<Rightarrow> 0);
          payload = (case txt of
                       None \<Rightarrow> Inl null_payload
                     | Some t \<Rightarrow> if int (length t) \<le> cap then Inr t else Inl (too_large_payload (int (length t)) cap))
      in (if cum \<le> budget then [(vr_key r, payload)] else []) @ budgeted cap budget cum rows)"

definition read_rows ::
  "('f, 'c, 'k :: linorder) migrate_env \<Rightarrow> (string \<Rightarrow> string option) \<Rightarrow> nat \<Rightarrow> migration \<Rightarrow> registry_entry
   \<Rightarrow> vec_row list \<Rightarrow> (string \<times> (string + string)) list" where
  "read_rows env render limit m entry table =
     (let reembed = (mg_kind m = ''reembed'');
          rows = scan_rows (me_order env) (eligible reembed (is_recursive entry)) (mg_last_pk m) limit table
      in if reembed then read_reembed (me_item_cap env) (me_budget env) render rows
         else budgeted (me_item_cap env) (me_budget env) 0 rows)"

text \<open>
  The guards both transactions start with: the migration must be running, its entry present, and the
  table and both columns in place. A lost base column quarantines the entry, a lost new column only
  fails the migration.
\<close>

definition live_target ::
  "('f, 'c, 'k) migrate_env \<Rightarrow> string \<Rightarrow> int \<Rightarrow> db \<Rightarrow> db + migration \<times> registry_entry" where
  "live_target env vanished mid d =
     (case load_migration mid d of
        None \<Rightarrow> Inl d
      | Some m \<Rightarrow>
          if mg_state m \<noteq> ''running'' then Inl d
          else case load_entry (mg_registry m) d of
            None \<Rightarrow> Inl (fail_migration mid vanished d)
          | Some entry \<Rightarrow>
              (case me_missing env entry [] of
                 Some reason \<Rightarrow> Inl (quarantine_entry entry reason d)
               | None \<Rightarrow>
                   (case me_missing env entry [mg_new_column m] of
                      Some reason \<Rightarrow> Inl (fail_migration mid reason d)
                    | None \<Rightarrow> Inr (m, entry))))"

definition resolve_call ::
  "('f, 'c, 'k) migrate_env \<Rightarrow> migration \<Rightarrow> string + ('c \<Rightarrow> string list \<Rightarrow> (pv_error + 'f list list) \<times> 'c) option" where
  "resolve_call env m =
     (if mg_kind m = ''reembed'' then map_sum id Some (me_resolve env (mg_new_model m) (mg_space m)) else Ok None)"

definition read_migration_batch ::
  "('f, 'c, 'k :: linorder) migrate_env \<Rightarrow> (string \<Rightarrow> string option) \<Rightarrow> int \<Rightarrow> nat \<Rightarrow> (int \<Rightarrow> vec_row list) \<Rightarrow> db
   \<Rightarrow> ('f, 'c) batch_read \<times> db" where
  "read_migration_batch env render mid limit tables d =
     (case live_target env ''registry entry vanished'' mid d of
        Inl d \<Rightarrow> (Idle, d)
      | Inr (m, entry) \<Rightarrow>
          (case resolve_call env m of
             Inl e \<Rightarrow>
               (Idle, set_migration_error (me_now env) (me_backoff_ms env) mid
                        (''resolve '' @ me_debug env (mg_new_model m) @ '': '' @ e) d)
           | Inr call \<Rightarrow>
               let rows = read_rows env render limit m entry (tables (re_id entry)) in
               if rows = []
               then (Finished, update_migration mid (\<lambda>m. mg_state m = ''running'')
                       (\<lambda>m. m\<lparr>mg_state := ''awaiting_finalize'', mg_error := None\<rparr>) d)
               else (Work \<lparr>mb_migration = m, mb_entry = entry, mb_pks = map fst rows,
                           mb_payloads = map snd rows, mb_embed_call = call\<rparr>, d)))"

section \<open>Inference\<close>

datatype 'f row_result = Vector "'f list" | Skip string

fun chunks_of :: "nat \<Rightarrow> 'a list \<Rightarrow> 'a list list" where
  "chunks_of n [] = []"
| "chunks_of n (x # xs) = take (max n 1) (x # xs) # chunks_of n (drop (max n 1) (x # xs))"

fun is_timeout :: "pv_error \<Rightarrow> bool" where
  "is_timeout (Deadline _) = True"
| "is_timeout (Remote code _) = (code = Timeout)"
| "is_timeout _ = False"

fun convert_with_split ::
  "('c \<Rightarrow> 'f list list \<Rightarrow> (pv_error + 'f list list) \<times> 'c) \<Rightarrow> nat \<Rightarrow> 'c \<Rightarrow> 'f list list
   \<Rightarrow> (pv_error + 'f list list) \<times> 'c" where
  "convert_with_split conv depth c vecs =
     (case conv c vecs of
        (Inr out, c) \<Rightarrow>
          (if length out = length vecs then Ok out else Err (Decode (''conversion count mismatch: got '' @ dec_int (int (length out)) @ '', want '' @ dec_int (int (length vecs)))), c)
      | (Inl e, c) \<Rightarrow>
          if is_timeout e \<and> length vecs > 1 then
            (case depth of
               0 \<Rightarrow> (Err e, c)
             | Suc depth \<Rightarrow>
                 let mid = length vecs div 2 in
                 case convert_with_split conv depth c (take mid vecs) of
                   (Inl e, c) \<Rightarrow> (Err e, c)
                 | (Inr out, c) \<Rightarrow>
                     (case convert_with_split conv depth c (drop mid vecs) of
                        (Inl e, c) \<Rightarrow> (Err e, c)
                      | (Inr out2, c) \<Rightarrow> (Ok (out @ out2), c)))
          else (Err e, c))"

declare convert_with_split.simps [simp del]

fun convert_chunks ::
  "('c \<Rightarrow> 'f list list \<Rightarrow> (pv_error + 'f list list) \<times> 'c) \<Rightarrow> 'c \<Rightarrow> 'f list list list
   \<Rightarrow> (pv_error + 'f list list) \<times> 'c" where
  "convert_chunks conv c [] = (Ok [], c)"
| "convert_chunks conv c (chunk # chunks) =
     (case convert_with_split conv 3 c chunk of
        (Inl e, c) \<Rightarrow> (Err e, c)
      | (Inr out, c) \<Rightarrow>
          (case convert_chunks conv c chunks of
             (Inl e, c) \<Rightarrow> (Err e, c)
           | (Inr out2, c) \<Rightarrow> (Ok (out @ out2), c)))"

fun reembed_chunks ::
  "('c \<Rightarrow> string list \<Rightarrow> (pv_error + 'f list list) \<times> 'c) \<Rightarrow> (pv_error \<Rightarrow> string) \<Rightarrow> 'c \<Rightarrow> string list list
   \<Rightarrow> (pv_error + (string + 'f list) list) \<times> 'c" where
  "reembed_chunks emb display c [] = (Ok [], c)"
| "reembed_chunks emb display c (chunk # chunks) =
     (case bisect_embed emb display c chunk of
        (Inl e, c) \<Rightarrow> (Err e, c)
      | (Inr out, c) \<Rightarrow>
          (case reembed_chunks emb display c chunks of
             (Inl e, c) \<Rightarrow> (Err e, c)
           | (Inr out2, c) \<Rightarrow> (Ok (out @ out2), c)))"

text \<open>
  Merging the answers back into the order of the payloads. The code expects an answer for every sent
  payload and would panic otherwise; \<open>merge_answers_total\<close> shows there is one.
\<close>

fun merge_answers :: "(string + 'p) list \<Rightarrow> (string + 'f list) list \<Rightarrow> 'f row_result list option" where
  "merge_answers [] outs = Some []"
| "merge_answers (Inl reason # ps) outs = map_option (\<lambda>rs. Skip reason # rs) (merge_answers ps outs)"
| "merge_answers (Inr p # ps) [] = None"
| "merge_answers (Inr p # ps) (out # outs) =
     map_option (\<lambda>rs. (case out of Inr v \<Rightarrow> Vector v | Inl poison \<Rightarrow> Skip poison) # rs) (merge_answers ps outs)"

definition oks :: "('e + 'a) list \<Rightarrow> 'a list" where
  "oks xs = List.map_filter (\<lambda>x. case x of Inl _ \<Rightarrow> None | Inr a \<Rightarrow> Some a) xs"

definition check_row :: "('f \<Rightarrow> bool) \<Rightarrow> int \<Rightarrow> 'f row_result \<Rightarrow> 'f row_result" where
  "check_row is_finite dim r =
     (case r of
        Vector v \<Rightarrow>
          if int (length v) \<noteq> dim
          then Skip (''model returned '' @ dec_int (int (length v)) @ '' dims, column is vector('' @ dec_int dim @ '')'')
          else if \<not> list_all is_finite v then Skip ''model returned a non-finite vector (NaN/Inf)''
          else r
      | Skip _ \<Rightarrow> r)"

definition convert_target :: "migration \<Rightarrow> string" where
  "convert_target m = (case mg_via m of Some model \<Rightarrow> model | None \<Rightarrow> mg_old_model m)"

definition parse_payload :: "('f, 'c, 'k) migrate_env \<Rightarrow> string + string \<Rightarrow> string + 'f list" where
  "parse_payload env p =
     (case p of
        Inl reason \<Rightarrow> Err reason
      | Inr txt \<Rightarrow> map_err (\<lambda>e. ''unparseable stored vector: '' @ me_show_vector_error env e) (parse_vector (me_parse env) txt))"

definition run_inference ::
  "('f, 'c, 'k) migrate_env \<Rightarrow> ('f, 'c) migration_batch \<Rightarrow> 'c \<Rightarrow> (pv_error + 'f row_result list option) \<times> 'c" where
  "run_inference env b c =
     (let m = mb_migration b; finish = map_option (map (check_row (me_is_finite env) (mg_new_dim m))) in
      case mb_embed_call b of
        Some emb \<Rightarrow>
          (case reembed_chunks emb (me_display env) c (request_chunks (oks (mb_payloads b)) (mg_new_dim m)) of
             (Inl e, c) \<Rightarrow> (Err e, c)
           | (Inr outs, c) \<Rightarrow> (Ok (finish (merge_answers (mb_payloads b) outs)), c))
      | None \<Rightarrow>
          (let parsed = map (parse_payload env) (mb_payloads b);
               conv = me_convert env (convert_target m) in
           case convert_chunks conv c (chunks_of (max_items_for_dim (max (mg_new_dim m) (mg_old_dim m))) (oks parsed)) of
             (Inl e, c) \<Rightarrow> (Err e, c)
           | (Inr outs, c) \<Rightarrow> (Ok (finish (merge_answers parsed (map Inr outs))), c)))"

section \<open>Writing back\<close>

record migration_applied =
  ma_done :: int
  ma_skipped :: int
  ma_advanced :: bool

definition no_migration_applied :: migration_applied where
  "no_migration_applied = \<lparr>ma_done = 0, ma_skipped = 0, ma_advanced = False\<rparr>"

fun vectors_of :: "('f \<Rightarrow> string) \<Rightarrow> (string \<times> 'f row_result) list \<Rightarrow> (string \<times> string) list" where
  "vectors_of show_f [] = []"
| "vectors_of show_f ((k, Vector v) # rs) = (k, serialize_vector show_f v) # vectors_of show_f rs"
| "vectors_of show_f ((k, Skip _) # rs) = vectors_of show_f rs"

fun is_skip :: "'f row_result \<Rightarrow> bool" where
  "is_skip (Skip _) = True"
| "is_skip (Vector _) = False"

text \<open>\<open>UPDATE \<dots> SET new = v \<dots> WHERE key = k AND new IS NULL\<close>.\<close>

definition write_new :: "(string \<times> string) list \<Rightarrow> vec_row \<Rightarrow> vec_row" where
  "write_new vs r =
     (case map_of vs (vr_key r) of
        Some v \<Rightarrow> if vr_new r = None then r\<lparr>vr_new := Some v\<rparr> else r
      | None \<Rightarrow> r)"

definition written_count :: "(string \<times> string) list \<Rightarrow> vec_row list \<Rightarrow> int" where
  "written_count vs table =
     int (length (filter (\<lambda>r. vr_key r \<in> set (map fst vs) \<and> vr_new r = None) table))"

definition apply_migration_batch ::
  "('f, 'c, 'k) migrate_env \<Rightarrow> ('f, 'c) migration_batch \<Rightarrow> 'f row_result list \<Rightarrow> (int \<Rightarrow> vec_row list) \<Rightarrow> db
   \<Rightarrow> migration_applied \<times> (int \<Rightarrow> vec_row list) \<times> db" where
  "apply_migration_batch env b results tables d =
     (case live_target env ''registry entry vanished before migration write-back'' (mg_id (mb_migration b)) d of
        Inl d \<Rightarrow> (no_migration_applied, tables, d)
      | Inr (m, entry) \<Rightarrow>
          let rows = zip (mb_pks b) results;
              vs = vectors_of (me_show env) rows;
              skipped = int (length (filter (\<lambda>(_, r). is_skip r) rows));
              table = tables (re_id entry);
              written = written_count vs table
          in (\<lparr>ma_done = written, ma_skipped = skipped, ma_advanced = True\<rparr>,
              tables(re_id entry := map (write_new vs) table),
              update_migration (mg_id m) (\<lambda>_. True)
                (\<lambda>m. m\<lparr>mg_rows_done := mg_rows_done m + written,
                       mg_rows_skipped := mg_rows_skipped m + skipped,
                       mg_last_pk := (if mb_pks b = [] then None else Some (List.last (mb_pks b))),
                       mg_error := None, mg_retry_failures := 0\<rparr>) d))"

section \<open>One pass over the running migrations\<close>

text \<open>
  Which transactions of the pass are aborted (a lock timeout, a raising trigger) and when a shutdown is
  requested is up to the environment; an aborted transaction changes nothing.
\<close>

record ('f, 'c, 'k) drain_env =
  dn_env :: "('f, 'c, 'k) migrate_env"
  dn_render :: "int \<Rightarrow> string \<Rightarrow> string option"
  dn_limit :: nat
  dn_scan_abort :: "string option"
  dn_read_abort :: "int \<Rightarrow> string option"
  dn_apply_abort :: "int \<Rightarrow> string option"
  dn_record_abort :: "int \<Rightarrow> bool"
  dn_shutdown :: "int \<Rightarrow> bool"

definition migration_message :: "int \<Rightarrow> string \<Rightarrow> string" where
  "migration_message mid e = ''migration '' @ dec_int mid @ '': '' @ e"

definition record_soft_failure :: "('f, 'c, 'k) drain_env \<Rightarrow> int \<Rightarrow> string \<Rightarrow> db \<Rightarrow> db" where
  "record_soft_failure dn mid msg d =
     (if dn_record_abort dn mid then d
      else set_migration_error (me_now (dn_env dn)) (me_backoff_ms (dn_env dn)) mid msg d)"

definition drain_one ::
  "('f, 'c, 'k :: linorder) drain_env \<Rightarrow> int \<Rightarrow> 'c \<Rightarrow> counters \<Rightarrow> (int \<Rightarrow> vec_row list) \<Rightarrow> db
   \<Rightarrow> bool \<times> 'c \<times> counters \<times> (int \<Rightarrow> vec_row list) \<times> db" where
  "drain_one dn mid c ct tables d =
     (let env = dn_env dn in
      case dn_read_abort dn mid of
        Some e \<Rightarrow>
          (False, c, count_error (migration_message mid e) ct, tables,
           record_soft_failure dn mid (''batch read failed: '' @ e) d)
      | None \<Rightarrow>
          case read_migration_batch env (dn_render dn mid) mid (dn_limit dn) tables d of
            (Idle, d) \<Rightarrow> (False, c, ct, tables, d)
          | (Finished, d) \<Rightarrow> (False, c, ct, tables, d)
          | (Work b, d) \<Rightarrow>
              (case run_inference env b c of
                 (Inr None, c) \<Rightarrow> (False, c, ct, tables, d)
               | (Inr (Some results), c) \<Rightarrow>
                   (case dn_apply_abort dn mid of
                      Some e \<Rightarrow>
                        (False, c, count_error (migration_message mid e) ct, tables,
                         record_soft_failure dn mid (''write-back failed: '' @ e) d)
                    | None \<Rightarrow>
                        (case apply_migration_batch env b results tables d of
                           (ap, tables, d) \<Rightarrow>
                             (ma_advanced ap, c,
                              ct\<lparr>ct_converted := ct_converted ct + ma_done ap,
                                 ct_skipped := ct_skipped ct + ma_skipped ap\<rparr>, tables, d)))
               | (Inl e, c) \<Rightarrow>
                   (False, c, count_error (migration_message mid (me_display env e)) ct, tables,
                    if dn_record_abort dn mid then d
                    else if error_class_of e = Permanent then fail_migration mid (me_display env e) d
                    else set_migration_error (me_now env) (me_backoff_ms env) mid (me_display env e) d)))"

fun drain_all ::
  "('f, 'c, 'k :: linorder) drain_env \<Rightarrow> int list \<Rightarrow> bool \<Rightarrow> 'c \<Rightarrow> counters \<Rightarrow> (int \<Rightarrow> vec_row list) \<Rightarrow> db
   \<Rightarrow> bool \<times> 'c \<times> counters \<times> (int \<Rightarrow> vec_row list) \<times> db" where
  "drain_all dn [] did c ct tables d = (did, c, ct, tables, d)"
| "drain_all dn (mid # mids) did c ct tables d =
     (if dn_shutdown dn mid then (did, c, ct, tables, d)
      else case drain_one dn mid c ct tables d of
        (did', c, ct, tables, d) \<Rightarrow> drain_all dn mids (did \<or> did') c ct tables d)"

definition drain_step ::
  "('f, 'c, 'k :: linorder) drain_env \<Rightarrow> 'c \<Rightarrow> counters \<Rightarrow> (int \<Rightarrow> vec_row list) \<Rightarrow> db
   \<Rightarrow> bool \<times> 'c \<times> counters \<times> (int \<Rightarrow> vec_row list) \<times> db" where
  "drain_step dn c ct tables d =
     (case dn_scan_abort dn of
        Some e \<Rightarrow> (False, c, count_error (''migration scan: '' @ e) ct, tables, d)
      | None \<Rightarrow> drain_all dn (running_ids (me_now (dn_env dn)) d) False c ct tables d)"

section \<open>The verbs\<close>

text \<open>
  The statements of a verb that Postgres may refuse: a relation that is gone, a lock timeout, a missing
  source or key column, dependent objects. \<open>ve_fails\<close> says which of them fail for an entry, and why;
  a refused statement aborts the verb's transaction.
\<close>

datatype verb_statement =
  ResolveTable | ResolveVectorTable | CountRows | AddColumn | LockTables | SwapColumns | BuildIndex | RequeueRows | DropNewColumn

datatype migrate_error =
    BadStrategy string
  | BadReindex string
  | NotEnabled
  | NotActive string
  | SameModel
  | WritesNotQuiesced
  | UnknownDim string
  | TooWideForIndex int
  | NoConversion string
  | ColumnNameTooLong string
  | ColumnExists string
  | LossyMetadata "string list"
  | NoSuchMigration
  | EntryGone
  | NotOwner
  | StillConverting
  | NothingToFinalize "string option"
  | CannotFinalize "string list" "string list"
  | NotAbortable string
  | StatementFailed verb_statement string

record verb_env =
  ve_owner :: "string \<Rightarrow> string \<Rightarrow> bool"
  ve_resolve_dim :: "string \<Rightarrow> string + int"
  ve_cache_space :: "string \<Rightarrow> string option"
  ve_route_space :: "string \<Rightarrow> string option"
  ve_resolve_convert :: "string \<Rightarrow> string \<Rightarrow> string + string"
  ve_has_column :: "registry_entry \<Rightarrow> string \<Rightarrow> bool"
  ve_lossy :: "registry_entry \<Rightarrow> string list"
  ve_blocking :: "registry_entry \<Rightarrow> string list"
  ve_had_index :: "registry_entry \<Rightarrow> bool"
  ve_index_ready :: "registry_entry \<Rightarrow> bool"
  ve_now :: int
  ve_fails :: "verb_statement \<Rightarrow> registry_entry \<Rightarrow> string option"

definition attempt_stmt :: "verb_env \<Rightarrow> verb_statement \<Rightarrow> registry_entry \<Rightarrow> migrate_error + 'a \<Rightarrow> migrate_error + 'a" where
  "attempt_stmt ve st entry r = (case ve_fails ve st entry of Some e \<Rightarrow> Err (StatementFailed st e) | None \<Rightarrow> r)"

lemma attempt_stmt_Ok [simp]: "attempt_stmt ve st entry r = Ok x \<longleftrightarrow> ve_fails ve st entry = None \<and> r = Ok x"
  by (auto simp: attempt_stmt_def split: option.splits)

lemma attempt_stmt_fine [simp]: "ve_fails ve st entry = None \<Longrightarrow> attempt_stmt ve st entry r = r"
  by (simp add: attempt_stmt_def)

definition set_entry :: "int \<Rightarrow> (registry_entry \<Rightarrow> registry_entry) \<Rightarrow> db \<Rightarrow> db" where
  "set_entry i f d = d\<lparr>db_registry := map (\<lambda>e. if re_id e = i then f e else e) (db_registry d)\<rparr>"

definition preflight ::
  "verb_env \<Rightarrow> registry_entry \<Rightarrow> string \<Rightarrow> string \<Rightarrow> string \<Rightarrow> migrate_error + string \<times> string option" where
  "preflight ve entry new_model new_space strategy =
     (if strategy = ''reembed'' then Ok (''reembed'', None)
      else case ve_resolve_convert ve (case re_space entry of Some s \<Rightarrow> s | None \<Rightarrow> re_model entry) new_space of
        Inr name \<Rightarrow> Ok (''direct'', Some name)
      | Inl e \<Rightarrow> if strategy = ''auto'' then Ok (''reembed'', None) else Err (NoConversion e))"

definition precount_skipped :: "bool \<Rightarrow> bool \<Rightarrow> vec_row list \<Rightarrow> int" where
  "precount_skipped reembed recursive table =
     (if reembed \<and> \<not> recursive
      then int (length (filter (\<lambda>r. vr_old r \<noteq> None \<and> \<not> vr_source r) table)) else 0)"

definition new_migration ::
  "verb_env \<Rightarrow> int \<Rightarrow> registry_entry \<Rightarrow> string \<Rightarrow> int \<Rightarrow> string \<Rightarrow> string \<Rightarrow> string option \<Rightarrow> string \<Rightarrow> vec_row list
   \<Rightarrow> migration" where
  "new_migration ve mid entry new_model new_dim new_space kind via reindex table =
     \<lparr>mg_id = mid, mg_registry = re_id entry, mg_new_model = new_model,
      mg_new_column = re_vector_column entry @ ''_new'', mg_new_dim = new_dim, mg_space = Some new_space,
      mg_state = ''running'', mg_error = None, mg_old_model = re_model entry, mg_old_dim = re_dim entry,
      mg_kind = kind, mg_via = via, mg_reindex = reindex, mg_rows_done = 0,
      mg_rows_skipped = precount_skipped (kind = ''reembed'') (is_recursive entry) table,
      mg_last_pk = None, mg_retry_failures = 0, mg_not_before = ve_now ve\<rparr>"

definition load_active :: "string \<Rightarrow> string \<Rightarrow> string \<Rightarrow> db \<Rightarrow> registry_entry option" where
  "load_active schema table column d =
     find (\<lambda>e. re_table_schema e = schema \<and> re_table_name e = table \<and> re_source_column e = column \<and>
                re_state e \<noteq> ''disabled'') (db_registry d)"

definition load_entry_checked :: "verb_env \<Rightarrow> string \<Rightarrow> string \<Rightarrow> string \<Rightarrow> db \<Rightarrow> migrate_error + registry_entry" where
  "load_entry_checked ve schema table column d =
     (if \<not> ve_owner ve schema table then Err NotOwner
      else case load_active schema table column d of None \<Rightarrow> Err NotEnabled | Some entry \<Rightarrow> Ok entry)"

text \<open>
  The relation is given by its resolved schema and table; \<open>mid\<close> is the identity value of the new row.
  \<open>start_migration\<close> is the part after the entry is found.
\<close>

definition start_migration ::
  "verb_env \<Rightarrow> int \<Rightarrow> registry_entry \<Rightarrow> string \<Rightarrow> string \<Rightarrow> string \<Rightarrow> bool \<Rightarrow> (int \<Rightarrow> vec_row list) \<Rightarrow> db
   \<Rightarrow> migrate_error + (int \<Rightarrow> vec_row list) \<times> db" where
  "start_migration ve mid entry new_model strategy reindex quiesced tables d =
     (if re_state entry \<noteq> ''active'' then Err (NotActive (re_state entry))
      else if new_model = re_model entry then Err SameModel
      else if re_trigger_mode entry = ''none'' \<and> \<not> quiesced then Err WritesNotQuiesced
      else case ve_resolve_dim ve new_model of
        Inl e \<Rightarrow> Err (UnknownDim e)
      | Inr new_dim \<Rightarrow>
          if reindex = ''blocking'' \<and> new_dim > 2000 then Err (TooWideForIndex new_dim)
          else
            let new_space = (case ve_cache_space ve new_model of Some s \<Rightarrow> s | None \<Rightarrow> new_model) in
            case preflight ve entry new_model new_space strategy of
              Inl e \<Rightarrow> Err e
            | Inr (kind, via) \<Rightarrow>
                let new_column = re_vector_column entry @ ''_new'' in
                if length new_column > 63 then Err (ColumnNameTooLong new_column)
                else attempt_stmt ve ResolveVectorTable entry
                  (if ve_has_column ve entry new_column then Err (ColumnExists new_column)
                else if ve_lossy ve entry \<noteq> [] then Err (LossyMetadata (ve_lossy ve entry))
                else attempt_stmt ve CountRows entry (attempt_stmt ve AddColumn entry
                  (Ok (tables(re_id entry := map (\<lambda>r. r\<lparr>vr_new := None\<rparr>) (tables (re_id entry))),
                      set_entry (re_id entry) (\<lambda>e. e\<lparr>re_state := ''migrating''\<rparr>)
                        (d\<lparr>db_migrations := db_migrations d @
                           [new_migration ve mid entry new_model new_dim new_space kind via reindex
                              (tables (re_id entry))]\<rparr>))))))"

definition migrate ::
  "verb_env \<Rightarrow> int \<Rightarrow> string \<Rightarrow> string \<Rightarrow> string \<Rightarrow> string \<Rightarrow> string \<Rightarrow> string \<Rightarrow> bool \<Rightarrow> (int \<Rightarrow> vec_row list) \<Rightarrow> db
   \<Rightarrow> migrate_error + (int \<Rightarrow> vec_row list) \<times> db" where
  "migrate ve mid schema table column new_model strategy reindex quiesced tables d =
     (if strategy \<notin> {''convert'', ''reembed'', ''auto''} then Err (BadStrategy strategy)
      else if reindex \<notin> {''manual'', ''blocking''} then Err (BadReindex reindex)
      else case load_entry_checked ve schema table column d of
        Inl e \<Rightarrow> Err e
      | Inr entry \<Rightarrow> start_migration ve mid entry new_model strategy reindex quiesced tables d)"

definition set_migration_state :: "int \<Rightarrow> string \<Rightarrow> db \<Rightarrow> db" where
  "set_migration_state mid st = update_migration mid (\<lambda>_. True) (\<lambda>m. m\<lparr>mg_state := st\<rparr>)"

definition swap_columns :: "vec_row \<Rightarrow> vec_row" where
  "swap_columns r = r\<lparr>vr_old := vr_new r, vr_new := None\<rparr>"

text \<open>
  The verbs wait for table locks after their first look, so another verb may commit in between: \<open>d0\<close> is
  the state of the first look, \<open>d\<close> the one under the locks.
\<close>

definition migration_finalize ::
  "verb_env \<Rightarrow> int \<Rightarrow> db \<Rightarrow> (int \<Rightarrow> vec_row list) \<Rightarrow> db \<Rightarrow> migrate_error + (int \<Rightarrow> vec_row list) \<times> db" where
  "migration_finalize ve mid d0 tables d =
     (case load_migration mid d0 of
        None \<Rightarrow> Err NoSuchMigration
      | Some m \<Rightarrow>
          case load_entry (mg_registry m) d0 of
            None \<Rightarrow> Err EntryGone
          | Some entry \<Rightarrow> attempt_stmt ve ResolveTable entry (
              if \<not> ve_owner ve (re_table_schema entry) (re_table_name entry) then Err NotOwner
              else if mg_state m = ''running'' then Err StillConverting
              else if mg_state m = ''awaiting_index''
              then Ok (tables, if ve_index_ready ve entry then set_migration_state mid ''done'' d else d)
              else if mg_state m \<noteq> ''awaiting_finalize'' then Err (NothingToFinalize (Some (mg_state m)))
              else attempt_stmt ve LockTables entry (
                let current = map_option mg_state (load_migration mid d) in
                if current \<noteq> Some ''awaiting_finalize'' then Err (NothingToFinalize current)
                else attempt_stmt ve ResolveVectorTable entry (
                if ve_lossy ve entry \<noteq> [] \<or> ve_blocking ve entry \<noteq> []
                then Err (CannotFinalize (ve_lossy ve entry) (ve_blocking ve entry))
                else attempt_stmt ve SwapColumns entry (
                  let space = (case mg_space m of Some s \<Rightarrow> Some s | None \<Rightarrow> ve_route_space ve (mg_new_model m));
                      d = set_entry (re_id entry) (\<lambda>e. e\<lparr>re_model := mg_new_model m, re_space := space,
                            re_dim := mg_new_dim m, re_state := ''active'', re_owns_vector_column := True\<rparr>) d
                  in if mg_reindex m = ''blocking'' \<and> ve_fails ve BuildIndex entry \<noteq> None
                     then Err (StatementFailed BuildIndex (the (ve_fails ve BuildIndex entry)))
                     else Ok (tables(re_id entry := map swap_columns (tables (re_id entry))),
                         set_migration_state mid
                           (if mg_reindex m = ''blocking'' then ''done''
                            else if ve_had_index ve entry then ''awaiting_index'' else ''done'') d))))))"

definition is_abortable :: "string \<Rightarrow> bool" where
  "is_abortable st \<longleftrightarrow> st = ''running'' \<or> st = ''awaiting_finalize'' \<or> st = ''failed''"

text \<open>
  The rows that are queued again: in a chunk table those without an old vector, with the source key and
  the chunk id that the row carries (\<open>chunk_ref\<close>); otherwise the rows with a source text that the new
  column holds a vector for, or all of them when the new column is gone (\<open>kept\<close>).
\<close>

definition requeue_row :: "int \<Rightarrow> registry_entry \<Rightarrow> (vec_row \<Rightarrow> string \<times> int) \<Rightarrow> bool \<Rightarrow> vec_row \<Rightarrow> job option" where
  "requeue_row now entry chunk_ref kept r =
     (let job = \<lambda>pk chunk. \<lparr>jb_id = 0, jb_registry = re_id entry, jb_pk = pk, jb_op = EmbedOp, jb_chunk = chunk,
                 jb_attempts = 0, jb_not_before = now, jb_claimed = None, jb_error = None, jb_created = now\<rparr>
      in if is_recursive entry
         then (if vr_old r = None then Some (job (fst (chunk_ref r)) (Some (snd (chunk_ref r)))) else None)
         else if vr_source r \<and> (kept \<longrightarrow> vr_new r \<noteq> None) then Some (job (vr_key r) None) else None)"

definition requeue_jobs ::
  "verb_env \<Rightarrow> (vec_row \<Rightarrow> string \<times> int) \<Rightarrow> registry_entry \<Rightarrow> string \<Rightarrow> vec_row list \<Rightarrow> migrate_error + job list" where
  "requeue_jobs ve chunk_ref entry new_column table =
     (if re_trigger_mode entry = ''none'' then Ok []
      else attempt_stmt ve RequeueRows entry
        (Ok (List.map_filter (requeue_row (ve_now ve) entry chunk_ref (ve_has_column ve entry new_column)) table)))"

definition migration_abort ::
  "verb_env \<Rightarrow> (vec_row \<Rightarrow> string \<times> int) \<Rightarrow> int \<Rightarrow> db \<Rightarrow> (int \<Rightarrow> vec_row list) \<Rightarrow> db
   \<Rightarrow> migrate_error + (int \<Rightarrow> vec_row list) \<times> db" where
  "migration_abort ve chunk_ref mid d0 tables d =
     (case load_migration mid d0 of
        None \<Rightarrow> Err NoSuchMigration
      | Some m0 \<Rightarrow>
          case load_entry (mg_registry m0) d0 of
            None \<Rightarrow> Err EntryGone
          | Some entry0 \<Rightarrow> attempt_stmt ve ResolveTable entry0 (
              if \<not> ve_owner ve (re_table_schema entry0) (re_table_name entry0) then Err NotOwner
              else if \<not> is_abortable (mg_state m0) then Err (NotAbortable (mg_state m0))
              else attempt_stmt ve LockTables entry0 (
                case load_migration mid d of
                None \<Rightarrow> Err NoSuchMigration
              | Some m \<Rightarrow>
                  if \<not> is_abortable (mg_state m) then Err (NotAbortable (mg_state m))
                  else case load_entry (mg_registry m) d of
                    None \<Rightarrow> Err EntryGone
                  | Some entry \<Rightarrow>
                      let table = tables (re_id entry) in
                      case requeue_jobs ve chunk_ref entry (mg_new_column m) table of
                        Inl e \<Rightarrow> Err e
                      | Inr jobs \<Rightarrow> attempt_stmt ve DropNewColumn entry (
                          let d = fold insert_pending jobs d;
                              d = set_entry (re_id entry) (\<lambda>e. e\<lparr>re_state := ''active''\<rparr>) d
                          in Ok (tables(re_id entry := map (\<lambda>r. r\<lparr>vr_new := None\<rparr>) table),
                                 set_migration_state mid ''aborted'' d)))))"

section \<open>Reading covers a prefix of the rows that are left\<close>

lemma admit_lens_prefix:
  "\<exists>n. map fst (admit_lens cap budget used rows) = take n (map fst rows)"
proof (induction cap budget used rows rule: admit_lens.induct)
  case (2 cap budget used k rows)
  then obtain n where "map fst (admit_lens cap budget used rows) = take n (map fst rows)" by blast
  then show ?case by (intro exI[of _ "Suc n"]) simp
next
  case (3 cap budget used k len rows)
  consider (big) "len > cap" | (over) "\<not> len > cap" "used + len > budget" | (fits) "\<not> len > cap" "\<not> used + len > budget"
    by blast
  then show ?case
  proof cases
    case big
    then obtain n where "map fst (admit_lens cap budget used rows) = take n (map fst rows)" using 3 by blast
    with big show ?thesis by (intro exI[of _ "Suc n"]) simp
  next
    case over
    then show ?thesis by (intro exI[of _ 0]) simp
  next
    case fits
    then obtain n where "map fst (admit_lens cap budget (used + len) rows) = take n (map fst rows)" using 3 by blast
    with fits show ?thesis by (intro exI[of _ "Suc n"]) simp
  qed
qed simp

lemma budgeted_over: "cum > budget \<Longrightarrow> budgeted cap budget cum rows = []"
  by (induction rows arbitrary: cum) (auto simp: Let_def split: option.splits)

lemma budgeted_prefix:
  "\<exists>n. map fst (budgeted cap budget cum rows) = take n (map vr_key rows)"
proof (induction rows arbitrary: cum)
  case (Cons r rows)
  define cum' where "cum' = cum + (case map_option (\<lambda>t. int (length t)) (vr_old r) of
      Some l \<Rightarrow> if l \<le> cap then l else 0 | None \<Rightarrow> 0)"
  show ?case
  proof (cases "cum' \<le> budget")
    case True
    from Cons.IH[of cum'] obtain n where "map fst (budgeted cap budget cum' rows) = take n (map vr_key rows)" by blast
    with True show ?thesis by (intro exI[of _ "Suc n"]) (simp add: Let_def cum'_def)
  next
    case False
    then have "budgeted cap budget cum' rows = []" by (intro budgeted_over) simp
    with False show ?thesis by (intro exI[of _ 0]) (simp add: Let_def cum'_def)
  qed
qed simp

lemma read_reembed_prefix:
  "\<exists>n. map fst (read_reembed cap budget render rows) = take n (map vr_key rows)"
proof -
  have "map fst (read_reembed cap budget render rows) =
      map fst (admit_lens cap budget 0 (map (\<lambda>r. (vr_key r, map_option (\<lambda>t. int (length t)) (vr_text r))) rows))"
    by (simp add: read_reembed_def render_row_def comp_def case_prod_unfold)
  then show ?thesis
    using admit_lens_prefix[of cap budget 0 "map (\<lambda>r. (vr_key r, map_option (\<lambda>t. int (length t)) (vr_text r))) rows"]
    by (simp add: comp_def)
qed

lemma read_rows_prefix:
  "\<exists>n. map fst (read_rows env render limit m entry table) = take n (map vr_key
     (scan_rows (me_order env) (eligible (mg_kind m = ''reembed'') (is_recursive entry)) (mg_last_pk m) limit table))"
  by (simp add: read_rows_def Let_def read_reembed_prefix budgeted_prefix)

text \<open>Every batch keeps at least one row, so the driver always advances.\<close>

lemma read_nonempty:
  assumes "cap \<le> budget" "0 \<le> budget" "rows \<noteq> []"
  shows "read_reembed cap budget render rows \<noteq> []" "budgeted cap budget 0 rows \<noteq> []"
proof -
  obtain r rs where rows: "rows = r # rs" using assms(3) by (cases rows) auto
  show "read_reembed cap budget render rows \<noteq> []"
    using assms(1) by (cases "vr_text r") (simp_all add: read_reembed_def rows)
  show "budgeted cap budget 0 rows \<noteq> []"
    using assms(1,2) by (cases "vr_old r") (simp_all add: rows Let_def)
qed

definition roomy :: "('f, 'c, 'k) migrate_env \<Rightarrow> bool" where
  "roomy env \<longleftrightarrow> me_item_cap env \<le> me_budget env \<and> 0 \<le> me_budget env"

abbreviation wanted :: "migration \<Rightarrow> registry_entry \<Rightarrow> vec_row \<Rightarrow> bool" where
  "wanted m entry r \<equiv> eligible (mg_kind m = ''reembed'') (is_recursive entry) (r\<lparr>vr_new := None\<rparr>)"

lemma eligible_iff: "eligible a b r \<longleftrightarrow> vr_new r = None \<and> eligible a b (r\<lparr>vr_new := None\<rparr>)"
  by (auto simp: eligible_def)

lemma sorted_take_covers:
  assumes "sorted (map f xs)" "distinct (map f xs)" "take n xs \<noteq> []" "x \<in> set xs" "f x \<le> f (List.last (take n xs))"
  shows "x \<in> set (take n xs)"
proof -
  obtain i where i: "i < length xs" "x = xs ! i" using assms(4) by (auto simp: in_set_conv_nth)
  let ?j = "length (take n xs) - 1"
  have len: "0 < length (take n xs)" using assms(3) by simp
  have "length (take n xs) \<le> length xs" "length (take n xs) \<le> n" by simp_all
  with len have j: "?j < length xs" "?j < n" by linarith+
  have j_last: "List.last (take n xs) = xs ! ?j"
    unfolding last_conv_nth[OF assms(3)] by (rule nth_take) (rule j(2))
  have "i \<le> ?j"
  proof (rule ccontr)
    assume "\<not> i \<le> ?j"
    then have "f (xs ! ?j) \<le> f (xs ! i)" using assms(1) i j(1) by (simp add: sorted_iff_nth_mono)
    with assms(5) i(2) have "map f xs ! i = map f xs ! ?j" using i(1) j(1) by (simp add: j_last)
    then have "i = ?j" using nth_eq_iff_index_eq[OF assms(2), of i ?j] i(1) j(1) by simp
    with \<open>\<not> i \<le> ?j\<close> show False by simp
  qed
  then have lt: "i < length (take n xs)" using len by linarith
  then have "take n xs ! i = x" using i(2) by simp
  then show ?thesis using nth_mem[OF lt] by simp
qed

lemma read_rows_covers:
  fixes env :: "('f, 'c, 'k :: linorder) migrate_env"
  assumes rows: "read_rows env render limit m entry table = rows" "rows \<noteq> []"
    and distinct: "distinct (map (\<lambda>r. me_order env (vr_key r)) table)"
    and r: "r \<in> set table" "wanted m entry r" "vr_new r = None" "past_watermark (me_order env) (mg_last_pk m) r"
    and upto: "me_order env (vr_key r) \<le> me_order env (List.last (map fst rows))"
  shows "vr_key r \<in> set (map fst rows)"
proof -
  let ?ok = "eligible (mg_kind m = ''reembed'') (is_recursive entry)" and ?f = "\<lambda>r. me_order env (vr_key r)"
  let ?all = "sort_key ?f (filter (\<lambda>r. ?ok r \<and> past_watermark (me_order env) (mg_last_pk m) r) table)"
  obtain n where n: "map fst rows = take n (map vr_key (take limit ?all))"
    using read_rows_prefix[of env render limit m entry table] unfolding rows(1) scan_rows_def by blast
  let ?n = "min n limit"
  have keys: "map fst rows = map vr_key (take ?n ?all)" by (simp add: n take_map)
  have "map vr_key (take ?n ?all) \<noteq> []" using rows(2) unfolding keys[symmetric] by simp
  then have "take ?n ?all \<noteq> []" by (simp only: list.map_disc_iff not_False_eq_True simp_thms)
  moreover have "r \<in> set ?all" using r by (simp add: eligible_iff[of _ _ r])
  moreover have "distinct (map ?f ?all)"
    using distinct by (simp add: distinct_map inj_on_def)
  moreover have "?f r \<le> ?f (List.last (take ?n ?all))"
    using upto \<open>take ?n ?all \<noteq> []\<close> by (simp add: keys last_map)
  ultimately have "r \<in> set (take ?n ?all)"
    using sorted_take_covers[of ?f ?all ?n r] by simp
  then show ?thesis unfolding keys by auto
qed

section \<open>The driver among concurrent writers\<close>

text \<open>
  One migration and its table, with the batch in flight between the read and the write-back, the keys
  whose rows the driver left out for a reason, and the keys of rows that others inserted or changed
  meanwhile (those rows have a job of their own, which embeds them with the new model).
\<close>

record ('f, 'c) mig_run =
  mr_db :: db
  mr_tables :: "int \<Rightarrow> vec_row list"
  mr_flight :: "(('f, 'c) migration_batch \<times> 'f row_result list) option"
  mr_skipped :: "string set"
  mr_touched :: "string set"

definition skipped_keys :: "(string \<times> 'f row_result) list \<Rightarrow> string set" where
  "skipped_keys rows = {k. \<exists>reason. (k, Skip reason) \<in> set rows}"

inductive mig_step ::
  "('f, 'c, 'k :: linorder) migrate_env \<Rightarrow> int \<Rightarrow> int \<Rightarrow> ('f, 'c) mig_run \<Rightarrow> ('f, 'c) mig_run \<Rightarrow> bool"
  for env mid rid where
  read_work:
    "\<lbrakk>read_migration_batch env render mid limit (mr_tables s) (mr_db s) = (Work b, d);
      run_inference env b c = (Ok (Some results), c')\<rbrakk> \<Longrightarrow>
     mig_step env mid rid s (s\<lparr>mr_db := d, mr_flight := Some (b, results)\<rparr>)"
| read_rest:
    "\<lbrakk>read_migration_batch env render mid limit (mr_tables s) (mr_db s) = (r, d); 0 < limit; r = Idle \<or> r = Finished\<rbrakk> \<Longrightarrow>
     mig_step env mid rid s (s\<lparr>mr_db := d, mr_flight := None\<rparr>)"
| write_back:
    "\<lbrakk>mr_flight s = Some (b, results);
      apply_migration_batch env b results (mr_tables s) (mr_db s) = (ap, tables, d)\<rbrakk> \<Longrightarrow>
     mig_step env mid rid s (s\<lparr>mr_db := d, mr_tables := tables, mr_flight := None,
       mr_skipped := mr_skipped s \<union> skipped_keys (zip (mb_pks b) results)\<rparr>)"
| soft_failure:
    "mig_step env mid rid s
       (s\<lparr>mr_db := set_migration_error now backoff mid msg (mr_db s), mr_flight := None\<rparr>)"
| hard_failure:
    "mig_step env mid rid s (s\<lparr>mr_db := fail_migration mid msg (mr_db s), mr_flight := None\<rparr>)"
| others:
    "\<lbrakk>load_migration mid d = load_migration mid (mr_db s);
      map_option re_chunking (load_entry rid d) = map_option re_chunking (load_entry rid (mr_db s));
      distinct (map (\<lambda>r. me_order env (vr_key r)) (tables rid));
      \<forall>r \<in> set (tables rid). r \<in> set (mr_tables s rid) \<or> vr_key r \<in> touched; mr_touched s \<subseteq> touched\<rbrakk> \<Longrightarrow>
     mig_step env mid rid s (s\<lparr>mr_db := d, mr_tables := tables, mr_touched := touched\<rparr>)"

text \<open>
  The watermark's promise: an untouched row at or below it that the migration wants has its new vector
  or was left out. A batch in flight holds every untouched wanted row up to its last key.
\<close>

definition promised :: "('f, 'c, 'k :: linorder) migrate_env \<Rightarrow> migration \<Rightarrow> registry_entry \<Rightarrow> ('f, 'c) mig_run \<Rightarrow> vec_row \<Rightarrow> bool" where
  "promised env m entry s r \<longleftrightarrow>
     wanted m entry r \<and> vr_key r \<notin> mr_touched s \<longrightarrow> vr_new r \<noteq> None \<or> vr_key r \<in> mr_skipped s"

definition flight_covers :: "('f, 'c, 'k :: linorder) migrate_env \<Rightarrow> migration \<Rightarrow> registry_entry \<Rightarrow> ('f, 'c) mig_run \<Rightarrow> vec_row \<Rightarrow> bool" where
  "flight_covers env m entry s r \<longleftrightarrow>
     (case mr_flight s of
        None \<Rightarrow> True
      | Some (b, results) \<Rightarrow>
          wanted m entry r \<and> vr_key r \<notin> mr_touched s \<and> vr_new r = None \<and>
          past_watermark (me_order env) (mg_last_pk m) r \<and>
          me_order env (vr_key r) \<le> me_order env (List.last (mb_pks b)) \<longrightarrow> vr_key r \<in> set (mb_pks b))"

definition flight_ok :: "int \<Rightarrow> ('f, 'c) mig_run \<Rightarrow> bool" where
  "flight_ok mid s \<longleftrightarrow>
     (case mr_flight s of
        None \<Rightarrow> True
      | Some (b, results) \<Rightarrow>
          mb_pks b \<noteq> [] \<and> length results = length (mb_pks b) \<and> mg_id (mb_migration b) = mid)"

definition mig_inv :: "('f, 'c, 'k :: linorder) migrate_env \<Rightarrow> int \<Rightarrow> int \<Rightarrow> ('f, 'c) mig_run \<Rightarrow> bool" where
  "mig_inv env mid rid s \<longleftrightarrow>
     flight_ok mid s \<and>
     distinct (map (\<lambda>r. me_order env (vr_key r)) (mr_tables s rid)) \<and>
     (\<forall>m entry. load_migration mid (mr_db s) = Some m \<and> load_entry rid (mr_db s) = Some entry \<longrightarrow>
        mg_registry m = rid \<and>
        (mg_state m = ''running'' \<longrightarrow>
           (\<forall>r \<in> set (mr_tables s rid).
              (\<not> past_watermark (me_order env) (mg_last_pk m) r \<longrightarrow> promised env m entry s r) \<and>
              flight_covers env m entry s r)) \<and>
        (mg_state m = ''awaiting_finalize'' \<longrightarrow> (\<forall>r \<in> set (mr_tables s rid). promised env m entry s r)))"

lemma load_migration_update [simp]:
  assumes "\<And>m. mg_id (f m) = mg_id m"
  shows "load_migration i (update_migration i g f d) =
    map_option (\<lambda>m. if g m then f m else m) (load_migration i d)"
proof -
  have "find (\<lambda>m. mg_id m = i) (map (\<lambda>m. if mg_id m = i \<and> g m then f m else m) ms) =
      map_option (\<lambda>m. if g m then f m else m) (find (\<lambda>m. mg_id m = i) ms)" for ms
    by (induction ms) (auto simp: assms)
  then show ?thesis by (simp add: load_migration_def update_migration_def)
qed

lemma load_entry_update_migration [simp]: "load_entry i (update_migration j g f d) = load_entry i d"
  by (simp add: load_entry_def update_migration_def)

lemma fail_migration_update:
  "fail_migration i msg = update_migration i (\<lambda>m. mg_state m = ''running'')
     (\<lambda>m. m\<lparr>mg_state := ''failed'', mg_error := Some msg\<rparr>)"
  by (intro ext) (simp add: fail_migration_def update_migration_def)

lemma load_migration_id: "load_migration i d = Some m \<Longrightarrow> mg_id m = i"
  unfolding load_migration_def by (auto simp: find_Some_iff)

lemma load_quarantined:
  "load_migration i (quarantine_entry e reason d) =
     map_option (\<lambda>m. if mg_registry m = re_id e \<and> is_live_state (mg_state m)
       then m\<lparr>mg_state := ''failed'', mg_error := Some reason\<rparr> else m) (load_migration i d)"
proof -
  have "find (\<lambda>m. mg_id m = i) (map (\<lambda>m. if mg_registry m = re_id e \<and> is_live_state (mg_state m)
        then m\<lparr>mg_state := ''failed'', mg_error := Some reason\<rparr> else m) ms) =
      map_option (\<lambda>m. if mg_registry m = re_id e \<and> is_live_state (mg_state m)
        then m\<lparr>mg_state := ''failed'', mg_error := Some reason\<rparr> else m) (find (\<lambda>m. mg_id m = i) ms)" for ms
    by (induction ms) auto
  then show ?thesis by (simp add: load_migration_def quarantine_entry_def)
qed

lemma merge_answers_length: "merge_answers ps outs = Some rs \<Longrightarrow> length rs = length ps"
  by (induction ps outs arbitrary: rs rule: merge_answers.induct) auto

lemma run_inference_length:
  assumes "run_inference env b c = (Ok (Some results), c')"
  shows "length results = length (mb_payloads b)"
proof (cases "mb_embed_call b")
  case None
  then obtain outs rs where "merge_answers (map (parse_payload env) (mb_payloads b)) (map Inr outs) = Some rs"
    "results = map (check_row (me_is_finite env) (mg_new_dim (mb_migration b))) rs"
    using assms by (auto simp: run_inference_def Let_def split: prod.splits sum.splits)
  then show ?thesis using merge_answers_length by fastforce
next
  case (Some emb)
  then obtain outs rs where "merge_answers (mb_payloads b) outs = Some rs"
    "results = map (check_row (me_is_finite env) (mg_new_dim (mb_migration b))) rs"
    using assms by (auto simp: run_inference_def Let_def split: prod.splits sum.splits)
  then show ?thesis using merge_answers_length by fastforce
qed

lemma live_target_ok:
  assumes "live_target env vanished mid d = Inr (m, entry)"
  shows "load_migration mid d = Some m" "mg_state m = ''running''" "load_entry (mg_registry m) d = Some entry"
  using assms by (auto simp: live_target_def split: option.splits if_splits)

lemma live_target_rest:
  assumes "live_target env vanished mid d = Inl d'"
  shows "d' = d \<or> (\<exists>msg. d' = fail_migration mid msg d) \<or>
    (\<exists>m entry reason. load_migration mid d = Some m \<and> load_entry (mg_registry m) d = Some entry \<and>
       d' = quarantine_entry entry reason d)"
proof (cases "load_migration mid d")
  case (Some m)
  show ?thesis
  proof (cases "load_entry (mg_registry m) d")
    case (Some entry)
    then show ?thesis
      using assms \<open>load_migration mid d = Some m\<close>
      by (cases "me_missing env entry []"; cases "me_missing env entry [mg_new_column m]")
         (auto simp: live_target_def split: if_splits)
  qed (use assms Some in \<open>auto simp: live_target_def split: if_splits\<close>)
qed (use assms in \<open>simp add: live_target_def\<close>)

lemma read_work_facts:
  assumes "read_migration_batch env render mid limit tables d = (Work b, d')"
  obtains m entry where "live_target env ''registry entry vanished'' mid d = Inr (m, entry)"
    "d' = d" "mb_migration b = m"
    "mb_pks b = map fst (read_rows env render limit m entry (tables (re_id entry)))"
    "mb_payloads b = map snd (read_rows env render limit m entry (tables (re_id entry)))"
    "read_rows env render limit m entry (tables (re_id entry)) \<noteq> []"
proof (cases "live_target env ''registry entry vanished'' mid d")
  case (Inr p)
  obtain m entry where p: "p = (m, entry)" by (cases p)
  have "d' = d \<and> mb_migration b = m \<and>
      mb_pks b = map fst (read_rows env render limit m entry (tables (re_id entry))) \<and>
      mb_payloads b = map snd (read_rows env render limit m entry (tables (re_id entry))) \<and>
      read_rows env render limit m entry (tables (re_id entry)) \<noteq> []"
    using assms Inr p by (auto simp: read_migration_batch_def Let_def split: sum.splits if_splits)
  with Inr p that show thesis by blast
qed (use assms in \<open>auto simp: read_migration_batch_def\<close>)

lemma read_rest_facts:
  assumes "read_migration_batch env render mid limit tables d = (r, d')" "r = Idle \<or> r = Finished"
  obtains (stopped) "live_target env ''registry entry vanished'' mid d = Inl d'"
    | (unresolved) msg where "d' = set_migration_error (me_now env) (me_backoff_ms env) mid msg d"
    | (finished) m entry where "live_target env ''registry entry vanished'' mid d = Inr (m, entry)"
        "read_rows env render limit m entry (tables (re_id entry)) = []"
        "d' = update_migration mid (\<lambda>m. mg_state m = ''running'')
                (\<lambda>m. m\<lparr>mg_state := ''awaiting_finalize'', mg_error := None\<rparr>) d"
proof (cases "live_target env ''registry entry vanished'' mid d")
  case (Inl d1)
  with assms stopped show thesis by (simp add: read_migration_batch_def)
next
  case (Inr p)
  obtain m entry where p: "p = (m, entry)" by (cases p)
  show thesis
  proof (cases "resolve_call env m")
    case (Inl e)
    have "d' = set_migration_error (me_now env) (me_backoff_ms env) mid
        (''resolve '' @ me_debug env (mg_new_model m) @ '': '' @ e) d"
      using assms(1) Inr p Inl by (simp add: read_migration_batch_def)
    then show thesis by (rule unresolved)
  next
    case (Inr call)
    then show thesis
      using assms \<open>live_target _ _ mid d = Inr p\<close> p finished
      by (auto simp: read_migration_batch_def Let_def split: if_splits)
  qed
qed

lemma read_rows_empty:
  fixes env :: "('f, 'c, 'k :: linorder) migrate_env"
  assumes "roomy env" "0 < limit" "read_rows env render limit m entry table = []"
    and r: "r \<in> set table" "wanted m entry r" "past_watermark (me_order env) (mg_last_pk m) r"
  shows "vr_new r \<noteq> None"
proof
  assume none: "vr_new r = None"
  let ?ok = "eligible (mg_kind m = ''reembed'') (is_recursive entry)"
  let ?rows = "scan_rows (me_order env) ?ok (mg_last_pk m) limit table"
  have "r \<in> set (filter (\<lambda>r. ?ok r \<and> past_watermark (me_order env) (mg_last_pk m) r) table)"
    using r none by (simp add: eligible_iff[of _ _ r])
  then have "r \<in> set (sort_key (\<lambda>r. me_order env (vr_key r))
      (filter (\<lambda>r. ?ok r \<and> past_watermark (me_order env) (mg_last_pk m) r) table))" by simp
  then have "?rows \<noteq> []"
    unfolding scan_rows_def using assms(2) by (auto simp del: set_sort)
  then show False
    using read_nonempty[of "me_item_cap env" "me_budget env" ?rows] assms(1,3)
    by (auto simp: read_rows_def roomy_def Let_def split: if_splits)
qed

lemma promised_cong:
  assumes "mg_kind m' = mg_kind m" "re_chunking entry' = re_chunking entry"
  shows "promised env m' entry' s r = promised env m entry s r"
  using assms by (simp add: promised_def is_recursive_def)

lemma promised_frame [simp]:
  "promised env m entry (s\<lparr>mr_db := d\<rparr>) r = promised env m entry s r"
  "promised env m entry (s\<lparr>mr_flight := f\<rparr>) r = promised env m entry s r"
  by (simp_all add: promised_def)

lemma flight_covers_none [simp]: "flight_covers env m entry (s\<lparr>mr_flight := None\<rparr>) r"
  by (simp add: flight_covers_def)

text \<open>
  A new control state with an unchanged table keeps the invariant when the migration row changes only in
  its bookkeeping or stops.
\<close>

lemma mig_inv_settle:
  assumes inv: "mig_inv env mid rid s"
    and mig: "\<And>m'. load_migration mid d = Some m' \<Longrightarrow>
      \<exists>m. load_migration mid (mr_db s) = Some m \<and> mg_registry m' = mg_registry m \<and> mg_kind m' = mg_kind m \<and>
        (is_live_state (mg_state m') \<longrightarrow> mg_state m' = mg_state m \<and> mg_last_pk m' = mg_last_pk m)"
    and entry: "\<And>e'. load_entry rid d = Some e' \<Longrightarrow>
      \<exists>e. load_entry rid (mr_db s) = Some e \<and> re_chunking e' = re_chunking e"
  shows "mig_inv env mid rid (s\<lparr>mr_db := d, mr_flight := None\<rparr>)"
  unfolding mig_inv_def
proof (intro conjI allI impI)
  show "flight_ok mid (s\<lparr>mr_db := d, mr_flight := None\<rparr>)" by (simp add: flight_ok_def)
  show "distinct (map (\<lambda>r. me_order env (vr_key r)) (mr_tables (s\<lparr>mr_db := d, mr_flight := None\<rparr>) rid))"
    using inv by (simp add: mig_inv_def)
next
  fix m' e'
  assume loads: "load_migration mid (mr_db (s\<lparr>mr_db := d, mr_flight := None\<rparr>)) = Some m' \<and>
    load_entry rid (mr_db (s\<lparr>mr_db := d, mr_flight := None\<rparr>)) = Some e'"
  obtain m where m: "load_migration mid (mr_db s) = Some m" "mg_registry m' = mg_registry m" "mg_kind m' = mg_kind m"
    "is_live_state (mg_state m') \<longrightarrow> mg_state m' = mg_state m \<and> mg_last_pk m' = mg_last_pk m"
    using mig loads by auto
  obtain e where e: "load_entry rid (mr_db s) = Some e" "re_chunking e' = re_chunking e"
    using entry loads by auto
  have old: "mg_registry m = rid"
    "mg_state m = ''running'' \<Longrightarrow> \<forall>r \<in> set (mr_tables s rid).
       \<not> past_watermark (me_order env) (mg_last_pk m) r \<longrightarrow> promised env m e s r"
    "mg_state m = ''awaiting_finalize'' \<Longrightarrow> \<forall>r \<in> set (mr_tables s rid). promised env m e s r"
    using inv m(1) e(1) by (auto simp: mig_inv_def)
  note cong = promised_cong[OF m(3) e(2), of env s]
  show "mg_registry m' = rid" using m(2) old(1) by simp
  show "\<forall>r \<in> set (mr_tables (s\<lparr>mr_db := d, mr_flight := None\<rparr>) rid).
      (\<not> past_watermark (me_order env) (mg_last_pk m') r \<longrightarrow> promised env m' e' (s\<lparr>mr_db := d, mr_flight := None\<rparr>) r) \<and>
      flight_covers env m' e' (s\<lparr>mr_db := d, mr_flight := None\<rparr>) r" if "mg_state m' = ''running''"
    using that m(4) old(2) by (simp add: is_live_state_def cong)
  show "\<forall>r \<in> set (mr_tables (s\<lparr>mr_db := d, mr_flight := None\<rparr>) rid). promised env m' e' (s\<lparr>mr_db := d, mr_flight := None\<rparr>) r"
    if "mg_state m' = ''awaiting_finalize''"
    using that m(4) old(3) by (simp add: is_live_state_def cong)
qed

lemma find_map_id:
  assumes "\<And>x. key (f x) = key x"
  shows "find (\<lambda>x. key x = i) (map f xs) = map_option f (find (\<lambda>x. key x = i) xs)"
  by (induction xs) (auto simp: assms)

lemma load_entry_quarantined:
  "load_entry i (quarantine_entry e reason d) =
     map_option (\<lambda>x. if re_id x = re_id e then x\<lparr>re_state := ''disabled''\<rparr> else x) (load_entry i d)"
  unfolding load_entry_def quarantine_entry_def by (simp, rule find_map_id) simp

lemma mig_inv_failed:
  assumes "mig_inv env mid rid s"
  shows "mig_inv env mid rid (s\<lparr>mr_db := fail_migration mid msg (mr_db s), mr_flight := None\<rparr>)"
  by (rule mig_inv_settle[OF assms])
     (auto simp: fail_migration_update is_live_state_def split: if_splits)

lemma mig_inv_soft:
  assumes "mig_inv env mid rid s"
  shows "mig_inv env mid rid (s\<lparr>mr_db := set_migration_error now backoff mid msg (mr_db s), mr_flight := None\<rparr>)"
  by (rule mig_inv_settle[OF assms]) (auto simp: set_migration_error_def split: if_splits)

lemma mig_inv_stopped:
  assumes inv: "mig_inv env mid rid s" and stop: "live_target env vanished mid (mr_db s) = Inl d"
  shows "mig_inv env mid rid (s\<lparr>mr_db := d, mr_flight := None\<rparr>)"
proof -
  consider "d = mr_db s" | msg where "d = fail_migration mid msg (mr_db s)"
    | m entry reason where "load_migration mid (mr_db s) = Some m"
        "load_entry (mg_registry m) (mr_db s) = Some entry" "d = quarantine_entry entry reason (mr_db s)"
    using live_target_rest[OF stop] by blast
  then show ?thesis
  proof cases
    case 1
    show ?thesis by (rule mig_inv_settle[OF inv]) (simp_all add: 1)
  next
    case 2
    then show ?thesis using mig_inv_failed[OF inv] by simp
  next
    case 3
    show ?thesis
      by (rule mig_inv_settle[OF inv])
         (auto simp: 3(3) load_quarantined load_entry_quarantined is_live_state_def split: if_splits)
  qed
qed

lemma mig_inv_read_work:
  assumes inv: "mig_inv env mid rid s"
    and read: "read_migration_batch env render mid limit (mr_tables s) (mr_db s) = (Work b, d)"
    and infer: "run_inference env b c = (Ok (Some results), c')"
  shows "mig_inv env mid rid (s\<lparr>mr_db := d, mr_flight := Some (b, results)\<rparr>)"
proof -
  obtain m entry where target: "live_target env ''registry entry vanished'' mid (mr_db s) = Inr (m, entry)"
    and b: "d = mr_db s" "mb_migration b = m"
      "mb_pks b = map fst (read_rows env render limit m entry (mr_tables s (re_id entry)))"
      "mb_payloads b = map snd (read_rows env render limit m entry (mr_tables s (re_id entry)))"
      "read_rows env render limit m entry (mr_tables s (re_id entry)) \<noteq> []"
    by (rule read_work_facts[OF read])
  note live = live_target_ok[OF target]
  have ids: "re_id entry = mg_registry m" "mg_id m = mid"
    using load_entry_id[OF live(3)] load_migration_id[OF live(1)] by auto
  have flight: "flight_covers env m e (s\<lparr>mr_db := d, mr_flight := Some (b, results)\<rparr>) r"
    if e: "load_entry rid (mr_db s) = Some e" and r: "r \<in> set (mr_tables s rid)" for e r
  proof -
    have "mg_registry m = rid" using inv live(1) e by (auto simp: mig_inv_def)
    then have e': "e = entry" "re_id entry = rid" using e live(3) ids(1) by auto
    have "vr_key r \<in> set (mb_pks b)"
      if "wanted m entry r" "vr_new r = None" "past_watermark (me_order env) (mg_last_pk m) r"
        "me_order env (vr_key r) \<le> me_order env (List.last (mb_pks b))"
      using read_rows_covers[OF refl b(5) _ _ that(1-3)] that(4) inv r e'(2) b(3) by (simp add: mig_inv_def)
    then show ?thesis by (auto simp: flight_covers_def b(2) e'(1))
  qed
  have ok: "flight_ok mid (s\<lparr>mr_db := d, mr_flight := Some (b, results)\<rparr>)"
    using run_inference_length[OF infer] b(5) by (simp add: flight_ok_def b(2-4) ids(2))
  show ?thesis
    using inv flight live(1,2) ok by (auto simp: mig_inv_def b(1))
qed

lemma mig_inv_finished:
  assumes inv: "mig_inv env mid rid s" and room: "roomy env" "0 < limit"
    and target: "live_target env ''registry entry vanished'' mid (mr_db s) = Inr (m, entry)"
    and rows: "read_rows env render limit m entry (mr_tables s (re_id entry)) = []"
    and d: "d = update_migration mid (\<lambda>m. mg_state m = ''running'')
              (\<lambda>m. m\<lparr>mg_state := ''awaiting_finalize'', mg_error := None\<rparr>) (mr_db s)"
  shows "mig_inv env mid rid (s\<lparr>mr_db := d, mr_flight := None\<rparr>)"
proof -
  note live = live_target_ok[OF target]
  have promised: "promised env m e s r" if e: "load_entry rid (mr_db s) = Some e" and r: "r \<in> set (mr_tables s rid)" for e r
  proof -
    have "mg_registry m = rid" using inv live(1) e by (auto simp: mig_inv_def)
    then have e': "e = entry" "re_id entry = rid" using e live(3) load_entry_id[OF live(3)] by auto
    show ?thesis
    proof (cases "past_watermark (me_order env) (mg_last_pk m) r")
      case True
      then show ?thesis
        using read_rows_empty[OF room rows _ _ True] r by (auto simp: promised_def e')
    next
      case False
      with inv live(1,2) e r show ?thesis by (auto simp: mig_inv_def)
    qed
  qed
  have loads: "load_migration mid d = Some (m\<lparr>mg_state := ''awaiting_finalize'', mg_error := None\<rparr>)"
    "load_entry rid d = load_entry rid (mr_db s)"
    using live(1,2) by (simp_all add: d)
  show ?thesis
    using inv live(1) promised
    by (auto simp: mig_inv_def loads promised_def is_recursive_def flight_ok_def)
qed

lemma vectors_of_key:
  "k \<in> set (map fst rows) \<Longrightarrow> k \<in> set (map fst (vectors_of show_f rows)) \<or> k \<in> skipped_keys rows"
proof (induction show_f rows rule: vectors_of.induct)
  case (2 show_f k' v rs)
  then show ?case by (auto simp: skipped_keys_def)
next
  case (3 show_f k' reason rs)
  then show ?case by (auto simp: skipped_keys_def)
qed simp

lemma write_new_frame [simp]:
  "vr_key (write_new vs r) = vr_key r" "vr_source (write_new vs r) = vr_source r" "vr_text (write_new vs r) = vr_text r"
  "vr_old (write_new vs r) = vr_old r"
  by (simp_all add: write_new_def split: option.splits)

lemma write_new_sets:
  "vr_new r \<noteq> None \<Longrightarrow> write_new vs r = r"
  "vr_key r \<in> set (map fst vs) \<Longrightarrow> vr_new (write_new vs r) \<noteq> None"
  by (auto simp: write_new_def map_of_eq_None_iff split: option.splits)

lemma wanted_write_new [simp]: "wanted m entry (write_new vs r) = wanted m entry r"
  by (simp add: eligible_def)

lemma mig_inv_write_back:
  assumes inv: "mig_inv env mid rid s" and flight: "mr_flight s = Some (b, results)"
    and app: "apply_migration_batch env b results (mr_tables s) (mr_db s) = (ap, tables, d)"
  shows "mig_inv env mid rid (s\<lparr>mr_db := d, mr_tables := tables, mr_flight := None,
           mr_skipped := mr_skipped s \<union> skipped_keys (zip (mb_pks b) results)\<rparr>)"
proof -
  have same: "mg_id (mb_migration b) = mid" and pks: "mb_pks b \<noteq> []" "length results = length (mb_pks b)"
    using inv flight by (auto simp: mig_inv_def flight_ok_def)
  show ?thesis
  proof (cases "live_target env ''registry entry vanished before migration write-back'' mid (mr_db s)")
    case (Inl d1)
    then have "tables = mr_tables s" "d = d1" using app same by (simp_all add: apply_migration_batch_def)
    with mig_inv_stopped[OF inv Inl] show ?thesis
      by (fastforce simp: mig_inv_def promised_def flight_covers_def flight_ok_def)
  next
    case (Inr p)
    obtain m entry where p: "p = (m, entry)" by (cases p)
    note live = live_target_ok[OF Inr[unfolded p]]
    let ?rows = "zip (mb_pks b) results"
    let ?vs = "vectors_of (me_show env) ?rows"
    let ?s = "s\<lparr>mr_db := d, mr_tables := tables, mr_flight := None, mr_skipped := mr_skipped s \<union> skipped_keys ?rows\<rparr>"
    have tables: "tables = (mr_tables s)(re_id entry := map (write_new ?vs) (mr_tables s (re_id entry)))"
      using app same Inr p by (simp add: apply_migration_batch_def Let_def)
    obtain m' where m': "load_migration mid d = Some m'" "mg_registry m' = mg_registry m" "mg_state m' = ''running''"
      "mg_kind m' = mg_kind m" "mg_last_pk m' = (if mb_pks b = [] then None else Some (List.last (mb_pks b)))"
      "load_entry rid d = load_entry rid (mr_db s)"
      using app same Inr p live(1,2) load_migration_id[OF live(1)]
      by (auto simp: apply_migration_batch_def Let_def)
    have keys: "map (\<lambda>r. me_order env (vr_key r)) (tables rid) = map (\<lambda>r. me_order env (vr_key r)) (mr_tables s rid)"
      by (simp add: tables comp_def)
    have main: "promised env m' e ?s r'"
      if e: "load_entry rid (mr_db s) = Some e" and r': "r' \<in> set (tables rid)"
        and below: "\<not> past_watermark (me_order env) (mg_last_pk m') r'" for e r'
    proof -
      have reg: "mg_registry m = rid" using inv live(1) e by (auto simp: mig_inv_def)
      then have e': "e = entry" "re_id entry = rid" using e live(3) load_entry_id[OF live(3)] by auto
      obtain r where r: "r \<in> set (mr_tables s rid)" "r' = write_new ?vs r"
        using r' by (auto simp: tables e'(2))
      have cover: "flight_covers env m entry s r"
        and old: "\<not> past_watermark (me_order env) (mg_last_pk m) r \<Longrightarrow> promised env m entry s r"
        using inv live(1,2) e e'(1) r(1) by (auto simp: mig_inv_def)
      show ?thesis
        unfolding promised_def
      proof (intro impI)
        assume w: "wanted m' e r' \<and> vr_key r' \<notin> mr_touched ?s"
        have w': "wanted m entry r" "vr_key r \<notin> mr_touched s"
          using w m'(4) by (simp_all add: r(2) e'(1))
        show "vr_new r' \<noteq> None \<or> vr_key r' \<in> mr_skipped ?s"
        proof (cases "vr_new r = None \<and> past_watermark (me_order env) (mg_last_pk m) r")
          case True
          have "me_order env (vr_key r) \<le> me_order env (List.last (mb_pks b))"
            using below m'(5) pks(1) by (simp add: past_watermark_def r(2))
          then have "vr_key r \<in> set (mb_pks b)"
            using cover flight True w' by (auto simp: flight_covers_def)
          then have "vr_key r \<in> set (map fst ?rows)" using pks(2) by (simp add: map_fst_zip)
          then show ?thesis
            using vectors_of_key[of "vr_key r" ?rows "me_show env"] write_new_sets(2)[of r ?vs] by (auto simp: r(2))
        next
          case False
          then show ?thesis
            using old w' write_new_sets(1)[of r ?vs] by (auto simp: promised_def r(2))
        qed
      qed
    qed
    show ?thesis
      unfolding mig_inv_def
    proof (intro conjI allI impI)
      show "flight_ok mid ?s" by (simp add: flight_ok_def)
      show "distinct (map (\<lambda>r. me_order env (vr_key r)) (mr_tables ?s rid))"
        using inv by (simp add: keys mig_inv_def)
    next
      fix n e assume "load_migration mid (mr_db ?s) = Some n \<and> load_entry rid (mr_db ?s) = Some e"
      then have ne: "n = m'" "load_entry rid (mr_db s) = Some e" using m'(1,6) by auto
      show "mg_registry n = rid" using inv live(1) ne m'(2) by (auto simp: mig_inv_def)
      show "\<forall>r \<in> set (mr_tables ?s rid). (\<not> past_watermark (me_order env) (mg_last_pk n) r \<longrightarrow> promised env n e ?s r) \<and>
          flight_covers env n e ?s r" if "mg_state n = ''running''"
        using main[OF ne(2)] by (simp add: ne(1) flight_covers_def)
      show "\<forall>r \<in> set (mr_tables ?s rid). promised env n e ?s r" if "mg_state n = ''awaiting_finalize''"
        using that m'(3) ne(1) by simp
    qed
  qed
qed

lemma mig_inv_others:
  assumes inv: "mig_inv env mid rid s"
    and same: "load_migration mid d = load_migration mid (mr_db s)"
      "map_option re_chunking (load_entry rid d) = map_option re_chunking (load_entry rid (mr_db s))"
    and keys: "distinct (map (\<lambda>r. me_order env (vr_key r)) (tables rid))"
    and rows: "\<forall>r \<in> set (tables rid). r \<in> set (mr_tables s rid) \<or> vr_key r \<in> touched" "mr_touched s \<subseteq> touched"
  shows "mig_inv env mid rid (s\<lparr>mr_db := d, mr_tables := tables, mr_touched := touched\<rparr>)"
  unfolding mig_inv_def
proof (intro conjI allI impI)
  let ?s = "s\<lparr>mr_db := d, mr_tables := tables, mr_touched := touched\<rparr>"
  show "flight_ok mid ?s" using inv by (simp add: mig_inv_def flight_ok_def)
  show "distinct (map (\<lambda>r. me_order env (vr_key r)) (mr_tables ?s rid))" using keys by simp
  fix m e' assume loads: "load_migration mid (mr_db ?s) = Some m \<and> load_entry rid (mr_db ?s) = Some e'"
  then obtain e where e: "load_entry rid (mr_db s) = Some e" "re_chunking e' = re_chunking e"
    using same(2) by (auto simp: map_option_case split: option.splits)
  have m: "load_migration mid (mr_db s) = Some m" using loads same(1) by simp
  have rec: "is_recursive e' = is_recursive e" by (simp add: is_recursive_def e(2))
  have promised: "promised env m e' ?s r" if "r \<in> set (tables rid)" "r \<in> set (mr_tables s rid) \<Longrightarrow> promised env m e s r" for r
    using that rows by (auto simp: promised_def rec)
  have covers: "flight_covers env m e' ?s r"
    if "r \<in> set (tables rid)" "r \<in> set (mr_tables s rid) \<Longrightarrow> flight_covers env m e s r" for r
  proof (cases "vr_key r \<in> touched")
    case False
    then have "r \<in> set (mr_tables s rid)" "vr_key r \<notin> mr_touched s" using rows that(1) by auto
    with that(2) show ?thesis by (auto simp: flight_covers_def rec split: option.splits)
  qed (simp add: flight_covers_def split: option.splits)
  show "mg_registry m = rid" using inv m e by (auto simp: mig_inv_def)
  show "\<forall>r \<in> set (mr_tables ?s rid). (\<not> past_watermark (me_order env) (mg_last_pk m) r \<longrightarrow> promised env m e' ?s r) \<and>
      flight_covers env m e' ?s r" if "mg_state m = ''running''"
    using that inv m e(1) promised covers by (auto simp: mig_inv_def)
  show "\<forall>r \<in> set (mr_tables ?s rid). promised env m e' ?s r" if "mg_state m = ''awaiting_finalize''"
    using that inv m e(1) promised by (auto simp: mig_inv_def)
qed

lemma mig_step_inv:
  assumes "mig_step env mid rid s s'" "roomy env" "mig_inv env mid rid s"
  shows "mig_inv env mid rid s'"
  using assms(1)
proof cases
  case (read_work render limit b d c results c')
  then show ?thesis using mig_inv_read_work[OF assms(3)] by blast
next
  case (read_rest render limit r d)
  show ?thesis
  proof (rule read_rest_facts[OF read_rest(2,4)], goal_cases)
    case 1
    then show ?thesis using mig_inv_stopped[OF assms(3)] read_rest(1) by blast
  next
    case (2 msg)
    then show ?thesis using mig_inv_soft[OF assms(3)] read_rest(1) by blast
  next
    case (3 m entry)
    then show ?thesis using mig_inv_finished[OF assms(3,2) read_rest(3)] read_rest(1) by blast
  qed
next
  case (write_back b results ap tables d)
  then show ?thesis using mig_inv_write_back[OF assms(3)] by blast
next
  case soft_failure
  then show ?thesis using mig_inv_soft[OF assms(3)] by blast
next
  case hard_failure
  then show ?thesis using mig_inv_failed[OF assms(3)] by blast
next
  case (others d tables touched)
  then show ?thesis using mig_inv_others[OF assms(3)] by blast
qed

lemma mig_steps_inv:
  assumes "(mig_step env mid rid)\<^sup>*\<^sup>* s s'" "roomy env" "mig_inv env mid rid s"
  shows "mig_inv env mid rid s'"
  using assms by (induction rule: rtranclp_induct) (auto intro: mig_step_inv)

definition fresh_run :: "('f, 'c, 'k :: linorder) migrate_env \<Rightarrow> int \<Rightarrow> int \<Rightarrow> ('f, 'c) mig_run \<Rightarrow> bool" where
  "fresh_run env mid rid s \<longleftrightarrow>
     mr_flight s = None \<and> distinct (map (\<lambda>r. me_order env (vr_key r)) (mr_tables s rid)) \<and>
     (case load_migration mid (mr_db s) of
        None \<Rightarrow> False
      | Some m \<Rightarrow> mg_registry m = rid \<and> mg_state m = ''running'' \<and> mg_last_pk m = None)"

lemma fresh_run_inv: "fresh_run env mid rid s \<Longrightarrow> mig_inv env mid rid s"
  by (auto simp: fresh_run_def mig_inv_def flight_ok_def flight_covers_def past_watermark_def split: option.splits)

text \<open>
  C3. No row is left behind. However the driver's reads, write-backs and failures interleave with other
  sessions that insert, change and delete rows: when the migration has reached \<open>awaiting_finalize\<close>, every
  row it wants (with an old vector to convert, or a text to embed) that nobody else touched meanwhile
  has its new vector or was left out by the driver for a stated reason.
\<close>
theorem migration_leaves_no_row_behind:
  assumes "fresh_run env mid rid s" "roomy env"
    and "(mig_step env mid rid)\<^sup>*\<^sup>* s s'"
    and "load_migration mid (mr_db s') = Some m" "mg_state m = ''awaiting_finalize''"
    and "load_entry rid (mr_db s') = Some entry"
    and "r \<in> set (mr_tables s' rid)" "wanted m entry r" "vr_key r \<notin> mr_touched s'"
  shows "vr_new r \<noteq> None \<or> vr_key r \<in> mr_skipped s'"
proof -
  have "mig_inv env mid rid s'"
    by (rule mig_steps_inv[OF assms(3,2) fresh_run_inv[OF assms(1)]])
  then have "promised env m entry s' r" using assms(4-7) by (auto simp: mig_inv_def)
  then show ?thesis using assms(8,9) by (simp add: promised_def)
qed

section \<open>Every sent payload gets its answer\<close>

lemma oks_simps [simp]:
  "oks [] = []" "oks (Inl e # xs) = oks xs" "oks (Inr a # xs) = a # oks xs"
  by (simp_all add: oks_def List.map_filter_simps)

lemma merge_answers_total: "length outs = length (oks ps) \<Longrightarrow> merge_answers ps outs \<noteq> None"
  by (induction ps outs rule: merge_answers.induct) auto

lemma reembed_chunks_length:
  "reembed_chunks emb display c chunks = (Ok outs, c') \<Longrightarrow> length outs = length (concat chunks)"
proof (induction emb display c chunks arbitrary: outs c' rule: reembed_chunks.induct)
  case (2 emb display c chunk chunks)
  obtain r c1 where one: "bisect_embed emb display c chunk = (r, c1)" by (cases "bisect_embed emb display c chunk")
  obtain r2 c2 where two: "reembed_chunks emb display c1 chunks = (r2, c2)"
    by (cases "reembed_chunks emb display c1 chunks")
  from 2(2) one two obtain out out2 where "r = Ok out" "r2 = Ok out2" "outs = out @ out2"
    by (auto split: sum.splits)
  then show ?case using bisect_length[of emb display c chunk out c1] 2(1) one two by auto
qed simp

lemma convert_with_split_length:
  "convert_with_split conv depth c vecs = (Ok out, c') \<Longrightarrow> length out = length vecs"
proof (induction depth arbitrary: c vecs out c')
  case 0
  then show ?case
    by (auto simp: convert_with_split.simps[of conv 0 c vecs] split: prod.splits sum.splits if_splits)
next
  case (Suc depth)
  obtain r c1 where ask: "conv c vecs = (r, c1)" by (cases "conv c vecs")
  show ?case
  proof (cases r)
    case (Inr v)
    with Suc(2) ask show ?thesis by (auto simp: convert_with_split.simps[of conv "Suc depth" c vecs] split: if_splits)
  next
    case (Inl e)
    let ?mid = "length vecs div 2"
    obtain r1 c2 where left: "convert_with_split conv depth c1 (take ?mid vecs) = (r1, c2)"
      by (cases "convert_with_split conv depth c1 (take ?mid vecs)")
    obtain r2 c3 where right: "convert_with_split conv depth c2 (drop ?mid vecs) = (r2, c3)"
      by (cases "convert_with_split conv depth c2 (drop ?mid vecs)")
    obtain o1 o2 where outs: "r1 = Ok o1" "r2 = Ok o2" "out = o1 @ o2"
      using Suc(2) ask Inl left right
      by (auto simp: convert_with_split.simps[of conv "Suc depth" c vecs] Let_def split: sum.splits if_splits)
    have "length o1 = length (take ?mid vecs)" using Suc.IH left outs(1) by blast
    moreover have "length o2 = length (drop ?mid vecs)" using Suc.IH right outs(2) by blast
    ultimately show ?thesis by (simp add: outs(3))
  qed
qed

lemma convert_chunks_length:
  "convert_chunks conv c chunks = (Ok outs, c') \<Longrightarrow> length outs = length (concat chunks)"
proof (induction conv c chunks arbitrary: outs c' rule: convert_chunks.induct)
  case (2 conv c chunk chunks)
  obtain r c1 where one: "convert_with_split conv 3 c chunk = (r, c1)" by (cases "convert_with_split conv 3 c chunk")
  obtain r2 c2 where two: "convert_chunks conv c1 chunks = (r2, c2)" by (cases "convert_chunks conv c1 chunks")
  from 2(2) one two obtain out out2 where "r = Ok out" "r2 = Ok out2" "outs = out @ out2"
    by (auto split: sum.splits)
  then show ?case using convert_with_split_length[of conv 3 c chunk out c1] 2(1) one two by auto
qed simp

lemma chunks_of_concat: "concat (chunks_of n xs) = xs"
proof (induction n xs rule: chunks_of.induct)
  case (2 n x xs)
  then show ?case by (simp add: append_take_drop_id del: take_Cons' drop_Cons') 
qed simp

lemma run_inference_answers:
  assumes "run_inference env b c = (Ok x, c')"
  shows "x \<noteq> None"
proof (cases "mb_embed_call b")
  case None
  let ?parsed = "map (parse_payload env) (mb_payloads b)"
  let ?chunks = "chunks_of (max_items_for_dim (max (mg_new_dim (mb_migration b)) (mg_old_dim (mb_migration b)))) (oks ?parsed)"
  obtain outs c1 where outs: "convert_chunks (me_convert env (convert_target (mb_migration b))) c ?chunks = (Ok outs, c1)"
    and x: "x = map_option (map (check_row (me_is_finite env) (mg_new_dim (mb_migration b))))
      (merge_answers ?parsed (map Inr outs))"
    using assms None by (auto simp: run_inference_def Let_def split: prod.splits sum.splits)
  have "length (map Inr outs :: (string + _) list) = length (oks ?parsed)"
    using convert_chunks_length[OF outs] by (simp add: chunks_of_concat)
  from merge_answers_total[OF this] show ?thesis by (simp add: x)
next
  case (Some emb)
  let ?texts = "oks (mb_payloads b)"
  obtain outs c1 where outs: "reembed_chunks emb (me_display env) c
      (request_chunks ?texts (mg_new_dim (mb_migration b))) = (Ok outs, c1)"
    and x: "x = map_option (map (check_row (me_is_finite env) (mg_new_dim (mb_migration b))))
      (merge_answers (mb_payloads b) outs)"
    using assms Some by (auto simp: run_inference_def Let_def split: prod.splits sum.splits)
  have "length outs = length ?texts"
    using reembed_chunks_length[OF outs] by (simp add: request_chunks_concat)
  from merge_answers_total[OF this] show ?thesis by (simp add: x)
qed

section \<open>A quiet migration completes\<close>

text \<open>
  Passes over one migration with nobody else writing. A quiet pass has no aborted transaction, finds the
  table and its columns in place, resolves the model, and its client answers every request (with
  whatever vectors or poison verdicts).
\<close>

fun drain_passes ::
  "('f, 'c, 'k :: linorder) drain_env \<Rightarrow> int \<Rightarrow> nat \<Rightarrow> 'c \<Rightarrow> counters \<Rightarrow> (int \<Rightarrow> vec_row list) \<Rightarrow> db
   \<Rightarrow> (int \<Rightarrow> vec_row list) \<times> db" where
  "drain_passes dn mid 0 c ct tables d = (tables, d)"
| "drain_passes dn mid (Suc n) c ct tables d =
     (case drain_one dn mid c ct tables d of (_, c, ct, tables, d) \<Rightarrow> drain_passes dn mid n c ct tables d)"

text \<open>A client that answers: one vector per item, or, for texts, the verdict that some text is at fault.\<close>

definition embed_answers :: "('c \<Rightarrow> string list \<Rightarrow> (pv_error + 'f list list) \<times> 'c) \<Rightarrow> bool" where
  "embed_answers emb \<longleftrightarrow>
     (\<forall>c texts. case fst (emb c texts) of
        Inr vecs \<Rightarrow> length vecs = length texts
      | Inl e \<Rightarrow> error_class_of e = PoisonRow)"

definition convert_answers :: "('c \<Rightarrow> 'f list list \<Rightarrow> (pv_error + 'f list list) \<times> 'c) \<Rightarrow> bool" where
  "convert_answers conv \<longleftrightarrow>
     (\<forall>c vecs. case fst (conv c vecs) of Inr out \<Rightarrow> length out = length vecs | Inl _ \<Rightarrow> False)"

definition quiet :: "('f, 'c, 'k) drain_env \<Rightarrow> int \<Rightarrow> bool" where
  "quiet dn mid \<longleftrightarrow>
     dn_read_abort dn mid = None \<and> dn_apply_abort dn mid = None \<and> 0 < dn_limit dn \<and> roomy (dn_env dn) \<and>
     (\<forall>e cols. me_missing (dn_env dn) e cols = None) \<and>
     (\<forall>model space. case me_resolve (dn_env dn) model space of Inr emb \<Rightarrow> embed_answers emb | Inl _ \<Rightarrow> False) \<and>
     (\<forall>model. convert_answers (me_convert (dn_env dn) model))"

lemma bisect_embed_answered:
  assumes "embed_answers emb"
  shows "\<exists>outs c'. bisect_embed emb display c texts = (Ok outs, c')"
proof (induction "length texts" arbitrary: c texts rule: less_induct)
  case less
  obtain r c1 where r: "emb c texts = (r, c1)" by force
  have answer: "case r of Inr vecs \<Rightarrow> length vecs = length texts | Inl e \<Rightarrow> error_class_of e = PoisonRow"
    using assms r unfolding embed_answers_def by (metis fst_conv)
  show ?case
  proof (cases "length texts < 2 \<or> (\<exists>vecs. r = Inr vecs)")
    case True
    then consider "texts = []" | "length texts = 1" | vecs where "texts \<noteq> []" "r = Inr vecs"
      by (cases texts) (auto simp: Suc_le_eq)
    then show ?thesis
      using answer r by cases (subst bisect_embed.simps, auto split: sum.splits)+
  next
    case False
    then obtain e where e: "r = Inl e" "error_class_of e = PoisonRow" using answer by (cases r) auto
    let ?mid = "length texts div 2"
    have mid: "?mid < length texts" "length texts - ?mid < length texts" using False by auto
    obtain o1 c2 where left: "bisect_embed emb display c1 (take ?mid texts) = (Ok o1, c2)"
      using less[of "take ?mid texts" c1] mid by auto
    obtain o2 c3 where right: "bisect_embed emb display c2 (drop ?mid texts) = (Ok o2, c3)"
      using less[of "drop ?mid texts" c2] mid by auto
    show ?thesis
      using False e left right by (subst bisect_embed.simps) (auto simp: r Let_def)
  qed
qed

lemma reembed_chunks_answered:
  assumes "embed_answers emb"
  shows "\<exists>outs c'. reembed_chunks emb display c chunks = (Ok outs, c')"
proof (induction chunks arbitrary: c)
  case (Cons chunk chunks)
  obtain outs c1 where one: "bisect_embed emb display c chunk = (Ok outs, c1)" using bisect_embed_answered[OF assms] by blast
  obtain outs2 c2 where "reembed_chunks emb display c1 chunks = (Ok outs2, c2)" using Cons by blast
  with one show ?case by simp
qed simp

lemma convert_chunks_answered:
  assumes "convert_answers conv"
  shows "\<exists>outs c'. convert_chunks conv c chunks = (Ok outs, c')"
proof (induction chunks arbitrary: c)
  case (Cons chunk chunks)
  obtain r c1 where r: "conv c chunk = (r, c1)" by force
  have "case r of Inr out \<Rightarrow> length out = length chunk | Inl _ \<Rightarrow> False"
    using assms r unfolding convert_answers_def by (metis fst_conv)
  then have "\<exists>out. convert_with_split conv 3 c chunk = (Ok out, c1)"
    by (subst convert_with_split.simps) (auto simp: r split: sum.splits)
  then obtain out where one: "convert_with_split conv 3 c chunk = (Ok out, c1)" ..
  obtain out2 c2 where "convert_chunks conv c1 chunks = (Ok out2, c2)" using Cons by blast
  with one show ?case by simp
qed simp

lemma quiet_resolves:
  assumes "quiet dn mid"
  shows "\<exists>call. resolve_call (dn_env dn) m = Ok call \<and> (case call of Some emb \<Rightarrow> embed_answers emb | None \<Rightarrow> True)"
proof -
  have "case me_resolve (dn_env dn) (mg_new_model m) (mg_space m) of Inr emb \<Rightarrow> embed_answers emb | Inl _ \<Rightarrow> False"
    using assms unfolding quiet_def by blast
  then show ?thesis by (auto simp: resolve_call_def split: sum.splits)
qed

lemma quiet_infers:
  assumes "quiet dn mid" "case mb_embed_call b of Some emb \<Rightarrow> embed_answers emb | None \<Rightarrow> True"
  shows "\<exists>x c'. run_inference (dn_env dn) b c = (Ok x, c')"
proof (cases "mb_embed_call b")
  case (Some emb)
  then obtain outs c' where "reembed_chunks emb (me_display (dn_env dn)) c
      (request_chunks (oks (mb_payloads b)) (mg_new_dim (mb_migration b))) = (Ok outs, c')"
    using assms(2) reembed_chunks_answered[of emb] by (metis option.case(2))
  with Some show ?thesis by (simp add: run_inference_def Let_def)
next
  case None
  let ?m = "mb_migration b"
  have conv: "convert_answers (me_convert (dn_env dn) (convert_target ?m))" using assms(1) unfolding quiet_def by blast
  obtain outs c' where "convert_chunks (me_convert (dn_env dn) (convert_target ?m)) c
      (chunks_of (max_items_for_dim (max (mg_new_dim ?m) (mg_old_dim ?m))) (oks (map (parse_payload (dn_env dn)) (mb_payloads b))))
      = (Ok outs, c')"
    using convert_chunks_answered[OF conv] by metis
  with None show ?thesis by (simp add: run_inference_def Let_def)
qed

definition rows_left :: "(string \<Rightarrow> 'k :: linorder) \<Rightarrow> string option \<Rightarrow> vec_row list \<Rightarrow> nat" where
  "rows_left ordk wm table = length (filter (past_watermark ordk wm) table)"

lemma live_target_quiet:
  assumes "quiet dn mid" "load_migration mid d = Some m" "mg_state m = ''running''"
    and "load_entry (mg_registry m) d = Some entry"
  shows "live_target (dn_env dn) v mid d = Inr (m, entry)"
  using assms by (simp add: live_target_def quiet_def)

lemma rows_left_write_new [simp]: "rows_left ordk wm (map (write_new vs) table) = rows_left ordk wm table"
  by (simp add: rows_left_def filter_map past_watermark_def comp_def cong: filter_cong split: option.splits)

lemma rows_left_decreases:
  assumes "r \<in> set table" "past_watermark ordk wm r"
  shows "rows_left ordk (Some (vr_key r)) table < rows_left ordk wm table"
proof -
  have below: "past_watermark ordk wm x" if "past_watermark ordk (Some (vr_key r)) x" for x
    using that assms(2) by (auto simp: past_watermark_def split: option.splits)
  have "filter (past_watermark ordk (Some (vr_key r))) table =
      filter (past_watermark ordk (Some (vr_key r))) (filter (past_watermark ordk wm) table)"
    using below by (auto intro!: filter_cong)
  moreover have "r \<in> set (filter (past_watermark ordk wm) table)" "\<not> past_watermark ordk (Some (vr_key r)) r"
    using assms by (auto simp: past_watermark_def)
  ultimately show ?thesis
    unfolding rows_left_def using length_filter_less by metis
qed

lemma read_rows_last:
  fixes env :: "('f, 'c, 'k :: linorder) migrate_env"
  assumes "read_rows env render limit m entry table \<noteq> []"
  obtains r where "r \<in> set table" "past_watermark (me_order env) (mg_last_pk m) r"
    "List.last (map fst (read_rows env render limit m entry table)) = vr_key r"
proof -
  let ?ok = "eligible (mg_kind m = ''reembed'') (is_recursive entry)"
  let ?scan = "scan_rows (me_order env) ?ok (mg_last_pk m) limit table"
  let ?rows = "read_rows env render limit m entry table"
  obtain n where n: "map fst ?rows = take n (map vr_key ?scan)"
    using read_rows_prefix[of env render limit m entry table] by blast
  have "map fst ?rows \<noteq> []" using assms by simp
  then have "List.last (map fst ?rows) \<in> set (take n (map vr_key ?scan))" unfolding n by (rule last_in_set)
  then have "List.last (map fst ?rows) \<in> vr_key ` set ?scan"
    using set_take_subset[of n "map vr_key ?scan"] by (simp only: set_map) blast
  then obtain r where "r \<in> set ?scan" "List.last (map fst ?rows) = vr_key r" by (elim imageE)
  moreover have "set ?scan \<subseteq> {r \<in> set table. past_watermark (me_order env) (mg_last_pk m) r}"
    by (auto simp: scan_rows_def dest: in_set_takeD)
  ultimately show thesis using that by blast
qed

lemma quiet_pass:
  fixes dn :: "('f, 'c, 'k :: linorder) drain_env"
  assumes quiet: "quiet dn mid" and run: "load_migration mid d = Some m" "mg_state m = ''running''"
    "load_entry (mg_registry m) d = Some entry"
    and pass: "drain_one dn mid c ct tables d = (did, c', ct', tables', d')"
  shows "(\<exists>m'. load_migration mid d' = Some m' \<and> mg_state m' = ''awaiting_finalize'') \<or>
    (\<exists>m'. load_migration mid d' = Some m' \<and> mg_state m' = ''running'' \<and> mg_registry m' = mg_registry m \<and>
       load_entry (mg_registry m) d' = Some entry \<and>
       rows_left (me_order (dn_env dn)) (mg_last_pk m') (tables' (mg_registry m)) <
       rows_left (me_order (dn_env dn)) (mg_last_pk m) (tables (mg_registry m)))"
proof -
  let ?env = "dn_env dn" and ?rid = "mg_registry m"
  note target = live_target_quiet[OF quiet run]
  have rid: "re_id entry = ?rid" "mg_id m = mid" using load_entry_id[OF run(3)] load_migration_id[OF run(1)] by auto
  obtain call where call: "resolve_call ?env m = Ok call" "case call of Some emb \<Rightarrow> embed_answers emb | None \<Rightarrow> True"
    using quiet_resolves[OF quiet] by blast
  let ?rows = "read_rows ?env (dn_render dn mid) (dn_limit dn) m entry (tables ?rid)"
  show ?thesis
  proof (cases "?rows = []")
    case True
    then have "d' = update_migration mid (\<lambda>m. mg_state m = ''running'')
        (\<lambda>m. m\<lparr>mg_state := ''awaiting_finalize'', mg_error := None\<rparr>) d"
      using pass quiet by (simp add: drain_one_def Let_def read_migration_batch_def target call(1) rid quiet_def)
    then show ?thesis using run by simp
  next
    case False
    define b where "b = \<lparr>mb_migration = m, mb_entry = entry, mb_pks = map fst ?rows,
      mb_payloads = map snd ?rows, mb_embed_call = call\<rparr>"
    have "\<exists>x c1. run_inference ?env b c = (Ok x, c1)"
      by (rule quiet_infers[OF quiet]) (simp add: b_def call(2))
    then obtain x c1 where answer: "run_inference ?env b c = (Ok x, c1)" by blast
    then obtain results where "x = Some results" using run_inference_answers[OF answer] by blast
    with answer have infer: "run_inference ?env b c = (Ok (Some results), c1)" by simp
    have read: "read_migration_batch ?env (dn_render dn mid) mid (dn_limit dn) tables d = (Work b, d)"
      using False by (simp add: read_migration_batch_def target call(1) rid b_def Let_def)
    let ?vs = "vectors_of (me_show ?env) (zip (mb_pks b) results)"
    have pks: "mb_pks b \<noteq> []" using False by (simp add: b_def)
    obtain m' where m': "load_migration mid d' = Some m'" "mg_state m' = ''running''" "mg_registry m' = ?rid"
      "mg_last_pk m' = Some (List.last (mb_pks b))" "load_entry ?rid d' = Some entry"
      "tables' ?rid = map (write_new ?vs) (tables ?rid)"
    proof -
      have calm: "dn_read_abort dn mid = None" "dn_apply_abort dn mid = None" using quiet by (simp_all add: quiet_def)
      have bm: "mb_migration b = m" by (simp add: b_def)
      have "\<exists>m'. load_migration mid d' = Some m' \<and> mg_state m' = ''running'' \<and> mg_registry m' = ?rid \<and>
          mg_last_pk m' = Some (List.last (mb_pks b)) \<and> load_entry ?rid d' = Some entry \<and>
          tables' ?rid = map (write_new ?vs) (tables ?rid)"
        using pass run pks
        by (auto simp: drain_one_def Let_def read infer calm apply_migration_batch_def target rid bm)
      then show thesis using that by blast
    qed
    obtain r where r: "r \<in> set (tables ?rid)" "past_watermark (me_order ?env) (mg_last_pk m) r"
      "List.last (mb_pks b) = vr_key r"
      using read_rows_last[OF False] by (auto simp: b_def)
    have "rows_left (me_order ?env) (mg_last_pk m') (tables' ?rid) < rows_left (me_order ?env) (mg_last_pk m) (tables ?rid)"
      using rows_left_decreases[OF r(1,2)] by (simp add: m'(4,6) r(3))
    with m' show ?thesis by auto
  qed
qed

lemma idle_pass:
  assumes "load_migration mid d = Some m" "mg_state m = ''awaiting_finalize''" "dn_read_abort dn mid = None"
  shows "drain_one dn mid c ct tables d = (False, c, ct, tables, d)"
  using assms by (simp add: drain_one_def read_migration_batch_def live_target_def)

text \<open>
  C34. A migration finishes: with nobody else writing and a client that answers, a migration that starts
  at the top of the table has reached \<open>awaiting_finalize\<close> after at most one pass per row and one more,
  whatever the batch size, the byte budget and the verdicts on single rows.
\<close>
theorem quiet_migration_completes:
  assumes "quiet dn mid" "load_migration mid d = Some m" "mg_state m = ''running''"
    and "load_entry (mg_registry m) d = Some entry" "length (tables (mg_registry m)) < n"
  shows "map_option mg_state (load_migration mid (snd (drain_passes dn mid n c ct tables d))) = Some ''awaiting_finalize''"
proof -
  have stay: "snd (drain_passes dn mid n c ct tables d) = d"
    if "load_migration mid d = Some m" "mg_state m = ''awaiting_finalize''" for n c ct tables d m
    using that assms(1)
    by (induction n arbitrary: c ct) (simp_all add: idle_pass quiet_def)
  have reach: "map_option mg_state (load_migration mid (snd (drain_passes dn mid n c ct tables d))) = Some ''awaiting_finalize''"
    if "load_migration mid d = Some m" "mg_state m = ''running''" "load_entry (mg_registry m) d = Some entry"
      "rows_left (me_order (dn_env dn)) (mg_last_pk m) (tables (mg_registry m)) < n" for n c ct tables d m
    using that
  proof (induction n arbitrary: c ct tables d m)
    case (Suc n)
    obtain did c1 ct1 tables1 d1 where pass: "drain_one dn mid c ct tables d = (did, c1, ct1, tables1, d1)"
      by (metis prod_cases5)
    from quiet_pass[OF assms(1) Suc.prems(1-3) pass] show ?case
    proof (elim disjE exE conjE)
      fix m' assume "load_migration mid d1 = Some m'" "mg_state m' = ''awaiting_finalize''"
      then show ?thesis using stay[of d1 m'] by (simp add: pass)
    next
      fix m' assume m': "load_migration mid d1 = Some m'" "mg_state m' = ''running''" "mg_registry m' = mg_registry m"
        "load_entry (mg_registry m) d1 = Some entry"
        "rows_left (me_order (dn_env dn)) (mg_last_pk m') (tables1 (mg_registry m)) <
         rows_left (me_order (dn_env dn)) (mg_last_pk m) (tables (mg_registry m))"
      then show ?thesis using Suc.IH[of d1 m' tables1 c1 ct1] Suc.prems(4) by (simp add: pass)
    qed
  qed simp
  have "rows_left (me_order (dn_env dn)) (mg_last_pk m) (tables (mg_registry m)) < n"
    using assms(5) le_less_trans[OF length_filter_le] by (simp add: rows_left_def)
  then show ?thesis by (rule reach[OF assms(2-4)])
qed

section \<open>Abort\<close>

lemma load_entry_set_entry:
  assumes "\<And>e. re_id (f e) = re_id e"
  shows "load_entry i (set_entry i f d) = map_option f (load_entry i d)"
proof -
  have "find (\<lambda>e. re_id e = i) (map (\<lambda>e. if re_id e = i then f e else e) es) = map_option f (find (\<lambda>e. re_id e = i) es)" for es
    by (induction es) (auto simp: assms)
  then show ?thesis by (simp add: load_entry_def set_entry_def)
qed

text \<open>What a successful abort found and did.\<close>

lemma abort_effect:
  assumes "migration_abort ve chunk_ref mid d0 tables d = Ok (tables', d')"
  obtains m entry jobs where "load_migration mid d = Some m" "is_abortable (mg_state m)" "load_entry (mg_registry m) d = Some entry"
    "requeue_jobs ve chunk_ref entry (mg_new_column m) (tables (re_id entry)) = Ok jobs"
    "tables' = tables(re_id entry := map (\<lambda>r. r\<lparr>vr_new := None\<rparr>) (tables (re_id entry)))"
    "d' = set_migration_state mid ''aborted'' (set_entry (re_id entry) (\<lambda>e. e\<lparr>re_state := ''active''\<rparr>) (fold insert_pending jobs d))"
proof -
  obtain m0 entry0 where first: "load_migration mid d0 = Some m0" "load_entry (mg_registry m0) d0 = Some entry0"
    using assms by (auto simp: migration_abort_def split: option.splits)
  have "ve_owner ve (re_table_schema entry0) (re_table_name entry0)" "is_abortable (mg_state m0)"
    using assms first by (auto simp: migration_abort_def split: if_splits)
  then show thesis
    using assms first that by (auto simp: migration_abort_def Let_def split: option.splits if_splits sum.splits)
qed

lemma requeue_jobs_pending:
  "requeue_jobs ve chunk_ref entry column table = Ok jobs \<Longrightarrow> list_all is_pending jobs"
  by (auto simp: requeue_jobs_def List.map_filter_def list_all_iff requeue_row_def is_pending_def Let_def split: if_splits)

text \<open>The keys of the rows that an abort has to queue again.\<close>

definition requeued_keys ::
  "verb_env \<Rightarrow> (vec_row \<Rightarrow> string \<times> int) \<Rightarrow> registry_entry \<Rightarrow> string \<Rightarrow> vec_row list \<Rightarrow> (int \<times> job_op \<times> string \<times> int option) set" where
  "requeued_keys ve chunk_ref entry column table =
     (if re_trigger_mode entry = ''none'' then {}
      else if is_recursive entry
      then {(re_id entry, EmbedOp, fst (chunk_ref r), Some (snd (chunk_ref r))) | r. r \<in> set table \<and> vr_old r = None}
      else {(re_id entry, EmbedOp, vr_key r, None) | r. r \<in> set table \<and> vr_source r \<and>
              (vr_new r \<noteq> None \<or> \<not> ve_has_column ve entry column)})"

lemma image_map_filter:
  fixes f :: "'a \<Rightarrow> 'b option" and g :: "'b \<Rightarrow> 'c"
  shows "g ` set (List.map_filter f xs) = {k. \<exists>r \<in> set xs. map_option g (f r) = Some k}"
proof (induction xs)
  case (Cons x xs)
  then show ?case by (cases "f x") auto
qed simp

lemma requeue_jobs_keys:
  assumes "requeue_jobs ve chunk_ref entry column table = Ok jobs"
  shows "job_key ` set jobs = requeued_keys ve chunk_ref entry column table"
proof (cases "re_trigger_mode entry = ''none''")
  case False
  then have jobs: "jobs = List.map_filter (requeue_row (ve_now ve) entry chunk_ref (ve_has_column ve entry column)) table"
    using assms by (simp add: requeue_jobs_def)
  let ?row = "requeue_row (ve_now ve) entry chunk_ref (ve_has_column ve entry column)"
  have keys: "job_key ` set jobs = {k. \<exists>r \<in> set table. map_option job_key (?row r) = Some k}"
    unfolding jobs by (rule image_map_filter)
  have "map_option job_key (?row r) =
      (if is_recursive entry
       then (if vr_old r = None then Some (re_id entry, EmbedOp, fst (chunk_ref r), Some (snd (chunk_ref r))) else None)
       else if vr_source r \<and> (vr_new r \<noteq> None \<or> \<not> ve_has_column ve entry column)
       then Some (re_id entry, EmbedOp, vr_key r, None) else None)" for r
    by (auto simp: requeue_row_def Let_def job_key_def)
  then show ?thesis using False unfolding keys requeued_keys_def by (auto split: if_splits)
qed (use assms in \<open>simp add: requeue_jobs_def requeued_keys_def\<close>)

text \<open>
  C35. Aborting loses no write of an entry with triggers. A write during the migration reached only the
  new column, which a successful \<open>migration_abort\<close> drops; afterwards the pending keys are exactly those
  from before and those of the rows to embed again for the original model. In column mode these are the
  rows with a source text whose new column holds a vector (all rows with a source text if the column was
  dropped by hand); in a chunk table the chunks without an old vector; and for an observed entry, which
  has no triggers, none. No queued job and no dead letter is lost, the old vectors and the other entries'
  tables are as they were, the entry is active again with its old model, and the migration is aborted.
\<close>
theorem abort_requeues_lost_writes:
  assumes "migration_abort ve chunk_ref mid d0 tables d = Ok (tables', d')"
    and "load_migration mid d = Some m" "load_entry (mg_registry m) d = Some entry" "queue_inv d"
  shows "set (pending_keys (db_jobs d')) = set (pending_keys (db_jobs d)) \<union>
      requeued_keys ve chunk_ref entry (mg_new_column m) (tables (re_id entry)) \<and>
    set (db_jobs d) \<subseteq> set (db_jobs d') \<and> db_dead d' = db_dead d \<and>
    tables' = tables(re_id entry := map (\<lambda>r. r\<lparr>vr_new := None\<rparr>) (tables (re_id entry))) \<and>
    load_entry (re_id entry) d' = Some (entry\<lparr>re_state := ''active''\<rparr>) \<and>
    map_option mg_state (load_migration mid d') = Some ''aborted''"
proof -
  obtain jobs where jobs: "requeue_jobs ve chunk_ref entry (mg_new_column m) (tables (re_id entry)) = Ok jobs"
    and tables': "tables' = tables(re_id entry := map (\<lambda>r. r\<lparr>vr_new := None\<rparr>) (tables (re_id entry)))"
    and d': "d' = set_migration_state mid ''aborted''
      (set_entry (re_id entry) (\<lambda>e. e\<lparr>re_state := ''active''\<rparr>) (fold insert_pending jobs d))"
    by (rule abort_effect[OF assms(1)]) (use assms(2,3) in simp)
  note pending = requeue_jobs_pending[OF jobs]
  have grown: "grown jobs d (fold insert_pending jobs d)" by (rule fold_insert_grown[OF assms(4) pending])
  have "db_jobs d' = db_jobs (fold insert_pending jobs d)" "db_dead d' = db_dead (fold insert_pending jobs d)"
    by (simp_all add: d' set_migration_state_def update_migration_def set_entry_def)
  moreover have "set (pending_keys (db_jobs (fold insert_pending jobs d))) =
      set (pending_keys (db_jobs d)) \<union> requeued_keys ve chunk_ref entry (mg_new_column m) (tables (re_id entry))"
    using pending by (simp add: fold_insert_pending_keys requeue_jobs_keys[OF jobs] Un_commute)
  moreover have "load_entry (re_id entry) d' = Some (entry\<lparr>re_state := ''active''\<rparr>)"
    using assms(3) load_entry_id[OF assms(3)]
    by (simp add: d' set_migration_state_def load_entry_set_entry) (simp add: load_entry_def)
  moreover have "load_migration mid d' = Some (m\<lparr>mg_state := ''aborted''\<rparr>)"
    using assms(2) by (simp add: d' set_migration_state_def) (simp add: load_migration_def set_entry_def)
  ultimately show ?thesis using tables' grown by (simp add: grown_def)
qed

text \<open>
  C36. Aborting revives a quarantined entry. Quarantine removes an entry's triggers and functions, sets it
  to \<open>disabled\<close> and fails its migration. If the table can still be resolved and locked and the statements
  of the abort are not refused (in column mode they read the source and key columns only, so this is the
  case when the vector column or a column of the template is what was lost), the owner's \<open>migration_abort\<close> of that failed
  migration succeeds and sets the entry to \<open>active\<close>, although nothing has reinstalled the triggers: the
  last statement on the user's table is still the teardown.
\<close>
theorem abort_revives_quarantined:
  assumes "load_migration mid d = Some m" "is_live_state (mg_state m)"
    and "load_entry (mg_registry m) d = Some entry" "ve_owner ve (re_table_schema entry) (re_table_name entry)"
    and "\<And>st. st \<in> {ResolveTable, LockTables, RequeueRows, DropNewColumn} \<Longrightarrow>
      ve_fails ve st (entry\<lparr>re_state := ''disabled''\<rparr>) = None"
  shows "\<exists>tables' d'. migration_abort ve chunk_ref mid (quarantine_entry entry reason d) tables (quarantine_entry entry reason d)
      = Ok (tables', d') \<and>
    load_entry (re_id entry) (quarantine_entry entry reason d) = Some (entry\<lparr>re_state := ''disabled''\<rparr>) \<and>
    load_entry (re_id entry) d' = Some (entry\<lparr>re_state := ''active''\<rparr>) \<and>
    db_writes d' = db_writes d @ [Teardown (re_id entry)]"
proof -
  let ?q = "quarantine_entry entry reason d" and ?e = "entry\<lparr>re_state := ''disabled''\<rparr>"
  have reg: "re_id entry = mg_registry m" by (rule load_entry_id[OF assms(3)])
  have m: "load_migration mid ?q = Some (m\<lparr>mg_state := ''failed'', mg_error := Some reason\<rparr>)"
    using assms(1,2) reg by (simp add: load_quarantined)
  have e: "load_entry (mg_registry m) ?q = Some ?e"
    using assms(3) reg by (simp add: load_entry_quarantined)
  have fine: "ve_fails ve ResolveTable ?e = None" "ve_fails ve LockTables ?e = None" "ve_fails ve RequeueRows ?e = None"
    "ve_fails ve DropNewColumn ?e = None" by (rule assms(5), simp)+
  have "\<exists>tables' d'. migration_abort ve chunk_ref mid ?q tables ?q = Ok (tables', d')"
    using m e assms(4) fine
    by (cases "re_trigger_mode entry = ''none''") (simp_all add: migration_abort_def requeue_jobs_def is_abortable_def Let_def)
  then obtain tables' d' where ok: "migration_abort ve chunk_ref mid ?q tables ?q = Ok (tables', d')" by blast
  obtain jobs where d': "d' = set_migration_state mid ''aborted''
      (set_entry (re_id entry) (\<lambda>e. e\<lparr>re_state := ''active''\<rparr>) (fold insert_pending jobs ?q))"
    by (rule abort_effect[OF ok]) (use m e in auto)
  have "load_entry (re_id entry) d' = Some (entry\<lparr>re_state := ''active''\<rparr>)"
    using e reg by (simp add: d' set_migration_state_def load_entry_set_entry) (simp add: load_entry_def)
  moreover have "db_writes d' = db_writes d @ [Teardown (re_id entry)]"
    by (simp add: d' set_migration_state_def update_migration_def set_entry_def) (simp add: quarantine_entry_def)
  ultimately show ?thesis using ok e reg by auto
qed

section \<open>A small instance\<close>

definition sample_menv :: "(int, unit, nat) migrate_env" where
  "sample_menv =
     \<lparr>me_order = length, me_missing = (\<lambda>_ _. None),
      me_resolve = (\<lambda>_ _. Ok (\<lambda>c texts. (Ok (map (\<lambda>_. [1]) texts), c))),
      me_convert = (\<lambda>_ c vecs. (Ok vecs, c)), me_parse = (\<lambda>_. None), me_show = dec_int,
      me_is_finite = (\<lambda>_. True), me_display = (\<lambda>_. ''failed''), me_show_vector_error = (\<lambda>_. ''bad''),
      me_debug = (\<lambda>s. s), me_item_cap = 100, me_budget = 100, me_backoff_ms = 1, me_now = 0\<rparr>"

definition sample_mdb :: db where
  "sample_mdb = sample_lost_db\<lparr>db_jobs := [], db_migrations := map (\<lambda>m. m\<lparr>mg_state := ''running'', mg_kind := ''reembed'', mg_new_dim := 1\<rparr>)
     (db_migrations sample_lost_db)\<rparr>"

definition sample_vtable :: "int \<Rightarrow> vec_row list" where
  "sample_vtable i = (if i = 7 then [\<lparr>vr_key = ''k'', vr_source = True, vr_text = Some ''text'', vr_old = Some ''[2]'', vr_new = None\<rparr>] else [])"

definition sample_mrun :: "(int, unit) mig_run" where
  "sample_mrun = \<lparr>mr_db = sample_mdb, mr_tables = sample_vtable, mr_flight = None, mr_skipped = {}, mr_touched = {}\<rparr>"

definition sample_drain :: "(int, unit, nat) drain_env" where
  "sample_drain = \<lparr>dn_env = sample_menv, dn_render = (\<lambda>_ _. Some ''text''), dn_limit = 1, dn_scan_abort = None,
     dn_read_abort = (\<lambda>_. None), dn_apply_abort = (\<lambda>_. None), dn_record_abort = (\<lambda>_. False), dn_shutdown = (\<lambda>_. False)\<rparr>"

lemma sample_drain_quiet: "quiet sample_drain 1"
  by (simp add: quiet_def sample_drain_def sample_menv_def roomy_def embed_answers_def convert_answers_def)

lemma sample_mdb_loads:
  "load_migration 1 sample_mdb = Some (hd (db_migrations sample_mdb))" "mg_state (hd (db_migrations sample_mdb)) = ''running''"
  "mg_registry (hd (db_migrations sample_mdb)) = 7" "load_entry 7 sample_mdb = Some (sample_docs\<lparr>re_state := ''migrating''\<rparr>)"
  by (simp_all add: load_migration_def load_entry_def sample_mdb_def sample_lost_db_def sample_docs_def)

theorem quiet_migration_completes_witness:
  "map_option mg_state (load_migration 1 (snd (drain_passes sample_drain 1 2 () sample_counters sample_vtable sample_mdb)))
     = Some ''awaiting_finalize''"
  by (rule quiet_migration_completes[OF sample_drain_quiet sample_mdb_loads(1,2)])
    (simp_all add: sample_mdb_loads(3,4) sample_vtable_def)

definition sample_answer :: "int row_result list" where
  "sample_answer = [Vector [1]]"

definition sample_batch :: "(int, unit) migration_batch" where
  "sample_batch =
     \<lparr>mb_migration = hd (db_migrations sample_mdb), mb_entry = sample_docs\<lparr>re_state := ''migrating''\<rparr>,
      mb_pks = [''k''], mb_payloads = [Ok ''text''], mb_embed_call = Some (\<lambda>c texts. (Ok (map (\<lambda>_. [1]) texts), c))\<rparr>"

definition sample_read_run :: "(int, unit) mig_run" where
  "sample_read_run = sample_mrun\<lparr>mr_flight := Some (sample_batch, sample_answer)\<rparr>"

abbreviation written_sample :: "migration_applied \<times> (int \<Rightarrow> vec_row list) \<times> db" where
  "written_sample \<equiv> apply_migration_batch sample_menv sample_batch sample_answer sample_vtable sample_mdb"

definition sample_written_run :: "(int, unit) mig_run" where
  "sample_written_run = sample_read_run\<lparr>mr_db := snd (snd written_sample), mr_tables := fst (snd written_sample),
     mr_flight := None, mr_skipped := mr_skipped sample_read_run \<union> skipped_keys (zip (mb_pks sample_batch) sample_answer)\<rparr>"

abbreviation read_sample :: "(int, unit) mig_run \<Rightarrow> (int, unit) batch_read \<times> db" where
  "read_sample s \<equiv> read_migration_batch sample_menv (\<lambda>_. Some ''text'') 1 1 (mr_tables s) (mr_db s)"

definition sample_final_run :: "(int, unit) mig_run" where
  "sample_final_run = sample_written_run\<lparr>mr_db := snd (read_sample sample_written_run), mr_flight := None\<rparr>"

lemma sample_migration:
  "hd (db_migrations sample_mdb) =
     \<lparr>mg_id = 1, mg_registry = 7, mg_new_model = ''n'', mg_new_column = ''v_new'', mg_new_dim = 1, mg_space = None,
      mg_state = ''running'', mg_error = None, mg_old_model = ''m'', mg_old_dim = 2, mg_kind = ''reembed'', mg_via = None,
      mg_reindex = ''manual'', mg_rows_done = 0, mg_rows_skipped = 0, mg_last_pk = None, mg_retry_failures = 0,
      mg_not_before = 0\<rparr>"
  by (simp add: sample_mdb_def sample_lost_db_def)

lemma sample_read: "read_sample sample_mrun = (Work sample_batch, sample_mdb)"
  by (simp add: read_migration_batch_def live_target_def sample_mdb_loads sample_mrun_def sample_menv_def
      resolve_call_def sample_migration read_rows_def scan_rows_def sample_docs_def sample_vtable_def eligible_def
      past_watermark_def is_recursive_def read_reembed_def render_row_def sample_batch_def)

lemma sample_inferred: "run_inference sample_menv sample_batch () = (Ok (Some sample_answer), ())"
  by (simp add: run_inference_def sample_batch_def sample_menv_def sample_migration request_chunks_def
      bisect_embed.simps check_row_def sample_answer_def)

lemma skipped_keys_code [code]: "skipped_keys rows = set (map fst (filter (\<lambda>(_, r). is_skip r) rows))"
  by (force simp: skipped_keys_def elim: is_skip.elims)

lemma sample_finished: "fst (read_sample sample_written_run) = Finished"
proof -
  have "case fst (read_sample sample_written_run) of Finished \<Rightarrow> True | _ \<Rightarrow> False" by code_simp
  then show ?thesis by (auto split: batch_read.splits)
qed

lemma sample_run_steps: "(mig_step sample_menv 1 7)\<^sup>*\<^sup>* sample_mrun sample_final_run"
proof -
  have one: "mig_step sample_menv 1 7 sample_mrun sample_read_run"
    using mig_step.read_work[OF sample_read sample_inferred, of 7]
    by (simp add: sample_read_run_def sample_mrun_def)
  have "apply_migration_batch sample_menv sample_batch sample_answer (mr_tables sample_read_run) (mr_db sample_read_run)
      = (fst written_sample, fst (snd written_sample), snd (snd written_sample))"
    by (simp add: sample_read_run_def sample_mrun_def)
  then have two: "mig_step sample_menv 1 7 sample_read_run sample_written_run"
    unfolding sample_written_run_def
    by (rule mig_step.write_back[rotated]) (simp add: sample_read_run_def)
  have "read_sample sample_written_run = (Finished, snd (read_sample sample_written_run))"
    using sample_finished by (simp add: prod_eq_iff)
  then have three: "mig_step sample_menv 1 7 sample_written_run sample_final_run"
    unfolding sample_final_run_def by (rule mig_step.read_rest) simp_all
  from one two three show ?thesis by (meson converse_rtranclp_into_rtranclp rtranclp.rtrancl_refl)
qed

theorem migration_leaves_no_row_behind_witness:
  "\<exists>v. vr_new (hd (mr_tables sample_final_run 7)) = Some v"
proof -
  let ?r = "hd (mr_tables sample_final_run 7)"
  have "vr_new ?r \<noteq> None \<or> vr_key ?r \<in> mr_skipped sample_final_run"
  proof (rule migration_leaves_no_row_behind[OF _ _ sample_run_steps])
    show "fresh_run sample_menv 1 7 sample_mrun" by code_simp
    show "roomy sample_menv" by code_simp
    show "load_migration 1 (mr_db sample_final_run) = Some (hd (db_migrations (mr_db sample_final_run)))" by code_simp
    show "mg_state (hd (db_migrations (mr_db sample_final_run))) = ''awaiting_finalize''" by code_simp
    show "load_entry 7 (mr_db sample_final_run) = Some (hd (db_registry (mr_db sample_final_run)))" by code_simp
    show "hd (mr_tables sample_final_run 7) \<in> set (mr_tables sample_final_run 7)" by code_simp
    show "wanted (hd (db_migrations (mr_db sample_final_run))) (hd (db_registry (mr_db sample_final_run))) (hd (mr_tables sample_final_run 7))"
      by code_simp
    show "vr_key (hd (mr_tables sample_final_run 7)) \<notin> mr_touched sample_final_run" by code_simp
  qed
  moreover have "vr_key ?r \<notin> mr_skipped sample_final_run" by code_simp
  ultimately show ?thesis by blast
qed

definition sample_venv :: verb_env where
  "sample_venv = \<lparr>ve_owner = (\<lambda>_ _. True), ve_resolve_dim = (\<lambda>_. Ok 1), ve_cache_space = (\<lambda>_. None), ve_route_space = (\<lambda>_. None),
     ve_resolve_convert = (\<lambda>_ _. Err ''none''), ve_has_column = (\<lambda>_ _. True), ve_lossy = (\<lambda>_. []), ve_blocking = (\<lambda>_. []),
     ve_had_index = (\<lambda>_. False), ve_index_ready = (\<lambda>_. True), ve_now = 0, ve_fails = (\<lambda>_ _. None)\<rparr>"

theorem abort_revives_quarantined_witness:
  "\<exists>tables' d'. migration_abort sample_venv (\<lambda>r. (vr_key r, 1)) 1
      (quarantine_entry (sample_docs\<lparr>re_state := ''migrating''\<rparr>) ''gone'' sample_mdb) sample_vtable
      (quarantine_entry (sample_docs\<lparr>re_state := ''migrating''\<rparr>) ''gone'' sample_mdb) = Ok (tables', d') \<and>
    map_option re_state (load_entry 7 d') = Some ''active''"
proof -
  have "re_id sample_docs = 7" "is_live_state (mg_state (hd (db_migrations sample_mdb)))"
    by (simp_all add: sample_docs_def sample_mdb_loads(2) is_live_state_def)
  then show ?thesis
    using abort_revives_quarantined[OF sample_mdb_loads(1), of "sample_docs\<lparr>re_state := ''migrating''\<rparr>" sample_venv
        "\<lambda>r. (vr_key r, 1)" "''gone''" sample_vtable]
    by (auto simp: sample_mdb_loads(3,4) sample_venv_def)
qed

definition sample_touched_table :: "int \<Rightarrow> vec_row list" where
  "sample_touched_table i = map (\<lambda>r. r\<lparr>vr_new := Some ''[3]''\<rparr>) (sample_vtable i)"

abbreviation aborted_sample :: "migrate_error + (int \<Rightarrow> vec_row list) \<times> db" where
  "aborted_sample \<equiv> migration_abort sample_venv (\<lambda>r. (vr_key r, 1)) 1 sample_mdb sample_touched_table sample_mdb"

theorem abort_requeues_lost_writes_witness:
  "set (pending_keys (db_jobs (snd (projr aborted_sample)))) = {(7, EmbedOp, ''k'', None)}"
proof -
  let ?e = "sample_docs\<lparr>re_state := ''migrating''\<rparr>"
  have ok: "aborted_sample = Ok (fst (projr aborted_sample), snd (projr aborted_sample))"
    by (simp add: migration_abort_def sample_mdb_loads sample_venv_def is_abortable_def requeue_jobs_def Let_def)
  have e: "re_id ?e = 7" "re_trigger_mode ?e \<noteq> ''none''" "\<not> is_recursive ?e"
    by (simp_all add: sample_docs_def is_recursive_def)
  have jobs: "db_jobs sample_mdb = []" by (simp add: sample_mdb_def)
  then have "queue_inv sample_mdb" by (simp add: queue_inv_def pending_keys_def)
  with abort_requeues_lost_writes[OF ok sample_mdb_loads(1), of ?e] show ?thesis
    using e jobs by (auto simp: sample_mdb_loads(3,4) sample_touched_table_def sample_vtable_def requeued_keys_def pending_keys_def)
qed

definition sample_active :: registry_entry where
  "sample_active = sample_docs\<lparr>re_state := ''active'', re_trigger_mode := ''row''\<rparr>"

definition sample_idle_db :: db where
  "sample_idle_db = sample_mdb\<lparr>db_migrations := [], db_registry := [sample_active]\<rparr>"

end
