(* ===== verification/Chunking.thy ===== *)
theory Chunking
  imports Prelude
begin

text \<open>
  The recursive character splitter of \<^verbatim>\<open>core/src/chunking.rs\<close>.

  A document is the list of its Unicode scalar values (code points), because every size and
  offset of the splitter counts \<open>str::chars()\<close>; only the input bound counts UTF-8 bytes.
  \<open>merger\<close> is the struct of the same name and \<open>emit\<close>, \<open>push\<close>, \<open>finish\<close> its methods;
  \<open>walk\<close>, \<open>walk_scan\<close> (the separator loop of \<open>walk\<close>), \<open>walk_fallback\<close> (its
  character-boundary loop) and \<open>segment\<close> are mutually recursive as in the source. Offsets and
  counters are \<open>nat\<close>: the input bound keeps all of them below \<open>2 ^ 28\<close>. The casts of the
  result (\<open>as i32\<close>, \<open>as i64\<close>) are kept as words and shown lossless.

  The abstract side is \<open>pieces\<close>, the pure list of spans the recursion hands to the merger, and
  the locale \<open>piece_sink\<close>, the contract between a producer of contiguous pieces and the merger.
\<close>

section \<open>Data and operations\<close>

type_synonym scalar = nat
type_synonym span = "nat \<times> nat"

definition DEFAULT_CHUNK_SIZE :: int where "DEFAULT_CHUNK_SIZE = 2000"
definition DEFAULT_CHUNK_OVERLAP :: int where "DEFAULT_CHUNK_OVERLAP = 200"
definition MIN_CHUNK_SIZE :: int where "MIN_CHUNK_SIZE = 64"
definition MAX_CHUNK_SIZE :: int where "MAX_CHUNK_SIZE = 100000"
definition MAX_CHUNKS_PER_DOCUMENT :: nat where "MAX_CHUNKS_PER_DOCUMENT = 10000"
definition MAX_DOCUMENT_BYTES :: nat where "MAX_DOCUMENT_BYTES = 32 * 1024 * 1024"
definition MAX_OUTPUT_AMPLIFICATION :: nat where "MAX_OUTPUT_AMPLIFICATION = 4"

text \<open>\<open>char::is_whitespace\<close>: the code points with the Unicode property White_Space.\<close>

definition is_whitespace :: "scalar \<Rightarrow> bool" where
  "is_whitespace c \<longleftrightarrow>
     (9 \<le> c \<and> c \<le> 13) \<or> c = 0x20 \<or> c = 0x85 \<or> c = 0xA0 \<or> c = 0x1680 \<or>
     (0x2000 \<le> c \<and> c \<le> 0x200A) \<or> c = 0x2028 \<or> c = 0x2029 \<or> c = 0x202F \<or>
     c = 0x205F \<or> c = 0x3000"

definition len_utf8 :: "scalar \<Rightarrow> nat" where
  "len_utf8 c = (if c < 0x80 then 1 else if c < 0x800 then 2 else if c < 0x10000 then 3 else 4)"

definition text_len :: "scalar list \<Rightarrow> nat" where
  "text_len text = sum_list (map len_utf8 text)"

definition SEPARATORS :: "scalar list list" where
  "SEPARATORS =
     [[13, 10, 13, 10], [10, 10], [13, 10], [10],
      [46, 32], [63, 32], [33, 32], [59, 32], [44, 32], [32]]"

record chunk =
  seq :: "32 word"
  char_start :: "64 word"
  char_end :: "64 word"
  chunk_text :: "scalar list"

datatype geometry_error =
    ChunkSizeBelowOne int
  | OverlapOutOfRange int int

datatype split_error =
    Geometry geometry_error
  | TooManyChunks nat
  | DocumentTooLarge nat nat
  | OutputBudgetExceeded nat nat

record merger =
  m_size :: nat
  m_overlap :: nat
  m_output_budget :: nat
  m_charged_chars :: nat
  m_cur :: "span option"
  m_out :: "span list"

definition emit :: "scalar list \<Rightarrow> nat \<Rightarrow> nat \<Rightarrow> merger \<Rightarrow> split_error + merger" where
  "emit chars start end m =
     (let charged = m_charged_chars m + (end - start);
          m = m\<lparr>m_charged_chars := charged\<rparr> in
      if charged > m_output_budget m
      then Err (OutputBudgetExceeded charged (m_output_budget m))
      else if list_all is_whitespace (sub_list start end chars) then Ok m
      else if length (m_out m) \<ge> MAX_CHUNKS_PER_DOCUMENT
      then Err (TooManyChunks MAX_CHUNKS_PER_DOCUMENT)
      else Ok (m\<lparr>m_out := m_out m @ [(start, end)]\<rparr>))"

definition next_start :: "merger \<Rightarrow> nat \<Rightarrow> nat \<Rightarrow> nat \<Rightarrow> nat \<Rightarrow> nat" where
  "next_start m cs ce start end =
     (let ns = max (ce - m_overlap m) (cs + 1)
      in max ns (ce + (end - start) - m_size m))"

definition push :: "scalar list \<Rightarrow> nat \<Rightarrow> nat \<Rightarrow> merger \<Rightarrow> split_error + merger" where
  "push chars start end m =
     (case m_cur m of
        None \<Rightarrow> Ok (m\<lparr>m_cur := Some (start, end)\<rparr>)
      | Some (cs, ce) \<Rightarrow>
          if (ce - cs) + (end - start) \<le> m_size m
          then Ok (m\<lparr>m_cur := Some (cs, end)\<rparr>)
          else and_then (emit chars cs ce m)
                 (\<lambda>m. Ok (m\<lparr>m_cur := Some (next_start m cs ce start end, end)\<rparr>)))"

definition mk_chunk :: "scalar list \<Rightarrow> nat \<Rightarrow> span \<Rightarrow> chunk" where
  "mk_chunk chars i sp =
     \<lparr>seq = word_of_nat i, char_start = word_of_nat (fst sp), char_end = word_of_nat (snd sp),
      chunk_text = sub_list (fst sp) (snd sp) chars\<rparr>"

definition finish :: "scalar list \<Rightarrow> merger \<Rightarrow> split_error + chunk list" where
  "finish chars m =
     and_then
       (case m_cur m of
          None \<Rightarrow> Ok m
        | Some (cs, ce) \<Rightarrow> emit chars cs ce (m\<lparr>m_cur := None\<rparr>))
       (\<lambda>m. Ok (map (\<lambda>(i, sp). mk_chunk chars i sp) (enumerate 0 (m_out m))))"

text \<open>The fallback loop of \<open>walk\<close>; \<open>gap\<close> is \<open>size - overlap\<close>.\<close>

function walk_fallback ::
  "scalar list \<Rightarrow> nat \<Rightarrow> nat \<Rightarrow> nat \<Rightarrow> merger \<Rightarrow> split_error + merger" where
  "walk_fallback chars gap p end m =
     (if p < end
      then let q = min (p + max gap 1) end in
           and_then (push chars p q m) (\<lambda>m. walk_fallback chars gap q end m)
      else Ok m)"
  by pat_completeness auto
termination
  by (relation "measure (\<lambda>(chars, gap, p, end, m). end - p)") auto

lemma separator_length: "level < length SEPARATORS \<Longrightarrow> 0 < length (SEPARATORS ! level)"
proof -
  assume "level < length SEPARATORS"
  then have "SEPARATORS ! level \<in> set SEPARATORS" by (rule nth_mem)
  then show ?thesis by (auto simp: SEPARATORS_def)
qed

lemma separator_progress:
  "level < length SEPARATORS \<Longrightarrow> i + length (SEPARATORS ! level) \<le> end \<Longrightarrow>
   Suc end - (i + length (SEPARATORS ! level)) < Suc end - i"
  by (drule separator_length) linarith

definition walk_rank ::
  "(scalar list \<times> nat \<times> nat \<times> nat \<times> merger) +
   (scalar list \<times> nat \<times> nat \<times> nat \<times> nat \<times> bool \<times> merger) +
   (scalar list \<times> nat \<times> nat \<times> nat \<times> merger) \<Rightarrow> nat" where
  "walk_rank x = (case x of
       Inl (chars, start, end, level, m) \<Rightarrow> 4 * (length SEPARATORS - level)
     | Inr (Inl (chars, seg, i, end, level, found, m)) \<Rightarrow> 4 * (length SEPARATORS - Suc level) + 2
     | Inr (Inr (chars, start, end, level, m)) \<Rightarrow> 4 * (length SEPARATORS - Suc level) + 1)"

definition walk_scan_left ::
  "(scalar list \<times> nat \<times> nat \<times> nat \<times> merger) +
   (scalar list \<times> nat \<times> nat \<times> nat \<times> nat \<times> bool \<times> merger) +
   (scalar list \<times> nat \<times> nat \<times> nat \<times> merger) \<Rightarrow> nat" where
  "walk_scan_left x = (case x of
       Inr (Inl (chars, seg, i, end, level, found, m)) \<Rightarrow> Suc end - i
     | _ \<Rightarrow> 0)"

text \<open>
  \<open>walk_scan\<close> is the \<open>while\<close> loop of \<open>walk\<close> over one separator level: it returns the final
  values of \<open>found\<close>, \<open>seg_start\<close> and the merger. \<open>walk\<close> calls it only below the last level.
\<close>

function (sequential)
  walk :: "scalar list \<Rightarrow> nat \<Rightarrow> nat \<Rightarrow> nat \<Rightarrow> merger \<Rightarrow> split_error + merger" and
  walk_scan :: "scalar list \<Rightarrow> nat \<Rightarrow> nat \<Rightarrow> nat \<Rightarrow> nat \<Rightarrow> bool \<Rightarrow> merger
    \<Rightarrow> split_error + bool \<times> nat \<times> merger" and
  segment :: "scalar list \<Rightarrow> nat \<Rightarrow> nat \<Rightarrow> nat \<Rightarrow> merger \<Rightarrow> split_error + merger" where
  "walk chars start end level m =
     (if end - start \<le> m_size m
      then (if start < end then push chars start end m else Ok m)
      else if length SEPARATORS \<le> level
      then walk_fallback chars (m_size m - m_overlap m) start end m
      else and_then (walk_scan chars start start end level False m)
             (\<lambda>(found, seg_start, m).
                if \<not> found then walk chars start end (level + 1) m
                else if seg_start < end then segment chars seg_start end level m
                else Ok m))"
| "walk_scan chars seg_start i end level found m =
     (if level < length SEPARATORS \<and> i + length (SEPARATORS ! level) \<le> end
      then if sub_list i (i + length (SEPARATORS ! level)) chars = SEPARATORS ! level
           then let seg_end = i + length (SEPARATORS ! level) in
                and_then (segment chars seg_start seg_end level m)
                  (\<lambda>m. walk_scan chars seg_end seg_end end level True m)
           else walk_scan chars seg_start (i + 1) end level found m
      else Ok (found, seg_start, m))"
| "segment chars start end level m =
     (if end - start \<le> m_size m then push chars start end m
      else walk chars start end (level + 1) m)"
  by pat_completeness auto
termination
  by (relation "measures [walk_rank, walk_scan_left]")
     (auto simp: walk_rank_def walk_scan_left_def separator_progress)

declare walk.simps [simp del] walk_scan.simps [simp del] segment.simps [simp del]
declare walk_fallback.simps [simp del]

definition split_recursive :: "scalar list \<Rightarrow> int \<Rightarrow> int \<Rightarrow> split_error + chunk list" where
  "split_recursive text chunk_size chunk_overlap =
     (if chunk_size < 1 then Err (Geometry (ChunkSizeBelowOne chunk_size))
      else if chunk_overlap < 0 \<or> chunk_overlap \<ge> chunk_size
      then Err (Geometry (OverlapOutOfRange chunk_overlap chunk_size))
      else if text_len text > MAX_DOCUMENT_BYTES
      then Err (DocumentTooLarge (text_len text) MAX_DOCUMENT_BYTES)
      else let size = nat chunk_size; overlap = nat chunk_overlap in
           if \<not> list_ex (\<lambda>c. \<not> is_whitespace c) text then Ok []
           else let m = \<lparr>m_size = size, m_overlap = overlap,
                         m_output_budget = max (length text * MAX_OUTPUT_AMPLIFICATION) size,
                         m_charged_chars = 0, m_cur = None, m_out = []\<rparr> in
                and_then (walk text 0 (length text) 0 m) (finish text))"

section \<open>The pieces the recursion produces\<close>

text \<open>
  \<open>pieces\<close> is the specification of the recursion: the list of spans, as a pure function of the
  text and the geometry. Its three functions follow \<open>walk\<close>, its scan loop and \<open>segment\<close>.
\<close>

function fallback_pieces :: "nat \<Rightarrow> nat \<Rightarrow> nat \<Rightarrow> span list" where
  "fallback_pieces gap p end =
     (if p < end
      then let q = min (p + max gap 1) end in (p, q) # fallback_pieces gap q end
      else [])"
  by pat_completeness auto
termination
  by (relation "measure (\<lambda>(gap, p, end). end - p)") auto

function (sequential)
  pieces :: "scalar list \<Rightarrow> nat \<Rightarrow> nat \<Rightarrow> nat \<Rightarrow> nat \<Rightarrow> nat \<Rightarrow> span list" and
  pieces_scan :: "scalar list \<Rightarrow> nat \<Rightarrow> nat \<Rightarrow> nat \<Rightarrow> nat \<Rightarrow> nat \<Rightarrow> nat \<Rightarrow> bool
    \<Rightarrow> bool \<times> nat \<times> span list" and
  pieces_seg :: "scalar list \<Rightarrow> nat \<Rightarrow> nat \<Rightarrow> nat \<Rightarrow> nat \<Rightarrow> nat \<Rightarrow> span list" where
  "pieces chars sz ov start end level =
     (if end - start \<le> sz then (if start < end then [(start, end)] else [])
      else if length SEPARATORS \<le> level then fallback_pieces (sz - ov) start end
      else case pieces_scan chars sz ov start start end level False of
             (found, seg_start, ps) \<Rightarrow>
               ps @ (if \<not> found then pieces chars sz ov start end (level + 1)
                     else if seg_start < end then pieces_seg chars sz ov seg_start end level
                     else []))"
| "pieces_scan chars sz ov seg_start i end level found =
     (if level < length SEPARATORS \<and> i + length (SEPARATORS ! level) \<le> end
      then if sub_list i (i + length (SEPARATORS ! level)) chars = SEPARATORS ! level
           then let seg_end = i + length (SEPARATORS ! level) in
                case pieces_scan chars sz ov seg_end seg_end end level True of
                  (f, s, ps) \<Rightarrow> (f, s, pieces_seg chars sz ov seg_start seg_end level @ ps)
           else pieces_scan chars sz ov seg_start (i + 1) end level found
      else (found, seg_start, []))"
| "pieces_seg chars sz ov start end level =
     (if end - start \<le> sz then [(start, end)]
      else pieces chars sz ov start end (level + 1))"
  by pat_completeness auto
termination
  by (relation "measures
        [\<lambda>x. case x of
            Inl (chars, sz, ov, start, end, level) \<Rightarrow> 4 * (length SEPARATORS - level)
          | Inr (Inl (chars, sz, ov, seg, i, end, level, found)) \<Rightarrow>
              4 * (length SEPARATORS - Suc level) + 2
          | Inr (Inr (chars, sz, ov, start, end, level)) \<Rightarrow>
              4 * (length SEPARATORS - Suc level) + 1,
         \<lambda>x. case x of
            Inr (Inl (chars, sz, ov, seg, i, end, level, found)) \<Rightarrow> Suc end - i
          | _ \<Rightarrow> 0]")
     (auto simp: separator_progress)

declare pieces.simps [simp del] pieces_scan.simps [simp del] pieces_seg.simps [simp del]
declare fallback_pieces.simps [simp del]

fun tiles :: "nat \<Rightarrow> nat \<Rightarrow> nat \<Rightarrow> span list \<Rightarrow> bool" where
  "tiles sz a b [] \<longleftrightarrow> a = b"
| "tiles sz a b ((p, q) # ps) \<longleftrightarrow> p = a \<and> p < q \<and> q - p \<le> sz \<and> tiles sz q b ps"

lemma tiles_append: "tiles sz a b ps \<Longrightarrow> tiles sz b c qs \<Longrightarrow> tiles sz a c (ps @ qs)"
  by (induction sz a b ps rule: tiles.induct) auto

lemma tiles_le: "tiles sz a b ps \<Longrightarrow> a \<le> b"
  by (induction sz a b ps rule: tiles.induct) auto

lemma tiles_fallback:
  "0 < sz \<Longrightarrow> gap \<le> sz \<Longrightarrow> p \<le> end \<Longrightarrow> tiles sz p end (fallback_pieces gap p end)"
proof (induction gap p "end" rule: fallback_pieces.induct)
  case (1 gap p e)
  show ?case
  proof (cases "p < e")
    case True
    then have "tiles sz (min (p + max gap 1) e) e (fallback_pieces gap (min (p + max gap 1) e) e)"
      using "1.IH" [OF True refl] "1.prems" by simp
    with True "1.prems" show ?thesis
      by (subst fallback_pieces.simps) (auto simp: Let_def min_def max_def)
  qed (use "1.prems" in \<open>simp add: fallback_pieces.simps\<close>)
qed

lemma pieces_tile_all:
  shows "0 < sz \<Longrightarrow> start \<le> end \<Longrightarrow> tiles sz start end (pieces chars sz ov start end level)"
    and "0 < sz \<Longrightarrow> seg \<le> i \<Longrightarrow> seg \<le> end' \<Longrightarrow>
         (case pieces_scan chars sz ov seg i end' level found of
            (found', seg', ps) \<Rightarrow> tiles sz seg seg' ps \<and> seg' \<le> end' \<and> (found \<longrightarrow> found') \<and>
              (\<not> found' \<longrightarrow> ps = [] \<and> seg' = seg))"
    and "0 < sz \<Longrightarrow> start < end'' \<Longrightarrow>
         tiles sz start end'' (pieces_seg chars sz ov start end'' level)"
proof (induction chars sz ov start "end" level and chars sz ov seg i end' level found
    and chars sz ov start end'' level rule: pieces_pieces_scan_pieces_seg.induct)
  case (1 chars sz ov start e level)
  obtain f s ps where scan: "pieces_scan chars sz ov start start e level False = (f, s, ps)"
    by (metis prod_cases3)
  show ?case
  proof (cases "e - start \<le> sz \<or> length SEPARATORS \<le> level")
    case True
    with "1.prems" show ?thesis
      by (subst pieces.simps) (auto intro: tiles_fallback)
  next
    case False
    then have "tiles sz start s ps \<and> s \<le> e \<and> (\<not> f \<longrightarrow> ps = [] \<and> s = start)"
      using "1.IH"(1) "1.prems" scan by auto
    moreover have "\<not> f \<Longrightarrow> tiles sz start e (pieces chars sz ov start e (level + 1))"
      using "1.IH"(2) False "1.prems" scan by auto
    moreover have "f \<Longrightarrow> s < e \<Longrightarrow> tiles sz s e (pieces_seg chars sz ov s e level)"
      using "1.IH"(3) False "1.prems" scan by auto
    ultimately show ?thesis
      using False scan by (subst pieces.simps) (auto intro: tiles_append)
  qed
next
  case (2 chars sz ov seg i e level found)
  let ?n = "i + length (SEPARATORS ! level)"
  obtain f s ps where scan: "pieces_scan chars sz ov ?n ?n e level True = (f, s, ps)"
    by (metis prod_cases3)
  consider (stop) "\<not> (level < length SEPARATORS \<and> ?n \<le> e)"
    | (hit) "level < length SEPARATORS" "?n \<le> e" "sub_list i ?n chars = SEPARATORS ! level"
    | (miss) "level < length SEPARATORS" "?n \<le> e" "sub_list i ?n chars \<noteq> SEPARATORS ! level"
    by blast
  then show ?case
  proof cases
    case stop
    with "2.prems" show ?thesis by (subst pieces_scan.simps) auto
  next
    case hit
    then have "seg < ?n" using "2.prems" separator_length [of level] by linarith
    with hit "2.IH"(2) "2.prems" scan
    have "tiles sz seg ?n (pieces_seg chars sz ov seg ?n level)" by auto
    moreover have "tiles sz ?n s ps \<and> s \<le> e \<and> f"
      using "2.IH"(1) hit "2.prems" scan by auto
    ultimately show ?thesis
      using hit scan by (subst pieces_scan.simps) (auto simp: Let_def intro: tiles_append)
  next
    case miss
    with "2.IH"(3) "2.prems" show ?thesis by (subst pieces_scan.simps) auto
  qed
next
  case (3 chars sz ov start e level)
  then show ?case by (subst pieces_seg.simps) auto
qed

lemma pieces_tile:
  "0 < sz \<Longrightarrow> start \<le> end \<Longrightarrow> tiles sz start end (pieces chars sz ov start end level)"
  by (rule pieces_tile_all(1))

section \<open>The recursion feeds exactly those pieces to the merger\<close>

abbreviation push_all :: "scalar list \<Rightarrow> span list \<Rightarrow> merger \<Rightarrow> split_error + merger" where
  "push_all chars \<equiv> try_fold (\<lambda>(p, q). push chars p q)"

lemma emit_keeps:
  "emit chars s e m = Ok m' \<Longrightarrow> m_size m' = m_size m \<and> m_overlap m' = m_overlap m \<and>
     m_output_budget m' = m_output_budget m \<and> m_cur m' = m_cur m"
  by (auto simp: emit_def Let_def split: if_splits)

lemma push_keeps:
  "push chars s e m = Ok m' \<Longrightarrow> m_size m' = m_size m \<and> m_overlap m' = m_overlap m \<and>
     m_output_budget m' = m_output_budget m"
  by (auto simp: push_def dest!: emit_keeps split: option.splits if_splits)

lemma push_all_keeps:
  "push_all chars ps m = Ok m' \<Longrightarrow> m_size m' = m_size m \<and> m_overlap m' = m_overlap m \<and>
     m_output_budget m' = m_output_budget m"
  by (induction ps arbitrary: m) (auto dest!: push_keeps)

lemma walk_fallback_pieces:
  "walk_fallback chars gap p end m = push_all chars (fallback_pieces gap p end) m"
proof (induction chars gap p "end" m rule: walk_fallback.induct)
  case (1 chars gap p e m)
  show ?case
    by (subst walk_fallback.simps, subst fallback_pieces.simps)
       (auto simp: Let_def "1.IH" intro!: and_then_cong_weak)
qed

lemma walk_pieces_all:
  shows "walk chars start end level m =
         push_all chars (pieces chars (m_size m) (m_overlap m) start end level) m"
    and "walk_scan chars seg i end' level found m =
         (case pieces_scan chars (m_size m) (m_overlap m) seg i end' level found of
            (f, s, ps) \<Rightarrow> and_then (push_all chars ps m) (\<lambda>m'. Ok (f, s, m')))"
    and "segment chars start end'' level m =
         push_all chars (pieces_seg chars (m_size m) (m_overlap m) start end'' level) m"
proof (induction chars start "end" level m and chars seg i end' level found m
    and chars start end'' level m rule: walk_walk_scan_segment.induct)
  case (1 chars start e level m)
  obtain f s ps where
    scan: "pieces_scan chars (m_size m) (m_overlap m) start start e level False = (f, s, ps)"
    by (metis prod_cases3)
  show ?case
  proof (cases "e - start \<le> m_size m \<or> length SEPARATORS \<le> level")
    case True
    then show ?thesis
      by (subst walk.simps, subst pieces.simps) (auto simp: walk_fallback_pieces)
  next
    case False
    with "1.IH"(1) scan have
      step: "walk_scan chars start start e level False m =
             and_then (push_all chars ps m) (\<lambda>m'. Ok (f, s, m'))" by simp
    show ?thesis
    proof (cases "push_all chars ps m")
      case (Inl err)
      with False scan step show ?thesis
        by (subst walk.simps, subst pieces.simps) (simp add: try_fold_append)
    next
      case (Inr m')
      then have "m_size m' = m_size m \<and> m_overlap m' = m_overlap m"
        by (simp add: push_all_keeps)
      with False scan step Inr "1.IH"(2) [OF _ _ refl refl] "1.IH"(3) [OF _ _ refl refl]
      show ?thesis
        by (subst walk.simps, subst pieces.simps) (simp add: try_fold_append)
    qed
  qed
next
  case (2 chars seg i e level found m)
  let ?n = "i + length (SEPARATORS ! level)"
  let ?seg = "pieces_seg chars (m_size m) (m_overlap m) seg ?n level"
  obtain f s ps where
    scan: "pieces_scan chars (m_size m) (m_overlap m) ?n ?n e level True = (f, s, ps)"
    by (metis prod_cases3)
  show ?case
  proof (cases "level < length SEPARATORS \<and> ?n \<le> e \<and> sub_list i ?n chars = SEPARATORS ! level")
    case False
    then show ?thesis using "2.IH"(3)
      by (subst walk_scan.simps, subst pieces_scan.simps) auto
  next
    case True
    then have seg: "segment chars seg ?n level m = push_all chars ?seg m"
      using "2.IH"(1) by simp
    show ?thesis
    proof (cases "push_all chars ?seg m")
      case (Inl err)
      with True seg scan show ?thesis
        by (subst walk_scan.simps, subst pieces_scan.simps) (simp add: try_fold_append)
    next
      case (Inr m')
      then have "m_size m' = m_size m \<and> m_overlap m' = m_overlap m"
        by (simp add: push_all_keeps)
      with True seg scan Inr "2.IH"(2) [of ?n m'] show ?thesis
        by (subst walk_scan.simps, subst pieces_scan.simps) (simp add: try_fold_append)
    qed
  qed
next
  case (3 chars start e level m)
  then show ?case by (subst segment.simps, subst pieces_seg.simps) auto
qed

lemma walk_pieces:
  "walk chars start end level m =
   push_all chars (pieces chars (m_size m) (m_overlap m) start end level) m"
  by (rule walk_pieces_all(1))

section \<open>The merger\<close>

text \<open>
  The contract between a producer of pieces and the sink that consumes them: a sink that has
  reached an offset accepts the next contiguous, bounded piece and then has reached its end.
\<close>

locale piece_sink =
  fixes feed :: "nat \<Rightarrow> nat \<Rightarrow> 's \<Rightarrow> 'e + 's"
    and limit :: "'s \<Rightarrow> nat"
    and reached :: "nat \<Rightarrow> 's \<Rightarrow> bool"
    and extent :: nat
  assumes feed_reaches:
      "reached p s \<Longrightarrow> p < q \<Longrightarrow> q - p \<le> limit s \<Longrightarrow> q \<le> extent \<Longrightarrow> feed p q s = Ok t \<Longrightarrow>
       reached q t"
    and feed_limit: "feed p q s = Ok t \<Longrightarrow> limit t = limit s"
begin

lemma feed_all_reaches:
  "tiles (limit s) a b ps \<Longrightarrow> b \<le> extent \<Longrightarrow> reached a s \<Longrightarrow>
   try_fold (\<lambda>(p, q). feed p q) ps s = Ok t \<Longrightarrow> reached b t"
proof (induction ps arbitrary: a s)
  case (Cons pq ps)
  obtain p q where pq: "pq = (p, q)" by (cases pq)
  from Cons.prems pq obtain u where u: "feed p q s = Ok u"
    "try_fold (\<lambda>(p, q). feed p q) ps u = Ok t" by auto
  have "q \<le> b" using Cons.prems(1) pq tiles_le by auto
  with Cons.prems pq u have "reached q u" by (auto intro: feed_reaches)
  moreover have "tiles (limit u) q b ps" using Cons.prems(1) pq u(1) feed_limit by auto
  ultimately show ?case using Cons.IH u(2) Cons.prems(2) by blast
qed simp

text \<open>A failing run fails at one piece, in a state the contract describes.\<close>

lemma feed_all_fails:
  "tiles (limit s) a b ps \<Longrightarrow> b \<le> extent \<Longrightarrow> reached a s \<Longrightarrow>
   try_fold (\<lambda>(p, q). feed p q) ps s = Err e \<Longrightarrow>
   \<exists>p q u. reached p u \<and> limit u = limit s \<and> p < q \<and> q - p \<le> limit u \<and> q \<le> extent \<and>
     feed p q u = Err e \<and> (\<exists>qs. try_fold (\<lambda>(p, q). feed p q) qs s = Ok u)"
proof (induction ps arbitrary: a s)
  case (Cons pq ps)
  obtain p q where pq: "pq = (p, q)" by (cases pq)
  have q: "p = a" "p < q" "q - p \<le> limit s" "q \<le> extent"
    using Cons.prems(1,2) pq tiles_le by fastforce+
  show ?case
  proof (cases "feed p q s")
    case (Inl e')
    with Cons.prems(3,4) pq q show ?thesis
      by (intro exI [of _ p] exI [of _ q] exI [of _ s]) (auto intro: exI [of _ "[]"])
  next
    case (Inr t)
    have "reached q t" using Cons.prems(3) q Inr by (auto intro: feed_reaches)
    moreover have lim: "limit t = limit s" using Inr feed_limit by blast
    moreover have "tiles (limit t) q b ps" using Cons.prems(1) pq lim by auto
    moreover have "try_fold (\<lambda>(p, q). feed p q) ps t = Err e" using Cons.prems(4) pq Inr by simp
    ultimately obtain p' q' u qs where "reached p' u" "limit u = limit s" "p' < q'"
      "q' - p' \<le> limit u" "q' \<le> extent" "feed p' q' u = Err e"
      "try_fold (\<lambda>(p, q). feed p q) qs t = Ok u"
      using Cons.IH [of t q] Cons.prems(2) by auto
    moreover have "try_fold (\<lambda>(p, q). feed p q) ((p, q) # qs) s = Ok u"
      using Inr \<open>try_fold (\<lambda>(p, q). feed p q) qs t = Ok u\<close> by simp
    ultimately show ?thesis by blast
  qed
qed simp

end

definition span_ok :: "scalar list \<Rightarrow> nat \<Rightarrow> span \<Rightarrow> bool" where
  "span_ok chars sz sp \<longleftrightarrow> fst sp < snd sp \<and> snd sp \<le> length chars \<and> snd sp - fst sp \<le> sz \<and>
     \<not> list_all is_whitespace (sub_list (fst sp) (snd sp) chars)"

definition before :: "nat \<Rightarrow> span \<Rightarrow> span \<Rightarrow> bool" where
  "before ov a b \<longleftrightarrow> fst a < fst b \<and> snd a < snd b \<and> snd a \<le> fst b + ov"

definition covered :: "scalar list \<Rightarrow> span list \<Rightarrow> nat \<Rightarrow> bool" where
  "covered chars out n \<longleftrightarrow>
     (\<forall>k < n. \<not> is_whitespace (chars ! k) \<longrightarrow> (\<exists>sp \<in> set out. fst sp \<le> k \<and> k < snd sp))"

definition span_total :: "span list \<Rightarrow> nat" where
  "span_total out = sum_list (map (\<lambda>sp. snd sp - fst sp) out)"

definition out_inv :: "scalar list \<Rightarrow> merger \<Rightarrow> bool" where
  "out_inv chars m \<longleftrightarrow>
     m_overlap m < m_size m \<and> length (m_out m) \<le> MAX_CHUNKS_PER_DOCUMENT \<and>
     span_total (m_out m) \<le> m_charged_chars m \<and> m_charged_chars m \<le> m_output_budget m \<and>
     (\<forall>sp \<in> set (m_out m). span_ok chars (m_size m) sp) \<and>
     sorted_wrt (before (m_overlap m)) (m_out m)"

definition merger_inv :: "scalar list \<Rightarrow> nat \<Rightarrow> merger \<Rightarrow> bool" where
  "merger_inv chars p m \<longleftrightarrow> p \<le> length chars \<and> out_inv chars m \<and>
     (case m_cur m of
        None \<Rightarrow> p = 0 \<and> m_out m = []
      | Some (cs, ce) \<Rightarrow> ce = p \<and> cs < ce \<and> ce - cs \<le> m_size m \<and>
          (\<forall>sp \<in> set (m_out m). before (m_overlap m) sp (cs, ce)) \<and> covered chars (m_out m) cs)"

lemma before_le: "before ov a b \<Longrightarrow> fst a \<le> fst b \<and> snd a \<le> snd b"
  by (simp add: before_def)

lemma emit_inv:
  assumes "emit chars cs ce m = Ok m'" "out_inv chars m"
    and "cs < ce" "ce \<le> length chars" "ce - cs \<le> m_size m"
    and "\<forall>sp \<in> set (m_out m). before (m_overlap m) sp (cs, ce)" "covered chars (m_out m) cs"
  shows "out_inv chars m' \<and> covered chars (m_out m') ce \<and>
    (\<forall>sp \<in> set (m_out m'). fst sp \<le> cs \<and> snd sp \<le> ce)"
proof -
  let ?charged = "m_charged_chars m + (ce - cs)"
  have bnd: "\<forall>sp \<in> set (m_out m). fst sp \<le> cs \<and> snd sp \<le> ce"
    using assms(6) before_le by fastforce
  show ?thesis
  proof (cases "list_all is_whitespace (sub_list cs ce chars)")
    case True
    then have "\<forall>k. cs \<le> k \<and> k < ce \<longrightarrow> is_whitespace (chars ! k)"
      using assms(4) by (auto simp: list_all_iff set_sub_list)
    with assms(7) have "covered chars (m_out m) ce"
      unfolding covered_def by (metis leI)
    moreover from True assms(1) have
      "m' = m\<lparr>m_charged_chars := ?charged\<rparr>" "?charged \<le> m_output_budget m"
      by (auto simp: emit_def Let_def split: if_splits)
    ultimately show ?thesis using bnd assms(2) by (simp add: out_inv_def)
  next
    case False
    have "covered chars (m_out m @ [(cs, ce)]) ce"
      using assms(7) by (auto simp: covered_def) (metis leI)
    moreover from False assms(1) have
      "m' = m\<lparr>m_charged_chars := ?charged, m_out := m_out m @ [(cs, ce)]\<rparr>"
      "?charged \<le> m_output_budget m" "length (m_out m) < MAX_CHUNKS_PER_DOCUMENT"
      by (auto simp: emit_def Let_def split: if_splits)
    moreover have "span_ok chars (m_size m) (cs, ce)"
      using False assms(3-5) by (simp add: span_ok_def)
    ultimately show ?thesis
      using bnd assms(2,3,6) by (simp add: out_inv_def sorted_wrt_append span_total_def) linarith
  qed
qed

lemma next_start_bounds:
  assumes "cs < ce" "start < end" "end - start \<le> m_size m"
  shows "cs < next_start m cs ce start end" "next_start m cs ce start end \<le> ce"
    "ce \<le> next_start m cs ce start end + m_overlap m"
    "ce + (end - start) \<le> next_start m cs ce start end + m_size m"
  using assms by (auto simp: next_start_def Let_def)

lemma push_inv:
  assumes inv: "merger_inv chars p m" and piece: "p < q" "q - p \<le> m_size m" "q \<le> length chars"
    and step: "push chars p q m = Ok m'"
  shows "merger_inv chars q m'"
proof (cases "m_cur m")
  case None
  with assms show ?thesis by (auto simp: push_def merger_inv_def out_inv_def covered_def)
next
  case (Some cur)
  then obtain cs ce where cur: "m_cur m = Some (cs, ce)" by (cases cur) auto
  with inv have c: "ce = p" "cs < ce" "ce - cs \<le> m_size m" "out_inv chars m" "ce \<le> length chars"
    "\<forall>sp \<in> set (m_out m). before (m_overlap m) sp (cs, ce)" "covered chars (m_out m) cs"
    by (auto simp: merger_inv_def)
  show ?thesis
  proof (cases "(ce - cs) + (q - p) \<le> m_size m")
    case True
    with step cur have "m' = m\<lparr>m_cur := Some (cs, q)\<rparr>" by (simp add: push_def)
    moreover have "\<forall>sp \<in> set (m_out m). before (m_overlap m) sp (cs, q)"
      using c(1,6) piece(1) unfolding before_def by fastforce
    ultimately show ?thesis
      using c True piece by (simp add: merger_inv_def out_inv_def)
  next
    case False
    with step cur obtain m1 where m1: "emit chars cs ce m = Ok m1"
      "m' = m1\<lparr>m_cur := Some (next_start m1 cs ce p q, q)\<rparr>"
      by (auto simp: push_def)
    have keep: "m_size m1 = m_size m" "m_overlap m1 = m_overlap m"
      using emit_keeps [OF m1(1)] by auto
    have out: "out_inv chars m1" "covered chars (m_out m1) ce"
      "\<forall>sp \<in> set (m_out m1). fst sp \<le> cs \<and> snd sp \<le> ce"
      using emit_inv [OF m1(1)] c by blast+
    note ns = next_start_bounds [OF c(2), of p q m1, OF piece(1)]
    have "\<forall>sp \<in> set (m_out m1). before (m_overlap m1) sp (next_start m1 cs ce p q, q)"
      using out(3) ns piece keep c(1) unfolding before_def
      by (metis (no_types, lifting) fst_conv le_trans less_le_trans not_less snd_conv)
    moreover have "covered chars (m_out m1) (next_start m1 cs ce p q)"
      using out(2) ns(2) piece(2) keep(1) unfolding covered_def by (metis less_le_trans)
    ultimately show ?thesis
      using m1(2) out(1) ns piece keep c(1) by (simp add: merger_inv_def out_inv_def)
  qed
qed

interpretation mg: piece_sink "\<lambda>p q. push chars p q" m_size "merger_inv chars" "length chars"
  for chars
  by unfold_locales (blast intro: push_inv, simp add: push_keeps)

section \<open>The contract of the splitter\<close>

text \<open>
  \<open>split_spec\<close> is what a successful split promises about the emitted spans, independent of how
  they were found.
\<close>

definition split_spec :: "scalar list \<Rightarrow> nat \<Rightarrow> nat \<Rightarrow> span list \<Rightarrow> bool" where
  "split_spec doc sz ov out \<longleftrightarrow>
     length out \<le> MAX_CHUNKS_PER_DOCUMENT \<and>
     span_total out \<le> max (length doc * MAX_OUTPUT_AMPLIFICATION) sz \<and>
     (\<forall>sp \<in> set out. span_ok doc sz sp) \<and>
     sorted_wrt (before ov) out \<and> covered doc out (length doc)"

definition chunk_span :: "chunk \<Rightarrow> span" where
  "chunk_span c = (unat (char_start c), unat (char_end c))"

lemma length_le_text_len: "length doc \<le> text_len doc"
  by (induction doc) (auto simp: text_len_def len_utf8_def)

lemma walk_finish_spec:
  assumes "ov < sz"
    and m: "m = \<lparr>m_size = sz, m_overlap = ov,
                 m_output_budget = max (length doc * MAX_OUTPUT_AMPLIFICATION) sz,
                 m_charged_chars = 0, m_cur = None, m_out = []\<rparr>"
    and run: "and_then (walk doc 0 (length doc) 0 m) (finish doc) = Ok chunks"
  shows "\<exists>out. split_spec doc sz ov out \<and>
           chunks = map (\<lambda>(i, sp). mk_chunk doc i sp) (enumerate 0 out)"
proof -
  from run obtain m1 where
    m1: "push_all doc (pieces doc sz ov 0 (length doc) 0) m = Ok m1"
    and fin: "finish doc m1 = Ok chunks"
    using m by (auto simp: walk_pieces)
  have "merger_inv doc 0 m"
    using assms(1) m by (simp add: merger_inv_def out_inv_def span_total_def)
  moreover have "tiles (m_size m) 0 (length doc) (pieces doc sz ov 0 (length doc) 0)"
    using assms(1) m by (simp add: pieces_tile)
  ultimately have inv: "merger_inv doc (length doc) m1"
    using mg.feed_all_reaches m1 by blast
  have keep: "m_size m1 = sz" "m_overlap m1 = ov"
    "m_output_budget m1 = max (length doc * MAX_OUTPUT_AMPLIFICATION) sz"
    using push_all_keeps [OF m1] m by auto
  show ?thesis
  proof (cases "m_cur m1")
    case None
    with fin inv show ?thesis
      by (intro exI [where x = "[]"])
         (auto simp: finish_def merger_inv_def split_spec_def span_total_def covered_def)
  next
    case (Some cur)
    then obtain cs where cur: "m_cur m1 = Some (cs, length doc)"
      using inv by (cases cur) (auto simp: merger_inv_def)
    with fin obtain m2 where m2: "emit doc cs (length doc) (m1\<lparr>m_cur := None\<rparr>) = Ok m2"
      "chunks = map (\<lambda>(i, sp). mk_chunk doc i sp) (enumerate 0 (m_out m2))"
      by (auto simp: finish_def)
    have "out_inv doc m2 \<and> covered doc (m_out m2) (length doc)"
      using inv cur emit_inv [OF m2(1)] by (auto simp: merger_inv_def out_inv_def)
    with emit_keeps [OF m2(1)] keep m2(2) show ?thesis
      by (auto simp: out_inv_def split_spec_def)
  qed
qed

lemma split_recursive_Ok:
  assumes "split_recursive doc sz ov = Ok chunks"
  shows "0 \<le> ov" "ov < sz" "text_len doc \<le> MAX_DOCUMENT_BYTES"
    "\<exists>out. split_spec doc (nat sz) (nat ov) out \<and>
       chunks = map (\<lambda>(i, sp). mk_chunk doc i sp) (enumerate 0 out)"
proof -
  show g: "0 \<le> ov" "ov < sz" "text_len doc \<le> MAX_DOCUMENT_BYTES"
    using assms by (auto simp: split_recursive_def split: if_splits)
  show "\<exists>out. split_spec doc (nat sz) (nat ov) out \<and>
       chunks = map (\<lambda>(i, sp). mk_chunk doc i sp) (enumerate 0 out)"
  proof (cases "list_ex (\<lambda>c. \<not> is_whitespace c) doc")
    case True
    with assms g show ?thesis
      by (intro walk_finish_spec [OF _ refl]) (auto simp: split_recursive_def Let_def)
  next
    case False
    then have "covered doc [] (length doc)"
      by (auto simp: covered_def list_ex_iff)
    with False assms g show ?thesis
      by (intro exI [where x = "[]"])
         (auto simp: split_recursive_def Let_def split_spec_def span_total_def)
  qed
qed

lemma mk_chunk_span:
  assumes "snd sp \<le> length doc" "fst sp < snd sp" "text_len doc \<le> MAX_DOCUMENT_BYTES"
  shows "chunk_span (mk_chunk doc i sp) = sp"
proof -
  have "snd sp < 2 ^ 64" "fst sp < 2 ^ 64"
    using assms length_le_text_len [of doc] by (auto simp: MAX_DOCUMENT_BYTES_def)
  then show ?thesis
    by (cases sp) (simp add: chunk_span_def mk_chunk_def unat_of_nat take_bit_nat_eq_self)
qed

text \<open>The chunk list of a successful split carries exactly the spans of the specification.\<close>

lemma split_recursive_spans:
  assumes "split_recursive doc sz ov = Ok chunks"
  shows "split_spec doc (nat sz) (nat ov) (map chunk_span chunks)"
    and "i < length chunks \<Longrightarrow> chunks ! i = mk_chunk doc i (chunk_span (chunks ! i))"
proof -
  obtain out where out: "split_spec doc (nat sz) (nat ov) out"
    "chunks = map (\<lambda>(i, sp). mk_chunk doc i sp) (enumerate 0 out)"
    using split_recursive_Ok(4) [OF assms] by blast
  have span: "chunk_span (mk_chunk doc k (out ! k)) = out ! k" if "k < length out" for k
    using that out(1) nth_mem split_recursive_Ok(3) [OF assms]
    by (intro mk_chunk_span) (auto simp: split_spec_def span_ok_def)
  have "map chunk_span chunks = out"
    using out(2) span by (intro nth_equalityI) (simp_all add: nth_enumerate_eq)
  with out(1) show "split_spec doc (nat sz) (nat ov) (map chunk_span chunks)" by simp
  show "i < length chunks \<Longrightarrow> chunks ! i = mk_chunk doc i (chunk_span (chunks ! i))"
    using out(2) span by (simp add: nth_enumerate_eq)
qed

section \<open>How a split fails\<close>

definition cap_error :: "merger \<Rightarrow> split_error \<Rightarrow> bool" where
  "cap_error m e \<longleftrightarrow> e = TooManyChunks MAX_CHUNKS_PER_DOCUMENT \<or>
     (\<exists>c. e = OutputBudgetExceeded c (m_output_budget m) \<and> m_output_budget m < c \<and>
        c \<le> m_output_budget m + m_size m)"

lemma emit_error:
  "emit chars cs ce m = Err e \<Longrightarrow> out_inv chars m \<Longrightarrow> ce - cs \<le> m_size m \<Longrightarrow> cap_error m e"
  by (auto simp: emit_def Let_def cap_error_def out_inv_def split: if_splits)

lemma push_error:
  assumes "push chars p q m = Err e" "merger_inv chars p m"
  shows "cap_error m e"
  using assms
  by (auto simp: push_def merger_inv_def and_then_eq_Err split: option.splits if_splits
      intro: emit_error)

lemma finish_error:
  assumes "finish chars m = Err e" "merger_inv chars p m"
  shows "cap_error m e"
  using assms emit_error [of chars _ _ "m\<lparr>m_cur := None\<rparr>" e]
  by (auto simp: finish_def merger_inv_def out_inv_def cap_error_def and_then_eq_Err
      split: option.splits)

definition new_merger :: "scalar list \<Rightarrow> nat \<Rightarrow> nat \<Rightarrow> merger" where
  "new_merger doc sz ov =
     \<lparr>m_size = sz, m_overlap = ov,
      m_output_budget = max (length doc * MAX_OUTPUT_AMPLIFICATION) sz,
      m_charged_chars = 0, m_cur = None, m_out = []\<rparr>"

lemma new_merger_inv: "ov < sz \<Longrightarrow> merger_inv doc 0 (new_merger doc sz ov)"
  by (simp add: merger_inv_def out_inv_def span_total_def new_merger_def)

lemma new_merger_tiles:
  "ov < sz \<Longrightarrow> tiles (m_size (new_merger doc sz ov)) 0 (length doc)
     (pieces doc sz ov 0 (length doc) 0)"
  by (simp add: pieces_tile new_merger_def)

lemma walk_new_merger:
  "walk doc 0 (length doc) 0 (new_merger doc sz ov) =
   push_all doc (pieces doc sz ov 0 (length doc) 0) (new_merger doc sz ov)"
  by (simp add: walk_pieces new_merger_def)

lemma cap_error_cong:
  "m_size m' = m_size m \<Longrightarrow> m_output_budget m' = m_output_budget m \<Longrightarrow>
   cap_error m' e \<Longrightarrow> cap_error m e"
  by (simp add: cap_error_def)

lemma walk_finish_error:
  assumes "ov < sz"
    and run: "and_then (walk doc 0 (length doc) 0 (new_merger doc sz ov)) (finish doc) = Err e"
  shows "cap_error (new_merger doc sz ov) e"
proof -
  let ?m = "new_merger doc sz ov" and ?ps = "pieces doc sz ov 0 (length doc) 0"
  note inv = new_merger_inv [OF assms(1), of doc] and til = new_merger_tiles [OF assms(1), of doc]
  consider (walk) "push_all doc ?ps ?m = Err e"
    | (fin) m1 where "push_all doc ?ps ?m = Ok m1" "finish doc m1 = Err e"
    using run by (auto simp: walk_new_merger and_then_eq_Err)
  then show ?thesis
  proof cases
    case walk
    obtain p q u qs where "merger_inv doc p u" "push doc p q u = Err e"
      "push_all doc qs ?m = Ok u"
      using mg.feed_all_fails [OF til _ inv walk] by auto
    then show ?thesis
      using push_error push_all_keeps cap_error_cong by metis
  next
    case fin
    then have "merger_inv doc (length doc) m1"
      using mg.feed_all_reaches [OF til _ inv] by auto
    then show ?thesis
      using fin finish_error push_all_keeps cap_error_cong by metis
  qed
qed

text \<open>Without overlap the charge is the start of the chunk being assembled.\<close>

definition charge_exact :: "nat \<Rightarrow> merger \<Rightarrow> bool" where
  "charge_exact p m \<longleftrightarrow> m_overlap m = 0 \<and>
     (case m_cur m of
        None \<Rightarrow> p = 0 \<and> m_charged_chars m = 0
      | Some (cs, ce) \<Rightarrow> ce = p \<and> cs < ce \<and> m_charged_chars m = cs)"

lemma emit_charges: "emit chars cs ce m = Ok m' \<Longrightarrow>
    m_charged_chars m' = m_charged_chars m + (ce - cs) \<and> m_overlap m' = m_overlap m \<and>
    m_size m' = m_size m"
  by (auto simp: emit_def Let_def split: if_splits)

lemma push_charge_exact:
  assumes "charge_exact p m" "p < q" "q - p \<le> m_size m" "push chars p q m = Ok m'"
  shows "charge_exact q m'"
proof (cases "m_cur m")
  case None
  with assms show ?thesis by (auto simp: charge_exact_def push_def)
next
  case (Some cur)
  with assms show ?thesis
    by (cases cur)
       (auto simp: charge_exact_def push_def next_start_def Let_def
         dest!: emit_charges split: if_splits)
qed

interpretation zero: piece_sink "\<lambda>p q. push chars p q" m_size charge_exact "length chars"
  for chars
  by unfold_locales (blast intro: push_charge_exact, simp add: push_keeps)

lemma emit_within_budget:
  "emit chars cs ce m = Err e \<Longrightarrow> m_charged_chars m + (ce - cs) \<le> m_output_budget m \<Longrightarrow>
   e = TooManyChunks MAX_CHUNKS_PER_DOCUMENT"
  by (auto simp: emit_def Let_def split: if_splits)

lemma charge_exact_error:
  assumes "charge_exact p m" "p \<le> m_output_budget m"
  shows "push chars p q m = Err e \<Longrightarrow> e = TooManyChunks MAX_CHUNKS_PER_DOCUMENT"
    and "finish chars m = Err e \<Longrightarrow> e = TooManyChunks MAX_CHUNKS_PER_DOCUMENT"
  using assms
  by (auto simp: charge_exact_def push_def finish_def and_then_eq_Err
      dest!: emit_within_budget split: option.splits if_splits)

section \<open>Properties\<close>

text \<open>Evaluation of the splitter on closed inputs.\<close>

lemmas chunk_eval =
  split_recursive_def walk.simps walk_scan.simps segment.simps walk_fallback.simps push_def
  emit_def finish_def next_start_def Let_def SEPARATORS_def text_len_def len_utf8_def
  MAX_DOCUMENT_BYTES_def MAX_OUTPUT_AMPLIFICATION_def MAX_CHUNKS_PER_DOCUMENT_def
  is_whitespace_def sub_list_def

text \<open>C22. Every chunk of a successful split is exactly the source substring its offsets denote,
  is non-empty, holds at most \<open>chunk_size\<close> scalar values, is not blank, and is numbered by its
  position; the casts to \<open>i32\<close> and \<open>i64\<close> lose nothing.\<close>

theorem split_chunks_exact:
  assumes "split_recursive doc sz ov = Ok chunks" "i < length chunks"
  shows "sint (seq (chunks ! i)) = int i \<and>
    fst (chunk_span (chunks ! i)) < snd (chunk_span (chunks ! i)) \<and>
    snd (chunk_span (chunks ! i)) \<le> length doc \<and>
    chunk_text (chunks ! i) =
      sub_list (fst (chunk_span (chunks ! i))) (snd (chunk_span (chunks ! i))) doc \<and>
    int (length (chunk_text (chunks ! i))) \<le> sz \<and>
    \<not> list_all is_whitespace (chunk_text (chunks ! i))"
proof -
  define sp where "sp = chunk_span (chunks ! i)"
  have chunk: "chunks ! i = mk_chunk doc i sp"
    unfolding sp_def using split_recursive_spans(2) [OF assms] .
  have spec: "split_spec doc (nat sz) (nat ov) (map chunk_span chunks)"
    using split_recursive_spans(1) [OF assms(1)] .
  then have "span_ok doc (nat sz) sp" "i < 10000"
    using assms(2) by (auto simp: split_spec_def sp_def MAX_CHUNKS_PER_DOCUMENT_def)
  then show ?thesis
    unfolding sp_def [symmetric] unfolding chunk
    by (auto simp: mk_chunk_def span_ok_def signed_of_nat signed_take_bit_int_eq_self)
qed

theorem split_chunks_exact_witness:
  "split_recursive [72, 105, 46, 32, 79, 107] 4 0 =
     Ok [mk_chunk [72, 105, 46, 32, 79, 107] 0 (0, 4), mk_chunk [72, 105, 46, 32, 79, 107] 1 (4, 6)]
   \<and> sint (seq (mk_chunk [72, 105, 46, 32, 79, 107] 1 (4, 6))) = 1"
proof -
  let ?d = "[72, 105, 46, 32, 79, 107]"
  have run: "split_recursive ?d 4 0 = Ok [mk_chunk ?d 0 (0, 4), mk_chunk ?d 1 (4, 6)]"
    by (simp add: chunk_eval) (simp add: eval_nat_numeral)
  show ?thesis using run split_chunks_exact [OF run, of 1] by simp
qed

text \<open>Chunks advance: a later chunk starts strictly after and ends strictly after an earlier
  one, and shares at most \<open>chunk_overlap\<close> characters with it.\<close>

theorem split_chunks_advance:
  assumes "split_recursive doc sz ov = Ok chunks" "i < j" "j < length chunks"
  shows "fst (chunk_span (chunks ! i)) < fst (chunk_span (chunks ! j)) \<and>
    snd (chunk_span (chunks ! i)) < snd (chunk_span (chunks ! j)) \<and>
    int (snd (chunk_span (chunks ! i))) - int (fst (chunk_span (chunks ! j))) \<le> ov"
proof -
  have "sorted_wrt (before (nat ov)) (map chunk_span chunks)"
    using split_recursive_spans(1) [OF assms(1)] by (simp add: split_spec_def)
  then have "before (nat ov) (chunk_span (chunks ! i)) (chunk_span (chunks ! j))"
    using assms(2,3) by (simp add: sorted_wrt_iff_nth_less)
  then show ?thesis
    using split_recursive_Ok(1) [OF assms(1)] by (auto simp: before_def)
qed

text \<open>
  C24. No text is lost. Whenever the splitter returns chunks, every character of the document that is not
  whitespace lies in some chunk.
\<close>

theorem split_covers_text:
  assumes "split_recursive doc sz ov = Ok chunks" "k < length doc" "\<not> is_whitespace (doc ! k)"
  shows "\<exists>c \<in> set chunks. fst (chunk_span c) \<le> k \<and> k < snd (chunk_span c)"
  using split_recursive_spans(1) [OF assms(1)] assms(2,3)
  by (auto simp: split_spec_def covered_def)

text \<open>The output is bounded: at most 10000 chunks, whose total length is at most four times
  the document's (or one chunk, for a document shorter than that).\<close>

theorem split_output_bounded:
  assumes "split_recursive doc sz ov = Ok chunks"
  shows "length chunks \<le> 10000 \<and>
    sum_list (map (\<lambda>c. snd (chunk_span c) - fst (chunk_span c)) chunks)
      \<le> max (4 * length doc) (nat sz)"
  using split_recursive_spans(1) [OF assms]
  by (simp add: split_spec_def span_total_def comp_def MAX_CHUNKS_PER_DOCUMENT_def
      MAX_OUTPUT_AMPLIFICATION_def mult.commute)

theorem split_chunks_advance_witness:
  "\<exists>chunks. split_recursive [97, 97, 97, 97, 97] 4 2 = Ok chunks \<and> length chunks = 2 \<and>
     fst (chunk_span (chunks ! 0)) < fst (chunk_span (chunks ! 1))"
proof -
  obtain chunks where run: "split_recursive [97, 97, 97, 97, 97] 4 2 = Ok chunks"
    "length chunks = 2"
    by (simp add: chunk_eval)
  show ?thesis using run split_chunks_advance [OF run(1), of 0 1] by auto
qed

theorem split_covers_text_witness:
  "\<exists>chunks. split_recursive [97, 32, 98] 2 0 = Ok chunks \<and>
     (\<exists>c \<in> set chunks. fst (chunk_span c) \<le> 2 \<and> 2 < snd (chunk_span c))"
proof -
  obtain chunks where run: "split_recursive [97, 32, 98] 2 0 = Ok chunks"
    by (simp add: chunk_eval)
  show ?thesis
    using run split_covers_text [OF run, of 2] by (auto simp: is_whitespace_def)
qed

theorem split_output_bounded_witness:
  "\<exists>chunks. split_recursive [97, 97, 97, 97, 97] 4 2 = Ok chunks \<and> length chunks \<le> 10000"
proof -
  obtain chunks where run: "split_recursive [97, 97, 97, 97, 97] 4 2 = Ok chunks"
    by (simp add: chunk_eval)
  show ?thesis using run split_output_bounded [OF run] by auto
qed

text \<open>C23. The recursion hands the merger a tiling of the document: \<open>walk\<close> is the fold of \<open>push\<close>
  over the specified pieces, and these are contiguous, non-empty and at most \<open>chunk_size\<close> long,
  which are the three debug assertions of \<open>push\<close>.\<close>

theorem walk_feeds_tiling:
  assumes "0 < m_size m" "start \<le> end"
  shows "walk chars start end level m =
      push_all chars (pieces chars (m_size m) (m_overlap m) start end level) m \<and>
    tiles (m_size m) start end (pieces chars (m_size m) (m_overlap m) start end level)"
  using assms by (simp add: walk_pieces pieces_tile)

theorem walk_feeds_tiling_witness:
  "tiles 4 0 6 (pieces [72, 105, 46, 32, 79, 107] 4 0 0 6 0)"
  using walk_feeds_tiling
    [of "\<lparr>m_size = 4, m_overlap = 0, m_output_budget = 24, m_charged_chars = 0, m_cur = None,
          m_out = []\<rparr>" 0 6 "[72, 105, 46, 32, 79, 107]" 0]
  by simp

text \<open>Every refusal states its reason truthfully: a geometry error means the geometry is out
  of range, a size error carries the real byte length, and a budget error stops at the first span
  that overruns the budget, so the work past it is at most one chunk.\<close>

theorem split_errors_truthful:
  assumes "split_recursive doc sz ov = Err e"
  shows "case e of
      Geometry g \<Rightarrow> sz < 1 \<or> ov < 0 \<or> sz \<le> ov
    | DocumentTooLarge b l \<Rightarrow> b = text_len doc \<and> l = 33554432 \<and> l < b
    | TooManyChunks l \<Rightarrow> l = 10000 \<and> 0 \<le> ov \<and> ov < sz
    | OutputBudgetExceeded c b \<Rightarrow>
        b = max (4 * length doc) (nat sz) \<and> b < c \<and> c \<le> b + nat sz \<and> 0 \<le> ov \<and> ov < sz"
proof (cases "sz < 1 \<or> ov < 0 \<or> sz \<le> ov \<or> MAX_DOCUMENT_BYTES < text_len doc")
  case True
  with assms show ?thesis
    by (auto simp: split_recursive_def MAX_DOCUMENT_BYTES_def split: if_splits)
next
  case False
  with assms have run: "and_then (walk doc 0 (length doc) 0 (new_merger doc (nat sz) (nat ov)))
      (finish doc) = Err e"
    by (auto simp: split_recursive_def Let_def new_merger_def split: if_splits)
  have "cap_error (new_merger doc (nat sz) (nat ov)) e"
    by (rule walk_finish_error [OF _ run]) (use False in auto)
  with False show ?thesis
    by (auto simp: cap_error_def new_merger_def MAX_CHUNKS_PER_DOCUMENT_def
        MAX_OUTPUT_AMPLIFICATION_def mult.commute)
qed

theorem split_errors_truthful_witness:
  "split_recursive [97] 4 4 = Err (Geometry (OverlapOutOfRange 4 4)) \<and>
   ((4::int) < 1 \<or> (4::int) < 0 \<or> (4::int) \<le> 4)"
proof -
  have run: "split_recursive [97] 4 4 = Err (Geometry (OverlapOutOfRange 4 4))"
    by (simp add: split_recursive_def)
  show ?thesis using run split_errors_truthful [OF run] by simp
qed

text \<open>Without overlap the splitter is total on every admissible document: it returns chunks
  unless there are more than 10000 of them; the amplification budget never refuses.\<close>

theorem split_without_overlap_total:
  assumes "1 \<le> sz" "text_len doc \<le> 33554432"
  shows "(\<exists>chunks. split_recursive doc sz 0 = Ok chunks) \<or>
    split_recursive doc sz 0 = Err (TooManyChunks 10000)"
proof (cases "split_recursive doc sz 0")
  case (Inl e)
  with assms have run: "and_then (walk doc 0 (length doc) 0 (new_merger doc (nat sz) 0))
      (finish doc) = Err e"
    by (auto simp: split_recursive_def Let_def new_merger_def MAX_DOCUMENT_BYTES_def
        split: if_splits)
  let ?m = "new_merger doc (nat sz) 0" and ?ps = "pieces doc (nat sz) 0 0 (length doc) 0"
  have til: "tiles (m_size ?m) 0 (length doc) ?ps" using assms(1) by (simp add: new_merger_tiles)
  have inv: "charge_exact 0 ?m" by (simp add: charge_exact_def new_merger_def)
  have bud: "m_output_budget m1 \<ge> length doc" if "push_all doc qs ?m = Ok m1" for qs m1
    using push_all_keeps [OF that] by (simp add: new_merger_def MAX_OUTPUT_AMPLIFICATION_def)
  consider (walk) "push_all doc ?ps ?m = Err e"
    | (fin) m1 where "push_all doc ?ps ?m = Ok m1" "finish doc m1 = Err e"
    using run by (auto simp: walk_new_merger and_then_eq_Err)
  then have "e = TooManyChunks MAX_CHUNKS_PER_DOCUMENT"
  proof cases
    case walk
    obtain p q u qs where "charge_exact p u" "p < q" "q \<le> length doc" "push doc p q u = Err e"
      "push_all doc qs ?m = Ok u"
      using zero.feed_all_fails [OF til _ inv walk] by auto
    then show ?thesis using bud [of qs u] charge_exact_error(1) by fastforce
  next
    case fin
    then have "charge_exact (length doc) m1"
      using zero.feed_all_reaches [OF til _ inv] by auto
    then show ?thesis using fin bud charge_exact_error(2) by blast
  qed
  with Inl show ?thesis by (simp add: MAX_CHUNKS_PER_DOCUMENT_def)
qed simp

theorem split_without_overlap_total_witness:
  "(\<exists>chunks. split_recursive [98, 32, 32, 98] 2 0 = Ok chunks) \<or>
   split_recursive [98, 32, 32, 98] 2 0 = Err (TooManyChunks 10000)"
  using split_without_overlap_total [of 2 "[98, 32, 32, 98]"]
  by (simp add: text_len_def len_utf8_def)

text \<open>A document that fits one chunk is returned whole, unless it is blank.\<close>

lemma split_short_document:
  assumes "0 \<le> ov" "ov < sz" "int (length doc) \<le> sz" "text_len doc \<le> 33554432"
  shows "split_recursive doc sz ov =
    Ok (if list_all is_whitespace doc then [] else [mk_chunk doc 0 (0, length doc)])"
proof (cases "list_all is_whitespace doc")
  case True
  with assms show ?thesis
    by (auto simp: split_recursive_def Let_def list_ex_iff list_all_iff MAX_DOCUMENT_BYTES_def)
next
  case False
  then have "doc \<noteq> []" "list_ex (\<lambda>c. \<not> is_whitespace c) doc"
    by (auto simp: list_ex_iff list_all_iff)
  moreover from this assms have len: "length doc \<le> nat sz" "0 < length doc" by auto
  then have "walk doc 0 (length doc) 0 (new_merger doc (nat sz) (nat ov)) =
      Ok ((new_merger doc (nat sz) (nat ov))\<lparr>m_cur := Some (0, length doc)\<rparr>)"
    by (subst walk.simps) (simp add: push_def new_merger_def)
  ultimately show ?thesis using False assms len
    by (simp add: split_recursive_def Let_def MAX_DOCUMENT_BYTES_def new_merger_def
        finish_def emit_def MAX_CHUNKS_PER_DOCUMENT_def MAX_OUTPUT_AMPLIFICATION_def)
qed

end
