(* ===== verification/ChunkRefresh.thy ===== *)
theory ChunkRefresh
  imports Migrate Chunking
begin

text \<open>
  The local refresh phase, \<open>postvec/src/worker/chunk.rs\<close>: one transaction claims the oldest due refresh
  job of a recursive entry, splits the document and replaces its chunk rows and their embed jobs.

  The destination table of an entry is the list of its chunk rows with the identity sequence of their
  ids. Keys are held in the primary key's own type \<open>'k\<close>; \<open>rv_cast\<close> reads a key text in a type and is
  \<open>None\<close> where \<open>pg_input_is_valid\<close> fails. \<open>rv_source\<close> is the source row of a key under its \<open>FOR SHARE\<close> lock:
  absent, with a NULL source, or with a text.
\<close>

section \<open>State\<close>

record 'k chunk_row =
  cr_id :: int
  cr_source_pk :: 'k
  cr_seq :: "32 word"
  cr_start :: "64 word"
  cr_end :: "64 word"
  cr_text :: "scalar list"
  cr_vector :: "string option"

record 'k refresh_state =
  rs_db :: db
  rs_dest :: "int \<Rightarrow> 'k chunk_row list"
  rs_next :: "int \<Rightarrow> int"

record 'k refresh_env =
  rv_cast :: "string \<Rightarrow> string \<Rightarrow> 'k option"
  rv_source :: "int \<Rightarrow> 'k \<Rightarrow> scalar list option option"
  rv_missing :: "registry_entry \<Rightarrow> string list \<Rightarrow> string option"
  rv_locked :: "int \<Rightarrow> bool"
  rv_batch_size :: int
  rv_now :: int
  rv_show_split_error :: "split_error \<Rightarrow> string"
  rv_debug :: "string \<Rightarrow> string"

record refreshed =
  rf_processed :: bool
  rf_chunks_created :: nat

abbreviation refreshed_none :: refreshed where
  "refreshed_none \<equiv> \<lparr>rf_processed = False, rf_chunks_created = 0\<rparr>"

abbreviation refreshed_done :: refreshed where
  "refreshed_done \<equiv> \<lparr>rf_processed = True, rf_chunks_created = 0\<rparr>"

section \<open>Choosing and claiming a refresh\<close>

definition chunk_inflight_max :: "int \<Rightarrow> nat" where
  "chunk_inflight_max batch_size = nat (max (batch_size * 8) 1000)"

definition live_children :: "nat \<Rightarrow> int \<Rightarrow> job list \<Rightarrow> nat" where
  "live_children bound rid js = length (take bound (filter (\<lambda>j. jb_registry j = rid \<and> jb_op j = EmbedOp) js))"

definition refresh_candidates :: "int \<Rightarrow> nat \<Rightarrow> job list \<Rightarrow> job list" where
  "refresh_candidates now bound js =
     sort_key (\<lambda>j. (jb_not_before j, jb_id j))
       (filter (\<lambda>j. is_pending j \<and> jb_not_before j \<le> now \<and> jb_op j = RefreshOp \<and>
                    live_children bound (jb_registry j) js < bound) js)"

definition first_job :: "job list \<Rightarrow> job option" where
  "first_job js = (case js of [] \<Rightarrow> None | j # _ \<Rightarrow> Some j)"

definition prepare_refresh_entry :: "'k refresh_env \<Rightarrow> nat \<Rightarrow> db \<Rightarrow> (unit + int option) \<times> db" where
  "prepare_refresh_entry env bound d =
     (case first_job (refresh_candidates (rv_now env) bound (db_jobs d)) of
        None \<Rightarrow> (Ok None, d)
      | Some j \<Rightarrow>
          (case load_entry (jb_registry j) d of
             None \<Rightarrow> (Ok (Some (jb_registry j)), d)
           | Some entry \<Rightarrow>
               if re_state entry = ''disabled'' then (Ok (Some (jb_registry j)), d)
               else case rv_missing env entry [] of
                      Some reason \<Rightarrow> (Err (), quarantine_entry entry reason d)
                    | None \<Rightarrow> (Ok (Some (jb_registry j)), d)))"

definition claim_refresh :: "'k refresh_env \<Rightarrow> nat \<Rightarrow> int \<Rightarrow> db \<Rightarrow> job option \<times> db" where
  "claim_refresh env bound rid d =
     (case first_job (filter (\<lambda>j. jb_registry j = rid \<and> \<not> rv_locked env (jb_id j))
                        (refresh_candidates (rv_now env) bound (db_jobs d))) of
        None \<Rightarrow> (None, d)
      | Some j \<Rightarrow>
          (Some (claim_row (rv_now env) j),
           d\<lparr>db_jobs := map (\<lambda>x. if jb_id x = jb_id j then claim_row (rv_now env) x else x) (db_jobs d)\<rparr>))"

section \<open>Replacing a document's chunks\<close>

definition purge_document :: "registry_entry \<Rightarrow> 'k \<Rightarrow> string \<Rightarrow> 'k refresh_state \<Rightarrow> 'k refresh_state" where
  "purge_document entry key pk st =
     st\<lparr>rs_dest := (rs_dest st)(re_id entry := filter (\<lambda>r. cr_source_pk r \<noteq> key) (rs_dest st (re_id entry))),
        rs_db := (rs_db st)\<lparr>
          db_jobs := filter (\<lambda>j. \<not> (jb_registry j = re_id entry \<and> jb_pk j = pk \<and> jb_op j = EmbedOp)) (db_jobs (rs_db st)),
          db_dead := filter (\<lambda>j. \<not> (jb_registry j = re_id entry \<and> jb_pk j = pk)) (db_dead (rs_db st))\<rparr>\<rparr>"

definition chunk_row_of :: "'k \<Rightarrow> int \<Rightarrow> chunk \<Rightarrow> 'k chunk_row" where
  "chunk_row_of key i c =
     \<lparr>cr_id = i, cr_source_pk = key, cr_seq = seq c, cr_start = char_start c, cr_end = char_end c,
      cr_text = chunk_text c, cr_vector = None\<rparr>"

definition child_job :: "int \<Rightarrow> registry_entry \<Rightarrow> string \<Rightarrow> int \<Rightarrow> job" where
  "child_job now entry pk cid =
     \<lparr>jb_id = 0, jb_registry = re_id entry, jb_pk = pk, jb_op = EmbedOp, jb_chunk = Some cid, jb_attempts = 0,
      jb_not_before = now, jb_claimed = None, jb_error = None, jb_created = now\<rparr>"

definition insert_chunks ::
  "int \<Rightarrow> registry_entry \<Rightarrow> 'k \<Rightarrow> string \<Rightarrow> chunk list \<Rightarrow> 'k refresh_state \<Rightarrow> 'k refresh_state" where
  "insert_chunks now entry key pk chunks st =
     (if chunks = [] then st
      else
        let rid = re_id entry;
            ids = map (\<lambda>i. rs_next st rid + int i) [0..<length chunks]
        in st\<lparr>rs_dest := (rs_dest st)(rid := rs_dest st rid @ map2 (chunk_row_of key) ids chunks),
              rs_next := (rs_next st)(rid := rs_next st rid + int (length chunks)),
              rs_db := fold insert_pending (map (child_job now entry pk) ids) (rs_db st)\<rparr>)"

definition too_large_document :: "nat \<Rightarrow> string" where
  "too_large_document len =
     ''document is '' @ dec_int (int len) @ '' bytes; the recursive splitter accepts at most '' @
     dec_int (int MAX_DOCUMENT_BYTES) @
     '' bytes of UTF-8 '' @ map char_of [226, 128, 148 :: nat] @ '' store oversized payloads outside the semantic column or split them upstream''"

definition refresh_failure :: "'k refresh_env \<Rightarrow> registry_entry \<Rightarrow> string \<Rightarrow> split_error \<Rightarrow> string" where
  "refresh_failure env entry pk e =
     ''refresh of '' @ re_table_schema entry @ ''.'' @ re_table_name entry @ ''.'' @ re_source_column entry @
     '' row '' @ rv_debug env pk @ '' failed: '' @ rv_show_split_error env e"

definition malformed_refresh :: string where
  "malformed_refresh = ''malformed queue row: op='' @ [CHR 0x27] @ ''refresh'' @ [CHR 0x27] @ '' on a non-chunked entry''"

definition settle :: "(db \<Rightarrow> db) \<Rightarrow> 'k refresh_state \<Rightarrow> refreshed \<times> 'k refresh_state" where
  "settle f st = (refreshed_done, st\<lparr>rs_db := f (rs_db st)\<rparr>)"

text \<open>
  The rest of the transaction once a job is claimed. \<open>max_retries\<close> and the claim's attempts play no part:
  no outcome here is retried.
\<close>

definition refresh_document :: "'k refresh_env \<Rightarrow> job \<Rightarrow> 'k refresh_state \<Rightarrow> refreshed \<times> 'k refresh_state" where
  "refresh_document env claim st =
     (let job = [jb_id claim] in
      case load_entry (jb_registry claim) (rs_db st) of
        None \<Rightarrow> settle (delete_jobs job) st
      | Some entry \<Rightarrow>
          if re_state entry = ''disabled'' then settle (delete_jobs job) st
          else if \<not> is_recursive entry
          then settle (move_to_dead job malformed_refresh) st
          else case rv_missing env entry [] of
            Some reason \<Rightarrow> settle (quarantine_entry entry reason) st
          | None \<Rightarrow>
              (case rv_cast env (first_pk_type entry) (jb_pk claim) of
                 None \<Rightarrow> settle (move_to_dead job
                   (''pk_value is not valid input for PK type '' @ first_pk_type entry @ '' (direct queue insert?)'')) st
               | Some key \<Rightarrow>
                   (case rv_source env (re_id entry) key of
                      None \<Rightarrow> settle (delete_jobs job) (purge_document entry key (jb_pk claim) st)
                    | Some None \<Rightarrow> settle (delete_jobs job) (purge_document entry key (jb_pk claim) st)
                    | Some (Some doc) \<Rightarrow>
                        if text_len doc > MAX_DOCUMENT_BYTES
                        then settle (move_to_dead job (too_large_document (text_len doc))) st
                        else (case (re_chunk_size entry, re_chunk_overlap entry) of
                          (Some sz, Some ov) \<Rightarrow>
                            (case split_recursive doc sz ov of
                               Inl e \<Rightarrow> settle (move_to_dead job (refresh_failure env entry (jb_pk claim) e)) st
                             | Inr chunks \<Rightarrow>
                                 let st = insert_chunks (rv_now env) entry key (jb_pk claim) chunks
                                            (purge_document entry key (jb_pk claim) st)
                                 in (\<lparr>rf_processed = True, rf_chunks_created = length chunks\<rparr>,
                                     st\<lparr>rs_db := delete_jobs job (rs_db st)\<rparr>))
                        | _ \<Rightarrow> settle (quarantine_entry entry
                                 ''recursive entry is missing chunk_size/chunk_overlap (registry row edited?)'') st))))"

definition process_one_refresh :: "'k refresh_env \<Rightarrow> 'k refresh_state \<Rightarrow> refreshed \<times> 'k refresh_state" where
  "process_one_refresh env st =
     (let bound = chunk_inflight_max (rv_batch_size env) in
      case prepare_refresh_entry env bound (rs_db st) of
        (Inl _, d) \<Rightarrow> (refreshed_done, st\<lparr>rs_db := d\<rparr>)
      | (Inr None, d) \<Rightarrow> (refreshed_none, st\<lparr>rs_db := d\<rparr>)
      | (Inr (Some rid), d) \<Rightarrow>
          (case claim_refresh env bound rid d of
             (None, d) \<Rightarrow> (refreshed_none, st\<lparr>rs_db := d\<rparr>)
           | (Some claim, d) \<Rightarrow> refresh_document env claim (st\<lparr>rs_db := d\<rparr>)))"

text \<open>\<open>aborted\<close> is the error of a transaction that failed; its claim rolls back with it.\<close>

definition refresh_step ::
  "'k refresh_env \<Rightarrow> string option \<Rightarrow> counters \<Rightarrow> 'k refresh_state \<Rightarrow> bool \<times> counters \<times> 'k refresh_state" where
  "refresh_step env aborted ct st =
     (case aborted of
        Some e \<Rightarrow> (False, count_error (''chunk refresh: '' @ e) ct, st)
      | None \<Rightarrow>
          (case process_one_refresh env st of
             (r, st) \<Rightarrow>
               (rf_processed r,
                if rf_processed r
                then ct\<lparr>ct_documents_chunked := ct_documents_chunked ct + 1,
                        ct_chunks_created := ct_chunks_created ct + int (rf_chunks_created r)\<rparr>
                else ct, st)))"

section \<open>Every processed refresh uses up a job\<close>

definition refresh_count :: "db \<Rightarrow> nat" where
  "refresh_count d = length (filter (\<lambda>j. jb_op j = RefreshOp) (db_jobs d))"

lemma first_job_in: "first_job js = Some j \<Longrightarrow> j \<in> set js"
  by (auto simp: first_job_def split: list.splits)

lemma refresh_candidates_in:
  "j \<in> set (refresh_candidates now bound js) \<longleftrightarrow>
     j \<in> set js \<and> is_pending j \<and> jb_not_before j \<le> now \<and> jb_op j = RefreshOp \<and> live_children bound (jb_registry j) js < bound"
  by (auto simp: refresh_candidates_def)

lemma refresh_count_filter:
  assumes "db_jobs d' = filter P (db_jobs d)" "j \<in> set (db_jobs d)" "jb_op j = RefreshOp" "\<not> P j"
  shows "refresh_count d' < refresh_count d"
proof -
  have "filter (\<lambda>j. jb_op j = RefreshOp) (filter P (db_jobs d)) = filter P (filter (\<lambda>j. jb_op j = RefreshOp) (db_jobs d))"
    by (simp add: conj_commute)
  moreover have "length (filter P (filter (\<lambda>j. jb_op j = RefreshOp) (db_jobs d))) < length (filter (\<lambda>j. jb_op j = RefreshOp) (db_jobs d))"
    using assms(2-4) by (intro length_filter_less[of j]) auto
  ultimately show ?thesis by (simp only: refresh_count_def assms(1))
qed

lemma refresh_count_quarantine:
  assumes "j \<in> set (db_jobs d)" "jb_op j = RefreshOp" "jb_registry j = re_id entry"
  shows "refresh_count (quarantine_entry entry reason d) < refresh_count d"
  by (rule refresh_count_filter[OF _ assms(1,2), where P = "\<lambda>j. jb_registry j \<noteq> re_id entry"])
    (simp_all add: quarantine_entry_def assms(3))

lemma refresh_count_done:
  assumes "j \<in> set (db_jobs d)" "jb_op j = RefreshOp" "jb_id j = i"
  shows "refresh_count (delete_jobs [i] d) < refresh_count d" "refresh_count (move_to_dead [i] msg d) < refresh_count d"
  by (rule refresh_count_filter[OF _ assms(1,2), where P = "\<lambda>j. \<not> has_id [i] j"];
      simp add: delete_jobs_def move_to_dead_def has_id_def assms(3))+

lemma fold_insert_embed:
  assumes "list_all (\<lambda>j. jb_op j = EmbedOp) js"
  shows "filter (\<lambda>j. jb_op j = RefreshOp) (db_jobs (fold insert_pending js d)) = filter (\<lambda>j. jb_op j = RefreshOp) (db_jobs d)"
  using assms by (induction js arbitrary: d) (auto simp: insert_pending_def Let_def)

lemma refresh_jobs_purge [simp]:
  "filter (\<lambda>j. jb_op j = RefreshOp) (db_jobs (rs_db (purge_document entry key pk st))) =
   filter (\<lambda>j. jb_op j = RefreshOp) (db_jobs (rs_db st))"
  by (auto simp: purge_document_def intro: filter_cong)

lemma refresh_jobs_insert [simp]:
  "filter (\<lambda>j. jb_op j = RefreshOp) (db_jobs (rs_db (insert_chunks now entry key pk chunks st))) =
   filter (\<lambda>j. jb_op j = RefreshOp) (db_jobs (rs_db st))"
  by (simp add: insert_chunks_def Let_def fold_insert_embed list_all_iff child_job_def)

lemma refresh_document_uses_job:
  assumes "jb_op claim = RefreshOp" "claim \<in> set (db_jobs (rs_db st))"
    and "refresh_document env claim st = (r, st')"
  shows "rf_processed r \<and> refresh_count (rs_db st') < refresh_count (rs_db st)"
proof -
  have in_jobs: "claim \<in> set (db_jobs (rs_db s))"
    if "filter (\<lambda>j. jb_op j = RefreshOp) (db_jobs (rs_db s)) = filter (\<lambda>j. jb_op j = RefreshOp) (db_jobs (rs_db st))"
    for s :: "'a refresh_state"
  proof -
    have "claim \<in> set (filter (\<lambda>j. jb_op j = RefreshOp) (db_jobs (rs_db s)))" unfolding that using assms(1,2) by simp
    then show ?thesis by simp
  qed
  have count: "refresh_count (delete_jobs [jb_id claim] (rs_db s)) < refresh_count (rs_db st)"
    if same: "filter (\<lambda>j. jb_op j = RefreshOp) (db_jobs (rs_db s)) = filter (\<lambda>j. jb_op j = RefreshOp) (db_jobs (rs_db st))"
    for s :: "'a refresh_state"
    using refresh_count_done(1)[OF in_jobs[OF same] assms(1) refl] same by (simp add: refresh_count_def)
  show ?thesis
  proof (cases "load_entry (jb_registry claim) (rs_db st)")
    case None
    then show ?thesis using assms(3) count[of st] by (auto simp: refresh_document_def settle_def)
  next
    case (Some entry)
    note quarantined = refresh_count_quarantine[OF assms(2,1), of entry]
    note dead = refresh_count_done(2)[OF assms(2,1) refl]
    have id: "jb_registry claim = re_id entry" using load_entry_id[OF Some] by simp
    show ?thesis
      using assms(3) Some count[of st] quarantined[OF id] dead
        count[of "purge_document entry _ (jb_pk claim) st"]
        count[of "insert_chunks (rv_now env) entry _ (jb_pk claim) _ (purge_document entry _ (jb_pk claim) st)"]
      by (auto simp: refresh_document_def settle_def Let_def split: if_splits option.splits sum.splits)
  qed
qed

text \<open>
  The refresh drain ends: a pass that reports progress leaves fewer refresh jobs than it found, in
  every branch (dead letter, purge, quarantine or a new chunk set), and one that reports none has changed
  nothing. So the worker's loop over \<open>step\<close> stops after at most as many passes as there are refresh jobs.
\<close>
theorem refresh_makes_progress:
  "(let (r, st') = process_one_refresh env st in
    if rf_processed r then refresh_count (rs_db st') < refresh_count (rs_db st) else st' = st)"
proof -
  let ?bound = "chunk_inflight_max (rv_batch_size env)" and ?d = "rs_db st"
  let ?cands = "refresh_candidates (rv_now env) ?bound (db_jobs ?d)"
  have quarantined: "refresh_count (quarantine_entry entry reason ?d) < refresh_count ?d"
    if "j \<in> set ?cands" "load_entry (jb_registry j) ?d = Some entry" for j entry reason
    by (rule refresh_count_quarantine[of j]) (use that load_entry_id[OF that(2)] in \<open>simp_all add: refresh_candidates_in\<close>)
  have claimed: "rf_processed r \<and> refresh_count (rs_db st') < refresh_count ?d"
    if claim: "claim_refresh env ?bound rid ?d = (Some claim, d)" and run: "refresh_document env claim (st\<lparr>rs_db := d\<rparr>) = (r, st')"
    for rid claim d r st'
  proof -
    obtain j where j: "j \<in> set ?cands" "claim = claim_row (rv_now env) j"
      "d = ?d\<lparr>db_jobs := map (\<lambda>x. if jb_id x = jb_id j then claim_row (rv_now env) x else x) (db_jobs ?d)\<rparr>"
      using claim by (auto simp: claim_refresh_def split: option.splits dest!: first_job_in)
    have "claim \<in> set (db_jobs d)" using j by (auto simp: refresh_candidates_in)
    moreover have "jb_op claim = RefreshOp" using j by (simp add: refresh_candidates_in claim_row_def)
    moreover have "refresh_count d = refresh_count ?d"
      using j(3) by (simp add: refresh_count_def filter_map comp_def claim_row_def if_distrib cong: if_cong)
    ultimately show ?thesis using refresh_document_uses_job[of claim "st\<lparr>rs_db := d\<rparr>" env r st'] run by simp
  qed
  obtain p d1 where prep: "prepare_refresh_entry env ?bound ?d = (p, d1)" by force
  have broken: "refresh_count d1 < refresh_count ?d" if "p = Inl u" for u
    using prep that quarantined
    by (auto simp: prepare_refresh_entry_def split: option.splits if_splits dest: first_job_in)
  have pinned: "d1 = ?d" if "p = Inr x" for x
    using prep that by (auto simp: prepare_refresh_entry_def split: option.splits if_splits)
  consider "p = Inl ()" | "p = Inr None" | rid where "p = Inr (Some rid)" by (cases p) auto
  then show ?thesis
  proof cases
    case 3
    obtain c d2 where claim: "claim_refresh env ?bound rid ?d = (c, d2)" by force
    have none: "d2 = ?d" if "c = None" using claim that by (auto simp: claim_refresh_def split: option.splits)
    show ?thesis
    proof (cases c)
      case None
      then show ?thesis using 3 prep pinned[OF 3] claim none by (simp add: process_one_refresh_def Let_def)
    next
      case (Some cl)
      obtain r st' where run: "refresh_document env cl (st\<lparr>rs_db := d2\<rparr>) = (r, st')" by force
      then show ?thesis
        using claimed[OF claim[unfolded Some] run] 3 prep pinned[OF 3] claim Some by (simp add: process_one_refresh_def Let_def)
    qed
  qed (use prep broken pinned in \<open>simp_all add: process_one_refresh_def Let_def\<close>)
qed

section \<open>A refresh materializes the document\<close>

definition document_rows :: "int \<Rightarrow> 'k \<Rightarrow> 'k refresh_state \<Rightarrow> 'k chunk_row list" where
  "document_rows rid key st = filter (\<lambda>r. cr_source_pk r = key) (rs_dest st rid)"

definition waiting_chunks :: "int \<Rightarrow> string \<Rightarrow> db \<Rightarrow> int set" where
  "waiting_chunks rid pk d = {cid. (rid, EmbedOp, pk, Some cid) \<in> set (pending_keys (db_jobs d))}"

lemma document_rows_purge [simp]:
  "document_rows (re_id entry) key (purge_document entry key pk st) = []"
  by (simp add: document_rows_def purge_document_def)

lemma document_rows_insert:
  "document_rows (re_id entry) key (insert_chunks now entry key pk chunks st) =
   document_rows (re_id entry) key st @
     map2 (chunk_row_of key) (map (\<lambda>i. rs_next st (re_id entry) + int i) [0..<length chunks]) chunks"
  by (auto simp: document_rows_def insert_chunks_def Let_def chunk_row_of_def filter_id_conv set_zip)

lemma other_rows_kept:
  "filter (\<lambda>r. cr_source_pk r \<noteq> key) (rs_dest (insert_chunks now entry key pk chunks (purge_document entry key pk st)) rid)
   = filter (\<lambda>r. cr_source_pk r \<noteq> key) (rs_dest st rid)"
  by (auto simp: insert_chunks_def purge_document_def Let_def chunk_row_of_def filter_empty_conv set_zip)

lemma waiting_chunks_purge [simp]:
  "waiting_chunks (re_id entry) pk (rs_db (purge_document entry key pk st)) = {}"
  by (auto simp: waiting_chunks_def purge_document_def pending_keys_def job_key_def)

lemma waiting_chunks_insert:
  "waiting_chunks (re_id entry) pk (rs_db (insert_chunks now entry key pk chunks st)) =
   waiting_chunks (re_id entry) pk (rs_db st) \<union> (\<lambda>i. rs_next st (re_id entry) + int i) ` {..<length chunks}"
proof -
  define ids where "ids = map (\<lambda>i. rs_next st (re_id entry) + int i) [0..<length chunks]"
  have "list_all is_pending (map (child_job now entry pk) ids)"
    by (simp add: list_all_iff child_job_def is_pending_def)
  from fold_insert_pending_keys[OF this] have "waiting_chunks (re_id entry) pk (fold insert_pending (map (child_job now entry pk) ids) d)
      = waiting_chunks (re_id entry) pk d \<union> set ids" for d
    by (auto simp: waiting_chunks_def job_key_def child_job_def image_image)
  then show ?thesis
    by (cases "chunks = []") (simp_all add: insert_chunks_def Let_def flip: ids_def, simp add: ids_def atLeast0LessThan)
qed

text \<open>Deleting the claimed job takes no child with it: children get ids past the sequence.\<close>

lemma fold_insert_ids:
  assumes "j \<in> set (db_jobs (fold insert_pending js d))"
  shows "j \<in> set (db_jobs d) \<or> db_next d \<le> jb_id j"
  using assms
proof (induction js arbitrary: d)
  case (Cons x js)
  then have "j \<in> set (db_jobs (insert_pending x d)) \<or> db_next (insert_pending x d) \<le> jb_id j" by simp
  then show ?case by (auto simp: insert_pending_def Let_def split: if_splits)
qed simp

lemma waiting_chunks_delete:
  assumes "\<And>j. j \<in> set (db_jobs d) \<Longrightarrow> jb_id j = i \<Longrightarrow> jb_op j \<noteq> EmbedOp"
  shows "waiting_chunks rid pk (delete_jobs [i] d) = waiting_chunks rid pk d"
  using assms by (fastforce simp: waiting_chunks_def delete_jobs_def pending_keys_def job_key_def has_id_def)

lemma refresh_document_materializes:
  fixes st :: "'k refresh_state"
  assumes entry: "load_entry (jb_registry claim) (rs_db st) = Some entry" "re_state entry \<noteq> ''disabled''" "is_recursive entry"
    "rv_missing env entry [] = None" "rv_cast env (first_pk_type entry) (jb_pk claim) = Some key"
    "rv_source env (re_id entry) key = Some (Some doc)"
    "re_chunk_size entry = Some sz" "re_chunk_overlap entry = Some ov" "split_recursive doc sz ov = Ok chunks"
    and ids: "\<And>j. j \<in> set (db_jobs (rs_db st)) \<Longrightarrow> jb_id j = jb_id claim \<Longrightarrow> jb_op j \<noteq> EmbedOp" "jb_id claim < db_next (rs_db st)"
    and run: "refresh_document env claim st = (r, st')"
  shows "document_rows (re_id entry) key st' =
      map2 (chunk_row_of key) (map (\<lambda>i. rs_next st (re_id entry) + int i) [0..<length chunks]) chunks"
    and "waiting_chunks (re_id entry) (jb_pk claim) (rs_db st') = cr_id ` set (document_rows (re_id entry) key st')"
    and "filter (\<lambda>r. cr_source_pk r \<noteq> key) (rs_dest st' rid) = filter (\<lambda>r. cr_source_pk r \<noteq> key) (rs_dest st rid)"
    and "rf_chunks_created r = length chunks"
proof -
  have size: "\<not> text_len doc > MAX_DOCUMENT_BYTES"
    using entry(9) by (auto simp: split_recursive_def Let_def split: if_splits)
  define st1 where "st1 = insert_chunks (rv_now env) entry key (jb_pk claim) chunks (purge_document entry key (jb_pk claim) st)"
  have st': "st' = st1\<lparr>rs_db := delete_jobs [jb_id claim] (rs_db st1)\<rparr>" "rf_chunks_created r = length chunks"
    using run entry size by (auto simp: refresh_document_def Let_def st1_def)
  have next_id: "rs_next (purge_document entry key (jb_pk claim) st) = rs_next st"
    by (simp add: purge_document_def)
  show rows: "document_rows (re_id entry) key st' =
      map2 (chunk_row_of key) (map (\<lambda>i. rs_next st (re_id entry) + int i) [0..<length chunks]) chunks"
    using document_rows_insert[of entry key "rv_now env" "jb_pk claim" chunks "purge_document entry key (jb_pk claim) st"]
    by (simp add: st' document_rows_def[of _ _ "_\<lparr>rs_db := _\<rparr>"] next_id flip: st1_def) (simp add: document_rows_def)
  have job: "jb_op j \<noteq> EmbedOp" if "j \<in> set (db_jobs (rs_db st1))" "jb_id j = jb_id claim" for j
  proof -
    let ?p = "purge_document entry key (jb_pk claim) st"
    have "j \<in> set (db_jobs (rs_db ?p)) \<or> db_next (rs_db ?p) \<le> jb_id j"
      using that(1) fold_insert_ids[of j _ "rs_db ?p"] by (auto simp: st1_def insert_chunks_def Let_def split: if_splits)
    then show ?thesis using ids that(2) by (auto simp: purge_document_def)
  qed
  have "cr_id ` set (document_rows (re_id entry) key st') = (\<lambda>i. rs_next st (re_id entry) + int i) ` {..<length chunks}"
    unfolding rows by (force simp: set_zip chunk_row_of_def)
  then show "waiting_chunks (re_id entry) (jb_pk claim) (rs_db st') = cr_id ` set (document_rows (re_id entry) key st')"
    using waiting_chunks_insert[of entry "jb_pk claim" "rv_now env" key chunks "purge_document entry key (jb_pk claim) st"]
    by (simp add: st'(1) waiting_chunks_delete[OF job] next_id flip: st1_def)
  show "filter (\<lambda>r. cr_source_pk r \<noteq> key) (rs_dest st' rid) = filter (\<lambda>r. cr_source_pk r \<noteq> key) (rs_dest st rid)"
    using other_rows_kept[of key "rv_now env" entry "jb_pk claim" chunks st rid] by (simp add: st'(1) st1_def)
  show "rf_chunks_created r = length chunks" by (rule st'(2))
qed

lemma claim_refresh_facts:
  assumes "claim_refresh env bound rid d = (Some claim, d1)" "queue_inv d"
  shows "claim \<in> set (db_jobs d1)" "jb_op claim = RefreshOp" "db_registry d1 = db_registry d" "db_next d1 = db_next d"
    "jb_id claim < db_next d" "jb_registry claim = rid" "live_children bound rid (db_jobs d) < bound"
    "\<And>x. x \<in> set (db_jobs d1) \<Longrightarrow> jb_id x = jb_id claim \<Longrightarrow> jb_op x \<noteq> EmbedOp"
    "filter (\<lambda>j. jb_registry j = i \<and> jb_op j = EmbedOp) (db_jobs d1) = filter (\<lambda>j. jb_registry j = i \<and> jb_op j = EmbedOp) (db_jobs d)"
proof -
  obtain j where j: "j \<in> set (refresh_candidates (rv_now env) bound (db_jobs d))" "jb_registry j = rid" "claim = claim_row (rv_now env) j"
    and d1: "d1 = d\<lparr>db_jobs := map (\<lambda>x. if jb_id x = jb_id j then claim_row (rv_now env) x else x) (db_jobs d)\<rparr>"
    using assms(1) by (auto simp: claim_refresh_def split: option.splits dest!: first_job_in)
  have same: "x = j" if "x \<in> set (db_jobs d)" "jb_id x = jb_id j" for x
    using queue_invD(1)[OF assms(2)] that j(1) by (auto simp: refresh_candidates_in distinct_map inj_on_def)
  show "claim \<in> set (db_jobs d1)" "jb_op claim = RefreshOp" "db_registry d1 = db_registry d" "db_next d1 = db_next d"
    "jb_id claim < db_next d" "jb_registry claim = rid" "live_children bound rid (db_jobs d) < bound"
    using j d1 queue_invD(2)[OF assms(2)] by (auto simp: refresh_candidates_in claim_row_def)
  show "jb_op x \<noteq> EmbedOp" if member: "x \<in> set (db_jobs d1)" and same_id: "jb_id x = jb_id claim" for x
  proof -
    obtain y where y: "y \<in> set (db_jobs d)" "x = (if jb_id y = jb_id j then claim_row (rv_now env) y else y)"
      using member by (auto simp: d1)
    then have "jb_id y = jb_id j" using same_id j(3) by (auto simp: claim_row_def split: if_splits)
    then have "y = j" by (rule same[OF y(1)])
    then show ?thesis using y(2) j(1) by (simp add: refresh_candidates_in claim_row_def)
  qed
  have "(if jb_id x = jb_id j then claim_row (rv_now env) x else x) = (if x = j then claim_row (rv_now env) j else x)"
    if "x \<in> set (db_jobs d)" for x using same[OF that] by auto
  then have "db_jobs d1 = map (\<lambda>x. if x = j then claim_row (rv_now env) j else x) (db_jobs d)"
    by (simp add: d1)
  moreover have "filter P (map (\<lambda>x. if x = j then y else x) xs) = filter P xs" if "\<not> P j" "\<not> P y" for P y and xs :: "job list"
    using that by (induction xs) auto
  ultimately show "filter (\<lambda>j. jb_registry j = i \<and> jb_op j = EmbedOp) (db_jobs d1) = filter (\<lambda>j. jb_registry j = i \<and> jb_op j = EmbedOp) (db_jobs d)"
    using j(1) by (simp add: refresh_candidates_in claim_row_def)
qed

lemma prepare_refresh_pins: "prepare_refresh_entry env bound d = (Inr x, d1) \<Longrightarrow> d1 = d"
  by (auto simp: prepare_refresh_entry_def split: option.splits if_splits)

text \<open>
  C7. A refresh materializes the document. When the claimed job's entry is healthy and its source row
  holds a text the splitter accepts, the transaction leaves the destination with exactly the splitter's
  chunks of that text for this key, in order and under fresh ids, with one waiting embed job per chunk and
  no other for the document; every character that is not whitespace lies in one of the rows; the rows of
  other documents are untouched.
\<close>
theorem refresh_materializes_document:
  fixes st :: "'k refresh_state"
  assumes "queue_inv (rs_db st)"
    and "prepare_refresh_entry env (chunk_inflight_max (rv_batch_size env)) (rs_db st) = (Ok (Some rid), d0)"
    and "claim_refresh env (chunk_inflight_max (rv_batch_size env)) rid d0 = (Some claim, d)"
    and "load_entry rid (rs_db st) = Some entry" "re_state entry \<noteq> ''disabled''" "is_recursive entry"
    and "rv_missing env entry [] = None" "rv_cast env (first_pk_type entry) (jb_pk claim) = Some key"
    and "rv_source env rid key = Some (Some doc)"
    and "re_chunk_size entry = Some sz" "re_chunk_overlap entry = Some ov" "split_recursive doc sz ov = Ok chunks"
    and "process_one_refresh env st = (r, st')"
  shows "map (\<lambda>r. (cr_seq r, cr_start r, cr_end r, cr_text r, cr_vector r)) (document_rows rid key st') =
      map (\<lambda>c. (seq c, char_start c, char_end c, chunk_text c, None)) chunks \<and>
    waiting_chunks rid (jb_pk claim) (rs_db st') = cr_id ` set (document_rows rid key st') \<and>
    (\<forall>k < length doc. \<not> is_whitespace (doc ! k) \<longrightarrow>
       (\<exists>row \<in> set (document_rows rid key st'). unat (cr_start row) \<le> k \<and> k < unat (cr_end row))) \<and>
    filter (\<lambda>r. cr_source_pk r \<noteq> key) (rs_dest st' rid') = filter (\<lambda>r. cr_source_pk r \<noteq> key) (rs_dest st rid')"
proof -
  have d0: "d0 = rs_db st" by (rule prepare_refresh_pins[OF assms(2)])
  have claim: "claim_refresh env (chunk_inflight_max (rv_batch_size env)) rid (rs_db st) = (Some claim, d)"
    using assms(3) by (simp add: d0)
  note facts = claim_refresh_facts[OF claim assms(1)]
  have id: "re_id entry = rid" by (rule load_entry_id[OF assms(4)])
  have run: "refresh_document env claim (st\<lparr>rs_db := d\<rparr>) = (r, st')"
    using assms(13) by (simp add: process_one_refresh_def Let_def assms(2) d0 claim)
  have load: "load_entry (jb_registry claim) (rs_db (st\<lparr>rs_db := d\<rparr>)) = Some entry"
    using assms(4) facts(3,6) by (simp add: load_entry_def)
  have ids: "jb_id claim < db_next (rs_db (st\<lparr>rs_db := d\<rparr>))" using facts(4,5) by simp
  have jobs: "\<And>j. j \<in> set (db_jobs (rs_db (st\<lparr>rs_db := d\<rparr>))) \<Longrightarrow> jb_id j = jb_id claim \<Longrightarrow> jb_op j \<noteq> EmbedOp"
    using facts(8) by simp
  note done_facts = refresh_document_materializes[OF load assms(5-8) assms(9)[folded id] assms(10-12) jobs ids run]
  let ?rows = "document_rows rid key st'"
  have rows: "?rows = map2 (chunk_row_of key) (map (\<lambda>i. rs_next st rid + int i) [0..<length chunks]) chunks"
    using done_facts(1) by (simp add: id)
  have rows_map: "map f ?rows = map (\<lambda>c. g c) chunks" if "\<And>i c. f (chunk_row_of key i c) = g c" for f and g :: "chunk \<Rightarrow> 'z"
    unfolding rows by (rule nth_equalityI) (simp_all add: that)
  have covered: "\<exists>row \<in> set ?rows. unat (cr_start row) \<le> k \<and> k < unat (cr_end row)"
    if k: "k < length doc" "\<not> is_whitespace (doc ! k)" for k
  proof -
    obtain c where c: "c \<in> set chunks" "fst (chunk_span c) \<le> k" "k < snd (chunk_span c)"
      using split_recursive_spans(1)[OF assms(12)] k by (auto simp: split_spec_def covered_def)
    have "map (\<lambda>r. (cr_start r, cr_end r)) ?rows = map (\<lambda>c. (char_start c, char_end c)) chunks"
      by (rule rows_map) (simp add: chunk_row_of_def)
    from arg_cong[OF this, of set] have "(\<lambda>r. (cr_start r, cr_end r)) ` set ?rows = (\<lambda>c. (char_start c, char_end c)) ` set chunks"
      by (simp only: set_map)
    with imageI[OF c(1), of "\<lambda>c. (char_start c, char_end c)"]
    have "(char_start c, char_end c) \<in> (\<lambda>r. (cr_start r, cr_end r)) ` set ?rows" by simp
    then show ?thesis using c(2,3) by (auto simp: chunk_span_def)
  qed
  moreover have "map (\<lambda>r. (cr_seq r, cr_start r, cr_end r, cr_text r, cr_vector r)) ?rows =
      map (\<lambda>c. (seq c, char_start c, char_end c, chunk_text c, None)) chunks"
    by (rule rows_map) (simp add: chunk_row_of_def)
  moreover have "waiting_chunks rid (jb_pk claim) (rs_db st') = cr_id ` set ?rows"
    using done_facts(2) unfolding id .
  moreover have "filter (\<lambda>r. cr_source_pk r \<noteq> key) (rs_dest st' rid') = filter (\<lambda>r. cr_source_pk r \<noteq> key) (rs_dest st rid')"
    using done_facts(3)[of rid'] by simp
  ultimately show ?thesis by blast
qed

section \<open>The backlog of chunk embeddings\<close>

definition embed_load :: "int \<Rightarrow> db \<Rightarrow> nat" where
  "embed_load rid d = length (filter (\<lambda>j. jb_registry j = rid \<and> jb_op j = EmbedOp) (db_jobs d))"

lemma embed_load_filter: "db_jobs d' = filter P (db_jobs d) \<Longrightarrow> embed_load rid d' \<le> embed_load rid d"
proof -
  assume "db_jobs d' = filter P (db_jobs d)"
  then have "filter (\<lambda>j. jb_registry j = rid \<and> jb_op j = EmbedOp) (db_jobs d') =
      filter P (filter (\<lambda>j. jb_registry j = rid \<and> jb_op j = EmbedOp) (db_jobs d))"
    by (simp add: conj_commute)
  then show ?thesis by (simp only: embed_load_def length_filter_le)
qed

lemma embed_load_settled:
  "embed_load rid (delete_jobs ids d) \<le> embed_load rid d" "embed_load rid (move_to_dead ids msg d) \<le> embed_load rid d"
  "embed_load rid (quarantine_entry entry reason d) \<le> embed_load rid d"
  by (auto simp: delete_jobs_def move_to_dead_def quarantine_entry_def intro: embed_load_filter)

lemma embed_load_purge: "embed_load rid (rs_db (purge_document entry key pk st)) \<le> embed_load rid (rs_db st)"
  by (rule embed_load_filter) (simp add: purge_document_def)

lemma embed_load_inserts:
  "embed_load rid (fold insert_pending js d) \<le> embed_load rid d + length (filter (\<lambda>j. jb_registry j = rid) js)"
proof (induction js arbitrary: d)
  case (Cons j js)
  have "embed_load rid (insert_pending j d) \<le> embed_load rid d + (if jb_registry j = rid then 1 else 0)"
    by (simp add: embed_load_def insert_pending_def Let_def)
  then show ?case using Cons[of "insert_pending j d"] by (simp split: if_splits)
qed simp

lemma embed_load_insert_chunks:
  "embed_load rid (rs_db (insert_chunks now entry key pk chunks st)) \<le>
     embed_load rid (rs_db st) + (if rid = re_id entry then length chunks else 0)"
proof -
  define ids where "ids = map (\<lambda>i. rs_next st (re_id entry) + int i) [0..<length chunks]"
  have "filter (\<lambda>j. jb_registry j = rid) (map (child_job now entry pk) ids) = (if rid = re_id entry then map (child_job now entry pk) ids else [])"
    by (auto simp: child_job_def filter_empty_conv)
  then have "embed_load rid (fold insert_pending (map (child_job now entry pk) ids) (rs_db st))
      \<le> embed_load rid (rs_db st) + (if rid = re_id entry then length chunks else 0)"
    using embed_load_inserts[of rid "map (child_job now entry pk) ids" "rs_db st"] by (simp add: ids_def split: if_splits)
  then show ?thesis
    by (cases "chunks = []") (simp_all add: insert_chunks_def Let_def ids_def del: map_map split: if_splits)
qed

lemma refresh_document_load:
  assumes "refresh_document env claim st = (r, st')"
  shows "embed_load rid (rs_db st') \<le> embed_load rid (rs_db st) + (if rid = jb_registry claim then MAX_CHUNKS_PER_DOCUMENT else 0)"
proof (cases "load_entry (jb_registry claim) (rs_db st)")
  case (Some entry)
  have id: "jb_registry claim = re_id entry" using load_entry_id[OF Some] by simp
  have keep: "embed_load rid (rs_db st') \<le> embed_load rid (rs_db st)" if "(r, st') = settle f st"
    "f = delete_jobs [jb_id claim] \<or> (\<exists>msg. f = move_to_dead [jb_id claim] msg) \<or> (\<exists>reason. f = quarantine_entry entry reason)" for f
    using that by (auto simp: settle_def embed_load_settled)
  have purged: "embed_load rid (rs_db st') \<le> embed_load rid (rs_db st)"
    if "(r, st') = settle (delete_jobs [jb_id claim]) (purge_document entry key (jb_pk claim) st)" for key
    using that embed_load_purge[of rid entry key "jb_pk claim" st] embed_load_settled(1) by (auto simp: settle_def intro: order_trans)
  have split: "embed_load rid (rs_db st') \<le> embed_load rid (rs_db st) + (if rid = re_id entry then MAX_CHUNKS_PER_DOCUMENT else 0)"
    if "split_recursive doc sz ov = Ok chunks"
      "st' = (insert_chunks now entry key pk chunks (purge_document entry key pk st))\<lparr>rs_db :=
         delete_jobs [jb_id claim] (rs_db (insert_chunks now entry key pk chunks (purge_document entry key pk st)))\<rparr>"
    for doc sz ov chunks now key pk
  proof -
    have "length chunks \<le> MAX_CHUNKS_PER_DOCUMENT"
      using split_recursive_spans(1)[OF that(1)] by (simp add: split_spec_def)
    then show ?thesis
      using embed_load_settled(1)[of rid "[jb_id claim]" "rs_db (insert_chunks now entry key pk chunks (purge_document entry key pk st))"]
        embed_load_insert_chunks[of rid now entry key pk chunks "purge_document entry key pk st"]
        embed_load_purge[of rid entry key pk st] that(2) by (simp split: if_splits)
  qed
  from assms Some show ?thesis
    unfolding refresh_document_def Let_def id
    by (auto split: if_splits option.splits sum.splits dest!: sym[of _ "(r, st')"] dest: keep purged split intro: trans_le_add1)
qed (use assms in \<open>auto simp: refresh_document_def settle_def embed_load_settled intro: trans_le_add1\<close>)

text \<open>
  C38. Backpressure: a refresh pass leaves an entry with no more chunk embedding jobs than it had, or with
  fewer than \<open>chunk_inflight_max\<close> plus the chunks of one document.
\<close>
theorem refresh_backlog_bounded:
  assumes "queue_inv (rs_db st)"
  shows "embed_load rid (rs_db (snd (process_one_refresh env st))) \<le>
    max (embed_load rid (rs_db st)) (chunk_inflight_max (rv_batch_size env) - 1 + 10000)"
proof -
  let ?bound = "chunk_inflight_max (rv_batch_size env)" and ?d = "rs_db st"
  obtain p d1 where prep: "prepare_refresh_entry env ?bound ?d = (p, d1)" by force
  have broken: "embed_load rid d1 \<le> embed_load rid ?d"
    using prep by (auto simp: prepare_refresh_entry_def embed_load_settled split: option.splits if_splits)
  consider "p = Inl ()" | "p = Inr None" | i where "p = Inr (Some i)" by (cases p) auto
  then show ?thesis
  proof cases
    case 3
    have d1: "d1 = ?d" using prepare_refresh_pins prep 3 by blast
    obtain c d2 where claim: "claim_refresh env ?bound i ?d = (c, d2)" by force
    show ?thesis
    proof (cases c)
      case None
      then have "d2 = ?d" using claim by (auto simp: claim_refresh_def split: option.splits)
      then show ?thesis using 3 prep d1 claim None by (simp add: process_one_refresh_def Let_def)
    next
      case (Some cl)
      note facts = claim_refresh_facts[OF claim[unfolded Some] assms]
      obtain r st' where run: "refresh_document env cl (st\<lparr>rs_db := d2\<rparr>) = (r, st')" by force
      have same: "embed_load rid d2 = embed_load rid ?d" using facts(9)[of rid] by (simp add: embed_load_def)
      have room: "embed_load (jb_registry cl) ?d < ?bound"
        using facts(6,7) by (simp add: live_children_def embed_load_def min_def split: if_splits)
      have "embed_load rid (rs_db st') \<le> embed_load rid ?d + (if rid = jb_registry cl then MAX_CHUNKS_PER_DOCUMENT else 0)"
        using refresh_document_load[OF run, of rid] same by simp
      moreover have "snd (process_one_refresh env st) = st'"
        using 3 prep d1 claim Some run by (simp add: process_one_refresh_def Let_def)
      ultimately show ?thesis using room by (simp add: MAX_CHUNKS_PER_DOCUMENT_def split: if_splits)
    qed
  qed (use prep broken in \<open>simp_all add: process_one_refresh_def Let_def\<close>)
qed

section \<open>A small instance\<close>

definition sample_recursive :: registry_entry where
  "sample_recursive = sample_active\<lparr>re_chunking := ''recursive'', re_chunk_size := Some 4, re_chunk_overlap := Some 0\<rparr>"

definition sample_refresh_state :: "string refresh_state" where
  "sample_refresh_state =
     \<lparr>rs_db = sample_db\<lparr>db_jobs := [(sample_job 1 ''a'' None)\<lparr>jb_registry := 7, jb_op := RefreshOp, jb_not_before := 0\<rparr>],
                        db_registry := [sample_recursive]\<rparr>,
      rs_dest = (\<lambda>_. []), rs_next = (\<lambda>_. 1)\<rparr>"

definition sample_doc :: "scalar list" where
  "sample_doc = [72, 105, 46, 32, 79, 107]"

definition sample_refresh_env :: "string refresh_env" where
  "sample_refresh_env =
     \<lparr>rv_cast = (\<lambda>_ pk. Some pk), rv_source = (\<lambda>_ _. Some (Some sample_doc)), rv_missing = (\<lambda>_ _. None), rv_locked = (\<lambda>_. False),
      rv_batch_size = 1, rv_now = 9, rv_show_split_error = (\<lambda>_. ''split''), rv_debug = (\<lambda>s. s)\<rparr>"

theorem refresh_backlog_bounded_witness:
  "embed_load 7 (rs_db (snd (process_one_refresh sample_refresh_env sample_refresh_state))) \<le> 10999"
proof -
  have "queue_inv (rs_db sample_refresh_state)"
    by (simp add: sample_refresh_state_def queue_inv_def sample_job_def sample_db_def pending_keys_def)
  moreover have "embed_load 7 (rs_db sample_refresh_state) = 0"
    by (simp add: embed_load_def sample_refresh_state_def)
  ultimately show ?thesis
    using refresh_backlog_bounded[of sample_refresh_state 7 sample_refresh_env]
    by (simp add: sample_refresh_env_def chunk_inflight_max_def)
qed

lemma sample_split:
  "split_recursive sample_doc 4 0 = Ok [mk_chunk sample_doc 0 (0, 4), mk_chunk sample_doc 1 (4, 6)]"
  by (simp add: sample_doc_def chunk_eval) (simp add: eval_nat_numeral)

lemma sample_refresh_claim:
  "prepare_refresh_entry sample_refresh_env 1000 (rs_db sample_refresh_state) = (Ok (Some 7), rs_db sample_refresh_state)"
  "\<exists>claim d. claim_refresh sample_refresh_env 1000 7 (rs_db sample_refresh_state) = (Some claim, d) \<and> jb_pk claim = ''a''"
  "load_entry 7 (rs_db sample_refresh_state) = Some sample_recursive"
  by (simp_all add: prepare_refresh_entry_def claim_refresh_def refresh_candidates_def first_job_def live_children_def
      sample_refresh_env_def sample_refresh_state_def sample_job_def is_pending_def load_entry_def sample_recursive_def
      sample_active_def sample_docs_def claim_row_def)

theorem refresh_materializes_document_witness:
  "length (document_rows 7 ''a'' (snd (process_one_refresh sample_refresh_env sample_refresh_state))) = 2"
proof -
  obtain claim d where claim: "claim_refresh sample_refresh_env 1000 7 (rs_db sample_refresh_state) = (Some claim, d)" "jb_pk claim = ''a''"
    using sample_refresh_claim(2) by blast
  obtain r st' where run: "process_one_refresh sample_refresh_env sample_refresh_state = (r, st')" by force
  have inv: "queue_inv (rs_db sample_refresh_state)"
    by (simp add: sample_refresh_state_def queue_inv_def sample_job_def sample_db_def pending_keys_def)
  have bound: "chunk_inflight_max (rv_batch_size sample_refresh_env) = 1000"
    by (simp add: chunk_inflight_max_def sample_refresh_env_def)
  have "map (\<lambda>r. (cr_seq r, cr_start r, cr_end r, cr_text r, cr_vector r)) (document_rows 7 ''a'' st') =
      map (\<lambda>c. (seq c, char_start c, char_end c, chunk_text c, None)) [mk_chunk sample_doc 0 (0, 4), mk_chunk sample_doc 1 (4, 6)]"
    by (rule refresh_materializes_document[where doc = sample_doc and entry = sample_recursive and claim = claim,
          OF inv sample_refresh_claim(1)[folded bound] claim(1)[folded bound] sample_refresh_claim(3) _ _ _ _ _ _ _ sample_split run,
          THEN conjunct1])
      (simp_all add: sample_recursive_def sample_active_def sample_docs_def is_recursive_def sample_refresh_env_def claim(2))
  from arg_cong[OF this, of length] show ?thesis by (simp add: run)
qed

end
