(* ===== verification/Redrive.thy ===== *)
theory Redrive
  imports ChunkRefresh
begin

text \<open>
  \<open>postvec.retry_dead()\<close> of \<open>postvec/src/api/registry.rs\<close>: the verb with which an operator puts
  dead-lettered jobs back into the queue.

  The record \<open>redrive_env\<close> holds what the verb reads outside the extension's schema: the facts of the
  relation, the catalogue checks, the identity column \<open>dead_id\<close> of \<open>postvec.jobs_dead\<close>, the typed reading
  of a key, and the error of the moving statement when it fails (a lock timeout, a key that no longer
  casts). The checks run on one snapshot \<open>d0\<close> and the statement on a later one \<open>d\<close>, as in a session that
  other sessions run beside; \<open>error!\<close> aborts the transaction, so a refusal has no state.
\<close>

section \<open>The verb\<close>

datatype redrive_error =
    RelationVanished
  | NotATable string
  | NotTableOwner
  | EntryNotEnabled
  | NotActive string
  | MissingDependency string
  | TriggersMissing
  | EmptyIds
  | NullId
  | BadIds "int list"
  | StatementFailed string
  | IdsConsumed nat nat

record 'k redrive_env =
  rd_facts :: "(string \<times> string \<times> string \<times> bool) option"
  rd_missing :: "registry_entry \<Rightarrow> string list \<Rightarrow> string option"
  rd_triggers_missing :: "registry_entry \<Rightarrow> bool"
  rd_dead_id :: "job \<Rightarrow> int"
  rd_cast :: "string \<Rightarrow> string \<Rightarrow> 'k option"
  rd_failed :: "string option"
  rd_now :: int

record redriven =
  rn_consumed :: nat
  rn_obsolete :: nat
  rn_full_batch :: bool
  rn_kicked :: bool

definition RETRY_DEAD_MAX_ROWS :: nat where
  "RETRY_DEAD_MAX_ROWS = 100000"

definition AMBIGUOUS_LEGACY :: string where
  "AMBIGUOUS_LEGACY = ''queued before postvec 0.3.0 in an ambiguous key format''"

definition ambiguous_legacy :: "job \<Rightarrow> bool" where
  "ambiguous_legacy j = (case jb_error j of None \<Rightarrow> False | Some e \<Rightarrow> starts_with AMBIGUOUS_LEGACY e)"

definition load_any :: "string \<Rightarrow> string \<Rightarrow> string \<Rightarrow> db \<Rightarrow> registry_entry option" where
  "load_any schema table column d =
     find (\<lambda>e. re_table_schema e = schema \<and> re_table_name e = table \<and> re_source_column e = column) (db_registry d)"

definition redrive_entry :: "'k redrive_env \<Rightarrow> string \<Rightarrow> db \<Rightarrow> redrive_error + registry_entry" where
  "redrive_entry env column d =
     (case rd_facts env of
        None \<Rightarrow> Err RelationVanished
      | Some (schema, table, relkind, owner_ok) \<Rightarrow>
          if relkind \<noteq> ''r'' \<and> relkind \<noteq> ''p'' then Err (NotATable relkind)
          else if \<not> owner_ok then Err NotTableOwner
          else case load_any schema table column d of
            None \<Rightarrow> Err EntryNotEnabled
          | Some entry \<Rightarrow>
              if re_state entry \<noteq> ''active'' then Err (NotActive (re_state entry))
              else case rd_missing env entry [] of
                Some reason \<Rightarrow> Err (MissingDependency reason)
              | None \<Rightarrow> if rd_triggers_missing env entry then Err TriggersMissing else Ok entry)"

definition owned_dead :: "int \<Rightarrow> job \<Rightarrow> bool" where
  "owned_dead rid j \<longleftrightarrow> jb_registry j = rid \<and> \<not> ambiguous_legacy j"

definition picked_ids :: "'k redrive_env \<Rightarrow> int \<Rightarrow> int option list option \<Rightarrow> db \<Rightarrow> redrive_error + int list option" where
  "picked_ids env rid dead_ids d =
     (case dead_ids of
        None \<Rightarrow> Ok None
      | Some ids \<Rightarrow>
          if ids = [] then Err EmptyIds
          else if None \<in> set ids then Err NullId
          else
            let ids = sort (remdups (map the ids));
                owned = map (rd_dead_id env) (filter (\<lambda>j. rd_dead_id env j \<in> set ids \<and> owned_dead rid j) (db_dead d))
            in if length owned \<noteq> length ids
               then Err (BadIds (filter (\<lambda>i. i \<notin> set owned) ids))
               else Ok (Some ids))"

text \<open>The rows one call consumes, and the fresh jobs of their distinct identities.\<close>

definition pick_dead :: "'k redrive_env \<Rightarrow> int \<Rightarrow> int list option \<Rightarrow> db \<Rightarrow> job list" where
  "pick_dead env rid ids d =
     take RETRY_DEAD_MAX_ROWS (sort_key (rd_dead_id env)
       (filter (\<lambda>j. owned_dead rid j \<and> (case ids of None \<Rightarrow> True | Some xs \<Rightarrow> rd_dead_id env j \<in> set xs)) (db_dead d)))"

definition fresh_job :: "int \<Rightarrow> int \<Rightarrow> string \<Rightarrow> job_op \<Rightarrow> int option \<Rightarrow> job" where
  "fresh_job now rid pk oper chunk =
     \<lparr>jb_id = 0, jb_registry = rid, jb_pk = pk, jb_op = oper, jb_chunk = chunk, jb_attempts = 0,
      jb_not_before = now, jb_claimed = None, jb_error = None, jb_created = now\<rparr>"

definition chunk_alive :: "'k redrive_env \<Rightarrow> registry_entry \<Rightarrow> 'k chunk_row list \<Rightarrow> string \<Rightarrow> int option \<Rightarrow> bool" where
  "chunk_alive env entry rows pk chunk =
     (case chunk of
        None \<Rightarrow> False
      | Some c \<Rightarrow> list_ex (\<lambda>r. cr_id r = c \<and> rd_cast env (first_pk_type entry) pk = Some (cr_source_pk r)) rows)"

definition redrive_recursive ::
  "'k redrive_env \<Rightarrow> registry_entry \<Rightarrow> 'k chunk_row list \<Rightarrow> job list \<Rightarrow> nat \<times> job list" where
  "redrive_recursive env entry rows del =
     (let dedup = remdups (map (\<lambda>j. (jb_pk j, jb_op j, jb_chunk j)) del);
          fresh = (\<lambda>oper chunk pk. fresh_job (rd_now env) (re_id entry) pk oper chunk)
      in (length (filter (\<lambda>(pk, oper, chunk). oper \<noteq> RefreshOp \<and> \<not> chunk_alive env entry rows pk chunk) dedup),
          map (\<lambda>(pk, oper, chunk). fresh RefreshOp None pk) (filter (\<lambda>(pk, oper, chunk). oper = RefreshOp) dedup) @
          map (\<lambda>(pk, oper, chunk). fresh EmbedOp chunk pk)
            (filter (\<lambda>(pk, oper, chunk). oper = EmbedOp \<and> chunk_alive env entry rows pk chunk) dedup)))"

definition redrive_column :: "'k redrive_env \<Rightarrow> registry_entry \<Rightarrow> job list \<Rightarrow> nat \<times> job list" where
  "redrive_column env entry del =
     (0, map (\<lambda>pk. fresh_job (rd_now env) (re_id entry) pk EmbedOp None) (remdups (map jb_pk del)))"

definition redrive_jobs ::
  "'k redrive_env \<Rightarrow> registry_entry \<Rightarrow> 'k chunk_row list \<Rightarrow> job list \<Rightarrow> nat \<times> job list" where
  "redrive_jobs env entry rows del =
     (if is_recursive entry then redrive_recursive env entry rows del else redrive_column env entry del)"

definition retry_dead ::
  "'k redrive_env \<Rightarrow> string \<Rightarrow> int option list option \<Rightarrow> (int \<Rightarrow> 'k chunk_row list) \<Rightarrow> db \<Rightarrow> db
   \<Rightarrow> redrive_error + redriven \<times> db" where
  "retry_dead env column dead_ids dest d0 d =
     and_then (redrive_entry env column d0) (\<lambda>entry.
     and_then (picked_ids env (re_id entry) dead_ids d0) (\<lambda>ids.
       case rd_failed env of
         Some e \<Rightarrow> Err (StatementFailed e)
       | None \<Rightarrow>
           let del = pick_dead env (re_id entry) ids d;
               consumed = length del;
               (obsolete, fresh) = redrive_jobs env entry (dest (re_id entry)) del;
               d' = fold insert_pending fresh
                      (d\<lparr>db_dead := filter (\<lambda>j. rd_dead_id env j \<notin> rd_dead_id env ` set del) (db_dead d)\<rparr>)
           in (case ids of
                 Some xs \<Rightarrow>
                   if consumed \<noteq> length xs then Err (IdsConsumed (length xs - consumed) (length xs))
                   else Ok (\<lparr>rn_consumed = consumed, rn_obsolete = obsolete, rn_full_batch = False, rn_kicked = consumed \<noteq> 0\<rparr>, d')
               | None \<Rightarrow>
                   Ok (\<lparr>rn_consumed = consumed, rn_obsolete = obsolete, rn_full_batch = (consumed = RETRY_DEAD_MAX_ROWS),
                        rn_kicked = consumed \<noteq> 0\<rparr>, d'))))"

section \<open>What a call consumes\<close>

lemma pick_dead_in:
  assumes "j \<in> set (pick_dead env rid ids d)"
  shows "j \<in> set (db_dead d)" "owned_dead rid j" "ids = Some xs \<Longrightarrow> rd_dead_id env j \<in> set xs"
  using in_set_takeD[OF assms[unfolded pick_dead_def]] by auto

lemma pick_dead_distinct:
  assumes "distinct (map (rd_dead_id env) (db_dead d))"
  shows "distinct (map (rd_dead_id env) (pick_dead env rid ids d))"
proof -
  let ?P = "\<lambda>j. owned_dead rid j \<and> (case ids of None \<Rightarrow> True | Some xs \<Rightarrow> rd_dead_id env j \<in> set xs)"
  have perm: "mset (map (rd_dead_id env) (sort_key (rd_dead_id env) (filter ?P (db_dead d)))) =
      mset (map (rd_dead_id env) (filter ?P (db_dead d)))" by simp
  have "distinct (map (rd_dead_id env) (filter ?P (db_dead d)))" by (rule distinct_map_filter[OF assms])
  then have "distinct (map (rd_dead_id env) (sort_key (rd_dead_id env) (filter ?P (db_dead d))))"
    by (rule mset_eq_imp_distinct_iff[OF perm, THEN iffD2])
  from distinct_take[OF this] show ?thesis unfolding pick_dead_def take_map .
qed

lemma pick_dead_all:
  assumes "length (pick_dead env rid None d) \<noteq> RETRY_DEAD_MAX_ROWS" "j \<in> set (db_dead d)" "owned_dead rid j"
  shows "j \<in> set (pick_dead env rid None d)"
proof -
  let ?xs = "sort_key (rd_dead_id env) (filter (owned_dead rid) (db_dead d))"
  have pick: "pick_dead env rid None d = take RETRY_DEAD_MAX_ROWS ?xs" by (simp add: pick_dead_def)
  then have "take RETRY_DEAD_MAX_ROWS ?xs = ?xs" using assms(1) by (auto simp: min_def split: if_splits)
  then show ?thesis using assms(2,3) pick by simp
qed

lemma picked_idsE:
  assumes "picked_ids env rid dead_ids d = Ok ids"
  obtains "dead_ids = None" "ids = None"
  | xs where "dead_ids = Some (map Some xs)" "ids = Some (sort (remdups xs))"
proof (cases dead_ids)
  case (Some ys)
  then have "None \<notin> set ys" and ids: "ids = Some (sort (remdups (map the ys)))"
    using assms by (auto simp: picked_ids_def Let_def split: if_splits)
  then have "map (Some \<circ> the) ys = ys" by (intro map_idI) (metis comp_apply option.collapse)
  then have "ys = map Some (map the ys)" by (simp add: list.map_comp)
  then show thesis using that(2) ids Some by metis
qed (use assms that(1) in \<open>auto simp: picked_ids_def\<close>)

lemma redrive_entryE:
  assumes "redrive_entry env column d = Ok entry"
  obtains schema table relkind where "rd_facts env = Some (schema, table, relkind, True)"
    "load_any schema table column d = Some entry" "re_state entry = ''active''"
    "rd_missing env entry [] = None" "\<not> rd_triggers_missing env entry"
  using assms by (auto simp: redrive_entry_def split: option.splits if_splits)

lemma retry_deadE:
  assumes "retry_dead env column dead_ids dest d0 d = Ok (r, d')"
  obtains entry ids del where "redrive_entry env column d0 = Ok entry"
    "picked_ids env (re_id entry) dead_ids d0 = Ok ids" "del = pick_dead env (re_id entry) ids d"
    "rn_consumed r = length del" "rn_obsolete r = fst (redrive_jobs env entry (dest (re_id entry)) del)"
    "d' = fold insert_pending (snd (redrive_jobs env entry (dest (re_id entry)) del))
            (d\<lparr>db_dead := filter (\<lambda>j. rd_dead_id env j \<notin> rd_dead_id env ` set del) (db_dead d)\<rparr>)"
    "\<forall>xs. ids = Some xs \<longrightarrow> length del = length xs"
    "ids = None \<longrightarrow> rn_full_batch r = (length del = RETRY_DEAD_MAX_ROWS)"
proof -
  obtain entry ids where e: "redrive_entry env column d0 = Ok entry" "picked_ids env (re_id entry) dead_ids d0 = Ok ids"
    using assms by (auto simp: retry_dead_def simp del: case_prod_unfold)
  define del where "del = pick_dead env (re_id entry) ids d"
  obtain obsolete fresh where jobs: "redrive_jobs env entry (dest (re_id entry)) del = (obsolete, fresh)" by force
  have failed: "rd_failed env = None" using assms e by (simp add: retry_dead_def split: option.splits)
  note run = assms[unfolded retry_dead_def e and_then_Ok failed option.case Let_def, folded del_def, unfolded jobs prod.case]
  show thesis
  proof (rule that[OF e del_def])
    show "rn_consumed r = length del" "rn_obsolete r = fst (redrive_jobs env entry (dest (re_id entry)) del)"
      using run by (auto simp: jobs split: option.splits if_splits)
    show "d' = fold insert_pending (snd (redrive_jobs env entry (dest (re_id entry)) del))
            (d\<lparr>db_dead := filter (\<lambda>j. rd_dead_id env j \<notin> rd_dead_id env ` set del) (db_dead d)\<rparr>)"
      unfolding jobs snd_conv using run by (simp split: option.splits if_splits)
    show "\<forall>xs. ids = Some xs \<longrightarrow> length del = length xs" using run by (auto split: if_splits)
    show "ids = None \<longrightarrow> rn_full_batch r = (length del = RETRY_DEAD_MAX_ROWS)" using run by auto
  qed
qed

lemma explicit_ids_consumed:
  assumes "distinct (map (rd_dead_id env) (db_dead d))" "length (pick_dead env rid (Some xs) d) = length xs" "distinct xs"
  shows "rd_dead_id env ` set (pick_dead env rid (Some xs) d) = set xs"
proof (rule card_subset_eq)
  show "rd_dead_id env ` set (pick_dead env rid (Some xs) d) \<subseteq> set xs" using pick_dead_in(3) by fast
  have "card (set (map (rd_dead_id env) (pick_dead env rid (Some xs) d))) = length (pick_dead env rid (Some xs) d)"
    using distinct_card[OF pick_dead_distinct[OF assms(1)]] by simp
  then show "card (rd_dead_id env ` set (pick_dead env rid (Some xs) d)) = card (set xs)"
    using assms(2) distinct_card[OF assms(3)] by simp
qed simp

lemma kept_dead:
  assumes "distinct (map (rd_dead_id env) (db_dead d))" "set del \<subseteq> set (db_dead d)"
  shows "filter (\<lambda>j. rd_dead_id env j \<notin> rd_dead_id env ` set del) (db_dead d) = filter (\<lambda>j. j \<notin> set del) (db_dead d)"
proof (rule filter_cong[OF refl])
  fix j assume "j \<in> set (db_dead d)"
  then show "rd_dead_id env j \<notin> rd_dead_id env ` set del \<longleftrightarrow> j \<notin> set del"
    using assms inj_on_image_mem_iff[of "rd_dead_id env" "set (db_dead d)" j "set del"] by (simp add: distinct_map)
qed

lemma redrive_jobs_pending: "list_all is_pending (snd (redrive_jobs env entry rows del))"
  by (auto simp: redrive_jobs_def redrive_recursive_def redrive_column_def list_all_iff fresh_job_def is_pending_def Let_def)

lemma redriven_db_dead:
  "db_dead (fold insert_pending js d) = db_dead d"
  by (induction js arbitrary: d) (auto simp: insert_pending_def Let_def)

text \<open>The identity a consumed row is queued under again; an obsolete chunk job has none.\<close>

definition redrive_key :: "'k redrive_env \<Rightarrow> registry_entry \<Rightarrow> 'k chunk_row list \<Rightarrow> job \<Rightarrow> job_key option" where
  "redrive_key env entry rows j =
     (if \<not> is_recursive entry then Some (re_id entry, EmbedOp, jb_pk j, None)
      else case jb_op j of
        RefreshOp \<Rightarrow> Some (re_id entry, RefreshOp, jb_pk j, None)
      | EmbedOp \<Rightarrow> if chunk_alive env entry rows (jb_pk j) (jb_chunk j)
                   then Some (re_id entry, EmbedOp, jb_pk j, jb_chunk j) else None)"

lemma redrive_jobs_keys:
  "job_key ` set (snd (redrive_jobs env entry rows del)) = {k. \<exists>j \<in> set del. redrive_key env entry rows j = Some k}"
proof (cases "is_recursive entry")
  case True
  let ?t = "\<lambda>j. (jb_pk j, jb_op j, jb_chunk j)"
  have "k \<in> job_key ` set (snd (redrive_jobs env entry rows del)) \<longleftrightarrow>
      (\<exists>j \<in> set del. jb_op j = RefreshOp \<and> k = (re_id entry, RefreshOp, jb_pk j, None)) \<or>
      (\<exists>j \<in> set del. jb_op j = EmbedOp \<and> chunk_alive env entry rows (jb_pk j) (jb_chunk j) \<and>
         k = (re_id entry, EmbedOp, jb_pk j, jb_chunk j))" for k
    using True by (simp add: redrive_jobs_def redrive_recursive_def Let_def image_Un image_image fresh_job_def job_key_def
        split_beta, auto simp: image_iff, metis+)
  moreover have "redrive_key env entry rows j = Some k \<longleftrightarrow>
      jb_op j = RefreshOp \<and> k = (re_id entry, RefreshOp, jb_pk j, None) \<or>
      jb_op j = EmbedOp \<and> chunk_alive env entry rows (jb_pk j) (jb_chunk j) \<and>
         k = (re_id entry, EmbedOp, jb_pk j, jb_chunk j)" for j k
    using True by (cases "jb_op j") (auto simp: redrive_key_def)
  ultimately show ?thesis by blast
next
  case False
  then show ?thesis
    by (auto simp: redrive_jobs_def redrive_column_def redrive_key_def fresh_job_def job_key_def image_image)
qed

lemma redrive_jobs_fresh:
  assumes "j \<in> set (snd (redrive_jobs env entry rows del))"
  shows "jb_registry j = re_id entry" "jb_attempts j = 0" "jb_error j = None" "jb_not_before j = rd_now env"
  using assms by (auto simp: redrive_jobs_def redrive_recursive_def redrive_column_def fresh_job_def Let_def split: if_splits)

text \<open>
  A call that succeeds acts for one active entry found under the relation's name, owned by the caller,
  whose dependencies and triggers are in place. It removes a set of that entry's dead letters and no
  other: with an explicit list exactly the listed rows, without one every dead letter of the entry unless
  it stops at a full batch and says so. Ambiguous keys from before 0.3.0 are never consumed.
\<close>

theorem redrive_consumes_exactly:
  assumes "retry_dead env column dead_ids dest d0 d = Ok (r, d')"
    and "distinct (map (rd_dead_id env) (db_dead d))"
  shows "\<exists>entry gone. entry \<in> set (db_registry d0) \<and> re_source_column entry = column \<and> re_state entry = ''active'' \<and>
    rd_missing env entry [] = None \<and> \<not> rd_triggers_missing env entry \<and>
    (\<exists>relkind. rd_facts env = Some (re_table_schema entry, re_table_name entry, relkind, True)) \<and>
    gone \<subseteq> set (db_dead d) \<and> db_dead d' = filter (\<lambda>j. j \<notin> gone) (db_dead d) \<and> rn_consumed r = card gone \<and>
    rn_consumed r \<le> RETRY_DEAD_MAX_ROWS \<and>
    (\<forall>j \<in> gone. jb_registry j = re_id entry \<and> \<not> ambiguous_legacy j) \<and>
    (\<forall>ids. dead_ids = Some ids \<longrightarrow> Some ` rd_dead_id env ` gone = set ids) \<and>
    (dead_ids = None \<and> \<not> rn_full_batch r \<longrightarrow>
       (\<forall>j \<in> set (db_dead d'). jb_registry j = re_id entry \<longrightarrow> ambiguous_legacy j))"
proof -
  from assms(1) obtain entry ids del where e: "redrive_entry env column d0 = Ok entry"
    and ids: "picked_ids env (re_id entry) dead_ids d0 = Ok ids" and del: "del = pick_dead env (re_id entry) ids d"
    and consumed: "rn_consumed r = length del"
    and d': "d' = fold insert_pending (snd (redrive_jobs env entry (dest (re_id entry)) del))
            (d\<lparr>db_dead := filter (\<lambda>j. rd_dead_id env j \<notin> rd_dead_id env ` set del) (db_dead d)\<rparr>)"
    and len: "\<forall>xs. ids = Some xs \<longrightarrow> length del = length xs"
    and full: "ids = None \<longrightarrow> rn_full_batch r = (length del = RETRY_DEAD_MAX_ROWS)"
    by (rule retry_deadE) (rule that, assumption+)
  have sub: "set del \<subseteq> set (db_dead d)" using pick_dead_in(1) del by blast
  have dead: "db_dead d' = filter (\<lambda>j. j \<notin> set del) (db_dead d)"
    by (simp add: d' redriven_db_dead kept_dead[OF assms(2) sub])
  have card: "rn_consumed r = card (set del)"
    using pick_dead_distinct[OF assms(2), of "re_id entry" ids] consumed del by (simp add: distinct_map distinct_card)
  have explicit: "Some ` rd_dead_id env ` set del = set ys" if "dead_ids = Some ys" for ys
    using ids
  proof (cases rule: picked_idsE)
    case (2 xs)
    then have "rd_dead_id env ` set del = set xs"
      using explicit_ids_consumed[OF assms(2), of "re_id entry" "sort (remdups xs)"] len del by simp
    then show ?thesis using 2 that by simp
  qed (use that in simp)
  have rest: "ambiguous_legacy j"
    if "dead_ids = None" "\<not> rn_full_batch r" "j \<in> set (db_dead d')" "jb_registry j = re_id entry" for j
  proof (rule ccontr)
    assume a: "\<not> ambiguous_legacy j"
    have none: "ids = None" using ids that(1) by (simp add: picked_ids_def)
    have "j \<in> set del"
      unfolding del none by (rule pick_dead_all) (use that full none del dead a in \<open>auto simp: owned_dead_def\<close>)
    then show False using that(3) dead by simp
  qed
  obtain schema table relkind where f: "rd_facts env = Some (schema, table, relkind, True)"
    "load_any schema table column d0 = Some entry" "re_state entry = ''active''" "rd_missing env entry [] = None"
    "\<not> rd_triggers_missing env entry"
    using e by (rule redrive_entryE)
  have "length del \<le> RETRY_DEAD_MAX_ROWS" by (simp add: del pick_dead_def)
  then show ?thesis
    using f sub dead card explicit rest consumed pick_dead_in(2)[of _ env "re_id entry" ids d] del
    by (intro exI[of _ entry] exI[of _ "set del"]) (auto simp: load_any_def find_Some_iff owned_dead_def)
qed

text \<open>
  C9. The consumed letters are work again: the pending identities after a successful call are those before
  it and one for each consumed letter (an embed of its row, a refresh of its document, or an embed of its
  chunk while that chunk exists). The queue's invariant holds, no job is lost or touched, and what is new
  starts with no attempts and no error.
\<close>

theorem redrive_restores_work:
  assumes "retry_dead env column dead_ids dest d0 d = Ok (r, d')" "queue_inv d"
    and "distinct (map (rd_dead_id env) (db_dead d))"
  shows "queue_inv d' \<and> same_context d d' \<and> set (db_jobs d) \<subseteq> set (db_jobs d') \<and>
    (\<exists>entry \<in> set (db_registry d0).
       set (pending_keys (db_jobs d')) = set (pending_keys (db_jobs d)) \<union>
         {k. \<exists>j \<in> set (db_dead d) - set (db_dead d'). redrive_key env entry (dest (re_id entry)) j = Some k} \<and>
       (\<forall>j \<in> set (db_jobs d') - set (db_jobs d).
          jb_registry j = re_id entry \<and> is_pending j \<and> jb_attempts j = 0 \<and> jb_error j = None \<and> jb_not_before j = rd_now env))"
proof -
  from assms(1) obtain entry ids del where e: "redrive_entry env column d0 = Ok entry"
    and del: "del = pick_dead env (re_id entry) ids d"
    and d': "d' = fold insert_pending (snd (redrive_jobs env entry (dest (re_id entry)) del))
            (d\<lparr>db_dead := filter (\<lambda>j. rd_dead_id env j \<notin> rd_dead_id env ` set del) (db_dead d)\<rparr>)"
    by (rule retry_deadE) (rule that, assumption+)
  let ?js = "snd (redrive_jobs env entry (dest (re_id entry)) del)"
  let ?d = "d\<lparr>db_dead := filter (\<lambda>j. rd_dead_id env j \<notin> rd_dead_id env ` set del) (db_dead d)\<rparr>"
  have sub: "set del \<subseteq> set (db_dead d)" using pick_dead_in(1) del by blast
  have gone: "set (db_dead d) - set (db_dead d') = set del"
    using sub by (auto simp: d' redriven_db_dead kept_dead[OF assms(3) sub])
  have grown: "grown ?js ?d d'" unfolding d' by (rule fold_insert_grown) (simp_all add: assms(2) redrive_jobs_pending)
  have keys: "set (pending_keys (db_jobs d')) = job_key ` set ?js \<union> set (pending_keys (db_jobs d))"
    using fold_insert_pending_keys[OF redrive_jobs_pending, of env entry "dest (re_id entry)" del ?d] by (simp add: d')
  have fresh: "jb_registry j = re_id entry \<and> is_pending j \<and> jb_attempts j = 0 \<and> jb_error j = None \<and> jb_not_before j = rd_now env"
    if "j \<in> set (db_jobs d')" "j \<notin> set (db_jobs d)" for j
  proof -
    from grown that obtain row where row: "row \<in> set ?js" "j = row\<lparr>jb_id := jb_id j\<rparr>"
      by (auto simp: grown_def)
    note props = redrive_jobs_fresh[OF row(1)]
    have "is_pending row" using redrive_jobs_pending row(1) unfolding list_all_iff by blast
    then show ?thesis using props row(2) by (metis (no_types, lifting) is_pending_def job.select_convs job.surjective job.update_convs(1))
  qed
  have "entry \<in> set (db_registry d0)"
    using e by (rule redrive_entryE) (auto simp: load_any_def find_Some_iff)
  moreover have "same_context d d'" "queue_inv d'" "set (db_jobs d) \<subseteq> set (db_jobs d')"
    using grown by (auto simp: grown_def same_context_def)
  ultimately show ?thesis
    using fresh unfolding keys gone redrive_jobs_keys by blast
qed

text \<open>
  C39. The batch limit also cuts an explicit list. More than \<open>RETRY_DEAD_MAX_ROWS\<close> ids, each the id of a dead
  letter of the entry with nobody else at work, are refused with the message that the rest of them no
  longer exist because a concurrent call consumed them.
\<close>

theorem long_explicit_redrive_refused:
  assumes "redrive_entry env column d = Ok entry" "rd_failed env = None"
    and "distinct (map (rd_dead_id env) (db_dead d))" "distinct ids"
    and "set ids \<subseteq> rd_dead_id env ` {j \<in> set (db_dead d). owned_dead (re_id entry) j}"
    and "RETRY_DEAD_MAX_ROWS < length ids"
  shows "retry_dead env column (Some (map Some ids)) dest d d =
    Err (IdsConsumed (length ids - RETRY_DEAD_MAX_ROWS) (length ids))"
proof -
  let ?ids = "sort ids"
  let ?owned = "filter (\<lambda>j. rd_dead_id env j \<in> set ids \<and> owned_dead (re_id entry) j) (db_dead d)"
  have "distinct (map (rd_dead_id env) ?owned)" by (rule distinct_map_filter[OF assms(3)])
  moreover have "set (map (rd_dead_id env) ?owned) = set ids" using assms(5) by auto
  ultimately have len: "length ?owned = length ids" by (metis assms(4) distinct_card length_map)
  have "picked_ids env (re_id entry) (Some (map Some ids)) d = Ok (Some ?ids)"
    using len assms(4,6) by (auto simp: picked_ids_def Let_def distinct_remdups_id o_def)
  moreover have "length (pick_dead env (re_id entry) (Some ?ids) d) = RETRY_DEAD_MAX_ROWS"
    using len assms(6) by (simp add: pick_dead_def conj_commute)
  ultimately show ?thesis
    using assms(1,2,6) by (simp add: retry_dead_def split_beta Let_def)
qed

section \<open>A small instance\<close>

definition sample_redrive_env :: "string redrive_env" where
  "sample_redrive_env =
     \<lparr>rd_facts = Some (''public'', ''docs'', ''r'', True), rd_missing = (\<lambda>_ _. None), rd_triggers_missing = (\<lambda>_. False),
      rd_dead_id = jb_id, rd_cast = (\<lambda>_ pk. Some pk), rd_failed = None, rd_now = 9\<rparr>"

definition sample_redrive_db :: db where
  "sample_redrive_db =
     sample_db\<lparr>db_registry := [sample_recursive],
       db_dead := [(sample_job 10 ''a'' None)\<lparr>jb_op := RefreshOp\<rparr>, (sample_job 11 ''b'' None)\<lparr>jb_chunk := Some 4\<rparr>,
                   (sample_job 12 ''b'' None)\<lparr>jb_chunk := Some 5\<rparr>, (sample_job 13 ''b'' None)\<lparr>jb_registry := 8\<rparr>]\<rparr>"

definition sample_chunks :: "int \<Rightarrow> string chunk_row list" where
  "sample_chunks = (\<lambda>_. [chunk_row_of ''b'' 4 (mk_chunk sample_doc 0 (0, 4))])"

lemmas sample_redrive_defs =
  sample_redrive_env_def sample_redrive_db_def sample_chunks_def sample_db_def sample_job_def sample_recursive_def
  sample_active_def sample_docs_def chunk_row_of_def

definition sample_redriven :: "redriven \<times> db" where
  "sample_redriven =
     (\<lparr>rn_consumed = 3, rn_obsolete = 1, rn_full_batch = False, rn_kicked = True\<rparr>,
      sample_redrive_db\<lparr>
        db_dead := [(sample_job 13 ''b'' None)\<lparr>jb_registry := 8\<rparr>], db_next := 6,
        db_jobs := db_jobs sample_db @ [(fresh_job 9 7 ''a'' RefreshOp None)\<lparr>jb_id := 4\<rparr>,
                                        (fresh_job 9 7 ''b'' EmbedOp (Some 4))\<lparr>jb_id := 5\<rparr>]\<rparr>)"

lemma redrive_entry_dead: "redrive_entry env column (d\<lparr>db_dead := x\<rparr>) = redrive_entry env column d"
  by (cases "rd_facts env") (simp_all add: redrive_entry_def load_any_def split_beta)

lemma sample_redrive_entry: "redrive_entry sample_redrive_env ''body'' sample_redrive_db = Ok sample_recursive"
  by (simp add: redrive_entry_def load_any_def sample_redrive_defs)

lemma sample_redrive:
  "retry_dead sample_redrive_env ''body'' None sample_chunks sample_redrive_db sample_redrive_db =
     Ok (fst sample_redriven, snd sample_redriven)"
proof -
  have pick: "pick_dead sample_redrive_env 7 None sample_redrive_db = take 3 (db_dead sample_redrive_db)"
    by (simp add: pick_dead_def sample_redrive_defs owned_dead_def ambiguous_legacy_def RETRY_DEAD_MAX_ROWS_def)
  have jobs: "redrive_jobs sample_redrive_env sample_recursive (sample_chunks 7) (take 3 (db_dead sample_redrive_db)) =
      (1, [fresh_job 9 7 ''a'' RefreshOp None, fresh_job 9 7 ''b'' EmbedOp (Some 4)])"
    by (simp add: redrive_jobs_def redrive_recursive_def chunk_alive_def is_recursive_def sample_redrive_defs)
  have rid: "re_id sample_recursive = 7" by (simp add: sample_redrive_defs)
  have ids: "picked_ids sample_redrive_env 7 None sample_redrive_db = Ok None" by (simp add: picked_ids_def)
  have failed: "rd_failed sample_redrive_env = None" by (simp add: sample_redrive_env_def)
  show ?thesis
    unfolding retry_dead_def sample_redrive_entry and_then_Ok rid ids failed option.case pick Let_def jobs prod.case
    by (simp add: sample_redriven_def RETRY_DEAD_MAX_ROWS_def sample_redrive_defs Let_def insert_pending_def fresh_job_def
        pending_keys_def is_pending_def job_key_def)
qed

lemma sample_redrive_inv:
  "queue_inv sample_redrive_db" "distinct (map (rd_dead_id sample_redrive_env) (db_dead sample_redrive_db))"
  using sample_db_inv by (simp_all add: sample_redrive_db_def) (simp add: sample_redrive_defs)

theorem redrive_consumes_exactly_witness:
  "\<exists>gone. gone \<subseteq> set (db_dead sample_redrive_db) \<and> card gone = 3 \<and>
     db_dead (snd sample_redriven) = filter (\<lambda>j. j \<notin> gone) (db_dead sample_redrive_db)"
  using redrive_consumes_exactly[OF sample_redrive sample_redrive_inv(2)]
  by (auto simp: sample_redriven_def)

theorem redrive_restores_work_witness:
  "queue_inv (snd sample_redriven) \<and> set (db_jobs sample_redrive_db) \<subseteq> set (db_jobs (snd sample_redriven))"
  using redrive_restores_work[OF sample_redrive sample_redrive_inv] by simp

definition sample_dead_letters :: db where
  "sample_dead_letters = sample_redrive_db\<lparr>db_dead := map (\<lambda>i. sample_job (int i) ''a'' None) [0..<100001]\<rparr>"

theorem long_explicit_redrive_refused_witness:
  "retry_dead sample_redrive_env ''body'' (Some (map Some (map int [0..<100001]))) sample_chunks sample_dead_letters sample_dead_letters =
     Err (IdsConsumed 1 100001)"
proof -
  define n :: nat where "n = 100001"
  have e: "redrive_entry sample_redrive_env ''body'' sample_dead_letters = Ok sample_recursive"
    using sample_redrive_entry by (simp add: sample_dead_letters_def redrive_entry_dead)
  have dead: "db_dead sample_dead_letters = map (\<lambda>i. sample_job (int i) ''a'' None) [0..<n]"
    by (simp add: sample_dead_letters_def n_def)
  have "rd_dead_id sample_redrive_env = jb_id" "rd_failed sample_redrive_env = None" by (simp_all add: sample_redrive_env_def)
  moreover have "set (map int [0..<n]) \<subseteq> jb_id ` {j \<in> set (db_dead sample_dead_letters). owned_dead (re_id sample_recursive) j}"
    unfolding dead set_map
  proof (rule image_subsetI)
    fix i assume "i \<in> set [0..<n]"
    then show "int i \<in> jb_id ` {j \<in> (\<lambda>i. sample_job (int i) ''a'' None) ` set [0..<n]. owned_dead (re_id sample_recursive) j}"
      by (intro image_eqI[of _ _ "sample_job (int i) ''a'' None"])
        (auto simp: owned_dead_def ambiguous_legacy_def sample_redrive_defs)
  qed
  moreover have "distinct (map jb_id (db_dead sample_dead_letters))"
    by (simp add: dead o_def sample_job_def distinct_map inj_on_def)
  moreover have "RETRY_DEAD_MAX_ROWS < length (map int [0..<n])" by (simp add: RETRY_DEAD_MAX_ROWS_def n_def)
  moreover have "distinct (map int [0..<n])" by (simp add: distinct_map)
  ultimately have "retry_dead sample_redrive_env ''body'' (Some (map Some (map int [0..<n]))) sample_chunks sample_dead_letters sample_dead_letters =
      Err (IdsConsumed (length (map int [0..<n]) - RETRY_DEAD_MAX_ROWS) (length (map int [0..<n])))"
    by (intro long_explicit_redrive_refused[OF e]) simp_all
  then show ?thesis by (simp only: length_map length_upt) (simp only: n_def, simp add: RETRY_DEAD_MAX_ROWS_def)
qed

end
