(* ===== verification/Backfill.thy ===== *)
theory Backfill
  imports Migrate
begin

text \<open>
  The cursor backfiller, \<open>postvec/src/worker/backfill.rs\<close>: entries enabled with \<open>backfill_mode => 'cursor'\<close>
  are fed to the job queue in watermark-ordered chunks. A row of the source table is a \<open>vec_row\<close> (in column
  mode \<open>vr_old\<close> is its vector column). The typed key order, the catalogue check and the aborted
  transactions are parameters.
\<close>

section \<open>One feeding pass\<close>

definition cursor_ids :: "bool \<Rightarrow> db \<Rightarrow> int list" where
  "cursor_ids recursive_only d =
     sort (map re_id (filter (\<lambda>e. re_backfill_mode e = ''cursor'' \<and> re_state e = ''active'' \<and>
                                (recursive_only \<longrightarrow> is_recursive e)) (db_registry d)))"

definition queued :: "int \<Rightarrow> nat \<Rightarrow> db \<Rightarrow> nat" where
  "queued i limit d = length (take limit (filter (\<lambda>j. jb_registry j = i) (db_jobs d)))"

definition backfill_wants :: "registry_entry \<Rightarrow> vec_row \<Rightarrow> bool" where
  "backfill_wants entry r \<longleftrightarrow> vr_source r \<and> (\<not> is_recursive entry \<longrightarrow> vr_old r = None)"

definition backfill_keys :: "(string \<Rightarrow> 'k :: linorder) \<Rightarrow> nat \<Rightarrow> registry_entry \<Rightarrow> vec_row list \<Rightarrow> string list" where
  "backfill_keys ordk chunk entry table =
     map vr_key (scan_rows ordk (backfill_wants entry) (re_backfill_watermark entry) chunk table)"

definition backfill_job :: "int \<Rightarrow> registry_entry \<Rightarrow> string \<Rightarrow> job" where
  "backfill_job now entry pk =
     \<lparr>jb_id = 0, jb_registry = re_id entry, jb_pk = pk, jb_op = (if is_recursive entry then RefreshOp else EmbedOp),
      jb_chunk = None, jb_attempts = 0, jb_not_before = now, jb_claimed = None, jb_error = None, jb_created = now\<rparr>"

definition feed_entry ::
  "(string \<Rightarrow> 'k :: linorder) \<Rightarrow> (registry_entry \<Rightarrow> string list \<Rightarrow> string option) \<Rightarrow> int \<Rightarrow> nat \<Rightarrow> (int \<Rightarrow> vec_row list) \<Rightarrow> int
   \<Rightarrow> db \<Rightarrow> nat \<times> db" where
  "feed_entry ordk missing now chunk docs i d =
     (case load_entry i d of
        None \<Rightarrow> (0, d)
      | Some entry \<Rightarrow>
          (case missing entry [] of
             Some reason \<Rightarrow> (0, quarantine_entry entry reason d)
           | None \<Rightarrow>
               if queued i chunk d \<ge> chunk then (0, d)
               else
                 let pks = backfill_keys ordk chunk entry (docs i) in
                 if pks = []
                 then (0, set_entry i (\<lambda>e. e\<lparr>re_backfill_mode := ''done'', re_backfill_watermark := None\<rparr>) d)
                 else (length pks,
                       set_entry i (\<lambda>e. e\<lparr>re_backfill_watermark := Some (List.last pks)\<rparr>)
                         (fold insert_pending (map (backfill_job now entry) pks) d))))"

fun feed_entries ::
  "(string \<Rightarrow> 'k :: linorder) \<Rightarrow> (registry_entry \<Rightarrow> string list \<Rightarrow> string option) \<Rightarrow> int \<Rightarrow> nat \<Rightarrow> (int \<Rightarrow> vec_row list) \<Rightarrow> int list
   \<Rightarrow> nat \<Rightarrow> db \<Rightarrow> nat \<times> db" where
  "feed_entries ordk missing now chunk docs [] n d = (n, d)"
| "feed_entries ordk missing now chunk docs (i # ids) n d =
     (case feed_entry ordk missing now chunk docs i d of
        (k, d) \<Rightarrow> feed_entries ordk missing now chunk docs ids (n + k) d)"

definition enqueue_chunks ::
  "(string \<Rightarrow> 'k :: linorder) \<Rightarrow> (registry_entry \<Rightarrow> string list \<Rightarrow> string option) \<Rightarrow> int \<Rightarrow> nat \<Rightarrow> bool \<Rightarrow> (int \<Rightarrow> vec_row list)
   \<Rightarrow> db \<Rightarrow> nat \<times> db" where
  "enqueue_chunks ordk missing now chunk recursive_only docs d =
     feed_entries ordk missing now chunk docs (cursor_ids recursive_only d) 0 d"

text \<open>The pass runs in its own transaction; an aborted one feeds nothing and is retried later.\<close>

definition step_inner ::
  "(string \<Rightarrow> 'k :: linorder) \<Rightarrow> (registry_entry \<Rightarrow> string list \<Rightarrow> string option) \<Rightarrow> bool \<Rightarrow> int \<Rightarrow> int \<Rightarrow> bool
   \<Rightarrow> (int \<Rightarrow> vec_row list) \<Rightarrow> db \<Rightarrow> nat \<times> db" where
  "step_inner ordk missing aborted batch_size now recursive_only docs d =
     (let chunk = nat (max batch_size 1 * 4) in
      if aborted then (0, d) else enqueue_chunks ordk missing now chunk recursive_only docs d)"

section \<open>What a pass does to one entry\<close>

text \<open>
  The scan yields a prefix: a wanted row past the watermark and not past the last scanned key is scanned.
\<close>

lemma backfill_keys_covers:
  assumes "distinct (map (\<lambda>r. ordk (vr_key r)) table)" "backfill_keys ordk chunk entry table \<noteq> []"
    and "r \<in> set table" "backfill_wants entry r" "past_watermark ordk (re_backfill_watermark entry) r"
    and "\<not> past_watermark ordk (Some (List.last (backfill_keys ordk chunk entry table))) r"
  shows "vr_key r \<in> set (backfill_keys ordk chunk entry table)"
proof -
  let ?f = "\<lambda>r. ordk (vr_key r)"
  let ?xs = "sort_key ?f (filter (\<lambda>r. backfill_wants entry r \<and> past_watermark ordk (re_backfill_watermark entry) r) table)"
  have keys: "backfill_keys ordk chunk entry table = map vr_key (take chunk ?xs)"
    by (simp add: backfill_keys_def scan_rows_def)
  have "mset (map ?f ?xs) = mset (map ?f (filter (\<lambda>r. backfill_wants entry r \<and> past_watermark ordk (re_backfill_watermark entry) r) table))"
    by simp
  then have dist: "distinct (map ?f ?xs)"
    using distinct_map_filter[OF assms(1)] mset_eq_imp_distinct_iff by metis
  have "take chunk ?xs \<noteq> []" using assms(2) keys by auto
  moreover have "?f r \<le> ?f (List.last (take chunk ?xs))"
    using assms(6) keys \<open>take chunk ?xs \<noteq> []\<close> by (simp add: past_watermark_def last_map)
  ultimately have "r \<in> set (take chunk ?xs)"
    by (intro sorted_take_covers[where f = ?f]) (use assms dist in simp_all)
  then show ?thesis by (auto simp: keys)
qed

lemma backfill_keys_empty:
  assumes "backfill_keys ordk chunk entry table = []" "0 < chunk" "r \<in> set table" "backfill_wants entry r"
  shows "\<not> past_watermark ordk (re_backfill_watermark entry) r"
proof -
  have "set (sort_key (\<lambda>r. ordk (vr_key r)) (filter (\<lambda>r. backfill_wants entry r \<and>
      past_watermark ordk (re_backfill_watermark entry) r) table)) = {}"
    using assms(1,2) by (simp only: backfill_keys_def scan_rows_def map_is_Nil_conv take_eq_Nil) simp
  then show ?thesis using assms(3,4) by auto
qed

lemma backfill_keys_last:
  assumes "backfill_keys ordk chunk entry table \<noteq> []"
  obtains r where "r \<in> set table" "past_watermark ordk (re_backfill_watermark entry) r"
    "List.last (backfill_keys ordk chunk entry table) = vr_key r"
proof -
  have "List.last (backfill_keys ordk chunk entry table) \<in> set (backfill_keys ordk chunk entry table)"
    using assms by (rule last_in_set)
  moreover have "set (scan_rows ordk (backfill_wants entry) (re_backfill_watermark entry) chunk table)
      \<subseteq> {r \<in> set table. past_watermark ordk (re_backfill_watermark entry) r}"
    by (auto simp: scan_rows_def dest: in_set_takeD)
  ultimately show thesis using that unfolding backfill_keys_def set_map by blast
qed

text \<open>The view of one entry: its row of the registry and the keys that wait for it.\<close>

definition waiting :: "int \<Rightarrow> db \<Rightarrow> job_key set" where
  "waiting rid d = {k \<in> set (pending_keys (db_jobs d)). fst k = rid}"

lemma load_entry_set_other [simp]:
  assumes "rid \<noteq> i" "\<And>e. re_id (f e) = re_id e"
  shows "load_entry rid (set_entry i f d) = load_entry rid d"
proof -
  have "find (\<lambda>e. re_id e = rid) (map (\<lambda>e. if re_id e = i then f e else e) es) = find (\<lambda>e. re_id e = rid) es" for es
    using assms(1) by (induction es) (auto simp: assms(2))
  then show ?thesis by (simp add: load_entry_def set_entry_def)
qed

lemma load_entry_fold_insert [simp]: "load_entry rid (fold insert_pending js d) = load_entry rid d"
  by (simp add: load_entry_def)

lemma db_jobs_set_entry [simp]: "db_jobs (set_entry i f d) = db_jobs d"
  by (simp add: set_entry_def)

lemma backfill_jobs_pending: "list_all is_pending (map (backfill_job now entry) pks)"
  by (simp add: list_all_iff backfill_job_def is_pending_def)

lemma feed_other:
  assumes "i \<noteq> rid"
  shows "load_entry rid (snd (feed_entry ordk missing now chunk docs i d)) = load_entry rid d"
    and "waiting rid (snd (feed_entry ordk missing now chunk docs i d)) = waiting rid d"
proof -
  show "load_entry rid (snd (feed_entry ordk missing now chunk docs i d)) = load_entry rid d"
  proof (cases "load_entry i d")
    case (Some entry)
    have other: "map_option (\<lambda>x. if re_id x = re_id entry then x\<lparr>re_state := ''disabled''\<rparr> else x) (load_entry rid d) = load_entry rid d"
      using assms load_entry_id[OF Some] load_entry_id[of rid d] by (cases "load_entry rid d") auto
    show ?thesis using Some assms other
      by (auto simp: feed_entry_def load_entry_quarantined Let_def split: option.splits)
  qed (simp add: feed_entry_def)
  show "waiting rid (snd (feed_entry ordk missing now chunk docs i d)) = waiting rid d"
  proof (cases "load_entry i d")
    case (Some entry)
    have q: "waiting rid (quarantine_entry entry reason d) = waiting rid d" for reason
      using assms load_entry_id[OF Some]
      by (auto simp: waiting_def quarantine_entry_def pending_keys_def job_key_def)
    have "waiting rid (fold insert_pending (map (backfill_job now entry) pks) d) = waiting rid d" for pks
      using assms load_entry_id[OF Some] fold_insert_pending_keys[OF backfill_jobs_pending, of now entry pks d]
      by (auto simp: waiting_def job_key_def backfill_job_def)
    then show ?thesis using Some q
      by (auto simp: feed_entry_def Let_def waiting_def split: option.splits)
  qed (simp add: feed_entry_def)
qed

lemma feed_entries_other:
  assumes "rid \<notin> set ids"
  shows "load_entry rid (snd (feed_entries ordk missing now chunk docs ids n d)) = load_entry rid d"
    and "waiting rid (snd (feed_entries ordk missing now chunk docs ids n d)) = waiting rid d"
  using assms by (induction ids arbitrary: n d) (auto simp: feed_other split: prod.splits dest!: arg_cong[where f = snd])

lemma feed_entries_append:
  "feed_entries ordk missing now chunk docs (xs @ ys) n d =
     (case feed_entries ordk missing now chunk docs xs n d of (n, d) \<Rightarrow> feed_entries ordk missing now chunk docs ys n d)"
  by (induction xs arbitrary: n d) (auto split: prod.splits)

definition entry_jobs :: "int \<Rightarrow> db \<Rightarrow> job list" where
  "entry_jobs rid d = filter (\<lambda>j. jb_registry j = rid) (db_jobs d)"

lemma entry_jobs_set_entry [simp]: "entry_jobs rid (set_entry i f d) = entry_jobs rid d"
  by (simp add: entry_jobs_def)

lemma entry_jobs_insert:
  "list_all (\<lambda>j. jb_registry j \<noteq> rid) js \<Longrightarrow> entry_jobs rid (fold insert_pending js d) = entry_jobs rid d"
  by (induction js arbitrary: d) (auto simp: entry_jobs_def insert_pending_def Let_def)

lemma entry_jobs_insert_length: "length (entry_jobs rid (fold insert_pending js d)) \<le> length (entry_jobs rid d) + length js"
proof (induction js arbitrary: d)
  case (Cons j js)
  have "length (entry_jobs rid (insert_pending j d)) \<le> Suc (length (entry_jobs rid d))"
    by (simp add: entry_jobs_def insert_pending_def Let_def)
  then show ?case using Cons[of "insert_pending j d"] by simp
qed simp

lemma feed_entry_jobs_other:
  assumes "i \<noteq> rid"
  shows "entry_jobs rid (snd (feed_entry ordk missing now chunk docs i d)) = entry_jobs rid d"
proof (cases "load_entry i d")
  case (Some entry)
  have q: "entry_jobs rid (quarantine_entry entry reason d) = entry_jobs rid d" for reason
    using assms load_entry_id[OF Some] by (auto simp: entry_jobs_def quarantine_entry_def intro: filter_cong)
  have "entry_jobs rid (fold insert_pending (map (backfill_job now entry) pks) d) = entry_jobs rid d" for pks
    by (rule entry_jobs_insert) (use assms load_entry_id[OF Some] in \<open>auto simp: list_all_iff backfill_job_def\<close>)
  then show ?thesis using Some q by (auto simp: feed_entry_def Let_def split: option.splits)
qed (simp add: feed_entry_def)

lemma feed_entry_jobs_own:
  "length (entry_jobs rid (snd (feed_entry ordk missing now chunk docs rid d))) \<le> max (length (entry_jobs rid d)) (2 * chunk - 1)"
proof (cases "load_entry rid d")
  case (Some entry)
  let ?pks = "backfill_keys ordk chunk entry (docs rid)"
  have keys: "length ?pks \<le> chunk" by (simp add: backfill_keys_def scan_rows_def)
  have fed: "length (entry_jobs rid (fold insert_pending (map (backfill_job now entry) ?pks) d)) \<le> 2 * chunk - 1"
    if "\<not> queued rid chunk d \<ge> chunk"
    using entry_jobs_insert_length[of rid "map (backfill_job now entry) ?pks" d] keys that
    by (auto simp: queued_def entry_jobs_def min_def split: if_splits)
  have q: "length (entry_jobs rid (quarantine_entry entry reason d)) \<le> length (entry_jobs rid d)" for reason
    using load_entry_id[OF Some] by (simp add: entry_jobs_def quarantine_entry_def)
  show ?thesis
    using Some fed q by (auto simp: feed_entry_def Let_def le_max_iff_disj split: option.splits)
qed (simp add: feed_entry_def)

lemma feed_entries_jobs_other:
  "rid \<notin> set ids \<Longrightarrow> entry_jobs rid (snd (feed_entries ordk missing now chunk docs ids n d)) = entry_jobs rid d"
proof (induction ids arbitrary: n d)
  case (Cons i ids)
  then show ?case
    using feed_entry_jobs_other[of i rid ordk missing now chunk docs d] by (auto split: prod.splits)
qed simp

text \<open>
  A pass splits at the entry's own turn: what the other entries' turns do before and after it does not
  show in its registry row, its waiting keys and its jobs.
\<close>

lemma enqueue_own_turn:
  assumes "enqueue_chunks ordk missing now chunk recursive_only docs d = (n, d')"
    and "distinct (map re_id (db_registry d))" "rid \<in> set (cursor_ids recursive_only d)"
  obtains d1 d2 where "load_entry rid d1 = load_entry rid d" "entry_jobs rid d1 = entry_jobs rid d"
    "snd (feed_entry ordk missing now chunk docs rid d1) = d2"
    "load_entry rid d' = load_entry rid d2" "waiting rid d' = waiting rid d2" "entry_jobs rid d' = entry_jobs rid d2"
proof -
  have "distinct (cursor_ids recursive_only d)" using assms(2) by (simp add: cursor_ids_def distinct_map_filter)
  then obtain xs ys where split: "cursor_ids recursive_only d = xs @ rid # ys" "rid \<notin> set xs" "rid \<notin> set ys"
    using assms(3) by (metis split_list distinct_append distinct.simps(2) not_distinct_conv_prefix disjoint_iff list.set_intros(1))
  obtain n1 d1 where d1: "feed_entries ordk missing now chunk docs xs 0 d = (n1, d1)" by force
  obtain n2 d2 where d2: "feed_entry ordk missing now chunk docs rid d1 = (n2, d2)" by force
  have d': "feed_entries ordk missing now chunk docs ys (n1 + n2) d2 = (n, d')"
    using assms(1) d1 d2 by (simp add: enqueue_chunks_def split(1) feed_entries_append)
  show thesis
  proof (rule that[of d1 d2])
    show "load_entry rid d1 = load_entry rid d" "entry_jobs rid d1 = entry_jobs rid d"
      using feed_entries_other(1)[OF split(2), of ordk missing now chunk docs 0 d]
        feed_entries_jobs_other[OF split(2), of ordk missing now chunk docs 0 d] d1 by simp_all
    show "load_entry rid d' = load_entry rid d2" "waiting rid d' = waiting rid d2" "entry_jobs rid d' = entry_jobs rid d2"
      using feed_entries_other[OF split(3), of ordk missing now chunk docs "n1 + n2" d2]
        feed_entries_jobs_other[OF split(3), of ordk missing now chunk docs "n1 + n2" d2] d' by simp_all
  qed (simp add: d2)
qed

definition fed_keys :: "registry_entry \<Rightarrow> string list \<Rightarrow> job_key set" where
  "fed_keys entry pks = (\<lambda>pk. (re_id entry, if is_recursive entry then RefreshOp else EmbedOp, pk, None)) ` set pks"

definition cursor_view :: "registry_entry \<Rightarrow> string \<times> string option \<times> string" where
  "cursor_view e = (re_backfill_mode e, re_backfill_watermark e, re_chunking e)"

text \<open>
  The outcomes of feeding one entry: nothing (a long queue, or quarantine), the end of the cursor, or a
  chunk in the queue and the watermark at its last key.
\<close>

definition feed_outcome ::
  "(string \<Rightarrow> 'k :: linorder) \<Rightarrow> nat \<Rightarrow> vec_row list \<Rightarrow> registry_entry \<Rightarrow> int \<Rightarrow> db \<Rightarrow> bool" where
  "feed_outcome ordk chunk table entry rid d \<longleftrightarrow>
     (let pks = backfill_keys ordk chunk entry table in
      map_option cursor_view (load_entry rid d) = Some (cursor_view entry) \<or>
      pks = [] \<and> load_entry rid d = Some (entry\<lparr>re_backfill_mode := ''done'', re_backfill_watermark := None\<rparr>) \<or>
      pks \<noteq> [] \<and> load_entry rid d = Some (entry\<lparr>re_backfill_watermark := Some (List.last pks)\<rparr>) \<and>
        fed_keys entry pks \<subseteq> waiting rid d)"

lemma feed_entry_outcome:
  assumes "load_entry rid d = Some entry"
  shows "feed_outcome ordk chunk (docs rid) entry rid (snd (feed_entry ordk missing now chunk docs rid d))"
proof -
  let ?pks = "backfill_keys ordk chunk entry (docs rid)"
  have id: "re_id entry = rid" by (rule load_entry_id[OF assms])
  consider reason where "missing entry [] = Some reason" | "missing entry [] = None" "queued rid chunk d \<ge> chunk"
    | "missing entry [] = None" "\<not> queued rid chunk d \<ge> chunk" by (cases "missing entry []") auto
  then show ?thesis
  proof cases
    case 3
    have "fed_keys entry ?pks \<subseteq> waiting rid (fold insert_pending (map (backfill_job now entry) ?pks) d)"
      using fold_insert_pending_keys[OF backfill_jobs_pending, of now entry ?pks d] id
      by (auto simp: fed_keys_def waiting_def image_image job_key_def backfill_job_def)
    then show ?thesis
      using 3 assms by (simp add: feed_entry_def feed_outcome_def Let_def load_entry_set_entry waiting_def)
  qed (use assms id in \<open>simp_all add: feed_entry_def feed_outcome_def Let_def load_entry_quarantined cursor_view_def\<close>)
qed

lemma enqueue_outcome:
  assumes pass: "enqueue_chunks ordk missing now chunk recursive_only docs d = (n, d')"
    and ids: "distinct (map re_id (db_registry d))" and entry: "load_entry rid d = Some entry"
  shows "feed_outcome ordk chunk (docs rid) entry rid d' \<and>
    (re_backfill_mode entry \<noteq> ''cursor'' \<longrightarrow> load_entry rid d' = Some entry)"
proof (cases "rid \<in> set (cursor_ids recursive_only d)")
  case False
  then have "load_entry rid d' = Some entry"
    using feed_entries_other(1)[OF False, of ordk missing now chunk docs 0 d] pass entry by (simp add: enqueue_chunks_def)
  then show ?thesis by (simp add: feed_outcome_def Let_def)
next
  case True
  obtain d1 d2 where turn: "load_entry rid d1 = load_entry rid d"
    "snd (feed_entry ordk missing now chunk docs rid d1) = d2"
    "load_entry rid d' = load_entry rid d2" "waiting rid d' = waiting rid d2"
    by (rule enqueue_own_turn[OF pass ids True])
  then have "feed_outcome ordk chunk (docs rid) entry rid d2"
    using feed_entry_outcome[of rid d1 entry ordk chunk docs missing now] entry by simp
  moreover have "re_backfill_mode entry = ''cursor''"
  proof -
    obtain e where "e \<in> set (db_registry d)" "re_id e = rid" "re_backfill_mode e = ''cursor''"
      using True by (auto simp: cursor_ids_def)
    then show ?thesis using load_entry_unique[OF ids] entry by fastforce
  qed
  ultimately show ?thesis using turn(3,4) by (simp add: feed_outcome_def)
qed

section \<open>The cursor reaches every row\<close>

text \<open>
  An entry's source table while the worker feeds it: \<open>fr_fed\<close> collects the keys that were waiting after a
  pass, \<open>fr_touched\<close> the keys of rows that other sessions inserted or changed (their triggers queue
  them). Other sessions may also claim and finish jobs and write vectors; only the watermark is the
  worker's own.
\<close>

record feed_run =
  fr_db :: db
  fr_table :: "vec_row list"
  fr_fed :: "string set"
  fr_touched :: "string set"

definition waiting_rows :: "int \<Rightarrow> db \<Rightarrow> string set" where
  "waiting_rows rid d = {pk. \<exists>oper chunk. (rid, oper, pk, chunk) \<in> waiting rid d}"

inductive feed_step :: "(string \<Rightarrow> 'k :: linorder) \<Rightarrow> int \<Rightarrow> feed_run \<Rightarrow> feed_run \<Rightarrow> bool"
  for ordk rid where
  pass:
    "\<lbrakk>enqueue_chunks ordk missing now chunk recursive_only docs (fr_db s) = (n, d); 0 < chunk;
      docs rid = fr_table s; distinct (map re_id (db_registry (fr_db s)))\<rbrakk> \<Longrightarrow>
     feed_step ordk rid s (s\<lparr>fr_db := d, fr_fed := fr_fed s \<union> waiting_rows rid d\<rparr>)"
| others:
    "\<lbrakk>map_option cursor_view (load_entry rid d) = map_option cursor_view (load_entry rid (fr_db s));
      distinct (map (\<lambda>r. ordk (vr_key r)) table); fr_touched s \<subseteq> touched;
      \<forall>r \<in> set table. vr_key r \<in> touched \<or> vr_old r \<noteq> None \<or> r \<in> set (fr_table s)\<rbrakk> \<Longrightarrow>
     feed_step ordk rid s (s\<lparr>fr_db := d, fr_table := table, fr_touched := touched\<rparr>)"

definition fed_ok :: "registry_entry \<Rightarrow> feed_run \<Rightarrow> vec_row \<Rightarrow> bool" where
  "fed_ok entry s r \<longleftrightarrow>
     backfill_wants entry r \<and> vr_old r = None \<and> vr_key r \<notin> fr_touched s \<longrightarrow> vr_key r \<in> fr_fed s"

definition feed_inv :: "(string \<Rightarrow> 'k :: linorder) \<Rightarrow> int \<Rightarrow> feed_run \<Rightarrow> bool" where
  "feed_inv ordk rid s \<longleftrightarrow>
     distinct (map (\<lambda>r. ordk (vr_key r)) (fr_table s)) \<and>
     (\<forall>entry. load_entry rid (fr_db s) = Some entry \<longrightarrow>
        (\<forall>r \<in> set (fr_table s).
           re_backfill_mode entry = ''done'' \<or> \<not> past_watermark ordk (re_backfill_watermark entry) r \<longrightarrow> fed_ok entry s r))"

lemma backfill_wants_view: "cursor_view e = cursor_view e' \<Longrightarrow> backfill_wants e = backfill_wants e'"
  by (auto simp: cursor_view_def backfill_wants_def is_recursive_def fun_eq_iff)

lemma feed_inv_pass:
  assumes inv: "feed_inv ordk rid s" and chunk: "0 < chunk"
    and entry: "load_entry rid (fr_db s) = Some entry"
    and out: "feed_outcome ordk chunk (fr_table s) entry rid d"
  shows "feed_inv ordk rid (s\<lparr>fr_db := d, fr_fed := fr_fed s \<union> waiting_rows rid d\<rparr>)" (is "feed_inv ordk rid ?s")
proof -
  let ?pks = "backfill_keys ordk chunk entry (fr_table s)"
  have dist: "distinct (map (\<lambda>r. ordk (vr_key r)) (fr_table s))" using inv by (simp add: feed_inv_def)
  have old: "fed_ok entry ?s r" if "r \<in> set (fr_table s)"
    "re_backfill_mode entry = ''done'' \<or> \<not> past_watermark ordk (re_backfill_watermark entry) r" for r
    using inv entry that unfolding feed_inv_def fed_ok_def by auto
  have "fed_ok e ?s r"
    if e: "load_entry rid d = Some e" and r: "r \<in> set (fr_table s)"
      "re_backfill_mode e = ''done'' \<or> \<not> past_watermark ordk (re_backfill_watermark e) r" for e r
  proof -
    consider "cursor_view e = cursor_view entry"
      | "?pks = []" "e = entry\<lparr>re_backfill_mode := ''done'', re_backfill_watermark := None\<rparr>"
      | "?pks \<noteq> []" "e = entry\<lparr>re_backfill_watermark := Some (List.last ?pks)\<rparr>" "fed_keys entry ?pks \<subseteq> waiting rid d"
      using out e unfolding feed_outcome_def Let_def by auto
    then show ?thesis
    proof cases
      case 1
      then have "fed_ok entry ?s r" using old[OF r(1)] r(2) by (simp add: cursor_view_def)
      then show ?thesis using backfill_wants_view[OF 1] by (simp add: fed_ok_def)
    next
      case 2
      then show ?thesis
        using old[OF r(1)] backfill_keys_empty[OF 2(1) chunk r(1)]
        by (auto simp: fed_ok_def backfill_wants_def is_recursive_def)
    next
      case 3
      have wants: "backfill_wants e = backfill_wants entry"
        using 3(2) by (simp add: backfill_wants_def is_recursive_def fun_eq_iff)
      show ?thesis
      proof (cases "re_backfill_mode entry = ''done'' \<or> \<not> past_watermark ordk (re_backfill_watermark entry) r")
        case True
        then show ?thesis using old[OF r(1)] wants by (simp add: fed_ok_def)
      next
        case False
        have "vr_key r \<in> waiting_rows rid d" if "backfill_wants entry r"
        proof -
          have "vr_key r \<in> set ?pks"
            using backfill_keys_covers[OF dist 3(1) r(1) that] False r(2) 3(2) by simp
          then have "(rid, if is_recursive entry then RefreshOp else EmbedOp, vr_key r, None) \<in> waiting rid d"
            using 3(3) load_entry_id[OF entry] by (auto simp: fed_keys_def)
          then show ?thesis by (auto simp: waiting_rows_def)
        qed
        then show ?thesis by (simp add: fed_ok_def wants)
      qed
    qed
  qed
  then show ?thesis using dist by (simp add: feed_inv_def)
qed

lemma feed_step_inv:
  assumes "feed_step ordk rid s s'" "feed_inv ordk rid s" "load_entry rid (fr_db s) \<noteq> None"
  shows "feed_inv ordk rid s' \<and> load_entry rid (fr_db s') \<noteq> None"
  using assms(1)
proof cases
  case (pass missing now chunk recursive_only docs n d)
  obtain entry where entry: "load_entry rid (fr_db s) = Some entry" using assms(3) by blast
  have out: "feed_outcome ordk chunk (fr_table s) entry rid d"
    using enqueue_outcome[OF pass(2,5) entry] pass(4) by simp
  then have "load_entry rid d \<noteq> None" by (auto simp: feed_outcome_def Let_def)
  then show ?thesis using feed_inv_pass[OF assms(2) pass(3) entry out] pass(1) by simp
next
  case (others d table touched)
  have "fed_ok e s' r"
    if e: "load_entry rid d = Some e" "r \<in> set table"
      "re_backfill_mode e = ''done'' \<or> \<not> past_watermark ordk (re_backfill_watermark e) r" for e r
  proof -
    obtain e0 where e0: "load_entry rid (fr_db s) = Some e0" "cursor_view e0 = cursor_view e"
      using others(2) e(1) by (cases "load_entry rid (fr_db s)") auto
    have before: "fed_ok e0 s r" if "r \<in> set (fr_table s)"
      using assms(2) e0 e(3) that unfolding feed_inv_def by (auto simp: cursor_view_def)
    have "vr_key r \<in> fr_fed s" if "backfill_wants e r" "vr_old r = None" "vr_key r \<notin> touched"
    proof -
      have "r \<in> set (fr_table s)" using others(5) e(2) that(2,3) by auto
      moreover have "vr_key r \<notin> fr_touched s" using others(4) that(3) by blast
      ultimately show ?thesis using before that(1,2) backfill_wants_view[OF e0(2)] by (simp add: fed_ok_def)
    qed
    then show ?thesis using others(1) by (simp add: fed_ok_def)
  qed
  moreover have "load_entry rid d \<noteq> None" using others(2) assms(3) by (cases "load_entry rid d") auto
  ultimately show ?thesis using others(1,3) by (simp add: feed_inv_def)
qed

text \<open>
  C37. The cursor backfill feeds every row. However passes interleave with other sessions that claim and
  finish jobs, write vectors and change rows: once the cursor of an entry is \<open>done\<close>, every row with a
  source and no vector that nobody else inserted or changed meanwhile has waited in the queue.
\<close>
theorem backfill_feeds_every_row:
  assumes "(feed_step ordk rid)\<^sup>*\<^sup>* s s'"
    and "load_entry rid (fr_db s) = Some entry0" "re_backfill_mode entry0 = ''cursor''" "re_backfill_watermark entry0 = None"
    and "distinct (map (\<lambda>r. ordk (vr_key r)) (fr_table s))"
    and "load_entry rid (fr_db s') = Some entry" "re_backfill_mode entry = ''done''"
    and "r \<in> set (fr_table s')" "vr_source r" "vr_old r = None" "vr_key r \<notin> fr_touched s'"
  shows "vr_key r \<in> fr_fed s'"
proof -
  have "feed_inv ordk rid s" using assms(2-5) by (simp add: feed_inv_def past_watermark_def)
  with assms(1) have "feed_inv ordk rid s' \<and> load_entry rid (fr_db s') \<noteq> None"
  proof induction
    case base
    then show ?case using assms(2) by simp
  next
    case (step y z)
    then show ?case using feed_step_inv by blast
  qed
  then have "fed_ok entry s' r" using assms(6-8) by (auto simp: feed_inv_def)
  then show ?thesis using assms(9-11) by (simp add: fed_ok_def backfill_wants_def)
qed

section \<open>The queue stays short and the cursor ends\<close>

text \<open>
  The feeder keeps the queue bounded: a pass leaves an entry with at most twice the chunk less one
  jobs, or no more than it had.
\<close>
theorem backfill_queue_bounded:
  assumes "distinct (map re_id (db_registry d))"
  shows "length (entry_jobs rid (snd (enqueue_chunks ordk missing now chunk recursive_only docs d)))
    \<le> max (length (entry_jobs rid d)) (2 * chunk - 1)"
proof (cases "rid \<in> set (cursor_ids recursive_only d)")
  case False
  then show ?thesis by (simp add: enqueue_chunks_def feed_entries_jobs_other)
next
  case True
  obtain n d' where pass: "enqueue_chunks ordk missing now chunk recursive_only docs d = (n, d')" by force
  obtain d1 d2 where turn: "entry_jobs rid d1 = entry_jobs rid d"
    "snd (feed_entry ordk missing now chunk docs rid d1) = d2" "entry_jobs rid d' = entry_jobs rid d2"
    by (rule enqueue_own_turn[OF pass assms True])
  then show ?thesis
    using feed_entry_jobs_own[of rid ordk missing now chunk docs d1] by (simp add: pass)
qed

text \<open>Passes with a queue that drains in between.\<close>

fun feed_passes ::
  "(string \<Rightarrow> 'k :: linorder) \<Rightarrow> (registry_entry \<Rightarrow> string list \<Rightarrow> string option) \<Rightarrow> int \<Rightarrow> nat \<Rightarrow> (int \<Rightarrow> vec_row list) \<Rightarrow> nat \<Rightarrow> db \<Rightarrow> db" where
  "feed_passes ordk missing now chunk docs 0 d = d"
| "feed_passes ordk missing now chunk docs (Suc n) d =
     feed_passes ordk missing now chunk docs n (snd (enqueue_chunks ordk missing now chunk False docs (d\<lparr>db_jobs := []\<rparr>)))"

lemma feed_entry_ids: "map re_id (db_registry (snd (feed_entry ordk missing now chunk docs i d))) = map re_id (db_registry d)"
  by (auto simp: feed_entry_def Let_def quarantine_entry_def set_entry_def split: option.splits)

lemma feed_entries_ids: "map re_id (db_registry (snd (feed_entries ordk missing now chunk docs ids n d))) = map re_id (db_registry d)"
proof (induction ids arbitrary: n d)
  case (Cons i ids)
  then show ?case using feed_entry_ids[of ordk missing now chunk docs i d] by (auto split: prod.splits)
qed simp

lemma load_entry_jobs [simp]: "load_entry rid (d\<lparr>db_jobs := js\<rparr>) = load_entry rid d"
  by (simp add: load_entry_def)

lemma drained_pass:
  assumes "\<And>e. missing e [] = None" "0 < chunk" "distinct (map re_id (db_registry d))"
    and entry: "load_entry rid d = Some entry" "re_backfill_mode entry = ''cursor''" "re_state entry = ''active''"
    and pass: "enqueue_chunks ordk missing now chunk False docs (d\<lparr>db_jobs := []\<rparr>) = (n, d')"
  shows "distinct (map re_id (db_registry d')) \<and>
    (map_option re_backfill_mode (load_entry rid d') = Some ''done'' \<or>
     (\<exists>wm. load_entry rid d' = Some (entry\<lparr>re_backfill_watermark := wm\<rparr>) \<and>
        rows_left ordk wm (docs rid) < rows_left ordk (re_backfill_watermark entry) (docs rid)))"
proof -
  let ?d = "d\<lparr>db_jobs := []\<rparr>" and ?pks = "backfill_keys ordk chunk entry (docs rid)"
  have rid: "rid \<in> set (cursor_ids False ?d)"
    using load_entry_in[OF entry(1)] load_entry_id[OF entry(1)] entry(2,3) by (force simp: cursor_ids_def)
  have dist: "distinct (map re_id (db_registry ?d))" using assms(3) by simp
  obtain d1 d2 where turn: "load_entry rid d1 = load_entry rid ?d" "entry_jobs rid d1 = entry_jobs rid ?d"
    "snd (feed_entry ordk missing now chunk docs rid d1) = d2" "load_entry rid d' = load_entry rid d2"
    by (rule enqueue_own_turn[OF pass dist rid])
  have "queued rid chunk d1 = 0" using turn(2) by (simp add: entry_jobs_def queued_def)
  then have out: "load_entry rid d' = Some (if ?pks = [] then entry\<lparr>re_backfill_mode := ''done'', re_backfill_watermark := None\<rparr>
      else entry\<lparr>re_backfill_watermark := Some (List.last ?pks)\<rparr>)"
    using turn(1) entry(1) assms(1,2) unfolding turn(4) turn(3)[symmetric]
    by (simp add: feed_entry_def Let_def load_entry_set_entry)
  have "distinct (map re_id (db_registry d'))"
    using feed_entries_ids[of ordk missing now chunk docs "cursor_ids False ?d" 0 ?d] dist pass by (simp add: enqueue_chunks_def)
  moreover have "rows_left ordk (Some (List.last ?pks)) (docs rid) < rows_left ordk (re_backfill_watermark entry) (docs rid)"
    if "?pks \<noteq> []"
    by (rule backfill_keys_last[OF that]) (simp add: rows_left_decreases)
  ultimately show ?thesis using out by auto
qed

text \<open>
  The cursor ends: when the queue drains between passes and no dependency is lost, the cursor of an
  active entry is \<open>done\<close> after at most one pass per row and one more, whatever the chunk size.
\<close>
theorem backfill_completes:
  assumes "\<And>e. missing e [] = None" "0 < chunk" "distinct (map re_id (db_registry d))"
    and "load_entry rid d = Some entry" "re_backfill_mode entry = ''cursor''" "re_state entry = ''active''"
    and "length (docs rid) < n"
  shows "map_option re_backfill_mode (load_entry rid (feed_passes ordk missing now chunk docs n d)) = Some ''done''"
proof -
  have stay: "map_option re_backfill_mode (load_entry rid (feed_passes ordk missing now chunk docs n d)) = Some ''done''"
    if "map_option re_backfill_mode (load_entry rid d) = Some ''done''" "distinct (map re_id (db_registry d))" for n d
    using that
  proof (induction n arbitrary: d)
    case (Suc n)
    obtain k d' where pass: "enqueue_chunks ordk missing now chunk False docs (d\<lparr>db_jobs := []\<rparr>) = (k, d')" by force
    obtain e where e: "load_entry rid (d\<lparr>db_jobs := []\<rparr>) = Some e" "re_backfill_mode e = ''done''" using Suc.prems(1) by auto
    have "load_entry rid d' = Some e" using enqueue_outcome[OF pass _ e(1)] Suc.prems(2) e(2) by simp
    moreover have "distinct (map re_id (db_registry d'))"
      using feed_entries_ids[of ordk missing now chunk docs "cursor_ids False (d\<lparr>db_jobs := []\<rparr>)" 0 "d\<lparr>db_jobs := []\<rparr>"] Suc.prems(2) pass
      by (simp add: enqueue_chunks_def)
    ultimately show ?case using Suc.IH[of d'] e(2) pass by simp
  qed simp
  have reach: "map_option re_backfill_mode (load_entry rid (feed_passes ordk missing now chunk docs n d)) = Some ''done''"
    if "distinct (map re_id (db_registry d))" "load_entry rid d = Some e" "re_backfill_mode e = ''cursor''" "re_state e = ''active''"
      "rows_left ordk (re_backfill_watermark e) (docs rid) < n" for n d e
    using that
  proof (induction n arbitrary: d e)
    case (Suc n)
    obtain k d' where pass: "enqueue_chunks ordk missing now chunk False docs (d\<lparr>db_jobs := []\<rparr>) = (k, d')" by force
    from drained_pass[OF assms(1,2) Suc.prems(1-4) pass] show ?case
    proof (elim conjE disjE exE)
      assume "distinct (map re_id (db_registry d'))" "map_option re_backfill_mode (load_entry rid d') = Some ''done''"
      then show ?thesis using stay[of d' n] pass by simp
    next
      fix wm assume "distinct (map re_id (db_registry d'))" "load_entry rid d' = Some (e\<lparr>re_backfill_watermark := wm\<rparr>)"
        "rows_left ordk wm (docs rid) < rows_left ordk (re_backfill_watermark e) (docs rid)"
      then show ?thesis
        using Suc.IH[of d' "e\<lparr>re_backfill_watermark := wm\<rparr>"] Suc.prems(3-5) pass by simp
    qed
  qed simp
  show ?thesis
    by (rule reach[OF assms(3-6)]) (use assms(7) le_less_trans[OF length_filter_le] in \<open>simp add: rows_left_def\<close>)
qed

section \<open>A small instance\<close>

definition sample_cursor_db :: db where
  "sample_cursor_db = sample_idle_db\<lparr>db_registry := [sample_active\<lparr>re_backfill_mode := ''cursor''\<rparr>]\<rparr>"

definition sample_doc_rows :: "int \<Rightarrow> vec_row list" where
  "sample_doc_rows i = map (\<lambda>r. r\<lparr>vr_old := None\<rparr>) (sample_vtable i)"

abbreviation pass_sample :: "db \<Rightarrow> nat \<times> db" where
  "pass_sample \<equiv> enqueue_chunks length (\<lambda>_ _. None) 0 4 False sample_doc_rows"

definition sample_feed :: "nat \<Rightarrow> feed_run" where
  "sample_feed n = ((\<lambda>s. s\<lparr>fr_db := snd (pass_sample (fr_db s)),
                             fr_fed := fr_fed s \<union> waiting_rows 7 (snd (pass_sample (fr_db s)))\<rparr>) ^^ n)
     \<lparr>fr_db = sample_cursor_db, fr_table = sample_doc_rows 7, fr_fed = {}, fr_touched = {}\<rparr>"

lemma waiting_code [code]: "waiting rid d = set (filter (\<lambda>k. fst k = rid) (pending_keys (db_jobs d)))"
  by (auto simp: waiting_def)

lemma waiting_rows_code [code]: "waiting_rows rid d = (fst \<circ> snd \<circ> snd) ` waiting rid d"
  by (force simp: waiting_rows_def waiting_def)

lemma sample_feed_steps: "(feed_step length 7)\<^sup>*\<^sup>* (sample_feed 0) (sample_feed 2)"
proof -
  have table: "fr_table (sample_feed n) = sample_doc_rows 7" for n
    by (induction n) (simp_all add: sample_feed_def)
  have "distinct (map re_id (db_registry (fr_db (sample_feed n))))" for n
  proof (induction n)
    case (Suc n)
    then show ?case
      using feed_entries_ids[of length "\<lambda>_ _. None" 0 4 sample_doc_rows "cursor_ids False (fr_db (sample_feed n))" 0 "fr_db (sample_feed n)"]
      by (simp add: sample_feed_def enqueue_chunks_def)
  qed (simp add: sample_feed_def sample_cursor_db_def)
  then have "feed_step length 7 (sample_feed n) (sample_feed (Suc n))" for n
    using feed_step.pass[of length "\<lambda>_ _. None" 0 4 False sample_doc_rows "sample_feed n" "fst (pass_sample (fr_db (sample_feed n)))"
        "snd (pass_sample (fr_db (sample_feed n)))" 7]
    by (simp add: table) (simp add: sample_feed_def)
  from this[of 0] this[of 1] show ?thesis by (simp add: numeral_2_eq_2)
qed

theorem backfill_feeds_every_row_witness: "''k'' \<in> fr_fed (sample_feed 2)"
proof -
  have "vr_key (hd (fr_table (sample_feed 2))) \<in> fr_fed (sample_feed 2)"
  proof (rule backfill_feeds_every_row[OF sample_feed_steps])
    show "load_entry 7 (fr_db (sample_feed 0)) = Some (hd (db_registry sample_cursor_db))" by code_simp
    show "re_backfill_mode (hd (db_registry sample_cursor_db)) = ''cursor''" by code_simp
    show "re_backfill_watermark (hd (db_registry sample_cursor_db)) = None" by code_simp
    show "distinct (map (\<lambda>r. length (vr_key r)) (fr_table (sample_feed 0)))" by code_simp
    show "load_entry 7 (fr_db (sample_feed 2)) = Some (hd (db_registry (fr_db (sample_feed 2))))" by code_simp
    show "re_backfill_mode (hd (db_registry (fr_db (sample_feed 2)))) = ''done''" by code_simp
    show "hd (fr_table (sample_feed 2)) \<in> set (fr_table (sample_feed 2))" by code_simp
    show "vr_source (hd (fr_table (sample_feed 2)))" by code_simp
    show "vr_old (hd (fr_table (sample_feed 2))) = None" by code_simp
    show "vr_key (hd (fr_table (sample_feed 2))) \<notin> fr_touched (sample_feed 2)" by code_simp
  qed
  moreover have "vr_key (hd (fr_table (sample_feed 2))) = ''k''" by code_simp
  ultimately show ?thesis by simp
qed

theorem backfill_queue_bounded_witness: "length (entry_jobs 7 (snd (pass_sample sample_cursor_db))) \<le> 7"
proof -
  have "distinct (map re_id (db_registry sample_cursor_db))" by code_simp
  moreover have "entry_jobs 7 sample_cursor_db = []" by code_simp
  ultimately show ?thesis
    using backfill_queue_bounded[of sample_cursor_db 7 length "\<lambda>_ _. None" 0 4 False sample_doc_rows] by simp
qed

theorem backfill_completes_witness:
  "map_option re_backfill_mode (load_entry 7 (feed_passes length (\<lambda>_ _. None) 0 4 sample_doc_rows 2 sample_cursor_db)) = Some ''done''"
proof (rule backfill_completes)
  show "load_entry 7 sample_cursor_db = Some (hd (db_registry sample_cursor_db))" by code_simp
  show "re_backfill_mode (hd (db_registry sample_cursor_db)) = ''cursor''" by code_simp
  show "re_state (hd (db_registry sample_cursor_db)) = ''active''" by code_simp
  show "distinct (map re_id (db_registry sample_cursor_db))" by code_simp
  show "length (sample_doc_rows 7) < 2" by code_simp
qed simp_all

end
