(* ===== verification/AutoIndex.thy ===== *)
theory AutoIndex
  imports Backfill
begin

text \<open>
  Vector indexes: the worker's opt-in builder, \<open>postvec/src/worker/index.rs\<close>, and the readiness and
  ownership rules it shares with \<open>create_vector_index()\<close> and the teardown of
  \<open>postvec/src/api/registry.rs\<close>.

  A \<open>pg_index\<close> is an index as the catalogue shows it: its name and the schema it shares with its table,
  the table under its quoted name, access method, whether it is valid, ready and live, its opclass, its
  first key, the columns it depends on, and the extension-dependency edge with which postvec marks the
  indexes it created. The record \<open>index_env\<close> holds one transaction's view of the rest of the catalogue
  and the errors its statements run into.
\<close>

section \<open>State\<close>

datatype index_key = KeyColumn string | KeyExpr string

record pg_index =
  px_schema :: string
  px_name :: string
  px_table :: string
  px_am :: string
  px_usable :: bool
  px_natts :: nat
  px_partial :: bool
  px_opclass :: string
  px_key :: index_key
  px_columns :: "string list"
  px_ours :: bool

record index_state =
  xs_db :: db
  xs_indexes :: "pg_index list"

record index_env =
  ie_missing :: "registry_entry \<Rightarrow> string list \<Rightarrow> string option"
  ie_triggers_missing :: "registry_entry \<Rightarrow> bool"
  ie_schema :: "string \<Rightarrow> string option"
  ie_halfvec_expr :: "string \<Rightarrow> int \<Rightarrow> string"
  ie_lock_error :: "string option"
  ie_create_error :: "string option"
  ie_mark_fails :: bool

section \<open>Readiness and ownership\<close>

definition serves :: "index_env \<Rightarrow> registry_entry \<Rightarrow> pg_index \<Rightarrow> bool" where
  "serves env entry i \<longleftrightarrow>
     px_table i = qualified_vector_table entry \<and> (px_am i = ''hnsw'' \<or> px_am i = ''ivfflat'') \<and> px_usable i \<and>
     px_natts i = 1 \<and> \<not> px_partial i \<and> px_opclass i = expected_ann_opclass (re_distance entry) (re_dim entry) \<and>
     px_key i = (if re_dim entry > 2000 then KeyExpr (ie_halfvec_expr env (re_vector_column entry) (re_dim entry))
                 else KeyColumn (re_vector_column entry))"

definition ann_index_ready :: "index_env \<Rightarrow> pg_index list \<Rightarrow> registry_entry \<Rightarrow> bool" where
  "ann_index_ready env ixs entry = list_ex (serves env entry) ixs"

definition named :: "string \<Rightarrow> string \<Rightarrow> pg_index \<Rightarrow> bool" where
  "named schema name i \<longleftrightarrow> px_schema i = schema \<and> px_name i = name"

definition index_is_entrys :: "pg_index list \<Rightarrow> string \<Rightarrow> string \<Rightarrow> string \<Rightarrow> string \<Rightarrow> bool \<Rightarrow> bool option" where
  "index_is_entrys ixs schema name qtable column require_extension_dep =
     map_option (\<lambda>i. px_table i = qtable \<and> column \<in> set (px_columns i) \<and> (require_extension_dep \<longrightarrow> px_ours i))
       (find (named schema name) ixs)"

definition mark_index_depends_on_extension ::
  "index_env \<Rightarrow> string \<Rightarrow> string \<Rightarrow> string \<Rightarrow> pg_index list \<Rightarrow> pg_index list" where
  "mark_index_depends_on_extension env qtable name column ixs =
     (case ie_schema env qtable of
        None \<Rightarrow> ixs
      | Some schema \<Rightarrow>
          if index_is_entrys ixs schema name qtable column False \<noteq> Some True \<or> ie_mark_fails env then ixs
          else map (\<lambda>i. if named schema name i then i\<lparr>px_ours := True\<rparr> else i) ixs)"

definition vec_index_name :: "int \<Rightarrow> string" where
  "vec_index_name i = ''postvec_vec_'' @ dec_int i"

definition new_index :: "string \<Rightarrow> string \<Rightarrow> string \<Rightarrow> string \<Rightarrow> string \<Rightarrow> pg_index" where
  "new_index schema name qtable column distance =
     \<lparr>px_schema = schema, px_name = name, px_table = qtable, px_am = ''hnsw'', px_usable = True, px_natts = 1,
      px_partial = False, px_opclass = distance_opclass distance, px_key = KeyColumn column, px_columns = [column],
      px_ours = False\<rparr>"

definition build_vector_index ::
  "index_env \<Rightarrow> int \<Rightarrow> string \<Rightarrow> string \<Rightarrow> int \<Rightarrow> string \<Rightarrow> pg_index list \<Rightarrow> string + pg_index list" where
  "build_vector_index env i qtable vec_col dim distance ixs =
     (if dim > 2000
      then Err (''postvec: HNSW indexes support up to 2000 dimensions (got '' @ dec_int dim @
                ''); build a halfvec expression index manually for this column'')
      else case ie_schema env qtable of
        None \<Rightarrow> Err (''postvec: relation '' @ qtable @ '' vanished during index build'')
      | Some schema \<Rightarrow>
          (case index_is_entrys ixs schema (vec_index_name i) qtable vec_col True of
             None \<Rightarrow>
               (case ie_create_error env of
                  Some e \<Rightarrow> Err (''postvec: vector index creation failed: '' @ e)
                | None \<Rightarrow> Ok (mark_index_depends_on_extension env qtable (vec_index_name i) vec_col
                            (ixs @ [new_index schema (vec_index_name i) qtable vec_col distance])))
           | Some True \<Rightarrow> Ok ixs
           | Some False \<Rightarrow>
               Err (''postvec: an object named '' @ quote_ident schema @ ''.'' @ quote_ident (vec_index_name i) @
                    '' already exists and postvec cannot prove it created it (wrong table/column or missing extension '' @
                    ''dependency); rename or drop it '' @ map char_of [226, 128, 148 :: nat] @
                    '' search() does not require postvec'' @ [CHR 0x27] @ ''s index name, any ANN index on the column works'')))"

definition ensure_vector_index :: "index_env \<Rightarrow> registry_entry \<Rightarrow> index_state \<Rightarrow> string + index_state" where
  "ensure_vector_index env entry s =
     and_then
       (if ann_index_ready env (xs_indexes s) entry then Ok (xs_indexes s)
        else build_vector_index env (re_id entry) (qualified_vector_table entry) (re_vector_column entry)
               (re_dim entry) (re_distance entry) (xs_indexes s))
       (\<lambda>ixs. Ok (s\<lparr>xs_indexes := ixs, xs_db := set_entry (re_id entry) (\<lambda>e. e\<lparr>re_index_error := None\<rparr>) (xs_db s)\<rparr>))"

text \<open>\<open>create_vector_index()\<close>, with \<open>rel\<close> the resolved relation and whether the caller owns it.\<close>

datatype index_refusal = IndexNotOwner | IndexNotEnabled | IndexFailed string

definition create_vector_index ::
  "index_env \<Rightarrow> bool \<Rightarrow> string \<Rightarrow> string \<Rightarrow> string \<Rightarrow> index_state \<Rightarrow> index_refusal + index_state" where
  "create_vector_index env owner_ok schema table column s =
     (if \<not> owner_ok then Err IndexNotOwner
      else case load_active schema table column (xs_db s) of
        None \<Rightarrow> Err IndexNotEnabled
      | Some entry \<Rightarrow> (case ensure_vector_index env entry s of Inl e \<Rightarrow> Err (IndexFailed e) | Inr s \<Rightarrow> Ok s))"

text \<open>Teardown drops an entry's generated indexes by identity, never by name alone.\<close>

definition drop_owned_index :: "registry_entry \<Rightarrow> string \<Rightarrow> pg_index list \<Rightarrow> pg_index list" where
  "drop_owned_index entry name ixs =
     (let schema = (case re_destination_schema entry of Some s \<Rightarrow> s | None \<Rightarrow> re_table_schema entry) in
      case find (named schema name) ixs of
        None \<Rightarrow> ixs
      | Some i \<Rightarrow> if px_table i = qualified_vector_table entry \<and> px_ours i then remove1 i ixs else ixs)"

definition teardown_indexes :: "registry_entry \<Rightarrow> pg_index list \<Rightarrow> pg_index list" where
  "teardown_indexes entry ixs =
     drop_owned_index entry (vec_index_name (re_id entry)) (drop_owned_index entry (''postvec_fts_'' @ dec_int (re_id entry)) ixs)"

definition quarantine_indexed :: "registry_entry \<Rightarrow> string \<Rightarrow> index_state \<Rightarrow> index_state" where
  "quarantine_indexed entry reason s =
     s\<lparr>xs_indexes := teardown_indexes entry (xs_indexes s), xs_db := quarantine_entry entry reason (xs_db s)\<rparr>"

section \<open>The worker's step\<close>

definition build_eligible :: "db \<Rightarrow> registry_entry \<Rightarrow> bool" where
  "build_eligible d e \<longleftrightarrow>
     re_state e = ''active'' \<and> re_index_mode e = ''auto'' \<and> re_index_error e = None \<and> re_dim e \<le> 2000 \<and>
     re_backfill_mode e \<noteq> ''cursor'' \<and> list_all (\<lambda>j. jb_registry j \<noteq> re_id e) (db_jobs d) \<and>
     list_all (\<lambda>m. mg_registry m = re_id e \<longrightarrow> mg_state m = ''done'' \<or> mg_state m = ''aborted'') (db_migrations d)"

definition eligible_entries :: "db \<Rightarrow> int list" where
  "eligible_entries d = sort (map re_id (filter (build_eligible d) (db_registry d)))"

definition identity_broken :: "index_env \<Rightarrow> registry_entry \<Rightarrow> string option" where
  "identity_broken env entry =
     (case ie_missing env entry [] of
        Some reason \<Rightarrow> Some reason
      | None \<Rightarrow> if ie_triggers_missing env entry then Some ''its generated triggers are gone (table recreated?)'' else None)"

definition quarantine_if_broken :: "index_env \<Rightarrow> registry_entry \<Rightarrow> index_state \<Rightarrow> bool \<times> index_state" where
  "quarantine_if_broken env entry s =
     (case identity_broken env entry of
        Some reason \<Rightarrow> (True, quarantine_indexed entry reason s)
      | None \<Rightarrow> (False, s))"

definition auto_ids :: "db \<Rightarrow> int list" where
  "auto_ids d = sort (map re_id (filter (\<lambda>e. re_state e = ''active'' \<and> re_index_mode e = ''auto'') (db_registry d)))"

definition reconcile_entry :: "index_env \<Rightarrow> int \<Rightarrow> index_state \<Rightarrow> index_state" where
  "reconcile_entry env i s =
     (case load_entry i (xs_db s) of None \<Rightarrow> s | Some entry \<Rightarrow> snd (quarantine_if_broken env entry s))"

definition quarantine_broken_entries :: "index_env \<Rightarrow> index_state \<Rightarrow> index_state" where
  "quarantine_broken_entries env s = fold (reconcile_entry env) (auto_ids (xs_db s)) s"

definition needs_build :: "index_env \<Rightarrow> index_state \<Rightarrow> int \<Rightarrow> bool" where
  "needs_build env s i =
     (case load_entry i (xs_db s) of None \<Rightarrow> False | Some entry \<Rightarrow> \<not> ann_index_ready env (xs_indexes s) entry)"

definition pick_candidate :: "index_env \<Rightarrow> index_state \<Rightarrow> int option \<times> index_state" where
  "pick_candidate env s =
     (let s = quarantine_broken_entries env s in (find (needs_build env s) (eligible_entries (xs_db s)), s))"

text \<open>
  The build transaction. It names the table and checks the identity in \<open>s0\<close> under \<open>env0\<close>; its locks may
  have to wait for other sessions, and it then reads again, in \<open>s\<close> under \<open>env\<close>.
\<close>

definition build_candidate :: "index_env \<Rightarrow> index_env \<Rightarrow> int \<Rightarrow> index_state \<Rightarrow> index_state \<Rightarrow> string + index_state" where
  "build_candidate env0 env i s0 s =
     (case load_entry i (xs_db s0) of
        None \<Rightarrow> Ok s
      | Some entry0 \<Rightarrow>
          if ie_missing env0 entry0 [] \<noteq> None \<or> ie_triggers_missing env0 entry0 then Ok s
          else if ie_schema env0 (qualified_vector_table entry0) = None then Ok s
          else case ie_lock_error env0 of
            Some e \<Rightarrow> Err (''postvec: locking '' @ qualified_vector_table entry0 @ '' for the automatic index build failed: '' @ e)
          | None \<Rightarrow>
              (case load_entry i (xs_db s) of
                 None \<Rightarrow> Ok s
               | Some entry \<Rightarrow>
                   if i \<notin> set (eligible_entries (xs_db s)) \<or> identity_broken env entry \<noteq> None \<or>
                      ann_index_ready env (xs_indexes s) entry
                   then Ok s
                   else ensure_vector_index env entry s))"

definition park_entry :: "int \<Rightarrow> string \<Rightarrow> index_state \<Rightarrow> index_state" where
  "park_entry i err s =
     s\<lparr>xs_db := set_entry i (\<lambda>e. if re_state e = ''active'' \<and> re_index_mode e = ''auto''
                                  then e\<lparr>re_index_error := Some (left_chars 1024 err)\<rparr> else e) (xs_db s)\<rparr>"

definition record_build_failure :: "index_env \<Rightarrow> int \<Rightarrow> string \<Rightarrow> index_state \<Rightarrow> index_state" where
  "record_build_failure env i err s =
     (case load_entry i (xs_db s) of
        None \<Rightarrow> s
      | Some entry \<Rightarrow>
          if identity_broken env entry \<noteq> None then s
          else if ann_index_ready env (xs_indexes s) entry then s
          else if re_state entry \<noteq> ''active'' \<or> re_index_mode entry \<noteq> ''auto'' then s
          else park_entry i err s)"

text \<open>
  One step: scan, build, and after a failed build the record of the failure, each a transaction of its
  own that may abort, with other sessions at work in between.
\<close>

record index_run =
  ir_scan :: index_env
  ir_scan_abort :: "string option"
  ir_between :: "index_state \<Rightarrow> index_state"
  ir_first :: index_env
  ir_wait :: "index_state \<Rightarrow> index_state"
  ir_build :: index_env
  ir_build_abort :: "string option"
  ir_after :: "index_state \<Rightarrow> index_state"
  ir_record :: index_env
  ir_record_abort :: "string option"

definition build_transaction :: "index_run \<Rightarrow> int \<Rightarrow> index_state \<Rightarrow> index_state \<Rightarrow> string + index_state" where
  "build_transaction run i s0 s =
     (case ir_build_abort run of Some e \<Rightarrow> Err e | None \<Rightarrow> build_candidate (ir_first run) (ir_build run) i s0 s)"

definition index_step :: "index_run \<Rightarrow> counters \<Rightarrow> index_state \<Rightarrow> counters \<times> index_state" where
  "index_step run ct s =
     (case ir_scan_abort run of
        Some e \<Rightarrow> (count_error (''auto-index scan: '' @ e) ct, s)
      | None \<Rightarrow>
          (case pick_candidate (ir_scan run) s of
             (None, s) \<Rightarrow> (ct, s)
           | (Some i, s) \<Rightarrow>
               let s0 = ir_between run s; s1 = ir_wait run s0 in
               (case build_transaction run i s0 s1 of
                  Inr s \<Rightarrow> (ct, s)
                | Inl e \<Rightarrow>
                    let s2 = ir_after run s1 in
                    (count_error (''auto-index build: '' @ e) ct,
                     if ir_record_abort run = None then record_build_failure (ir_record run) i e s2 else s2))))"

section \<open>The scan\<close>

definition broken :: "index_env \<Rightarrow> registry_entry \<Rightarrow> bool" where
  "broken env e \<longleftrightarrow> identity_broken env e \<noteq> None"

lemma reconcile_entry_cases:
  obtains "reconcile_entry env i s = s" "\<forall>e. load_entry i (xs_db s) = Some e \<longrightarrow> \<not> broken env e"
  | e reason where "load_entry i (xs_db s) = Some e" "broken env e" "reconcile_entry env i s = quarantine_indexed e reason s"
proof (cases "load_entry i (xs_db s)")
  case (Some e)
  show thesis
  proof (cases "identity_broken env e")
    case None
    then show thesis using that(1) Some by (simp add: reconcile_entry_def quarantine_if_broken_def broken_def)
  next
    case (Some reason)
    then show thesis using that(2)[of e reason] \<open>load_entry i (xs_db s) = Some e\<close>
      by (simp add: reconcile_entry_def quarantine_if_broken_def broken_def)
  qed
qed (simp add: reconcile_entry_def that(1))

lemma reconcile_registry:
  assumes "distinct (map re_id (db_registry (xs_db s)))"
  shows "db_registry (xs_db (reconcile_entry env i s)) =
    map (\<lambda>e. if re_id e = i \<and> broken env e then e\<lparr>re_state := ''disabled''\<rparr> else e) (db_registry (xs_db s))"
proof (cases rule: reconcile_entry_cases[of env i s])
  case 1
  have "map (\<lambda>e. if re_id e = i \<and> broken env e then e\<lparr>re_state := ''disabled''\<rparr> else e) (db_registry (xs_db s)) =
      db_registry (xs_db s)"
    by (rule map_idI) (use 1(2) load_entry_unique[OF assms] in auto)
  then show ?thesis using 1(1) by simp
next
  case (2 e reason)
  have "re_id x = re_id e \<longleftrightarrow> re_id x = i \<and> broken env x" if "x \<in> set (db_registry (xs_db s))" for x
    by (metis 2(1,2) load_entry_id load_entry_unique assms that option.inject)
  then show ?thesis unfolding 2(3) quarantine_indexed_def quarantine_entry_def by (simp cong: if_cong)
qed

lemma reconcile_fold_registry:
  assumes "distinct (map re_id (db_registry (xs_db s)))" "distinct ids"
  shows "db_registry (xs_db (fold (reconcile_entry env) ids s)) =
    map (\<lambda>e. if re_id e \<in> set ids \<and> broken env e then e\<lparr>re_state := ''disabled''\<rparr> else e) (db_registry (xs_db s))"
  using assms
proof (induction ids arbitrary: s)
  case (Cons i ids)
  let ?s = "reconcile_entry env i s"
  have reg: "db_registry (xs_db ?s) =
      map (\<lambda>e. if re_id e = i \<and> broken env e then e\<lparr>re_state := ''disabled''\<rparr> else e) (db_registry (xs_db s))"
    by (rule reconcile_registry[OF Cons.prems(1)])
  have "map re_id (db_registry (xs_db ?s)) = map re_id (db_registry (xs_db s))" by (simp add: reg)
  then have "db_registry (xs_db (fold (reconcile_entry env) ids ?s)) =
      map (\<lambda>e. if re_id e \<in> set ids \<and> broken env e then e\<lparr>re_state := ''disabled''\<rparr> else e) (db_registry (xs_db ?s))"
    using Cons by simp
  then show ?case using Cons.prems(2) unfolding reg by auto
qed simp

lemma auto_ids_distinct: "distinct (map re_id (db_registry d)) \<Longrightarrow> distinct (auto_ids d)"
  by (simp add: auto_ids_def distinct_map_filter)

lemma scan_registry:
  assumes "distinct (map re_id (db_registry (xs_db s)))"
  shows "db_registry (xs_db (quarantine_broken_entries env s)) =
    map (\<lambda>e. if re_state e = ''active'' \<and> re_index_mode e = ''auto'' \<and> broken env e then e\<lparr>re_state := ''disabled''\<rparr> else e)
      (db_registry (xs_db s))"
proof -
  have "re_id e \<in> set (auto_ids (xs_db s)) \<longleftrightarrow> re_state e = ''active'' \<and> re_index_mode e = ''auto''"
    if "e \<in> set (db_registry (xs_db s))" for e
    using that assms by (auto simp: auto_ids_def distinct_map dest: inj_onD)
  then show ?thesis
    using reconcile_fold_registry[OF assms auto_ids_distinct[OF assms]] by (auto simp: quarantine_broken_entries_def)
qed

text \<open>What the scan does to the indexes: it drops some that carry postvec's own mark, and adds none.\<close>

definition drops_only_ours :: "pg_index list \<Rightarrow> pg_index list \<Rightarrow> bool" where
  "drops_only_ours xs ys \<longleftrightarrow> set ys \<subseteq> set xs \<and> filter (\<lambda>i. \<not> px_ours i) ys = filter (\<lambda>i. \<not> px_ours i) xs"

lemma drops_only_ours_refl [simp]: "drops_only_ours xs xs"
  by (simp add: drops_only_ours_def)

lemma drops_only_ours_trans: "drops_only_ours xs ys \<Longrightarrow> drops_only_ours ys zs \<Longrightarrow> drops_only_ours xs zs"
  by (auto simp: drops_only_ours_def)

lemma filter_remove1_other: "\<not> P x \<Longrightarrow> filter P (remove1 x xs) = filter P xs"
  by (induction xs) auto

lemma drop_owned_index_ours: "drops_only_ours ixs (drop_owned_index entry name ixs)"
  by (auto simp: drop_owned_index_def drops_only_ours_def Let_def filter_remove1_other notin_set_remove1 split: option.splits
      dest: set_remove1_subset[THEN subsetD])

lemma reconcile_drops_only_ours: "drops_only_ours (xs_indexes s) (xs_indexes (reconcile_entry env i s))"
proof (cases rule: reconcile_entry_cases[of env i s])
  case (2 e reason)
  then show ?thesis
    by (simp add: quarantine_indexed_def teardown_indexes_def) (blast intro: drops_only_ours_trans drop_owned_index_ours)
qed simp

lemma scan_drops_only_ours: "drops_only_ours (xs_indexes s) (xs_indexes (quarantine_broken_entries env s))"
proof -
  have "drops_only_ours (xs_indexes s) (xs_indexes (fold (reconcile_entry env) ids s))" for ids
    by (induction ids arbitrary: s) (auto intro: drops_only_ours_trans reconcile_drops_only_ours)
  then show ?thesis by (simp add: quarantine_broken_entries_def)
qed

lemma eligible_entries_iff:
  assumes "distinct (map re_id (db_registry d))" "e \<in> set (db_registry d)"
  shows "re_id e \<in> set (eligible_entries d) \<longleftrightarrow> build_eligible d e"
  using assms by (auto simp: eligible_entries_def distinct_map dest: inj_onD)

lemma scan_ids: "distinct (map re_id (db_registry (xs_db s))) \<Longrightarrow>
  map re_id (db_registry (xs_db (quarantine_broken_entries env s))) = map re_id (db_registry (xs_db s))"
  by (simp add: scan_registry)

lemma scan_intact:
  assumes "distinct (map re_id (db_registry (xs_db s)))"
    and "e \<in> set (db_registry (xs_db (quarantine_broken_entries env s)))" "re_state e = ''active''" "re_index_mode e = ''auto''"
  shows "\<not> broken env e"
  using assms(2-4) by (auto simp: scan_registry[OF assms(1)] split: if_splits)

text \<open>
  The scan of the automatic builder. After it every active entry in automatic mode is intact, parked or
  not: the broken ones were taken out of service, the intact ones are as they were. It picks an eligible,
  intact entry that no usable index serves, and picks none only when every eligible entry is served.
  Indexes postvec did not create stay, all of them.
\<close>

theorem scan_reconciles_and_picks:
  assumes "distinct (map re_id (db_registry (xs_db s)))" "pick_candidate env s = (c, s')"
  shows "(\<forall>e \<in> set (db_registry (xs_db s')). re_state e = ''active'' \<and> re_index_mode e = ''auto'' \<longrightarrow> identity_broken env e = None) \<and>
    (\<forall>e \<in> set (db_registry (xs_db s)). identity_broken env e = None \<longrightarrow> e \<in> set (db_registry (xs_db s'))) \<and>
    (case c of
       Some i \<Rightarrow> \<exists>e. load_entry i (xs_db s') = Some e \<and> build_eligible (xs_db s') e \<and> identity_broken env e = None \<and>
                   \<not> ann_index_ready env (xs_indexes s') e
     | None \<Rightarrow> \<forall>e \<in> set (db_registry (xs_db s')). build_eligible (xs_db s') e \<longrightarrow> ann_index_ready env (xs_indexes s') e) \<and>
    set (xs_indexes s') \<subseteq> set (xs_indexes s) \<and> filter (\<lambda>i. \<not> px_ours i) (xs_indexes s') = filter (\<lambda>i. \<not> px_ours i) (xs_indexes s)"
proof -
  let ?d = "xs_db s'"
  have s': "s' = quarantine_broken_entries env s" and c: "c = find (needs_build env s') (eligible_entries ?d)"
    using assms(2) by (auto simp: pick_candidate_def Let_def)
  have dist: "distinct (map re_id (db_registry ?d))" using scan_ids[OF assms(1)] assms(1) s' by metis
  have intact: "identity_broken env e = None"
    if "e \<in> set (db_registry ?d)" "re_state e = ''active''" "re_index_mode e = ''auto''" for e
    using scan_intact[OF assms(1)] that s' by (simp add: broken_def)
  have kept: "e \<in> set (db_registry ?d)" if "e \<in> set (db_registry (xs_db s))" "identity_broken env e = None" for e
    using that s' by (force simp: scan_registry[OF assms(1)] broken_def image_iff)
  have "case c of
       Some i \<Rightarrow> \<exists>e. load_entry i ?d = Some e \<and> build_eligible ?d e \<and> identity_broken env e = None \<and> \<not> ann_index_ready env (xs_indexes s') e
     | None \<Rightarrow> \<forall>e \<in> set (db_registry ?d). build_eligible ?d e \<longrightarrow> ann_index_ready env (xs_indexes s') e"
  proof (cases c)
    case None
    have "ann_index_ready env (xs_indexes s') e" if "e \<in> set (db_registry ?d)" "build_eligible ?d e" for e
      using None c eligible_entries_iff[OF dist that(1)] that load_entry_unique[OF dist that(1)]
      by (auto simp: find_None_iff needs_build_def)
    then show ?thesis using None by simp
  next
    case (Some i)
    then obtain e where e: "load_entry i ?d = Some e" "\<not> ann_index_ready env (xs_indexes s') e" "i \<in> set (eligible_entries ?d)"
      using c by (auto simp: find_Some_iff needs_build_def in_set_conv_nth split: option.splits)
    then have "build_eligible ?d e"
      using eligible_entries_iff[OF dist load_entry_in[OF e(1)]] load_entry_id[OF e(1)] by simp
    then show ?thesis using Some e intact load_entry_in[OF e(1)] by (auto simp: build_eligible_def)
  qed
  then show ?thesis using intact kept scan_drops_only_ours[of s env] s' by (auto simp: drops_only_ours_def)
qed

section \<open>The build\<close>

lemma find_none_append: "find P (xs @ ys) = (case find P xs of None \<Rightarrow> find P ys | Some x \<Rightarrow> Some x)"
  by (induction xs) auto

lemma build_vector_index_cases:
  assumes "build_vector_index env i qtable vec_col dim distance ixs = Ok ixs'"
  obtains x schema where "ixs' = ixs" "ie_schema env qtable = Some schema" "x \<in> set ixs" "named schema (vec_index_name i) x"
      "px_table x = qtable" "vec_col \<in> set (px_columns x)" "px_ours x"
  | schema where "ie_schema env qtable = Some schema" "dim \<le> 2000" "\<forall>x \<in> set ixs. \<not> named schema (vec_index_name i) x"
      "ixs' = ixs @ [(new_index schema (vec_index_name i) qtable vec_col distance)\<lparr>px_ours := \<not> ie_mark_fails env\<rparr>]"
proof -
  obtain schema where schema: "ie_schema env qtable = Some schema" and dim: "dim \<le> 2000"
    using assms by (auto simp: build_vector_index_def split: if_splits option.splits)
  let ?new = "new_index schema (vec_index_name i) qtable vec_col distance"
  show thesis
  proof (cases "find (named schema (vec_index_name i)) ixs")
    case None
    then have fresh: "\<forall>x \<in> set ixs. \<not> named schema (vec_index_name i) x" by (simp add: find_None_iff)
    have same: "map (\<lambda>x. if named schema (vec_index_name i) x then x\<lparr>px_ours := True\<rparr> else x) ixs = ixs"
      using fresh by (intro map_idI) simp
    have new: "named schema (vec_index_name i) ?new" "px_table ?new = qtable" "vec_col \<in> set (px_columns ?new)"
      "?new\<lparr>px_ours := False\<rparr> = ?new"
      by (simp_all add: named_def new_index_def)
    have "ixs' = mark_index_depends_on_extension env qtable (vec_index_name i) vec_col (ixs @ [?new])"
      using assms None schema dim by (auto simp: build_vector_index_def index_is_entrys_def split: option.splits)
    also have "\<dots> = ixs @ [?new\<lparr>px_ours := \<not> ie_mark_fails env\<rparr>]"
      using None new by (simp add: mark_index_depends_on_extension_def schema index_is_entrys_def find_none_append same)
    finally show thesis using that(2) schema dim fresh by blast
  next
    case (Some x)
    then have x: "x \<in> set ixs" "named schema (vec_index_name i) x" by (auto simp: find_Some_iff)
    have "ixs' = ixs" "px_table x = qtable" "vec_col \<in> set (px_columns x)" "px_ours x"
      using assms Some schema dim by (auto simp: build_vector_index_def index_is_entrys_def split: bool.splits)
    then show thesis using that(1) schema x by blast
  qed
qed

lemma new_index_serves:
  "re_dim entry \<le> 2000 \<Longrightarrow>
   serves env entry ((new_index schema name (qualified_vector_table entry) (re_vector_column entry) (re_distance entry))\<lparr>px_ours := b\<rparr>)"
  by (simp add: serves_def new_index_def expected_ann_opclass_def)

definition clear_error :: "int \<Rightarrow> db \<Rightarrow> db" where
  "clear_error i d = set_entry i (\<lambda>e. e\<lparr>re_index_error := None\<rparr>) d"

text \<open>An entry is covered once an index serves it or postvec's own index of its conventional name exists.\<close>

definition own_index :: "registry_entry \<Rightarrow> pg_index \<Rightarrow> bool" where
  "own_index entry x \<longleftrightarrow> px_name x = vec_index_name (re_id entry) \<and> px_table x = qualified_vector_table entry \<and>
     re_vector_column entry \<in> set (px_columns x) \<and> px_ours x"

lemma ensure_vector_index_Ok:
  assumes "ensure_vector_index env entry s = Ok s'"
  shows "xs_db s' = clear_error (re_id entry) (xs_db s)"
    "xs_indexes s' = xs_indexes s \<and> (ann_index_ready env (xs_indexes s) entry \<or> list_ex (own_index entry) (xs_indexes s)) \<or>
     \<not> ann_index_ready env (xs_indexes s) entry \<and> (\<exists>x. xs_indexes s' = xs_indexes s @ [x] \<and> serves env entry x \<and>
        px_name x = vec_index_name (re_id entry) \<and> px_table x = qualified_vector_table entry \<and> px_ours x = (\<not> ie_mark_fails env))"
proof -
  obtain ixs where ixs: "(if ann_index_ready env (xs_indexes s) entry then Ok (xs_indexes s)
        else build_vector_index env (re_id entry) (qualified_vector_table entry) (re_vector_column entry)
               (re_dim entry) (re_distance entry) (xs_indexes s)) = Ok ixs"
    and s': "s' = s\<lparr>xs_indexes := ixs, xs_db := clear_error (re_id entry) (xs_db s)\<rparr>"
    using assms by (auto simp: ensure_vector_index_def clear_error_def)
  show "xs_db s' = clear_error (re_id entry) (xs_db s)" by (simp add: s')
  show "xs_indexes s' = xs_indexes s \<and> (ann_index_ready env (xs_indexes s) entry \<or> list_ex (own_index entry) (xs_indexes s)) \<or>
     \<not> ann_index_ready env (xs_indexes s) entry \<and> (\<exists>x. xs_indexes s' = xs_indexes s @ [x] \<and> serves env entry x \<and>
        px_name x = vec_index_name (re_id entry) \<and> px_table x = qualified_vector_table entry \<and> px_ours x = (\<not> ie_mark_fails env))"
  proof (cases "ann_index_ready env (xs_indexes s) entry")
    case False
    then have "build_vector_index env (re_id entry) (qualified_vector_table entry) (re_vector_column entry)
               (re_dim entry) (re_distance entry) (xs_indexes s) = Ok ixs" using ixs by simp
    then show ?thesis
    proof (cases rule: build_vector_index_cases)
      case (1 x schema)
      then show ?thesis by (auto simp: s' own_index_def named_def list_ex_iff)
    next
      case (2 schema)
      then show ?thesis using False by (simp add: s' new_index_serves) (simp add: new_index_def)
    qed
  qed (use ixs s' in simp)
qed

lemma clear_error_id:
  assumes "distinct (map re_id (db_registry d))" "load_entry i d = Some e" "re_index_error e = None"
  shows "clear_error i d = d"
proof -
  have "map (\<lambda>x. if re_id x = i then x\<lparr>re_index_error := None\<rparr> else x) (db_registry d) = db_registry d"
  proof (rule map_idI)
    fix x assume "x \<in> set (db_registry d)"
    then show "(if re_id x = i then x\<lparr>re_index_error := None\<rparr> else x) = x"
      using load_entry_unique[OF assms(1)] assms(2,3) by auto
  qed
  then show ?thesis by (simp add: clear_error_def set_entry_def)
qed

text \<open>
  C15. The build transaction, whatever other sessions did before and while it waited for its locks. It never
  touches the extension's tables, and it adds at most one index: on the vector table of an entry that is,
  under the locks, active, automatic, not parked, drained, outside any migration, intact and unserved. The
  new index serves the entry. Otherwise nothing changes, and where the entry still looks buildable
  postvec's own index of that name is already there.
\<close>

theorem build_adds_only_wanted_index:
  assumes "distinct (map re_id (db_registry (xs_db s)))" "build_candidate env0 env i s0 s = Ok s'"
  shows "xs_db s' = xs_db s \<and>
    (xs_indexes s' = xs_indexes s \<or>
     (\<exists>e x. load_entry i (xs_db s) = Some e \<and> build_eligible (xs_db s) e \<and> identity_broken env e = None \<and>
        \<not> ann_index_ready env (xs_indexes s) e \<and> xs_indexes s' = xs_indexes s @ [x] \<and> serves env e x \<and>
        px_name x = vec_index_name i \<and> px_table x = qualified_vector_table e))"
proof -
  consider "s' = s"
    | e where "load_entry i (xs_db s) = Some e" "i \<in> set (eligible_entries (xs_db s))" "identity_broken env e = None"
      "\<not> ann_index_ready env (xs_indexes s) e" "ensure_vector_index env e s = Ok s'"
    using assms(2) by (auto simp: build_candidate_def split: option.splits if_splits)
  then show ?thesis
  proof cases
    case 2
    have id: "re_id e = i" by (rule load_entry_id[OF 2(1)])
    have elig: "build_eligible (xs_db s) e"
      using eligible_entries_iff[OF assms(1) load_entry_in[OF 2(1)]] 2(2) id by simp
    have "clear_error i (xs_db s) = xs_db s"
      by (rule clear_error_id[OF assms(1) 2(1)]) (use elig in \<open>simp add: build_eligible_def\<close>)
    then show ?thesis using ensure_vector_index_Ok[OF 2(5)] 2(1,3,4) elig id by auto
  qed simp
qed

text \<open>
  \<open>create_vector_index()\<close> is the repair path. When it succeeds, no error is parked on the entry any more,
  its mode is untouched, every index that was there is still there, and the entry is served by a usable
  index or has postvec's own index under its conventional name.
\<close>

theorem create_vector_index_repairs:
  assumes "create_vector_index env owner_ok schema table column s = Ok s'"
    and "distinct (map re_id (db_registry (xs_db s)))"
  shows "owner_ok \<and> (\<exists>e. load_active schema table column (xs_db s) = Some e \<and>
    load_entry (re_id e) (xs_db s') = Some (e\<lparr>re_index_error := None\<rparr>) \<and>
    db_jobs (xs_db s') = db_jobs (xs_db s) \<and>
    (ann_index_ready env (xs_indexes s') e \<or> list_ex (own_index e) (xs_indexes s')) \<and>
    (\<exists>new. xs_indexes s' = xs_indexes s @ new \<and> length new \<le> 1 \<and> (ann_index_ready env (xs_indexes s) e \<longrightarrow> new = [])))"
proof -
  obtain e where own: "owner_ok" and e: "load_active schema table column (xs_db s) = Some e"
    and ens: "ensure_vector_index env e s = Ok s'"
    using assms(1) by (auto simp: create_vector_index_def split: if_splits option.splits sum.splits)
  have "e \<in> set (db_registry (xs_db s))" using e by (auto simp: load_active_def find_Some_iff)
  then have load: "load_entry (re_id e) (xs_db s) = Some e" by (rule load_entry_unique[OF assms(2)])
  have "load_entry (re_id e) (clear_error (re_id e) (xs_db s)) = Some (e\<lparr>re_index_error := None\<rparr>)"
    using load find_map_id[of re_id "\<lambda>x. if re_id x = re_id e then x\<lparr>re_index_error := None\<rparr> else x" "re_id e" "db_registry (xs_db s)"]
    by (simp add: load_entry_def clear_error_def set_entry_def)
  moreover have "db_jobs (clear_error (re_id e) (xs_db s)) = db_jobs (xs_db s)" by (simp add: clear_error_def)
  moreover note ensure_vector_index_Ok(1)[OF ens]
  moreover have "(ann_index_ready env (xs_indexes s') e \<or> list_ex (own_index e) (xs_indexes s')) \<and>
    (\<exists>new. xs_indexes s' = xs_indexes s @ new \<and> length new \<le> 1 \<and> (ann_index_ready env (xs_indexes s) e \<longrightarrow> new = []))"
    using ensure_vector_index_Ok(2)[OF ens] by (auto simp: ann_index_ready_def)
  ultimately show ?thesis using own e by auto
qed

section \<open>Undisturbed steps settle\<close>

lemma dec_int_inject: "dec_int i = dec_int j \<longleftrightarrow> i = j"
proof
  assume eq: "dec_int i = dec_int j"
  have dec: "m = n" if "dec m = dec n" for m n using arg_cong[OF that, of "number 10"] by (simp add: number_dec)
  have sign: "dec n \<noteq> CHR ''-'' # xs" for n xs
  proof
    assume "dec n = CHR ''-'' # xs"
    then have "is_ascii_digit (CHR ''-'')" using dec_digits[of "CHR ''-''" n] by simp
    then show False by (simp add: is_ascii_digit_def byte_def)
  qed
  show "i = j"
    using eq sign sign[symmetric] by (auto simp: dec_int_def split: if_splits dest!: dec)
qed simp

text \<open>
  The run of a worker nobody interferes with: every transaction sees the same catalogue. Statements may
  fail, each time in the same way, and so may the build transaction as a whole.
\<close>

definition quiet_run :: "index_env \<Rightarrow> string option \<Rightarrow> index_run" where
  "quiet_run env abort =
     \<lparr>ir_scan = env, ir_scan_abort = None, ir_between = id, ir_first = env, ir_wait = id, ir_build = env,
      ir_build_abort = abort, ir_after = id, ir_record = env, ir_record_abort = None\<rparr>"

definition quiet_step :: "index_env \<Rightarrow> string option \<Rightarrow> counters \<times> index_state \<Rightarrow> counters \<times> index_state" where
  "quiet_step env abort cs = index_step (quiet_run env abort) (fst cs) (snd cs)"

text \<open>
  A catalogue is coherent when an intact entry has its table, the check of an entry does not read its
  parked error, and postvec's own index of an entry, when it exists, is usable.
\<close>

definition coherent :: "index_env \<Rightarrow> index_state \<Rightarrow> bool" where
  "coherent env s \<longleftrightarrow>
     (\<forall>e. identity_broken env e = None \<longrightarrow> ie_schema env (qualified_vector_table e) \<noteq> None) \<and>
     (\<forall>e err. identity_broken env (e\<lparr>re_index_error := err\<rparr>) = identity_broken env e) \<and>
     (\<forall>e \<in> set (db_registry (xs_db s)). \<forall>x \<in> set (xs_indexes s). own_index e x \<longrightarrow> serves env e x)"

definition intact :: "index_env \<Rightarrow> index_state \<Rightarrow> bool" where
  "intact env s \<longleftrightarrow> distinct (map re_id (db_registry (xs_db s))) \<and> coherent env s \<and>
     (\<forall>e \<in> set (db_registry (xs_db s)). re_state e = ''active'' \<and> re_index_mode e = ''auto'' \<longrightarrow> \<not> broken env e)"

definition unserved :: "index_env \<Rightarrow> index_state \<Rightarrow> registry_entry list" where
  "unserved env s = filter (\<lambda>e. build_eligible (xs_db s) e \<and> \<not> ann_index_ready env (xs_indexes s) e) (db_registry (xs_db s))"

lemma vector_table_simps [simp]:
  "qualified_vector_table (e\<lparr>re_index_error := err\<rparr>) = qualified_vector_table e"
  "qualified_vector_table (e\<lparr>re_state := st\<rparr>) = qualified_vector_table e"
  by (simp_all add: qualified_vector_table_def qualified_table_def split: option.splits)

lemma serves_simps [simp]:
  "own_index (e\<lparr>re_index_error := err\<rparr>) x = own_index e x" "own_index (e\<lparr>re_state := st\<rparr>) x = own_index e x"
  "serves env (e\<lparr>re_index_error := err\<rparr>) x = serves env e x" "serves env (e\<lparr>re_state := st\<rparr>) x = serves env e x"
  "ann_index_ready env ixs (e\<lparr>re_index_error := err\<rparr>) = ann_index_ready env ixs e"
  by (simp_all add: own_index_def serves_def ann_index_ready_def list_ex_iff)

lemma scan_noop:
  assumes "intact env s" shows "quarantine_broken_entries env s = s"
proof -
  have "reconcile_entry env i s = s" if "i \<in> set (auto_ids (xs_db s))" for i
  proof (cases rule: reconcile_entry_cases[of env i s])
    case (2 e reason)
    have "re_state e = ''active'' \<and> re_index_mode e = ''auto''"
      using that load_entry_unique[of "xs_db s"] 2(1) assms unfolding auto_ids_def intact_def by fastforce
    then show ?thesis using assms 2(2) load_entry_in[OF 2(1)] by (auto simp: intact_def)
  qed
  then have "fold (reconcile_entry env) ids s = s" if "set ids \<subseteq> set (auto_ids (xs_db s))" for ids
    using that by (induction ids) auto
  then show ?thesis by (simp add: quarantine_broken_entries_def)
qed

lemma scan_gives_intact:
  assumes "distinct (map re_id (db_registry (xs_db s)))" "coherent env s"
  shows "intact env (quarantine_broken_entries env s)"
proof -
  let ?s = "quarantine_broken_entries env s"
  have "own_index e x \<Longrightarrow> serves env e x" if member: "e \<in> set (db_registry (xs_db ?s))" "x \<in> set (xs_indexes ?s)" for e x
  proof -
    assume own: "own_index e x"
    obtain e0 where "e0 \<in> set (db_registry (xs_db s))" "e = e0 \<or> e = e0\<lparr>re_state := ''disabled''\<rparr>"
      using member(1) by (auto simp: scan_registry[OF assms(1)])
    moreover have "x \<in> set (xs_indexes s)" using member(2) scan_drops_only_ours[of s env] by (auto simp: drops_only_ours_def)
    ultimately show "serves env e x" using assms(2) own by (auto simp: coherent_def)
  qed
  moreover have "distinct (map re_id (db_registry (xs_db ?s)))" using assms(1) scan_ids by metis
  ultimately show ?thesis
    using assms(2) scan_intact[OF assms(1)] by (auto simp: intact_def coherent_def)
qed

lemma length_filter_shrinks:
  assumes "\<And>x. x \<in> set xs \<Longrightarrow> P x \<Longrightarrow> Q x" "y \<in> set xs" "Q y" "\<not> P y"
  shows "length (filter P xs) < length (filter Q xs)"
proof -
  have "length (filter P xs) = length (filter P (filter Q xs))"
    using assms(1) by (simp add: conj_commute) (metis (mono_tags, lifting) filter_cong)
  also have "\<dots> < length (filter Q xs)"
    by (rule length_filter_less[of y]) (use assms in simp_all)
  finally show ?thesis .
qed

lemma quiet_step_cases:
  assumes "intact env s"
  obtains "snd (quiet_step env abort (ct, s)) = s" "pick_candidate env s = (None, s)"
  | e x where "e \<in> set (unserved env s)" "snd (quiet_step env abort (ct, s)) = s\<lparr>xs_indexes := xs_indexes s @ [x]\<rparr>"
      "serves env e x" "px_name x = vec_index_name (re_id e)"
  | e msg where "e \<in> set (unserved env s)" "snd (quiet_step env abort (ct, s)) = park_entry (re_id e) msg s"
proof -
  have dist: "distinct (map re_id (db_registry (xs_db s)))" using assms by (simp add: intact_def)
  have scan: "pick_candidate env s = (find (needs_build env s) (eligible_entries (xs_db s)), s)"
    using scan_noop[OF assms] by (simp add: pick_candidate_def)
  show thesis
  proof (cases "find (needs_build env s) (eligible_entries (xs_db s))")
    case None
    then show thesis using that(1) scan by (simp add: quiet_step_def index_step_def quiet_run_def)
  next
    case (Some i)
    then obtain e where e: "load_entry i (xs_db s) = Some e" "\<not> ann_index_ready env (xs_indexes s) e" "i \<in> set (eligible_entries (xs_db s))"
      by (auto simp: find_Some_iff needs_build_def in_set_conv_nth split: option.splits)
    have id: "re_id e = i" by (rule load_entry_id[OF e(1)])
    have elig: "build_eligible (xs_db s) e" using eligible_entries_iff[OF dist load_entry_in[OF e(1)]] e(3) id by simp
    have unserved: "e \<in> set (unserved env s)" using load_entry_in[OF e(1)] elig e(2) by (simp add: unserved_def)
    have sound: "identity_broken env e = None"
      using assms elig load_entry_in[OF e(1)] by (auto simp: intact_def build_eligible_def broken_def)
    define r where "r = build_transaction (quiet_run env abort) i s s"
    have step: "snd (quiet_step env abort (ct, s)) = (case r of Inr s' \<Rightarrow> s' | Inl m \<Rightarrow> record_build_failure env i m s)"
      using Some scan by (simp add: quiet_step_def index_step_def r_def quiet_run_def split: sum.splits)
    show thesis
    proof (cases r)
      case (Inl m)
      then show thesis
        using that(3)[OF unserved, of m] step e(1,2) sound elig id by (simp add: record_build_failure_def build_eligible_def)
    next
      case (Inr s')
      have "build_candidate env env i s s = ensure_vector_index env e s \<or> (\<exists>m. build_candidate env env i s s = Err m)"
        using e sound assms
        by (auto simp: build_candidate_def identity_broken_def intact_def coherent_def split: option.splits if_splits)
      then have ens: "ensure_vector_index env e s = Ok s'"
        using Inr by (auto simp: r_def build_transaction_def quiet_run_def split: option.splits)
      have "\<not> list_ex (own_index e) (xs_indexes s)"
        using assms load_entry_in[OF e(1)] e(2) by (auto simp: intact_def coherent_def ann_index_ready_def list_ex_iff)
      then obtain x where "xs_indexes s' = xs_indexes s @ [x]" "serves env e x" "px_name x = vec_index_name (re_id e)"
        using ensure_vector_index_Ok(2)[OF ens] e(2) by auto
      moreover have "xs_db s' = xs_db s"
        using ensure_vector_index_Ok(1)[OF ens] clear_error_id[OF dist e(1)] elig id by (simp add: build_eligible_def)
      ultimately show thesis using that(2)[OF unserved, of x] step Inr by simp
    qed
  qed
qed

lemma build_eligible_park [simp]:
  "build_eligible (set_entry i f d) e = build_eligible d e"
  by (simp add: build_eligible_def set_entry_def)

lemma quiet_step_built:
  assumes "intact env s" "e \<in> set (unserved env s)" "serves env e x" "px_name x = vec_index_name (re_id e)"
    and "s' = s\<lparr>xs_indexes := xs_indexes s @ [x]\<rparr>"
  shows "intact env s'" "length (unserved env s') < length (unserved env s)"
proof -
  have dist: "distinct (map re_id (db_registry (xs_db s)))" using assms(1) by (simp add: intact_def)
  have "own_index e' x \<Longrightarrow> serves env e' x" if member: "e' \<in> set (db_registry (xs_db s))" for e'
  proof -
    assume "own_index e' x"
    then have "re_id e' = re_id e" using assms(4) by (simp add: own_index_def vec_index_name_def dec_int_inject)
    then have "e' = e" using member assms(2) dist by (auto simp: unserved_def distinct_map dest: inj_onD)
    then show "serves env e' x" using assms(3) by simp
  qed
  then show "intact env s'" using assms(1) by (auto simp: intact_def coherent_def assms(5))
  have fields: "xs_db s' = xs_db s" "xs_indexes s' = xs_indexes s @ [x]" by (simp_all add: assms(5))
  show "length (unserved env s') < length (unserved env s)"
    unfolding unserved_def fields
    by (rule length_filter_shrinks[of _ _ _ e]) (use assms(2,3) in \<open>auto simp: unserved_def ann_index_ready_def\<close>)
qed

lemma quiet_step_parked:
  assumes "intact env s" "e \<in> set (unserved env s)" "s' = park_entry (re_id e) msg s"
  shows "intact env s'" "length (unserved env s') < length (unserved env s)"
proof -
  define f where "f = (\<lambda>x :: registry_entry. if re_id x = re_id e then if re_state x = ''active'' \<and> re_index_mode x = ''auto''
     then x\<lparr>re_index_error := Some (left_chars 1024 msg)\<rparr> else x else x)"
  have reg: "db_registry (xs_db s') = map f (db_registry (xs_db s))"
    by (simp add: assms(3) park_entry_def set_entry_def f_def)
  have same: "xs_indexes s' = xs_indexes s" "\<And>x. build_eligible (xs_db s') x = build_eligible (xs_db s) x"
    by (simp_all add: assms(3) park_entry_def)
  have f: "f x = x \<or> f x = x\<lparr>re_index_error := Some (left_chars 1024 msg)\<rparr>" for x by (simp add: f_def)
  have ids: "map re_id (map f (db_registry (xs_db s))) = map re_id (db_registry (xs_db s))"
    by (simp add: f_def)
  have inv: "own_index (f x) y = own_index x y" "serves env (f x) y = serves env x y" "re_state (f x) = re_state x"
    "re_index_mode (f x) = re_index_mode x" for x y using f[of x] by (auto simp: f_def)
  have brk: "broken env (f x) = broken env x" for x
    using f[of x] assms(1) by (auto simp: broken_def intact_def coherent_def)
  have "distinct (map re_id (db_registry (xs_db s')))" using assms(1) unfolding reg ids by (simp add: intact_def)
  then show "intact env s'" using assms(1) by (auto simp: intact_def coherent_def reg same inv brk)
  have ready: "ann_index_ready env ixs (f x) = ann_index_ready env ixs x" for ixs x using f[of x] by auto
  have elig: "build_eligible (xs_db s) (f x) \<Longrightarrow> build_eligible (xs_db s) x" "\<not> build_eligible (xs_db s) (f e)" for x
    using assms(2) by (auto simp: f_def build_eligible_def unserved_def split: if_splits)
  have "length (unserved env s') = length (filter (\<lambda>x. build_eligible (xs_db s) (f x) \<and> \<not> ann_index_ready env (xs_indexes s) x) (db_registry (xs_db s)))"
    by (simp add: unserved_def reg same filter_map o_def ready)
  also have "\<dots> < length (unserved env s)"
    unfolding unserved_def by (rule length_filter_shrinks[of _ _ _ e]) (use assms(2) elig in \<open>auto simp: unserved_def\<close>)
  finally show "length (unserved env s') < length (unserved env s)" .
qed

text \<open>What one undisturbed step keeps of an entry: its row, up to a parked error, and its eligibility.\<close>

definition keeps_entry :: "registry_entry \<Rightarrow> index_state \<Rightarrow> bool" where
  "keeps_entry e s \<longleftrightarrow> build_eligible (xs_db s) (e\<lparr>re_index_error := None\<rparr>) \<and>
     (\<exists>err. e\<lparr>re_index_error := err\<rparr> \<in> set (db_registry (xs_db s)))"

lemma park_registry:
  "db_registry (xs_db (park_entry i msg s)) =
     map (\<lambda>x. if re_id x = i \<and> re_state x = ''active'' \<and> re_index_mode x = ''auto''
              then x\<lparr>re_index_error := Some (left_chars 1024 msg)\<rparr> else x) (db_registry (xs_db s))"
  by (simp add: park_entry_def set_entry_def)

lemma keeps_entry_parked:
  assumes "keeps_entry e s" shows "keeps_entry e (park_entry i msg s)"
proof -
  obtain err where err: "e\<lparr>re_index_error := err\<rparr> \<in> set (db_registry (xs_db s))" using assms by (auto simp: keeps_entry_def)
  define g where "g = (\<lambda>x :: registry_entry. if re_id x = i \<and> re_state x = ''active'' \<and> re_index_mode x = ''auto''
    then x\<lparr>re_index_error := Some (left_chars 1024 msg)\<rparr> else x)"
  have "g (e\<lparr>re_index_error := err\<rparr>) \<in> set (db_registry (xs_db (park_entry i msg s)))"
    using err unfolding park_registry g_def[symmetric] set_map by (rule imageI)
  moreover have "\<exists>err'. g (e\<lparr>re_index_error := err\<rparr>) = e\<lparr>re_index_error := err'\<rparr>"
    by (cases e) (auto simp: g_def)
  moreover have "build_eligible (xs_db (park_entry i msg s)) (e\<lparr>re_index_error := None\<rparr>)"
    using assms by (simp add: keeps_entry_def park_entry_def)
  ultimately show ?thesis unfolding keeps_entry_def by metis
qed

lemma keeps_entry_scan:
  assumes "distinct (map re_id (db_registry (xs_db s)))" "e \<in> set (db_registry (xs_db s))"
    and "build_eligible (xs_db s) e" "identity_broken env e = None"
  shows "keeps_entry e (quarantine_broken_entries env s)"
proof -
  have elig: "build_eligible (xs_db (reconcile_entry env i s)) e" if "build_eligible (xs_db s) e" for i s
  proof (cases rule: reconcile_entry_cases[of env i s])
    case (2 e' reason)
    then show ?thesis using that
      by (auto simp: quarantine_indexed_def quarantine_entry_def build_eligible_def list_all_iff is_live_state_def)
  qed (use that in simp)
  have "build_eligible (xs_db (fold (reconcile_entry env) ids s)) e" for ids
    using assms(3) elig by (induction ids arbitrary: s) auto
  then have "build_eligible (xs_db (quarantine_broken_entries env s)) e" by (simp add: quarantine_broken_entries_def)
  moreover have "e \<in> set (db_registry (xs_db (quarantine_broken_entries env s)))"
    unfolding scan_registry[OF assms(1)] set_map by (rule image_eqI[of _ _ e]) (use assms(2,4) in \<open>simp_all add: broken_def\<close>)
  moreover have "e\<lparr>re_index_error := None\<rparr> = e" using assms(3) by (cases e) (simp add: build_eligible_def)
  ultimately show ?thesis unfolding keeps_entry_def by (metis registry_entry.surjective registry_entry.update_convs)
qed

lemma quiet_steps:
  assumes "intact env s" "length (unserved env s) \<le> n"
  shows "intact env (snd ((quiet_step env abort ^^ n) (ct, s)))" "unserved env (snd ((quiet_step env abort ^^ n) (ct, s))) = []"
    "keeps_entry e s \<Longrightarrow> keeps_entry e (snd ((quiet_step env abort ^^ n) (ct, s)))"
proof -
  have "intact env (snd ((quiet_step env abort ^^ n) cs)) \<and> unserved env (snd ((quiet_step env abort ^^ n) cs)) = [] \<and>
      (keeps_entry e (snd cs) \<longrightarrow> keeps_entry e (snd ((quiet_step env abort ^^ n) cs)))"
    if "intact env (snd cs)" "length (unserved env (snd cs)) \<le> n" for cs
    using that
  proof (induction n arbitrary: cs)
    case (Suc n)
    let ?cs = "quiet_step env abort cs"
    have "intact env (snd ?cs) \<and> length (unserved env (snd ?cs)) \<le> n \<and> (keeps_entry e (snd cs) \<longrightarrow> keeps_entry e (snd ?cs))"
      using Suc.prems(1)
    proof (cases rule: quiet_step_cases[of env "snd cs" abort "fst cs"])
      case 1
      have "unserved env (snd cs) = []"
      proof (rule ccontr)
        assume "unserved env (snd cs) \<noteq> []"
        then have x: "hd (unserved env (snd cs)) \<in> set (unserved env (snd cs))" (is "?x \<in> _") by simp
        have dist: "distinct (map re_id (db_registry (xs_db (snd cs))))" using Suc.prems(1) by (simp add: intact_def)
        have "needs_build env (snd cs) (re_id ?x)"
          using load_entry_unique[OF dist] x by (simp add: needs_build_def unserved_def)
        moreover have "re_id ?x \<in> set (eligible_entries (xs_db (snd cs)))"
          using eligible_entries_iff[OF dist] x by (simp add: unserved_def)
        moreover have "find (needs_build env (snd cs)) (eligible_entries (xs_db (snd cs))) = None"
          using 1(2) scan_noop[OF Suc.prems(1)] by (simp add: pick_candidate_def Let_def)
        ultimately show False by (auto simp: find_None_iff)
      qed
      then show ?thesis using 1(1)[unfolded prod.collapse] Suc.prems(1) by simp
    next
      case (2 e' x)
      have "keeps_entry e (snd cs) \<longrightarrow> keeps_entry e (snd ?cs)" by (simp add: 2(2)[unfolded prod.collapse] keeps_entry_def)
      then show ?thesis using quiet_step_built[OF Suc.prems(1) 2(1,3,4) 2(2)[unfolded prod.collapse]] Suc.prems(2) by simp
    next
      case (3 e' msg)
      show ?thesis
        using 3(2)[unfolded prod.collapse] quiet_step_parked[OF Suc.prems(1) 3(1) 3(2)[unfolded prod.collapse]] Suc.prems(2) keeps_entry_parked[of e "snd cs"] by simp
    qed
    then show ?case using Suc.IH[of ?cs] by (simp add: funpow_swap1)
  qed simp
  from this[of "(ct, s)"] assms show
    "intact env (snd ((quiet_step env abort ^^ n) (ct, s)))" "unserved env (snd ((quiet_step env abort ^^ n) (ct, s))) = []"
    "keeps_entry e s \<Longrightarrow> keeps_entry e (snd ((quiet_step env abort ^^ n) (ct, s)))" by simp_all
qed

lemma quiet_step_scanned:
  assumes "intact env (quarantine_broken_entries env s)"
  shows "quiet_step env abort (ct, quarantine_broken_entries env s) = quiet_step env abort (ct, s)"
proof -
  have "pick_candidate env (quarantine_broken_entries env s) = pick_candidate env s"
    using scan_noop[OF assms] by (simp add: pick_candidate_def)
  then show ?thesis by (simp add: quiet_step_def index_step_def quiet_run_def)
qed

text \<open>
  C16. Left alone, the automatic builder settles: after as many steps as there are registry entries no
  candidate is left, whether builds succeed or fail, and every entry that was eligible and intact at the
  start is served by a usable index or parked with its error. A failing build is not tried again and
  again.
\<close>

theorem quiet_index_builds_settle:
  assumes "distinct (map re_id (db_registry (xs_db s)))" "coherent env s"
    and "s' = snd ((quiet_step env abort ^^ length (db_registry (xs_db s))) (ct, s))"
  shows "pick_candidate env s' = (None, s') \<and>
    (\<forall>e \<in> set (db_registry (xs_db s)). build_eligible (xs_db s) e \<and> identity_broken env e = None \<longrightarrow>
       (\<exists>e'. load_entry (re_id e) (xs_db s') = Some e' \<and> (ann_index_ready env (xs_indexes s') e' \<or> re_index_error e' \<noteq> None)))"
proof -
  let ?s = "quarantine_broken_entries env s"
  define n where "n = length (db_registry (xs_db s))"
  have i: "intact env ?s" by (rule scan_gives_intact[OF assms(1,2)])
  have len: "length (unserved env ?s) \<le> n"
  proof -
    have "length (unserved env ?s) \<le> length (db_registry (xs_db ?s))" unfolding unserved_def by (rule length_filter_le)
    then show ?thesis by (simp add: scan_registry[OF assms(1)] n_def)
  qed
  have s': "s' = snd ((quiet_step env abort ^^ n) (ct, ?s))"
  proof (cases n)
    case 0
    then have "?s = s" by (simp add: n_def quarantine_broken_entries_def auto_ids_def)
    then show ?thesis by (simp add: assms(3) n_def)
  next
    case (Suc m)
    have "(quiet_step env abort ^^ n) x = (quiet_step env abort ^^ m) (quiet_step env abort x)" for x
      by (simp add: Suc funpow_swap1)
    then show ?thesis unfolding assms(3) n_def[symmetric] by (simp add: quiet_step_scanned[OF i])
  qed
  note end_state = quiet_steps[OF i len, where abort = abort and ct = ct, folded s']
  have dist: "distinct (map re_id (db_registry (xs_db s')))" using end_state(1) by (simp add: intact_def)
  have "find (needs_build env s') (eligible_entries (xs_db s')) = None"
  proof -
    have "\<not> needs_build env s' i" if member: "i \<in> set (eligible_entries (xs_db s'))" for i
    proof -
      obtain e where "e \<in> set (db_registry (xs_db s'))" "build_eligible (xs_db s') e" "re_id e = i"
        using member by (auto simp: eligible_entries_def)
      then show ?thesis
        using end_state(2) load_entry_unique[OF dist, of e] by (auto simp: unserved_def needs_build_def filter_empty_conv)
    qed
    then show ?thesis by (simp add: find_None_iff)
  qed
  then have "pick_candidate env s' = (None, s')" using scan_noop[OF end_state(1)] by (simp add: pick_candidate_def)
  moreover have "\<exists>e'. load_entry (re_id e) (xs_db s') = Some e' \<and> (ann_index_ready env (xs_indexes s') e' \<or> re_index_error e' \<noteq> None)"
    if e: "e \<in> set (db_registry (xs_db s))" "build_eligible (xs_db s) e" "identity_broken env e = None" for e
  proof -
    have "keeps_entry e s'" by (rule end_state(3)[OF keeps_entry_scan[OF assms(1) e]])
    then obtain err where err: "e\<lparr>re_index_error := err\<rparr> \<in> set (db_registry (xs_db s'))"
      and elig: "build_eligible (xs_db s') (e\<lparr>re_index_error := None\<rparr>)" by (auto simp: keeps_entry_def)
    have "ann_index_ready env (xs_indexes s') e" if "err = None"
      using end_state(2) err elig that by (auto simp: unserved_def filter_empty_conv)
    then show ?thesis using load_entry_unique[OF dist err] by (cases err) auto
  qed
  ultimately show ?thesis by blast
qed

section \<open>A small instance\<close>

text \<open>Entry 7 waits for its index; the table of entry 8 was recreated, and entry 8 is parked.\<close>

definition sample_auto :: registry_entry where
  "sample_auto = sample_active\<lparr>re_index_mode := ''auto''\<rparr>"

definition sample_gone :: registry_entry where
  "sample_gone = sample_auto\<lparr>re_id := 8, re_table_name := ''old'', re_index_error := Some ''timeout''\<rparr>"

definition sample_user_index :: pg_index where
  "sample_user_index = (new_index ''public'' ''mine'' (qualified_table sample_docs) ''v'' ''l2'')"

definition sample_index_state :: index_state where
  "sample_index_state =
     \<lparr>xs_db = sample_db\<lparr>db_jobs := [], db_registry := [sample_auto, sample_gone]\<rparr>, xs_indexes = [sample_user_index]\<rparr>"

definition sample_index_env :: index_env where
  "sample_index_env =
     \<lparr>ie_missing = (\<lambda>_ _. None), ie_triggers_missing = (\<lambda>e. re_id e = 8), ie_schema = (\<lambda>_. Some ''public''),
      ie_halfvec_expr = (\<lambda>c _. c), ie_lock_error = None, ie_create_error = None, ie_mark_fails = False\<rparr>"

lemma sample_auto_fields:
  "re_id sample_auto = 7" "re_id sample_gone = 8" "re_dim sample_auto = 2" "re_distance sample_auto = ''cosine''"
  "re_vector_column sample_auto = ''v''" "re_state sample_auto = ''active''" "re_index_mode sample_auto = ''auto''"
  "re_index_error sample_auto = None" "re_backfill_mode sample_auto = []" "re_index_error sample_gone = Some ''timeout''"
  "re_state sample_gone = ''active''" "re_index_mode sample_gone = ''auto''"
  by (simp_all add: sample_gone_def sample_auto_def sample_active_def sample_docs_def)

lemma sample_auto_registry:
  "db_registry (xs_db sample_index_state) = [sample_auto, sample_gone]" "db_jobs (xs_db sample_index_state) = []"
  "db_migrations (xs_db sample_index_state) = []" "xs_indexes sample_index_state = [sample_user_index]"
  by (simp_all add: sample_index_state_def sample_db_def)

lemma sample_distinct: "distinct (map re_id (db_registry (xs_db sample_index_state)))"
  by (simp add: sample_auto_registry sample_auto_fields)

lemma sample_intact_auto: "identity_broken sample_index_env sample_auto = None"
  by (simp add: identity_broken_def sample_index_env_def sample_auto_fields)

lemma sample_eligible: "build_eligible (xs_db sample_index_state) sample_auto"
  by (simp add: build_eligible_def sample_auto_registry sample_auto_fields)

lemma sample_unready: "\<not> ann_index_ready sample_index_env (xs_indexes sample_index_state) sample_auto"
  by (simp add: ann_index_ready_def sample_auto_registry serves_def sample_user_index_def new_index_def sample_auto_fields
      expected_ann_opclass_def distance_opclass_def)

lemma sample_coherent: "coherent sample_index_env sample_index_state"
  by (simp add: coherent_def sample_auto_registry identity_broken_def sample_index_env_def own_index_def sample_user_index_def new_index_def)

lemma sample_auto_load: "load_entry 7 (xs_db sample_index_state) = Some sample_auto"
  by (simp add: load_entry_def sample_auto_registry sample_auto_fields)

lemma sample_auto_env:
  "ie_missing sample_index_env e xs = None" "\<not> ie_triggers_missing sample_index_env sample_auto"
  "ie_schema sample_index_env q = Some ''public''" "ie_lock_error sample_index_env = None" "ie_create_error sample_index_env = None"
  by (simp_all add: sample_index_env_def sample_auto_fields)

lemma sample_ensure: "\<exists>s'. ensure_vector_index sample_index_env sample_auto sample_index_state = Ok s'"
proof -
  have "find (named ''public'' (vec_index_name 7)) [sample_user_index] = None"
    by (simp add: named_def sample_user_index_def new_index_def vec_index_name_def)
  then show ?thesis
    using sample_unready
    by (simp add: ensure_vector_index_def build_vector_index_def sample_auto_env sample_auto_fields sample_auto_registry index_is_entrys_def)
qed

lemma sample_build:
  "\<exists>s'. build_candidate sample_index_env sample_index_env 7 sample_index_state sample_index_state = Ok s'"
proof -
  have "7 \<in> set (eligible_entries (xs_db sample_index_state))"
    using eligible_entries_iff[OF sample_distinct, of sample_auto] sample_eligible by (simp add: sample_auto_registry sample_auto_fields)
  then show ?thesis
    using sample_ensure sample_unready by (simp add: build_candidate_def sample_auto_load sample_auto_env sample_intact_auto)
qed

theorem scan_reconciles_and_picks_witness:
  "\<exists>c s'. pick_candidate sample_index_env sample_index_state = (c, s') \<and> sample_auto \<in> set (db_registry (xs_db s')) \<and>
     filter (\<lambda>i. \<not> px_ours i) (xs_indexes s') = [sample_user_index]"
proof -
  obtain c s' where p: "pick_candidate sample_index_env sample_index_state = (c, s')" by force
  from scan_reconciles_and_picks[OF sample_distinct p] have "sample_auto \<in> set (db_registry (xs_db s'))"
    "filter (\<lambda>i. \<not> px_ours i) (xs_indexes s') = filter (\<lambda>i. \<not> px_ours i) (xs_indexes sample_index_state)"
    using sample_intact_auto by (auto simp: sample_auto_registry)
  then show ?thesis using p by (simp add: sample_auto_registry sample_user_index_def new_index_def)
qed

theorem build_adds_only_wanted_index_witness:
  "\<exists>s'. build_candidate sample_index_env sample_index_env 7 sample_index_state sample_index_state = Ok s' \<and>
     xs_db s' = xs_db sample_index_state"
  using sample_build build_adds_only_wanted_index[OF sample_distinct] by metis

theorem create_vector_index_repairs_witness:
  "\<exists>s'. create_vector_index sample_index_env True ''public'' ''docs'' ''body'' sample_index_state = Ok s' \<and>
     (\<exists>e. load_entry (re_id e) (xs_db s') = Some (e\<lparr>re_index_error := None\<rparr>))"
proof -
  have "load_active ''public'' ''docs'' ''body'' (xs_db sample_index_state) = Some sample_auto"
    by (simp add: load_active_def sample_auto_registry) (simp add: sample_auto_def sample_active_def sample_docs_def)
  then obtain s' where "create_vector_index sample_index_env True ''public'' ''docs'' ''body'' sample_index_state = Ok s'"
    using sample_ensure by (auto simp: create_vector_index_def)
  then show ?thesis using create_vector_index_repairs[OF _ sample_distinct] by blast
qed

theorem quiet_index_builds_settle_witness:
  "\<exists>s' e'. s' = snd ((quiet_step sample_index_env None ^^ 2) (sample_counters, sample_index_state)) \<and>
     pick_candidate sample_index_env s' = (None, s') \<and> load_entry 7 (xs_db s') = Some e'"
proof -
  define s' where "s' = snd ((quiet_step sample_index_env None ^^ 2) (sample_counters, sample_index_state))"
  have "s' = snd ((quiet_step sample_index_env None ^^ length (db_registry (xs_db sample_index_state))) (sample_counters, sample_index_state))"
    unfolding s'_def sample_auto_registry by (simp only: list.size) (simp only: One_nat_def Suc_1 add_0 add_Suc numeral_2_eq_2)
  note settled = quiet_index_builds_settle[OF sample_distinct sample_coherent this]
  have "sample_auto \<in> set (db_registry (xs_db sample_index_state))" by (simp add: sample_auto_registry)
  then obtain e' where "load_entry (re_id sample_auto) (xs_db s') = Some e'"
    using settled sample_eligible sample_intact_auto by blast
  then show ?thesis using settled s'_def by (auto simp: sample_auto_fields)
qed

end
