(* ===== verification/Wake.thy ===== *)
theory Wake
  imports AutoIndex ChunkRefresh
begin

text \<open>
  One latch wake of the per-database worker, \<open>worker_wake\<close> of \<open>postvec/src/worker/mod.rs\<close>: the version
  gate, the model-cache refresh, the pause switch, the inference gate, the local loop behind a closed
  gate and the drain loop behind an open one, each composed from the phases of the other theories, and
  the tail with at most one index build.

  A loop runs over a list of passes, one element per iteration with everything the iteration meets: the
  shutdown flag, the reloaded settings, the answers of probes and the aborted transactions. \<open>None\<close> says
  that the loop is still going when the list ends. Other sessions act on the shared tables before every
  phase; the rows the worker itself writes to user tables are recorded in \<open>db_writes\<close> and reach the views
  of those tables the same way.
\<close>

section \<open>The schema guard\<close>

definition VERSION_SKEW :: string where
  "VERSION_SKEW = ''postvec: extension version skew''"

definition is_version_skew :: "string \<Rightarrow> bool" where
  "is_version_skew e \<longleftrightarrow> take (length VERSION_SKEW) e = VERSION_SKEW"

definition guard_schema_version_against :: "string \<Rightarrow> string option \<Rightarrow> string + string option \<Rightarrow> string + unit" where
  "guard_schema_version_against expected lock_error installed =
     (case lock_error of
        Some e \<Rightarrow> Err (''schema lock: '' @ e)
      | None \<Rightarrow>
          (case installed of
             Inl e \<Rightarrow> Err (VERSION_SKEW @ '': catalog unreadable: '' @ e)
           | Inr (Some v) \<Rightarrow>
               if v = expected then Ok ()
               else Err (VERSION_SKEW @ '': installed extension is '' @ v @ '', this library is '' @ expected)
           | Inr None \<Rightarrow> Err (VERSION_SKEW @ '': the extension is not installed'')))"

text \<open>
  One transaction: what the lock and the catalogue answer to the guard, and the error Postgres raises
  before the commit.
\<close>

record transaction =
  tx_lock_error :: "string option"
  tx_installed :: "string + string option"
  tx_error :: "string option"

definition transaction_with_guard :: "string \<Rightarrow> bool \<Rightarrow> transaction \<Rightarrow> 'a \<Rightarrow> string + 'a" where
  "transaction_with_guard expected guarded t result =
     (case if guarded then guard_schema_version_against expected (tx_lock_error t) (tx_installed t) else Ok () of
        Inl e \<Rightarrow> Err e
      | Inr _ \<Rightarrow> (case tx_error t of Some e \<Rightarrow> Err e | None \<Rightarrow> Ok result))"

section \<open>The summary probe\<close>

record summary_flags =
  su_refresh_due :: bool
  su_embed_due :: bool
  su_claimed_any :: bool
  su_migration_due :: bool
  su_cursor_any :: bool
  su_cursor_recursive_any :: bool
  su_auto_index_any :: bool

definition summarize :: "int \<Rightarrow> db \<Rightarrow> summary_flags" where
  "summarize now d =
     \<lparr>su_refresh_due = list_ex (\<lambda>j. jb_claimed j = None \<and> jb_not_before j \<le> now \<and> jb_op j = RefreshOp) (db_jobs d),
      su_embed_due = list_ex (\<lambda>j. jb_claimed j = None \<and> jb_not_before j \<le> now \<and> jb_op j = EmbedOp) (db_jobs d),
      su_claimed_any = list_ex (\<lambda>j. jb_claimed j \<noteq> None) (db_jobs d),
      su_migration_due = list_ex (\<lambda>m. mg_state m = ''running'' \<and> mg_not_before m \<le> now) (db_migrations d),
      su_cursor_any = list_ex (\<lambda>e. re_backfill_mode e = ''cursor'' \<and> re_state e = ''active'') (db_registry d),
      su_cursor_recursive_any =
        list_ex (\<lambda>e. re_backfill_mode e = ''cursor'' \<and> re_state e = ''active'' \<and> is_recursive e) (db_registry d),
      su_auto_index_any = list_ex (\<lambda>e. re_state e = ''active'' \<and> re_index_mode e = ''auto'') (db_registry d)\<rparr>"

text \<open>\<open>row_error\<close> is a failing select, a missing row, or a column that does not decode.\<close>

definition work_summary :: "string \<Rightarrow> transaction \<Rightarrow> string option \<Rightarrow> int \<Rightarrow> db \<Rightarrow> string + summary_flags" where
  "work_summary expected t row_error now d =
     (case transaction_with_guard expected True t (case row_error of Some e \<Rightarrow> Err e | None \<Rightarrow> Ok (summarize now d)) of
        Inr inner \<Rightarrow> inner
      | Inl e \<Rightarrow> Err e)"

section \<open>The state of a worker\<close>

text \<open>
  What the worker shares with other sessions. \<open>sh_docs\<close> are the source tables as the backfiller reads
  them, \<open>sh_vectors\<close> the vector tables as the migration driver reads them, both by registry entry.
\<close>

record 'k shared =
  sh_db :: db
  sh_dest :: "int \<Rightarrow> 'k chunk_row list"
  sh_next :: "int \<Rightarrow> int"
  sh_docs :: "int \<Rightarrow> vec_row list"
  sh_vectors :: "int \<Rightarrow> vec_row list"
  sh_indexes :: "pg_index list"

record ('k, 'c) worker_state =
  ws_shared :: "'k shared"
  ws_client :: 'c
  ws_counters :: counters
  ws_next_model_refresh :: nat
  ws_version_gate :: "(string \<times> nat) option"
  ws_hb :: heartbeat
  ws_gate :: "(nat \<times> bool) option"
  ws_http_gate :: "(nat \<times> bool) option"
  ws_next_auto_index_scan :: nat

record ('f, 'c, 'k, 'o) pass_env =
  pe_shutdown :: bool
  pe_enabled :: bool
  pe_gate_clock :: nat
  pe_gate_probe :: bool
  pe_summary :: transaction
  pe_summary_row_error :: "string option"
  pe_summary_now :: int
  pe_refresh :: "'k refresh_env"
  pe_refresh_abort :: "string option"
  pe_cycle :: "('f, 'c) cycle_env"
  pe_drain :: "('f, 'c, 'o) drain_env"
  pe_order :: "string \<Rightarrow> 'o"
  pe_missing :: "registry_entry \<Rightarrow> string list \<Rightarrow> string option"
  pe_feed_abort :: bool
  pe_batch_size :: int
  pe_feed_now :: int
  pe_beat_clock :: nat
  pe_beat_interval :: int
  pe_beat_written :: bool
  pe_others :: "nat \<Rightarrow> 'k shared \<Rightarrow> 'k shared"

definition inference_gate_closed :: "bool \<Rightarrow> bool \<Rightarrow> string list \<Rightarrow> bool" where
  "inference_gate_closed embedded reachable endpoints = (if embedded then \<not> reachable else endpoints = [])"

section \<open>The phases on the worker's state\<close>

definition act_others :: "('f, 'c, 'k, 'o) pass_env \<Rightarrow> nat \<Rightarrow> ('k, 'c) worker_state \<Rightarrow> ('k, 'c) worker_state" where
  "act_others p k s = s\<lparr>ws_shared := pe_others p k (ws_shared s)\<rparr>"

definition refresh_phase :: "('f, 'c, 'k, 'o) pass_env \<Rightarrow> ('k, 'c) worker_state \<Rightarrow> bool \<times> ('k, 'c) worker_state" where
  "refresh_phase p s =
     (let x = ws_shared s in
      case refresh_step (pe_refresh p) (pe_refresh_abort p) (ws_counters s)
             \<lparr>rs_db = sh_db x, rs_dest = sh_dest x, rs_next = sh_next x\<rparr> of
        (did, ct, st) \<Rightarrow>
          (did, s\<lparr>ws_counters := ct, ws_shared := x\<lparr>sh_db := rs_db st, sh_dest := rs_dest st, sh_next := rs_next st\<rparr>\<rparr>))"

definition cycle_phase :: "('f, 'c, 'k, 'o) pass_env \<Rightarrow> ('k, 'c) worker_state \<Rightarrow> bool \<times> ('k, 'c) worker_state" where
  "cycle_phase p s =
     (case run_one_cycle (pe_cycle p) (ws_client s) (ws_counters s) (sh_db (ws_shared s)) of
        (did, c, ct, d) \<Rightarrow>
          (did, s\<lparr>ws_client := c, ws_counters := ct, ws_shared := (ws_shared s)\<lparr>sh_db := d\<rparr>\<rparr>))"

definition migrate_phase ::
  "('f, 'c, 'k, 'o :: linorder) pass_env \<Rightarrow> ('k, 'c) worker_state \<Rightarrow> bool \<times> ('k, 'c) worker_state" where
  "migrate_phase p s =
     (case drain_step (pe_drain p) (ws_client s) (ws_counters s) (sh_vectors (ws_shared s)) (sh_db (ws_shared s)) of
        (did, c, ct, tables, d) \<Rightarrow>
          (did, s\<lparr>ws_client := c, ws_counters := ct, ws_shared := (ws_shared s)\<lparr>sh_vectors := tables, sh_db := d\<rparr>\<rparr>))"

definition feed_phase ::
  "bool \<Rightarrow> ('f, 'c, 'k, 'o :: linorder) pass_env \<Rightarrow> ('k, 'c) worker_state \<Rightarrow> nat \<times> ('k, 'c) worker_state" where
  "feed_phase recursive_only p s =
     (case step_inner (pe_order p) (pe_missing p) (pe_feed_abort p) (pe_batch_size p) (pe_feed_now p) recursive_only
             (sh_docs (ws_shared s)) (sh_db (ws_shared s)) of
        (n, d) \<Rightarrow> (n, s\<lparr>ws_shared := (ws_shared s)\<lparr>sh_db := d\<rparr>\<rparr>))"

definition beat :: "nat \<Rightarrow> int \<Rightarrow> bool \<Rightarrow> ('k, 'c) worker_state \<Rightarrow> ('k, 'c) worker_state" where
  "beat clock interval written s = s\<lparr>ws_hb := snd (write_heartbeat clock interval written (ws_counters s) (ws_hb s))\<rparr>"

definition beat_pass :: "('f, 'c, 'k, 'o) pass_env \<Rightarrow> ('k, 'c) worker_state \<Rightarrow> ('k, 'c) worker_state" where
  "beat_pass p = beat (pe_beat_clock p) (pe_beat_interval p) (pe_beat_written p)"

text \<open>\<open>gated go phase s\<close> is \<open>flag && phase()\<close>: nothing happens when the flag is off.\<close>

definition gated :: "bool \<Rightarrow> ('s \<Rightarrow> bool \<times> 's) \<Rightarrow> 's \<Rightarrow> bool \<times> 's" where
  "gated go phase s = (if go then phase s else (False, s))"

section \<open>The two loops\<close>

text \<open>How an iteration ends: with a shutdown, with a \<open>break\<close>, or with another iteration.\<close>

datatype 'a turn = Down 'a | Leave 'a | Again 'a

fun run_passes :: "('p \<Rightarrow> 'a \<Rightarrow> 'a turn) \<Rightarrow> 'p list \<Rightarrow> 'a \<Rightarrow> (bool \<times> 'a) option" where
  "run_passes pass [] a = None"
| "run_passes pass (p # ps) a =
     (case pass p a of
        Down a \<Rightarrow> Some (True, a)
      | Leave a \<Rightarrow> Some (False, a)
      | Again a \<Rightarrow> run_passes pass ps a)"

text \<open>
  The head of both loops: \<open>stay\<close> is the answer of the inference gate the loop runs under. The pause
  switch is looked at first, and a paused worker does not probe. \<open>auto_any\<close> is kept from the last summary.
\<close>

definition enter_pass ::
  "string \<Rightarrow> bool \<Rightarrow> (('f, 'c, 'k, 'o) pass_env \<Rightarrow> summary_flags \<Rightarrow> ('k, 'c) worker_state \<Rightarrow> bool \<times> ('k, 'c) worker_state)
   \<Rightarrow> ('f, 'c, 'k, 'o) pass_env \<Rightarrow> bool \<times> ('k, 'c) worker_state \<Rightarrow> (bool \<times> ('k, 'c) worker_state) turn" where
  "enter_pass expected stay body p = (\<lambda>(auto_any, s).
     if pe_shutdown p then Down (auto_any, s)
     else if \<not> pe_enabled p then Leave (auto_any, s)
     else case gate_check (pe_gate_clock p) (pe_gate_probe p) (ws_gate s) of
       (closed, gate) \<Rightarrow>
         let s = s\<lparr>ws_gate := gate\<rparr> in
         if closed \<noteq> stay then Leave (auto_any, s)
         else
           let s = act_others p 0 s in
           case work_summary expected (pe_summary p) (pe_summary_row_error p) (pe_summary_now p) (sh_db (ws_shared s)) of
             Inl e \<Rightarrow>
               if is_version_skew e then Leave (auto_any, s)
               else Leave (auto_any, s\<lparr>ws_counters := count_error (''work summary: '' @ e) (ws_counters s)\<rparr>)
           | Inr sm \<Rightarrow>
               (case body p sm s of
                  (did, s) \<Rightarrow>
                    let s = beat_pass p s in
                    if did then Again (su_auto_index_any sm, s) else Leave (su_auto_index_any sm, s)))"

definition local_body ::
  "('f, 'c, 'k, 'o :: linorder) pass_env \<Rightarrow> summary_flags \<Rightarrow> ('k, 'c) worker_state \<Rightarrow> bool \<times> ('k, 'c) worker_state" where
  "local_body p sm s =
     (case gated (su_refresh_due sm) (refresh_phase p) (act_others p 1 s) of
        (refreshed, s) \<Rightarrow>
          (case if su_cursor_recursive_any sm then feed_phase True p (act_others p 2 s) else (0, s) of
             (enqueued, s) \<Rightarrow> (refreshed \<or> enqueued \<noteq> 0, s)))"

definition drain_body ::
  "('f, 'c, 'k, 'o :: linorder) pass_env \<Rightarrow> summary_flags \<Rightarrow> ('k, 'c) worker_state \<Rightarrow> bool \<times> ('k, 'c) worker_state" where
  "drain_body p sm s =
     (case gated (su_refresh_due sm) (refresh_phase p) (act_others p 1 s) of
        (refreshed, s) \<Rightarrow>
          (case gated (su_embed_due sm \<or> su_claimed_any sm) (cycle_phase p) (act_others p 2 s) of
             (claimed, s) \<Rightarrow>
               (case gated (su_migration_due sm) (migrate_phase p) (act_others p 3 s) of
                  (migrated, s) \<Rightarrow>
                    (case if su_cursor_any sm then feed_phase False p (act_others p 4 s) else (0, s) of
                       (enqueued, s) \<Rightarrow> (refreshed \<or> claimed \<or> migrated \<or> enqueued \<noteq> 0, s)))))"

definition local_pass where
  "local_pass expected = enter_pass expected True local_body"

definition drain_pass where
  "drain_pass expected = enter_pass expected False drain_body"

section \<open>The wake\<close>

text \<open>
  The model-cache refresh. The cache itself is not part of the state; \<open>mr_listed\<close> is the outcome of the
  discovery poll (\<open>Ok complete\<close>), \<open>mr_upsert_error\<close> and \<open>mr_prune_error\<close> those of the two transactions.
\<close>

record model_refresh =
  mr_clock :: nat
  mr_http_probe :: bool
  mr_http_endpoints :: "string list"
  mr_schedule_clock :: nat
  mr_interval :: int
  mr_listed :: "string + bool"
  mr_upsert_error :: "string option"
  mr_prune_error :: "string option"

definition refresh_models :: "model_refresh \<Rightarrow> ('k, 'c) worker_state \<Rightarrow> ('k, 'c) worker_state" where
  "refresh_models m s =
     (case mr_listed m of
        Inl e \<Rightarrow> s\<lparr>ws_counters := count_error (''model refresh: '' @ e) (ws_counters s)\<rparr>
      | Inr complete \<Rightarrow>
          (case mr_upsert_error m of
             Some e \<Rightarrow> s\<lparr>ws_counters := count_error (''model-cache upsert: '' @ e) (ws_counters s)\<rparr>
           | None \<Rightarrow>
               if \<not> complete then s
               else case mr_prune_error m of
                 Some e \<Rightarrow> s\<lparr>ws_counters := count_error (''model-cache prune: '' @ e) (ws_counters s)\<rparr>
               | None \<Rightarrow>
                   s\<lparr>ws_counters := (ws_counters s)\<lparr>ct_refreshes := ct_refreshes (ws_counters s) + 1\<rparr>,
                     ws_hb := (ws_hb s)\<lparr>hb_stamp_refresh := True\<rparr>\<rparr>))"

definition maybe_refresh_models :: "string \<Rightarrow> bool \<Rightarrow> model_refresh \<Rightarrow> ('k, 'c) worker_state \<Rightarrow> ('k, 'c) worker_state" where
  "maybe_refresh_models dbname embedded m s =
     (if mr_clock m < ws_next_model_refresh s then s
      else
        case (if embedded then gate_check (mr_clock m) (mr_http_probe m) (ws_http_gate s)
              else (mr_http_endpoints m = [], ws_http_gate s)) of
          (skip, gate) \<Rightarrow>
            let s = s\<lparr>ws_http_gate := gate\<rparr> in
            if skip then s
            else
              let base = nat (max (mr_interval m) 1000) in
              refresh_models m
                (s\<lparr>ws_next_model_refresh := mr_schedule_clock m + base + refresh_jitter dbname base\<rparr>))"

datatype wake_outcome = Continue | Shutdown

record ('f, 'c, 'k, 'o) wake_env =
  we_shutdown :: bool
  we_installed :: "string + string option"
  we_report_clock :: nat
  we_models :: model_refresh
  we_enabled :: bool
  we_gate_clock :: nat
  we_gate_probe :: bool
  we_passes :: "('f, 'c, 'k, 'o) pass_env list"
  we_scan_clock :: nat
  we_index :: index_run
  we_index_clock :: nat
  we_interval :: int
  we_lexical_error :: "string option"
  we_beat_clock :: nat
  we_beat_written :: bool

definition index_phase :: "index_run \<Rightarrow> ('k, 'c) worker_state \<Rightarrow> ('k, 'c) worker_state" where
  "index_phase run s =
     (let x = ws_shared s in
      case index_step run (ws_counters s) \<lparr>xs_db = sh_db x, xs_indexes = sh_indexes x\<rparr> of
        (ct, xs) \<Rightarrow> s\<lparr>ws_counters := ct, ws_shared := x\<lparr>sh_db := xs_db xs, sh_indexes := xs_indexes xs\<rparr>\<rparr>)"

definition scan_indexes :: "('f, 'c, 'k, 'o) wake_env \<Rightarrow> bool \<Rightarrow> ('k, 'c) worker_state \<Rightarrow> ('k, 'c) worker_state" where
  "scan_indexes w auto_any s =
     (if auto_any \<and> ws_next_auto_index_scan s \<le> we_scan_clock w
      then (index_phase (we_index w) s)
             \<lparr>ws_next_auto_index_scan := we_index_clock w + nat (max (we_interval w) 1000)\<rparr>
      else s)"

definition refresh_lexical_stats :: "string option \<Rightarrow> ('k, 'c) worker_state \<Rightarrow> ('k, 'c) worker_state" where
  "refresh_lexical_stats outcome s =
     (case outcome of
        Some e \<Rightarrow> s\<lparr>ws_counters := count_error (''lexical stats: '' @ e) (ws_counters s)\<rparr>
      | None \<Rightarrow> s)"

definition beat_wake :: "('f, 'c, 'k, 'o) wake_env \<Rightarrow> ('k, 'c) worker_state \<Rightarrow> ('k, 'c) worker_state" where
  "beat_wake w = beat (we_beat_clock w) (we_interval w) (we_beat_written w)"

definition worker_wake ::
  "string \<Rightarrow> string \<Rightarrow> bool \<Rightarrow> ('f, 'c, 'k, 'o :: linorder) wake_env \<Rightarrow> ('k, 'c) worker_state
   \<Rightarrow> (wake_outcome \<times> ('k, 'c) worker_state) option" where
  "worker_wake expected dbname embedded w s =
     (if we_shutdown w then Some (Shutdown, s)
      else case classify_catalog_version expected (we_installed w) of
        Absent \<Rightarrow> Some (Continue, s\<lparr>ws_version_gate := None\<rparr>)
      | Mismatched found \<Rightarrow>
          Some (Continue, s\<lparr>ws_version_gate := snd (should_report (we_report_clock w) found (ws_version_gate s))\<rparr>)
      | Unreadable e \<Rightarrow>
          Some (Continue, s\<lparr>ws_version_gate := snd (should_report (we_report_clock w) e (ws_version_gate s))\<rparr>)
      | Matched \<Rightarrow>
          let s = maybe_refresh_models dbname embedded (we_models w) (s\<lparr>ws_version_gate := None\<rparr>) in
          if \<not> we_enabled w then Some (Continue, beat_wake w s)
          else case gate_check (we_gate_clock w) (we_gate_probe w) (ws_gate s) of
            (closed, gate) \<Rightarrow>
              (case run_passes (if closed then local_pass expected else drain_pass expected) (we_passes w)
                      (False, s\<lparr>ws_gate := gate\<rparr>) of
                 None \<Rightarrow> None
               | Some (True, _, s) \<Rightarrow> Some (Shutdown, s)
               | Some (False, auto_any, s) \<Rightarrow>
                   Some (Continue, beat_wake w (refresh_lexical_stats (we_lexical_error w) (scan_indexes w auto_any s)))))"

section \<open>What work without inference does to the queue\<close>

text \<open>
  The queue invariant survives, and no embedding job is claimed and none spends an attempt: a row of the
  new queue is an old row, or a waiting one that was never tried.
\<close>

definition local_change :: "db \<Rightarrow> db \<Rightarrow> bool" where
  "local_change d d' \<longleftrightarrow> (queue_inv d \<longrightarrow> queue_inv d' \<and>
     (\<forall>j \<in> set (db_jobs d'). jb_op j = EmbedOp \<longrightarrow> j \<in> set (db_jobs d) \<or> is_pending j \<and> jb_attempts j = 0))"

lemma local_change_refl [simp]: "local_change d d"
  by (simp add: local_change_def)

lemma local_change_trans [trans]: "local_change a b \<Longrightarrow> local_change b c \<Longrightarrow> local_change a c"
  by (auto simp: local_change_def)

lemma local_change_shrink:
  assumes "db_jobs d' = filter P (db_jobs d)" "db_next d' = db_next d"
  shows "local_change d d'"
  using queue_inv_filter[of d P] assms by (auto simp: local_change_def queue_inv_def)

lemma local_change_same: "db_jobs d' = db_jobs d \<Longrightarrow> db_next d' = db_next d \<Longrightarrow> local_change d d'"
  by (rule local_change_shrink[where P = "\<lambda>_. True"]) simp_all

lemma local_change_drops:
  "local_change d (delete_jobs ids d)" "local_change d (move_to_dead ids msg d)"
  "local_change d (quarantine_entry entry reason d)" "local_change d (set_entry i f d)"
  "local_change d (fail_migration mid msg d)" "local_change d (update_migration mid guard g d)"
  by (auto simp: delete_jobs_def move_to_dead_def quarantine_entry_def set_entry_def fail_migration_def
      update_migration_def intro: local_change_shrink local_change_same)

lemma local_change_insert:
  "is_pending row \<Longrightarrow> jb_attempts row = 0 \<Longrightarrow> local_change d (insert_pending row d)"
  unfolding local_change_def using insert_pending_inv[of d row]
  by (auto simp: insert_pending_def Let_def is_pending_def)

lemma local_change_inserts:
  "list_all (\<lambda>row. is_pending row \<and> jb_attempts row = 0) rows \<Longrightarrow> local_change d (fold insert_pending rows d)"
proof (induction rows arbitrary: d)
  case (Cons row rows)
  then show ?case using local_change_trans[OF local_change_insert[of row d]] by simp
qed simp

lemma local_change_claim:
  assumes "claim_refresh env bound rid d = (c, d')"
  shows "local_change d d'"
proof (cases c)
  case None
  then show ?thesis using assms by (auto simp: claim_refresh_def split: option.splits)
next
  case (Some claim)
  then obtain j where j: "j \<in> set (db_jobs d)" "jb_op j = RefreshOp"
    "d' = d\<lparr>db_jobs := map (\<lambda>x. if has_id [jb_id j] x then claim_row (rv_now env) x else x) (db_jobs d)\<rparr>"
    using assms by (auto simp: claim_refresh_def has_id_def refresh_candidates_in split: option.splits dest!: first_job_in)
  have "jb_op x \<noteq> EmbedOp" if "queue_inv d" "x \<in> set (db_jobs d)" "jb_id x = jb_id j" for x
    using job_by_id[OF that(1,2) j(1) that(3)] j(2) by simp
  then show ?thesis
    using queue_inv_claim[of d "[jb_id j]" "rv_now env"] unfolding local_change_def j(3)
    by (auto simp: has_id_def claim_row_def split: if_splits)
qed

section \<open>The laws of the phases\<close>

lemma purge_local: "local_change (rs_db st) (rs_db (purge_document entry key pk st))"
  by (rule local_change_shrink) (simp_all add: purge_document_def)

lemma insert_chunks_local: "local_change (rs_db st) (rs_db (insert_chunks now entry key pk chunks st))"
  by (auto simp: insert_chunks_def Let_def child_job_def is_pending_def list_all_iff intro!: local_change_inserts)

lemma refresh_document_local: "local_change (rs_db st) (rs_db (snd (refresh_document env claim st)))"
  unfolding refresh_document_def Let_def settle_def
  by (auto simp: local_change_drops split: option.splits sum.splits
      intro: local_change_trans[OF purge_local local_change_drops(1)]
        local_change_trans[OF local_change_trans[OF purge_local insert_chunks_local] local_change_drops(1)])

lemma process_one_refresh_local: "local_change (rs_db st) (rs_db (snd (process_one_refresh env st)))"
proof -
  let ?bound = "chunk_inflight_max (rv_batch_size env)"
  obtain p d where prep: "prepare_refresh_entry env ?bound (rs_db st) = (p, d)" by force
  have first: "local_change (rs_db st) d"
    using prep by (auto simp: prepare_refresh_entry_def local_change_drops split: option.splits if_splits)
  have "local_change (rs_db st) (rs_db (snd (refresh_document env claim (st\<lparr>rs_db := d'\<rparr>))))"
    if "claim_refresh env ?bound rid d = (Some claim, d')" for rid claim d'
    using local_change_trans[OF local_change_trans[OF first local_change_claim[OF that]]]
      refresh_document_local[of "st\<lparr>rs_db := d'\<rparr>" env claim] by simp
  then show ?thesis
    using prep first local_change_trans[OF first local_change_claim[of env ?bound _ d]]
    by (auto simp: process_one_refresh_def Let_def split: prod.splits sum.splits option.splits)
qed

lemma refresh_step_local:
  "refresh_step env aborted ct st = (did, ct', st') \<Longrightarrow> local_change (rs_db st) (rs_db st')"
  using process_one_refresh_local[of st env] by (auto simp: refresh_step_def split: option.splits prod.splits)

lemma feed_entry_local: "local_change d (snd (feed_entry ordk missing now chunk docs i d))"
proof -
  have fed: "local_change d (fold insert_pending (map (backfill_job now entry) pks) d)" for entry pks
    by (rule local_change_inserts) (simp add: list_all_iff backfill_job_def is_pending_def)
  show ?thesis
    by (auto simp: feed_entry_def Let_def local_change_drops split: option.splits
        intro: local_change_trans[OF fed local_change_drops(4)])
qed

lemma feed_entries_local: "local_change d (snd (feed_entries ordk missing now chunk docs ids n d))"
proof (induction ids arbitrary: n d)
  case (Cons i ids)
  then show ?case using local_change_trans[OF feed_entry_local[of d ordk missing now chunk docs i]]
    by (auto split: prod.splits)
qed simp

lemma step_inner_local:
  "step_inner ordk missing aborted batch_size now recursive_only docs d = (n, d') \<Longrightarrow> local_change d d'"
  using feed_entries_local[of d ordk missing now _ docs "cursor_ids recursive_only d" 0]
  by (auto simp: step_inner_def enqueue_chunks_def Let_def split: if_splits) (metis snd_conv)

lemma live_target_local: "live_target env vanished mid d = Inl d' \<Longrightarrow> local_change d d'"
  by (auto simp: live_target_def local_change_drops split: option.splits if_splits)

lemma read_migration_batch_local: "local_change d (snd (read_migration_batch env render mid limit tables d))"
  using live_target_local[of env _ mid d]
  by (auto simp: read_migration_batch_def set_migration_error_def local_change_drops Let_def split: sum.splits prod.splits)

lemma apply_migration_batch_local: "local_change d (snd (snd (apply_migration_batch env b results tables d)))"
  using live_target_local[of env _ _ d]
  by (auto simp: apply_migration_batch_def local_change_drops Let_def split: sum.splits prod.splits)

lemma soft_failure_local: "local_change d (record_soft_failure dn mid msg d)"
  by (simp add: record_soft_failure_def set_migration_error_def local_change_drops)

lemma drain_one_local: "local_change d (snd (snd (snd (snd (drain_one dn mid c ct tables d)))))"
proof -
  obtain r d1 where read: "read_migration_batch (dn_env dn) (dn_render dn mid) mid (dn_limit dn) tables d = (r, d1)" by force
  have d1: "local_change d d1" using read_migration_batch_local[of d "dn_env dn" "dn_render dn mid" mid "dn_limit dn" tables] read by simp
  have applied: "local_change d d2" if "apply_migration_batch (dn_env dn) b results tables d1 = (ap, tables', d2)" for b results ap tables' d2
    using local_change_trans[OF d1 apply_migration_batch_local[of d1 "dn_env dn" b results tables]] that by simp
  have soft: "local_change d (record_soft_failure dn mid msg d1)" "local_change d (fail_migration mid msg d1)"
    "local_change d (update_migration mid guard g d1)" for msg guard g
    using local_change_trans[OF d1] soft_failure_local local_change_drops(5,6) by blast+
  show ?thesis
    by (auto simp: drain_one_def Let_def read d1 soft soft_failure_local set_migration_error_def
        split: option.splits batch_read.splits prod.splits sum.splits dest: applied)
qed

lemma drain_all_local: "local_change d (snd (snd (snd (snd (drain_all dn mids did c ct tables d)))))"
proof (induction mids arbitrary: did c ct tables d)
  case (Cons mid mids)
  then show ?case using local_change_trans[OF drain_one_local[of d dn mid c ct tables]]
    by (auto split: prod.splits)
qed simp

lemma drain_step_local: "drain_step dn c ct tables d = (did, c', ct', tables', d') \<Longrightarrow> local_change d d'"
  using drain_all_local[of d dn "running_ids (me_now (dn_env dn)) d" False c ct tables]
  by (auto simp: drain_step_def split: option.splits)

lemma reconcile_local: "local_change (xs_db s) (xs_db (reconcile_entry env i s))"
  by (auto simp: reconcile_entry_def quarantine_if_broken_def quarantine_indexed_def local_change_drops split: option.splits)

lemma reconcile_fold_local: "local_change (xs_db s) (xs_db (fold (reconcile_entry env) ids s))"
proof (induction ids arbitrary: s)
  case (Cons i ids)
  then show ?case using local_change_trans[OF reconcile_local[of s env i]] by simp
qed simp

lemma build_transaction_same:
  assumes "build_transaction run i s0 s = Ok s'"
  shows "local_change (xs_db s) (xs_db s')"
  using assms
  by (auto simp: build_transaction_def build_candidate_def ensure_vector_index_def and_then_def local_change_drops
      split: option.splits if_splits sum.splits)

lemma record_build_failure_local: "local_change (xs_db s) (xs_db (record_build_failure env i e s))"
  by (auto simp: record_build_failure_def park_entry_def local_change_drops split: option.splits)

text \<open>
  What other sessions do while a phase runs or between two of them, as far as the relation \<open>R\<close> on the
  tables goes.
\<close>

definition index_others :: "(db \<Rightarrow> db \<Rightarrow> bool) \<Rightarrow> index_run \<Rightarrow> bool" where
  "index_others R run \<longleftrightarrow> (\<forall>s. R (xs_db s) (xs_db (ir_between run s)) \<and> R (xs_db s) (xs_db (ir_wait run s)) \<and>
     R (xs_db s) (xs_db (ir_after run s)))"

definition pass_others :: "(db \<Rightarrow> db \<Rightarrow> bool) \<Rightarrow> ('f, 'c, 'k, 'o) pass_env \<Rightarrow> bool" where
  "pass_others R p \<longleftrightarrow> (\<forall>k x. R (sh_db x) (sh_db (pe_others p k x)))"

definition wake_others :: "(db \<Rightarrow> db \<Rightarrow> bool) \<Rightarrow> ('f, 'c, 'k, 'o) wake_env \<Rightarrow> bool" where
  "wake_others R w \<longleftrightarrow> list_all (pass_others R) (we_passes w) \<and> index_others R (we_index w)"

section \<open>Loops of passes\<close>

fun turn_state :: "'a turn \<Rightarrow> 'a" where
  "turn_state (Down a) = a"
| "turn_state (Leave a) = a"
| "turn_state (Again a) = a"

text \<open>
  A predicate that every pass keeps, and a measure that every pass that goes on lowers, up to what
  others may have added to it during that pass.
\<close>

locale pass_invariant =
  fixes pass :: "'p \<Rightarrow> 'a \<Rightarrow> 'a turn" and ok :: "'p \<Rightarrow> bool" and I :: "'a \<Rightarrow> bool"
  assumes pass_keeps: "ok p \<Longrightarrow> I a \<Longrightarrow> I (turn_state (pass p a))"
begin

lemma run_keeps: "list_all ok ps \<Longrightarrow> I a \<Longrightarrow> run_passes pass ps a = Some (down, a') \<Longrightarrow> I a'"
proof (induction ps arbitrary: a)
  case (Cons p ps)
  have "I (turn_state (pass p a))" using Cons.prems by (intro pass_keeps) simp_all
  then show ?case using Cons.prems Cons.IH by (auto split: turn.splits)
qed simp

end

locale pass_measure = pass_invariant +
  fixes m :: "'b \<Rightarrow> nat" and extra :: "'a \<Rightarrow> nat"
  assumes again_lowers: "ok p \<Longrightarrow> I a \<Longrightarrow> pass p a = Again a' \<Longrightarrow> m a' < m a + extra p"
begin

lemma run_ends:
  "list_all ok ps \<Longrightarrow> I a \<Longrightarrow> m a + sum_list (map extra ps) < length ps \<Longrightarrow> run_passes pass ps a \<noteq> None"
proof (induction ps arbitrary: a)
  case (Cons p ps)
  show ?case
  proof (cases "pass p a")
    case (Again a')
    have "I a'" using pass_keeps[of p a] Cons.prems Again by simp
    moreover have "m a' < m a + extra p" using again_lowers[of p a a'] Cons.prems Again by simp
    ultimately show ?thesis using Cons.IH[of a'] Cons.prems Again by simp
  qed simp_all
qed simp

end

section \<open>Relations that the phases respect\<close>

definition moved :: "(db \<Rightarrow> db \<Rightarrow> bool) \<Rightarrow> ('k, 'c) worker_state \<Rightarrow> ('k, 'c) worker_state \<Rightarrow> bool" where
  "moved R s s' \<longleftrightarrow> R (sh_db (ws_shared s)) (sh_db (ws_shared s'))"

locale queue_relation =
  fixes R :: "db \<Rightarrow> db \<Rightarrow> bool"
  assumes R_trans: "R a b \<Longrightarrow> R b c \<Longrightarrow> R a c"
    and R_local: "local_change a b \<Longrightarrow> R a b"
begin

lemma moved_refl: "moved R s s"
  by (simp add: moved_def R_local)

lemma moved_trans: "moved R a b \<Longrightarrow> moved R b c \<Longrightarrow> moved R a c"
  unfolding moved_def by (rule R_trans)

lemma moved_others: "pass_others R p \<Longrightarrow> moved R s (act_others p k s)"
  by (simp add: moved_def act_others_def pass_others_def)

lemma moved_refresh: "moved R s (snd (refresh_phase p s))"
  by (auto simp: moved_def refresh_phase_def Let_def split: prod.splits dest: R_local[OF refresh_step_local])

lemma moved_feed: "moved R s (snd (feed_phase recursive_only p s))"
  by (auto simp: moved_def feed_phase_def split: prod.splits dest: R_local[OF step_inner_local])

lemma moved_migrate: "moved R s (snd (migrate_phase p s))"
  by (auto simp: moved_def migrate_phase_def split: prod.splits dest: R_local[OF drain_step_local])

lemma moved_gated: "moved R s (snd (phase s)) \<Longrightarrow> moved R s (snd (gated go phase s))"
  by (simp add: gated_def moved_refl)

lemma moved_local_body:
  assumes "pass_others R p" shows "moved R s (snd (local_body p sm s))"
proof -
  obtain refreshed s1 where r: "gated (su_refresh_due sm) (refresh_phase p) (act_others p 1 s) = (refreshed, s1)" by force
  have s1: "moved R s s1"
    using moved_trans[OF moved_others[OF assms] moved_gated[where phase = "refresh_phase p" and go = "su_refresh_due sm", OF moved_refresh]] r
    by (metis snd_conv)
  have "moved R s (snd (feed_phase True p (act_others p 2 s1)))"
    by (rule moved_trans[OF s1 moved_trans[OF moved_others[OF assms] moved_feed]])
  then show ?thesis using r s1 by (auto simp: local_body_def split: prod.splits)
qed

lemma index_step_respects:
  assumes "index_others R run" shows "R (xs_db s) (xs_db (snd (index_step run ct s)))"
proof (cases "ir_scan_abort run")
  case None
  obtain i s1 where pick: "pick_candidate (ir_scan run) s = (i, s1)" by force
  have s1: "R (xs_db s) (xs_db s1)"
    using pick reconcile_fold_local[of s "ir_scan run"]
    by (auto simp: pick_candidate_def quarantine_broken_entries_def Let_def intro: R_local)
  have others: "R (xs_db x) (xs_db (ir_between run x))" "R (xs_db x) (xs_db (ir_wait run x))"
    "R (xs_db x) (xs_db (ir_after run x))" for x
    using assms by (simp_all add: index_others_def)
  let ?s0 = "ir_between run s1"
  have wait: "R (xs_db s) (xs_db (ir_wait run ?s0))" by (rule R_trans[OF s1 R_trans[OF others(1,2)]])
  have built: "R (xs_db s) (xs_db s')" if "build_transaction run j ?s0 (ir_wait run ?s0) = Ok s'" for j s'
    by (rule R_trans[OF wait R_local[OF build_transaction_same[OF that]]])
  have after: "R (xs_db s) (xs_db (ir_after run (ir_wait run ?s0)))" by (rule R_trans[OF wait others(3)])
  then have "R (xs_db s) (xs_db (record_build_failure env j e (ir_after run (ir_wait run ?s0))))" for env j e
    by (rule R_trans[OF _ R_local[OF record_build_failure_local]])
  then show ?thesis
    using None pick s1 built after by (auto simp: index_step_def Let_def split: option.splits sum.splits)
qed (simp add: index_step_def R_local)

lemma moved_scan:
  assumes "index_others R (we_index w)" shows "moved R s (scan_indexes w auto_any s)"
  using index_step_respects[OF assms, of "\<lparr>xs_db = sh_db (ws_shared s), xs_indexes = sh_indexes (ws_shared s)\<rparr>" "ws_counters s"]
  by (auto simp: scan_indexes_def index_phase_def moved_def R_local Let_def split: prod.splits)

lemma moved_enter:
  assumes "pass_others R p" "\<And>sm s. moved R s (snd (body p sm s))"
  shows "moved R (snd a) (snd (turn_state (enter_pass expected stay body p a)))"
proof -
  obtain auto_any s where a: "a = (auto_any, s)" by force
  obtain closed gate where g: "gate_check (pe_gate_clock p) (pe_gate_probe p) (ws_gate s) = (closed, gate)" by force
  let ?s = "act_others p 0 (s\<lparr>ws_gate := gate\<rparr>)"
  have s: "moved R s ?s" using moved_others[OF assms(1), of "s\<lparr>ws_gate := gate\<rparr>" 0] by (simp add: moved_def)
  have "moved R s s2" if "body p sm ?s = (did, s2)" for sm did s2
    using moved_trans[OF s assms(2)[of ?s sm]] that by simp
  then show ?thesis
    using s moved_refl[of s] a g
    by (auto simp: enter_pass_def Let_def beat_pass_def beat_def moved_def split: sum.splits prod.splits)
qed

end

sublocale queue_relation \<subseteq> local_loop: pass_invariant "local_pass expected" "pass_others R" "\<lambda>a. moved R s0 (snd a)"
  for expected s0
  by unfold_locales (auto simp: local_pass_def intro: moved_trans moved_enter moved_local_body)

text \<open>The drain loop adds the embedding pass.\<close>

locale embedding_relation = queue_relation +
  fixes usable :: "('f, 'c) cycle_env \<Rightarrow> bool"
  assumes R_cycle: "usable env \<Longrightarrow> run_one_cycle env c ct d = (did, c', ct', d') \<Longrightarrow> R d d'"
begin

lemma moved_cycle: "usable (pe_cycle p) \<Longrightarrow> moved R s (snd (cycle_phase p s))"
  by (auto simp: moved_def cycle_phase_def split: prod.splits dest: R_cycle)

lemma moved_turn:
  assumes "pass_others R p" "\<And>s. moved R s (snd (phase s))" "gated go phase (act_others p k s) = (did, s')"
  shows "moved R s s'"
  using moved_trans[OF moved_others[OF assms(1)] moved_gated[where phase = phase and go = go, OF assms(2)]] assms(3)
  by (metis snd_conv)

lemma moved_drain_body:
  assumes "pass_others R p" "usable (pe_cycle p)" shows "moved R s (snd (drain_body p sm s))"
proof -
  obtain r s1 where s1: "gated (su_refresh_due sm) (refresh_phase p) (act_others p 1 s) = (r, s1)" by force
  obtain c s2 where s2: "gated (su_embed_due sm \<or> su_claimed_any sm) (cycle_phase p) (act_others p 2 s1) = (c, s2)" by force
  obtain m s3 where s3: "gated (su_migration_due sm) (migrate_phase p) (act_others p 3 s2) = (m, s3)" by force
  have s3': "moved R s s3"
    by (rule moved_trans[OF moved_turn[OF assms(1) moved_refresh s1]
          moved_trans[OF moved_turn[OF assms(1) moved_cycle[OF assms(2)] s2] moved_turn[OF assms(1) moved_migrate s3]]])
  then have "moved R s (snd (feed_phase False p (act_others p 4 s3)))"
    by (rule moved_trans[OF _ moved_trans[OF moved_others[OF assms(1)] moved_feed]])
  then show ?thesis using s1 s2 s3 s3' by (auto simp: drain_body_def split: prod.splits)
qed

end

sublocale embedding_relation \<subseteq> drain_loop: pass_invariant "drain_pass expected"
  "\<lambda>p :: ('f, 'c, 'k, 'o :: linorder) pass_env. pass_others R p \<and> usable (pe_cycle p)" "\<lambda>a. moved R s0 (snd a)"
  for expected s0
  by unfold_locales (auto simp: drain_pass_def intro: moved_trans moved_enter moved_drain_body)

definition keeps_queue :: "db \<Rightarrow> db \<Rightarrow> bool" where
  "keeps_queue d d' \<longleftrightarrow> (queue_inv d \<longrightarrow> queue_inv d')"

interpretation unspent: queue_relation local_change
  by unfold_locales (auto intro: local_change_trans)

interpretation deduplicated: embedding_relation keeps_queue "\<lambda>_ :: ('f, 'c) cycle_env. True"
  by unfold_locales (auto simp: keeps_queue_def local_change_def intro: run_one_cycle_inv)

section \<open>Behind a closed gate no inference runs\<close>

lemma local_body_client [simp]: "ws_client (snd (local_body p sm s)) = ws_client s"
  by (auto simp: local_body_def gated_def act_others_def refresh_phase_def feed_phase_def Let_def split: prod.splits)

interpretation idle_client: pass_invariant "local_pass expected" "\<lambda>_. True" "\<lambda>a. ws_client (snd a) = c"
  for expected c
proof (unfold_locales, goal_cases)
  case (1 p a)
  have "ws_client s' = ws_client s" if "local_body p sm s = (did, s')" for sm s did s'
    using local_body_client[of p sm s] that by simp
  then show ?case using 1
    by (auto simp: local_pass_def enter_pass_def Let_def act_others_def beat_pass_def beat_def split: prod.splits sum.splits)
qed

lemma models_frame [simp]:
  "ws_shared (maybe_refresh_models dbname embedded m s) = ws_shared s"
  "ws_client (maybe_refresh_models dbname embedded m s) = ws_client s"
  "ws_gate (maybe_refresh_models dbname embedded m s) = ws_gate s"
  by (auto simp: maybe_refresh_models_def refresh_models_def Let_def split: sum.splits option.splits prod.splits)

lemma tail_frame [simp]:
  "ws_shared (beat_wake w s) = ws_shared s" "ws_client (beat_wake w s) = ws_client s"
  "ws_shared (refresh_lexical_stats outcome s) = ws_shared s" "ws_client (refresh_lexical_stats outcome s) = ws_client s"
  "ws_client (scan_indexes w auto_any s) = ws_client s"
  by (auto simp: beat_wake_def beat_def refresh_lexical_stats_def scan_indexes_def index_phase_def Let_def
      split: option.splits prod.splits)

text \<open>The ways a wake ends.\<close>

lemma worker_wake_cases:
  assumes "worker_wake expected dbname embedded w s = Some (out, s')"
  obtains (parked) "we_shutdown w \<or> classify_catalog_version expected (we_installed w) \<noteq> Matched"
      "\<exists>g. s' = s\<lparr>ws_version_gate := g\<rparr>"
  | (paused) "classify_catalog_version expected (we_installed w) = Matched" "\<not> we_enabled w"
      "ws_shared s' = ws_shared s" "ws_client s' = ws_client s"
  | (ran) closed gate s0 down auto_any s1 where "we_enabled w"
      "gate_check (we_gate_clock w) (we_gate_probe w) (ws_gate s) = (closed, gate)"
      "ws_shared s0 = ws_shared s" "ws_client s0 = ws_client s"
      "run_passes (if closed then local_pass expected else drain_pass expected) (we_passes w) (False, s0)
        = Some (down, auto_any, s1)"
      "s' = (if down then s1
             else beat_wake w (refresh_lexical_stats (we_lexical_error w) (scan_indexes w auto_any s1)))"
proof (cases "we_shutdown w")
  case True
  show thesis by (rule parked) (use assms True in \<open>simp_all add: worker_wake_def exI[of _ "ws_version_gate s"]\<close>)
next
  case False
  note go = assms[unfolded worker_wake_def, simplified False if_False]
  show thesis
  proof (cases "classify_catalog_version expected (we_installed w)")
    case Matched
    let ?s = "maybe_refresh_models dbname embedded (we_models w) (s\<lparr>ws_version_gate := None\<rparr>)"
    obtain closed gate where g: "gate_check (we_gate_clock w) (we_gate_probe w) (ws_gate s) = (closed, gate)" by force
    show thesis
    proof (cases "we_enabled w")
      case True
      obtain down auto_any s1 where run:
        "run_passes (if closed then local_pass expected else drain_pass expected) (we_passes w) (False, ?s\<lparr>ws_gate := gate\<rparr>)
          = Some (down, auto_any, s1)"
        using go Matched True g by (auto simp: Let_def split: option.splits)
      show thesis
        by (rule ran[OF True g _ _ run]) (use go Matched True g run in \<open>auto simp: Let_def split: bool.splits\<close>)
    qed (rule paused, use go Matched in \<open>auto simp: Let_def\<close>)
  qed (rule parked, use go in auto)+
qed

context queue_relation
begin

lemma moved_tail:
  assumes "wake_others R w" "moved R s s1"
  shows "moved R s (if down then s1 else beat_wake w (refresh_lexical_stats (we_lexical_error w) (scan_indexes w auto_any s1)))"
  using moved_trans[OF assms(2) moved_scan[of w s1 auto_any]] assms by (simp add: moved_def wake_others_def)

end

lemma closed_run_local:
  assumes "wake_others local_change w" "run_passes (local_pass expected) (we_passes w) (False, s0) = Some (down, auto_any, s1)"
  shows "moved local_change s0 s1 \<and> ws_client s1 = ws_client s0"
proof
  show "moved local_change s0 s1"
    using unspent.local_loop.run_keeps[OF _ _ assms(2)] assms(1) unspent.moved_refl[of s0] by (simp add: wake_others_def)
  show "ws_client s1 = ws_client s0"
    using idle_client.run_keeps[OF _ _ assms(2)] by (simp add: list_all_iff)
qed

text \<open>
  C6. While the worker may not embed, nothing is spent. A wake of a paused worker, of one whose extension
  has another version, or of one whose inference gate is closed calls no model, keeps the queue
  well-formed, and claims no embedding job and charges none an attempt, although it refreshes chunks,
  feeds cursors and builds indexes; a parked or paused worker does not touch the shared tables at all.
  Other sessions may do whatever does the same.
\<close>
theorem closed_gate_spends_nothing:
  assumes "worker_wake expected dbname embedded w s = Some (out, s')"
    and "classify_catalog_version expected (we_installed w) \<noteq> Matched \<or> \<not> we_enabled w \<or>
      fst (gate_check (we_gate_clock w) (we_gate_probe w) (ws_gate s))"
    and "wake_others local_change w" "queue_inv (sh_db (ws_shared s))"
  shows "ws_client s' = ws_client s \<and> queue_inv (sh_db (ws_shared s')) \<and>
    (\<forall>j \<in> set (db_jobs (sh_db (ws_shared s'))). jb_op j = EmbedOp \<longrightarrow>
       j \<in> set (db_jobs (sh_db (ws_shared s))) \<or> is_pending j \<and> jb_attempts j = 0) \<and>
    (classify_catalog_version expected (we_installed w) \<noteq> Matched \<or> \<not> we_enabled w \<longrightarrow> ws_shared s' = ws_shared s)"
  using assms(1)
proof (cases rule: worker_wake_cases)
  case (ran closed gate s0 down auto_any s1)
  show ?thesis
  proof (cases "classify_catalog_version expected (we_installed w) = Matched")
    case True
    have closed using assms(2) ran(1,2) True by simp
    have run: "moved local_change s0 s1" "ws_client s1 = ws_client s0"
      using closed_run_local[OF assms(3)] ran(5) \<open>closed\<close> by simp_all
    have "moved local_change s0 s'" unfolding ran(6) by (rule unspent.moved_tail[OF assms(3) run(1)])
    then show ?thesis
      using ran(1,3,4) run(2) True assms(4) unfolding moved_def local_change_def ran(6) by simp
  next
    case False
    then have "ws_shared s' = ws_shared s \<and> ws_client s' = ws_client s"
      using assms(1) by (auto simp: worker_wake_def split: catalog_version.splits if_splits)
    then show ?thesis using assms(4) by simp
  qed
qed (use assms(4) in auto)

text \<open>
  C14. The queue stays well-formed over a whole wake: whichever phases run, whatever aborts, however the
  loop ends and whatever other sessions do that keeps the table's constraints, after the wake there is
  at most one pending job per entry, operation, row and chunk, and ids are unique.
\<close>
theorem wake_keeps_queue:
  assumes "worker_wake expected dbname embedded w s = Some (out, s')"
    and "wake_others keeps_queue w" "queue_inv (sh_db (ws_shared s))"
  shows "queue_inv (sh_db (ws_shared s'))"
  using assms(1)
proof (cases rule: worker_wake_cases)
  case (ran closed gate s0 down auto_any s1)
  have others: "list_all (pass_others keeps_queue) (we_passes w)" using assms(2) by (simp add: wake_others_def)
  have "moved keeps_queue s0 s1"
  proof (cases closed)
    case True
    then show ?thesis using deduplicated.local_loop.run_keeps[OF others _ ran(5)[unfolded if_P[OF True]]]
        deduplicated.moved_refl[of s0] by simp
  next
    case False
    then show ?thesis using deduplicated.drain_loop.run_keeps[OF _ _ ran(5)[unfolded if_not_P[OF False]]]
        deduplicated.moved_refl[of s0] others by simp
  qed
  then have "moved keeps_queue s0 s'" unfolding ran(6) by (rule deduplicated.moved_tail[OF assms(2)])
  then show ?thesis using assms(3) ran(3) by (simp add: moved_def keeps_queue_def)
qed (use assms(3) in auto)

section \<open>A phase that the summary skips has nothing to do\<close>

lemma no_refresh_due:
  assumes "\<not> su_refresh_due (summarize (rv_now env) (rs_db st))"
  shows "refresh_step env None ct st = (False, ct, st)"
proof -
  have "j \<notin> set (refresh_candidates (rv_now env) bound (db_jobs (rs_db st)))" for j bound
    using assms by (auto simp: summarize_def list_ex_iff refresh_candidates_in is_pending_def)
  then have "refresh_candidates (rv_now env) bound (db_jobs (rs_db st)) = []" for bound by (meson ex_in_conv set_empty)
  then show ?thesis
    by (simp add: refresh_step_def process_one_refresh_def prepare_refresh_entry_def first_job_def Let_def)
qed

lemma no_embed_due:
  assumes "\<not> su_embed_due (summarize (ce_claim_now env) d)" "\<not> su_claimed_any (summarize (ce_claim_now env) d)"
    and "ce_claim_abort env = None"
  shows "run_one_cycle env c ct d = (False, c, ct, d)"
proof -
  have "filter (is_due (ce_claim_now env)) (db_jobs d) = []"
    using assms(1) by (auto simp: summarize_def list_ex_iff is_due_def is_pending_def filter_empty_conv)
  moreover have "filter (is_stale (ce_claim_now env) vis) (db_jobs d) = []" for vis
    using assms(2) by (auto simp: summarize_def list_ex_iff is_stale_def filter_empty_conv)
  ultimately have "claim_candidates (ce_claim_now env) vis batch d = []" for vis batch
    by (simp add: claim_candidates_def next_claim_entry_def Let_def min_registry_def)
  then show ?thesis
    by (simp add: run_one_cycle_def assms(3) claim_and_read_def claim_and_read_budgeted_def claim_batch_def
        prepare_claim_entries_def Let_def)
qed

lemma no_migration_due:
  assumes "\<not> su_migration_due (summarize (me_now (dn_env dn)) d)" "dn_scan_abort dn = None"
  shows "drain_step dn c ct tables d = (False, c, ct, tables, d)"
proof -
  have "running_ids (me_now (dn_env dn)) d = []"
    using assms(1) by (auto simp: summarize_def list_ex_iff running_ids_def filter_empty_conv)
  then show ?thesis by (simp add: drain_step_def assms(2))
qed

lemma no_cursor:
  assumes "\<not> (if recursive_only then su_cursor_recursive_any (summarize now' d) else su_cursor_any (summarize now' d))"
  shows "step_inner ordk missing aborted batch_size now recursive_only docs d = (0, d)"
proof -
  have "cursor_ids recursive_only d = []"
    using assms by (auto simp: summarize_def list_ex_iff cursor_ids_def filter_empty_conv split: if_splits)
  then show ?thesis by (simp add: step_inner_def enqueue_chunks_def)
qed

lemma no_auto_index:
  assumes "\<not> su_auto_index_any (summarize now (xs_db s))" "ir_scan_abort run = None"
  shows "index_step run ct s = (ct, s)"
proof -
  have "set (auto_ids (xs_db s)) = {}" "set (eligible_entries (xs_db s)) = {}"
    using assms(1) by (auto simp: summarize_def list_ex_iff auto_ids_def eligible_entries_def build_eligible_def)
  then have none: "auto_ids (xs_db s) = []" "eligible_entries (xs_db s) = []" by simp_all
  then show ?thesis
    by (simp add: index_step_def assms(2) pick_candidate_def quarantine_broken_entries_def Let_def)
qed

text \<open>
  C13. The summary probe skips no work. If a flag is off, the phase it guards, run at the time of the
  probe, would report no progress and leave tables, counters and client as they are: the local refresh,
  the embedding pass (crash recovery of stale claims included), the migration drain, both kinds of
  cursor feeding and the index scan.
\<close>
theorem skipped_phase_has_nothing:
  fixes st :: "'k refresh_state"
  assumes "rv_now refresh = now" "rs_db st = d" "ce_claim_now cycle = now" "ce_claim_abort cycle = None"
    and "me_now (dn_env drain) = now" "dn_scan_abort drain = None" "xs_db xs = d" "ir_scan_abort run = None"
  shows "(su_refresh_due (summarize now d) \<or> refresh_step refresh None ct st = (False, ct, st)) \<and>
    (su_embed_due (summarize now d) \<or> su_claimed_any (summarize now d) \<or> run_one_cycle cycle c ct d = (False, c, ct, d)) \<and>
    (su_migration_due (summarize now d) \<or> drain_step drain c ct tables d = (False, c, ct, tables, d)) \<and>
    (su_cursor_any (summarize now d) \<or> step_inner ordk missing aborted batch now False docs d = (0, d)) \<and>
    (su_cursor_recursive_any (summarize now d) \<or> step_inner ordk missing aborted batch now True docs d = (0, d)) \<and>
    (su_auto_index_any (summarize now d) \<or> index_step run ct xs = (ct, xs))"
proof (intro conjI)
  show "su_refresh_due (summarize now d) \<or> refresh_step refresh None ct st = (False, ct, st)"
    using no_refresh_due[of refresh st ct] assms(1,2) by auto
  show "su_embed_due (summarize now d) \<or> su_claimed_any (summarize now d) \<or> run_one_cycle cycle c ct d = (False, c, ct, d)"
    using no_embed_due[of cycle d c ct] assms(3,4) by auto
  show "su_migration_due (summarize now d) \<or> drain_step drain c ct tables d = (False, c, ct, tables, d)"
    using no_migration_due[of drain d c ct tables] assms(5,6) by auto
  show "su_cursor_any (summarize now d) \<or> step_inner ordk missing aborted batch now False docs d = (0, d)"
    using no_cursor[where recursive_only = False and now' = now and d = d and ordk = ordk and missing = missing and
        aborted = aborted and batch_size = batch and now = now and docs = docs] by auto
  show "su_cursor_recursive_any (summarize now d) \<or> step_inner ordk missing aborted batch now True docs d = (0, d)"
    using no_cursor[where recursive_only = True and now' = now and d = d and ordk = ordk and missing = missing and
        aborted = aborted and batch_size = batch and now = now and docs = docs] by auto
  show "su_auto_index_any (summarize now d) \<or> index_step run ct xs = (ct, xs)"
    using no_auto_index[of now xs run ct] assms(7,8) by auto
qed

section \<open>The local loop ends\<close>

definition fed_by_cursor :: "registry_entry \<Rightarrow> bool" where
  "fed_by_cursor e \<longleftrightarrow> re_backfill_mode e = ''cursor'' \<and> re_state e = ''active'' \<and> is_recursive e"

definition entry_left :: "(string \<Rightarrow> 'o :: linorder) \<Rightarrow> (int \<Rightarrow> vec_row list) \<Rightarrow> registry_entry \<Rightarrow> nat" where
  "entry_left ordk docs e = (if fed_by_cursor e then rows_left ordk (re_backfill_watermark e) (docs (re_id e)) else 0)"

text \<open>The rows that cursors of recursive entries have still to feed.\<close>

definition unfed :: "(string \<Rightarrow> 'o :: linorder) \<Rightarrow> (int \<Rightarrow> vec_row list) \<Rightarrow> db \<Rightarrow> nat" where
  "unfed ordk docs d = sum_list (map (entry_left ordk docs) (db_registry d))"

definition local_work :: "(string \<Rightarrow> 'o :: linorder) \<Rightarrow> (int \<Rightarrow> vec_row list) \<Rightarrow> db \<Rightarrow> nat" where
  "local_work ordk docs d = 2 * unfed ordk docs d + refresh_count d"

lemma unfed_registry: "db_registry d' = db_registry d \<Longrightarrow> unfed ordk docs d' = unfed ordk docs d"
  by (simp add: unfed_def)

lemma unfed_quarantine: "unfed ordk docs (quarantine_entry entry reason d) \<le> unfed ordk docs d"
proof -
  have "sum_list (map (\<lambda>e. entry_left ordk docs (if re_id e = re_id entry then e\<lparr>re_state := ''disabled''\<rparr> else e)) (db_registry d))
      \<le> sum_list (map (entry_left ordk docs) (db_registry d))"
    by (rule sum_list_mono) (simp add: entry_left_def fed_by_cursor_def)
  then show ?thesis by (simp add: unfed_def quarantine_entry_def comp_def)
qed

lemma sum_list_replaced:
  fixes g :: "registry_entry \<Rightarrow> nat"
  assumes "distinct (map re_id es)" "e \<in> set es"
  shows "sum_list (map g (map (\<lambda>x. if re_id x = re_id e then f x else x) es)) + g e = sum_list (map g es) + g (f e)"
  using assms
proof (induction es)
  case (Cons x es)
  show ?case
  proof (cases "x = e")
    case True
    have "map (\<lambda>x. if re_id x = re_id e then f x else x) es = es"
      by (rule map_idI) (use Cons.prems(1) True in \<open>metis (no_types, lifting) distinct.simps(2) image_eqI list.simps(9) list.set_map\<close>)
    then show ?thesis using True by simp
  next
    case False
    then have "e \<in> set es" "re_id x \<noteq> re_id e" using Cons.prems by force+
    then show ?thesis using Cons by simp
  qed
qed simp

lemma unfed_set_entry:
  assumes "distinct (map re_id (db_registry d))" "load_entry i d = Some e"
  shows "unfed ordk docs (set_entry i f d) + entry_left ordk docs e = unfed ordk docs d + entry_left ordk docs (f e)"
  using sum_list_replaced[OF assms(1) load_entry_in[OF assms(2)], of "entry_left ordk docs" f] load_entry_id[OF assms(2)]
  by (simp add: unfed_def set_entry_def)

lemma sorted_le_last: "sorted (map f xs) \<Longrightarrow> x \<in> set xs \<Longrightarrow> f x \<le> (f (List.last xs) :: 'o :: linorder)"
  by (induction xs) auto

text \<open>A scanned chunk is past the old watermark and not past the new one.\<close>

lemma rows_left_fed:
  fixes ordk :: "string \<Rightarrow> 'o :: linorder"
  assumes "backfill_keys ordk chunk entry table \<noteq> []"
  shows "rows_left ordk (Some (List.last (backfill_keys ordk chunk entry table))) table + length (backfill_keys ordk chunk entry table)
    \<le> rows_left ordk (re_backfill_watermark entry) table"
proof -
  let ?f = "\<lambda>r. ordk (vr_key r)" and ?old = "past_watermark ordk (re_backfill_watermark entry)"
  let ?wants = "\<lambda>r. backfill_wants entry r \<and> ?old r"
  let ?xs = "take chunk (sort_key ?f (filter ?wants table))"
  have keys: "backfill_keys ordk chunk entry table = map vr_key ?xs" by (simp add: backfill_keys_def scan_rows_def)
  have xs: "?xs \<noteq> []" using assms keys by auto
  define new where "new = past_watermark ordk (Some (vr_key (List.last ?xs)))"
  have "List.last ?xs \<in> set ?xs" using xs by (rule last_in_set)
  then have wm: "?old (List.last ?xs)" by (auto dest: in_set_takeD)
  have up: "?old r" if "new r" for r
    using that wm by (auto simp: new_def past_watermark_def split: option.splits)
  have "sorted (map ?f ?xs)" by (metis sorted_sort_key sorted_wrt_take take_map)
  then have below: "\<not> new r" if "r \<in> set ?xs" for r
    using sorted_le_last[of ?f ?xs r] that by (simp only: new_def past_watermark_def option.case not_less)
  have "mset ?xs \<subseteq># mset (sort_key ?f (filter ?wants table))"
    by (metis append_take_drop_id mset_append mset_subset_eq_add_left)
  also have "\<dots> = filter_mset (backfill_wants entry) (mset (filter ?old table))" by (simp add: filter_filter_mset conj_commute)
  also have "\<dots> \<subseteq># mset (filter ?old table)" by (rule multiset_filter_subset)
  finally have sub: "mset ?xs \<subseteq># mset (filter ?old table)" .
  have "filter_mset (\<lambda>r. \<not> new r) (mset ?xs) = mset ?xs" using below by (simp add: filter_mset_eq_conv)
  then have "mset ?xs \<subseteq># filter_mset (\<lambda>r. \<not> new r) (mset (filter ?old table))"
    using multiset_filter_mono[OF sub, of "\<lambda>r. \<not> new r"] by simp
  then have "length ?xs \<le> length (filter (\<lambda>r. \<not> new r) (filter ?old table))"
    using size_mset_mono by (metis mset_filter size_mset)
  moreover have "filter new (filter ?old table) = filter new table" using up by (auto intro: filter_cong)
  moreover have "length (filter new (filter ?old table)) + length (filter (\<lambda>r. \<not> new r) (filter ?old table)) = length (filter ?old table)"
    by (rule sum_length_filter_compl)
  ultimately show ?thesis using xs by (simp add: rows_left_def keys new_def last_map)
qed

lemma refresh_count_inserts: "refresh_count (fold insert_pending js d) \<le> refresh_count d + length js"
proof (induction js arbitrary: d)
  case (Cons j js)
  have "refresh_count (insert_pending j d) \<le> Suc (refresh_count d)"
    by (simp add: refresh_count_def insert_pending_def Let_def)
  then show ?case using Cons[of "insert_pending j d"] by simp
qed simp

lemma refresh_count_filtered: "db_jobs d' = filter P (db_jobs d) \<Longrightarrow> refresh_count d' \<le> refresh_count d"
  by (simp add: refresh_count_def) (metis (no_types, lifting) filter_filter length_filter_le conj_commute filter_cong)

lemma registry_ops [simp]:
  "db_registry (delete_jobs ids d) = db_registry d" "db_registry (move_to_dead ids msg d) = db_registry d"
  "db_registry (rs_db (purge_document entry key pk st)) = db_registry (rs_db st)"
  by (simp_all add: delete_jobs_def move_to_dead_def purge_document_def)

lemma registry_insert [simp]: "db_registry (rs_db (insert_chunks now entry key pk chunks st)) = db_registry (rs_db st)"
  by (simp add: insert_chunks_def Let_def)

text \<open>A refresh leaves the registry, or takes one entry out of service.\<close>

lemma refresh_document_registry:
  "db_registry (rs_db (snd (refresh_document env claim st))) = db_registry (rs_db st) \<or>
   (\<exists>entry reason. db_registry (rs_db (snd (refresh_document env claim st))) = db_registry (quarantine_entry entry reason (rs_db st)))"
  by (auto simp: refresh_document_def settle_def Let_def split: option.splits sum.splits)

lemma refresh_registry:
  "db_registry (rs_db (snd (process_one_refresh env st))) = db_registry (rs_db st) \<or>
   (\<exists>entry reason. db_registry (rs_db (snd (process_one_refresh env st))) = db_registry (quarantine_entry entry reason (rs_db st)))"
proof -
  let ?bound = "chunk_inflight_max (rv_batch_size env)"
  obtain p d where prep: "prepare_refresh_entry env ?bound (rs_db st) = (p, d)" by force
  consider "p = Inl ()" "\<exists>entry reason. d = quarantine_entry entry reason (rs_db st)" | "p = Inr None" "d = rs_db st"
    | rid where "p = Inr (Some rid)" "d = rs_db st"
    using prep by (auto simp: prepare_refresh_entry_def split: option.splits if_splits)
  then show ?thesis
  proof cases
    case 3
    obtain c d2 where claim: "claim_refresh env ?bound rid (rs_db st) = (c, d2)" by force
    then have reg: "db_registry d2 = db_registry (rs_db st)" by (auto simp: claim_refresh_def split: option.splits)
    show ?thesis
    proof (cases c)
      case None
      then show ?thesis using prep 3 claim reg by (simp add: process_one_refresh_def Let_def)
    next
      case (Some cl)
      have "db_registry (quarantine_entry entry reason d2) = db_registry (quarantine_entry entry reason (rs_db st))" for entry reason
        using reg by (simp add: quarantine_entry_def)
      then show ?thesis
        using refresh_document_registry[of env cl "st\<lparr>rs_db := d2\<rparr>"] prep 3 claim reg Some
        by (simp add: process_one_refresh_def Let_def)
    qed
  qed (use prep in \<open>auto simp: process_one_refresh_def Let_def\<close>)
qed

lemma refresh_step_work:
  assumes "refresh_step env aborted ct st = (did, ct', st')"
  shows "local_work ordk docs (rs_db st') + (if did then 1 else 0) \<le> local_work ordk docs (rs_db st) \<and>
    map re_id (db_registry (rs_db st')) = map re_id (db_registry (rs_db st))"
proof (cases aborted)
  case None
  obtain r st1 where p: "process_one_refresh env st = (r, st1)" by force
  have eq: "st' = st1" "did = rf_processed r" using assms None p by (auto simp: refresh_step_def split: if_splits)
  have "unfed ordk docs (rs_db st1) \<le> unfed ordk docs (rs_db st)"
    using refresh_registry[of env st] unfed_quarantine[of ordk docs _ _ "rs_db st"] p
    by (auto simp: unfed_def)
  moreover have "map re_id (db_registry (rs_db st1)) = map re_id (db_registry (rs_db st))"
    using refresh_registry[of env st] p by (auto simp: quarantine_entry_def)
  ultimately show ?thesis
    using refresh_makes_progress[of env st] p eq by (auto simp: local_work_def split: if_splits)
qed (use assms in \<open>simp add: refresh_step_def\<close>)

lemma feed_entry_work:
  fixes ordk :: "string \<Rightarrow> 'o :: linorder"
  assumes "distinct (map re_id (db_registry d))" "load_entry i d = Some entry" "fed_by_cursor entry"
    and "feed_entry ordk missing now chunk docs i d = (n, d')"
  shows "local_work ordk docs d' + n \<le> local_work ordk docs d"
proof -
  let ?pks = "backfill_keys ordk chunk entry (docs i)"
  have id: "re_id entry = i" by (rule load_entry_id[OF assms(2)])
  have jobs: "refresh_count (set_entry i f x) = refresh_count x" for f x by (simp add: refresh_count_def)
  have quarantined: "local_work ordk docs (quarantine_entry entry reason d) \<le> local_work ordk docs d" for reason
    using unfed_quarantine[of ordk docs entry reason d]
      refresh_count_filtered[of "quarantine_entry entry reason d" "\<lambda>j. jb_registry j \<noteq> re_id entry" d]
    by (simp add: local_work_def quarantine_entry_def)
  have ended: "local_work ordk docs (set_entry i (\<lambda>e. e\<lparr>re_backfill_mode := ''done'', re_backfill_watermark := None\<rparr>) d) \<le> local_work ordk docs d"
    using unfed_set_entry[OF assms(1,2), of ordk docs "\<lambda>e. e\<lparr>re_backfill_mode := ''done'', re_backfill_watermark := None\<rparr>"]
    by (simp add: local_work_def jobs entry_left_def fed_by_cursor_def)
  have fed: "local_work ordk docs (set_entry i (\<lambda>e. e\<lparr>re_backfill_watermark := Some (List.last ?pks)\<rparr>)
      (fold insert_pending (map (backfill_job now entry) ?pks) d)) + length ?pks \<le> local_work ordk docs d" if "?pks \<noteq> []"
  proof -
    let ?d = "fold insert_pending (map (backfill_job now entry) ?pks) d"
    have "unfed ordk docs ?d = unfed ordk docs d" by (rule unfed_registry) simp
    moreover have "unfed ordk docs (set_entry i (\<lambda>e. e\<lparr>re_backfill_watermark := Some (List.last ?pks)\<rparr>) ?d) + entry_left ordk docs entry
        = unfed ordk docs ?d + rows_left ordk (Some (List.last ?pks)) (docs i)"
      using unfed_set_entry[of ?d i entry ordk docs "\<lambda>e. e\<lparr>re_backfill_watermark := Some (List.last ?pks)\<rparr>"] assms(1-3) id
      by (simp add: entry_left_def fed_by_cursor_def is_recursive_def)
    moreover have "entry_left ordk docs entry = rows_left ordk (re_backfill_watermark entry) (docs i)"
      using assms(3) id by (simp add: entry_left_def)
    ultimately show ?thesis
      using rows_left_fed[OF that] refresh_count_inserts[of "map (backfill_job now entry) ?pks" d]
      by (simp add: local_work_def jobs)
  qed
  show ?thesis
    using assms(2,4) quarantined ended fed by (auto simp: feed_entry_def Let_def split: option.splits if_splits)
qed

lemma feed_entries_work:
  fixes ordk :: "string \<Rightarrow> 'o :: linorder"
  assumes "distinct (map re_id (db_registry d))" "distinct ids"
    and "\<forall>i \<in> set ids. \<exists>e. load_entry i d = Some e \<and> fed_by_cursor e"
    and "feed_entries ordk missing now chunk docs ids n d = (n', d')"
  shows "local_work ordk docs d' + n' \<le> local_work ordk docs d + n"
  using assms
proof (induction ids arbitrary: n d)
  case (Cons i ids)
  obtain k d1 where k: "feed_entry ordk missing now chunk docs i d = (k, d1)" by force
  obtain e where e: "load_entry i d = Some e" "fed_by_cursor e" using Cons.prems(3) by auto
  have one: "local_work ordk docs d1 + k \<le> local_work ordk docs d" by (rule feed_entry_work[OF Cons.prems(1) e k])
  have "map re_id (db_registry d1) = map re_id (db_registry d)" using feed_entry_ids[of ordk missing now chunk docs i d] k by simp
  moreover have "load_entry j d1 = load_entry j d" if "j \<in> set ids" for j
    using feed_other(1)[of i j ordk missing now chunk docs d] that Cons.prems(2) k by auto
  ultimately have "local_work ordk docs d' + n' \<le> local_work ordk docs d1 + (n + k)"
    by (intro Cons.IH) (use Cons.prems k in auto)
  then show ?case using one by simp
qed simp

lemma step_inner_work:
  assumes "step_inner ordk missing aborted batch_size now True docs d = (n, d')" "distinct (map re_id (db_registry d))"
  shows "local_work ordk docs d' + n \<le> local_work ordk docs d \<and> map re_id (db_registry d') = map re_id (db_registry d)"
proof (cases aborted)
  case False
  have feeding: "\<forall>i \<in> set (cursor_ids True d). \<exists>e. load_entry i d = Some e \<and> fed_by_cursor e"
    using load_entry_unique[OF assms(2)] by (auto simp: cursor_ids_def fed_by_cursor_def)
  have "distinct (cursor_ids True d)" using assms(2) by (simp add: cursor_ids_def distinct_map_filter)
  moreover have "feed_entries ordk missing now (nat (max batch_size 1 * 4)) docs (cursor_ids True d) 0 d = (n, d')"
    using assms(1) False by (simp add: step_inner_def enqueue_chunks_def Let_def)
  ultimately show ?thesis
    using feed_entries_work[OF assms(2) _ feeding]
      feed_entries_ids[of ordk missing now "nat (max batch_size 1 * 4)" docs "cursor_ids True d" 0 d] by fastforce
qed (use assms in \<open>simp add: step_inner_def Let_def\<close>)

definition state_work :: "(string \<Rightarrow> 'o :: linorder) \<Rightarrow> ('k, 'c) worker_state \<Rightarrow> nat" where
  "state_work ordk s = local_work ordk (sh_docs (ws_shared s)) (sh_db (ws_shared s))"

definition known_entries :: "('k, 'c) worker_state \<Rightarrow> bool" where
  "known_entries s \<longleftrightarrow> distinct (map re_id (db_registry (sh_db (ws_shared s))))"

text \<open>
  A pass with the typed key order of the cursors, during which other sessions keep the ids of the
  registry unique and add at most \<open>busy p k\<close> to the local work each time they act (\<open>k\<close> numbers the
  points of the pass between two phases). A source row inserted in front of a cursor counts two, a
  refresh job one.
\<close>

definition bounded_pass ::
  "(string \<Rightarrow> 'o :: linorder) \<Rightarrow> (('f, 'c, 'k, 'o) pass_env \<Rightarrow> nat \<Rightarrow> nat) \<Rightarrow> ('f, 'c, 'k, 'o) pass_env \<Rightarrow> bool" where
  "bounded_pass ordk busy p \<longleftrightarrow> pe_order p = ordk \<and>
     (\<forall>k x. (distinct (map re_id (db_registry (sh_db x))) \<longrightarrow> distinct (map re_id (db_registry (sh_db (pe_others p k x))))) \<and>
        local_work ordk (sh_docs (pe_others p k x)) (sh_db (pe_others p k x)) \<le> local_work ordk (sh_docs x) (sh_db x) + busy p k)"

definition arrivals :: "(('f, 'c, 'k, 'o) pass_env \<Rightarrow> nat \<Rightarrow> nat) \<Rightarrow> ('f, 'c, 'k, 'o) pass_env \<Rightarrow> nat" where
  "arrivals busy p = busy p 0 + busy p 1 + busy p 2"

lemma bounded_others:
  assumes "bounded_pass ordk busy p"
  shows "state_work ordk (act_others p k s) \<le> state_work ordk s + busy p k" "known_entries s \<Longrightarrow> known_entries (act_others p k s)"
  using assms by (simp_all add: bounded_pass_def act_others_def state_work_def known_entries_def)

lemma refresh_phase_work:
  assumes "refresh_phase p s = (did, s')"
  shows "state_work ordk s' + (if did then 1 else 0) \<le> state_work ordk s \<and> known_entries s' = known_entries s \<and>
    sh_docs (ws_shared s') = sh_docs (ws_shared s)"
proof -
  let ?st = "\<lparr>rs_db = sh_db (ws_shared s), rs_dest = sh_dest (ws_shared s), rs_next = sh_next (ws_shared s)\<rparr>"
  obtain b ct st where r: "refresh_step (pe_refresh p) (pe_refresh_abort p) (ws_counters s) ?st = (b, ct, st)" by (metis prod_cases3)
  show ?thesis
    using refresh_step_work[OF r, of ordk "sh_docs (ws_shared s)"] assms r
    by (auto simp: refresh_phase_def Let_def state_work_def known_entries_def)
qed

lemma feed_phase_work:
  assumes "feed_phase True p s = (n, s')" "known_entries s"
  shows "state_work (pe_order p) s' + n \<le> state_work (pe_order p) s \<and> known_entries s' \<and>
    sh_docs (ws_shared s') = sh_docs (ws_shared s)"
  using step_inner_work[of "pe_order p" "pe_missing p" "pe_feed_abort p" "pe_batch_size p" "pe_feed_now p"
      "sh_docs (ws_shared s)" "sh_db (ws_shared s)"] assms
  by (auto simp: feed_phase_def state_work_def known_entries_def split: prod.splits)

lemma local_body_work:
  assumes "bounded_pass ordk busy p" "known_entries s" "local_body p sm s = (did, s')"
  shows "state_work ordk s' + (if did then 1 else 0) \<le> state_work ordk s + busy p 1 + busy p 2 \<and> known_entries s'"
proof -
  note others = bounded_others[OF assms(1)]
  obtain r s1 where r: "gated (su_refresh_due sm) (refresh_phase p) (act_others p 1 s) = (r, s1)" by force
  have one: "state_work ordk s1 + (if r then 1 else 0) \<le> state_work ordk (act_others p 1 s) \<and> known_entries s1"
    using r refresh_phase_work[of p "act_others p 1 s" r s1 ordk] others(2)[OF assms(2), where k = 1] by (auto simp: gated_def split: if_splits)
  obtain n s2 where f: "(if su_cursor_recursive_any sm then feed_phase True p (act_others p 2 s1) else (0, s1)) = (n, s2)" by force
  have "state_work ordk s2 + n \<le> state_work ordk s1 + busy p 2 \<and> known_entries s2"
  proof (cases "su_cursor_recursive_any sm")
    case True
    then have "state_work ordk s2 + n \<le> state_work ordk (act_others p 2 s1) \<and> known_entries s2"
      using f feed_phase_work[of p "act_others p 2 s1" n s2] one others(2)[where s = s1 and k = 2] assms(1) by (auto simp: bounded_pass_def)
    then show ?thesis using others(1)[where s = s1 and k = 2] by simp
  qed (use f one in simp)
  moreover have "did = (r \<or> n \<noteq> 0)" "s' = s2" using assms(3) r f by (auto simp: local_body_def cong: if_cong)
  ultimately show ?thesis using one others(1)[where s = s and k = 1] by auto
qed

lemma local_pass_work:
  assumes "bounded_pass ordk busy p" "known_entries (snd a)"
  shows "known_entries (snd (turn_state (local_pass expected p a)))"
    and "local_pass expected p a = Again a' \<Longrightarrow> state_work ordk (snd a') < state_work ordk (snd a) + arrivals busy p"
proof -
  obtain auto_any s where a: "a = (auto_any, s)" by force
  have gate: "known_entries (s\<lparr>ws_gate := g\<rparr>)" "state_work ordk (s\<lparr>ws_gate := g\<rparr>) = state_work ordk s" for g
    using assms(2) a by (simp_all add: known_entries_def state_work_def)
  have frame: "known_entries (beat_pass p x) = known_entries x" "state_work ordk (beat_pass p x) = state_work ordk x"
    "known_entries (x\<lparr>ws_counters := ct\<rparr>) = known_entries x" for x ct
    by (simp_all add: known_entries_def state_work_def beat_pass_def beat_def)
  have entered: "known_entries (act_others p 0 (s\<lparr>ws_gate := g\<rparr>))"
    "state_work ordk (act_others p 0 (s\<lparr>ws_gate := g\<rparr>)) \<le> state_work ordk s + busy p 0" for g
    using bounded_others[OF assms(1), where k = 0 and s = "s\<lparr>ws_gate := g\<rparr>"] gate[of g] by simp_all
  note body = local_body_work[OF assms(1) entered(1)]
  show "known_entries (snd (turn_state (local_pass expected p a)))"
    using gate entered(1) assms(2) a
    by (auto simp: local_pass_def enter_pass_def Let_def frame split: prod.splits sum.splits dest: body)
  show "state_work ordk (snd a') < state_work ordk (snd a) + arrivals busy p" if again: "local_pass expected p a = Again a'"
  proof -
    obtain g sm s1 where run: "local_body p sm (act_others p 0 (s\<lparr>ws_gate := g\<rparr>)) = (True, s1)" "snd a' = beat_pass p s1"
      using again a by (auto simp: local_pass_def enter_pass_def Let_def split: prod.splits sum.splits if_splits)
    show ?thesis using body[OF run(1)] run(2) entered(2)[of g] a by (simp add: frame arrivals_def)
  qed
qed

interpretation local_ends: pass_measure "local_pass expected" "bounded_pass ordk busy" "\<lambda>a. known_entries (snd a)"
  "\<lambda>a. state_work ordk (snd a)" "arrivals busy"
  for expected ordk busy
  by unfold_locales (auto intro: local_pass_work)

text \<open>
  C10. The loop behind a closed gate ends once it has worked off what is there and what arrives. Let
  the ids of the registry be unique and stay so, and let other sessions add a bounded amount of local
  work (\<open>busy\<close>) at each point of each pass. Then a wake that finds the gate closed returns within a number
  of passes that exceeds twice the rows that cursors of chunked entries have left to feed, plus the
  refresh jobs, plus all the work that arrives during those passes; whatever transactions abort, entries
  break, settings are reloaded or probes answer on the way. With nobody else at work nothing arrives.
\<close>
theorem closed_wake_returns:
  assumes "fst (gate_check (we_gate_clock w) (we_gate_probe w) (ws_gate s))"
    and "list_all (bounded_pass ordk busy) (we_passes w)" "known_entries s"
    and "2 * unfed ordk (sh_docs (ws_shared s)) (sh_db (ws_shared s)) + refresh_count (sh_db (ws_shared s)) +
      sum_list (map (arrivals busy) (we_passes w)) < length (we_passes w)"
  shows "\<exists>out s'. worker_wake expected dbname embedded w s = Some (out, s')"
proof -
  let ?s = "maybe_refresh_models dbname embedded (we_models w) (s\<lparr>ws_version_gate := None\<rparr>)"
  obtain gate where g: "gate_check (we_gate_clock w) (we_gate_probe w) (ws_gate s) = (True, gate)"
    using assms(1) by (metis prod.collapse)
  have "run_passes (local_pass expected) (we_passes w) (False, ?s\<lparr>ws_gate := gate\<rparr>) \<noteq> None"
    by (rule local_ends.run_ends[OF assms(2)]) (use assms(3,4) in \<open>simp_all add: known_entries_def state_work_def local_work_def\<close>)
  then obtain down auto_any s1 where
    "run_passes (local_pass expected) (we_passes w) (False, ?s\<lparr>ws_gate := gate\<rparr>) = Some (down, auto_any, s1)"
    by auto
  then show ?thesis
    using g by (auto simp: worker_wake_def Let_def split: catalog_version.splits bool.splits)
qed

section \<open>A small instance\<close>

definition sample_cycle :: "(int, unit) cycle_env" where
  "sample_cycle =
     \<lparr>ce_tables = sample_tables, ce_chunk_exists = (\<lambda>_ _ _. True), ce_show = dec_int, ce_is_finite = (\<lambda>_. True),
      ce_display = (\<lambda>_. ''failed''), ce_resolve = (\<lambda>_ _. Err ''no such model''), ce_claim_abort = None,
      ce_apply_abort = (\<lambda>_ _ _. None), ce_release_abort = (\<lambda>_ _. None), ce_shutdown = (\<lambda>_. False),
      ce_claim_now = 9, ce_write_now = 9, ce_notify = False, ce_max_document = 100, ce_max_batch = 100, ce_batch = 4,
      ce_visibility_ms = 1000, ce_max_retries = 3, ce_backoff_ms = 1\<rparr>"

definition sample_pass :: "(int, unit, string, nat) pass_env" where
  "sample_pass =
     \<lparr>pe_shutdown = False, pe_enabled = True, pe_gate_clock = 0, pe_gate_probe = True,
      pe_summary = \<lparr>tx_lock_error = None, tx_installed = Ok (Some ''1.0''), tx_error = None\<rparr>, pe_summary_row_error = None,
      pe_summary_now = 9, pe_refresh = sample_refresh_env, pe_refresh_abort = Some ''lock timeout'', pe_cycle = sample_cycle,
      pe_drain = sample_drain, pe_order = length, pe_missing = (\<lambda>_ _. None), pe_feed_abort = False, pe_batch_size = 1,
      pe_feed_now = 9, pe_beat_clock = 0, pe_beat_interval = 1000, pe_beat_written = True, pe_others = (\<lambda>_ x. x)\<rparr>"

definition sample_run :: index_run where
  "sample_run =
     \<lparr>ir_scan = sample_index_env, ir_scan_abort = None, ir_between = (\<lambda>s. s), ir_first = sample_index_env, ir_wait = (\<lambda>s. s),
      ir_build = sample_index_env, ir_build_abort = None, ir_after = (\<lambda>s. s), ir_record = sample_index_env, ir_record_abort = None\<rparr>"

definition sample_wake :: "nat \<Rightarrow> (int, unit, string, nat) wake_env" where
  "sample_wake n =
     \<lparr>we_shutdown = False, we_installed = Ok (Some ''1.0''), we_report_clock = 0,
      we_models = \<lparr>mr_clock = 0, mr_http_probe = True, mr_http_endpoints = [], mr_schedule_clock = 0, mr_interval = 1000,
                   mr_listed = Ok True, mr_upsert_error = None, mr_prune_error = None\<rparr>,
      we_enabled = True, we_gate_clock = 0, we_gate_probe = True, we_passes = replicate n sample_pass, we_scan_clock = 0,
      we_index = sample_run, we_index_clock = 0, we_interval = 1000, we_lexical_error = None, we_beat_clock = 0,
      we_beat_written = True\<rparr>"

definition sample_worker :: "db \<Rightarrow> (string, unit) worker_state" where
  "sample_worker d =
     \<lparr>ws_shared = \<lparr>sh_db = d, sh_dest = (\<lambda>_. []), sh_next = (\<lambda>_. 1), sh_docs = sample_doc_rows, sh_vectors = (\<lambda>_. []), sh_indexes = []\<rparr>,
      ws_client = (), ws_counters = sample_counters, ws_next_model_refresh = 0, ws_version_gate = None,
      ws_hb = \<lparr>hb_last_write = None, hb_last_written = None, hb_stamp_refresh = False\<rparr>, ws_gate = None, ws_http_gate = None,
      ws_next_auto_index_scan = 0\<rparr>"

definition sample_feeding_db :: db where
  "sample_feeding_db = (rs_db sample_refresh_state)\<lparr>db_registry := [sample_recursive\<lparr>re_backfill_mode := ''cursor''\<rparr>]\<rparr>"

lemma sample_others:
  "\<lbrakk>\<And>d. R d d\<rbrakk> \<Longrightarrow> wake_others R (sample_wake n)"
  by (simp add: wake_others_def pass_others_def index_others_def sample_wake_def sample_pass_def sample_run_def list_all_iff)

lemma sample_wake_returns:
  "case worker_wake ''1.0'' ''db'' False (sample_wake 1) (sample_worker sample_db) of None \<Rightarrow> False | Some _ \<Rightarrow> True"
  by code_simp

lemma sample_wake_result:
  obtains out s' where "worker_wake ''1.0'' ''db'' False (sample_wake 1) (sample_worker sample_db) = Some (out, s')"
  using sample_wake_returns by (auto split: option.splits)

text \<open>A session that queues a refresh during the first pass.\<close>

definition busy_pass :: "(int, unit, string, nat) pass_env" where
  "busy_pass = sample_pass\<lparr>pe_others := (\<lambda>k x. if k = 0
     then x\<lparr>sh_db := insert_pending ((sample_job 0 ''z'' None)\<lparr>jb_op := RefreshOp\<rparr>) (sh_db x)\<rparr> else x), pe_beat_clock := 1\<rparr>"

definition busy_wake :: "(int, unit, string, nat) wake_env" where
  "busy_wake = (sample_wake 9)\<lparr>we_passes := busy_pass # replicate 9 sample_pass\<rparr>"

definition one_arrival :: "(int, unit, string, nat) pass_env \<Rightarrow> nat \<Rightarrow> nat" where
  "one_arrival p k = (if pe_beat_clock p = 1 \<and> k = 0 then 1 else 0)"

lemma insert_adds_one: "local_work ordk docs (insert_pending j d) \<le> local_work ordk docs d + 1"
  using refresh_count_inserts[of "[j]" d] unfed_registry[of "insert_pending j d" d ordk docs]
  by (simp add: local_work_def insert_pending_def Let_def)

lemma busy_wake_bounded: "list_all (bounded_pass length one_arrival) (we_passes busy_wake)"
proof -
  have "bounded_pass length one_arrival sample_pass" by (simp add: bounded_pass_def sample_pass_def)
  moreover have "bounded_pass length one_arrival busy_pass"
  proof -
    have "local_work (length :: string \<Rightarrow> nat) docs (insert_pending j d) \<le> Suc (local_work length docs d)" for docs j d
      using insert_adds_one[of length docs j d] by simp
    moreover have "db_registry (insert_pending j d) = db_registry d" for j d by (simp add: insert_pending_def Let_def)
    ultimately show ?thesis by (simp add: bounded_pass_def busy_pass_def sample_pass_def one_arrival_def)
  qed
  ultimately show ?thesis by (simp add: busy_wake_def list_all_iff)
qed

theorem closed_wake_returns_witness:
  "\<exists>out s'. worker_wake ''1.0'' ''db'' False busy_wake (sample_worker sample_feeding_db) = Some (out, s')"
proof (rule closed_wake_returns[OF _ busy_wake_bounded])
  show "fst (gate_check (we_gate_clock busy_wake) (we_gate_probe busy_wake) (ws_gate (sample_worker sample_feeding_db)))"
    by (simp add: busy_wake_def sample_wake_def sample_worker_def gate_check_def)
  show "known_entries (sample_worker sample_feeding_db)" by code_simp
  have "2 * unfed length (sh_docs (ws_shared (sample_worker sample_feeding_db))) (sh_db (ws_shared (sample_worker sample_feeding_db))) +
      refresh_count (sh_db (ws_shared (sample_worker sample_feeding_db))) < 9" by code_simp
  moreover have "sum_list (map (arrivals one_arrival) (we_passes busy_wake)) = 1" "length (we_passes busy_wake) = 10"
    by (simp_all add: busy_wake_def arrivals_def one_arrival_def busy_pass_def sample_pass_def sum_list_replicate)
  ultimately show "2 * unfed length (sh_docs (ws_shared (sample_worker sample_feeding_db))) (sh_db (ws_shared (sample_worker sample_feeding_db))) +
      refresh_count (sh_db (ws_shared (sample_worker sample_feeding_db))) +
      sum_list (map (arrivals one_arrival) (we_passes busy_wake)) < length (we_passes busy_wake)" by simp
qed

theorem closed_gate_spends_nothing_witness:
  "\<exists>s'. map_option snd (worker_wake ''1.0'' ''db'' False (sample_wake 1) (sample_worker sample_db)) = Some s' \<and>
     queue_inv (sh_db (ws_shared s')) \<and> ws_client s' = ()"
proof -
  obtain out s' where wake: "worker_wake ''1.0'' ''db'' False (sample_wake 1) (sample_worker sample_db) = Some (out, s')"
    by (rule sample_wake_result)
  have "queue_inv (sh_db (ws_shared s'))"
    using closed_gate_spends_nothing[OF wake _ sample_others] sample_db_inv
    by (simp add: sample_wake_def sample_worker_def gate_check_def)
  then show ?thesis using wake by simp
qed

theorem wake_keeps_queue_witness:
  "\<exists>out s'. worker_wake ''1.0'' ''db'' False (sample_wake 1) (sample_worker sample_db) = Some (out, s') \<and>
     queue_inv (sh_db (ws_shared s'))"
proof -
  obtain out s' where wake: "worker_wake ''1.0'' ''db'' False (sample_wake 1) (sample_worker sample_db) = Some (out, s')"
    by (rule sample_wake_result)
  have "queue_inv (sh_db (ws_shared s'))"
    using wake_keeps_queue[OF wake sample_others] sample_db_inv by (simp add: keeps_queue_def sample_worker_def)
  then show ?thesis using wake by blast
qed

theorem skipped_phase_has_nothing_witness:
  "run_one_cycle sample_cycle () sample_counters (sample_db\<lparr>db_jobs := []\<rparr>) = (False, (), sample_counters, sample_db\<lparr>db_jobs := []\<rparr>)"
proof -
  let ?d = "sample_db\<lparr>db_jobs := []\<rparr>"
  let ?drain = "sample_drain\<lparr>dn_env := sample_menv\<lparr>me_now := 9\<rparr>\<rparr>"
  have env: "rv_now sample_refresh_env = 9" "rs_db (sample_refresh_state\<lparr>rs_db := ?d\<rparr>) = ?d" "ce_claim_now sample_cycle = 9"
    "ce_claim_abort sample_cycle = None" "me_now (dn_env ?drain) = 9" "dn_scan_abort ?drain = None"
    "xs_db \<lparr>xs_db = ?d, xs_indexes = []\<rparr> = ?d" "ir_scan_abort sample_run = None"
    by (simp_all add: sample_refresh_env_def sample_cycle_def sample_drain_def sample_run_def)
  have "\<not> su_embed_due (summarize 9 ?d)" "\<not> su_claimed_any (summarize 9 ?d)" by (simp_all add: summarize_def)
  then show ?thesis
    using skipped_phase_has_nothing[OF env, of sample_counters "()" sample_vtable length "\<lambda>_ _. None" False 1 sample_doc_rows] by blast
qed

end
