(* ===== verification/Swap.thy ===== *)
theory Swap
  imports IndexSchema
begin

text \<open>
  The crash-safe model swap: \<open>registry/client/src/root.rs\<close> (the transaction record, parking,
  restoring and clearing), \<open>postvec-cli/src/commands/model/mod.rs\<close> (\<open>quiesce\<close>,
  \<open>restore_and_prove\<close>, \<open>recover_pending_swap\<close>), \<open>commands/model/admin.rs\<close>
  (\<open>verify_outcomes\<close>) and \<open>commands/model/pull.rs\<close> (\<open>apply\<close> from the opened transaction on, \<open>undo\<close>).

  The engine root is modelled per model directory: \<open>models_of\<close> are the directories
  \<open>models/<backend>/<name>\<close> by backend and name, \<open>parked_of\<close> those under \<open>.swap/\<close>, \<open>txn_file\<close> the
  transaction record. The commands are state-passing actions in which every system call consumes
  one entry of a fault script: the call may succeed, fail, or (for the removal of \<open>.swap\<close>) fail half
  way. \<open>Crash\<close> is never used up: from there on no call has an effect, so the root stays as the killed
  process left it. What a completed rename did is kept; the loss of an unsynced rename at a power
  failure is not modelled, and a sync is a call that may fail. The engine's admin listener is a
  script of replies.
\<close>

named_theorems act_rules "rules of the action calculus"

section \<open>The root, its faults and the engine's replies\<close>

type_synonym mkey = "string \<times> string"

datatype swap_role = Replace | Install

record swap_model =
  sm_name :: string
  sm_backend :: string
  sm_role :: swap_role
  sm_reload :: bool

datatype swap_phase = Swapping | Confirmed

text \<open>The text of \<open>txn.json\<close> as the two \<open>serde_json\<close> passes of \<open>pending_swap\<close> see it.\<close>

datatype txn_text =
    NotJson
  | OtherVersion nat
  | NotARecord
  | Recorded swap_phase "swap_model list"

datatype endpoint = Load | Unload

record admin_outcome =
  ao_model :: string
  ao_status :: string

datatype reply = Lost | Answered "admin_outcome list"

record world =
  models_of :: "mkey \<Rightarrow> string option"
  backend_dirs :: "string list"
  swap_there :: bool
  parked_of :: "mkey \<Rightarrow> string option"
  txn_file :: "txn_text option"
  txn_tmp :: bool
  staging_of :: "nat \<Rightarrow> string option"
  graves_of :: "nat \<Rightarrow> string option"
  next_suffix :: nat
  calls :: "(endpoint \<times> string list \<times> reply) list"

datatype fault = Fine | Fail | Partly "mkey list" bool | Crash

type_synonym env = "fault list \<times> reply list"

datatype outcome_problem =
    NotRequested string
  | BadStatus string string
  | Repeated string nat
  | NoResult string

datatype swap_error =
    Io string
  | Unfinished
  | Vanished mkey
  | AlreadyExists mkey
  | NotRestored "swap_error list"
  | NotRemoved "swap_error list"
  | MalformedRecord
  | RecordVersion nat
  | EngineLost endpoint
  | NotClean endpoint outcome_problem
  | Retained swap_error
  | NotQuiesced swap_error swap_error
  | RollbackIncomplete swap_error swap_error
  | RolledBack swap_error

section \<open>Actions\<close>

type_synonym 'a act = "env \<Rightarrow> world \<Rightarrow> (swap_error + 'a) \<times> env \<times> world"

definition ret :: "'a \<Rightarrow> 'a act" where
  "ret x env w = (Ok x, env, w)"

definition fail :: "swap_error \<Rightarrow> 'a act" where
  "fail e env w = (Err e, env, w)"

definition seq :: "'a act \<Rightarrow> ('a \<Rightarrow> 'b act) \<Rightarrow> 'b act" where
  "seq m f env w = (case m env w of
     (Inl e, env, w) \<Rightarrow> (Err e, env, w)
   | (Inr x, env, w) \<Rightarrow> f x env w)"

text \<open>\<open>attempt\<close> hands the result over as a value: \<open>let _ = \<dots>\<close> and \<open>match \<dots>\<close>.\<close>

definition attempt :: "'a act \<Rightarrow> (swap_error + 'a) act" where
  "attempt m env w = (case m env w of (r, env, w) \<Rightarrow> (Ok r, env, w))"

definition gets :: "(world \<Rightarrow> 'a) \<Rightarrow> 'a act" where
  "gets q env w = (Ok (q w), env, w)"

definition lift_result :: "swap_error + 'a \<Rightarrow> 'a act" where
  "lift_result r env w = (r, env, w)"

fun draw :: "fault list \<Rightarrow> fault \<times> fault list" where
  "draw [] = (Fine, [])"
| "draw (Crash # fs) = (Crash, Crash # fs)"
| "draw (f # fs) = (f, fs)"

text \<open>A system call: its effect is all or nothing, and \<open>None\<close> is its own refusal.\<close>

definition sys :: "swap_error \<Rightarrow> (world \<Rightarrow> world option) \<Rightarrow> unit act" where
  "sys e eff env w = (case draw (fst env) of (f, fs) \<Rightarrow>
     if f = Fine
     then (case eff w of None \<Rightarrow> (Err e, (fs, snd env), w) | Some w' \<Rightarrow> (Ok (), (fs, snd env), w'))
     else (Err e, (fs, snd env), w))"

definition stat :: "swap_error \<Rightarrow> (world \<Rightarrow> 'a) \<Rightarrow> 'a act" where
  "stat e q env w = (case draw (fst env) of (f, fs) \<Rightarrow>
     ((if f = Fine then Ok (q w) else Err e), (fs, snd env), w))"

definition fsync_dir :: "unit act" where
  "fsync_dir = sys (Io ''fsync'') Some"

definition fsync_tree :: "nat \<Rightarrow> unit act" where
  "fsync_tree st = sys (Io ''fsync'') (\<lambda>w. if staging_of w st = None then None else Some w)"

definition create_dir_all_checked :: "(world \<Rightarrow> world) \<Rightarrow> unit act" where
  "create_dir_all_checked upd = sys (Io ''create'') (\<lambda>w. Some (upd w))"

definition without_swap_dir :: "world \<Rightarrow> world" where
  "without_swap_dir w =
     w\<lparr>swap_there := False, parked_of := (\<lambda>_. None), txn_file := None, txn_tmp := False\<rparr>"

text \<open>
  \<open>fs::remove_dir_all(.swap)\<close>, which removes entry by entry: it may stop after some of the parked
  copies, and after or before the record.
\<close>

definition remove_swap_dir :: "unit act" where
  "remove_swap_dir env w = (case draw (fst env) of (f, fs) \<Rightarrow>
     case f of
       Fine \<Rightarrow> if swap_there w then (Ok (), (fs, snd env), without_swap_dir w)
               else (Err (Io ''remove''), (fs, snd env), w)
     | Partly ks record_too \<Rightarrow>
         (Err (Io ''remove''), (fs, snd env),
          w\<lparr>parked_of := (\<lambda>k. if k \<in> set ks then None else parked_of w k),
            txn_file := (if record_too then None else txn_file w)\<rparr>)
     | _ \<Rightarrow> (Err (Io ''remove''), (fs, snd env), w))"

definition remove_staged :: "nat \<Rightarrow> unit act" where
  "remove_staged st = sys (Io ''remove'') (\<lambda>w. Some (w\<lparr>staging_of := (staging_of w)(st := None)\<rparr>))"

section \<open>Removal through the trash\<close>

text \<open>
  The suffix of a grave comes from a counter: a repeated process id and clock reading would make the
  rename fail, which a \<open>Fail\<close> covers.
\<close>

definition retire_to_trash :: "mkey \<Rightarrow> nat act" where
  "retire_to_trash k =
     seq (create_dir_all_checked id) (\<lambda>_.
     seq (gets next_suffix) (\<lambda>g.
     seq (sys (Io ''rename'') (\<lambda>w. case models_of w k of
            None \<Rightarrow> None
          | Some t \<Rightarrow>
              Some (w\<lparr>models_of := (models_of w)(k := None),
                      graves_of := (graves_of w)(g := Some t), next_suffix := Suc g\<rparr>))) (\<lambda>_.
     ret g)))"

definition restore_retired :: "nat \<Rightarrow> mkey \<Rightarrow> unit act" where
  "restore_retired g k = sys (Io ''rename'') (\<lambda>w. case graves_of w g of
       None \<Rightarrow> None
     | Some t \<Rightarrow>
         if models_of w k \<noteq> None then None
         else Some (w\<lparr>models_of := (models_of w)(k := Some t),
                      graves_of := (graves_of w)(g := None)\<rparr>))"

definition purge_retired :: "nat \<Rightarrow> unit act" where
  "purge_retired g = sys (Io ''linger'') (\<lambda>w. Some (w\<lparr>graves_of := (graves_of w)(g := None)\<rparr>))"

definition remove_installed :: "mkey \<Rightarrow> unit act" where
  "remove_installed k = seq (retire_to_trash k) purge_retired"

section \<open>The transaction\<close>

definition model_key :: "swap_model \<Rightarrow> mkey" where
  "model_key m = (sm_backend m, sm_name m)"

definition names :: "swap_model list \<Rightarrow> string list" where
  "names ms = map sm_name ms"

definition replaced_names :: "swap_model list \<Rightarrow> string list" where
  "replaced_names ms = map sm_name (filter sm_reload ms)"

definition write_swap_record :: "swap_phase \<Rightarrow> swap_model list \<Rightarrow> unit act" where
  "write_swap_record phase ms =
     (let remove_tmp = sys (Io ''remove'') (\<lambda>w. if txn_tmp w then Some (w\<lparr>txn_tmp := False\<rparr>) else None) in
     seq (attempt remove_tmp) (\<lambda>_.
     seq (sys (Io ''create'') (\<lambda>w. if swap_there w \<and> \<not> txn_tmp w then Some (w\<lparr>txn_tmp := True\<rparr>) else None)) (\<lambda>_.
     seq (sys (Io ''write'') Some) (\<lambda>_.
     seq (attempt (sys (Io ''rename'')
            (\<lambda>w. Some (w\<lparr>txn_tmp := False, txn_file := Some (Recorded phase ms)\<rparr>)))) (\<lambda>r.
     case r of
       Inl e \<Rightarrow> seq (attempt remove_tmp) (\<lambda>_. fail e)
     | Inr _ \<Rightarrow> fsync_dir)))))"

definition begin_swap :: "swap_model list \<Rightarrow> unit act" where
  "begin_swap ms =
     seq (stat (Io ''stat'') (\<lambda>w. txn_file w \<noteq> None)) (\<lambda>pending.
     if pending then fail Unfinished
     else
       seq (create_dir_all_checked (swap_there_update (\<lambda>_. True))) (\<lambda>_.
       seq fsync_dir (\<lambda>_.
       write_swap_record Swapping ms)))"

definition install_staged :: "nat \<Rightarrow> mkey \<Rightarrow> unit act" where
  "install_staged st k =
     seq (stat (Io ''stat'') (\<lambda>w. fst k \<in> set (backend_dirs w))) (\<lambda>there.
     seq (create_dir_all_checked
            (\<lambda>w. if fst k \<in> set (backend_dirs w) then w
                 else w\<lparr>backend_dirs := backend_dirs w @ [fst k]\<rparr>)) (\<lambda>_.
     seq (if there then ret () else fsync_dir) (\<lambda>_.
     seq (stat (Io ''stat'') (\<lambda>w. models_of w k \<noteq> None)) (\<lambda>occupied.
     if occupied then fail (AlreadyExists k)
     else
       seq (fsync_tree st) (\<lambda>_.
       seq (sys (Io ''rename'') (\<lambda>w. case staging_of w st of
              None \<Rightarrow> None
            | Some t \<Rightarrow>
                if models_of w k \<noteq> None then None
                else Some (w\<lparr>models_of := (models_of w)(k := Some t),
                             staging_of := (staging_of w)(st := None)\<rparr>))) (\<lambda>_.
       seq fsync_dir (\<lambda>_.
       fsync_dir)))))))"

definition swap_in :: "nat \<Rightarrow> mkey \<Rightarrow> unit act" where
  "swap_in st k =
     seq (stat (Io ''stat'') (\<lambda>w. models_of w k \<noteq> None)) (\<lambda>present.
     if \<not> present then fail (Vanished k)
     else
       seq (create_dir_all_checked (swap_there_update (\<lambda>_. True))) (\<lambda>_.
       seq fsync_dir (\<lambda>_.
       seq (fsync_tree st) (\<lambda>_.
       seq (sys (Io ''rename'') (\<lambda>w. case models_of w k of
              None \<Rightarrow> None
            | Some t \<Rightarrow>
                if parked_of w k \<noteq> None then None
                else Some (w\<lparr>models_of := (models_of w)(k := None),
                             parked_of := (parked_of w)(k := Some t)\<rparr>))) (\<lambda>_.
       seq (attempt (sys (Io ''rename'') (\<lambda>w. case staging_of w st of
              None \<Rightarrow> None
            | Some t \<Rightarrow>
                if models_of w k \<noteq> None then None
                else Some (w\<lparr>models_of := (models_of w)(k := Some t),
                             staging_of := (staging_of w)(st := None)\<rparr>)))) (\<lambda>r.
       case r of
         Inl e \<Rightarrow>
           seq (attempt (sys (Io ''rename'') (\<lambda>w. case parked_of w k of
                  None \<Rightarrow> None
                | Some t \<Rightarrow>
                    if models_of w k \<noteq> None then None
                    else Some (w\<lparr>models_of := (models_of w)(k := Some t),
                                 parked_of := (parked_of w)(k := None)\<rparr>)))) (\<lambda>_.
           fail e)
       | Inr _ \<Rightarrow>
           seq fsync_dir (\<lambda>_.
           seq fsync_dir (\<lambda>_.
           fsync_dir))))))))"

text \<open>
  The two halves of a rollback walk the recorded models and collect one problem per model that
  could not be settled; a model with nothing to undo is passed over.
\<close>

fun collect :: "('a \<Rightarrow> unit act) \<Rightarrow> 'a list \<Rightarrow> swap_error list act" where
  "collect f [] = ret []"
| "collect f (x # xs) =
     seq (attempt (f x)) (\<lambda>r.
     seq (collect f xs) (\<lambda>problems.
     ret (case r of Inl e \<Rightarrow> e # problems | Inr _ \<Rightarrow> problems)))"

definition restore_one :: "swap_model \<Rightarrow> unit act" where
  "restore_one m =
     (let k = model_key m in
     seq (stat (Io ''stat'') (\<lambda>w. parked_of w k \<noteq> None)) (\<lambda>parked.
     if \<not> parked then ret ()
     else
       seq (stat (Io ''stat'') (\<lambda>w. models_of w k \<noteq> None)) (\<lambda>occupied.
       seq (if occupied
            then seq (retire_to_trash k) (\<lambda>g. seq (attempt (purge_retired g)) (\<lambda>_. ret ()))
            else ret ()) (\<lambda>_.
       seq (sys (Io ''rename'') (\<lambda>w. case parked_of w k of
              None \<Rightarrow> None
            | Some t \<Rightarrow>
                if models_of w k \<noteq> None then None
                else Some (w\<lparr>models_of := (models_of w)(k := Some t),
                             parked_of := (parked_of w)(k := None)\<rparr>))) (\<lambda>_.
       seq fsync_dir (\<lambda>_.
       fsync_dir))))))"

definition restore_swapped :: "swap_model list \<Rightarrow> unit act" where
  "restore_swapped ms =
     seq (collect restore_one (filter (\<lambda>m. sm_role m = Replace) ms)) (\<lambda>problems.
     if problems \<noteq> [] then fail (NotRestored problems) else ret ())"

definition remove_one :: "swap_model \<Rightarrow> unit act" where
  "remove_one m =
     seq (stat (Io ''stat'') (\<lambda>w. models_of w (model_key m) \<noteq> None)) (\<lambda>landed.
     if \<not> landed then ret () else remove_installed (model_key m))"

definition remove_recorded_installs :: "swap_model list \<Rightarrow> unit act" where
  "remove_recorded_installs ms =
     seq (collect remove_one (filter (\<lambda>m. sm_role m = Install) ms)) (\<lambda>problems.
     if problems \<noteq> [] then fail (NotRemoved problems) else ret ())"

definition discard_swap :: "unit act" where
  "discard_swap = seq (attempt remove_swap_dir) (\<lambda>_. ret ())"

definition confirm_swap :: "swap_model list \<Rightarrow> unit act" where
  "confirm_swap ms = seq (write_swap_record Confirmed ms) (\<lambda>_. discard_swap)"

definition clear_swap :: "unit act" where
  "clear_swap = seq remove_swap_dir (\<lambda>_. fsync_dir)"

definition recorded_names_ok :: "swap_model list \<Rightarrow> bool" where
  "recorded_names_ok ms \<longleftrightarrow>
     list_all (\<lambda>m. is_ok (valid_model_name (sm_name m)) \<and> is_ok (valid_model_name (sm_backend m))) ms"

definition pending_swap :: "(swap_model list \<times> swap_phase) option act" where
  "pending_swap =
     seq (stat (Io ''read'') txn_file) (\<lambda>content.
     case content of
       None \<Rightarrow>
         seq (gets swap_there) (\<lambda>there.
         seq (if there then attempt remove_swap_dir else ret (Ok ())) (\<lambda>_.
         ret None))
     | Some (Recorded phase ms) \<Rightarrow>
         if recorded_names_ok ms then ret (Some (ms, phase)) else fail MalformedRecord
     | Some (OtherVersion v) \<Rightarrow> fail (RecordVersion v)
     | Some _ \<Rightarrow> fail MalformedRecord)"

section \<open>The engine's answers\<close>

definition UNLOADED :: "string list" where "UNLOADED = [''unloaded'', ''not-loaded'']"
definition LOADED_FRESH :: "string list" where "LOADED_FRESH = [''loaded'']"
definition LOADED_ANY :: "string list" where "LOADED_ANY = [''loaded'', ''already-loaded'']"

definition check_outcome :: "(string \<times> string list) list \<Rightarrow> admin_outcome \<Rightarrow> outcome_problem + unit" where
  "check_outcome expected oc = (case find (\<lambda>(n, _). n = ao_model oc) expected of
     None \<Rightarrow> Err (NotRequested (ao_model oc))
   | Some (_, accepted) \<Rightarrow>
       if ao_status oc \<notin> set accepted then Err (BadStatus (ao_model oc) (ao_status oc)) else Ok ())"

definition check_count :: "admin_outcome list \<Rightarrow> string \<times> string list \<Rightarrow> outcome_problem + unit" where
  "check_count outcomes = (\<lambda>(n, _).
     let c = length (filter (\<lambda>oc. ao_model oc = n) outcomes) in
     if c = 1 then Ok () else if c = 0 then Err (NoResult n) else Err (Repeated n c))"

definition verify_outcomes :: "(string \<times> string list) list \<Rightarrow> admin_outcome list \<Rightarrow> outcome_problem + unit" where
  "verify_outcomes expected outcomes =
     and_then (try_each (check_outcome expected) outcomes) (\<lambda>_.
     try_each (check_count outcomes) expected)"

text \<open>
  One request to the admin listener. A transport error, a malformed body and a refusal are all
  \<open>Lost\<close>; a dead process asks nothing.
\<close>

definition admin_call :: "endpoint \<Rightarrow> string list \<Rightarrow> admin_outcome list act" where
  "admin_call ep ns env w = (
     if fst (draw (fst env)) = Crash then (Err (EngineLost ep), env, w)
     else case snd env of
       [] \<Rightarrow> (Err (EngineLost ep), env, w\<lparr>calls := calls w @ [(ep, ns, Lost)]\<rparr>)
     | r # rs \<Rightarrow>
         ((case r of Lost \<Rightarrow> Err (EngineLost ep) | Answered os \<Rightarrow> Ok os),
          (fst env, rs), w\<lparr>calls := calls w @ [(ep, ns, r)]\<rparr>))"

definition proven_call :: "endpoint \<Rightarrow> (string \<times> string list) list \<Rightarrow> unit act" where
  "proven_call ep expected =
     seq (admin_call ep (map fst expected)) (\<lambda>outcomes.
     lift_result (map_err (NotClean ep) (verify_outcomes expected outcomes)))"

definition quiesce :: "bool \<Rightarrow> string list \<Rightarrow> unit act" where
  "quiesce engine ns =
     (if engine \<and> ns \<noteq> [] then proven_call Unload (map (\<lambda>n. (n, UNLOADED)) ns) else ret ())"

definition restore_and_prove :: "bool \<Rightarrow> swap_model list \<Rightarrow> unit act" where
  "restore_and_prove engine ms =
     seq (restore_swapped ms) (\<lambda>_.
     seq (remove_recorded_installs ms) (\<lambda>_.
     seq (if engine \<and> replaced_names ms \<noteq> []
          then proven_call Load (map (\<lambda>n. (n, LOADED_FRESH)) (replaced_names ms))
          else ret ()) (\<lambda>_.
     clear_swap)))"

definition recover_pending_swap :: "bool \<Rightarrow> unit act" where
  "recover_pending_swap engine =
     seq pending_swap (\<lambda>pending.
     case pending of
       None \<Rightarrow> ret ()
     | Some (ms, phase) \<Rightarrow>
         if phase = Confirmed then discard_swap
         else
           seq (quiesce engine (names ms)) (\<lambda>_.
           restore_and_prove engine ms))"

section \<open>The batch of a pull\<close>

text \<open>
  \<open>apply\<close> from the staged trees on. Each item carries its staged directory; \<open>wi_enabled_after\<close> is
  \<open>touches_the_engine\<close>.
\<close>

record work_item =
  wi_backend :: string
  wi_name :: string
  wi_upgrade :: bool
  wi_enabled_after :: bool
  wi_staged :: nat

definition item_key :: "work_item \<Rightarrow> mkey" where
  "item_key i = (wi_backend i, wi_name i)"

definition swap_model_of :: "work_item \<Rightarrow> swap_model" where
  "swap_model_of i =
     \<lparr>sm_name = wi_name i, sm_backend = wi_backend i,
      sm_role = (if wi_upgrade i then Replace else Install),
      sm_reload = (wi_upgrade i \<and> wi_enabled_after i)\<rparr>"

fun remove_all_staged :: "work_item list \<Rightarrow> unit act" where
  "remove_all_staged [] = ret ()"
| "remove_all_staged (i # is) = seq (attempt (remove_staged (wi_staged i))) (\<lambda>_. remove_all_staged is)"

definition move_item :: "work_item \<Rightarrow> unit act" where
  "move_item i =
     (if wi_upgrade i then swap_in (wi_staged i) (item_key i)
      else install_staged (wi_staged i) (item_key i))"

fun move_items :: "work_item list \<Rightarrow> unit act" where
  "move_items [] = ret ()"
| "move_items (i # is) =
     seq (attempt (move_item i)) (\<lambda>r.
     case r of
       Inl e \<Rightarrow> seq (attempt (remove_staged (wi_staged i))) (\<lambda>_. fail e)
     | Inr _ \<Rightarrow> move_items is)"

definition undo :: "bool \<Rightarrow> swap_model list \<Rightarrow> swap_error \<Rightarrow> unit act" where
  "undo engine ms cause =
     (if ms = [] then fail cause
      else
        seq (attempt (quiesce engine (names ms))) (\<lambda>r.
        case r of
          Inl e \<Rightarrow> fail (NotQuiesced cause e)
        | Inr _ \<Rightarrow>
            seq (attempt (restore_and_prove engine ms)) (\<lambda>r.
            case r of
              Inl e \<Rightarrow> fail (RollbackIncomplete cause e)
            | Inr _ \<Rightarrow> fail (RolledBack cause))))"

definition expected_loads :: "work_item list \<Rightarrow> string list \<Rightarrow> (string \<times> string list) list" where
  "expected_loads items to_activate =
     (let replaced = map wi_name (filter wi_upgrade items) in
      map (\<lambda>n. (n, if n \<in> set replaced then LOADED_FRESH else LOADED_ANY)) to_activate)"

definition apply_batch :: "bool \<Rightarrow> work_item list \<Rightarrow> string list \<Rightarrow> unit act" where
  "apply_batch engine items to_activate =
     (let batch = map swap_model_of items in
     seq (attempt (if batch \<noteq> [] then begin_swap batch else ret ())) (\<lambda>r.
     case r of
       Inl e \<Rightarrow> seq (remove_all_staged items) (\<lambda>_. fail e)
     | Inr _ \<Rightarrow>
         seq (attempt (quiesce engine (map wi_name (filter wi_upgrade items)))) (\<lambda>r.
         case r of
           Inl e \<Rightarrow>
             seq (remove_all_staged items) (\<lambda>_. fail (if batch = [] then e else Retained e))
         | Inr _ \<Rightarrow>
             seq (attempt (move_items items)) (\<lambda>r.
             case r of
               Inl e \<Rightarrow> undo engine batch e
             | Inr _ \<Rightarrow>
                 seq (attempt (if engine \<and> to_activate \<noteq> []
                               then proven_call Load (expected_loads items to_activate)
                               else ret ())) (\<lambda>r.
                 case r of
                   Inl e \<Rightarrow> undo engine batch e
                 | Inr _ \<Rightarrow> if batch \<noteq> [] then confirm_swap batch else ret ())))))"

section \<open>The action calculus\<close>

text \<open>
  \<open>safe m Q E w\<close>: whatever faults and replies the environment has in store, the action \<open>m\<close> started in
  \<open>w\<close> ends with \<open>Q\<close> when it returns and with \<open>E\<close> when it fails. As a crash lets every later call
  fail, \<open>E\<close> is also what a killed process leaves behind.
\<close>

definition safe :: "'a act \<Rightarrow> ('a \<Rightarrow> world \<Rightarrow> bool) \<Rightarrow> (world \<Rightarrow> bool) \<Rightarrow> world \<Rightarrow> bool" where
  "safe m Q E w \<longleftrightarrow> (\<forall>env. case m env w of (Inl _, _, w') \<Rightarrow> E w' | (Inr x, _, w') \<Rightarrow> Q x w')"

lemma safeD:
  assumes "safe m Q E w" "m env w = (r, env', w')"
  shows "case r of Inl _ \<Rightarrow> E w' | Inr x \<Rightarrow> Q x w'"
  using assms(1)[unfolded safe_def, rule_format, of env] assms(2) by (simp split: sum.splits)

lemma safe_ret [act_rules]: "Q x w \<Longrightarrow> safe (ret x) Q E w"
  by (simp add: safe_def ret_def)

lemma safe_fail [act_rules]: "E w \<Longrightarrow> safe (fail e) Q E w"
  by (simp add: safe_def fail_def)

lemma safe_gets [act_rules]: "Q (q w) w \<Longrightarrow> safe (gets q) Q E w"
  by (simp add: safe_def gets_def)

lemma safe_lift [act_rules]:
  assumes "E w" "\<And>x. r = Ok x \<Longrightarrow> Q x w"
  shows "safe (lift_result r) Q E w"
  using assms by (simp add: safe_def lift_result_def split: sum.splits)

lemma safe_seq [act_rules]:
  assumes "safe m (\<lambda>x w. safe (f x) Q E w) E w"
  shows "safe (seq m f) Q E w"
  unfolding safe_def seq_def
proof
  fix env
  obtain r env' w' where m: "m env w = (r, env', w')" by (rule prod_cases3)
  show "case case m env w of (Inl e, env, w) \<Rightarrow> (Err e, env, w) | (Inr x, env, w) \<Rightarrow> f x env w of
          (Inl _, _, w') \<Rightarrow> E w' | (Inr x, _, w') \<Rightarrow> Q x w'"
    using safeD[OF assms m] m by (cases r; cases env') (simp_all add: safe_def)
qed

lemma safe_attempt [act_rules]:
  assumes "safe m (\<lambda>x. Q (Ok x)) (\<lambda>w. \<forall>e. Q (Err e) w) w"
  shows "safe (attempt m) Q E w"
  unfolding safe_def attempt_def
proof
  fix env
  obtain r env' w' where m: "m env w = (r, env', w')" by (rule prod_cases3)
  show "case case m env w of (r, env, w) \<Rightarrow> (Ok r, env, w) of
          (Inl _, _, w') \<Rightarrow> E w' | (Inr x, _, w') \<Rightarrow> Q x w'"
    using safeD[OF assms m] m by (cases r) simp_all
qed

lemma safe_sys [act_rules]:
  assumes "E w" "\<And>w'. eff w = Some w' \<Longrightarrow> Q () w'"
  shows "safe (sys e eff) Q E w"
  using assms by (auto simp: safe_def sys_def split: prod.splits option.splits)

lemma safe_stat [act_rules]:
  assumes "E w" "Q (q w) w"
  shows "safe (stat e q) Q E w"
  using assms by (auto simp: safe_def stat_def split: prod.splits)

lemma safe_fsync_dir [act_rules]: "E w \<Longrightarrow> Q () w \<Longrightarrow> safe fsync_dir Q E w"
  unfolding fsync_dir_def by (rule safe_sys) simp_all

lemma safe_fsync_tree [act_rules]: "E w \<Longrightarrow> Q () w \<Longrightarrow> safe (fsync_tree st) Q E w"
  unfolding fsync_tree_def by (rule safe_sys) (simp_all split: if_splits)

lemma safe_create [act_rules]: "E w \<Longrightarrow> Q () (upd w) \<Longrightarrow> safe (create_dir_all_checked upd) Q E w"
  unfolding create_dir_all_checked_def by (rule safe_sys) simp_all

lemma safe_if [act_rules]:
  assumes "c \<Longrightarrow> safe m Q E w" "\<not> c \<Longrightarrow> safe m' Q E w"
  shows "safe (if c then m else m') Q E w"
  using assms by simp

lemma safe_case_sum [act_rules]:
  assumes "\<And>e. r = Inl e \<Longrightarrow> safe (f e) Q E w" "\<And>x. r = Inr x \<Longrightarrow> safe (g x) Q E w"
  shows "safe (case r of Inl e \<Rightarrow> f e | Inr x \<Rightarrow> g x) Q E w"
  using assms by (simp split: sum.splits)

lemma safe_mono:
  assumes "safe m Q E w" "\<And>x w. Q x w \<Longrightarrow> Q' x w" "\<And>w. E w \<Longrightarrow> E' w"
  shows "safe m Q' E' w"
  unfolding safe_def
proof
  fix env
  obtain r env' w' where m: "m env w = (r, env', w')" by (rule prod_cases3)
  show "case m env w of (Inl _, _, w') \<Rightarrow> E' w' | (Inr x, _, w') \<Rightarrow> Q' x w'"
    using safeD[OF assms(1) m] m assms(2,3) by (cases r) simp_all
qed

lemma safe_remove_swap_dir [act_rules]:
  assumes "E w"
    "\<And>ks r. E (w\<lparr>parked_of := (\<lambda>k. if k \<in> set ks then None else parked_of w k),
                 txn_file := (if r then None else txn_file w)\<rparr>)"
    "Q () (without_swap_dir w)"
  shows "safe remove_swap_dir Q E w"
  using assms by (auto simp: safe_def remove_swap_dir_def split: prod.splits fault.splits)

lemma safe_write_swap_record:
  assumes "\<And>b. E (w\<lparr>txn_tmp := b\<rparr>)"
    and "E (w\<lparr>txn_tmp := False, txn_file := Some (Recorded phase ms)\<rparr>)"
    and "Q () (w\<lparr>txn_tmp := False, txn_file := Some (Recorded phase ms)\<rparr>)"
  shows "safe (write_swap_record phase ms) Q E w"
proof -
  have same: "w\<lparr>txn_tmp := txn_tmp w\<rparr> = w" by simp
  have E0: "E w" using assms(1)[of "txn_tmp w"] by simp
  show ?thesis
    unfolding write_swap_record_def Let_def
    by (intro act_rules allI) (use assms E0 in \<open>auto split: if_splits intro!: act_rules\<close>)
qed

definition proven :: "endpoint \<Rightarrow> (string \<times> string list) list \<Rightarrow> world \<Rightarrow> bool" where
  "proven ep ex w \<longleftrightarrow>
     (\<exists>os. (ep, map fst ex, Answered os) \<in> set (calls w) \<and> verify_outcomes ex os = Ok ())"

section \<open>What the rest of the root cannot disturb\<close>

text \<open>
  \<open>call_property\<close>: a property that survives further engine calls. \<open>root_property\<close>: one of the
  installed models, the parked copies and the record only; staging, trash, empty directories and the
  temporary file do not matter to it.
\<close>

locale call_property =
  fixes P :: "world \<Rightarrow> bool"
  assumes frame_calls: "P w \<Longrightarrow> P (w\<lparr>calls := calls w @ cs\<rparr>)"
begin

lemma admin_call_keeps: "P w \<Longrightarrow> safe (admin_call ep ns) (\<lambda>_. P) P w"
  by (auto simp: safe_def admin_call_def frame_calls split: list.splits reply.splits)

lemma proven_call_keeps: "P w \<Longrightarrow> safe (proven_call ep ex) (\<lambda>_. P) P w"
  unfolding proven_call_def
  by (rule safe_seq, rule safe_mono[OF admin_call_keeps]) (auto intro!: act_rules)

lemma proven_call_proves: "P w \<Longrightarrow> safe (proven_call ep ex) (\<lambda>_ w. P w \<and> proven ep ex w) P w"
  unfolding proven_call_def
proof (rule safe_seq, rule safe_mono)
  assume "P w"
  then show "safe (admin_call ep (map fst ex))
      (\<lambda>os w. P w \<and> (ep, map fst ex, Answered os) \<in> set (calls w)) P w"
    by (auto simp: safe_def admin_call_def frame_calls split: list.splits reply.splits)
qed (auto simp: proven_def map_err_def intro!: act_rules split: sum.splits)

lemma quiesce_keeps: "P w \<Longrightarrow> safe (quiesce engine ns) (\<lambda>_. P) P w"
  unfolding quiesce_def by (auto intro!: act_rules proven_call_keeps)

end

locale root_property = call_property +
  assumes frame_backends: "P (w\<lparr>backend_dirs := bs\<rparr>) = P w"
    and frame_swap_there: "P w \<Longrightarrow> P (w\<lparr>swap_there := True\<rparr>)"
    and frame_tmp: "P (w\<lparr>txn_tmp := b\<rparr>) = P w"
    and frame_staging: "P (w\<lparr>staging_of := st\<rparr>) = P w"
    and frame_graves: "P (w\<lparr>graves_of := gs\<rparr>) = P w"
    and frame_suffix: "P (w\<lparr>next_suffix := n\<rparr>) = P w"
begin

lemmas frames = frame_backends frame_swap_there frame_tmp frame_staging frame_graves frame_suffix

lemma remove_staged_keeps: "P w \<Longrightarrow> safe (attempt (remove_staged st)) (\<lambda>_. P) E w"
  unfolding remove_staged_def by (intro act_rules allI) (auto simp: frame_staging)

lemma remove_all_staged_keeps: "P w \<Longrightarrow> safe (remove_all_staged is) (\<lambda>_. P) P w"
proof (induction "is" arbitrary: w)
  case (Cons i "is")
  show ?case
    by (simp, rule safe_seq, rule safe_mono[OF remove_staged_keeps[OF Cons.prems], where E = P])
       (use Cons.IH in auto)
qed (auto intro: act_rules)

end

section \<open>Undoable and committed roots\<close>

definition replace_keys :: "swap_model list \<Rightarrow> mkey set" where
  "replace_keys ms = model_key ` {m \<in> set ms. sm_role m = Replace}"

text \<open>
  With respect to the models \<open>M0\<close> before the batch: whatever is outside the batch is untouched, and
  every model being replaced is either parked or still in place.
\<close>

definition rolled :: "(mkey \<Rightarrow> string option) \<Rightarrow> swap_model list \<Rightarrow> world \<Rightarrow> bool" where
  "rolled M0 ms w \<longleftrightarrow>
     (\<forall>k. k \<notin> model_key ` set ms \<longrightarrow> models_of w k = M0 k) \<and>
     (\<forall>k \<in> replace_keys ms. parked_of w k = M0 k \<or> parked_of w k = None \<and> models_of w k = M0 k)"

definition rolling :: "(mkey \<Rightarrow> string option) \<Rightarrow> swap_model list \<Rightarrow> world \<Rightarrow> bool" where
  "rolling M0 ms w \<longleftrightarrow> txn_file w = Some (Recorded Swapping ms) \<and> swap_there w \<and> rolled M0 ms w"

definition undoable :: "(mkey \<Rightarrow> string option) \<Rightarrow> swap_model list \<Rightarrow> world \<Rightarrow> bool" where
  "undoable M0 ms w \<longleftrightarrow> rolling M0 ms w \<or> txn_file w = None \<and> models_of w = M0"

definition committed ::
  "(mkey \<Rightarrow> string option) \<Rightarrow> swap_model list \<Rightarrow> (string \<times> string list) list \<Rightarrow> world \<Rightarrow> bool" where
  "committed M1 ms ex w \<longleftrightarrow>
     models_of w = M1 \<and> (txn_file w = None \<or> txn_file w = Some (Recorded Confirmed ms)) \<and>
     (ex \<noteq> [] \<longrightarrow> proven Load ex w)"

text \<open>A batch fits when replaced models exist, fresh ones do not, and no model occurs twice.\<close>

definition batch_fits :: "(mkey \<Rightarrow> string option) \<Rightarrow> swap_model list \<Rightarrow> bool" where
  "batch_fits M0 ms \<longleftrightarrow>
     distinct (map model_key ms) \<and>
     list_all (\<lambda>m. (sm_role m = Replace) = (M0 (model_key m) \<noteq> None)) ms"

interpretation rolling: root_property "rolling M0 ms" for M0 ms
  by unfold_locales (simp_all add: rolling_def rolled_def)

interpretation undoable: root_property "undoable M0 ms" for M0 ms
  by unfold_locales (auto simp: undoable_def rolling_def rolled_def)

interpretation committed: root_property "committed M1 ms ex" for M1 ms ex
  by unfold_locales (auto simp: committed_def proven_def)

lemma batch_fits_install:
  assumes "batch_fits M0 ms" "m \<in> set ms" "sm_role m = Install"
  shows "M0 (model_key m) = None" "model_key m \<notin> replace_keys ms"
proof -
  show none: "M0 (model_key m) = None"
    using assms by (auto simp: batch_fits_def list_all_iff)
  show "model_key m \<notin> replace_keys ms"
    using assms none by (force simp: batch_fits_def list_all_iff replace_keys_def)
qed

lemma batch_fits_replace:
  assumes "batch_fits M0 ms" "k \<in> replace_keys ms"
  shows "M0 k \<noteq> None"
  using assms by (auto simp: batch_fits_def list_all_iff replace_keys_def)

section \<open>Rollback\<close>

lemma collect_safe:
  assumes step: "\<And>x w S. x \<in> set xs \<Longrightarrow> I S w \<Longrightarrow> safe (f x) (\<lambda>_. I (insert x S)) (I S) w"
    and weaken: "\<And>x w S. I (insert x S) w \<Longrightarrow> I S w"
    and start: "I S w"
  shows "safe (collect f xs) (\<lambda>ps w. I S w \<and> (ps = [] \<longrightarrow> I (S \<union> set xs) w)) E w"
  using step start
proof (induction xs arbitrary: w S)
  case (Cons x xs)
  have rest: "safe (collect f xs) (\<lambda>ps w. I S w \<and> (ps = [] \<longrightarrow> I (S \<union> set xs) w)) E w" if "I S w" for w S
    by (rule Cons.IH[OF Cons.prems(1)]) (use that in auto)
  have here: "safe (f x) (\<lambda>_. I (insert x S)) (I S) w"
    by (rule Cons.prems(1)) (use Cons.prems(2) in auto)
  show ?case
    unfolding collect.simps
  proof (intro safe_seq safe_attempt, rule safe_mono[OF here])
    fix u w assume "I (insert x S) w"
    then have "safe (collect f xs) (\<lambda>ps w. I (insert x S) w \<and> (ps = [] \<longrightarrow> I (insert x S \<union> set xs) w)) E w"
      by (rule rest)
    then show "safe (seq (collect f xs) (\<lambda>ps. ret (case Ok u of Inl e \<Rightarrow> e # ps | Inr _ \<Rightarrow> ps)))
        (\<lambda>ps w. I S w \<and> (ps = [] \<longrightarrow> I (S \<union> set (x # xs)) w)) E w"
      by (intro safe_seq, rule safe_mono) (use weaken in \<open>auto intro!: safe_ret\<close>)
  next
    fix w assume "I S w"
    then have "safe (collect f xs) (\<lambda>ps w. I S w \<and> (ps = [] \<longrightarrow> I (S \<union> set xs) w)) E w"
      by (rule rest)
    then show "\<forall>e. safe (seq (collect f xs) (\<lambda>ps. ret (case Err e of Inl e \<Rightarrow> e # ps | Inr _ \<Rightarrow> ps)))
        (\<lambda>ps w. I S w \<and> (ps = [] \<longrightarrow> I (S \<union> set (x # xs)) w)) E w"
      by (intro allI safe_seq, rule safe_mono) (auto intro!: safe_ret)
  qed
qed (auto intro: act_rules)

lemma safe_retire [act_rules]:
  assumes "E w"
    and "\<And>t. models_of w k = Some t \<Longrightarrow>
      Q (next_suffix w) (w\<lparr>models_of := (models_of w)(k := None),
           graves_of := (graves_of w)(next_suffix w := Some t), next_suffix := Suc (next_suffix w)\<rparr>)"
  shows "safe (retire_to_trash k) Q E w"
  unfolding retire_to_trash_def
  by (intro act_rules) (use assms in \<open>auto split: option.splits if_splits intro!: safe_ret\<close>)

definition restoring :: "(mkey \<Rightarrow> string option) \<Rightarrow> swap_model list \<Rightarrow> swap_model set \<Rightarrow> world \<Rightarrow> bool" where
  "restoring M0 ms S w \<longleftrightarrow> rolling M0 ms w \<and> (\<forall>m \<in> S. parked_of w (model_key m) = None)"

definition removing :: "(mkey \<Rightarrow> string option) \<Rightarrow> swap_model list \<Rightarrow> swap_model set \<Rightarrow> world \<Rightarrow> bool" where
  "removing M0 ms S w \<longleftrightarrow>
     restoring M0 ms {m \<in> set ms. sm_role m = Replace} w \<and> (\<forall>m \<in> S. models_of w (model_key m) = None)"

lemma rolling_vacate:
  assumes "rolling M0 ms w" "k \<in> model_key ` set ms" "k \<in> replace_keys ms \<Longrightarrow> parked_of w k = M0 k"
  shows "rolling M0 ms (w\<lparr>models_of := (models_of w)(k := t)\<rparr>)"
  using assms by (auto simp: rolling_def rolled_def)

lemma rolling_put_back:
  assumes "rolling M0 ms w" "k \<in> replace_keys ms" "parked_of w k = Some t"
  shows "rolling M0 ms (w\<lparr>models_of := (models_of w)(k := Some t), parked_of := (parked_of w)(k := None)\<rparr>)"
  using assms by (auto simp: rolling_def rolled_def replace_keys_def)

interpretation restoring: root_property "restoring M0 ms S" for M0 ms S
  by unfold_locales
     (simp_all add: restoring_def rolling.frames rolling.frame_calls)

interpretation removing: root_property "removing M0 ms S" for M0 ms S
  by unfold_locales
     (simp_all add: removing_def restoring.frames restoring.frame_calls)

lemma restore_one_safe:
  assumes m: "m \<in> set ms" "sm_role m = Replace" and start: "restoring M0 ms S w"
  shows "safe (restore_one m) (\<lambda>_. restoring M0 ms (insert m S)) (restoring M0 ms S) w"
proof -
  let ?k = "model_key m"
  have k: "?k \<in> replace_keys ms" "?k \<in> model_key ` set ms"
    using m by (auto simp: replace_keys_def)
  have put_back: "safe (seq (sys (Io ''rename'') (\<lambda>w. case parked_of w ?k of
              None \<Rightarrow> None
            | Some t \<Rightarrow>
                if models_of w ?k \<noteq> None then None
                else Some (w\<lparr>models_of := (models_of w)(?k := Some t),
                             parked_of := (parked_of w)(?k := None)\<rparr>))) (\<lambda>_.
       seq fsync_dir (\<lambda>_. fsync_dir))) (\<lambda>_. restoring M0 ms (insert m S)) (restoring M0 ms S) w"
    if "restoring M0 ms S w" for w
    by (intro act_rules)
       (use that k in \<open>auto simp: restoring_def rolling_put_back split: option.splits if_splits\<close>)
  have vacated: "restoring M0 ms S (w\<lparr>models_of := (models_of w)(?k := None)\<rparr>)"
    if "restoring M0 ms S w" "parked_of w ?k \<noteq> None" for w
  proof -
    have "parked_of w ?k = M0 ?k" using that k by (auto simp: restoring_def rolling_def rolled_def)
    with that k show ?thesis by (auto simp: restoring_def intro!: rolling_vacate)
  qed
  have retire: "safe (seq (retire_to_trash ?k) (\<lambda>g. seq (attempt (purge_retired g)) (\<lambda>_. ret ())))
      (\<lambda>_. restoring M0 ms S) (restoring M0 ms S) w" if "restoring M0 ms S w" "parked_of w ?k \<noteq> None" for w
  proof (intro safe_seq safe_retire safe_attempt)
    fix t
    show "safe (purge_retired (next_suffix w)) (\<lambda>_ w. safe (ret ()) (\<lambda>_. restoring M0 ms S) (restoring M0 ms S) w)
        (\<lambda>w. \<forall>e. safe (ret ()) (\<lambda>_. restoring M0 ms S) (restoring M0 ms S) w)
        (w\<lparr>models_of := (models_of w)(?k := None), graves_of := (graves_of w)(next_suffix w := Some t),
           next_suffix := Suc (next_suffix w)\<rparr>)"
      unfolding purge_retired_def
      by (intro act_rules allI) (use vacated[OF that] in \<open>auto simp: restoring.frame_graves restoring.frame_suffix\<close>)
  qed (rule that(1))
  have optional: "safe (if occupied
            then seq (retire_to_trash ?k) (\<lambda>g. seq (attempt (purge_retired g)) (\<lambda>_. ret ()))
            else ret ()) (\<lambda>_. restoring M0 ms S) (restoring M0 ms S) w"
    if "restoring M0 ms S w" "parked_of w ?k \<noteq> None" for occupied w
    by (intro safe_if retire safe_ret that)
  have unparked: "restoring M0 ms (insert m S) w" if "\<not> parked_of w ?k \<noteq> None"
    using start that by (simp add: restoring_def)
  show ?thesis
    unfolding restore_one_def Let_def
    by (intro safe_seq safe_stat safe_if safe_ret start unparked safe_mono[OF optional[OF start] put_back]) auto
qed

lemma remove_one_safe:
  assumes fits: "batch_fits M0 ms" and m: "m \<in> set ms" "sm_role m = Install" and start: "removing M0 ms S w"
  shows "safe (remove_one m) (\<lambda>_. removing M0 ms (insert m S)) (removing M0 ms S) w"
proof -
  have k: "model_key m \<notin> replace_keys ms" "model_key m \<in> model_key ` set ms"
    using batch_fits_install[OF fits m] m by auto
  have vacated: "removing M0 ms (insert m S) (w\<lparr>models_of := (models_of w)(model_key m := None)\<rparr>)"
    using start k by (auto simp: removing_def restoring_def intro!: rolling_vacate)
  have weaken: "removing M0 ms (insert m S) v \<Longrightarrow> removing M0 ms S v" for v
    by (simp add: removing_def)
  show ?thesis
    unfolding remove_one_def remove_installed_def purge_retired_def
    by (intro act_rules start) (use start vacated in \<open>auto simp: removing.frame_graves removing.frame_suffix weaken, simp add: removing_def\<close>)
qed

lemma restore_swapped_safe:
  assumes "rolling M0 ms w"
  shows "safe (restore_swapped ms) (\<lambda>_. removing M0 ms {}) (rolling M0 ms) w"
proof -
  let ?xs = "filter (\<lambda>m. sm_role m = Replace) ms"
  have "safe (collect restore_one ?xs)
      (\<lambda>ps w. restoring M0 ms {} w \<and> (ps = [] \<longrightarrow> restoring M0 ms ({} \<union> set ?xs) w)) (rolling M0 ms) w"
  proof (rule collect_safe[where I = "restoring M0 ms"])
    fix x w S assume "x \<in> set ?xs" "restoring M0 ms S w"
    then show "safe (restore_one x) (\<lambda>_. restoring M0 ms (insert x S)) (restoring M0 ms S) w"
      by (intro restore_one_safe) auto
  qed (use assms in \<open>auto simp: restoring_def\<close>)
  then show ?thesis
    unfolding restore_swapped_def
    by (intro safe_seq, elim safe_mono) (auto simp: restoring_def removing_def intro!: act_rules)
qed

definition fresh_models :: "swap_model list \<Rightarrow> swap_model set" where
  "fresh_models ms = {m \<in> set ms. sm_role m = Install}"

lemma remove_recorded_installs_safe:
  assumes "batch_fits M0 ms" "removing M0 ms {} w"
  shows "safe (remove_recorded_installs ms) (\<lambda>_. removing M0 ms (fresh_models ms)) (rolling M0 ms) w"
proof -
  let ?xs = "filter (\<lambda>m. sm_role m = Install) ms"
  have "safe (collect remove_one ?xs)
      (\<lambda>ps w. removing M0 ms {} w \<and> (ps = [] \<longrightarrow> removing M0 ms ({} \<union> set ?xs) w)) (rolling M0 ms) w"
  proof (rule collect_safe[where I = "removing M0 ms"])
    fix x w S assume "x \<in> set ?xs" "removing M0 ms S w"
    then show "safe (remove_one x) (\<lambda>_. removing M0 ms (insert x S)) (removing M0 ms S) w"
      by (intro remove_one_safe assms(1)) auto
  qed (use assms in \<open>auto simp: removing_def\<close>)
  then show ?thesis
    unfolding remove_recorded_installs_def
    by (intro safe_seq, elim safe_mono)
       (auto simp: restoring_def removing_def fresh_models_def intro!: act_rules)
qed

lemma removed_models:
  assumes fits: "batch_fits M0 ms" and w: "removing M0 ms (fresh_models ms) w"
  shows "models_of w = M0"
proof
  fix k
  have inv: "rolled M0 ms w" "\<And>m. m \<in> set ms \<Longrightarrow> sm_role m = Replace \<Longrightarrow> parked_of w (model_key m) = None"
    using w by (auto simp: removing_def restoring_def rolling_def)
  consider (out) "k \<notin> model_key ` set ms" | (replace) "k \<in> replace_keys ms"
    | (install) m where "m \<in> set ms" "sm_role m = Install" "k = model_key m"
  proof (cases "k \<in> model_key ` set ms")
    case True
    then obtain m where m: "m \<in> set ms" "k = model_key m" by auto
    show thesis by (cases "sm_role m") (use m replace install in \<open>auto simp: replace_keys_def\<close>)
  qed (rule out)
  then show "models_of w k = M0 k"
  proof cases
    case replace
    then have "parked_of w k = None" using inv(2) by (auto simp: replace_keys_def)
    moreover have "M0 k \<noteq> None" using batch_fits_replace[OF fits replace] .
    ultimately show ?thesis using inv(1) replace by (fastforce simp: rolled_def)
  next
    case install
    then show ?thesis using batch_fits_install[OF fits] w by (auto simp: removing_def fresh_models_def)
  qed (use inv(1) in \<open>unfold rolled_def, blast\<close>)
qed

lemma clear_swap_safe:
  assumes fits: "batch_fits M0 ms" and w: "removing M0 ms (fresh_models ms) w"
  shows "safe clear_swap (\<lambda>_ w. txn_file w = None \<and> models_of w = M0) (undoable M0 ms) w"
proof -
  note models = removed_models[OF assms]
  have roll: "rolling M0 ms w" using w by (simp add: removing_def restoring_def)
  have partly: "undoable M0 ms (w\<lparr>parked_of := (\<lambda>k. if k \<in> set ks then None else parked_of w k),
      txn_file := (if r then None else txn_file w)\<rparr>)" for ks r
    using roll models by (auto simp: undoable_def rolling_def rolled_def)
  show ?thesis
    unfolding clear_swap_def
    by (intro act_rules) (use partly roll models in \<open>auto simp: undoable_def without_swap_dir_def\<close>)
qed

lemma restore_and_prove_safe:
  assumes fits: "batch_fits M0 ms" and w: "rolling M0 ms w"
  shows "safe (restore_and_prove engine ms) (\<lambda>_ w. txn_file w = None \<and> models_of w = M0) (undoable M0 ms) w"
proof -
  have undoable: "undoable M0 ms v" if "rolling M0 ms v" for v
    using that by (simp add: undoable_def)
  have rolling: "rolling M0 ms v" if "removing M0 ms S v" for S v
    using that by (simp add: removing_def restoring_def)
  have load: "safe (if engine \<and> replaced_names ms \<noteq> []
          then proven_call Load (map (\<lambda>n. (n, LOADED_FRESH)) (replaced_names ms))
          else ret ()) (\<lambda>_. removing M0 ms (fresh_models ms)) (removing M0 ms (fresh_models ms)) w"
    if "removing M0 ms (fresh_models ms) w" for w
    by (intro safe_if removing.proven_call_keeps safe_ret that)
  show ?thesis
    unfolding restore_and_prove_def
    by (intro safe_seq safe_mono[OF restore_swapped_safe[OF w]]
          safe_mono[OF remove_recorded_installs_safe[OF fits]] safe_mono[OF load]
          clear_swap_safe[OF fits])
       (auto intro: undoable rolling)
qed

section \<open>Recovery\<close>

lemma safe_pending_none:
  assumes "txn_file w = None"
    and "\<And>ks r. P (w\<lparr>parked_of := (\<lambda>k. if k \<in> set ks then None else parked_of w k),
                     txn_file := (if r then None else txn_file w)\<rparr>)"
    and "P w" "P (without_swap_dir w)" "\<And>w. P w \<Longrightarrow> Q None w" "\<And>w. P w \<Longrightarrow> E w"
  shows "safe pending_swap Q E w"
proof -
  have sweep: "safe (if there then attempt remove_swap_dir else ret (Ok ())) (\<lambda>_. P) E w" for there
    by (intro act_rules allI assms(2-4))
  have "safe (seq (if there then attempt remove_swap_dir else ret (Ok ())) (\<lambda>_. ret None)) Q E w" for there
    by (intro safe_seq safe_mono[OF sweep] safe_ret assms(5))
  then show ?thesis
    unfolding pending_swap_def using assms(1) assms(6)[OF assms(3)]
    by (intro safe_seq safe_stat) (simp_all add: safe_seq safe_gets)
qed

lemma safe_pending_recorded:
  assumes "txn_file w = Some (Recorded phase ms)" "Q (Some (ms, phase)) w" "E w"
  shows "safe pending_swap Q E w"
  unfolding pending_swap_def using assms by (intro safe_seq safe_stat) (auto intro!: act_rules)

lemma safe_discard:
  assumes "\<And>ks r. P (w\<lparr>parked_of := (\<lambda>k. if k \<in> set ks then None else parked_of w k),
                       txn_file := (if r then None else txn_file w)\<rparr>)"
    and "P w" "P (without_swap_dir w)"
  shows "safe discard_swap (\<lambda>_. P) E w"
  unfolding discard_swap_def by (intro act_rules allI assms)

definition rolled_back :: "(mkey \<Rightarrow> string option) \<Rightarrow> world \<Rightarrow> bool" where
  "rolled_back M0 w \<longleftrightarrow> txn_file w = None \<and> models_of w = M0"

lemma recover_undoable:
  assumes fits: "batch_fits M0 ms" and w: "undoable M0 ms w"
  shows "safe (recover_pending_swap engine) (\<lambda>_. rolled_back M0) (undoable M0 ms) w"
proof (cases "txn_file w = None")
  case True
  then have "rolled_back M0 w" using w by (auto simp: undoable_def rolling_def rolled_back_def)
  then show ?thesis
    unfolding recover_pending_swap_def
    by (intro safe_seq safe_pending_none[where P = "rolled_back M0"])
       (auto simp: rolled_back_def undoable_def without_swap_dir_def intro!: safe_ret)
next
  case False
  then have roll: "rolling M0 ms w" using w by (auto simp: undoable_def)
  have settle: "safe (seq (quiesce engine (names ms)) (\<lambda>_. restore_and_prove engine ms))
      (\<lambda>_. rolled_back M0) (undoable M0 ms) w"
    by (intro safe_seq safe_mono[OF rolling.quiesce_keeps[OF roll]])
       (auto simp: undoable_def rolled_back_def intro!: safe_mono[OF restore_and_prove_safe[OF fits]])
  show ?thesis
    unfolding recover_pending_swap_def
    by (intro safe_seq safe_pending_recorded[where phase = Swapping and ms = ms])
       (use roll settle w in \<open>auto simp: rolling_def\<close>)
qed

lemma recover_committed:
  assumes w: "committed M1 ms ex w"
  shows "safe (recover_pending_swap engine) (\<lambda>_. committed M1 ms ex) (committed M1 ms ex) w"
proof -
  have partly: "committed M1 ms ex (w\<lparr>parked_of := (\<lambda>k. if k \<in> set ks then None else parked_of w k),
      txn_file := (if r then None else txn_file w)\<rparr>)" for ks r
    using w by (auto simp: committed_def proven_def)
  have gone: "committed M1 ms ex (without_swap_dir w)"
    using w by (auto simp: committed_def proven_def without_swap_dir_def)
  show ?thesis
  proof (cases "txn_file w = None")
    case True
    then show ?thesis
      unfolding recover_pending_swap_def
      by (intro safe_seq safe_pending_none[where P = "committed M1 ms ex"]) 
         (use partly gone w in \<open>auto intro!: safe_ret\<close>)
  next
    case False
    then show ?thesis
      unfolding recover_pending_swap_def
      by (intro safe_seq safe_pending_recorded[where phase = Confirmed and ms = ms])
         (use partly gone w in \<open>auto simp: committed_def intro!: safe_discard\<close>)
  qed
qed

section \<open>Moving a batch into place\<close>

definition overlay ::
  "(mkey \<Rightarrow> string option) \<Rightarrow> (nat \<Rightarrow> string option) \<Rightarrow> work_item list \<Rightarrow> mkey \<Rightarrow> string option" where
  "overlay M0 stg items = fold (\<lambda>i M. M(item_key i := stg (wi_staged i))) items M0"

definition moved ::
  "(mkey \<Rightarrow> string option) \<Rightarrow> (nat \<Rightarrow> string option) \<Rightarrow> work_item list \<Rightarrow> work_item list \<Rightarrow> work_item list \<Rightarrow> world \<Rightarrow> bool" where
  "moved M0 stg items landed rest w \<longleftrightarrow>
     rolling M0 (map swap_model_of items) w \<and> models_of w = overlay M0 stg landed \<and>
     (\<forall>i \<in> set rest. staging_of w (wi_staged i) = stg (wi_staged i))"

interpretation moved: call_property "moved M0 stg items landed rest" for M0 stg items landed rest
  by unfold_locales (simp add: moved_def rolling.frame_calls)

lemma overlay_snoc: "overlay M0 stg (is @ [i]) = (overlay M0 stg is)(item_key i := stg (wi_staged i))"
  by (simp add: overlay_def)

lemma model_key_swap_model_of [simp]: "model_key (swap_model_of i) = item_key i"
  by (simp add: model_key_def swap_model_of_def item_key_def)

lemma item_key_in_batch:
  assumes "i \<in> set items"
  shows "item_key i \<in> model_key ` set (map swap_model_of items)"
    and "wi_upgrade i \<Longrightarrow> item_key i \<in> replace_keys (map swap_model_of items)"
    and "batch_fits M0 (map swap_model_of items) \<Longrightarrow> \<not> wi_upgrade i \<Longrightarrow>
           item_key i \<notin> replace_keys (map swap_model_of items)"
proof -
  show "item_key i \<in> model_key ` set (map swap_model_of items)"
    using assms by (force simp: image_image)
  show "item_key i \<in> replace_keys (map swap_model_of items)" if "wi_upgrade i"
    using assms that unfolding replace_keys_def
    by (intro image_eqI[of _ _ "swap_model_of i"]) (auto simp: swap_model_of_def item_key_def model_key_def)
  show "item_key i \<notin> replace_keys (map swap_model_of items)"
    if "batch_fits M0 (map swap_model_of items)" "\<not> wi_upgrade i"
  proof -
    have "swap_model_of i \<in> set (map swap_model_of items)" "sm_role (swap_model_of i) = Install"
      using assms that(2) by (auto simp: swap_model_of_def)
    from batch_fits_install(2)[OF that(1) this] show ?thesis by simp
  qed
qed

lemma rolling_park:
  assumes "rolling M0 ms w" "k \<in> replace_keys ms" "parked_of w k = None" "models_of w k = Some t" "M0 k \<noteq> None"
    and "models_of w' = (models_of w)(k := v)" "parked_of w' = (parked_of w)(k := Some t)"
    and "txn_file w' = txn_file w" "swap_there w'"
  shows "rolling M0 ms w'"
proof -
  have "k \<in> model_key ` set ms" "M0 k = Some t"
    using assms(1-5) by (fastforce simp: rolling_def rolled_def replace_keys_def)+
  with assms show ?thesis by (auto simp: rolling_def rolled_def)
qed

lemma rolling_same:
  assumes "rolling M0 ms w" "models_of w' = models_of w" "parked_of w' = parked_of w" "txn_file w' = txn_file w"
    and "swap_there w'"
  shows "rolling M0 ms w'"
  using assms by (simp add: rolling_def rolled_def)

lemma moved_step:
  assumes "moved M0 stg items landed (i # rest) w" "distinct (map wi_staged (i # rest))"
    and "staging_of w (wi_staged i) = Some t" "models_of w' = (models_of w)(item_key i := Some t)"
    and "staging_of w' = (staging_of w)(wi_staged i := None)" "rolling M0 (map swap_model_of items) w'"
  shows "moved M0 stg items (landed @ [i]) rest w'"
proof -
  have "wi_staged j \<noteq> wi_staged i" if "j \<in> set rest" for j
    using assms(2) that by (metis distinct.simps(2) image_eqI list.simps(9) set_map)
  with assms show ?thesis by (auto simp: moved_def overlay_snoc)
qed

lemma swap_in_safe:
  assumes start: "moved M0 stg items landed (i # rest) w" and i: "i \<in> set items" "wi_upgrade i"
    and fits: "batch_fits M0 (map swap_model_of items)" and staged: "distinct (map wi_staged (i # rest))"
  shows "safe (swap_in (wi_staged i) (item_key i)) (\<lambda>_. moved M0 stg items (landed @ [i]) rest)
           (rolling M0 (map swap_model_of items)) w"
proof -
  let ?ms = "map swap_model_of items" and ?k = "item_key i"
  have k: "?k \<in> replace_keys ?ms" by (rule item_key_in_batch(2)[OF i])
  have roll: "rolling M0 ?ms w" "swap_there w" using start by (simp_all add: moved_def rolling_def)
  note parked = rolling_park[OF roll(1) k _ _ batch_fits_replace[OF fits k]]
  have landed: "moved M0 stg items (landed @ [i]) rest w'"
    if "models_of w ?k = Some t" "parked_of w ?k = None" "staging_of w (wi_staged i) = Some t'"
      "models_of w' = (models_of w)(?k := Some t')" "parked_of w' = (parked_of w)(?k := Some t)"
      "staging_of w' = (staging_of w)(wi_staged i := None)" "txn_file w' = txn_file w" "swap_there w'" for w' t t'
    by (rule moved_step[OF start staged that(3,4,6) parked[OF that(2,1,4,5,7,8)]])
  have reverted: "rolling M0 ?ms w'"
    if "models_of w' = models_of w" "parked_of w' = (parked_of w)(?k := None)" "parked_of w ?k = None"
      "txn_file w' = txn_file w" "swap_there w'" for w'
    by (rule rolling_same[OF roll(1) that(1) _ that(4,5)]) (simp add: that(2,3) fun_upd_idem)
  show ?thesis
    unfolding swap_in_def
    by (intro act_rules allI)
       (auto split: option.splits if_splits simp: fun_upd_idem
                simp: rolling.frame_swap_there[OF roll(1)]
             intro!: act_rules roll intro: landed parked reverted)
qed

lemma install_staged_safe:
  assumes start: "moved M0 stg items landed (i # rest) w" and i: "i \<in> set items" "\<not> wi_upgrade i"
    and fits: "batch_fits M0 (map swap_model_of items)" and staged: "distinct (map wi_staged (i # rest))"
  shows "safe (install_staged (wi_staged i) (item_key i)) (\<lambda>_. moved M0 stg items (landed @ [i]) rest)
           (rolling M0 (map swap_model_of items)) w"
proof -
  let ?ms = "map swap_model_of items" and ?k = "item_key i"
  have roll: "rolling M0 ?ms w" "swap_there w" using start by (simp_all add: moved_def rolling_def)
  have placed: "rolling M0 ?ms w'"
    if "models_of w' = (models_of w)(?k := v)" "parked_of w' = parked_of w" "txn_file w' = txn_file w"
      "swap_there w'" for w' v
    by (rule rolling_same[OF rolling_vacate[OF roll(1) item_key_in_batch(1)[OF i(1)], of v]])
       (use that item_key_in_batch(3)[OF i(1) fits i(2)] in auto)
  have landed: "moved M0 stg items (landed @ [i]) rest w'"
    if "staging_of w (wi_staged i) = Some t" "models_of w' = (models_of w)(?k := Some t)"
      "parked_of w' = parked_of w" "txn_file w' = txn_file w"
      "staging_of w' = (staging_of w)(wi_staged i := None)" "swap_there w'" for w' t
    by (rule moved_step[OF start staged that(1,2,5) placed[OF that(2-4,6)]])
  show ?thesis
    unfolding install_staged_def
    by (intro act_rules allI)
       (auto split: option.splits if_splits simp: rolling.frame_backends
             intro!: act_rules roll intro: landed placed)
qed

lemma move_items_safe:
  assumes fits: "batch_fits M0 (map swap_model_of items)"
    and "moved M0 stg items landed rest w" "set rest \<subseteq> set items" "distinct (map wi_staged rest)"
  shows "safe (move_items rest) (\<lambda>_. moved M0 stg items (landed @ rest) [])
           (rolling M0 (map swap_model_of items)) w"
  using assms(2-)
proof (induction rest arbitrary: landed w)
  case (Cons i rest)
  let ?E = "rolling M0 (map swap_model_of items)"
  have move: "safe (move_item i) (\<lambda>_. moved M0 stg items (landed @ [i]) rest) ?E w"
    unfolding move_item_def using Cons.prems
    by (auto intro!: act_rules swap_in_safe install_staged_safe fits)
  have next_items: "safe (move_items rest) (\<lambda>_. moved M0 stg items (landed @ i # rest) []) ?E v"
    if "moved M0 stg items (landed @ [i]) rest v" for v
    using Cons.IH[OF that] Cons.prems(2,3) by simp
  have stop: "safe (seq (attempt (remove_staged (wi_staged i))) (\<lambda>_. fail e))
      (\<lambda>_. moved M0 stg items (landed @ i # rest) []) ?E v" if "?E v" for v e
    by (intro safe_seq safe_mono[OF rolling.remove_staged_keeps[OF that]] safe_fail) auto
  show ?case
    by (simp, intro safe_seq safe_attempt safe_mono[OF move] allI) (auto intro: next_items stop)
qed (auto intro: act_rules)

definition idle_root :: "world \<Rightarrow> bool" where
  "idle_root w \<longleftrightarrow> txn_file w = None \<and> parked_of w = (\<lambda>_. None)"

lemma begin_swap_safe:
  assumes w: "idle_root w"
  shows "safe (begin_swap (map swap_model_of items))
           (\<lambda>_. moved (models_of w) (staging_of w) items [] items)
           (undoable (models_of w) (map swap_model_of items)) w"
proof -
  let ?ms = "map swap_model_of items"
  have before: "undoable (models_of w) ?ms (w\<lparr>swap_there := a, txn_tmp := b\<rparr>)" for a b
    using w by (simp add: undoable_def idle_root_def)
  have after: "moved (models_of w) (staging_of w) items [] items
      (w\<lparr>swap_there := True, txn_tmp := b, txn_file := Some (Recorded Swapping ?ms)\<rparr>)" for b
    using w by (auto simp: moved_def rolling_def rolled_def overlay_def idle_root_def)
  have weaken: "undoable (models_of w) ?ms v" if "moved (models_of w) (staging_of w) items [] items v" for v
    using that by (simp add: moved_def undoable_def)
  have before0: "undoable (models_of w) ?ms w" "undoable (models_of w) ?ms (w\<lparr>swap_there := True\<rparr>)"
    using w by (simp_all add: undoable_def idle_root_def)
  show ?thesis
    unfolding begin_swap_def
    by (intro act_rules safe_write_swap_record) (use before before0 after weaken[OF after] in auto)
qed

lemma undo_safe:
  assumes fits: "batch_fits M0 ms" and w: "rolling M0 ms w"
  shows "safe (undo engine ms cause) (\<lambda>_ _. False) (undoable M0 ms) w"
proof -
  have undoable: "undoable M0 ms v" if "rolling M0 ms v" for v
    using that by (simp add: undoable_def)
  show ?thesis
    unfolding undo_def
    by (intro safe_if safe_seq safe_attempt safe_mono[OF rolling.quiesce_keeps[OF w]])
       (use w in \<open>auto simp: undoable_def
             intro!: safe_seq safe_attempt safe_fail safe_mono[OF restore_and_prove_safe[OF fits]]\<close>)
qed

definition confirmed :: "world \<Rightarrow> bool" where
  "confirmed w \<longleftrightarrow> (case txn_file w of Some (Recorded Confirmed _) \<Rightarrow> True | _ \<Rightarrow> False)"

lemma confirm_swap_safe:
  assumes w: "rolling M0 ms w" "models_of w = M1" "ex \<noteq> [] \<longrightarrow> proven Load ex w"
  shows "safe (confirm_swap ms) (\<lambda>_. committed M1 ms ex) (\<lambda>w. undoable M0 ms w \<or> committed M1 ms ex w \<and> confirmed w) w"
proof -
  have before: "undoable M0 ms (w\<lparr>txn_tmp := b\<rparr>)" for b
    using w(1) by (simp add: undoable_def rolling.frames)
  have after: "committed M1 ms ex (w\<lparr>txn_tmp := b, txn_file := Some (Recorded Confirmed ms)\<rparr>)" for b
    using w by (simp add: committed_def proven_def)
  have noted: "confirmed (w\<lparr>txn_tmp := b, txn_file := Some (Recorded Confirmed ms)\<rparr>)" for b
    by (simp add: confirmed_def)
  have discard: "safe discard_swap (\<lambda>_. committed M1 ms ex) E v" if "committed M1 ms ex v" for v E
    by (rule safe_discard) (use that in \<open>auto simp: committed_def proven_def without_swap_dir_def\<close>)
  show ?thesis
    unfolding confirm_swap_def
    by (intro safe_seq safe_write_swap_record) (auto intro: before after noted discard)
qed

definition required_loads :: "bool \<Rightarrow> work_item list \<Rightarrow> string list \<Rightarrow> (string \<times> string list) list" where
  "required_loads engine items to_activate = (if engine then expected_loads items to_activate else [])"

lemma attempt_ret: "seq (attempt (ret x)) f = f (Ok x)"
  by (intro ext) (simp add: seq_def attempt_def ret_def)

lemma apply_batch_empty_safe:
  assumes "idle_root w"
  shows "safe (apply_batch engine [] acts) (\<lambda>_. committed (models_of w) [] (required_loads engine [] acts))
           (undoable (models_of w) []) w"
proof -
  let ?ex = "required_loads engine [] acts"
  have start: "committed (models_of w) [] [] w"
    using assms by (simp add: committed_def idle_root_def)
  have rolled_back: "rolled_back (models_of w) w" using assms by (simp add: rolled_back_def idle_root_def)
  have keep: "call_property (rolled_back M)" for M
    by unfold_locales (simp add: rolled_back_def)
  have load: "safe (if engine \<and> acts \<noteq> [] then proven_call Load (expected_loads [] acts) else ret ())
      (\<lambda>_ v. rolled_back (models_of w) v \<and> (?ex \<noteq> [] \<longrightarrow> proven Load ?ex v)) (rolled_back (models_of w)) w"
    by (rule safe_if)
       (auto simp: required_loads_def expected_loads_def rolled_back
             intro!: safe_ret safe_mono[OF call_property.proven_call_proves[OF keep rolled_back]])
  have unfolded: "apply_batch engine [] acts =
      seq (attempt (if engine \<and> acts \<noteq> [] then proven_call Load (expected_loads [] acts) else ret ()))
        (\<lambda>r. case r of Inl e \<Rightarrow> undo engine [] e | Inr _ \<Rightarrow> ret ())"
    unfolding apply_batch_def Let_def quiesce_def
    by (simp only: list.map filter.simps attempt_ret sum.case move_items.simps simp_thms if_False if_True)
  show ?thesis
    unfolding unfolded
    by (intro safe_seq safe_attempt safe_mono[OF load])
       (auto simp: rolled_back_def committed_def undo_def undoable_def intro!: act_rules)
qed

lemma apply_batch_safe:
  assumes idle: "idle_root w" and fits: "batch_fits (models_of w) (map swap_model_of items)"
    and staged: "distinct (map wi_staged items)"
  shows "safe (apply_batch engine items acts)
           (\<lambda>_. committed (overlay (models_of w) (staging_of w) items) (map swap_model_of items)
                  (required_loads engine items acts))
           (\<lambda>v. undoable (models_of w) (map swap_model_of items) v \<or>
                committed (overlay (models_of w) (staging_of w) items) (map swap_model_of items)
                  (required_loads engine items acts) v \<and> confirmed v) w"
proof (cases "items = []")
  case True
  then show ?thesis
    using safe_mono[OF apply_batch_empty_safe[OF idle]] by (simp add: overlay_def)
next
  case False
  let ?M0 = "models_of w" and ?stg = "staging_of w" and ?ms = "map swap_model_of items"
    and ?ex = "required_loads engine items acts"
  let ?C = "committed (overlay ?M0 ?stg items) ?ms ?ex"
  let ?E = "\<lambda>v. undoable ?M0 ?ms v \<or> ?C v \<and> confirmed v"
  have undoable': "undoable ?M0 ?ms v" if "moved ?M0 ?stg items l r v" for l r v
    using that by (simp add: moved_def undoable_def)
  have give_up: "safe (seq (remove_all_staged items) (\<lambda>_. fail e)) (\<lambda>_. ?C) ?E v" if "undoable ?M0 ?ms v" for e v
    by (intro safe_seq safe_mono[OF undoable.remove_all_staged_keeps[OF that]] safe_fail) auto
  have undone: "safe (undo engine ?ms e) (\<lambda>_. ?C) ?E v" if "rolling ?M0 ?ms v" for e v
    by (rule safe_mono[OF undo_safe[OF fits that]]) auto
  have load: "safe (if engine \<and> acts \<noteq> [] then proven_call Load (expected_loads items acts) else ret ())
      (\<lambda>_ u. moved ?M0 ?stg items items [] u \<and> (?ex \<noteq> [] \<longrightarrow> proven Load ?ex u))
      (moved ?M0 ?stg items items []) v" if "moved ?M0 ?stg items items [] v" for v
    by (rule safe_if)
       (auto simp: required_loads_def expected_loads_def that
             intro!: safe_ret safe_mono[OF moved.proven_call_proves[OF that]])
  have loaded: "safe (seq (attempt (if engine \<and> acts \<noteq> [] then proven_call Load (expected_loads items acts) else ret ()))
      (\<lambda>r. case r of Inl e \<Rightarrow> undo engine ?ms e | Inr _ \<Rightarrow> if ?ms \<noteq> [] then confirm_swap ?ms else ret ()))
      (\<lambda>_. ?C) ?E v" if "moved ?M0 ?stg items items [] v" for v
    by (intro safe_seq safe_attempt safe_mono[OF load[OF that]])
       (use False in \<open>auto simp: moved_def intro!: undone confirm_swap_safe\<close>)
  have placed: "safe (seq (attempt (move_items items)) (\<lambda>r. case r of
        Inl e \<Rightarrow> undo engine ?ms e
      | Inr _ \<Rightarrow>
          seq (attempt (if engine \<and> acts \<noteq> [] then proven_call Load (expected_loads items acts) else ret ()))
            (\<lambda>r. case r of Inl e \<Rightarrow> undo engine ?ms e | Inr _ \<Rightarrow> if ?ms \<noteq> [] then confirm_swap ?ms else ret ())))
      (\<lambda>_. ?C) ?E v" if "moved ?M0 ?stg items [] items v" for v
    by (intro safe_seq safe_attempt safe_mono[OF move_items_safe[OF fits that subset_refl staged]])
       (simp_all only: append_Nil sum.case undone loaded simp_thms)
  have begun: "safe (if ?ms \<noteq> [] then begin_swap ?ms else ret ()) (\<lambda>_. moved ?M0 ?stg items [] items)
      (undoable ?M0 ?ms) w"
    using begin_swap_safe[OF idle, of items] False by simp
  show ?thesis
    unfolding apply_batch_def Let_def
  proof (intro safe_seq safe_attempt, rule safe_mono[OF begun], goal_cases)
    case (1 u v)
    then show ?case
      unfolding sum.case
      by (intro safe_seq safe_attempt safe_mono[OF moved.quiesce_keeps[OF 1]])
         (simp_all only: sum.case placed give_up undoable' simp_thms)
  qed (simp only: sum.case give_up simp_thms)
qed

section \<open>All or nothing\<close>

text \<open>Later commands that each try to settle the root, with their own engine, faults and replies.\<close>

fun recoveries :: "(bool \<times> env) list \<Rightarrow> world \<Rightarrow> world" where
  "recoveries [] w = w"
| "recoveries ((engine, env) # rs) w = recoveries rs (snd (snd (recover_pending_swap engine env w)))"

lemma recoveries_undoable:
  assumes "batch_fits M0 ms" "undoable M0 ms w"
  shows "undoable M0 ms (recoveries rs w)"
  using assms(2)
proof (induction rs w rule: recoveries.induct)
  case (2 engine env rs w)
  obtain r env' w' where run: "recover_pending_swap engine env w = (r, env', w')" by (rule prod_cases3)
  have "undoable M0 ms w'"
    using safeD[OF recover_undoable[OF assms(1) 2(2)] run]
    by (cases r) (auto simp: undoable_def rolled_back_def)
  with 2(1) run show ?case by simp
qed simp

lemma recoveries_committed:
  assumes "committed M1 ms ex w"
  shows "committed M1 ms ex (recoveries rs w)"
  using assms
proof (induction rs w rule: recoveries.induct)
  case (2 engine env rs w)
  obtain r env' w' where run: "recover_pending_swap engine env w = (r, env', w')" by (rule prod_cases3)
  have "committed M1 ms ex w'"
    using safeD[OF recover_committed[OF 2(2)] run] by (cases r) simp_all
  with 2(1) run show ?case by simp
qed simp

lemma batch_outcome:
  assumes "idle_root w" "batch_fits (models_of w) (map swap_model_of items)" "distinct (map wi_staged items)"
    and run: "apply_batch engine items acts env w = (r, env1, w1)"
  shows "if r = Ok () \<or> confirmed w1
         then committed (overlay (models_of w) (staging_of w) items) (map swap_model_of items)
                (required_loads engine items acts) w1
         else undoable (models_of w) (map swap_model_of items) w1"
proof -
  have undone: "\<not> confirmed v" if "undoable M0 ms v" for M0 ms v
    using that by (auto simp: confirmed_def undoable_def rolling_def)
  show ?thesis
    using safeD[OF apply_batch_safe[OF assms(1-3)] run] undone by (cases r) auto
qed

text \<open>
  C2. A pull is all or nothing. It starts from a root without a transaction record and without parked
  models, which is what the recovery that every pull runs first leaves behind when none of its calls
  fails; the batch names each model once, replaces exactly the installed ones, and its staged trees are
  distinct. Whatever system calls fail and wherever the command is killed,
  whatever the engine answers, and however often later recoveries fail or are killed in turn: once a
  recovery reports success, the installed models are exactly the new ones if the pull succeeded or had
  written its confirmation, and exactly the ones before the pull otherwise; and no unconfirmed
  transaction is left.
\<close>
theorem interrupted_pull_all_or_nothing:
  assumes "idle_root w" "batch_fits (models_of w) (map swap_model_of items)" "distinct (map wi_staged items)"
    and run: "apply_batch engine items acts env w = (r, env1, w1)"
    and settled: "recover_pending_swap engine' env2 (recoveries rs w1) = (Ok (), env3, w3)"
  shows "models_of w3 =
           (if r = Ok () \<or> confirmed w1 then overlay (models_of w) (staging_of w) items else models_of w) \<and>
         (txn_file w3 = None \<or> confirmed w3)"
proof (cases "r = Ok () \<or> confirmed w1")
  case True
  then have "committed (overlay (models_of w) (staging_of w) items) (map swap_model_of items)
      (required_loads engine items acts) w1"
    using batch_outcome[OF assms(1-3) run] by simp
  from safeD[OF recover_committed[OF recoveries_committed[OF this]] settled] True show ?thesis
    by (auto simp: committed_def confirmed_def)
next
  case False
  then have "undoable (models_of w) (map swap_model_of items) w1"
    using batch_outcome[OF assms(1-3) run] by simp
  from safeD[OF recover_undoable[OF assms(2) recoveries_undoable[OF assms(2) this]] settled] False
  show ?thesis by (auto simp: rolled_back_def)
qed

section \<open>Recovery gets through\<close>

text \<open>Without faults an action reaches \<open>Q\<close>; the engine's replies are left alone.\<close>

definition runs :: "'a act \<Rightarrow> ('a \<Rightarrow> world \<Rightarrow> bool) \<Rightarrow> world \<Rightarrow> bool" where
  "runs m Q w \<longleftrightarrow> (\<forall>rs. \<exists>x w'. m ([], rs) w = (Ok x, ([], rs), w') \<and> Q x w')"

named_theorems run_rules "rules for fault-free runs"

lemma runs_ret [run_rules]: "Q x w \<Longrightarrow> runs (ret x) Q w"
  by (simp add: runs_def ret_def)

lemma runs_gets [run_rules]: "Q (q w) w \<Longrightarrow> runs (gets q) Q w"
  by (simp add: runs_def gets_def)

lemma runs_stat [run_rules]: "Q (q w) w \<Longrightarrow> runs (stat e q) Q w"
  by (simp add: runs_def stat_def)

lemma runs_sys [run_rules]:
  assumes "eff w \<noteq> None" "\<And>w'. eff w = Some w' \<Longrightarrow> Q () w'"
  shows "runs (sys e eff) Q w"
  using assms by (auto simp: runs_def sys_def)

lemma runs_seq [run_rules]: "runs m (\<lambda>x. runs (f x) Q) w \<Longrightarrow> runs (seq m f) Q w"
  unfolding runs_def seq_def
proof
  fix rs assume run: "\<forall>rs. \<exists>x w'. m ([], rs) w = (Ok x, ([], rs), w') \<and>
      (\<forall>rs. \<exists>y w''. f x ([], rs) w' = (Ok y, ([], rs), w'') \<and> Q y w'')"
  obtain x w' where m: "m ([], rs) w = (Ok x, ([], rs), w')"
    and f: "\<forall>rs. \<exists>y w''. f x ([], rs) w' = (Ok y, ([], rs), w'') \<and> Q y w''"
    using run by blast
  show "\<exists>x w'. (case m ([], rs) w of (Inl e, env, w) \<Rightarrow> (Err e, env, w) | (Inr x, env, w) \<Rightarrow> f x env w) =
      (Ok x, ([], rs), w') \<and> Q x w'"
    using f[rule_format, of rs] by (simp add: m)
qed

lemma runs_attempt [run_rules]:
  assumes "runs m (\<lambda>x. Q (Ok x)) w"
  shows "runs (attempt m) Q w"
  unfolding runs_def attempt_def
proof
  fix rs
  obtain x w' where "m ([], rs) w = (Ok x, ([], rs), w')" "Q (Ok x) w'"
    using assms unfolding runs_def by blast
  then show "\<exists>x w'. (case m ([], rs) w of (r, env, w) \<Rightarrow> (Ok r, env, w)) = (Ok x, ([], rs), w') \<and> Q x w'"
    by simp
qed

lemma runs_if [run_rules]: "(c \<Longrightarrow> runs m Q w) \<Longrightarrow> (\<not> c \<Longrightarrow> runs m' Q w) \<Longrightarrow> runs (if c then m else m') Q w"
  by simp

lemma runs_fsync_dir [run_rules]: "Q () w \<Longrightarrow> runs fsync_dir Q w"
  unfolding fsync_dir_def by (rule runs_sys) simp_all

lemma runs_create [run_rules]: "Q () (upd w) \<Longrightarrow> runs (create_dir_all_checked upd) Q w"
  unfolding create_dir_all_checked_def by (rule runs_sys) simp_all

lemma runs_remove_swap_dir [run_rules]:
  "swap_there w \<Longrightarrow> Q () (without_swap_dir w) \<Longrightarrow> runs remove_swap_dir Q w"
  by (simp add: runs_def remove_swap_dir_def)

lemma runs_mono: "runs m Q w \<Longrightarrow> (\<And>x w. Q x w \<Longrightarrow> Q' x w) \<Longrightarrow> runs m Q' w"
  unfolding runs_def by metis

lemma runs_collect:
  assumes "\<And>x w. x \<in> set xs \<Longrightarrow> I w \<Longrightarrow> runs (f x) (\<lambda>_. I) w" "I w"
  shows "runs (collect f xs) (\<lambda>ps w. ps = [] \<and> I w) w"
  using assms
proof (induction xs arbitrary: w)
  case (Cons x xs)
  have rest: "runs (collect f xs) (\<lambda>ps w. ps = [] \<and> I w) v" if "I v" for v
    by (rule Cons.IH[OF Cons.prems(1)]) (use that in auto)
  show ?case
    unfolding collect.simps
    by (intro runs_seq runs_attempt runs_mono[OF Cons.prems(1)] runs_mono[OF rest] runs_ret)
       (use Cons.prems(2) in auto)
qed (auto intro: run_rules)

lemma runs_retire [run_rules]:
  assumes "models_of w k \<noteq> None" "\<And>g v. swap_there v = swap_there w \<Longrightarrow> parked_of v = parked_of w \<Longrightarrow> models_of v k = None \<Longrightarrow> Q g v"
  shows "runs (retire_to_trash k) Q w"
  unfolding retire_to_trash_def using assms by (auto intro!: run_rules)

lemma restore_one_runs: "swap_there w \<Longrightarrow> runs (restore_one m) (\<lambda>_ w. swap_there w) w"
  unfolding restore_one_def Let_def purge_retired_def
  by (intro run_rules) (auto intro!: run_rules)

lemma remove_one_runs: "swap_there w \<Longrightarrow> runs (remove_one m) (\<lambda>_ w. swap_there w) w"
  unfolding remove_one_def remove_installed_def purge_retired_def
  by (intro run_rules) (auto intro!: run_rules)

lemma restore_and_prove_runs: "swap_there w \<Longrightarrow> runs (restore_and_prove False ms) (\<lambda>_ _. True) w"
  unfolding restore_and_prove_def restore_swapped_def remove_recorded_installs_def clear_swap_def
  by (intro runs_seq runs_mono[OF runs_collect[where I = swap_there]] restore_one_runs remove_one_runs)
     (auto intro!: run_rules runs_mono[OF runs_collect[where I = swap_there]] remove_one_runs)

lemma recover_runs:
  assumes w: "undoable M0 ms w" and named: "recorded_names_ok ms"
  shows "runs (recover_pending_swap False) (\<lambda>_ _. True) w"
proof (cases "txn_file w = None")
  case True
  then show ?thesis
    unfolding recover_pending_swap_def pending_swap_def
    by (intro run_rules) (auto intro!: run_rules)
next
  case False
  then have roll: "txn_file w = Some (Recorded Swapping ms)" "swap_there w"
    using w by (auto simp: undoable_def rolling_def)
  have "runs pending_swap (\<lambda>p v. p = Some (ms, Swapping) \<and> v = w) w"
    unfolding pending_swap_def using roll named by (intro run_rules) (auto intro!: run_rules)
  then show ?thesis
    unfolding recover_pending_swap_def
    by (intro runs_seq, elim runs_mono)
       (auto simp: quiesce_def roll intro!: run_rules restore_and_prove_runs)
qed

lemma runs_discard: "runs discard_swap (\<lambda>_ _. True) w"
  by (simp add: runs_def discard_swap_def seq_def attempt_def remove_swap_dir_def ret_def)

lemma recover_runs_committed:
  assumes w: "committed M1 ms ex w" and named: "recorded_names_ok ms"
  shows "runs (recover_pending_swap False) (\<lambda>_ _. True) w"
proof (cases "txn_file w = None")
  case True
  then show ?thesis
    unfolding recover_pending_swap_def pending_swap_def
    by (intro run_rules) (auto intro!: run_rules)
next
  case False
  then have "runs pending_swap (\<lambda>p v. p = Some (ms, Confirmed)) w"
    unfolding pending_swap_def using w named by (intro run_rules) (auto simp: committed_def intro!: run_rules)
  then show ?thesis
    unfolding recover_pending_swap_def
    by (intro runs_seq, elim runs_mono) (auto intro!: runs_discard)
qed

text \<open>
  C32. Recovery cannot get stuck: however a pull and any number of recoveries ended, a recovery that
  meets no further fault and no engine (the offline \<open>--path\<close> form) returns successfully, provided the
  names of the batch are valid model names.
\<close>
theorem faultless_recovery_settles:
  assumes "idle_root w" "batch_fits (models_of w) (map swap_model_of items)" "distinct (map wi_staged items)"
    and named: "recorded_names_ok (map swap_model_of items)"
    and run: "apply_batch engine items acts env w = (r, env1, w1)"
  shows "fst (recover_pending_swap False ([], replies) (recoveries rs w1)) = Ok ()"
proof -
  have "runs (recover_pending_swap False) (\<lambda>_ _. True) (recoveries rs w1)"
  proof (cases "r = Ok () \<or> confirmed w1")
    case True
    then show ?thesis
      using batch_outcome[OF assms(1-3) run] recover_runs_committed[OF recoveries_committed named] by simp
  next
    case False
    then show ?thesis
      using batch_outcome[OF assms(1-3) run] recover_runs[OF recoveries_undoable[OF assms(2)] named] by simp
  qed
  then obtain x w' where "recover_pending_swap False ([], replies) (recoveries rs w1) = (Ok x, ([], replies), w')"
    unfolding runs_def by blast
  then show ?thesis by simp
qed

section \<open>What a clean set of outcomes proves\<close>

definition answers_exactly :: "(string \<times> string list) list \<Rightarrow> admin_outcome list \<Rightarrow> bool" where
  "answers_exactly expected outcomes \<longleftrightarrow>
     list_all (\<lambda>oc. ao_model oc \<in> set (map fst expected)) outcomes \<and>
     list_all (\<lambda>(n, accepted). \<exists>oc. filter (\<lambda>oc. ao_model oc = n) outcomes = [oc] \<and> ao_status oc \<in> set accepted)
       expected"

lemma find_SomeD: "find P xs = Some x \<Longrightarrow> x \<in> set xs \<and> P x"
  by (induction xs) (auto split: if_splits)

lemma find_by_name:
  assumes "distinct (map fst expected)" "(n, accepted) \<in> set expected"
  shows "find (\<lambda>(n', _). n' = n) expected = Some (n, accepted)"
  using assms by (induction expected) (auto split: prod.splits, force)

lemma verify_outcomes_iff:
  assumes "distinct (map fst expected)"
  shows "verify_outcomes expected outcomes = Ok () \<longleftrightarrow> answers_exactly expected outcomes"
proof -
  have check: "check_outcome expected oc = Ok () \<longleftrightarrow>
      (\<exists>accepted. (ao_model oc, accepted) \<in> set expected \<and> ao_status oc \<in> set accepted)" for oc
  proof (cases "find (\<lambda>(n, _). n = ao_model oc) expected")
    case None
    then have "\<not> (\<exists>acc. (ao_model oc, acc) \<in> set expected)" by (auto simp: find_None_iff)
    with None show ?thesis by (auto simp: check_outcome_def)
  next
    case (Some p)
    then obtain acc where p: "p = (ao_model oc, acc)" "(ao_model oc, acc) \<in> set expected"
      using find_SomeD[OF Some] by (cases p) auto
    have "acc' = acc" if "(ao_model oc, acc') \<in> set expected" for acc'
      using trans[OF Some[symmetric] find_by_name[OF assms that]] p(1) by simp
    then have "(\<exists>acc'. (ao_model oc, acc') \<in> set expected \<and> ao_status oc \<in> set acc') \<longleftrightarrow> ao_status oc \<in> set acc"
      using p(2) by blast
    then show ?thesis by (simp add: check_outcome_def Some p(1))
  qed
  have count: "check_count outcomes (n, acc) = Ok () \<longleftrightarrow> (\<exists>oc. filter (\<lambda>oc. ao_model oc = n) outcomes = [oc])" for n acc
    by (auto simp: check_count_def Let_def length_Suc_conv)
  have "verify_outcomes expected outcomes = Ok () \<longleftrightarrow>
      (\<forall>oc \<in> set outcomes. check_outcome expected oc = Ok ()) \<and> (\<forall>p \<in> set expected. check_count outcomes p = Ok ())"
    by (simp add: verify_outcomes_def)
  also have "\<dots> \<longleftrightarrow> answers_exactly expected outcomes" (is "?L = _")
  proof
    assume L: ?L
    show "answers_exactly expected outcomes"
      unfolding answers_exactly_def list_all_iff
    proof (intro conjI ballI)
      fix oc assume "oc \<in> set outcomes"
      with L show "ao_model oc \<in> set (map fst expected)" by (force simp: check)
    next
      fix p assume p: "p \<in> set expected"
      obtain n acc where na: "p = (n, acc)" by (cases p)
      obtain oc where one: "filter (\<lambda>oc. ao_model oc = n) outcomes = [oc]"
        using L p na count by blast
      then have "oc \<in> set (filter (\<lambda>oc. ao_model oc = n) outcomes)" by simp
      then have oc: "oc \<in> set outcomes" "ao_model oc = n" by simp_all
      then obtain acc' where "(n, acc') \<in> set expected" "ao_status oc \<in> set acc'"
        using L check by auto
      moreover have "acc' = acc"
        using trans[OF find_by_name[OF assms p[unfolded na], symmetric] find_by_name[OF assms calculation(1)]] by simp
      ultimately show "case p of (n, accepted) \<Rightarrow>
          \<exists>oc. filter (\<lambda>oc. ao_model oc = n) outcomes = [oc] \<and> ao_status oc \<in> set accepted"
        using one na by auto
    qed
  next
    assume R: "answers_exactly expected outcomes"
    show ?L
    proof (intro conjI ballI)
      fix oc assume oc: "oc \<in> set outcomes"
      then obtain acc where acc: "(ao_model oc, acc) \<in> set expected"
        using R by (auto simp: answers_exactly_def list_all_iff)
      then obtain oc' where one: "filter (\<lambda>x. ao_model x = ao_model oc) outcomes = [oc']" "ao_status oc' \<in> set acc"
        using R by (fastforce simp: answers_exactly_def list_all_iff)
      have "oc \<in> set (filter (\<lambda>x. ao_model x = ao_model oc) outcomes)" using oc by simp
      then have "oc = oc'" using one(1) by simp
      with acc one(2) show "check_outcome expected oc = Ok ()" unfolding check by blast
    next
      fix p assume "p \<in> set expected"
      with R show "check_count outcomes p = Ok ()"
        by (cases p) (fastforce simp: answers_exactly_def list_all_iff count)
    qed
  qed
  finally show ?thesis .
qed

lemma expected_loads_fst: "map fst (expected_loads items acts) = acts"
  by (simp add: expected_loads_def Let_def comp_def)

text \<open>
  A pull with an engine succeeds, or leaves a confirmation behind, only if one load request for
  exactly the models to activate was answered, with exactly one result for each of them and none for
  any other model: \<open>loaded\<close> for a replaced model, \<open>loaded\<close> or \<open>already-loaded\<close> for a fresh one.
\<close>
theorem pull_confirms_only_proven_loads:
  assumes "idle_root w" "batch_fits (models_of w) (map swap_model_of items)" "distinct (map wi_staged items)"
    and "distinct acts" "acts \<noteq> []"
    and run: "apply_batch True items acts env w = (r, env1, w1)"
    and "r = Ok () \<or> confirmed w1"
  shows "\<exists>outcomes. (Load, acts, Answered outcomes) \<in> set (calls w1) \<and>
           answers_exactly (expected_loads items acts) outcomes"
proof -
  have "expected_loads items acts \<noteq> []"
    using assms(5) by (simp add: expected_loads_def Let_def)
  then have "proven Load (expected_loads items acts) w1"
    using batch_outcome[OF assms(1-3) run] assms(7) by (simp add: committed_def required_loads_def)
  then obtain outcomes where "(Load, acts, Answered outcomes) \<in> set (calls w1)"
    "verify_outcomes (expected_loads items acts) outcomes = Ok ()"
    by (auto simp: proven_def expected_loads_fst)
  then show ?thesis
    using assms(4) verify_outcomes_iff[of "expected_loads items acts" outcomes]
    by (auto simp: expected_loads_fst)
qed

section \<open>Concrete batches\<close>

definition sample_root :: world where
  "sample_root =
     \<lparr>models_of = (\<lambda>_. None)((''onnx'', ''a'') := Some ''old''), backend_dirs = [''onnx''],
      swap_there = False, parked_of = (\<lambda>_. None), txn_file = None, txn_tmp = False,
      staging_of = (\<lambda>_. None)(0 := Some ''new'', 1 := Some ''fresh''),
      graves_of = (\<lambda>_. None), next_suffix = 0, calls = []\<rparr>"

definition sample_items :: "work_item list" where
  "sample_items =
     [\<lparr>wi_backend = ''onnx'', wi_name = ''b'', wi_upgrade = False, wi_enabled_after = True, wi_staged = 1\<rparr>,
      \<lparr>wi_backend = ''onnx'', wi_name = ''a'', wi_upgrade = True, wi_enabled_after = True, wi_staged = 0\<rparr>]"

lemma sample_batch:
  "idle_root sample_root" "batch_fits (models_of sample_root) (map swap_model_of sample_items)"
  "distinct (map wi_staged sample_items)" "recorded_names_ok (map swap_model_of sample_items)"
  by (simp_all add: idle_root_def sample_root_def sample_items_def batch_fits_def swap_model_of_def
        model_key_def recorded_names_ok_def valid_model_name_def valid_token_def MAX_NAME_BYTES_def
        name_byte_def ascii_defs byte_def is_ok_def)

text \<open>A pull killed after the rename that put the new revision in place.\<close>

definition killed_pull :: "(swap_error + unit) \<times> env \<times> world" where
  "killed_pull = apply_batch False sample_items [] (replicate 21 Fine @ [Crash], []) sample_root"

definition killed_root :: world where
  "killed_root = snd (snd killed_pull)"

definition retried_root :: world where
  "retried_root = recoveries [(False, (replicate 4 Fine @ [Crash], []))] killed_root"

lemma killed_pull_facts:
  "fst killed_pull \<noteq> Ok ()" "\<not> confirmed killed_root"
  "models_of killed_root (''onnx'', ''a'') = Some ''new''" "models_of killed_root (''onnx'', ''b'') = Some ''fresh''"
  by code_simp+

lemma killed_pull_run:
  "apply_batch False sample_items [] (replicate 21 Fine @ [Crash], []) sample_root =
     (fst killed_pull, fst (snd killed_pull), killed_root)"
  by (simp add: killed_pull_def killed_root_def)

lemma retried_root_settles: "fst (recover_pending_swap False ([], []) retried_root) = Ok ()"
  by code_simp

theorem interrupted_pull_all_or_nothing_witness:
  "models_of (snd (snd (recover_pending_swap False ([], []) retried_root))) = models_of sample_root"
proof -
  obtain env3 w3 where run: "recover_pending_swap False ([], []) retried_root = (Ok (), env3, w3)"
    using retried_root_settles by (metis fst_conv old.unit.exhaust surj_pair)
  have "models_of w3 = models_of sample_root"
    using interrupted_pull_all_or_nothing[OF sample_batch(1-3) killed_pull_run run[unfolded retried_root_def]]
      killed_pull_facts(1,2) by simp
  then show ?thesis by (simp add: run)
qed

theorem faultless_recovery_settles_witness:
  "fst (recover_pending_swap False ([], []) retried_root) = Ok ()"
  unfolding retried_root_def
  by (rule faultless_recovery_settles[OF sample_batch killed_pull_run])

definition loaded :: "string \<Rightarrow> admin_outcome" where
  "loaded n = \<lparr>ao_model = n, ao_status = ''loaded''\<rparr>"

definition online_replies :: "reply list" where
  "online_replies =
     [Answered [\<lparr>ao_model = ''a'', ao_status = ''unloaded''\<rparr>], Answered [loaded ''b'', loaded ''a'']]"

definition online_pull :: "(swap_error + unit) \<times> env \<times> world" where
  "online_pull = apply_batch True sample_items [''b'', ''a''] ([], online_replies) sample_root"

lemma online_pull_ok: "fst online_pull = Ok ()"
  by code_simp

theorem pull_confirms_only_proven_loads_witness:
  "\<exists>outcomes. (Load, [''b'', ''a''], Answered outcomes) \<in> set (calls (snd (snd online_pull))) \<and>
     answers_exactly (expected_loads sample_items [''b'', ''a'']) outcomes"
proof -
  obtain env1 w1 where run: "online_pull = (Ok (), env1, w1)"
    using online_pull_ok by (metis fst_conv old.unit.exhaust surj_pair)
  show ?thesis
    using pull_confirms_only_proven_loads[OF sample_batch(1-3) _ _ run[unfolded online_pull_def]]
    by (simp add: run)
qed

section \<open>A leftover copy is not only disk usage\<close>

lemmas calm_eval =
  seq_def attempt_def ret_def fail_def stat_def sys_def gets_def fsync_dir_def fsync_tree_def
  create_dir_all_checked_def remove_staged_def

lemma calm_begin_swap:
  assumes "txn_file w = None"
  shows "begin_swap ms ([], rs) w =
    (Ok (), ([], rs), w\<lparr>swap_there := True, txn_tmp := False, txn_file := Some (Recorded Swapping ms)\<rparr>)"
  using assms by (simp add: begin_swap_def write_swap_record_def Let_def calm_eval)

lemma calm_swap_in_blocked:
  assumes "models_of w k = Some good" "parked_of w k = Some stale" "staging_of w st = Some new"
  shows "swap_in st k ([], rs) w = (Err (Io ''rename''), ([], rs), w\<lparr>swap_there := True\<rparr>)"
  using assms by (simp add: swap_in_def calm_eval)

lemma calm_restore_one:
  assumes "models_of w (model_key m) = Some good" "parked_of w (model_key m) = Some stale"
  shows "restore_one m ([], rs) w = (Ok (), ([], rs),
    w\<lparr>graves_of := (graves_of w)(next_suffix w := None), next_suffix := Suc (next_suffix w),
      models_of := (models_of w)(model_key m := Some stale), parked_of := (parked_of w)(model_key m := None)\<rparr>)"
  using assms by (simp add: restore_one_def retire_to_trash_def purge_retired_def Let_def calm_eval)

lemma failed_sweep:
  assumes "txn_file w = None" "swap_there w" "parked_of w k = Some stale"
    and "f = Fail \<or> f = Partly ks record_too \<and> k \<notin> set ks"
  obtains w1 where "recover_pending_swap engine ([Fine, f], rs) w = (Ok (), ([], rs), w1)" "txn_file w1 = None"
    "parked_of w1 k = Some stale" "models_of w1 = models_of w"
proof -
  have "fst (recover_pending_swap engine ([Fine, f], rs) w) = Ok ()" "fst (snd (recover_pending_swap engine ([Fine, f], rs) w)) = ([], rs)"
    "txn_file (snd (snd (recover_pending_swap engine ([Fine, f], rs) w))) = None"
    "parked_of (snd (snd (recover_pending_swap engine ([Fine, f], rs) w))) k = Some stale"
    "models_of (snd (snd (recover_pending_swap engine ([Fine, f], rs) w))) = models_of w"
    using assms
    by (auto simp: recover_pending_swap_def pending_swap_def remove_swap_dir_def calm_eval)
  then show thesis using that by (metis prod.collapse)
qed

text \<open>
  C33. A parked copy that survives without its record is more than disk usage when the sweep at the
  start of the next upgrade fails too. Take a root with such a copy of a model. The upgrade first
  recovers: its sweep of the directory fails, that error is ignored, and recovery reports success.
  The batch then runs without any fault, and yet the installed revision cannot be parked because the
  leftover is in the way; the rollback puts the leftover in the place of the good revision and
  reports that the previous revision was restored.
\<close>
theorem leftover_copy_restored:
  assumes "txn_file w = None" "swap_there w" "parked_of w (item_key i) = Some stale"
    and "models_of w (item_key i) = Some good" "wi_upgrade i"
    and "f = Fail \<or> f = Partly ks record_too \<and> item_key i \<notin> set ks"
  shows "\<exists>w1 w2. recover_pending_swap False ([Fine, f], rs) w = (Ok (), ([], rs), w1) \<and> models_of w1 = models_of w \<and>
    w2 = w1\<lparr>staging_of := (staging_of w1)(wi_staged i := Some new)\<rparr> \<and>
    fst (apply_batch False [i] [] ([], rs) w2) = Err (RolledBack (Io ''rename'')) \<and>
    models_of (snd (snd (apply_batch False [i] [] ([], rs) w2))) = (models_of w)(item_key i := Some stale)"
proof -
  obtain w1 where w1: "recover_pending_swap False ([Fine, f], rs) w = (Ok (), ([], rs), w1)" "txn_file w1 = None"
    "parked_of w1 (item_key i) = Some stale" "models_of w1 = models_of w"
    using failed_sweep [OF assms(1-3,6)] .
  let ?w2 = "w1\<lparr>staging_of := (staging_of w1)(wi_staged i := Some new)\<rparr>"
  have "sm_role (swap_model_of i) = Replace" using assms(5) by (simp add: swap_model_of_def)
  then have "fst (apply_batch False [i] [] ([], rs) ?w2) = Err (RolledBack (Io ''rename'')) \<and>
    models_of (snd (snd (apply_batch False [i] [] ([], rs) ?w2))) = (models_of w)(item_key i := Some stale)"
    using assms(4,5) w1(2-4)
    by (simp add: apply_batch_def undo_def quiesce_def restore_and_prove_def restore_swapped_def
          remove_recorded_installs_def clear_swap_def remove_swap_dir_def without_swap_dir_def Let_def
          move_item_def calm_begin_swap calm_swap_in_blocked calm_restore_one
          seq_def attempt_def ret_def fail_def remove_staged_def sys_def fsync_dir_def)
  then show ?thesis using w1(1,4) by blast
qed

text \<open>How such a root arises: the removal after a successful pull deletes the record and then stops.\<close>

definition leftover_root :: world where
  "leftover_root =
     snd (snd (apply_batch False sample_items [] (replicate 29 Fine @ [Partly [] True], []) sample_root))"

definition next_upgrade :: work_item where
  "next_upgrade = \<lparr>wi_backend = ''onnx'', wi_name = ''a'', wi_upgrade = True, wi_enabled_after = True, wi_staged = 2\<rparr>"

lemma leftover_root_facts:
  "txn_file leftover_root = None" "swap_there leftover_root" "parked_of leftover_root (item_key next_upgrade) = Some ''old''"
  "models_of leftover_root (item_key next_upgrade) = Some ''new''" "wi_upgrade next_upgrade"
  by code_simp+

theorem leftover_copy_restored_witness:
  "\<exists>w1 w2. recover_pending_swap False ([Fine, Fail], []) leftover_root = (Ok (), ([], []), w1) \<and>
     w2 = w1\<lparr>staging_of := (staging_of w1)(2 := Some ''newer'')\<rparr> \<and>
     models_of (snd (snd (apply_batch False [next_upgrade] [] ([], []) w2))) (item_key next_upgrade) = Some ''old''"
  using leftover_copy_restored[OF leftover_root_facts, of Fail "[]" False "[]" "''newer''"]
  by (auto simp: next_upgrade_def)

end
