(* ===== verification/Archive.thy ===== *)
theory Archive
  imports IndexSchema
begin

text \<open>
  Model archives, \<open>registry/schema/src/archive.rs\<close>: the strict reader \<open>extract_strict\<close> and the
  deterministic writer \<open>write_deterministic\<close>.

  The framing of tar is the \<open>tar\<close> crate's. The reader sees its iterator as a list of items, each an error
  or an entry with its header fields and the results of the successive reads of its payload; the writer
  hands it headers with data, and \<open>we_encode\<close> is the bytes of the finished archive. Paths of the file
  system are lists of components from the root; as in the kernel, \<open>.\<close> and an empty component stay and \<open>..\<close>
  goes up. The tree holds no symbolic links: the reader creates none. The environments hold the errors
  of system calls, the hash and the \<open>{:?}\<close> rendering of strings.
\<close>

section \<open>Errors, paths and files\<close>

datatype archive_error =
    Precondition string "string option"
  | Apply string "string option"

definition precondition :: "string \<Rightarrow> archive_error" where
  "precondition message = Precondition message None"

definition apply_error :: "string \<Rightarrow> archive_error" where
  "apply_error message = Apply message None"

fun with_fix :: "string \<Rightarrow> archive_error \<Rightarrow> archive_error" where
  "with_fix fix_text (Precondition message _) = Precondition message (Some fix_text)"
| "with_fix fix_text (Apply message _) = Apply message (Some fix_text)"

definition reject :: "string \<Rightarrow> archive_error" where
  "reject detail =
     with_fix ''the download verified but its content is not a valid model archive; report this''
       (precondition (''archive rejected: '' @ detail))"

definition MAX_ENTRIES :: nat where "MAX_ENTRIES = 65536"
definition MAX_PATH_BYTES :: nat where "MAX_PATH_BYTES = 512"
definition MAX_COMPONENT_BYTES :: nat where "MAX_COMPONENT_BYTES = 255"

type_synonym path = "string list"

datatype node = ADir nat | AFile nat string

type_synonym tree = "path \<Rightarrow> node option"

definition show_path :: "path \<Rightarrow> string" where
  "show_path p = ''/'' @ join ''/'' p"

text \<open>\<open>Path::join\<close> as the kernel resolves it.\<close>

fun walk_path :: "path \<Rightarrow> string list \<Rightarrow> path" where
  "walk_path p [] = p"
| "walk_path p (c # cs) =
     (if c = [] \<or> c = ''.'' then walk_path p cs
      else if c = ''..'' then walk_path (butlast p) cs
      else walk_path (p @ [c]) cs)"

record extract_env =
  ee_open_error :: "string option"
  ee_entries_error :: "string option"
  ee_mkdir_error :: "path \<Rightarrow> string option"
  ee_chmod_error :: "path \<Rightarrow> string option"
  ee_create_error :: "path \<Rightarrow> string option"
  ee_write_error :: "path \<Rightarrow> string \<Rightarrow> string option"
  ee_sync_error :: "path \<Rightarrow> string option"
  ee_new_dir_mode :: nat
  ee_new_file_mode :: nat
  ee_sha256 :: "string \<Rightarrow> string"
  ee_debug :: "string \<Rightarrow> string"

text \<open>A step on the tree keeps what it did also when it fails.\<close>

type_synonym 'a tree_result = "tree \<times> (archive_error + 'a)"

definition tree_then :: "'a tree_result \<Rightarrow> ('a \<Rightarrow> tree \<Rightarrow> 'b tree_result) \<Rightarrow> 'b tree_result" where
  "tree_then r f = (case r of (t, Inl e) \<Rightarrow> (t, Err e) | (t, Inr a) \<Rightarrow> f a t)"

section \<open>System calls\<close>

text \<open>\<open>fs::create_dir_all\<close>: every missing directory on the way, from the top.\<close>

fun make_dirs :: "extract_env \<Rightarrow> path \<Rightarrow> string list \<Rightarrow> tree \<Rightarrow> tree \<times> (string + unit)" where
  "make_dirs env p [] t = (t, Ok ())"
| "make_dirs env p (c # cs) t =
     (let q = p @ [c] in
      case t q of
        Some (ADir _) \<Rightarrow> make_dirs env q cs t
      | Some (AFile _ _) \<Rightarrow> (t, Err ''File exists (os error 17)'')
      | None \<Rightarrow>
          (case ee_mkdir_error env q of
             Some e \<Rightarrow> (t, Err e)
           | None \<Rightarrow> make_dirs env q cs (t(q \<mapsto> ADir (ee_new_dir_mode env)))))"

definition create_dir_all :: "extract_env \<Rightarrow> path \<Rightarrow> tree \<Rightarrow> unit tree_result" where
  "create_dir_all env p t =
     (case make_dirs env [] p t of
        (t, Inl e) \<Rightarrow> (t, Err (apply_error (''cannot create '' @ show_path p @ '': '' @ e)))
      | (t, Inr _) \<Rightarrow> (t, Ok ()))"

definition set_mode :: "extract_env \<Rightarrow> path \<Rightarrow> nat \<Rightarrow> tree \<Rightarrow> unit tree_result" where
  "set_mode env p mode t =
     (let failed = (\<lambda>e. (t, Err (apply_error (''cannot chmod '' @ show_path p @ '': '' @ e)))) in
      case ee_chmod_error env p of
        Some e \<Rightarrow> failed e
      | None \<Rightarrow>
          (case t p of
             None \<Rightarrow> failed ''No such file or directory (os error 2)''
           | Some (ADir _) \<Rightarrow> (t(p \<mapsto> ADir mode), Ok ())
           | Some (AFile _ b) \<Rightarrow> (t(p \<mapsto> AFile mode b), Ok ())))"

function normalize_dirs :: "extract_env \<Rightarrow> path \<Rightarrow> path \<Rightarrow> tree \<Rightarrow> unit tree_result" where
  "normalize_dirs env stop current t =
     (if current = stop then (t, Ok ())
      else tree_then (set_mode env current 493 t)
             (\<lambda>_ t. if current = [] then (t, Ok ()) else normalize_dirs env stop (butlast current) t))"
  by pat_completeness auto
termination by (relation "measure (\<lambda>(env, stop, current, t). length current)") auto

declare normalize_dirs.simps [simp del]

section \<open>Reading\<close>

datatype entry_type =
    Regular | Directory | Symlink | Link | CharDevice | BlockDevice | Fifo | Continuous
  | XHeader | XGlobalHeader | GNULongName | GNULongLink | GNUSparse | OtherType nat

record tar_entry =
  te_ustar :: bool
  te_type :: entry_type
  te_link :: bool
  te_path :: string
  te_header_path :: string
  te_size :: "string + nat"
  te_reads :: "(string + string) list"

record extracted_file =
  xf_path :: string
  xf_size :: nat
  xf_sha256 :: string

fun hex_nat :: "nat \<Rightarrow> string" where
  "hex_nat n =
     (let digit = (\<lambda>d. [char_of (if d < 10 then 48 + d else 87 + d)]) in
      if n < 16 then digit n else hex_nat (n div 16) @ digit (n mod 16))"

declare hex_nat.simps [simp del]

definition entry_is_dir :: "entry_type \<Rightarrow> archive_error + bool" where
  "entry_is_dir ty =
     (case ty of
        Regular \<Rightarrow> Ok False
      | Directory \<Rightarrow> Ok True
      | Symlink \<Rightarrow> Err (reject ''symlink entry'')
      | Link \<Rightarrow> Err (reject ''hard link entry'')
      | CharDevice \<Rightarrow> Err (reject ''device entry'')
      | BlockDevice \<Rightarrow> Err (reject ''device entry'')
      | Fifo \<Rightarrow> Err (reject ''FIFO entry'')
      | Continuous \<Rightarrow> Err (reject ''contiguous-file entry'')
      | XHeader \<Rightarrow> Err (reject ''PAX extension entry'')
      | XGlobalHeader \<Rightarrow> Err (reject ''PAX extension entry'')
      | GNULongName \<Rightarrow> Err (reject ''GNU long-name/long-link entry'')
      | GNULongLink \<Rightarrow> Err (reject ''GNU long-name/long-link entry'')
      | GNUSparse \<Rightarrow> Err (reject ''GNU sparse entry'')
      | OtherType b \<Rightarrow> Err (reject (''unknown entry type 0x'' @ hex_nat b)))"

definition check_component :: "extract_env \<Rightarrow> string \<Rightarrow> string \<Rightarrow> string list \<Rightarrow> archive_error + string list" where
  "check_component env path component rel =
     (if component = [] \<or> component = ''.'' \<or> component = ''..''
      then Err (reject (''path '' @ ee_debug env path @ '' has a forbidden component''))
      else if length component > MAX_COMPONENT_BYTES
      then Err (reject (''path component exceeds '' @ dec MAX_COMPONENT_BYTES @ '' bytes''))
      else if list_ex is_ascii_control component
      then Err (reject (''control character in path '' @ ee_debug env path))
      else Ok (rel @ [component]))"

definition validate_entry_path :: "extract_env \<Rightarrow> string \<Rightarrow> string \<Rightarrow> archive_error + string list" where
  "validate_entry_path env path expected_root =
     (if length path > MAX_PATH_BYTES then Err (reject (''path exceeds '' @ dec MAX_PATH_BYTES @ '' bytes''))
      else if starts_with ''/'' path then Err (reject (''absolute path '' @ ee_debug env path))
      else if CHR 0x5C \<in> set path then Err (reject (''backslash in path '' @ ee_debug env path))
      else if CHR 0x00 \<in> set path then Err (reject ''NUL in path'')
      else
        let trimmed = (case strip_suffix ''/'' path of Some s \<Rightarrow> s | None \<Rightarrow> path);
            components = split_on (\<lambda>c. c = CHR ''/'') trimmed
        in if hd components \<noteq> expected_root
           then Err (reject (''path '' @ ee_debug env path @ '' is outside the expected root '' @ ee_debug env expected_root))
           else try_fold (check_component env path) (tl components) [])"

fun payload_loop ::
  "extract_env \<Rightarrow> path \<Rightarrow> nat \<Rightarrow> (string + string) list \<Rightarrow> string \<Rightarrow> tree \<Rightarrow> string tree_result" where
  "payload_loop env p declared [] done t = (t, Ok done)"
| "payload_loop env p declared (r # rs) done t =
     (case r of
        Inl e \<Rightarrow> (t, Err (apply_error (''archive read failed: '' @ e)))
      | Inr buf \<Rightarrow>
          if buf = [] then (t, Ok done)
          else if length done + length buf > declared then (t, Err (reject ''entry payload exceeds its declared size''))
          else (case ee_write_error env p (done @ buf) of
                  Some e \<Rightarrow> (t, Err (apply_error (''cannot write '' @ show_path p @ '': '' @ e)))
                | None \<Rightarrow>
                    payload_loop env p declared rs (done @ buf)
                      (t(p \<mapsto> AFile (ee_new_file_mode env) (done @ buf)))))"

definition write_payload ::
  "extract_env \<Rightarrow> (string + string) list \<Rightarrow> path \<Rightarrow> nat \<Rightarrow> tree \<Rightarrow> string tree_result" where
  "write_payload env reads out_path declared t =
     (let failed = (\<lambda>e. (t, Err (apply_error (''cannot create '' @ show_path out_path @ '': '' @ e)))) in
      case ee_create_error env out_path of
        Some e \<Rightarrow> failed e
      | None \<Rightarrow>
          if t out_path \<noteq> None then failed ''File exists (os error 17)''
          else
            tree_then (payload_loop env out_path declared reads [] (t(out_path \<mapsto> AFile (ee_new_file_mode env) [])))
              (\<lambda>written t.
                 if length written \<noteq> declared then (t, Err (reject ''archive is truncated inside a file payload''))
                 else case ee_sync_error env out_path of
                        Some e \<Rightarrow> (t, Err (apply_error (''cannot sync '' @ show_path out_path @ '': '' @ e)))
                      | None \<Rightarrow> (t, Ok (ee_sha256 env written))))"

record extract_state =
  es_entries :: nat
  es_total :: nat
  es_seen :: "string list"
  es_files :: "extracted_file list"

definition extract_dir :: "extract_env \<Rightarrow> path \<Rightarrow> string \<Rightarrow> string list \<Rightarrow> nat \<Rightarrow> tree \<Rightarrow> unit tree_result" where
  "extract_dir env dest path rel declared t =
     (if declared \<noteq> 0 then (t, Err (reject (''directory entry '' @ ee_debug env path @ '' carries payload bytes'')))
      else if rel = [] then (t, Ok ())
      else tree_then (create_dir_all env (walk_path dest rel) t) (\<lambda>_ t. set_mode env (walk_path dest rel) 493 t))"

definition extract_file ::
  "extract_env \<Rightarrow> path \<Rightarrow> nat \<Rightarrow> (string + string) list \<Rightarrow> string list \<Rightarrow> nat \<Rightarrow> extract_state \<Rightarrow> tree
   \<Rightarrow> extract_state tree_result" where
  "extract_file env dest installed_size reads rel declared st t =
     (if rel = [] then (t, Err (reject ''a regular file entry names the archive root''))
      else if es_total st + declared \<ge> 2 ^ 64 then (t, Err (reject ''cumulative payload size overflows''))
      else if es_total st + declared > installed_size
      then (t, Err (reject (''cumulative payload exceeds the advertised installed size '' @ dec installed_size)))
      else
        let out_path = walk_path dest rel in
        tree_then (create_dir_all env (butlast out_path) t) (\<lambda>_ t.
        tree_then (normalize_dirs env dest (butlast out_path) t) (\<lambda>_ t.
        tree_then (write_payload env reads out_path declared t) (\<lambda>sha t.
        tree_then (set_mode env out_path 420 t) (\<lambda>_ t.
          (t, Ok (st\<lparr>es_total := es_total st + declared,
                     es_files := es_files st @ [\<lparr>xf_path = join ''/'' rel, xf_size = declared, xf_sha256 = sha\<rparr>]\<rparr>)))))))"

text \<open>The checks of one item, in the order of the code, up to the declared size.\<close>

definition check_item ::
  "extract_env \<Rightarrow> string \<Rightarrow> string + tar_entry \<Rightarrow> extract_state \<Rightarrow> archive_error + (tar_entry \<times> bool \<times> string list \<times> nat)" where
  "check_item env expected_root item st =
     (case item of
        Inl e \<Rightarrow> Err (reject e)
      | Inr entry \<Rightarrow>
          if es_entries st + 1 > MAX_ENTRIES then Err (reject (''archive exceeds '' @ dec MAX_ENTRIES @ '' entries''))
          else if \<not> te_ustar entry then Err (reject ''entry is not plain ustar (POSIX magic missing)'')
          else and_then (entry_is_dir (te_type entry)) (\<lambda>is_dir.
            if te_link entry then Err (reject ''entry carries a link target'')
            else if te_path entry \<noteq> te_header_path entry
            then Err (reject ''entry path comes from an extension record'')
            else if \<not> valid_utf8 (te_path entry) then Err (reject ''path is not UTF-8'')
            else if te_path entry = [] then Err (reject ''entry has an empty path'')
            else and_then (validate_entry_path env (te_path entry) expected_root) (\<lambda>rel.
              if te_path entry \<in> set (es_seen st) then Err (reject (''duplicate path '' @ ee_debug env (te_path entry)))
              else (case te_size entry of
                      Inl e \<Rightarrow> Err (reject (''entry size: '' @ e))
                    | Inr declared \<Rightarrow> Ok (entry, is_dir, rel, declared)))))"

definition extract_entry ::
  "extract_env \<Rightarrow> string \<Rightarrow> nat \<Rightarrow> path \<Rightarrow> string + tar_entry \<Rightarrow> extract_state \<Rightarrow> tree \<Rightarrow> extract_state tree_result" where
  "extract_entry env expected_root installed_size dest item st t =
     (case check_item env expected_root item st of
        Inl e \<Rightarrow> (t, Err e)
      | Inr (entry, is_dir, rel, declared) \<Rightarrow>
          let st = st\<lparr>es_entries := es_entries st + 1, es_seen := te_path entry # es_seen st\<rparr> in
          if is_dir
          then tree_then (extract_dir env dest (te_path entry) rel declared t) (\<lambda>_ t. (t, Ok st))
          else extract_file env dest installed_size (te_reads entry) rel declared st t)"

fun extract_items ::
  "extract_env \<Rightarrow> string \<Rightarrow> nat \<Rightarrow> path \<Rightarrow> (string + tar_entry) list \<Rightarrow> extract_state \<Rightarrow> tree \<Rightarrow> extract_state tree_result" where
  "extract_items env root installed_size dest [] st t = (t, Ok st)"
| "extract_items env root installed_size dest (item # items) st t =
     tree_then (extract_entry env root installed_size dest item st t) (extract_items env root installed_size dest items)"

definition extract_start :: extract_state where
  "extract_start = \<lparr>es_entries = 0, es_total = 0, es_seen = [], es_files = []\<rparr>"

definition extract_strict ::
  "extract_env \<Rightarrow> path \<Rightarrow> (string + tar_entry) list \<Rightarrow> string \<Rightarrow> nat \<Rightarrow> path \<Rightarrow> tree \<Rightarrow> extracted_file list tree_result" where
  "extract_strict env archive items expected_root installed_size dest t =
     (case ee_open_error env of
        Some e \<Rightarrow> (t, Err (apply_error (''cannot open '' @ show_path archive @ '': '' @ e)))
      | None \<Rightarrow>
          (case ee_entries_error env of
             Some e \<Rightarrow> (t, Err (reject (''cannot read archive: '' @ e)))
           | None \<Rightarrow>
               tree_then (extract_items env expected_root installed_size dest items extract_start t) (\<lambda>st t.
                 if es_total st \<noteq> installed_size
                 then (t, Err (reject (''archive payload is '' @ dec (es_total st) @
                                       '' bytes; the index promised exactly '' @ dec installed_size)))
                 else if es_files st = [] then (t, Err (reject ''archive contains no regular files''))
                 else (t, Ok (es_files st)))))"

section \<open>Writing\<close>

record archive_input =
  ai_relative_path :: string
  ai_source :: string

record tar_header =
  th_path :: string
  th_size :: nat
  th_mode :: nat
  th_type :: entry_type

record written_archive =
  wa_digest :: string
  wa_size :: nat
  wa_installed_size :: nat

text \<open>
  \<open>we_fits\<close> is the error of \<open>Header::set_path\<close>, \<open>we_stat\<close> is a source's metadata (regular or not, length),
  \<open>we_reads\<close> the reads of an opened source, \<open>we_out_error\<close> the error the output gives while the builder
  appends after what it holds already, before a read of the source fails, and \<open>we_finish_error\<close> the same for the terminator.
\<close>

record write_env =
  we_fits :: "string \<Rightarrow> string option"
  we_stat :: "string \<Rightarrow> string + bool \<times> nat"
  we_open_error :: "string \<Rightarrow> string option"
  we_reads :: "string \<Rightarrow> (string + string) list"
  we_out_error :: "(tar_header \<times> string) list \<Rightarrow> tar_header \<Rightarrow> string option"
  we_finish_error :: "(tar_header \<times> string) list \<Rightarrow> string option"
  we_encode :: "(tar_header \<times> string) list \<Rightarrow> string"
  we_sha256 :: "string \<Rightarrow> string"
  we_debug :: "string \<Rightarrow> string"

definition plain_component :: "string \<Rightarrow> bool" where
  "plain_component c \<longleftrightarrow> c \<noteq> [] \<and> c \<noteq> ''.'' \<and> c \<noteq> ''..'' \<and> length c \<le> MAX_COMPONENT_BYTES"

definition validate_relative_input :: "write_env \<Rightarrow> string \<Rightarrow> archive_error + unit" where
  "validate_relative_input env path =
     (if path = [] \<or> starts_with ''/'' path \<or> strip_suffix ''/'' path \<noteq> None \<or>
         \<not> list_all plain_component (split_on (\<lambda>c. c = CHR ''/'') path) \<or>
         length path > MAX_PATH_BYTES \<or> CHR 0x5C \<in> set path \<or> list_ex is_ascii_control path
      then Err (precondition (''archive input path '' @ we_debug env path @ '' is not a plain relative path''))
      else Ok ())"

definition pack_header :: "write_env \<Rightarrow> string \<Rightarrow> nat \<Rightarrow> nat \<Rightarrow> entry_type \<Rightarrow> archive_error + tar_header" where
  "pack_header env path payload mode kind =
     (case we_fits env path of
        Some e \<Rightarrow> Err (precondition (''path '' @ we_debug env path @ '' does not fit a ustar header: '' @ e))
      | None \<Rightarrow> Ok \<lparr>th_path = path, th_size = payload, th_mode = mode, th_type = kind\<rparr>)"

text \<open>The copy out of an \<open>ExactReader\<close>: all the bytes, or an error when they are more or fewer than promised.\<close>

fun exact_copy :: "string \<Rightarrow> nat \<Rightarrow> (string + string) list \<Rightarrow> string + string" where
  "exact_copy source remaining [] = (if remaining > 0 then Err (source @ '' shrank while being archived'') else Ok [])"
| "exact_copy source remaining (r # rs) =
     (case r of
        Inl e \<Rightarrow> Err e
      | Inr buf \<Rightarrow>
          if length buf > remaining then Err (source @ '' grew while being archived'')
          else if buf = [] then (if remaining > 0 then Err (source @ '' shrank while being archived'') else Ok [])
          else and_then (exact_copy source (remaining - length buf) rs) (\<lambda>rest. Ok (buf @ rest)))"

definition io_fail :: "string option \<Rightarrow> string \<Rightarrow> archive_error" where
  "io_fail output_error e =
     (case output_error of
        Some inner \<Rightarrow> apply_error (''archive write failed: '' @ inner)
      | None \<Rightarrow> precondition (''archive build failed: '' @ e))"

definition append_entry ::
  "write_env \<Rightarrow> tar_header \<Rightarrow> string + string \<Rightarrow> (tar_header \<times> string) list \<Rightarrow> archive_error + (tar_header \<times> string) list" where
  "append_entry env header payload out =
     (case we_out_error env out header of
        Some e \<Rightarrow> Err (io_fail (Some e) e)
      | None \<Rightarrow> (case payload of Inl e \<Rightarrow> Err (io_fail None e) | Inr b \<Rightarrow> Ok (out @ [(header, b)])))"

fun check_duplicates :: "write_env \<Rightarrow> archive_input list \<Rightarrow> archive_error + unit" where
  "check_duplicates env (a # b # rest) =
     (if ai_relative_path a = ai_relative_path b
      then Err (precondition (''archive input lists '' @ we_debug env (ai_relative_path a) @ '' twice''))
      else check_duplicates env (b # rest))"
| "check_duplicates env inputs = Ok ()"

text \<open>The directory entries an input needs, each with its trailing slash.\<close>

definition input_dirs :: "string \<Rightarrow> string \<Rightarrow> string list" where
  "input_dirs root_name relative_path =
     (let components = butlast (split_on (\<lambda>c. c = CHR ''/'') relative_path) in
      map (\<lambda>n. root_name @ ''/'' @ concat (map (\<lambda>c. c @ ''/'') (take (Suc n) components))) [0..<length components])"

definition collect_dirs :: "write_env \<Rightarrow> string \<Rightarrow> archive_input \<Rightarrow> string list \<Rightarrow> archive_error + string list" where
  "collect_dirs env root_name input dirs =
     and_then (validate_relative_input env (ai_relative_path input)) (\<lambda>_.
       Ok (dirs @ input_dirs root_name (ai_relative_path input)))"

definition append_dir ::
  "write_env \<Rightarrow> string \<Rightarrow> (tar_header \<times> string) list \<Rightarrow> archive_error + (tar_header \<times> string) list" where
  "append_dir env dir out =
     and_then (pack_header env dir 0 493 Directory) (\<lambda>header. append_entry env header (Ok []) out)"

definition append_file ::
  "write_env \<Rightarrow> string \<Rightarrow> archive_input \<Rightarrow> (tar_header \<times> string) list \<times> nat \<Rightarrow> archive_error + (tar_header \<times> string) list \<times> nat" where
  "append_file env root_name input st =
     (case we_stat env (ai_source input) of
        Inl e \<Rightarrow> Err (precondition (''cannot stat '' @ ai_source input @ '': '' @ e))
      | Inr (is_file, len) \<Rightarrow>
          if \<not> is_file then Err (precondition (ai_source input @ '' is not a regular file''))
          else if snd st + len \<ge> 2 ^ 64 then Err (precondition ''cumulative archive payload overflows u64'')
          else and_then (pack_header env (root_name @ ''/'' @ ai_relative_path input) len 420 Regular) (\<lambda>header.
            case we_open_error env (ai_source input) of
              Some e \<Rightarrow> Err (precondition (''cannot open '' @ ai_source input @ '': '' @ e))
            | None \<Rightarrow>
                and_then (append_entry env header (exact_copy (ai_source input) len (we_reads env (ai_source input))) (fst st))
                  (\<lambda>out. Ok (out, snd st + len))))"

text \<open>The entries handed to the tar builder, and the record of the finished archive.\<close>

definition write_deterministic ::
  "write_env \<Rightarrow> string \<Rightarrow> archive_input list \<Rightarrow> archive_error + (tar_header \<times> string) list \<times> written_archive" where
  "write_deterministic env root_name inputs =
     (let inputs = sort_key ai_relative_path inputs in
      and_then (check_duplicates env inputs) (\<lambda>_.
      and_then (try_fold (collect_dirs env root_name) inputs [root_name @ ''/'']) (\<lambda>dirs.
      and_then (try_fold (append_dir env) (sort (remdups dirs)) []) (\<lambda>out.
      and_then (try_fold (append_file env root_name) inputs (out, 0)) (\<lambda>(out, installed_size).
        case we_finish_error env out of
          Some e \<Rightarrow> Err (io_fail (Some e) e)
        | None \<Rightarrow>
            Ok (out, \<lparr>wa_digest = ''sha256:'' @ we_sha256 env (we_encode env out), wa_size = length (we_encode env out),
                      wa_installed_size = installed_size\<rparr>))))))"

section \<open>Extraction stays inside its directory\<close>

definition below :: "path \<Rightarrow> path \<Rightarrow> bool" where
  "below dest p \<longleftrightarrow> (\<exists>q. q \<noteq> [] \<and> p = dest @ q)"

definition is_dir_at :: "tree \<Rightarrow> path \<Rightarrow> bool" where
  "is_dir_at t p \<longleftrightarrow> (\<exists>m. t p = Some (ADir m))"

text \<open>
  What one step may do to the tree: files stay as they are everywhere, directories stay directories,
  nothing that exists outside the destination changes, and what is new outside is a directory on the way
  to the destination.
\<close>

definition confined :: "path \<Rightarrow> tree \<Rightarrow> tree \<Rightarrow> bool" where
  "confined dest t t' \<longleftrightarrow>
     (\<forall>p m b. t p = Some (AFile m b) \<longrightarrow> t' p = Some (AFile m b)) \<and>
     (\<forall>p. is_dir_at t p \<longrightarrow> is_dir_at t' p) \<and>
     (\<forall>p. \<not> below dest p \<longrightarrow> t p \<noteq> None \<longrightarrow> t' p = t p) \<and>
     (\<forall>p. \<not> below dest p \<longrightarrow> t p = None \<longrightarrow> t' p \<noteq> None \<longrightarrow> is_dir_at t' p \<and> (\<exists>q. dest = p @ q))"

lemma confined_refl [simp]: "confined dest t t"
  by (simp add: confined_def)

lemma confined_trans:
  assumes "confined dest t u" "confined dest u v" shows "confined dest t v"
proof -
  have "is_dir_at v p \<and> (\<exists>q. dest = p @ q)" if p: "\<not> below dest p" "t p = None" "v p \<noteq> None" for p
  proof (cases "u p = None")
    case False
    then have "is_dir_at u p \<and> (\<exists>q. dest = p @ q)" using assms(1) p by (simp add: confined_def)
    then show ?thesis using assms(2) by (auto simp: confined_def)
  qed (use assms(2) p in \<open>simp add: confined_def\<close>)
  moreover have "v p = t p" if "\<not> below dest p" "t p \<noteq> None" for p
    using assms that unfolding confined_def by metis
  ultimately show ?thesis using assms unfolding confined_def by blast
qed

lemma tree_then_cases:
  assumes "tree_then r f = (t', x)"
  obtains e where "r = (t', Inl e)" "x = Inl e" | a t where "r = (t, Inr a)" "f a t = (t', x)"
  using assms by (auto simp: tree_then_def split: prod.splits sum.splits)

lemma make_dirs_spec:
  assumes "make_dirs env p cs t = (t', r)"
  shows "t q \<noteq> None \<Longrightarrow> t' q = t q"
    and "t q = None \<Longrightarrow> t' q \<noteq> None \<Longrightarrow> is_dir_at t' q \<and> (\<exists>k. q = p @ take k cs)"
    and "r = Ok () \<Longrightarrow> 0 < k \<Longrightarrow> k \<le> length cs \<Longrightarrow> is_dir_at t' (p @ take k cs)"
proof -
  have "(t q \<noteq> None \<longrightarrow> t' q = t q) \<and> (t q = None \<longrightarrow> t' q \<noteq> None \<longrightarrow> is_dir_at t' q \<and> (\<exists>k. q = p @ take k cs)) \<and>
    (r = Ok () \<longrightarrow> 0 < k \<longrightarrow> k \<le> length cs \<longrightarrow> is_dir_at t' (p @ take k cs))" for q k
    using assms
  proof (induction cs arbitrary: p t k q)
    case (Cons c cs)
    let ?q = "p @ [c]"
    have step: ?case if run: "make_dirs env ?q cs u = (t', r)" and u: "is_dir_at u ?q" "\<And>x. t x \<noteq> None \<Longrightarrow> u x = t x"
      "\<And>x. t x = None \<Longrightarrow> u x \<noteq> None \<Longrightarrow> x = ?q" for u
    proof -
      have ih: "u q \<noteq> None \<longrightarrow> t' q = u q" "u q = None \<longrightarrow> t' q \<noteq> None \<longrightarrow> is_dir_at t' q \<and> (\<exists>k. q = ?q @ take k cs)" for q
        using Cons.IH[OF run, where q = q and k = 0] by simp_all
      have dirs: "is_dir_at t' ?q" using ih(1)[of ?q] u(1) by (auto simp: is_dir_at_def)
      have old: "t q \<noteq> None \<longrightarrow> t' q = t q" using ih(1)[of q] u(2)[of q] by auto
      have "is_dir_at t' q \<and> (\<exists>k. q = p @ take k (c # cs))" if "t q = None" "t' q \<noteq> None"
      proof (cases "u q = None")
        case True
        then obtain k where "is_dir_at t' q" "q = ?q @ take k cs" using ih(2)[of q] \<open>t' q \<noteq> None\<close> by blast
        then show ?thesis by (auto intro!: exI[of _ "Suc k"])
      next
        case False
        then have "q = ?q" using u(3) that by blast
        then show ?thesis using dirs by (auto intro!: exI[of _ 1])
      qed
      moreover have "is_dir_at t' (p @ take k (c # cs))" if ok: "r = Ok ()" "0 < k" "k \<le> length (c # cs)"
      proof (cases "k = 1")
        case False
        then obtain j where "k = Suc j" "0 < j" using ok(2) by (cases k) auto
        then show ?thesis using Cons.IH[OF run, where k = j] ok by simp
      qed (use dirs in simp)
      ultimately show ?thesis using old by blast
    qed
    show ?case
    proof (cases "t ?q")
      case None
      then show ?thesis
      proof (cases "ee_mkdir_error env ?q")
        case None
        with \<open>t ?q = None\<close> show ?thesis
          using Cons.prems by (intro step[of "t(?q \<mapsto> ADir (ee_new_dir_mode env))"]) (auto simp: is_dir_at_def Let_def split: if_splits)
      qed (use Cons.prems None in \<open>auto simp: Let_def\<close>)
    next
      case (Some n)
      then show ?thesis
      proof (cases n)
        case (ADir m)
        with Some show ?thesis using Cons.prems by (intro step[of t]) (auto simp: is_dir_at_def Let_def)
      qed (use Cons.prems Some in \<open>auto simp: Let_def\<close>)
    qed
  qed auto
  from this[of q k] show "t q \<noteq> None \<Longrightarrow> t' q = t q" "t q = None \<Longrightarrow> t' q \<noteq> None \<Longrightarrow> is_dir_at t' q \<and> (\<exists>k. q = p @ take k cs)"
    "r = Ok () \<Longrightarrow> 0 < k \<Longrightarrow> k \<le> length cs \<Longrightarrow> is_dir_at t' (p @ take k cs)" by simp_all
qed

lemma create_dir_all_cases:
  assumes "create_dir_all env p t = (t', r)"
  obtains x where "make_dirs env [] p t = (t', x)" "r = Ok () \<longrightarrow> x = Ok ()"
proof -
  obtain u x where "make_dirs env [] p t = (u, x)" by force
  then show thesis using assms that[of x] by (cases x) (auto simp: create_dir_all_def)
qed

lemma below_or_above:
  assumes "q = take k (dest @ rel)" "\<not> below dest q" shows "\<exists>s. dest = q @ s"
proof (cases "k \<le> length dest")
  case True
  then have "dest = q @ drop k dest" using assms(1) by simp
  then show ?thesis by blast
next
  case False
  then have "q = dest @ take (k - length dest) rel" using assms(1) by simp
  then have "q = dest" using assms(2) by (auto simp: below_def)
  then show ?thesis by simp
qed

lemma create_dir_all_confined:
  assumes "create_dir_all env (dest @ rel) t = (t', r)"
  shows "confined dest t t'"
    and "r = Ok () \<Longrightarrow> q \<noteq> [] \<Longrightarrow> rel = q @ s \<Longrightarrow> is_dir_at t' (dest @ q)"
proof -
  obtain x where x: "make_dirs env [] (dest @ rel) t = (t', x)" "r = Ok () \<longrightarrow> x = Ok ()"
    using assms by (rule create_dir_all_cases)
  note spec = make_dirs_spec[OF x(1)]
  have old: "t' p = t p" if "t p \<noteq> None" for p using spec(1)[OF that] .
  have new: "is_dir_at t' p \<and> (\<exists>s. dest = p @ s)" if "\<not> below dest p" "t p = None" "t' p \<noteq> None" for p
    using spec(2)[OF that(2,3)] below_or_above[of p _ dest rel] that(1) by auto
  show "confined dest t t'" using old new by (auto simp: confined_def is_dir_at_def)
  show "is_dir_at t' (dest @ q)" if "r = Ok ()" "q \<noteq> []" "rel = q @ s"
    using spec(3)[of "length dest + length q"] x(2) that by simp
qed

lemma set_mode_cases:
  assumes "set_mode env p mode t = (t', r)"
  obtains "t' = t" "\<exists>e. r = Err e" | m where "t p = Some (ADir m)" "t' = t(p \<mapsto> ADir mode)" "r = Ok ()"
  | m b where "t p = Some (AFile m b)" "t' = t(p \<mapsto> AFile mode b)" "r = Ok ()"
proof (cases "ee_chmod_error env p")
  case None
  show thesis
  proof (cases "t p")
    case (Some n)
    then show thesis using None assms that(2,3) by (cases n) (simp_all add: set_mode_def del: fun_upd_apply)
  next
    case None
    then have "t' = t" "\<exists>e. r = Err e" using assms \<open>ee_chmod_error env p = None\<close> by (auto simp: set_mode_def)
    then show thesis by (rule that(1))
  qed
next
  case (Some e)
  then have "t' = t" "\<exists>e. r = Err e" using assms by (auto simp: set_mode_def)
  then show thesis by (rule that(1))
qed

lemma set_mode_dir:
  assumes "set_mode env p mode t = (t', r)" "is_dir_at t p" "below dest p"
  shows "confined dest t t'" "is_dir_at t q \<Longrightarrow> is_dir_at t' q"
  using assms(1) by (cases rule: set_mode_cases; use assms(2,3) in \<open>auto simp: confined_def is_dir_at_def\<close>)+

lemma normalize_dirs_confined:
  assumes "normalize_dirs env dest (dest @ rel) t = (t', r)" "\<And>q s. q \<noteq> [] \<Longrightarrow> rel = q @ s \<Longrightarrow> is_dir_at t (dest @ q)"
  shows "confined dest t t'"
  using assms
proof (induction rel arbitrary: t rule: rev_induct)
  case Nil
  then show ?case by (simp add: normalize_dirs.simps)
next
  case (snoc c rel)
  have run: "tree_then (set_mode env (dest @ rel @ [c]) 493 t) (\<lambda>_ t. normalize_dirs env dest (dest @ rel) t) = (t', r)"
    using snoc.prems(1) by (subst (asm) normalize_dirs.simps) (simp flip: append_assoc)
  have dir: "is_dir_at t (dest @ rel @ [c])" using snoc.prems(2)[of "rel @ [c]" "[]"] by simp
  have under: "below dest (dest @ rel @ [c])" by (auto simp: below_def)
  from run show ?case
  proof (cases rule: tree_then_cases)
    case (1 e)
    then show ?thesis using set_mode_dir(1)[OF _ dir under] by blast
  next
    case (2 a u)
    have "is_dir_at u (dest @ q)" if "q \<noteq> []" "rel = q @ s" for q s
      using set_mode_dir(2)[OF 2(1) dir under] snoc.prems(2)[of q "s @ [c]"] that by simp
    then have "confined dest u t'" using snoc.IH[OF 2(2)] by blast
    then show ?thesis using set_mode_dir(1)[OF 2(1) dir under] confined_trans by blast
  qed
qed

text \<open>The bytes a payload delivers: all reads up to the empty one that ends it.\<close>

definition payload_of :: "(string + string) list \<Rightarrow> string" where
  "payload_of reads = concat (map projr (takeWhile (\<lambda>r. r \<noteq> Inr []) reads))"

lemma payload_loop_spec:
  assumes "payload_loop env p declared reads done (t(p \<mapsto> AFile (ee_new_file_mode env) done)) = (t', r)"
  obtains b where "t' = t(p \<mapsto> AFile (ee_new_file_mode env) b)" "r = Ok b \<and> b = done @ payload_of reads \<or> (\<exists>e. r = Err e)"
proof -
  have "\<exists>b. t' = t(p \<mapsto> AFile (ee_new_file_mode env) b) \<and> (r = Ok b \<and> b = done @ payload_of reads \<or> (\<exists>e. r = Err e))"
    using assms
  proof (induction reads arbitrary: "done")
    case Nil
    then show ?case by (auto simp: payload_of_def)
  next
    case (Cons x reads)
    show ?case
    proof (cases x)
      case (Inl e)
      then show ?thesis using Cons.prems by auto
    next
      case (Inr buf)
      consider "buf = []" | "buf \<noteq> []" "length done + length buf > declared" | e where "buf \<noteq> []" "ee_write_error env p (done @ buf) = Some e"
        | "buf \<noteq> []" "\<not> length done + length buf > declared" "ee_write_error env p (done @ buf) = None" by fastforce
      then show ?thesis
      proof cases
        case 4
        then have "payload_loop env p declared reads (done @ buf) (t(p \<mapsto> AFile (ee_new_file_mode env) (done @ buf))) = (t', r)"
          using Cons.prems Inr by (simp del: fun_upd_apply)
        from Cons.IH[OF this] show ?thesis using 4(1) Inr by (simp add: payload_of_def)
      qed (use Cons.prems Inr in \<open>auto simp: payload_of_def split: if_splits option.splits\<close>)
    qed
  qed
  then show thesis using that by blast
qed

lemma write_payload_spec:
  assumes "write_payload env reads p declared t = (t', r)"
  obtains "t' = t" "\<exists>e. r = Err e"
  | b where "t p = None" "t' = t(p \<mapsto> AFile (ee_new_file_mode env) b)"
      "(\<exists>e. r = Err e) \<or> b = payload_of reads \<and> length b = declared \<and> r = Ok (ee_sha256 env b)"
proof (cases "ee_create_error env p = None \<and> t p = None")
  case True
  then have run: "tree_then (payload_loop env p declared reads [] (t(p \<mapsto> AFile (ee_new_file_mode env) [])))
              (\<lambda>written t.
                 if length written \<noteq> declared then (t, Err (reject ''archive is truncated inside a file payload''))
                 else case ee_sync_error env p of
                        Some e \<Rightarrow> (t, Err (apply_error (''cannot sync '' @ show_path p @ '': '' @ e)))
                      | None \<Rightarrow> (t, Ok (ee_sha256 env written))) = (t', r)"
    using assms by (simp add: write_payload_def)
  obtain u x where pl: "payload_loop env p declared reads [] (t(p \<mapsto> AFile (ee_new_file_mode env) [])) = (u, x)" by force
  then obtain b where "u = t(p \<mapsto> AFile (ee_new_file_mode env) b)" "x = Ok b \<and> b = [] @ payload_of reads \<or> (\<exists>e. x = Err e)"
    by (rule payload_loop_spec)
  then show thesis using run True that(2)[of b]
    by (cases x; cases "ee_sync_error env p") (auto simp: pl tree_then_def simp del: fun_upd_apply split: if_splits)
next
  case False
  then show thesis using assms that(1) by (cases "ee_create_error env p") (auto simp: write_payload_def)
qed

text \<open>Validated paths are plain: the kernel resolves them to themselves, below the destination.\<close>

definition plain_rel :: "string list \<Rightarrow> bool" where
  "plain_rel rel \<longleftrightarrow> list_all (\<lambda>c. c \<noteq> [] \<and> c \<noteq> ''.'' \<and> c \<noteq> ''..'' \<and> CHR ''/'' \<notin> set c \<and> \<not> list_ex is_ascii_control c) rel"

lemma walk_path_plain: "plain_rel rel \<Longrightarrow> walk_path dest rel = dest @ rel"
  by (induction rel arbitrary: dest) (auto simp: plain_rel_def)

lemma check_component_Ok:
  "check_component env path c rel = Ok r \<longleftrightarrow>
     r = rel @ [c] \<and> c \<noteq> [] \<and> c \<noteq> ''.'' \<and> c \<noteq> ''..'' \<and> length c \<le> MAX_COMPONENT_BYTES \<and> \<not> list_ex is_ascii_control c"
  by (auto simp: check_component_def)

lemma check_components_Ok:
  "try_fold (check_component env path) cs rel = Ok rel' \<longleftrightarrow>
   rel' = rel @ cs \<and> list_all (\<lambda>c. c \<noteq> [] \<and> c \<noteq> ''.'' \<and> c \<noteq> ''..'' \<and> length c \<le> MAX_COMPONENT_BYTES \<and> \<not> list_ex is_ascii_control c) cs"
proof (induction cs arbitrary: rel)
  case (Cons c cs)
  show ?case using Cons.IH[of "rel @ [c]"] by (auto simp: check_component_Ok)
qed auto

lemma validate_entry_path_Ok:
  assumes "validate_entry_path env path root = Ok rel"
  shows "plain_rel rel" "path = join ''/'' (root # rel) \<or> path = join ''/'' (root # rel) @ ''/''"
proof -
  let ?sep = "\<lambda>c. c = CHR ''/''"
  define trimmed where "trimmed = (case strip_suffix ''/'' path of Some s \<Rightarrow> s | None \<Rightarrow> path)"
  have run: "hd (split_on ?sep trimmed) = root" "try_fold (check_component env path) (tl (split_on ?sep trimmed)) [] = Ok rel"
    using assms by (auto simp: validate_entry_path_def trimmed_def Let_def split: if_splits)
  have cs: "split_on ?sep trimmed = root # rel"
  proof -
    have "rel = tl (split_on ?sep trimmed)" using run(2) by (simp add: check_components_Ok)
    then show ?thesis using run(1) by (cases "split_on ?sep trimmed") simp_all
  qed
  have "CHR ''/'' \<notin> set c" if "c \<in> set rel" for c
    using split_on_no_sep[of c ?sep trimmed] cs that by auto
  then show "plain_rel rel" using run(2) cs by (auto simp: plain_rel_def list_all_iff check_components_Ok)
  have "join ''/'' (root # rel) = trimmed" using join_split_on[of "CHR ''/''" trimmed] cs by simp
  moreover have "path = trimmed \<or> path = trimmed @ ''/''"
    by (auto simp: trimmed_def strip_suffix_def strip_prefix_def starts_with_iff split: option.splits if_splits)
  ultimately show "path = join ''/'' (root # rel) \<or> path = join ''/'' (root # rel) @ ''/''" by simp
qed

lemma check_item_Ok:
  assumes "check_item env root item st = Ok (entry, is_dir, rel, declared)"
  shows "item = Ok entry" "es_entries st < MAX_ENTRIES" "te_ustar entry" "te_type entry = (if is_dir then Directory else Regular)"
    "\<not> te_link entry" "te_path entry = te_header_path entry" "te_path entry \<notin> set (es_seen st)"
    "validate_entry_path env (te_path entry) root = Ok rel" "te_size entry = Ok declared"
proof -
  obtain e where item: "item = Ok e" using assms by (cases item) (auto simp: check_item_def)
  have "e = entry \<and> es_entries st < MAX_ENTRIES \<and> te_ustar entry \<and> entry_is_dir (te_type entry) = Ok is_dir \<and> \<not> te_link entry \<and>
      te_path entry = te_header_path entry \<and> te_path entry \<notin> set (es_seen st) \<and>
      validate_entry_path env (te_path entry) root = Ok rel \<and> te_size entry = Ok declared"
    using assms unfolding item check_item_def by (cases "te_size e") (auto split: if_splits)
  moreover have "te_type entry = (if is_dir then Directory else Regular)" if "entry_is_dir (te_type entry) = Ok is_dir"
    using that by (cases "te_type entry") (auto simp: entry_is_dir_def)
  ultimately show "item = Ok entry" "es_entries st < MAX_ENTRIES" "te_ustar entry" "te_type entry = (if is_dir then Directory else Regular)"
    "\<not> te_link entry" "te_path entry = te_header_path entry" "te_path entry \<notin> set (es_seen st)"
    "validate_entry_path env (te_path entry) root = Ok rel" "te_size entry = Ok declared"
    using item by blast+
qed

lemma extract_dir_confined:
  assumes "extract_dir env dest path rel declared t = (t', r)" "plain_rel rel"
  shows "confined dest t t'"
proof (cases "declared = 0 \<and> rel \<noteq> []")
  case True
  then have "tree_then (create_dir_all env (dest @ rel) t) (\<lambda>_ t. set_mode env (dest @ rel) 493 t) = (t', r)"
    using assms by (simp add: extract_dir_def walk_path_plain)
  then show ?thesis
  proof (cases rule: tree_then_cases)
    case (1 e)
    then show ?thesis using create_dir_all_confined(1) by blast
  next
    case (2 a u)
    have "is_dir_at u (dest @ rel)" using create_dir_all_confined(2)[OF 2(1), of rel "[]"] True by simp
    moreover have "below dest (dest @ rel)" using True by (auto simp: below_def)
    ultimately show ?thesis using set_mode_dir(1)[OF 2(2)] create_dir_all_confined(1)[OF 2(1)] confined_trans by blast
  qed
next
  case False
  then have "t' = t" using assms(1) by (auto simp: extract_dir_def split: if_splits)
  then show ?thesis by simp
qed

lemma confined_new_file:
  assumes "t p = None" "below dest p" shows "confined dest t (t(p \<mapsto> AFile m b))"
  using assms by (auto simp: confined_def is_dir_at_def)

text \<open>A regular entry: on every outcome the tree is confined, and on success the file is in place.\<close>

definition file_at :: "extract_env \<Rightarrow> path \<Rightarrow> (string + string) list \<Rightarrow> string list \<Rightarrow> extracted_file \<Rightarrow> tree \<Rightarrow> bool" where
  "file_at env dest reads rel f t \<longleftrightarrow>
     xf_path f = join ''/'' rel \<and> xf_size f = length (payload_of reads) \<and> xf_sha256 f = ee_sha256 env (payload_of reads) \<and>
     t (dest @ rel) = Some (AFile 420 (payload_of reads))"

lemma extract_file_spec:
  assumes "extract_file env dest installed reads rel declared st t = (t', r)" "plain_rel rel"
  shows "confined dest t t'"
    and "r = Ok st' \<Longrightarrow> rel \<noteq> [] \<and> t (dest @ rel) = None \<and> es_total st + declared \<le> installed \<and> es_total st + declared < 2 ^ 64 \<and>
      (\<exists>f. st' = st\<lparr>es_total := es_total st + declared, es_files := es_files st @ [f]\<rparr> \<and> xf_size f = declared \<and> file_at env dest reads rel f t')"
proof -
  let ?p = "dest @ rel"
  have "confined dest t t' \<and>
    (\<forall>st'. r = Ok st' \<longrightarrow> rel \<noteq> [] \<and> t ?p = None \<and> es_total st + declared \<le> installed \<and> es_total st + declared < 2 ^ 64 \<and>
      (\<exists>f. st' = st\<lparr>es_total := es_total st + declared, es_files := es_files st @ [f]\<rparr> \<and> xf_size f = declared \<and> file_at env dest reads rel f t'))"
  proof (cases "rel = [] \<or> es_total st + declared \<ge> 2 ^ 64 \<or> es_total st + declared > installed")
    case True
    then have "t' = t" "\<exists>e. r = Err e" using assms(1) by (auto simp: extract_file_def split: if_splits)
    then show ?thesis by auto
  next
    case False
    define fin where "fin = (\<lambda>sha t. (t :: tree, Ok (st\<lparr>es_total := es_total st + declared,
      es_files := es_files st @ [\<lparr>xf_path = join ''/'' rel, xf_size = declared, xf_sha256 = sha\<rparr>]\<rparr>) :: archive_error + extract_state))"
    have run: "tree_then (create_dir_all env (dest @ butlast rel) t) (\<lambda>_ t.
        tree_then (normalize_dirs env dest (dest @ butlast rel) t) (\<lambda>_ t.
        tree_then (write_payload env reads ?p declared t) (\<lambda>sha t.
        tree_then (set_mode env ?p 420 t) (\<lambda>_ t. fin sha t)))) = (t', r)"
      using assms False by (simp add: extract_file_def walk_path_plain butlast_append fin_def Let_def)
    have below: "below dest ?p" using False by (auto simp: below_def)
    from run show ?thesis
    proof (cases rule: tree_then_cases)
      case (1 e)
      then show ?thesis using create_dir_all_confined(1) by auto
    next
      case (2 a u)
      have cu: "confined dest t u" by (rule create_dir_all_confined(1)[OF 2(1)])
      have dirs: "is_dir_at u (dest @ q)" if "q \<noteq> []" "butlast rel = q @ s" for q s
        using create_dir_all_confined(2)[OF 2(1) _ that] by simp
      have norm: "confined dest t x" if "normalize_dirs env dest (dest @ butlast rel) u = (x, y)" for x y
        using confined_trans[OF cu normalize_dirs_confined[OF that]] dirs by blast
      from 2(2) show ?thesis
      proof (cases rule: tree_then_cases)
        case (1 e)
        then show ?thesis using norm[OF 1(1)] 1(2) by simp
      next
        case (2 a v)
        have cv: "confined dest t v" by (rule norm[OF 2(1)])
        have old: "t ?p = None" if "v ?p = None"
        proof (cases "t ?p")
          case (Some n)
          then show ?thesis using that cv by (cases n) (auto simp: confined_def is_dir_at_def)
        qed simp
        from 2(2) show ?thesis
        proof (cases rule: tree_then_cases)
          case (1 e)
          from 1(1) have "confined dest v t'"
            by (cases rule: write_payload_spec) (auto simp: confined_new_file[where p = ?p, OF _ below])
          then show ?thesis using 1 cv confined_trans by blast
        next
          case (2 sha w)
          from 2(1) obtain b where b: "v ?p = None" "w = v(?p \<mapsto> AFile (ee_new_file_mode env) b)" "b = payload_of reads"
            "length b = declared" "sha = ee_sha256 env b"
            by (cases rule: write_payload_spec) auto
          have new: "confined dest t (v(?p \<mapsto> AFile m b))" for m
            by (rule confined_trans[OF cv confined_new_file[of v ?p dest, OF b(1) below]])
          from 2(2) show ?thesis
          proof (cases rule: tree_then_cases)
            case (1 e)
            from 1(1) have "\<exists>m. t' = v(?p \<mapsto> AFile m b)"
              by (cases rule: set_mode_cases) (auto simp: b(2))
            then show ?thesis using new 1(2) by auto
          next
            case (2 a x)
            from 2(1) have "x = v(?p \<mapsto> AFile 420 b)" by (cases rule: set_mode_cases) (auto simp: b(2))
            then show ?thesis using new[of 420] 2(2) False old[OF b(1)] b by (auto simp: fin_def file_at_def)
          qed
        qed
      qed
    qed
  qed
  then show "confined dest t t'"
    "r = Ok st' \<Longrightarrow> rel \<noteq> [] \<and> t (dest @ rel) = None \<and> es_total st + declared \<le> installed \<and> es_total st + declared < 2 ^ 64 \<and>
      (\<exists>f. st' = st\<lparr>es_total := es_total st + declared, es_files := es_files st @ [f]\<rparr> \<and> xf_size f = declared \<and> file_at env dest reads rel f t')"
    by blast+
qed

lemma extract_entry_confined:
  assumes "extract_entry env root installed dest item st t = (t', r)"
  shows "confined dest t t'"
proof (cases "check_item env root item st")
  case (Inl e)
  then show ?thesis using assms by (simp add: extract_entry_def)
next
  case (Inr x)
  obtain entry is_dir rel declared where x: "x = (entry, is_dir, rel, declared)" by (cases x) auto
  have plain: "plain_rel rel" using check_item_Ok(8)[OF Inr[unfolded x]] validate_entry_path_Ok(1) by blast
  let ?st = "st\<lparr>es_entries := es_entries st + 1, es_seen := te_path entry # es_seen st\<rparr>"
  show ?thesis
  proof (cases is_dir)
    case True
    then have "tree_then (extract_dir env dest (te_path entry) rel declared t) (\<lambda>_ t. (t, Ok ?st)) = (t', r)"
      using assms Inr x by (simp add: extract_entry_def Let_def)
    then show ?thesis by (cases rule: tree_then_cases) (auto intro: extract_dir_confined[OF _ plain])
  next
    case False
    then have "extract_file env dest installed (te_reads entry) rel declared ?st t = (t', r)"
      using assms Inr x by (simp add: extract_entry_def Let_def)
    then show ?thesis using extract_file_spec(1) plain by blast
  qed
qed

lemma extract_items_confined:
  "extract_items env root installed dest items st t = (t', r) \<Longrightarrow> confined dest t t'"
proof (induction items arbitrary: st t)
  case (Cons item items)
  then have "tree_then (extract_entry env root installed dest item st t) (extract_items env root installed dest items) = (t', r)"
    by simp
  then show ?case
    by (cases rule: tree_then_cases) (use Cons.IH extract_entry_confined confined_trans in blast)+
qed simp

text \<open>
  C4. Whatever an archive holds, links, traversals, absolute or duplicate paths, and however the extraction
  ends, with success, a rejection or a failing system call, it changes nothing that exists outside its
  destination, it never touches a file that was there before, inside or outside, and all it may add
  outside are missing directories on the way to the destination.
\<close>

theorem extract_confined:
  "confined dest t (fst (extract_strict env archive items root installed_size dest t))"
proof (cases "ee_open_error env = None \<and> ee_entries_error env = None")
  case True
  obtain u x where run: "extract_items env root installed_size dest items extract_start t = (u, x)" by force
  then have "fst (extract_strict env archive items root installed_size dest t) = u"
    using True by (cases x) (simp_all add: extract_strict_def tree_then_def)
  then show ?thesis using extract_items_confined[OF run] by simp
qed (auto simp: extract_strict_def split: option.splits)

section \<open>What a successful extraction guarantees\<close>

definition regular_entries :: "(string + tar_entry) list \<Rightarrow> tar_entry list" where
  "regular_entries items = filter (\<lambda>e. te_type e = Regular) (map projr items)"

definition extracted_as :: "extract_env \<Rightarrow> string \<Rightarrow> path \<Rightarrow> tree \<Rightarrow> tar_entry \<Rightarrow> extracted_file \<Rightarrow> bool" where
  "extracted_as env root dest t entry f \<longleftrightarrow>
     (\<exists>rel. rel \<noteq> [] \<and> validate_entry_path env (te_path entry) root = Ok rel \<and> te_size entry = Ok (xf_size f) \<and>
            file_at env dest (te_reads entry) rel f t)"

definition plain_item :: "string + tar_entry \<Rightarrow> bool" where
  "plain_item item = (case item of Inl _ \<Rightarrow> False
     | Inr e \<Rightarrow> te_ustar e \<and> (te_type e = Regular \<or> te_type e = Directory) \<and> \<not> te_link e \<and> te_path e = te_header_path e)"

lemma extracted_as_confined:
  "confined dest t t' \<Longrightarrow> extracted_as env root dest t entry f \<Longrightarrow> extracted_as env root dest t' entry f"
  by (auto simp: extracted_as_def file_at_def confined_def)

lemma extract_entry_Ok:
  assumes "extract_entry env root installed dest item st t = (t', Ok st')"
  shows "plain_item item" "es_entries st < MAX_ENTRIES" "te_path (projr item) \<notin> set (es_seen st)"
    "es_entries st' = es_entries st + 1" "es_seen st' = te_path (projr item) # es_seen st"
    "te_type (projr item) = Directory \<and> es_total st' = es_total st \<and> es_files st' = es_files st \<or>
     te_type (projr item) = Regular \<and> (\<exists>f. es_files st' = es_files st @ [f] \<and> es_total st' = es_total st + xf_size f \<and>
       es_total st' \<le> installed \<and> extracted_as env root dest t' (projr item) f \<and>
       (\<forall>entry' f'. extracted_as env root dest t entry' f' \<longrightarrow> xf_path f' \<noteq> xf_path f))"
proof -
  obtain entry is_dir rel declared where c: "check_item env root item st = Ok (entry, is_dir, rel, declared)"
    using assms by (cases "check_item env root item st") (auto simp: extract_entry_def)
  note ok = check_item_Ok[OF c]
  let ?st = "st\<lparr>es_entries := es_entries st + 1, es_seen := te_path entry # es_seen st\<rparr>"
  have plain: "plain_rel rel" using ok(8) validate_entry_path_Ok(1) by blast
  show "plain_item item" using ok by (auto simp: plain_item_def)
  show "es_entries st < MAX_ENTRIES" "te_path (projr item) \<notin> set (es_seen st)" using ok by simp_all
  have "es_entries st' = es_entries st + 1 \<and> es_seen st' = te_path (projr item) # es_seen st \<and>
    (te_type (projr item) = Directory \<and> es_total st' = es_total st \<and> es_files st' = es_files st \<or>
     te_type (projr item) = Regular \<and> (\<exists>f. es_files st' = es_files st @ [f] \<and> es_total st' = es_total st + xf_size f \<and>
       es_total st' \<le> installed \<and> extracted_as env root dest t' (projr item) f \<and>
       (\<forall>entry' f'. extracted_as env root dest t entry' f' \<longrightarrow> xf_path f' \<noteq> xf_path f)))"
  proof (cases is_dir)
    case True
    then have "tree_then (extract_dir env dest (te_path entry) rel declared t) (\<lambda>_ t. (t, Ok ?st)) = (t', Ok st')"
      using assms c by (simp add: extract_entry_def Let_def)
    then have "st' = ?st" by (cases rule: tree_then_cases) auto
    then show ?thesis using True ok by simp
  next
    case False
    then have "extract_file env dest installed (te_reads entry) rel declared ?st t = (t', Ok st')"
      using assms c by (simp add: extract_entry_def Let_def)
    from extract_file_spec(2)[OF this plain refl] obtain f where f: "rel \<noteq> []" "t (dest @ rel) = None" "es_total st + declared \<le> installed"
      "st' = ?st\<lparr>es_total := es_total ?st + declared, es_files := es_files ?st @ [f]\<rparr>" "xf_size f = declared"
      "file_at env dest (te_reads entry) rel f t'" by auto
    have "xf_path f' \<noteq> xf_path f" if as: "extracted_as env root dest t entry' f'" for entry' f'
    proof
      assume eq: "xf_path f' = xf_path f"
      obtain rel' where rel': "rel' \<noteq> []" "validate_entry_path env (te_path entry') root = Ok rel'"
        "file_at env dest (te_reads entry') rel' f' t" using as by (auto simp: extracted_as_def)
      have inj: "split_on (\<lambda>c. c = CHR ''/'') (join ''/'' r) = r" if "plain_rel r" "r \<noteq> []" for r
        using that by (intro split_on_join) (auto simp: plain_rel_def list_all_iff)
      have "join ''/'' rel' = join ''/'' rel" using eq f(6) rel'(3) by (simp add: file_at_def)
      then have "rel' = rel" using inj[OF plain f(1)] inj[OF validate_entry_path_Ok(1)[OF rel'(2)] rel'(1)] by metis
      then show False using f(2) rel'(3) by (simp add: file_at_def)
    qed
    moreover have "extracted_as env root dest t' entry f"
      using f ok by (auto simp: extracted_as_def)
    ultimately show ?thesis using False ok f by auto
  qed
  then show "es_entries st' = es_entries st + 1" "es_seen st' = te_path (projr item) # es_seen st"
    "te_type (projr item) = Directory \<and> es_total st' = es_total st \<and> es_files st' = es_files st \<or>
     te_type (projr item) = Regular \<and> (\<exists>f. es_files st' = es_files st @ [f] \<and> es_total st' = es_total st + xf_size f \<and>
       es_total st' \<le> installed \<and> extracted_as env root dest t' (projr item) f \<and>
       (\<forall>entry' f'. extracted_as env root dest t entry' f' \<longrightarrow> xf_path f' \<noteq> xf_path f))" by blast+
qed

definition extract_inv :: "extract_env \<Rightarrow> string \<Rightarrow> path \<Rightarrow> (string + tar_entry) list \<Rightarrow> extract_state \<Rightarrow> tree \<Rightarrow> bool" where
  "extract_inv env root dest seen st t \<longleftrightarrow>
     list_all plain_item seen \<and> es_entries st = length seen \<and> length seen \<le> MAX_ENTRIES \<and>
     es_seen st = rev (map (te_path \<circ> projr) seen) \<and> distinct (map (te_path \<circ> projr) seen) \<and>
     es_total st = sum_list (map xf_size (es_files st)) \<and> distinct (map xf_path (es_files st)) \<and>
     list_all2 (extracted_as env root dest t) (regular_entries seen) (es_files st)"

lemma extract_inv_step:
  assumes "extract_entry env root installed dest item st t = (t', Ok st')" "extract_inv env root dest seen st t"
  shows "extract_inv env root dest (seen @ [item]) st' t'"
proof -
  note ok = extract_entry_Ok[OF assms(1)]
  have kept: "list_all2 (extracted_as env root dest t') (regular_entries seen) (es_files st)"
    using assms(2) extracted_as_confined[OF extract_entry_confined[OF assms(1)]]
    by (auto simp: extract_inv_def elim: list_all2_mono)
  have "es_total st' = sum_list (map xf_size (es_files st')) \<and> distinct (map xf_path (es_files st')) \<and>
     list_all2 (extracted_as env root dest t') (regular_entries (seen @ [item])) (es_files st')"
    using ok(6)
  proof
    assume dir: "te_type (projr item) = Directory \<and> es_total st' = es_total st \<and> es_files st' = es_files st"
    then show ?thesis using assms(2) kept by (simp add: extract_inv_def regular_entries_def)
  next
    assume "te_type (projr item) = Regular \<and> (\<exists>f. es_files st' = es_files st @ [f] \<and> es_total st' = es_total st + xf_size f \<and>
       es_total st' \<le> installed \<and> extracted_as env root dest t' (projr item) f \<and>
       (\<forall>entry' f'. extracted_as env root dest t entry' f' \<longrightarrow> xf_path f' \<noteq> xf_path f))"
    then obtain f where f: "te_type (projr item) = Regular" "es_files st' = es_files st @ [f]" "es_total st' = es_total st + xf_size f"
      "extracted_as env root dest t' (projr item) f" "\<And>entry' f'. extracted_as env root dest t entry' f' \<Longrightarrow> xf_path f' \<noteq> xf_path f"
      by blast
    have "xf_path f' \<noteq> xf_path f" if "f' \<in> set (es_files st)" for f'
    proof -
      have "\<exists>entry'. extracted_as env root dest t entry' f'"
        using assms(2) that by (auto simp: extract_inv_def list_all2_conv_all_nth in_set_conv_nth)
      then show ?thesis using f(5) by blast
    qed
    then have "xf_path f \<notin> xf_path ` set (es_files st)" by (metis imageE)
    then show ?thesis using assms(2) kept f(1-4) by (simp add: extract_inv_def regular_entries_def list_all2_appendI)
  qed
  then show ?thesis using assms(2) ok(1-5) by (auto simp: extract_inv_def)
qed

lemma extract_items_inv:
  "extract_items env root installed dest items st t = (t', Ok st') \<Longrightarrow> extract_inv env root dest seen st t \<Longrightarrow>
   extract_inv env root dest (seen @ items) st' t'"
proof (induction items arbitrary: seen st t)
  case (Cons item items)
  from Cons.prems(1) have "tree_then (extract_entry env root installed dest item st t) (extract_items env root installed dest items) = (t', Ok st')"
    by simp
  then show ?case
  proof (cases rule: tree_then_cases)
    case (2 a u)
    then show ?thesis using Cons.IH[OF 2(2) extract_inv_step[OF 2(1) Cons.prems(2)]] by simp
  qed simp
qed simp

text \<open>
  C40. An extraction that succeeds read only plain entries, at most \<open>MAX_ENTRIES\<close> of them and no path twice;
  its regular entries and the returned evidence correspond one to one: each file lies under its validated
  path below the destination with mode 0644, holds exactly the payload of its entry, and size and hash are
  those of that content. Paths are distinct and the sizes sum to the promised installed size.
\<close>

theorem extract_accepts_exactly:
  assumes "extract_strict env archive items root installed_size dest t = (t', Ok files)"
  shows "list_all plain_item items \<and> length items \<le> MAX_ENTRIES \<and> distinct (map (te_path \<circ> projr) items) \<and>
    files \<noteq> [] \<and> sum_list (map xf_size files) = installed_size \<and> distinct (map xf_path files) \<and>
    list_all2 (extracted_as env root dest t') (regular_entries items) files"
proof -
  obtain u x where run: "extract_items env root installed_size dest items extract_start t = (u, x)" by force
  have none: "ee_open_error env = None" "ee_entries_error env = None"
    using assms by (auto simp: extract_strict_def split: option.splits)
  then obtain st where st: "x = Ok st" "u = t'" "es_total st = installed_size" "es_files st \<noteq> []" "files = es_files st"
    using assms run by (cases x) (auto simp: extract_strict_def tree_then_def split: if_splits)
  have "extract_inv env root dest [] extract_start t" by (simp add: extract_inv_def extract_start_def regular_entries_def)
  from extract_items_inv[OF run[unfolded st] this] show ?thesis using st by (simp add: extract_inv_def)
qed

section \<open>Reading what was written\<close>

text \<open>Without faults and without a file in the way every call succeeds.\<close>

definition fault_free :: "extract_env \<Rightarrow> bool" where
  "fault_free env \<longleftrightarrow> ee_open_error env = None \<and> ee_entries_error env = None \<and> (\<forall>p. ee_mkdir_error env p = None) \<and>
     (\<forall>p. ee_chmod_error env p = None) \<and> (\<forall>p. ee_create_error env p = None) \<and> (\<forall>p b. ee_write_error env p b = None) \<and>
     (\<forall>p. ee_sync_error env p = None)"

definition no_file :: "tree \<Rightarrow> path \<Rightarrow> bool" where
  "no_file t p \<longleftrightarrow> t p = None \<or> is_dir_at t p"

lemma make_dirs_ok:
  assumes "fault_free env" "\<And>k. 0 < k \<Longrightarrow> no_file t (p @ take k cs)"
  shows "\<exists>t'. make_dirs env p cs t = (t', Ok ())"
  using assms(2)
proof (induction cs arbitrary: p t)
  case (Cons c cs)
  let ?q = "p @ [c]"
  have rest: "no_file t (?q @ take k cs)" for k using Cons.prems[of "Suc k"] by simp
  have mk: "ee_mkdir_error env ?q = None" using assms(1) by (simp add: fault_free_def)
  from rest[of 0] consider "t ?q = None" | m where "t ?q = Some (ADir m)" by (auto simp: no_file_def is_dir_at_def)
  then show ?case
  proof cases
    case 1
    have "no_file (t(?q \<mapsto> ADir (ee_new_dir_mode env))) (?q @ take k cs)" for k
      using rest[of k] by (auto simp: no_file_def is_dir_at_def)
    then show ?thesis using 1 mk Cons.IH[of "t(?q \<mapsto> ADir (ee_new_dir_mode env))" ?q] by (simp add: Let_def del: fun_upd_apply)
  next
    case 2
    then show ?thesis using Cons.IH[of t ?q] rest by (simp add: Let_def)
  qed
qed simp

lemma create_dir_all_ok:
  assumes "fault_free env" "\<And>k. 0 < k \<Longrightarrow> no_file t (take k p)"
  shows "\<exists>t'. create_dir_all env p t = (t', Ok ())"
  using make_dirs_ok[of env t "[]" p] assms by (auto simp: create_dir_all_def)

lemma set_mode_ok:
  assumes "fault_free env" "t p \<noteq> None" shows "\<exists>t'. set_mode env p mode t = (t', Ok ())"
  using assms by (auto simp: set_mode_def fault_free_def split: node.splits)

lemma normalize_dirs_ok:
  assumes "fault_free env" "\<And>q s. q \<noteq> [] \<Longrightarrow> rel = q @ s \<Longrightarrow> is_dir_at t (dest @ q)"
  shows "\<exists>t'. normalize_dirs env dest (dest @ rel) t = (t', Ok ())"
  using assms(2)
proof (induction rel arbitrary: t rule: rev_induct)
  case Nil
  then show ?case by (simp add: normalize_dirs.simps)
next
  case (snoc c rel)
  have dir: "is_dir_at t (dest @ rel @ [c])" using snoc.prems[of "rel @ [c]" "[]"] by simp
  have under: "below dest (dest @ rel @ [c])" by (auto simp: below_def)
  obtain u where u: "set_mode env (dest @ rel @ [c]) 493 t = (u, Ok ())"
    using set_mode_ok[OF assms(1), of t "dest @ rel @ [c]" 493] dir by (auto simp: is_dir_at_def)
  have "is_dir_at u (dest @ q)" if "q \<noteq> []" "rel = q @ s" for q s
    using set_mode_dir(2)[OF u dir under] snoc.prems[of q "s @ [c]"] that by simp
  then have "\<exists>t'. normalize_dirs env dest (dest @ rel) u = (t', Ok ())" using snoc.IH[of u] by blast
  then show ?case by (subst normalize_dirs.simps) (simp add: u[unfolded append_assoc[symmetric]] tree_then_def flip: append_assoc)
qed

lemma payload_loop_ok:
  assumes "fault_free env" "[] \<notin> set bufs" "length done + length (concat bufs) \<le> declared"
  shows "\<exists>t'. payload_loop env p declared (map Inr bufs) done t = (t', Ok (done @ concat bufs))"
  using assms(2,3)
proof (induction bufs arbitrary: "done" t)
  case (Cons b bufs)
  then show ?case using Cons.IH[of "done @ b" "t(p \<mapsto> AFile (ee_new_file_mode env) (done @ b))"] assms(1)
    by (auto simp: fault_free_def simp del: fun_upd_apply)
qed simp

lemma write_payload_ok:
  assumes "fault_free env" "[] \<notin> set bufs" "length (concat bufs) = declared" "t p = None"
  shows "\<exists>t'. write_payload env (map Inr bufs) p declared t = (t', Ok (ee_sha256 env (concat bufs)))"
  using payload_loop_ok[OF assms(1,2), of "[]" declared p "t(p \<mapsto> AFile (ee_new_file_mode env) [])"] assms
  by (auto simp: write_payload_def tree_then_def fault_free_def)

text \<open>Which nodes a step adds.\<close>

lemma create_dir_all_new:
  assumes "create_dir_all env path t = (t', r)" "t p = None" "t' p \<noteq> None"
  shows "is_dir_at t' p \<and> (\<exists>k. p = take k path)"
proof -
  obtain x where "make_dirs env [] path t = (t', x)" using assms(1) by (rule create_dir_all_cases)
  from make_dirs_spec(2)[OF this assms(2,3)] show ?thesis by simp
qed

lemma set_mode_dom: "set_mode env p mode t = (t', r) \<Longrightarrow> t' q = None \<longleftrightarrow> t q = None"
  by (erule set_mode_cases) auto

lemma normalize_dirs_dom:
  "normalize_dirs env stop current t = (t', r) \<Longrightarrow> t' q = None \<longleftrightarrow> t q = None"
proof (induction env stop current t arbitrary: t' r rule: normalize_dirs.induct)
  case (1 env stop current t)
  show ?case
  proof (cases "current = stop")
    case True
    then show ?thesis using "1.prems" by (simp add: normalize_dirs.simps)
  next
    case False
    then have "tree_then (set_mode env current 493 t)
        (\<lambda>_ t. if current = [] then (t, Ok ()) else normalize_dirs env stop (butlast current) t) = (t', r)"
      using "1.prems" by (subst (asm) normalize_dirs.simps) simp
    then show ?thesis
    proof (cases rule: tree_then_cases)
      case (2 a u)
      then show ?thesis using set_mode_dom[OF 2(1), of q] "1.IH"[OF False, of u t' r] by (cases "current = []") simp_all
    qed (use set_mode_dom in blast)
  qed
qed

lemma extract_file_ok:
  assumes "fault_free env" "plain_rel rel" "rel \<noteq> []" "[] \<notin> set bufs" "length (concat bufs) = declared"
    and "es_total st + declared < 2 ^ 64" "es_total st + declared \<le> installed"
    and "\<And>k. 0 < k \<Longrightarrow> no_file t (take k (dest @ butlast rel))" "t (dest @ rel) = None"
  shows "\<exists>t'. extract_file env dest installed (map Inr bufs) rel declared st t = (t', Ok (st\<lparr>es_total := es_total st + declared,
      es_files := es_files st @ [\<lparr>xf_path = join ''/'' rel, xf_size = declared, xf_sha256 = ee_sha256 env (concat bufs)\<rparr>]\<rparr>)) \<and>
      (\<forall>p. t p = None \<and> t' p \<noteq> None \<longrightarrow> p = dest @ rel \<or> is_dir_at t' p \<and> (\<exists>k. p = take k (dest @ butlast rel)))"
proof -
  let ?p = "dest @ rel"
  obtain u where u: "create_dir_all env (dest @ butlast rel) t = (u, Ok ())" using create_dir_all_ok[OF assms(1,8)] by blast
  have dirs: "is_dir_at u (dest @ q)" if "q \<noteq> []" "butlast rel = q @ s" for q s
    using create_dir_all_confined(2)[OF u refl that] .
  obtain v where v: "normalize_dirs env dest (dest @ butlast rel) u = (v, Ok ())"
    using normalize_dirs_ok[OF assms(1), of "butlast rel" u dest] dirs by blast
  have uv: "confined dest u v" by (rule normalize_dirs_confined[OF v]) (rule dirs)
  have short: "?p \<noteq> take k (dest @ butlast rel)" for k
  proof
    assume "?p = take k (dest @ butlast rel)"
    then have "length ?p \<le> length (dest @ butlast rel)" by (metis length_take min.cobounded1)
    then show False using assms(3) by (cases rel rule: rev_cases) simp_all
  qed
  have new: "is_dir_at v p \<and> (\<exists>k. p = take k (dest @ butlast rel))" if "t p = None" "v p \<noteq> None" for p
  proof -
    have "u p \<noteq> None" using normalize_dirs_dom[OF v, of p] that by simp
    then have "is_dir_at u p \<and> (\<exists>k. p = take k (dest @ butlast rel))" using create_dir_all_new[OF u that(1)] by simp
    then show ?thesis using uv by (simp add: confined_def)
  qed
  have free: "v ?p = None" using new[OF assms(9)] short by blast
  obtain w where w: "write_payload env (map Inr bufs) ?p declared v = (w, Ok (ee_sha256 env (concat bufs)))"
    using write_payload_ok[OF assms(1,4,5), of v ?p] free by blast
  then obtain b where b: "w = v(?p \<mapsto> AFile (ee_new_file_mode env) b)" by (cases rule: write_payload_spec) auto
  obtain x where x: "set_mode env ?p 420 w = (x, Ok ())" using set_mode_ok[OF assms(1), of w ?p] b by auto
  have xs: "x = v(?p \<mapsto> AFile 420 b)" using x by (cases rule: set_mode_cases) (auto simp: b)
  have "extract_file env dest installed (map Inr bufs) rel declared st t = (x, Ok (st\<lparr>es_total := es_total st + declared,
      es_files := es_files st @ [\<lparr>xf_path = join ''/'' rel, xf_size = declared, xf_sha256 = ee_sha256 env (concat bufs)\<rparr>]\<rparr>))"
    using assms(2,3,6,7) by (simp add: extract_file_def walk_path_plain butlast_append Let_def u v w x tree_then_def)
  moreover have "p = ?p \<or> is_dir_at x p \<and> (\<exists>k. p = take k (dest @ butlast rel))" if "t p = None" "x p \<noteq> None" for p
    using new[OF that(1)] that(2) by (auto simp: xs is_dir_at_def)
  ultimately show ?thesis by blast
qed

lemma extract_dir_ok:
  assumes "fault_free env" "plain_rel rel" "\<And>k. 0 < k \<Longrightarrow> no_file t (take k (dest @ rel))"
  shows "\<exists>t'. extract_dir env dest path rel 0 t = (t', Ok ()) \<and>
    (\<forall>p. t p = None \<and> t' p \<noteq> None \<longrightarrow> is_dir_at t' p \<and> (\<exists>k. p = take k (dest @ rel)))"
proof (cases "rel = []")
  case False
  obtain u where u: "create_dir_all env (dest @ rel) t = (u, Ok ())" using create_dir_all_ok[OF assms(1,3)] by blast
  have dir: "is_dir_at u (dest @ rel)" using create_dir_all_confined(2)[OF u, of rel "[]"] False by simp
  obtain x where x: "set_mode env (dest @ rel) 493 u = (x, Ok ())" using set_mode_ok[OF assms(1), of u "dest @ rel" 493] dir by (auto simp: is_dir_at_def)
  have ux: "confined dest u x" by (rule set_mode_dir(1)[OF x dir]) (use False in \<open>auto simp: below_def\<close>)
  have "is_dir_at x p \<and> (\<exists>k. p = take k (dest @ rel))" if "t p = None" "x p \<noteq> None" for p
  proof -
    have "u p \<noteq> None" using set_mode_dom[OF x, of p] that by simp
    then show ?thesis using create_dir_all_new[OF u that(1)] ux by (simp add: confined_def)
  qed
  then show ?thesis using False assms(2) by (auto simp: extract_dir_def walk_path_plain u x tree_then_def)
qed (auto simp: extract_dir_def)

text \<open>
  The shape of the tree below the destination while an archive of the writer is read: directories at \<open>D\<close>,
  files at \<open>F\<close> only.
\<close>

definition shaped :: "path \<Rightarrow> path set \<Rightarrow> path set \<Rightarrow> tree \<Rightarrow> bool" where
  "shaped dest D F t \<longleftrightarrow>
     (\<forall>k. 0 < k \<longrightarrow> no_file t (take k dest)) \<and>
     (\<forall>q n. q \<noteq> [] \<longrightarrow> t (dest @ q) = Some n \<longrightarrow> (case n of ADir _ \<Rightarrow> q \<in> D | AFile _ _ \<Rightarrow> q \<in> F))"

definition prefixes_in :: "path \<Rightarrow> path set \<Rightarrow> bool" where
  "prefixes_in rel D \<longleftrightarrow> (\<forall>k. 0 < k \<longrightarrow> take k rel \<noteq> [] \<longrightarrow> take k rel \<in> D)"

lemma shaped_no_file:
  assumes "shaped dest D F t" "D \<inter> F = {}" "prefixes_in rel D" "0 < k"
  shows "no_file t (take k (dest @ rel))"
proof (cases "k \<le> length dest")
  case True
  then show ?thesis using assms(1,4) by (simp add: shaped_def)
next
  case False
  then have p: "take k (dest @ rel) = dest @ take (k - length dest) rel" by simp
  show ?thesis
  proof (cases "take (k - length dest) rel = []")
    case True
    have "no_file t (take (Suc (length dest)) dest)" using assms(1) by (simp only: shaped_def zero_less_Suc)
    then show ?thesis unfolding p True by simp
  next
    case nonempty: False
    then have D: "take (k - length dest) rel \<in> D" using assms(3) False by (simp add: prefixes_in_def)
    show ?thesis
    proof (cases "t (dest @ take (k - length dest) rel)")
      case (Some n)
      have "case n of ADir _ \<Rightarrow> take (k - length dest) rel \<in> D | AFile _ _ \<Rightarrow> take (k - length dest) rel \<in> F"
        using assms(1) nonempty Some unfolding shaped_def by blast
      then show ?thesis using assms(2) D p Some by (cases n) (auto simp: no_file_def is_dir_at_def)
    qed (use p False in \<open>simp add: no_file_def\<close>)
  qed
qed

lemma no_file_confined: "confined dest t t' \<Longrightarrow> \<not> below dest p \<Longrightarrow> no_file t p \<Longrightarrow> no_file t' p"
  unfolding confined_def no_file_def is_dir_at_def by metis

lemma not_below_take: "\<not> below dest (take k dest)"
proof
  assume "below dest (take k dest)"
  then obtain q where "q \<noteq> []" "take k dest = dest @ q" by (auto simp: below_def)
  then have "length dest + length q \<le> length dest" by (metis length_append length_take min.cobounded1)
  then show False using \<open>q \<noteq> []\<close> by simp
qed

lemma shaped_step:
  assumes "shaped dest D F t" "confined dest t t'" "prefixes_in base D" "F \<subseteq> F'"
    and "\<And>p. t p = None \<and> t' p \<noteq> None \<Longrightarrow>
      (\<exists>rel m b. p = dest @ rel \<and> rel \<in> F' \<and> t' p = Some (AFile m b)) \<or> is_dir_at t' p \<and> (\<exists>k. p = take k (dest @ base))"
  shows "shaped dest D F' t'"
proof -
  have "case n of ADir _ \<Rightarrow> q \<in> D | AFile _ _ \<Rightarrow> q \<in> F'" if q: "q \<noteq> []" "t' (dest @ q) = Some n" for q n
  proof (cases "t (dest @ q)")
    case None
    from assms(5)[of "dest @ q"] None q(2) consider rel m b where "dest @ q = dest @ rel" "rel \<in> F'" "t' (dest @ q) = Some (AFile m b)"
      | k where "is_dir_at t' (dest @ q)" "dest @ q = take k (dest @ base)" by auto
    then show ?thesis
    proof cases
      case 2
      have eq: "q = take (k - length dest) base"
      proof -
        have "length dest + length q \<le> k" using arg_cong[OF 2(2), of length] by simp
        then show ?thesis using 2(2) q(1) by simp
      qed
      then have "q \<in> D" using assms(3) q(1) by (cases "k - length dest") (auto simp: prefixes_in_def)
      then show ?thesis using 2(1) q(2) by (auto simp: is_dir_at_def)
    qed (use q in auto)
  next
    case (Some m)
    then show ?thesis using assms(1,2,4) q by (cases m) (fastforce simp: shaped_def confined_def is_dir_at_def)+
  qed
  moreover have "no_file t' (take k dest)" if "0 < k" for k
    using no_file_confined[OF assms(2) not_below_take] assms(1) that by (simp add: shaped_def)
  ultimately show ?thesis by (simp add: shaped_def)
qed

text \<open>
  What is required of the \<open>tar\<close> crate's reader on an entry its writer was handed: a ustar header with
  the type, path and size it was given and no link, and reads that neither fail nor are empty before the
  end and together make up the payload. How the reads cut the payload is left open.
\<close>

definition gives_back :: "tar_header \<times> string \<Rightarrow> string + tar_entry \<Rightarrow> bool" where
  "gives_back e r =
     (case r of
        Inl _ \<Rightarrow> False
      | Inr entry \<Rightarrow>
          te_ustar entry \<and> te_type entry = th_type (fst e) \<and> \<not> te_link entry \<and> te_path entry = th_path (fst e) \<and>
          te_header_path entry = th_path (fst e) \<and> te_size entry = Ok (th_size (fst e)) \<and>
          list_all (\<lambda>x. case x of Inl _ \<Rightarrow> False | Inr buf \<Rightarrow> buf \<noteq> []) (te_reads entry) \<and>
          concat (map projr (te_reads entry)) = snd e)"

lemma gives_backE:
  assumes "gives_back e r"
  obtains bufs where "r = Ok \<lparr>te_ustar = True, te_type = th_type (fst e), te_link = False, te_path = th_path (fst e),
      te_header_path = th_path (fst e), te_size = Ok (th_size (fst e)), te_reads = map Inr bufs\<rparr>"
    "concat bufs = snd e" "[] \<notin> set bufs"
proof -
  obtain entry where r: "r = Ok entry" using assms by (cases r) (simp_all add: gives_back_def)
  have reads: "list_all (\<lambda>x. case x of Inl _ \<Rightarrow> False | Inr buf \<Rightarrow> buf \<noteq> []) (te_reads entry)"
    using assms by (simp add: r gives_back_def)
  have each: "Inr (projr x) = x \<and> projr x \<noteq> []" if "x \<in> set (te_reads entry)" for x
    using reads that by (cases x) (auto simp: list_all_iff)
  then have "map (Inr \<circ> projr) (te_reads entry) = te_reads entry" by (intro map_idI) simp
  moreover have "[] \<notin> set (map projr (te_reads entry))" using each by force
  ultimately show thesis using assms that [of "map projr (te_reads entry)"] by (cases entry) (simp add: r gives_back_def)
qed

definition good_root :: "string \<Rightarrow> bool" where
  "good_root root \<longleftrightarrow> root \<noteq> [] \<and> CHR ''/'' \<notin> set root \<and> CHR 0x5C \<notin> set root \<and> CHR 0x00 \<notin> set root"

definition good_rel :: "path \<Rightarrow> bool" where
  "good_rel rel \<longleftrightarrow> list_all (\<lambda>c. plain_component c \<and> CHR ''/'' \<notin> set c \<and> CHR 0x5C \<notin> set c \<and> \<not> list_ex is_ascii_control c) rel"

lemma good_rel_plain: "good_rel rel \<Longrightarrow> plain_rel rel"
  by (auto simp: good_rel_def plain_rel_def plain_component_def list_all_iff)

lemma join_set: "set (join sep xs) \<subseteq> set sep \<union> \<Union> (set ` set xs)"
  by (induction sep xs rule: join.induct) auto

lemma join_snoc_last:
  assumes "xs \<noteq> []" "list_all (\<lambda>x. x \<noteq> [] \<and> c \<notin> set x) xs"
  shows "join [c] xs \<noteq> []" "last (join [c] xs) \<noteq> c"
proof -
  have "join [c] xs \<noteq> [] \<and> last (join [c] xs) \<noteq> c"
    using assms by (induction xs) (auto simp: join_Cons list_all_iff)
  then show "join [c] xs \<noteq> []" "last (join [c] xs) \<noteq> c" by simp_all
qed

lemma validate_written_path:
  assumes "good_root root" "good_rel rel" "length path \<le> MAX_PATH_BYTES"
    and "path = join ''/'' (root # rel) \<or> path = join ''/'' (root # rel) @ ''/''"
  shows "validate_entry_path env path root = Ok rel"
proof -
  let ?sep = "\<lambda>c. c = CHR ''/''" and ?j = "join ''/'' (root # rel)"
  have parts: "list_all (\<lambda>x. x \<noteq> [] \<and> CHR ''/'' \<notin> set x) (root # rel)"
    using assms(1,2) by (auto simp: good_root_def good_rel_def plain_component_def list_all_iff)
  have split: "split_on ?sep ?j = root # rel" using parts by (intro split_on_join) (auto simp: list_all_iff)
  have last: "?j \<noteq> []" "last ?j \<noteq> CHR ''/''" using join_snoc_last[OF _ parts] by simp_all
  have "strip_suffix ''/'' ?j = None"
  proof (cases "strip_suffix ''/'' ?j")
    case (Some s)
    then have "?j = s @ ''/''" by (auto simp: strip_suffix_def strip_prefix_def starts_with_iff split: if_splits)
    then show ?thesis using last by simp
  qed simp
  then have trimmed: "(case strip_suffix ''/'' path of Some s \<Rightarrow> s | None \<Rightarrow> path) = ?j" using assms(4) by auto
  have "starts_with ''/'' path = False"
    using assms(1,4) by (cases root) (auto simp: good_root_def starts_with_def join_Cons)
  moreover have "CHR 0x5C \<notin> set path" "CHR 0x00 \<notin> set path"
  proof -
    have "set path \<subseteq> insert (CHR ''/'') (set root \<union> \<Union> (set ` set rel))" using assms(4) join_set[of "''/''" "root # rel"] by auto
    moreover have "is_ascii_control (CHR 0x00)" by (simp add: is_ascii_control_def byte_def)
    then have "CHR 0x00 \<notin> set c" "CHR 0x5C \<notin> set c" if "c \<in> set rel" for c
      using assms(2) that by (auto simp: good_rel_def list_all_iff list_ex_iff)
    ultimately show "CHR 0x5C \<notin> set path" "CHR 0x00 \<notin> set path" using assms(1) by (auto simp: good_root_def)
  qed
  moreover have "try_fold (check_component env path) rel [] = Ok rel"
    using assms(2) by (auto simp: check_components_Ok good_rel_def plain_component_def list_all_iff)
  ultimately show ?thesis
    unfolding validate_entry_path_def Let_def trimmed split using assms(3) by simp
qed

definition dir_entry :: "string \<Rightarrow> path \<Rightarrow> tar_header \<times> string" where
  "dir_entry root rel =
     (\<lparr>th_path = join ''/'' (root # rel) @ ''/'', th_size = 0, th_mode = 493, th_type = Directory\<rparr>, [])"

definition file_entry :: "string \<Rightarrow> path \<Rightarrow> string \<Rightarrow> tar_header \<times> string" where
  "file_entry root rel b =
     (\<lparr>th_path = join ''/'' (root # rel), th_size = length b, th_mode = 420, th_type = Regular\<rparr>, b)"

lemma read_dir_ok:
  assumes "fault_free env" "good_root root" "good_rel rel" "D \<inter> F = {}" "prefixes_in rel D" "shaped dest D F t"
    and "path = th_path (fst (dir_entry root rel))" "length path \<le> MAX_PATH_BYTES" "valid_utf8 path"
    and "es_entries st < MAX_ENTRIES" "path \<notin> set (es_seen st)"
    and "gives_back (dir_entry root rel) r"
  shows "\<exists>t'. extract_entry env root installed dest r st t =
      (t', Ok (st\<lparr>es_entries := es_entries st + 1, es_seen := path # es_seen st\<rparr>)) \<and> shaped dest D F t'"
proof -
  have path: "path = join ''/'' (root # rel) @ ''/''" using assms(7) by (simp add: dir_entry_def)
  have valid: "validate_entry_path env path root = Ok rel" by (rule validate_written_path) (use assms path in simp_all)
  have plain: "plain_rel rel" by (rule good_rel_plain[OF assms(3)])
  obtain t' where t': "extract_dir env dest path rel 0 t = (t', Ok ())"
    and new: "\<forall>p. t p = None \<and> t' p \<noteq> None \<longrightarrow> is_dir_at t' p \<and> (\<exists>k. p = take k (dest @ rel))"
    using extract_dir_ok[OF assms(1) plain, of t dest path] shaped_no_file[OF assms(6,4,5)] by blast
  have "shaped dest D F t'"
    by (rule shaped_step[OF assms(6) extract_dir_confined[OF t' plain] assms(5)]) (use new in auto)
  moreover obtain bufs where r: "r = Ok \<lparr>te_ustar = True, te_type = Directory, te_link = False, te_path = path,
      te_header_path = path, te_size = Ok 0, te_reads = map Inr bufs\<rparr>"
    using assms(12) by (rule gives_backE) (simp add: dir_entry_def path)
  then have "check_item env root r st = Ok (projr r, True, rel, 0)"
    using assms(8-11) valid by (simp add: check_item_def entry_is_dir_def path)
  ultimately show ?thesis
    using t' path r by (simp add: extract_entry_def tree_then_def Let_def)
qed

lemma read_file_ok:
  assumes "fault_free env" "good_root root" "good_rel rel" "rel \<noteq> []" "D \<inter> insert rel F = {}" "prefixes_in (butlast rel) D"
    and "shaped dest D F t" "rel \<notin> F"
    and "path = th_path (fst (file_entry root rel b))" "length path \<le> MAX_PATH_BYTES" "valid_utf8 path"
    and "es_entries st < MAX_ENTRIES" "path \<notin> set (es_seen st)"
    and "gives_back (file_entry root rel b) r" "es_total st + length b \<le> installed" "es_total st + length b < 2 ^ 64"
  shows "\<exists>t'. extract_entry env root installed dest r st t =
      (t', Ok (st\<lparr>es_entries := es_entries st + 1, es_seen := path # es_seen st, es_total := es_total st + length b,
         es_files := es_files st @ [\<lparr>xf_path = join ''/'' rel, xf_size = length b, xf_sha256 = ee_sha256 env b\<rparr>]\<rparr>)) \<and>
      shaped dest D (insert rel F) t'"
proof -
  have path: "path = join ''/'' (root # rel)" using assms(9) by (simp add: file_entry_def)
  have nonempty: "join ''/'' (root # rel) \<noteq> []" using assms(2) by (simp add: good_root_def join_Cons)
  have valid: "validate_entry_path env path root = Ok rel" by (rule validate_written_path) (use assms path in simp_all)
  have plain: "plain_rel rel" by (rule good_rel_plain[OF assms(3)])
  let ?st = "st\<lparr>es_entries := es_entries st + 1, es_seen := path # es_seen st\<rparr>"
  have disj: "D \<inter> F = {}" using assms(5) by auto
  have free: "t (dest @ rel) = None"
  proof (cases "t (dest @ rel)")
    case (Some n)
    then have "case n of ADir _ \<Rightarrow> rel \<in> D | AFile _ _ \<Rightarrow> rel \<in> F" using assms(4,7) unfolding shaped_def by blast
    then show ?thesis using assms(5,8) by (cases n) auto
  qed simp
  obtain bufs where r: "r = Ok \<lparr>te_ustar = True, te_type = Regular, te_link = False, te_path = path,
      te_header_path = path, te_size = Ok (length b), te_reads = map Inr bufs\<rparr>"
    and bufs: "concat bufs = b" "[] \<notin> set bufs"
    using assms(14) by (rule gives_backE) (simp add: file_entry_def path)
  obtain t' where t': "extract_file env dest installed (map Inr bufs) rel (length b) ?st t = (t', Ok (?st\<lparr>es_total := es_total ?st + length b,
      es_files := es_files ?st @ [\<lparr>xf_path = join ''/'' rel, xf_size = length b, xf_sha256 = ee_sha256 env (concat bufs)\<rparr>]\<rparr>))"
    and new: "\<forall>p. t p = None \<and> t' p \<noteq> None \<longrightarrow> p = dest @ rel \<or> is_dir_at t' p \<and> (\<exists>k. p = take k (dest @ butlast rel))"
    using extract_file_ok[OF assms(1) plain assms(4) bufs(2), of "length b" ?st installed t dest] bufs(1) assms(15,16)
      shaped_no_file[OF assms(7) disj assms(6)] free by auto
  have placed: "\<exists>m c. t' (dest @ rel) = Some (AFile m c)"
    using extract_file_spec(2)[OF t' plain refl] by (auto simp: file_at_def)
  have "shaped dest D (insert rel F) t'"
    by (rule shaped_step[OF assms(7) extract_file_spec(1)[OF t' plain] assms(6)]) (use new placed in blast)+
  moreover have "check_item env root r st = Ok (projr r, False, rel, length b)"
    using assms(10-13) valid nonempty by (simp add: check_item_def entry_is_dir_def path r)
  ultimately show ?thesis
    using t' path bufs(1) by (simp add: extract_entry_def r Let_def)
qed

lemma extract_items_append:
  "extract_items env root installed dest (xs @ ys) st t =
     tree_then (extract_items env root installed dest xs st t) (extract_items env root installed dest ys)"
proof (induction xs arbitrary: st t)
  case (Cons x xs)
  show ?case
  proof (cases "extract_entry env root installed dest x st t")
    case (Pair u r)
    then show ?thesis using Cons by (cases r) (simp_all add: tree_then_def)
  qed
qed (simp add: tree_then_def)

definition fits_archive :: "tar_header \<times> string \<Rightarrow> bool" where
  "fits_archive e \<longleftrightarrow> length (th_path (fst e)) \<le> MAX_PATH_BYTES \<and> valid_utf8 (th_path (fst e))"

abbreviation entry_paths :: "(tar_header \<times> string) list \<Rightarrow> string list" where
  "entry_paths es \<equiv> map (\<lambda>e. th_path (fst e)) es"

lemma read_dirs_ok:
  assumes "fault_free env" "good_root root" "D \<inter> F = {}"
    and "\<forall>rel \<in> set dirs. good_rel rel \<and> prefixes_in rel D \<and> fits_archive (dir_entry root rel)"
    and "distinct (entry_paths (map (dir_entry root) dirs))" "set (entry_paths (map (dir_entry root) dirs)) \<inter> set (es_seen st) = {}"
    and "es_entries st + length dirs \<le> MAX_ENTRIES" "shaped dest D F t" "list_all2 gives_back (map (dir_entry root) dirs) rs"
  shows "\<exists>t'. extract_items env root installed dest rs st t =
      (t', Ok (st\<lparr>es_entries := es_entries st + length dirs, es_seen := rev (entry_paths (map (dir_entry root) dirs)) @ es_seen st\<rparr>)) \<and>
      shaped dest D F t'"
  using assms(4-9)
proof (induction dirs arbitrary: st t rs)
  case (Cons rel dirs)
  obtain r rs' where rs: "rs = r # rs'" "gives_back (dir_entry root rel) r" "list_all2 gives_back (map (dir_entry root) dirs) rs'"
    using Cons.prems(6) by (auto simp: list_all2_Cons1)
  let ?path = "th_path (fst (dir_entry root rel))"
  let ?st = "st\<lparr>es_entries := es_entries st + 1, es_seen := ?path # es_seen st\<rparr>"
  obtain u where u: "extract_entry env root installed dest r st t = (u, Ok ?st)" "shaped dest D F u"
    using read_dir_ok[OF assms(1,2) _ assms(3) _ Cons.prems(5) refl, of rel st r installed] Cons.prems(1-4) rs(2)
    by (auto simp: fits_archive_def)
  have "\<exists>t'. extract_items env root installed dest rs' ?st u =
      (t', Ok (?st\<lparr>es_entries := es_entries ?st + length dirs, es_seen := rev (entry_paths (map (dir_entry root) dirs)) @ es_seen ?st\<rparr>)) \<and>
      shaped dest D F t'"
    by (rule Cons.IH) (use Cons.prems u(2) rs(3) in auto)
  then show ?case using u(1) by (simp add: tree_then_def rs(1))
qed simp

lemma read_files_ok:
  assumes "fault_free env" "good_root root" "installed < 2 ^ 64"
    and "\<forall>(rel, b) \<in> set fs. rel \<noteq> [] \<and> good_rel rel \<and> prefixes_in (butlast rel) D \<and> rel \<notin> D \<and> fits_archive (file_entry root rel b)"
    and "distinct (map fst fs)" "set (map fst fs) \<inter> F = {}" "D \<inter> F = {}"
    and "distinct (entry_paths (map (\<lambda>(rel, b). file_entry root rel b) fs))"
      "set (entry_paths (map (\<lambda>(rel, b). file_entry root rel b) fs)) \<inter> set (es_seen st) = {}"
    and "es_entries st + length fs \<le> MAX_ENTRIES" "es_total st + sum_list (map (length \<circ> snd) fs) \<le> installed" "shaped dest D F t"
    and "list_all2 gives_back (map (\<lambda>(rel, b). file_entry root rel b) fs) rs"
  shows "\<exists>t' st'. extract_items env root installed dest rs st t = (t', Ok st') \<and>
      es_total st' = es_total st + sum_list (map (length \<circ> snd) fs) \<and>
      es_files st' = es_files st @ map (\<lambda>(rel, b). \<lparr>xf_path = join ''/'' rel, xf_size = length b, xf_sha256 = ee_sha256 env b\<rparr>) fs"
  using assms(4-13)
proof (induction fs arbitrary: st t F rs)
  case (Cons f fs)
  obtain rel b where f: "f = (rel, b)" by (cases f)
  obtain r rs' where rs: "rs = r # rs'" "gives_back (file_entry root rel b) r"
    "list_all2 gives_back (map (\<lambda>(rel, b). file_entry root rel b) fs) rs'"
    using Cons.prems(10) f by (auto simp: list_all2_Cons1)
  let ?path = "th_path (fst (file_entry root rel b))"
  let ?st = "st\<lparr>es_entries := es_entries st + 1, es_seen := ?path # es_seen st, es_total := es_total st + length b,
         es_files := es_files st @ [\<lparr>xf_path = join ''/'' rel, xf_size = length b, xf_sha256 = ee_sha256 env b\<rparr>]\<rparr>"
  have rel: "rel \<noteq> []" "good_rel rel" "prefixes_in (butlast rel) D" "rel \<notin> D" "fits_archive (file_entry root rel b)" "rel \<notin> F"
    using Cons.prems(1,3) f by auto
  have disj: "D \<inter> insert rel F = {}" using rel(4) Cons.prems(4) by auto
  obtain u where u: "extract_entry env root installed dest r st t = (u, Ok ?st)" "shaped dest D (insert rel F) u"
    using read_file_ok[OF assms(1,2) rel(2,1) disj rel(3) Cons.prems(9) rel(6) refl, of b st r installed] assms(3) rel(5) rs(2) Cons.prems(5-8) f
    by (auto simp: fits_archive_def)
  have "\<exists>t' st'. extract_items env root installed dest rs' ?st u = (t', Ok st') \<and>
      es_total st' = es_total ?st + sum_list (map (length \<circ> snd) fs) \<and>
      es_files st' = es_files ?st @ map (\<lambda>(rel, b). \<lparr>xf_path = join ''/'' rel, xf_size = length b, xf_sha256 = ee_sha256 env b\<rparr>) fs"
    by (rule Cons.IH[of "insert rel F"]) (use Cons.prems u(2) disj f rs(3) in auto)
  then obtain t' st' where "extract_items env root installed dest rs' ?st u = (t', Ok st')"
    "es_total st' = es_total ?st + sum_list (map (length \<circ> snd) fs)"
    "es_files st' = es_files ?st @ map (\<lambda>(rel, b). \<lparr>xf_path = join ''/'' rel, xf_size = length b, xf_sha256 = ee_sha256 env b\<rparr>) fs" by blast
  then show ?case using u(1) f by (intro exI[of _ t'] exI[of _ st']) (simp add: tree_then_def comp_def rs(1))
qed simp

text \<open>What the writer hands to the tar builder.\<close>

lemma exact_copy_Ok: "exact_copy source n reads = Ok b \<Longrightarrow> b = payload_of reads \<and> length b = n"
proof (induction source n reads arbitrary: b rule: exact_copy.induct)
  case (1 source remaining)
  then show ?case by (auto simp: payload_of_def split: if_splits)
next
  case (2 source remaining r rs)
  obtain buf where r: "r = Ok buf" "length buf \<le> remaining" using "2.prems" by (cases r) (auto split: if_splits)
  show ?case
  proof (cases "buf = []")
    case True
    then show ?thesis using "2.prems" r by (auto simp: payload_of_def split: if_splits)
  next
    case False
    then obtain rest where rest: "exact_copy source (remaining - length buf) rs = Ok rest" "b = buf @ rest"
      using "2.prems" r by auto
    have "rest = payload_of rs \<and> length rest = remaining - length buf"
      using "2.IH"[OF r(1) _ False rest(1)] r(2) by auto
    then show ?thesis using rest(2) r False by (auto simp: payload_of_def)
  qed
qed

abbreviation comps :: "archive_input \<Rightarrow> path" where
  "comps i \<equiv> split_on (\<lambda>c. c = CHR ''/'') (ai_relative_path i)"

abbreviation source_bytes :: "write_env \<Rightarrow> archive_input \<Rightarrow> string" where
  "source_bytes env i \<equiv> payload_of (we_reads env (ai_source i))"

lemma validate_relative_input_Ok:
  assumes "validate_relative_input env path = Ok ()"
  shows "good_rel (split_on (\<lambda>c. c = CHR ''/'') path)"
proof -
  let ?cs = "split_on (\<lambda>c. c = CHR ''/'') path"
  have ok: "list_all plain_component ?cs" "CHR 0x5C \<notin> set path" "\<not> list_ex is_ascii_control path"
    using assms by (auto simp: validate_relative_input_def split: if_splits)
  have "set c \<subseteq> set path" if "c \<in> set ?cs" for c
  proof -
    have "set x \<subseteq> set xs" if "x \<in> set (split_on p xs)" for p :: "char \<Rightarrow> bool" and x xs
      using that by (induction xs arbitrary: x) (fastforce split: if_splits list.splits)+
    then show ?thesis using that by blast
  qed
  then show ?thesis using ok split_on_no_sep[of _ "\<lambda>c. c = CHR ''/''" path] by (fastforce simp: good_rel_def list_all_iff list_ex_iff)
qed

lemma collect_dirs_Ok:
  "try_fold (collect_dirs env root) is dirs = Ok dirs' \<longleftrightarrow>
     list_all (\<lambda>i. validate_relative_input env (ai_relative_path i) = Ok ()) is \<and>
     dirs' = dirs @ concat (map (\<lambda>i. input_dirs root (ai_relative_path i)) is)"
proof (induction "is" arbitrary: dirs)
  case (Cons i "is")
  show ?case using Cons.IH[of "dirs @ input_dirs root (ai_relative_path i)"]
    by (cases "validate_relative_input env (ai_relative_path i)") (auto simp: collect_dirs_def)
qed auto

lemma append_dirs_Ok:
  assumes "try_fold (append_dir env) ds out = Ok out'"
  shows "out' = out @ map (\<lambda>d. (\<lparr>th_path = d, th_size = 0, th_mode = 493, th_type = Directory\<rparr>, [])) ds \<and>
    list_all (\<lambda>d. we_fits env d = None) ds"
  using assms
proof (induction ds arbitrary: out)
  case (Cons d ds)
  from Cons.prems obtain mid where mid: "append_dir env d out = Ok mid" "try_fold (append_dir env) ds mid = Ok out'" by auto
  have "we_fits env d = None \<and> mid = out @ [(\<lparr>th_path = d, th_size = 0, th_mode = 493, th_type = Directory\<rparr>, [])]"
    using mid(1) by (auto simp: append_dir_def pack_header_def append_entry_def split: option.splits)
  then show ?case using Cons.IH[OF mid(2)] by simp
qed simp

lemma append_files_Ok:
  assumes "try_fold (append_file env root) is (out, n) = Ok (out', n')"
  shows "out' = out @ map (\<lambda>i. (\<lparr>th_path = root @ ''/'' @ ai_relative_path i, th_size = length (source_bytes env i), th_mode = 420,
      th_type = Regular\<rparr>, source_bytes env i)) is \<and>
    n' = n + sum_list (map (\<lambda>i. length (source_bytes env i)) is) \<and> (n < 2 ^ 64 \<longrightarrow> n' < 2 ^ 64) \<and>
    list_all (\<lambda>i. we_fits env (root @ ''/'' @ ai_relative_path i) = None) is"
  using assms
proof (induction "is" arbitrary: out n)
  case (Cons i "is")
  from Cons.prems obtain mid m where mid: "append_file env root i (out, n) = Ok (mid, m)"
    "try_fold (append_file env root) is (mid, m) = Ok (out', n')" by auto
  obtain len b where "exact_copy (ai_source i) len (we_reads env (ai_source i)) = Ok b" "m = n + len" "m < 2 ^ 64"
    "we_fits env (root @ ''/'' @ ai_relative_path i) = None"
    "mid = out @ [(\<lparr>th_path = root @ ''/'' @ ai_relative_path i, th_size = len, th_mode = 420, th_type = Regular\<rparr>, b)]"
    using mid(1)
    by (auto simp: append_file_def pack_header_def append_entry_def not_le split: option.splits sum.splits if_splits)
  then show ?case using Cons.IH[OF mid(2)] exact_copy_Ok by fastforce
qed simp

lemma valid_utf8_join: "xs \<noteq> [] \<Longrightarrow> valid_utf8 (join ''/'' xs) \<longleftrightarrow> list_all valid_utf8 xs"
proof (induction xs)
  case (Cons x xs)
  have "byte (CHR ''/'') < 128" by (simp add: byte_def)
  then show ?case using Cons valid_utf8_cut[of "CHR ''/''" x "join ''/'' xs"] by (auto simp: join_Cons)
qed simp

lemma join_slash: "join ''/'' (x # xs) @ ''/'' = x @ ''/'' @ concat (map (\<lambda>c. c @ ''/'') xs)"
  by (induction xs arbitrary: x) (auto simp: join_Cons)

lemma input_dirs_eq:
  "input_dirs root path =
     (let cs = butlast (split_on (\<lambda>c. c = CHR ''/'') path) in
      map (\<lambda>n. join ''/'' (root # take (Suc n) cs) @ ''/'') [0..<length cs])"
  by (simp only: input_dirs_def Let_def join_slash)

definition dir_rels :: "archive_input list \<Rightarrow> path set" where
  "dir_rels is = {q. q \<noteq> [] \<and> (\<exists>i \<in> set is. \<exists>s. s \<noteq> [] \<and> comps i = q @ s)}"

lemma dir_rels_prefix:
  assumes "i \<in> set is" "comps i = q @ s" "s \<noteq> []" shows "prefixes_in q (dir_rels is)"
proof -
  have "take k q \<in> dir_rels is" if "take k q \<noteq> []" for k
  proof -
    have "comps i = take k q @ (drop k q @ s)" using assms(2) by (simp flip: append_assoc)
    then show ?thesis using that assms(1,3) unfolding dir_rels_def by blast
  qed
  then show ?thesis by (simp add: prefixes_in_def)
qed

lemma written_dirs:
  assumes "d \<in> set ((root @ ''/'') # concat (map (\<lambda>i. input_dirs root (ai_relative_path i)) is))"
  obtains rel where "d = join ''/'' (root # rel) @ ''/''" "rel = [] \<or> (\<exists>i \<in> set is. \<exists>s. s \<noteq> [] \<and> comps i = rel @ s)"
proof (cases "d = root @ ''/''")
  case True
  then show thesis using that[of "[]"] by simp
next
  case False
  then have "d \<in> set (concat (map (\<lambda>i. input_dirs root (ai_relative_path i)) is))" using assms by simp
  then obtain i where i: "i \<in> set is" "d \<in> set (input_dirs root (ai_relative_path i))" by auto
  then obtain n where n: "d = join ''/'' (root # take (Suc n) (butlast (comps i))) @ ''/''"
    unfolding input_dirs_eq Let_def by auto
  let ?rel = "take (Suc n) (butlast (comps i))"
  have "comps i = ?rel @ (drop (Suc n) (butlast (comps i)) @ [last (comps i)])"
    by (simp only: append_assoc[symmetric] append_take_drop_id) simp
  then show thesis using that[OF n] i(1) by blast
qed

text \<open>With sorted inputs the check of neighbours finds every duplicate.\<close>

lemma check_duplicates_Ok:
  "check_duplicates env is = Ok () \<Longrightarrow> sorted (map ai_relative_path is) \<Longrightarrow> distinct (map ai_relative_path is)"
proof (induction env "is" rule: check_duplicates.induct)
  case (1 env a b rest)
  then have rest: "distinct (map ai_relative_path (b # rest))" and ne: "ai_relative_path a \<noteq> ai_relative_path b"
    by (auto split: if_splits)
  have "ai_relative_path a < ai_relative_path b" using "1.prems"(2) ne by (simp add: less_le)
  then have "ai_relative_path a \<notin> set (map ai_relative_path (b # rest))" using "1.prems"(2) by fastforce
  then show ?case using rest by simp
qed simp_all

lemma write_deterministic_Ok:
  assumes "write_deterministic env root inputs = Ok (out, wa)"
  defines "is \<equiv> sort_key ai_relative_path inputs"
  obtains ds where "list_all (\<lambda>i. good_rel (comps i)) is" "distinct (map ai_relative_path is)"
    "distinct ds" "set ds = set ((root @ ''/'') # concat (map (\<lambda>i. input_dirs root (ai_relative_path i)) is))"
    "out = map (\<lambda>d. (\<lparr>th_path = d, th_size = 0, th_mode = 493, th_type = Directory\<rparr>, [])) ds @
       map (\<lambda>i. file_entry root (comps i) (source_bytes env i)) is"
    "wa_installed_size wa = sum_list (map (\<lambda>i. length (source_bytes env i)) is)" "wa_installed_size wa < 2 ^ 64"
    "\<forall>e \<in> set out. we_fits env (th_path (fst e)) = None"
proof -
  obtain dirs o1 o2 n where w: "check_duplicates env is = Ok ()" "try_fold (collect_dirs env root) is [root @ ''/''] = Ok dirs"
    "try_fold (append_dir env) (sort (remdups dirs)) [] = Ok o1" "try_fold (append_file env root) is (o1, 0) = Ok (o2, n)"
    "out = o2" "wa_installed_size wa = n"
    using assms(1) unfolding write_deterministic_def Let_def is_def
    by (auto split: option.splits prod.splits)
  note c = w(2)[unfolded collect_dirs_Ok] and a = append_dirs_Ok[OF w(3)] and f = append_files_Ok[OF w(4)]
  have path: "root @ ''/'' @ ai_relative_path i = join ''/'' (root # comps i)" for i
    using join_split_on[of "CHR ''/''" "ai_relative_path i"] by (simp add: join_Cons)
  show thesis
  proof (rule that[of "sort (remdups dirs)"])
    show "list_all (\<lambda>i. good_rel (comps i)) is" using c validate_relative_input_Ok by (auto simp: list_all_iff)
    show "distinct (map ai_relative_path is)" by (rule check_duplicates_Ok[OF w(1)]) (simp add: is_def)
    show "set (sort (remdups dirs)) = set ((root @ ''/'') # concat (map (\<lambda>i. input_dirs root (ai_relative_path i)) is))"
      using c unfolding set_sort set_remdups by simp
    show "out = map (\<lambda>d. (\<lparr>th_path = d, th_size = 0, th_mode = 493, th_type = Directory\<rparr>, [])) (sort (remdups dirs)) @
       map (\<lambda>i. file_entry root (comps i) (source_bytes env i)) is"
      using a f w(5) by (simp add: file_entry_def path[symmetric])
    show "\<forall>e \<in> set out. we_fits env (th_path (fst e)) = None" using a f w(5) by (auto simp: list_all_iff)
  qed (use f w in simp_all)
qed

lemma good_root_name:
  assumes "valid_model_name root = Ok ()" shows "good_root root" "valid_utf8 root"
proof -
  have ok: "root \<noteq> []" "\<forall>c \<in> set root. name_byte c"
    using assms by (auto simp: valid_model_name_def valid_token_def find_None_iff split: if_splits option.splits)
  have byte: "\<not> name_byte (CHR ''/'')" "\<not> name_byte (CHR 0x5C)" "\<not> name_byte (CHR 0x00)"
    by (simp_all add: name_byte_def is_ascii_lowercase_def is_ascii_digit_def byte_def)
  then show "good_root root" using ok by (auto simp: good_root_def)
  have "byte c < 128" if "name_byte c" for c
    using that by (auto simp: name_byte_def is_ascii_lowercase_def is_ascii_digit_def) (simp_all add: byte_def)
  then show "valid_utf8 root" using ok by (intro valid_utf8_ascii) blast
qed

lemma payload_of_chunks: "[] \<notin> set bufs \<Longrightarrow> payload_of (map Inr bufs) = concat bufs"
  by (induction bufs) (auto simp: payload_of_def)

lemma good_rel_append: "good_rel (q @ s) \<longleftrightarrow> good_rel q \<and> good_rel s"
  by (simp add: good_rel_def)

lemma split_root: "good_root root \<Longrightarrow> good_rel rel \<Longrightarrow> split_on (\<lambda>c. c = CHR ''/'') (join ''/'' (root # rel)) = root # rel"
  by (rule split_on_join) (auto simp: good_root_def good_rel_def list_all_iff)

lemma dir_paths_utf8:
  assumes "valid_utf8 root" "list_all valid_utf8 rel" shows "valid_utf8 (join ''/'' (root # rel) @ ''/'')"
  using assms by (intro valid_utf8_append[OF _ valid_utf8_ascii]) (simp_all add: valid_utf8_join byte_def)

lemma comps_utf8: "valid_utf8 (ai_relative_path i) \<Longrightarrow> list_all valid_utf8 (comps i)"
  using valid_utf8_join[OF split_on_nonempty, of "\<lambda>c. c = CHR ''/''" "ai_relative_path i"]
    join_split_on[of "CHR ''/''" "ai_relative_path i"] by simp

text \<open>The directory entries of the writer, as paths below the root.\<close>

lemma written_dirs_as_rels:
  assumes "good_root root" "valid_utf8 root" "list_all (\<lambda>i. good_rel (comps i)) xs" "\<forall>i \<in> set xs. valid_utf8 (ai_relative_path i)"
    and "set ds = set ((root @ ''/'') # concat (map (\<lambda>i. input_dirs root (ai_relative_path i)) xs))"
  shows "\<exists>dirs. map (dir_entry root) dirs = map (\<lambda>d. (\<lparr>th_path = d, th_size = 0, th_mode = 493, th_type = Directory\<rparr>, [])) ds \<and>
    (\<forall>rel \<in> set dirs. good_rel rel \<and> prefixes_in rel (dir_rels xs) \<and> valid_utf8 (th_path (fst (dir_entry root rel))))"
proof -
  define rel_of where "rel_of d = tl (split_on (\<lambda>c. c = CHR ''/'') (butlast d))" for d
  have each: "dir_entry root (rel_of d) = (\<lparr>th_path = d, th_size = 0, th_mode = 493, th_type = Directory\<rparr>, []) \<and>
      good_rel (rel_of d) \<and> prefixes_in (rel_of d) (dir_rels xs) \<and> valid_utf8 d" if "d \<in> set ds" for d
  proof -
    obtain rel where rel: "d = join ''/'' (root # rel) @ ''/''" "rel = [] \<or> (\<exists>i \<in> set xs. \<exists>s. s \<noteq> [] \<and> comps i = rel @ s)"
      using \<open>d \<in> set ds\<close>[unfolded assms(5)] by (rule written_dirs)
    have "good_rel rel \<and> prefixes_in rel (dir_rels xs) \<and> list_all valid_utf8 rel"
      using rel(2)
    proof
      assume "\<exists>i \<in> set xs. \<exists>s. s \<noteq> [] \<and> comps i = rel @ s"
      then obtain i s where i: "i \<in> set xs" "s \<noteq> []" "comps i = rel @ s" by blast
      have "good_rel (rel @ s)" "list_all valid_utf8 (rel @ s)"
        using assms(3,4) comps_utf8[of i] i(1) unfolding i(3)[symmetric] by (auto simp: list_all_iff)
      then show ?thesis using dir_rels_prefix[OF i(1,3,2)] by (simp add: good_rel_append)
    qed (simp add: good_rel_def prefixes_in_def)
    moreover have "rel_of d = rel" using split_root[OF assms(1)] calculation by (simp add: rel_of_def rel(1))
    ultimately show ?thesis using dir_paths_utf8[OF assms(2)] by (simp add: dir_entry_def rel(1))
  qed
  then have "map (dir_entry root) (map rel_of ds) = map (\<lambda>d. (\<lparr>th_path = d, th_size = 0, th_mode = 493, th_type = Directory\<rparr>, [])) ds"
    by simp
  then show ?thesis using each by (intro exI[of _ "map rel_of ds"]) auto
qed

lemma read_written_items:
  assumes "fault_free env" "good_root root" "valid_utf8 root" "list_all2 gives_back out rs"
    and "list_all (\<lambda>i. good_rel (comps i)) xs" "distinct (map ai_relative_path xs)" "\<forall>i \<in> set xs. valid_utf8 (ai_relative_path i)"
    and "\<forall>i \<in> set xs. \<forall>j \<in> set xs. \<forall>s. s \<noteq> [] \<longrightarrow> comps j \<noteq> comps i @ s"
    and "\<forall>rel \<in> set dirs. good_rel rel \<and> prefixes_in rel (dir_rels xs) \<and> valid_utf8 (th_path (fst (dir_entry root rel)))"
    and "distinct (entry_paths (map (dir_entry root) dirs))"
    and "out = map (dir_entry root) dirs @ map (\<lambda>i. file_entry root (comps i) (bytes i)) xs"
    and "\<forall>e \<in> set out. length (th_path (fst e)) \<le> 256" "length out \<le> MAX_ENTRIES"
    and "installed = sum_list (map (\<lambda>i. length (bytes i)) xs)" "installed < 2 ^ 64" "shaped dest (dir_rels xs) {} t"
  shows "\<exists>t' st'. extract_items env root installed dest rs extract_start t = (t', Ok st') \<and>
    es_total st' = installed \<and>
    es_files st' = map (\<lambda>i. \<lparr>xf_path = ai_relative_path i, xf_size = length (bytes i), xf_sha256 = ee_sha256 env (bytes i)\<rparr>) xs"
proof -
  define fs where "fs = map (\<lambda>i. (comps i, bytes i)) xs"
  have files: "map (\<lambda>(rel, b). file_entry root rel b) fs = map (\<lambda>i. file_entry root (comps i) (bytes i)) xs" by (simp add: fs_def)
  have max: "(256 :: nat) \<le> MAX_PATH_BYTES" by (simp add: MAX_PATH_BYTES_def)
  have joined: "join ''/'' (comps i) = ai_relative_path i" for i using join_split_on[of "CHR ''/''" "ai_relative_path i"] .
  have path: "th_path (fst (file_entry root (comps i) b)) = root @ ''/'' @ ai_relative_path i" for i b
    using joined[of i] by (simp add: file_entry_def join_Cons)
  obtain rs1 rs2 where rs: "rs = rs1 @ rs2" "list_all2 gives_back (map (dir_entry root) dirs) rs1"
    "list_all2 gives_back (map (\<lambda>(rel, b). file_entry root rel b) fs) rs2"
    using assms(4) unfolding assms(11) files by (auto simp: list_all2_append1)
  let ?st = "extract_start\<lparr>es_entries := length dirs, es_seen := rev (entry_paths (map (dir_entry root) dirs))\<rparr>"
  obtain u where u: "extract_items env root installed dest rs1 extract_start t = (u, Ok ?st)"
      "shaped dest (dir_rels xs) {} u"
    using read_dirs_ok[OF assms(1,2), of "dir_rels xs" "{}" dirs extract_start dest t rs1 installed] assms(9-13,16) max rs(2)
    by (force simp: fits_archive_def extract_start_def)
  have "\<forall>(rel, b) \<in> set fs. rel \<noteq> [] \<and> good_rel rel \<and> prefixes_in (butlast rel) (dir_rels xs) \<and> rel \<notin> dir_rels xs \<and> fits_archive (file_entry root rel b)"
  proof (clarify)
    fix rel b assume "(rel, b) \<in> set fs"
    then obtain i where i: "i \<in> set xs" "rel = comps i" "b = bytes i" by (auto simp: fs_def)
    have pre: "prefixes_in (butlast (comps i)) (dir_rels xs)" by (rule dir_rels_prefix[OF i(1), of _ "[last (comps i)]"]) simp_all
    have "rel \<notin> dir_rels xs" using assms(8) i(1,2) by (auto simp: dir_rels_def)
    moreover have "valid_utf8 (th_path (fst (file_entry root rel b)))"
      using assms(3,7) comps_utf8 i(1,2) by (simp add: file_entry_def valid_utf8_join)
    moreover have "length (th_path (fst (file_entry root rel b))) \<le> 256" using assms(11,12) i by auto
    ultimately show "rel \<noteq> [] \<and> good_rel rel \<and> prefixes_in (butlast rel) (dir_rels xs) \<and> rel \<notin> dir_rels xs \<and> fits_archive (file_entry root rel b)"
      using assms(5) i(1) pre max by (simp add: i(2) list_all_iff fits_archive_def)
  qed
  moreover have "distinct (map fst fs)"
  proof -
    have "map (join ''/'') (map comps xs) = map ai_relative_path xs" by (simp add: joined)
    then have "distinct (map comps xs)" using assms(6) distinct_map by metis
    then show ?thesis by (simp add: fs_def comp_def)
  qed
  moreover have "distinct (entry_paths (map (\<lambda>(rel, b). file_entry root rel b) fs))"
    using assms(6) by (simp add: fs_def comp_def path distinct_map inj_on_def)
  moreover have "set (entry_paths (map (\<lambda>(rel, b). file_entry root rel b) fs)) \<inter> set (es_seen ?st) = {}"
  proof -
    have "th_path (fst (file_entry root (comps i) (bytes i))) \<noteq> d @ ''/''" if "i \<in> set xs" for i d
    proof
      assume eq: "th_path (fst (file_entry root (comps i) (bytes i))) = d @ ''/''"
      have "list_all (\<lambda>x. x \<noteq> [] \<and> CHR ''/'' \<notin> set x) (root # comps i)"
        using assms(2,5) that by (auto simp: good_root_def good_rel_def plain_component_def list_all_iff)
      from join_snoc_last(2)[OF _ this] show False using eq by (simp add: file_entry_def)
    qed
    then show ?thesis by (fastforce simp: fs_def dir_entry_def)
  qed
  ultimately have "\<exists>t' st'. extract_items env root installed dest rs2 ?st u = (t', Ok st') \<and>
      es_total st' = es_total ?st + sum_list (map (length \<circ> snd) fs) \<and>
      es_files st' = es_files ?st @ map (\<lambda>(rel, b). \<lparr>xf_path = join ''/'' rel, xf_size = length b, xf_sha256 = ee_sha256 env b\<rparr>) fs"
    using assms(11,13,14) by (intro read_files_ok[OF assms(1,2,15) _ _ _ _ _ _ _ _ u(2) rs(3)])
      (simp_all add: fs_def extract_start_def comp_def)
  then show ?thesis
    using u(1) by (auto simp: assms(14) rs(1) extract_items_append tree_then_def extract_start_def fs_def comp_def joined)
qed

lemma written_file_placed:
  assumes "extract_inv env root dest rs st t" "file_entry root rel b \<in> set out"
    and "good_root root" "good_rel rel" "length (th_path (fst (file_entry root rel b))) \<le> MAX_PATH_BYTES"
    and "list_all2 gives_back out rs"
  shows "t (dest @ rel) = Some (AFile 420 b)"
proof -
  obtain r where r: "r \<in> set rs" "gives_back (file_entry root rel b) r"
    using assms(2,6) by (metis in_set_conv_nth list_all2_conv_all_nth)
  from r(2) obtain bufs where bufs: "r = Ok \<lparr>te_ustar = True, te_type = Regular, te_link = False, te_path = join ''/'' (root # rel),
      te_header_path = join ''/'' (root # rel), te_size = Ok (length b), te_reads = map Inr bufs\<rparr>"
    "concat bufs = b" "[] \<notin> set bufs" by (rule gives_backE) (simp add: file_entry_def)
  define entry where "entry = projr r"
  have entry: "te_path entry = join ''/'' (root # rel)" "te_reads entry = map Inr bufs" "te_type entry = Regular"
    by (simp_all add: entry_def bufs(1))
  have "entry \<in> set (regular_entries rs)"
    using r(1) entry(3) by (auto simp: regular_entries_def entry_def)
  then obtain f where f: "extracted_as env root dest t entry f"
    using assms(1) by (auto simp: extract_inv_def list_all2_conv_all_nth in_set_conv_nth)
  moreover have "validate_entry_path env (te_path entry) root = Ok rel"
    by (rule validate_written_path[OF assms(3,4)]) (use assms(5) entry(1) in \<open>simp_all add: file_entry_def\<close>)
  ultimately have "t (dest @ rel) = Some (AFile 420 (payload_of (te_reads entry)))" by (auto simp: extracted_as_def file_at_def)
  then show ?thesis using bufs(2,3) entry(2) by (simp add: payload_of_chunks)
qed

text \<open>
  C11. Round trip. Let \<open>write_deterministic\<close> succeed for a valid model name on at least one input, with
  at most \<open>MAX_ENTRIES\<close> entries (which the writer does not check), UTF-8 paths and no input under another
  one. Then \<open>extract_strict\<close> accepts what the \<open>tar\<close> crate reads back, in a directory with nothing in it
  and when no call fails: every input lies under its relative path with the bytes of its source and mode
  0644, and the evidence lists the inputs in order with their sizes and hashes. The crate is the parameter
  \<open>untar\<close>; required of it is that entries whose headers it accepted and whose payloads have the declared
  sizes are given back, and that it accepts no path beyond a ustar header (256 bytes).
\<close>

theorem write_then_extract:
  assumes "write_deterministic wenv root inputs = Ok (out, wa)" "valid_model_name root = Ok ()" "inputs \<noteq> []"
    and "\<And>p. we_fits wenv p = None \<Longrightarrow> length p \<le> 256" "\<forall>i \<in> set inputs. valid_utf8 (ai_relative_path i)"
    and "\<forall>i \<in> set inputs. \<forall>j \<in> set inputs. \<forall>s. s \<noteq> [] \<longrightarrow> comps j \<noteq> comps i @ s"
    and "length out \<le> MAX_ENTRIES"
    and untar: "\<And>es. (\<forall>e \<in> set es. we_fits wenv (th_path (fst e)) = None \<and> length (snd e) = th_size (fst e)) \<Longrightarrow>
      list_all2 gives_back es (untar es)"
    and "fault_free env" "\<forall>k > 0. no_file t (take k dest)" "\<forall>p. below dest p \<longrightarrow> t p = None"
  shows "\<exists>t'. extract_strict env archive (untar out) root (wa_installed_size wa) dest t =
      (t', Ok (map (\<lambda>i. \<lparr>xf_path = ai_relative_path i, xf_size = length (source_bytes wenv i),
                          xf_sha256 = ee_sha256 env (source_bytes wenv i)\<rparr>) (sort_key ai_relative_path inputs))) \<and>
      (\<forall>i \<in> set inputs. t' (dest @ comps i) = Some (AFile 420 (source_bytes wenv i)))"
proof -
  define xs where "xs = sort_key ai_relative_path inputs"
  obtain ds where good: "list_all (\<lambda>i. good_rel (comps i)) xs" and dist: "distinct (map ai_relative_path xs)" and ds: "distinct ds"
    "set ds = set ((root @ ''/'') # concat (map (\<lambda>i. input_dirs root (ai_relative_path i)) xs))"
    and out: "out = map (\<lambda>d. (\<lparr>th_path = d, th_size = 0, th_mode = 493, th_type = Directory\<rparr>, [])) ds @
       map (\<lambda>i. file_entry root (comps i) (source_bytes wenv i)) xs"
    and size: "wa_installed_size wa = sum_list (map (\<lambda>i. length (source_bytes wenv i)) xs)" "wa_installed_size wa < 2 ^ 64"
    and fits: "\<forall>e \<in> set out. we_fits wenv (th_path (fst e)) = None"
    by (rule write_deterministic_Ok[OF assms(1), folded xs_def]) (rule that, assumption+)
  have utf8: "\<forall>i \<in> set xs. valid_utf8 (ai_relative_path i)" using assms(5) by (simp add: xs_def)
  have given: "list_all2 gives_back out (untar out)"
    by (rule untar) (use fits in \<open>auto simp: out file_entry_def\<close>)
  note name = good_root_name[OF assms(2)]
  obtain dirs where dirs: "map (dir_entry root) dirs = map (\<lambda>d. (\<lparr>th_path = d, th_size = 0, th_mode = 493, th_type = Directory\<rparr>, [])) ds"
    "\<forall>rel \<in> set dirs. good_rel rel \<and> prefixes_in rel (dir_rels xs) \<and> valid_utf8 (th_path (fst (dir_entry root rel)))"
    using written_dirs_as_rels[OF name good utf8 ds(2)] by blast
  have shape: "shaped dest (dir_rels xs) {} t" using assms(10,11) by (auto simp: shaped_def below_def)
  obtain t' st' where run: "extract_items env root (wa_installed_size wa) dest (untar out) extract_start t = (t', Ok st')"
    and total: "es_total st' = wa_installed_size wa"
    and files: "es_files st' = map (\<lambda>i. \<lparr>xf_path = ai_relative_path i, xf_size = length (source_bytes wenv i),
                                       xf_sha256 = ee_sha256 env (source_bytes wenv i)\<rparr>) xs"
    using read_written_items[OF assms(9) name given good dist utf8 _ dirs(2) _ _ _ assms(7) size shape] assms(6) ds(1) out fits assms(4)
    by (auto simp: dirs(1) xs_def comp_def)
  have "t' (dest @ comps i) = Some (AFile 420 (source_bytes wenv i))" if "i \<in> set inputs" for i
  proof (rule written_file_placed)
    show "extract_inv env root dest (untar out) st' t'"
      using extract_items_inv[OF run, of "[]"] by (simp add: extract_inv_def extract_start_def regular_entries_def)
    show member: "file_entry root (comps i) (source_bytes wenv i) \<in> set out" using that out by (auto simp: xs_def)
    show "good_rel (comps i)" using good that by (simp add: list_all_iff xs_def)
    show "length (th_path (fst (file_entry root (comps i) (source_bytes wenv i)))) \<le> MAX_PATH_BYTES"
      using assms(4)[OF fits[rule_format, OF member]] by (simp add: MAX_PATH_BYTES_def)
  qed (use name given in simp_all)
  moreover have "set xs = set inputs" by (simp add: xs_def)
  then have "xs \<noteq> []" using assms(3) by auto
  moreover have "extract_strict env archive (untar out) root (wa_installed_size wa) dest t = (t', Ok (es_files st'))"
    if "es_files st' \<noteq> []"
    using run total that assms(9) by (simp add: extract_strict_def fault_free_def tree_then_def)
  ultimately show ?thesis unfolding xs_def[symmetric] files[symmetric] using files by auto
qed

section \<open>A small instance\<close>

definition sample_extract_env :: extract_env where
  "sample_extract_env =
     \<lparr>ee_open_error = None, ee_entries_error = None, ee_mkdir_error = (\<lambda>_. None), ee_chmod_error = (\<lambda>_. None),
      ee_create_error = (\<lambda>_. None), ee_write_error = (\<lambda>_ _. None), ee_sync_error = (\<lambda>_. None), ee_new_dir_mode = 448,
      ee_new_file_mode = 384, ee_sha256 = id, ee_debug = id\<rparr>"

definition sample_write_env :: write_env where
  "sample_write_env =
     \<lparr>we_fits = (\<lambda>p. if length p \<le> 256 then None else Some ''too long''), we_stat = (\<lambda>_. Ok (True, 2)), we_open_error = (\<lambda>_. None),
      we_reads = (\<lambda>_. [Ok ''h'', Ok ''i'']), we_out_error = (\<lambda>_ _. None), we_finish_error = (\<lambda>_. None), we_encode = (\<lambda>_. []),
      we_sha256 = id, we_debug = id\<rparr>"

definition sample_inputs :: "archive_input list" where
  "sample_inputs = [\<lparr>ai_relative_path = ''onnx/x'', ai_source = ''s1''\<rparr>, \<lparr>ai_relative_path = ''b'', ai_source = ''s2''\<rparr>]"

definition sample_written :: "(tar_header \<times> string) list" where
  "sample_written =
     [dir_entry ''m'' [], dir_entry ''m'' [''onnx''], file_entry ''m'' [''b''] ''hi'', file_entry ''m'' [''onnx'', ''x''] ''hi'']"

definition one_chunk :: "string \<Rightarrow> string list" where
  "one_chunk b = (if b = [] then [] else [b])"

text \<open>A reader that hands out each payload in one piece.\<close>

definition sample_untar :: "(tar_header \<times> string) list \<Rightarrow> (string + tar_entry) list" where
  "sample_untar = map (\<lambda>(h, b). Ok \<lparr>te_ustar = True, te_type = th_type h, te_link = False, te_path = th_path h,
     te_header_path = th_path h, te_size = Ok (th_size h), te_reads = map Inr (one_chunk b)\<rparr>)"

lemma sample_untar_gives_back: "list_all2 gives_back es (sample_untar es)"
  by (induction es) (auto simp: sample_untar_def gives_back_def one_chunk_def)

definition sample_record :: written_archive where
  "sample_record = \<lparr>wa_digest = ''sha256:'', wa_size = 0, wa_installed_size = 4\<rparr>"

lemma sample_write: "write_deterministic sample_write_env ''m'' sample_inputs = Ok (sample_written, sample_record)"
  by (simp add: write_deterministic_def sample_inputs_def sample_write_env_def sample_written_def sample_record_def dir_entry_def
      file_entry_def collect_dirs_def validate_relative_input_def input_dirs_def append_dir_def append_file_def append_entry_def
      pack_header_def plain_component_def starts_with_def strip_suffix_def strip_prefix_def MAX_COMPONENT_BYTES_def MAX_PATH_BYTES_def
      is_ascii_control_def byte_def)

lemma sample_comps: "i \<in> set sample_inputs \<Longrightarrow> comps i = [''onnx'', ''x''] \<or> comps i = [''b'']"
  by (auto simp: sample_inputs_def)

theorem write_then_extract_witness:
  "\<exists>t' files. extract_strict sample_extract_env [''a''] (sample_untar sample_written) ''m'' (wa_installed_size sample_record)
       [''d''] (\<lambda>_. None) = (t', Ok files) \<and>
     t' [''d'', ''onnx'', ''x''] = Some (AFile 420 ''hi'') \<and> t' [''d'', ''b''] = Some (AFile 420 ''hi'')"
proof -
  have "\<exists>t'. extract_strict sample_extract_env [''a''] (sample_untar sample_written) ''m'' (wa_installed_size sample_record) [''d''] (\<lambda>_. None) =
      (t', Ok (map (\<lambda>i. \<lparr>xf_path = ai_relative_path i, xf_size = length (source_bytes sample_write_env i),
                          xf_sha256 = ee_sha256 sample_extract_env (source_bytes sample_write_env i)\<rparr>) (sort_key ai_relative_path sample_inputs))) \<and>
      (\<forall>i \<in> set sample_inputs. t' ([''d''] @ comps i) = Some (AFile 420 (source_bytes sample_write_env i)))"
  proof (rule write_then_extract[OF sample_write])
    show "valid_model_name ''m'' = Ok ()"
      by (simp add: valid_model_name_def valid_token_def MAX_NAME_BYTES_def name_byte_def ascii_defs byte_def)
    show "\<forall>i \<in> set sample_inputs. valid_utf8 (ai_relative_path i)"
      by (simp add: sample_inputs_def valid_utf8_ascii byte_def)
    show "\<forall>i \<in> set sample_inputs. \<forall>j \<in> set sample_inputs. \<forall>s. s \<noteq> [] \<longrightarrow> comps j \<noteq> comps i @ s"
      by (simp add: sample_inputs_def)
    show "length sample_written \<le> MAX_ENTRIES" by (simp add: sample_written_def MAX_ENTRIES_def)
    show "fault_free sample_extract_env" by (simp add: fault_free_def sample_extract_env_def)
  qed (auto simp: sample_inputs_def sample_write_env_def sample_untar_gives_back no_file_def split: if_splits)
  moreover have "source_bytes sample_write_env i = ''hi''" for i by (simp add: sample_write_env_def payload_of_def)
  ultimately show ?thesis by (auto simp: sample_inputs_def)
qed

definition sample_entry :: tar_entry where
  "sample_entry = projr (hd (sample_untar [file_entry ''m'' [''b''] ''hi'']))"

theorem extract_accepts_exactly_witness:
  "\<exists>t' files. extract_strict sample_extract_env [''a''] [Ok sample_entry] ''m'' 2 [''d''] (\<lambda>_. None) = (t', Ok files) \<and>
     sum_list (map xf_size files) = 2 \<and> distinct (map xf_path files)"
proof -
  have "\<exists>t' files. extract_strict sample_extract_env [''a''] [Ok sample_entry] ''m'' 2 [''d''] (\<lambda>_. None) = (t', Ok files)"
    by (simp add: extract_strict_def extract_entry_def check_item_def sample_entry_def sample_untar_def file_entry_def one_chunk_def
        sample_extract_env_def extract_start_def MAX_ENTRIES_def MAX_PATH_BYTES_def MAX_COMPONENT_BYTES_def entry_is_dir_def valid_utf8_ascii byte_def
        validate_entry_path_def starts_with_def strip_suffix_def strip_prefix_def check_component_def is_ascii_control_def
        extract_file_def create_dir_all_def normalize_dirs.simps write_payload_def set_mode_def tree_then_def Let_def)
  then show ?thesis using extract_accepts_exactly by blast
qed

end
