(* ===== verification/Lifecycle.thy ===== *)
theory Lifecycle
  imports Migrate "HOL-Library.Char_ord" "HOL-Library.List_Lexorder"
begin

text \<open>
  The life of registry entries and their migrations: the verbs that begin and end an entry
  (\<open>insert_registry_row\<close>, \<open>disable\<close>, \<open>disable_orphaned_entry\<close> and \<open>uninstall\<close> of
  \<open>postvec/src/api/registry.rs\<close>), and the histories in which they interleave with the migration verbs, the
  driver and quarantine of the theory \<open>Migrate\<close>.

  A verb looks up its entry first and then waits for locks, so another transaction may commit in between:
  \<open>d0\<close> is the state of the first look, \<open>d\<close> the one its statements act on. The catalogue is a parameter
  (\<open>disable_env\<close>): how a relation name resolves, who owns what, whether the destination is proven to be
  postvec's, and which statements Postgres refuses.
\<close>

section \<open>Disabling an entry\<close>

datatype disable_error =
    RelationMissing
  | OrphanNotChunked
  | NotDestinationOwner
  | DestinationRefused string
  | DisableNotOwner
  | DisableNotEnabled
  | MigrationInProgress
  | NoSourceColumn
  | NoDestination
  | ColumnAdopted
  | NotSuperuser
  | TeardownFailed string
  | DropFailed string

record disable_env =
  de_resolve :: "string \<Rightarrow> (string \<times> string) option"
  de_owner :: "string \<Rightarrow> string \<Rightarrow> bool"
  de_superuser :: bool
  de_destination_owner :: "registry_entry \<Rightarrow> bool"
  de_prove :: "registry_entry \<Rightarrow> string + unit"
  de_exists :: "registry_entry \<Rightarrow> bool"
  de_teardown :: "registry_entry \<Rightarrow> string option"
  de_drop_columns :: "registry_entry \<Rightarrow> string list \<Rightarrow> string option"
  de_drop_destination :: "registry_entry \<Rightarrow> string option"

definition rsplit_once :: "char \<Rightarrow> string \<Rightarrow> (string \<times> string) option" where
  "rsplit_once c s =
     (case dropWhile (\<lambda>x. x \<noteq> c) (rev s) of
        [] \<Rightarrow> None
      | _ # before \<Rightarrow> Some (rev before, rev (takeWhile (\<lambda>x. x \<noteq> c) (rev s))))"

definition load_any :: "string \<Rightarrow> string \<Rightarrow> string \<Rightarrow> db \<Rightarrow> registry_entry option" where
  "load_any schema table column d =
     find (\<lambda>e. re_table_schema e = schema \<and> re_table_name e = table \<and> re_source_column e = column) (db_registry d)"

definition teardown_entry_objects :: "disable_env \<Rightarrow> registry_entry \<Rightarrow> db \<Rightarrow> disable_error + db" where
  "teardown_entry_objects env entry d =
     (case de_teardown env entry of
        Some e \<Rightarrow> Err (TeardownFailed e)
      | None \<Rightarrow> Ok (d\<lparr>db_writes := db_writes d @ [Teardown (re_id entry)]\<rparr>))"

definition drop_destination_objects :: "disable_env \<Rightarrow> registry_entry \<Rightarrow> db \<Rightarrow> disable_error + db" where
  "drop_destination_objects env entry d =
     (case de_drop_destination env entry of
        Some e \<Rightarrow> Err (DropFailed e)
      | None \<Rightarrow> Ok (d\<lparr>db_writes := db_writes d @ [DropDestination (re_id entry)]\<rparr>))"

definition drop_columns :: "disable_env \<Rightarrow> registry_entry \<Rightarrow> string list \<Rightarrow> db \<Rightarrow> disable_error + db" where
  "drop_columns env entry cols d =
     (case de_drop_columns env entry cols of
        Some e \<Rightarrow> Err (DropFailed e)
      | None \<Rightarrow> Ok (d\<lparr>db_writes := db_writes d @ [DropColumns (re_id entry) cols]\<rparr>))"

definition purge_entry_jobs :: "int \<Rightarrow> db \<Rightarrow> db" where
  "purge_entry_jobs i d = d\<lparr>db_jobs := filter (\<lambda>j. jb_registry j \<noteq> i) (db_jobs d)\<rparr>"

definition set_disabled :: "int \<Rightarrow> db \<Rightarrow> db" where
  "set_disabled i = set_entry i (\<lambda>e. e\<lparr>re_state := ''disabled''\<rparr>)"

definition orphan_entry :: "string \<Rightarrow> string \<Rightarrow> db \<Rightarrow> registry_entry option" where
  "orphan_entry relation column d =
     (let (schema_pat, table_pat) =
            (case rsplit_once (CHR ''.'') relation of Some (s, t) \<Rightarrow> (Some s, t) | None \<Rightarrow> (None, relation))
      in case filter (\<lambda>e. re_table_name e = table_pat \<and> (case schema_pat of None \<Rightarrow> True | Some s \<Rightarrow> re_table_schema e = s) \<and>
                          re_source_column e = column) (db_registry d) of
           [e] \<Rightarrow> load_any (re_table_schema e) (re_table_name e) column d
         | _ \<Rightarrow> None)"

definition disable_orphaned_entry ::
  "disable_env \<Rightarrow> string \<Rightarrow> string \<Rightarrow> bool \<Rightarrow> db \<Rightarrow> db \<Rightarrow> disable_error + db" where
  "disable_orphaned_entry env relation column drop_destination d0 d =
     (case orphan_entry relation column d0 of
        None \<Rightarrow> Err RelationMissing
      | Some entry \<Rightarrow>
          if \<not> is_recursive entry then Err OrphanNotChunked
          else if \<not> de_destination_owner env entry then Err NotDestinationOwner
          else case (if drop_destination then de_prove env entry else Ok ()) of
            Inl reason \<Rightarrow> Err (DestinationRefused reason)
          | Inr _ \<Rightarrow>
              let d = set_disabled (re_id entry) (purge_entry_jobs (re_id entry) d) in
              if drop_destination then drop_destination_objects env entry d else Ok d)"

definition disable ::
  "disable_env \<Rightarrow> string \<Rightarrow> string \<Rightarrow> bool \<Rightarrow> bool \<Rightarrow> db \<Rightarrow> db \<Rightarrow> disable_error + db" where
  "disable env relation column drop_column drop_destination d0 d =
     (case de_resolve env relation of
        None \<Rightarrow> disable_orphaned_entry env relation column drop_destination d0 d
      | Some (schema, table) \<Rightarrow>
          if \<not> de_owner env schema table then Err DisableNotOwner
          else case load_any schema table column d0 of
            None \<Rightarrow> Err DisableNotEnabled
          | Some entry \<Rightarrow>
              if re_state entry = ''migrating'' then Err MigrationInProgress
              else if drop_column \<and> is_recursive entry then Err NoSourceColumn
              else if drop_destination \<and> \<not> is_recursive entry then Err NoDestination
              else if drop_column \<and> \<not> re_owns_vector_column entry then Err ColumnAdopted
              else case (if drop_destination then de_prove env entry else Ok ()) of
                Inl reason \<Rightarrow> Err (DestinationRefused reason)
              | Inr _ \<Rightarrow>
                  and_then (teardown_entry_objects env entry d) (\<lambda>d.
                  let d = set_disabled (re_id entry) (purge_entry_jobs (re_id entry) d) in
                  and_then (if drop_column then drop_columns env entry [re_vector_column entry] d else Ok d) (\<lambda>d.
                  if drop_destination then drop_destination_objects env entry d else Ok d)))"

section \<open>Uninstalling\<close>

definition uninstall_migration :: "migration \<Rightarrow> migration" where
  "uninstall_migration m =
     m\<lparr>mg_state := (if mg_state m = ''done'' \<or> mg_state m = ''aborted'' then mg_state m else ''aborted''),
       mg_error := (case mg_error m of Some e \<Rightarrow> Some e | None \<Rightarrow> Some ''postvec.uninstall()'')\<rparr>"

definition uninstall_entry :: "disable_env \<Rightarrow> bool \<Rightarrow> bool \<Rightarrow> registry_entry \<Rightarrow> db \<Rightarrow> disable_error + db" where
  "uninstall_entry env drop_cols drop_destinations entry d =
     (let i = re_id entry; proven = (if is_recursive entry \<and> drop_destinations then Some (de_prove env entry) else None) in
      and_then (teardown_entry_objects env entry d) (\<lambda>d.
      let d = purge_entry_jobs i d;
          scratch_cols = map mg_new_column (filter (\<lambda>m. mg_registry m = i \<and> is_abortable (mg_state m)) (db_migrations d));
          d = d\<lparr>db_migrations := map (\<lambda>m. if mg_registry m = i then uninstall_migration m else m) (db_migrations d)\<rparr>
      in and_then
           (if is_recursive entry
            then (case proven of Some (Inr _) \<Rightarrow> drop_destination_objects env entry d | _ \<Rightarrow> Ok d)
            else if drop_cols \<and> de_exists env entry
            then drop_columns env entry
                   (sort (remdups ((if re_owns_vector_column entry then [re_vector_column entry] else []) @ scratch_cols))) d
            else Ok d)
           (\<lambda>d. Ok (set_disabled i d))))"

fun uninstall_loop :: "disable_env \<Rightarrow> bool \<Rightarrow> bool \<Rightarrow> int list \<Rightarrow> int \<Rightarrow> db \<Rightarrow> disable_error + int \<times> db" where
  "uninstall_loop env drop_cols drop_destinations [] cleaned d = Ok (cleaned, d)"
| "uninstall_loop env drop_cols drop_destinations (i # ids) cleaned d =
     (case load_entry i d of
        None \<Rightarrow> uninstall_loop env drop_cols drop_destinations ids cleaned d
      | Some entry \<Rightarrow>
          and_then (uninstall_entry env drop_cols drop_destinations entry d) (\<lambda>d.
          uninstall_loop env drop_cols drop_destinations ids (cleaned + 1) d))"

definition uninstall :: "disable_env \<Rightarrow> bool \<Rightarrow> bool \<Rightarrow> db \<Rightarrow> db \<Rightarrow> disable_error + int \<times> db" where
  "uninstall env drop_cols drop_destinations d0 d =
     (if \<not> de_superuser env then Err NotSuperuser
      else uninstall_loop env drop_cols drop_destinations (rev (sort (map re_id (db_registry d0)))) 0 d)"

section \<open>Registering an entry\<close>

text \<open>
  The row that \<open>enable\<close> and \<open>adopt\<close> insert. A disabled row of the same column is deleted first, and with it,
  by the foreign keys, its jobs and migrations; the remaining rows must leave both unique indexes intact.
  \<open>rid\<close> is the identity value of the new row.
\<close>

definition vector_target :: "registry_entry \<Rightarrow> string \<times> string \<times> string" where
  "vector_target e =
     (case re_destination_schema e of Some s \<Rightarrow> s | None \<Rightarrow> re_table_schema e,
      case re_destination_table e of Some t \<Rightarrow> t | None \<Rightarrow> re_table_name e, re_vector_column e)"

definition source_of :: "registry_entry \<Rightarrow> string \<times> string \<times> string" where
  "source_of e = (re_table_schema e, re_table_name e, re_source_column e)"

definition delete_registry :: "(registry_entry \<Rightarrow> bool) \<Rightarrow> db \<Rightarrow> db" where
  "delete_registry P d =
     (let gone = map re_id (filter P (db_registry d)) in
      d\<lparr>db_registry := filter (\<lambda>e. \<not> P e) (db_registry d),
        db_jobs := filter (\<lambda>j. jb_registry j \<notin> set gone) (db_jobs d),
        db_migrations := filter (\<lambda>m. mg_registry m \<notin> set gone) (db_migrations d)\<rparr>)"

datatype enable_error = AnotherWriter

definition insert_registry_row :: "int \<Rightarrow> registry_entry \<Rightarrow> db \<Rightarrow> enable_error + db" where
  "insert_registry_row rid row d =
     (let d = delete_registry (\<lambda>e. source_of e = source_of row \<and> re_state e = ''disabled'') d;
          row = row\<lparr>re_id := rid, re_state := ''active'', re_backfill_watermark := None, re_index_error := None\<rparr>
      in if list_ex (\<lambda>e. source_of e = source_of row \<or> re_state e \<noteq> ''disabled'' \<and> vector_target e = vector_target row) (db_registry d)
         then Err AnotherWriter
         else Ok (d\<lparr>db_registry := db_registry d @ [row]\<rparr>))"

section \<open>One open migration per entry\<close>

text \<open>
  An open migration (running, awaiting finalize, or failed and not yet aborted) keeps its entry out of
  the \<open>active\<close> state, so no second migration can start beside it.
\<close>

definition blocked :: "registry_entry \<Rightarrow> bool" where
  "blocked e \<longleftrightarrow> re_state e = ''migrating'' \<or> re_state e = ''disabled''"

definition lifecycle_inv :: "db \<Rightarrow> bool" where
  "lifecycle_inv d \<longleftrightarrow>
     distinct (map mg_id (db_migrations d)) \<and> distinct (map re_id (db_registry d)) \<and>
     (\<forall>m \<in> set (db_migrations d). is_abortable (mg_state m) \<longrightarrow>
        (\<exists>e \<in> set (db_registry d). re_id e = mg_registry m \<and> blocked e)) \<and>
     (\<forall>m \<in> set (db_migrations d). \<forall>m' \<in> set (db_migrations d).
        is_abortable (mg_state m) \<and> is_abortable (mg_state m') \<and> mg_registry m = mg_registry m' \<longrightarrow> mg_id m = mg_id m')"

lemma lifecycle_invD:
  assumes "lifecycle_inv d"
  shows "distinct (map mg_id (db_migrations d))" "distinct (map re_id (db_registry d))"
    "\<And>m. m \<in> set (db_migrations d) \<Longrightarrow> is_abortable (mg_state m) \<Longrightarrow> \<exists>e \<in> set (db_registry d). re_id e = mg_registry m \<and> blocked e"
    "\<And>m m'. m \<in> set (db_migrations d) \<Longrightarrow> m' \<in> set (db_migrations d) \<Longrightarrow> is_abortable (mg_state m) \<Longrightarrow>
       is_abortable (mg_state m') \<Longrightarrow> mg_registry m = mg_registry m' \<Longrightarrow> mg_id m = mg_id m'"
  using assms unfolding lifecycle_inv_def by blast+

lemma load_migration_in: "load_migration i d = Some m \<Longrightarrow> m \<in> set (db_migrations d)"
  unfolding load_migration_def by (auto simp: find_Some_iff)

lemma same_id_same_migration:
  assumes "lifecycle_inv d" "m \<in> set (db_migrations d)" "m' \<in> set (db_migrations d)" "mg_id m = mg_id m'"
  shows "m = m'"
  using assms by (auto simp: lifecycle_inv_def distinct_map inj_on_def)

text \<open>A step that opens no migration, and leaves blocked the entries of those that stay open.\<close>

lemma lifecycle_shrinks:
  assumes inv: "lifecycle_inv d" and ids: "distinct (map mg_id (db_migrations d'))" "distinct (map re_id (db_registry d'))"
    and old: "\<And>m'. m' \<in> set (db_migrations d') \<Longrightarrow> is_abortable (mg_state m') \<Longrightarrow>
      \<exists>m \<in> set (db_migrations d). is_abortable (mg_state m) \<and> mg_id m = mg_id m' \<and> mg_registry m = mg_registry m'"
    and entries: "\<And>m' e. m' \<in> set (db_migrations d') \<Longrightarrow> is_abortable (mg_state m') \<Longrightarrow> e \<in> set (db_registry d) \<Longrightarrow>
      re_id e = mg_registry m' \<Longrightarrow> blocked e \<Longrightarrow> \<exists>e' \<in> set (db_registry d'). re_id e' = re_id e \<and> blocked e'"
  shows "lifecycle_inv d'"
  unfolding lifecycle_inv_def
proof (intro conjI ids ballI impI)
  fix m' assume m': "m' \<in> set (db_migrations d')" "is_abortable (mg_state m')"
  then obtain e where "e \<in> set (db_registry d)" "re_id e = mg_registry m'" "blocked e"
    using old[OF m'] lifecycle_invD(3)[OF inv] by fastforce
  then show "\<exists>e \<in> set (db_registry d'). re_id e = mg_registry m' \<and> blocked e" using entries[OF m'] by fastforce
next
  fix m1 m2 assume m: "m1 \<in> set (db_migrations d')" "m2 \<in> set (db_migrations d')"
    "is_abortable (mg_state m1) \<and> is_abortable (mg_state m2) \<and> mg_registry m1 = mg_registry m2"
  obtain n1 n2 where "n1 \<in> set (db_migrations d)" "is_abortable (mg_state n1)" "mg_id n1 = mg_id m1" "mg_registry n1 = mg_registry m1"
    "n2 \<in> set (db_migrations d)" "is_abortable (mg_state n2)" "mg_id n2 = mg_id m2" "mg_registry n2 = mg_registry m2"
    using old m by meson
  then show "mg_id m1 = mg_id m2" using lifecycle_invD(4)[OF inv] m(3) by metis
qed

lemma lifecycle_maps:
  assumes inv: "lifecycle_inv d"
    and f: "\<And>m. mg_id (f m) = mg_id m" "\<And>m. mg_registry (f m) = mg_registry m"
      "\<And>m. m \<in> set (db_migrations d) \<Longrightarrow> is_abortable (mg_state (f m)) \<Longrightarrow> is_abortable (mg_state m)"
    and g: "\<And>e. re_id (g e) = re_id e" "\<And>e. blocked e \<Longrightarrow> blocked (g e)"
    and d': "db_migrations d' = map f (db_migrations d)" "db_registry d' = map g (db_registry d)"
  shows "lifecycle_inv d'"
proof (rule lifecycle_shrinks[OF inv])
  show "distinct (map mg_id (db_migrations d'))" "distinct (map re_id (db_registry d'))"
    using lifecycle_invD(1,2)[OF inv] by (simp_all add: d' f(1) g(1) comp_def)
qed (use f g in \<open>force simp: d'\<close>)+

lemma lifecycle_update:
  assumes inv: "lifecycle_inv d"
    and f: "\<And>m. mg_id (f m) = mg_id m" "\<And>m. mg_registry (f m) = mg_registry m"
    and states: "\<And>m. m \<in> set (db_migrations d) \<Longrightarrow> c m \<Longrightarrow> mg_id m = i \<Longrightarrow> is_abortable (mg_state (f m)) \<Longrightarrow>
      is_abortable (mg_state m)"
  shows "lifecycle_inv (update_migration i c f d)"
  by (rule lifecycle_maps[OF inv, where f = "\<lambda>m. if mg_id m = i \<and> c m then f m else m" and g = "\<lambda>e. e"])
    (use f states in \<open>auto simp: update_migration_def split: if_splits\<close>)

lemma lifecycle_driver:
  assumes "lifecycle_inv d"
  shows "lifecycle_inv (fail_migration i msg d)" "lifecycle_inv (set_migration_error now bo i msg d)"
    "lifecycle_inv (update_migration i (\<lambda>m. mg_state m = ''running'') (\<lambda>m. m\<lparr>mg_state := ''awaiting_finalize'', mg_error := None\<rparr>) d)"
  unfolding fail_migration_update set_migration_error_def
  by (rule lifecycle_update[OF assms]; simp add: is_abortable_def)+

lemma lifecycle_quarantine: "lifecycle_inv d \<Longrightarrow> lifecycle_inv (quarantine_entry entry reason d)"
  by (rule lifecycle_maps[where f = "\<lambda>m. if mg_registry m = re_id entry \<and> is_live_state (mg_state m)
          then m\<lparr>mg_state := ''failed'', mg_error := Some reason\<rparr> else m"
        and g = "\<lambda>e. if re_id e = re_id entry then e\<lparr>re_state := ''disabled''\<rparr> else e"])
    (auto simp: quarantine_entry_def is_abortable_def is_live_state_def blocked_def split: if_splits)

lemma lifecycle_disabled:
  assumes "lifecycle_inv d" "db_migrations d' = db_migrations d"
    and "db_registry d' = map (\<lambda>e. if re_id e = i then e\<lparr>re_state := ''disabled''\<rparr> else e) (db_registry d)"
  shows "lifecycle_inv d'"
  by (rule lifecycle_maps[OF assms(1), where f = "\<lambda>m. m"
        and g = "\<lambda>e. if re_id e = i then e\<lparr>re_state := ''disabled''\<rparr> else e"])
    (use assms(2,3) in \<open>auto simp: blocked_def\<close>)

text \<open>
  Ending the one open migration of an entry: the migration leaves the open states and the entry may take
  any state.
\<close>

lemma lifecycle_close:
  assumes inv: "lifecycle_inv d" and m: "m \<in> set (db_migrations d)" "mg_id m = mid" "mg_registry m = rid" "is_abortable (mg_state m)"
    and g: "\<And>e. re_id (g e) = re_id e" and closed: "\<not> is_abortable st"
    and d': "db_migrations d' = map (\<lambda>m. if mg_id m = mid then m\<lparr>mg_state := st\<rparr> else m) (db_migrations d)"
      "db_registry d' = map (\<lambda>e. if re_id e = rid then g e else e) (db_registry d)"
  shows "lifecycle_inv d'"
proof -
  have ids: "map mg_id (db_migrations d') = map mg_id (db_migrations d)" "map re_id (db_registry d') = map re_id (db_registry d)"
    using g by (auto simp: d')
  have others: "n \<in> set (db_migrations d) \<and> mg_registry n \<noteq> rid"
    if n: "n \<in> set (db_migrations d')" "is_abortable (mg_state n)" for n
  proof -
    from n(1) obtain k where k: "k \<in> set (db_migrations d)" "n = (if mg_id k = mid then k\<lparr>mg_state := st\<rparr> else k)"
      by (auto simp: d'(1))
    then have "mg_id k \<noteq> mid" using n(2) closed by auto
    then have same: "n = k" using k(2) by simp
    have "mg_registry k \<noteq> rid"
      using lifecycle_invD(4)[OF inv k(1) m(1)] n(2) m(2-4) same \<open>mg_id k \<noteq> mid\<close> by auto
    then show ?thesis using k(1) same by simp
  qed
  show ?thesis
  proof (rule lifecycle_shrinks[OF inv])
    fix n e assume "n \<in> set (db_migrations d')" "is_abortable (mg_state n)" "e \<in> set (db_registry d)" "re_id e = mg_registry n" "blocked e"
    moreover from this(1,2) have "mg_registry n \<noteq> rid" using others by blast
    ultimately have "(if re_id e = rid then g e else e) = e" by simp
    moreover have "(if re_id e = rid then g e else e) \<in> set (db_registry d')"
      unfolding d'(2) set_map using \<open>e \<in> set (db_registry d)\<close> by (rule imageI)
    ultimately have "e \<in> set (db_registry d')" by (simp only:)
    then show "\<exists>e' \<in> set (db_registry d'). re_id e' = re_id e \<and> blocked e'"
      using \<open>blocked e\<close> by blast
  next
    show "distinct (map mg_id (db_migrations d'))" "distinct (map re_id (db_registry d'))"
      unfolding ids by (rule lifecycle_invD[OF inv])+
    show "\<exists>k \<in> set (db_migrations d). is_abortable (mg_state k) \<and> mg_id k = mg_id n \<and> mg_registry k = mg_registry n"
      if "n \<in> set (db_migrations d')" "is_abortable (mg_state n)" for n
      using others[OF that] that(2) by blast
  qed
qed

lemma lifecycle_abort:
  assumes inv: "lifecycle_inv d" and ok: "migration_abort ve chunk_ref mid d0 tables d = Ok (tables', d')"
  shows "lifecycle_inv d'"
proof -
  obtain m entry jobs where found: "load_migration mid d = Some m" "is_abortable (mg_state m)" "load_entry (mg_registry m) d = Some entry"
    and d': "d' = set_migration_state mid ''aborted''
      (set_entry (re_id entry) (\<lambda>e. e\<lparr>re_state := ''active''\<rparr>) (fold insert_pending jobs d))"
    by (rule abort_effect[OF ok])
  show ?thesis
  proof (rule lifecycle_close[OF inv load_migration_in[OF found(1)] load_migration_id[OF found(1)] refl found(2)])
    show "\<not> is_abortable ''aborted''" by (simp add: is_abortable_def)
    show "db_migrations d' = map (\<lambda>m. if mg_id m = mid then m\<lparr>mg_state := ''aborted''\<rparr> else m) (db_migrations d)"
      by (simp add: d' set_migration_state_def update_migration_def set_entry_def)
    show "db_registry d' = map (\<lambda>e. if re_id e = mg_registry m then e\<lparr>re_state := ''active''\<rparr> else e) (db_registry d)"
      using load_entry_id[OF found(3)] by (simp add: d' set_migration_state_def update_migration_def set_entry_def)
  qed simp
qed

text \<open>Migration ids are never reused, so a row seen twice belongs to the same entry.\<close>

definition same_owner :: "db \<Rightarrow> db \<Rightarrow> bool" where
  "same_owner d0 d \<longleftrightarrow> (\<forall>mid m0 m. load_migration mid d0 = Some m0 \<and> load_migration mid d = Some m \<longrightarrow>
     mg_registry m = mg_registry m0)"

lemma finalize_first_look:
  assumes "migration_finalize ve mid d0 tables d = Ok (tables', d')"
  obtains m0 entry0 where "load_migration mid d0 = Some m0" "load_entry (mg_registry m0) d0 = Some entry0"
    "mg_state m0 = ''awaiting_index'' \<Longrightarrow> d' = set_migration_state mid ''done'' d \<or> d' = d"
    "mg_state m0 \<noteq> ''awaiting_index'' \<Longrightarrow> \<exists>m st space. load_migration mid d = Some m \<and> mg_state m = ''awaiting_finalize'' \<and>
       (st = ''done'' \<or> st = ''awaiting_index'') \<and> d' = set_migration_state mid st
        (set_entry (re_id entry0) (\<lambda>e. e\<lparr>re_model := mg_new_model m0, re_space := space, re_dim := mg_new_dim m0,
           re_state := ''active'', re_owns_vector_column := True\<rparr>) d)"
proof -
  obtain m0 entry0 where first: "load_migration mid d0 = Some m0" "load_entry (mg_registry m0) d0 = Some entry0"
    using assms by (auto simp: migration_finalize_def split: option.splits)
  have running: "mg_state m0 \<noteq> ''running''" "ve_owner ve (re_table_schema entry0) (re_table_name entry0)"
    using assms first by (auto simp: migration_finalize_def split: if_splits)
  show thesis
  proof (rule that[OF first])
    assume "mg_state m0 = ''awaiting_index''"
    then show "d' = set_migration_state mid ''done'' d \<or> d' = d"
      using assms first running by (auto simp: migration_finalize_def split: if_splits)
  next
    assume idx: "mg_state m0 \<noteq> ''awaiting_index''"
    then have "map_option mg_state (load_migration mid d) = Some ''awaiting_finalize''"
      using assms first running by (auto simp: migration_finalize_def Let_def split: if_splits)
    then show "\<exists>m st space. load_migration mid d = Some m \<and> mg_state m = ''awaiting_finalize'' \<and>
       (st = ''done'' \<or> st = ''awaiting_index'') \<and> d' = set_migration_state mid st
        (set_entry (re_id entry0) (\<lambda>e. e\<lparr>re_model := mg_new_model m0, re_space := space, re_dim := mg_new_dim m0,
           re_state := ''active'', re_owns_vector_column := True\<rparr>) d)"
      using assms first running idx by (auto simp: migration_finalize_def Let_def split: if_splits)
  qed
qed

lemma lifecycle_finalize:
  assumes inv: "lifecycle_inv d" and same: "same_owner d0 d"
    and ok: "migration_finalize ve mid d0 tables d = Ok (tables', d')"
  shows "lifecycle_inv d'"
proof (rule finalize_first_look[OF ok])
  fix m0 entry0 assume first: "load_migration mid d0 = Some m0" "load_entry (mg_registry m0) d0 = Some entry0"
    and index: "mg_state m0 = ''awaiting_index'' \<Longrightarrow> d' = set_migration_state mid ''done'' d \<or> d' = d"
    and swap: "mg_state m0 \<noteq> ''awaiting_index'' \<Longrightarrow> \<exists>m st space. load_migration mid d = Some m \<and> mg_state m = ''awaiting_finalize'' \<and>
       (st = ''done'' \<or> st = ''awaiting_index'') \<and> d' = set_migration_state mid st
        (set_entry (re_id entry0) (\<lambda>e. e\<lparr>re_model := mg_new_model m0, re_space := space, re_dim := mg_new_dim m0,
           re_state := ''active'', re_owns_vector_column := True\<rparr>) d)"
  show ?thesis
  proof (cases "mg_state m0 = ''awaiting_index''")
    case True
    have "lifecycle_inv (set_migration_state mid ''done'' d)"
      unfolding set_migration_state_def by (rule lifecycle_update[OF inv]) (simp_all add: is_abortable_def)
    then show ?thesis using index[OF True] inv by auto
  next
    case False
    then obtain m st space where m: "load_migration mid d = Some m" "mg_state m = ''awaiting_finalize''"
      and st: "st = ''done'' \<or> st = ''awaiting_index''" and d': "d' = set_migration_state mid st
        (set_entry (re_id entry0) (\<lambda>e. e\<lparr>re_model := mg_new_model m0, re_space := space, re_dim := mg_new_dim m0,
           re_state := ''active'', re_owns_vector_column := True\<rparr>) d)"
      using swap by blast
    have reg: "mg_registry m = re_id entry0" using same m(1) first load_entry_id[OF first(2)] by (simp add: same_owner_def)
    show ?thesis
    proof (rule lifecycle_close[OF inv load_migration_in[OF m(1)] load_migration_id[OF m(1)] reg])
      show "is_abortable (mg_state m)" "\<not> is_abortable st" using m(2) st by (auto simp: is_abortable_def)
      show "db_migrations d' = map (\<lambda>m. if mg_id m = mid then m\<lparr>mg_state := st\<rparr> else m) (db_migrations d)"
        by (simp add: d' set_migration_state_def update_migration_def set_entry_def)
      show "db_registry d' = map (\<lambda>e. if re_id e = re_id entry0
          then e\<lparr>re_model := mg_new_model m0, re_space := space, re_dim := mg_new_dim m0,
             re_state := ''active'', re_owns_vector_column := True\<rparr> else e) (db_registry d)"
        by (simp add: d' set_migration_state_def update_migration_def set_entry_def)
    qed simp
  qed
qed

lemma start_migration_effect:
  assumes "start_migration ve mid entry new_model strategy reindex quiesced tables d = Ok (tables', d')"
  obtains dim space kind via where "re_state entry = ''active''"
    "d' = set_entry (re_id entry) (\<lambda>e. e\<lparr>re_state := ''migrating''\<rparr>)
       (d\<lparr>db_migrations := db_migrations d @
          [new_migration ve mid entry new_model dim space kind via reindex (tables (re_id entry))]\<rparr>)"
proof (cases "ve_resolve_dim ve new_model")
  case (Inr dim)
  let ?space = "case ve_cache_space ve new_model of Some s \<Rightarrow> s | None \<Rightarrow> new_model"
  show thesis
  proof (cases "preflight ve entry new_model ?space strategy")
    case (Inr p)
    obtain kind via where p: "p = (kind, via)" by (cases p)
    have "re_state entry = ''active'' \<and> d' = set_entry (re_id entry) (\<lambda>e. e\<lparr>re_state := ''migrating''\<rparr>)
       (d\<lparr>db_migrations := db_migrations d @
          [new_migration ve mid entry new_model dim ?space kind via reindex (tables (re_id entry))]\<rparr>)"
      using assms \<open>ve_resolve_dim ve new_model = Inr dim\<close> Inr p
      by (simp add: start_migration_def Let_def split: if_splits)
    then show thesis using that by blast
  qed (use assms Inr in \<open>auto simp: start_migration_def Let_def split: if_splits\<close>)
qed (use assms in \<open>auto simp: start_migration_def split: if_splits\<close>)

lemma migrate_starts:
  assumes "migrate ve mid schema table column new_model strategy reindex quiesced tables d = Ok (tables', d')"
  obtains entry where "entry \<in> set (db_registry d)"
    "start_migration ve mid entry new_model strategy reindex quiesced tables d = Ok (tables', d')"
proof -
  have "\<exists>entry. load_active schema table column d = Some entry \<and>
      start_migration ve mid entry new_model strategy reindex quiesced tables d = Ok (tables', d')"
    using assms by (simp add: migrate_def load_entry_checked_def split: if_splits option.splits)
  moreover have "entry \<in> set (db_registry d)" if "load_active schema table column d = Some entry" for entry
    using that by (auto simp: load_active_def find_Some_iff)
  ultimately show thesis using that by blast
qed

lemma lifecycle_migrate:
  assumes inv: "lifecycle_inv d" and entry: "load_entry (re_id entry) d = Some entry"
    and fresh: "mid \<notin> mg_id ` set (db_migrations d)"
    and ok: "start_migration ve mid entry new_model strategy reindex quiesced tables d = Ok (tables', d')"
  shows "lifecycle_inv d'"
proof -
  obtain dim space kind via where active: "re_state entry = ''active''"
    and eff: "d' = set_entry (re_id entry) (\<lambda>e. e\<lparr>re_state := ''migrating''\<rparr>)
       (d\<lparr>db_migrations := db_migrations d @
          [new_migration ve mid entry new_model dim space kind via reindex (tables (re_id entry))]\<rparr>)"
    by (rule start_migration_effect[OF ok])
  define m where "m = new_migration ve mid entry new_model dim space kind via reindex (tables (re_id entry))"
  let ?g = "\<lambda>e. if re_id e = re_id entry then e\<lparr>re_state := ''migrating''\<rparr> else e"
  have m: "mg_id m = mid" "mg_registry m = re_id entry" by (simp_all add: m_def new_migration_def)
  have d': "db_migrations d' = db_migrations d @ [m]" "db_registry d' = map ?g (db_registry d)"
    by (simp_all add: eff m_def set_entry_def)
  have idle: "mg_registry n \<noteq> re_id entry" if n: "n \<in> set (db_migrations d)" "is_abortable (mg_state n)" for n
  proof
    assume reg: "mg_registry n = re_id entry"
    obtain e where e: "e \<in> set (db_registry d)" "re_id e = mg_registry n" "blocked e" using lifecycle_invD(3)[OF inv n] by blast
    have "e = entry"
      using lifecycle_invD(2)[OF inv] e(1,2) reg load_entry_in[OF entry] by (auto simp: distinct_map inj_on_def)
    with active e(3) show False by (simp add: blocked_def)
  qed
  have ids: "map mg_id (db_migrations d') = map mg_id (db_migrations d) @ [mid]" "map re_id (db_registry d') = map re_id (db_registry d)"
    using m(1) by (auto simp: d')
  have kept: "\<exists>e' \<in> set (db_registry d'). re_id e' = re_id e \<and> blocked e'" if "e \<in> set (db_registry d)" "blocked e \<or> e = entry" for e
    using that unfolding d'(2) by (intro bexI[of _ "?g e"]) (auto simp: blocked_def)
  show ?thesis
    unfolding lifecycle_inv_def ids
  proof (intro conjI ballI impI)
    show "distinct (map mg_id (db_migrations d) @ [mid])" "distinct (map re_id (db_registry d))"
      using lifecycle_invD(1,2)[OF inv] fresh by simp_all
  next
    fix n assume n: "n \<in> set (db_migrations d')" "is_abortable (mg_state n)"
    then consider "n = m" | "n \<in> set (db_migrations d)" by (auto simp: d'(1))
    then show "\<exists>e \<in> set (db_registry d'). re_id e = mg_registry n \<and> blocked e"
    proof cases
      case 1
      then show ?thesis using kept[OF load_entry_in[OF entry]] m(2) by auto
    next
      case 2
      obtain e where "e \<in> set (db_registry d)" "re_id e = mg_registry n" "blocked e" using lifecycle_invD(3)[OF inv 2 n(2)] by blast
      then show ?thesis using kept[of e] by auto
    qed
  next
    fix n n' assume "n \<in> set (db_migrations d')" "n' \<in> set (db_migrations d')"
      and both: "is_abortable (mg_state n) \<and> is_abortable (mg_state n') \<and> mg_registry n = mg_registry n'"
    then consider "n = m" "n' = m" | "n = m" "n' \<in> set (db_migrations d)" | "n \<in> set (db_migrations d)" "n' = m"
      | "n \<in> set (db_migrations d)" "n' \<in> set (db_migrations d)" by (auto simp: d'(1))
    then show "mg_id n = mg_id n'"
      using idle[of n] idle[of n'] both m(2) lifecycle_invD(4)[OF inv, of n n'] by cases auto
  qed
qed

section \<open>The registry verbs keep it\<close>

lemma drop_frames:
  "teardown_entry_objects env entry d = Ok d' \<Longrightarrow> db_migrations d' = db_migrations d \<and> db_registry d' = db_registry d"
  "drop_destination_objects env entry d = Ok d' \<Longrightarrow> db_migrations d' = db_migrations d \<and> db_registry d' = db_registry d"
  "drop_columns env entry cols d = Ok d' \<Longrightarrow> db_migrations d' = db_migrations d \<and> db_registry d' = db_registry d"
  by (auto simp: teardown_entry_objects_def drop_destination_objects_def drop_columns_def split: option.splits)

lemma disabled_frames [simp]:
  "db_migrations (purge_entry_jobs i d) = db_migrations d" "db_registry (purge_entry_jobs i d) = db_registry d"
  "db_migrations (set_disabled i d) = db_migrations d"
  "db_registry (set_disabled i d) = map (\<lambda>e. if re_id e = i then e\<lparr>re_state := ''disabled''\<rparr> else e) (db_registry d)"
  by (simp_all add: purge_entry_jobs_def set_disabled_def set_entry_def)

text \<open>Both forms of \<open>disable\<close> set one entry to \<open>disabled\<close> and do not look at its migrations.\<close>

lemma disable_effect:
  assumes "disable env relation column drop_column drop_destination d0 d = Ok d'"
  obtains i where "db_migrations d' = db_migrations d"
    "db_registry d' = map (\<lambda>e. if re_id e = i then e\<lparr>re_state := ''disabled''\<rparr> else e) (db_registry d)"
proof (cases "de_resolve env relation")
  case None
  then have "disable_orphaned_entry env relation column drop_destination d0 d = Ok d'" using assms by (simp add: disable_def)
  then show thesis
    by (auto simp: disable_orphaned_entry_def Let_def split: option.splits if_splits sum.splits
        dest!: drop_frames(2) intro: that)
next
  case (Some st)
  obtain schema table where st: "st = (schema, table)" by (cases st)
  have "\<exists>entry d1 d2. load_any schema table column d0 = Some entry \<and> teardown_entry_objects env entry d = Ok d1 \<and>
      (if drop_column then drop_columns env entry [re_vector_column entry] (set_disabled (re_id entry) (purge_entry_jobs (re_id entry) d1))
       else Ok (set_disabled (re_id entry) (purge_entry_jobs (re_id entry) d1))) = Ok d2 \<and>
      (if drop_destination then drop_destination_objects env entry d2 else Ok d2) = Ok d'"
    using assms Some st by (auto simp: disable_def Let_def split: option.splits if_splits sum.splits)
  then show thesis by (auto split: if_splits dest!: drop_frames intro: that)
qed

lemma uninstall_entry_effect:
  assumes "uninstall_entry env dc dd entry d = Ok d'"
  shows "db_migrations d' = map (\<lambda>m. if mg_registry m = re_id entry then uninstall_migration m else m) (db_migrations d)"
    and "db_registry d' = map (\<lambda>e. if re_id e = re_id entry then e\<lparr>re_state := ''disabled''\<rparr> else e) (db_registry d)"
  using assms
  by (auto simp: uninstall_entry_def Let_def split: option.splits if_splits sum.splits dest!: drop_frames)

lemma uninstall_migration_simps [simp]:
  "mg_id (uninstall_migration m) = mg_id m" "mg_registry (uninstall_migration m) = mg_registry m"
  "\<not> is_abortable (mg_state (uninstall_migration m))"
  by (simp_all add: uninstall_migration_def is_abortable_def)

lemma lifecycle_uninstall_entry:
  assumes "lifecycle_inv d" "uninstall_entry env dc dd entry d = Ok d'"
  shows "lifecycle_inv d'"
  by (rule lifecycle_maps[OF assms(1) _ _ _ _ _ uninstall_entry_effect[OF assms(2)]]) (auto simp: blocked_def split: if_splits)

lemma delete_registry_parts:
  "db_registry (delete_registry P d) = filter (\<lambda>e. \<not> P e) (db_registry d)"
  "db_migrations (delete_registry P d) = filter (\<lambda>m. mg_registry m \<notin> re_id ` {e \<in> set (db_registry d). P e}) (db_migrations d)"
  by (simp_all add: delete_registry_def Let_def)

lemma lifecycle_enable:
  assumes inv: "lifecycle_inv d" and fresh: "rid \<notin> re_id ` set (db_registry d)"
    and ok: "insert_registry_row rid row d = Ok d'"
  shows "lifecycle_inv d'"
proof -
  let ?P = "\<lambda>e. source_of e = source_of row \<and> re_state e = ''disabled''"
  define new where "new = row\<lparr>re_id := rid, re_state := ''active'', re_backfill_watermark := None, re_index_error := None\<rparr>"
  have new: "re_id new = rid" by (simp add: new_def)
  have d': "db_registry d' = db_registry (delete_registry ?P d) @ [new]" "db_migrations d' = db_migrations (delete_registry ?P d)"
    using ok unfolding insert_registry_row_def Let_def new_def[symmetric] by (auto split: if_splits)
  show ?thesis
  proof (rule lifecycle_shrinks[OF inv])
    show "distinct (map mg_id (db_migrations d'))" "distinct (map re_id (db_registry d'))"
      using lifecycle_invD(1,2)[OF inv] fresh new by (auto simp: d' delete_registry_parts distinct_map_filter)
  next
    fix m e assume "m \<in> set (db_migrations d')" "e \<in> set (db_registry d)" "re_id e = mg_registry m" "blocked e"
    then show "\<exists>e' \<in> set (db_registry d'). re_id e' = re_id e \<and> blocked e'"
      by (intro bexI[of _ e]) (auto simp: d' delete_registry_parts image_iff)
  qed (auto simp: d' delete_registry_parts)
qed

section \<open>Histories\<close>

text \<open>
  The histories of a database: the newest state comes first. A verb may have taken its first look at any
  earlier state; migration and entry ids are identity values and never come back. \<open>settings\<close> stands for
  all other transactions: they may change any field of an entry but its id and state, and the queue.
\<close>

inductive lifecycle_step :: "('f, 'c, 'k) migrate_env \<Rightarrow> db set \<Rightarrow> db \<Rightarrow> db \<Rightarrow> bool"
  for env seen where
  enable_entry:
    "\<lbrakk>rid \<notin> (\<Union>d0 \<in> seen. re_id ` set (db_registry d0)); insert_registry_row rid row d = Ok d'\<rbrakk> \<Longrightarrow>
     lifecycle_step env seen d d'"
| disable_verb:
    "\<lbrakk>d0 \<in> seen; disable de relation column drop_column drop_destination d0 d = Ok d'\<rbrakk> \<Longrightarrow> lifecycle_step env seen d d'"
| uninstall_verb:
    "\<lbrakk>d0 \<in> seen; uninstall de drop_cols drop_destinations d0 d = Ok (cleaned, d')\<rbrakk> \<Longrightarrow> lifecycle_step env seen d d'"
| migrate_verb:
    "\<lbrakk>mid \<notin> (\<Union>d0 \<in> seen. mg_id ` set (db_migrations d0));
      migrate ve mid schema table column new_model strategy reindex quiesced tables d = Ok (tables', d')\<rbrakk> \<Longrightarrow>
     lifecycle_step env seen d d'"
| finalize_migration:
    "\<lbrakk>d0 \<in> seen; migration_finalize ve mid d0 tables d = Ok (tables', d')\<rbrakk> \<Longrightarrow> lifecycle_step env seen d d'"
| abort_migration:
    "\<lbrakk>d0 \<in> seen; migration_abort ve chunk_ref mid d0 tables d = Ok (tables', d')\<rbrakk> \<Longrightarrow> lifecycle_step env seen d d'"
| driver_reads: "lifecycle_step env seen d (set_migration_error now backoff mid msg d)"
| driver_fails: "lifecycle_step env seen d (fail_migration mid msg d)"
| driver_done:
    "lifecycle_step env seen d (update_migration mid (\<lambda>m. mg_state m = ''running'')
       (\<lambda>m. m\<lparr>mg_state := ''awaiting_finalize'', mg_error := None\<rparr>) d)"
| driver_writes: "lifecycle_step env seen d (snd (snd (apply_migration_batch env b results tables d)))"
| quarantine: "lifecycle_step env seen d (quarantine_entry entry reason d)"
| settings:
    "\<lbrakk>\<And>e. re_id (g e) = re_id e; \<And>e. re_state (g e) = re_state e; db_registry d' = map g (db_registry d);
      db_migrations d' = db_migrations d\<rbrakk> \<Longrightarrow> lifecycle_step env seen d d'"

inductive history :: "('f, 'c, 'k) migrate_env \<Rightarrow> db list \<Rightarrow> bool" for env where
  installed: "\<lbrakk>db_migrations d = []; distinct (map re_id (db_registry d))\<rbrakk> \<Longrightarrow> history env [d]"
| grown: "\<lbrakk>history env (d # ds); lifecycle_step env (set (d # ds)) d d'\<rbrakk> \<Longrightarrow> history env (d' # d # ds)"

inductive_cases history_cons: "history env (d # ds)"

text \<open>Every migration row of the new state is a row of the old one with the same entry, or a row never seen.\<close>

definition traces_rows :: "db set \<Rightarrow> db \<Rightarrow> db \<Rightarrow> bool" where
  "traces_rows seen d d' \<longleftrightarrow> (\<forall>m' \<in> set (db_migrations d').
     (\<exists>m \<in> set (db_migrations d). mg_id m = mg_id m' \<and> mg_registry m = mg_registry m') \<or>
     mg_id m' \<notin> (\<Union>d0 \<in> seen. mg_id ` set (db_migrations d0)))"

lemma traces_map:
  assumes "db_migrations d' = map f (db_migrations d)" "\<And>m. mg_id (f m) = mg_id m" "\<And>m. mg_registry (f m) = mg_registry m"
  shows "traces_rows seen d d'"
  using assms by (auto simp: traces_rows_def)

lemma traces_sub: "set (db_migrations d') \<subseteq> set (db_migrations d) \<Longrightarrow> traces_rows seen d d'"
  by (auto simp: traces_rows_def)

lemma traces_update:
  assumes "\<And>m. mg_id (f m) = mg_id m" "\<And>m. mg_registry (f m) = mg_registry m" "db_migrations d' = db_migrations (update_migration mid c f d)"
  shows "traces_rows seen d d'"
  by (rule traces_map[where f = "\<lambda>m. if mg_id m = mid \<and> c m then f m else m"]) (simp_all add: update_migration_def assms)

lemma traces_quarantine: "traces_rows seen d (quarantine_entry entry reason d)"
  by (rule traces_map[where f = "\<lambda>m. if mg_registry m = re_id entry \<and> is_live_state (mg_state m)
        then m\<lparr>mg_state := ''failed'', mg_error := Some reason\<rparr> else m"]) (simp_all add: quarantine_entry_def)

lemma traces_fail: "traces_rows seen d (fail_migration mid msg d)"
  unfolding fail_migration_update
  by (rule traces_update[where f = "\<lambda>m. m\<lparr>mg_state := ''failed'', mg_error := Some msg\<rparr>"]) simp_all

lemma traces_driver:
  "traces_rows seen d (set_migration_error now bo mid msg d)"
  "traces_rows seen d (update_migration mid c (\<lambda>m. m\<lparr>mg_state := st, mg_error := None\<rparr>) d)"
  unfolding set_migration_error_def by (rule traces_update[OF _ _ refl]; simp)+

lemma traces_state: "traces_rows seen d (set_migration_state mid st (set_entry i g d))"
  by (rule traces_update[where f = "\<lambda>m. m\<lparr>mg_state := st\<rparr>" and mid = mid and c = "\<lambda>_. True"])
    (simp_all add: set_migration_state_def update_migration_def set_entry_def)

lemma uninstall_loop_traces:
  assumes "uninstall_loop env dc dd ids n d = Ok (n', d')" "lifecycle_inv d"
  shows "lifecycle_inv d' \<and> (\<forall>m' \<in> set (db_migrations d'). \<exists>m \<in> set (db_migrations d). mg_id m = mg_id m' \<and> mg_registry m = mg_registry m')"
  using assms
proof (induction ids arbitrary: n d)
  case (Cons i ids)
  show ?case
  proof (cases "load_entry i d")
    case (Some entry)
    then obtain d1 where d1: "uninstall_entry env dc dd entry d = Ok d1" "uninstall_loop env dc dd ids (n + 1) d1 = Ok (n', d')"
      using Cons.prems by auto
    note rest = Cons.IH[OF d1(2) lifecycle_uninstall_entry[OF Cons.prems(2) d1(1)]]
    have "\<exists>m \<in> set (db_migrations d). mg_id m = mg_id m' \<and> mg_registry m = mg_registry m'" if "m' \<in> set (db_migrations d1)" for m'
      using that by (auto simp: uninstall_entry_effect(1)[OF d1(1)])
    then show ?thesis using rest by metis
  qed (use Cons in simp)
qed auto

lemma apply_effect:
  assumes d'_def: "d' = snd (snd (apply_migration_batch env b results tables d))"
  shows "d' = d \<or> (\<exists>mid msg. d' = fail_migration mid msg d) \<or> (\<exists>entry reason. d' = quarantine_entry entry reason d) \<or>
    (\<exists>mid f. d' = update_migration mid (\<lambda>_. True) f d \<and>
       (\<forall>m. mg_id (f m) = mg_id m \<and> mg_registry (f m) = mg_registry m \<and> mg_state (f m) = mg_state m))"
proof (cases "live_target env ''registry entry vanished before migration write-back'' (mg_id (mb_migration b)) d")
  case (Inl x)
  then have "d' = x" by (simp add: d'_def apply_migration_batch_def)
  then show ?thesis using Inl by (auto simp: live_target_def split: option.splits if_splits)
next
  case (Inr p)
  obtain m entry where p: "p = (m, entry)" by (cases p)
  let ?rows = "zip (mb_pks b) results" and ?table = "tables (re_id entry)"
  let ?written = "written_count (vectors_of (me_show env) ?rows) ?table"
  define f where "f m = m\<lparr>mg_rows_done := mg_rows_done m + ?written,
      mg_rows_skipped := mg_rows_skipped m + int (length (filter (\<lambda>(_, r). is_skip r) ?rows)),
      mg_last_pk := (if mb_pks b = [] then None else Some (List.last (mb_pks b))),
      mg_error := None, mg_retry_failures := 0\<rparr>" for m :: migration
  have "d' = update_migration (mg_id m) (\<lambda>_. True) f d"
    using Inr p by (simp add: d'_def apply_migration_batch_def Let_def f_def[abs_def])
  moreover have "\<forall>m. mg_id (f m) = mg_id m \<and> mg_registry (f m) = mg_registry m \<and> mg_state (f m) = mg_state m"
    by (simp add: f_def)
  ultimately show ?thesis by blast
qed

lemma lifecycle_step_inv:
  assumes step: "lifecycle_step env seen d d'" and inv: "lifecycle_inv d" and now: "d \<in> seen"
    and seen: "\<And>d0. d0 \<in> seen \<Longrightarrow> same_owner d0 d"
  shows "lifecycle_inv d' \<and> traces_rows seen d d'"
  using step
proof cases
  case (enable_entry rid row)
  then have "rid \<notin> re_id ` set (db_registry d)" using now by blast
  then show ?thesis using lifecycle_enable[OF inv _ enable_entry(2)] enable_entry(2)
    by (auto simp: insert_registry_row_def Let_def delete_registry_parts split: if_splits intro!: traces_sub)
next
  case (disable_verb d0 de relation column drop_column drop_destination)
  show ?thesis by (rule disable_effect[OF disable_verb(2)]) (auto intro: lifecycle_disabled[OF inv] traces_sub)
next
  case (uninstall_verb d0 de drop_cols drop_destinations cleaned)
  then show ?thesis using uninstall_loop_traces[OF _ inv] by (fastforce simp: uninstall_def traces_rows_def split: if_splits)
next
  case (migrate_verb mid ve schema table column new_model strategy reindex quiesced tables tables')
  obtain entry where entry: "entry \<in> set (db_registry d)"
    "start_migration ve mid entry new_model strategy reindex quiesced tables d = Ok (tables', d')"
    by (rule migrate_starts[OF migrate_verb(2)])
  have load: "load_entry (re_id entry) d = Some entry"
    using load_entry_unique[OF _ entry(1)] lifecycle_invD(2)[OF inv] by simp
  have fresh: "mid \<notin> mg_id ` set (db_migrations d)" using migrate_verb(1) now by blast
  have "traces_rows seen d d'"
    by (rule start_migration_effect[OF entry(2)])
      (use migrate_verb(1) in \<open>auto simp: traces_rows_def set_entry_def new_migration_def\<close>)
  then show ?thesis using lifecycle_migrate[OF inv load fresh entry(2)] by simp
next
  case (finalize_migration d0 ve mid tables tables')
  have "traces_rows seen d d'"
  proof (rule finalize_first_look[OF finalize_migration(2)])
    fix m0 :: migration and entry0 :: registry_entry
    assume index: "mg_state m0 = ''awaiting_index'' \<Longrightarrow> d' = set_migration_state mid ''done'' d \<or> d' = d"
      and swap: "mg_state m0 \<noteq> ''awaiting_index'' \<Longrightarrow> \<exists>m st space. load_migration mid d = Some m \<and> mg_state m = ''awaiting_finalize'' \<and>
       (st = ''done'' \<or> st = ''awaiting_index'') \<and> d' = set_migration_state mid st
        (set_entry (re_id entry0) (\<lambda>e. e\<lparr>re_model := mg_new_model m0, re_space := space, re_dim := mg_new_dim m0,
           re_state := ''active'', re_owns_vector_column := True\<rparr>) d)"
    have "traces_rows seen d (set_migration_state mid ''done'' d)"
      by (rule traces_update[where f = "\<lambda>m. m\<lparr>mg_state := ''done''\<rparr>"]) (simp_all add: set_migration_state_def)
    then show "traces_rows seen d d'"
      using index swap traces_state traces_sub[of d d seen] by (cases "mg_state m0 = ''awaiting_index''") auto
  qed
  then show ?thesis using lifecycle_finalize[OF inv seen[OF finalize_migration(1)] finalize_migration(2)] by simp
next
  case (abort_migration d0 ve chunk_ref mid tables tables')
  have "traces_rows seen d d'"
    by (rule abort_effect[OF abort_migration(2)])
      (auto intro!: traces_update[where f = "\<lambda>m. m\<lparr>mg_state := ''aborted''\<rparr>" and mid = mid and c = "\<lambda>_. True"]
        simp: set_migration_state_def update_migration_def set_entry_def)
  then show ?thesis using lifecycle_abort[OF inv abort_migration(2)] by simp
next
  case (driver_writes b results tables)
  from apply_effect[OF this] show ?thesis
  proof (elim disjE exE conjE)
    fix mid f assume "d' = update_migration mid (\<lambda>_. True) f d"
      "\<forall>m. mg_id (f m) = mg_id m \<and> mg_registry (f m) = mg_registry m \<and> mg_state (f m) = mg_state m"
    then show ?thesis using lifecycle_update[OF inv, of f "\<lambda>_. True" mid] traces_update[of f d' mid "\<lambda>_. True" d seen] by simp
  qed (auto simp: inv lifecycle_driver lifecycle_quarantine traces_quarantine traces_fail traces_sub)
next
  case (settings g)
  then show ?thesis
    by (auto intro!: lifecycle_maps[OF inv, where f = "\<lambda>m. m" and g = g] traces_sub simp: blocked_def)
next
  case (driver_reads now backoff mid msg)
  then show ?thesis using lifecycle_driver(2)[OF inv] traces_driver(1) by simp
next
  case (driver_fails mid msg)
  then show ?thesis using lifecycle_driver(1)[OF inv] traces_fail by simp
next
  case (driver_done mid)
  then show ?thesis using lifecycle_driver(3)[OF inv] traces_driver(2) by simp
qed (simp_all add: inv lifecycle_quarantine traces_quarantine)

lemma load_migration_unique:
  assumes "distinct (map mg_id (db_migrations d))" "m \<in> set (db_migrations d)"
  shows "load_migration (mg_id m) d = Some m"
proof -
  obtain m' where m': "load_migration (mg_id m) d = Some m'"
    using assms(2) by (cases "load_migration (mg_id m) d") (auto simp: load_migration_def find_None_iff)
  then show ?thesis using assms load_migration_in[OF m'] load_migration_id[OF m'] by (auto simp: distinct_map inj_on_def)
qed

lemma same_owner_step:
  assumes "lifecycle_inv d" "same_owner d0 d" "d0 \<in> seen" "traces_rows seen d d'"
  shows "same_owner d0 d'"
  unfolding same_owner_def
proof (intro allI impI)
  fix mid m0 m assume m: "load_migration mid d0 = Some m0 \<and> load_migration mid d' = Some m"
  then have in': "m \<in> set (db_migrations d')" "mg_id m = mid" "m0 \<in> set (db_migrations d0)" "mg_id m0 = mid"
    using load_migration_in load_migration_id by blast+
  then have "mg_id m \<in> (\<Union>d0 \<in> seen. mg_id ` set (db_migrations d0))" using assms(3) by (metis UN_I imageI)
  then obtain n where n: "n \<in> set (db_migrations d)" "mg_id n = mg_id m" "mg_registry n = mg_registry m"
    using assms(4) in'(1) unfolding traces_rows_def by blast
  have "load_migration mid d = Some n" using load_migration_unique[OF lifecycle_invD(1)[OF assms(1)] n(1)] n(2) in'(2) by simp
  then show "mg_registry m = mg_registry m0" using assms(2) m n(3) unfolding same_owner_def by metis
qed

lemma history_inv:
  assumes "history env ds"
  shows "ds \<noteq> [] \<and> lifecycle_inv (hd ds) \<and> (\<forall>d0 \<in> set ds. same_owner d0 (hd ds))"
  using assms
proof induction
  case (installed d)
  then show ?case by (auto simp: lifecycle_inv_def same_owner_def)
next
  case (grown d ds d')
  then have kept: "\<And>d0. d0 \<in> set (d # ds) \<Longrightarrow> same_owner d0 d" and inv: "lifecycle_inv d" by auto
  have "d \<in> set (d # ds)" by simp
  note step = lifecycle_step_inv[OF grown.hyps(2) inv this kept]
  have "same_owner d0 d'" if "d0 \<in> set (d # ds)" for d0
    by (rule same_owner_step[OF inv kept[OF that] that]) (use step in simp)
  moreover have "same_owner d' d'" by (auto simp: same_owner_def)
  ultimately show ?case using step by simp
qed

text \<open>
  C12. One migration at a time. Take any history from an installation without migrations in which entries
  are registered, disabled (also after their source is gone), uninstalled, quarantined and reconfigured,
  migrations are started, finalized and aborted, and the driver reads, writes, fails and completes them,
  in any order, with disable, uninstall, finalize and abort acting on first looks that are arbitrarily old.
  Then two open migrations (running, awaiting finalize, or failed and not aborted) of the same entry are
  the same migration, and the entry of an open migration is \<open>migrating\<close> or \<open>disabled\<close>, never \<open>active\<close>.
  The checks of \<open>migrate\<close> and its writes are one step here.
\<close>
theorem one_open_migration:
  assumes "history env (d # ds)"
    and "m \<in> set (db_migrations d)" "m' \<in> set (db_migrations d)"
    and "is_abortable (mg_state m)" "is_abortable (mg_state m')" "mg_registry m = mg_registry m'"
  shows "m = m' \<and>
    (\<exists>e. load_entry (mg_registry m) d = Some e \<and> (re_state e = ''migrating'' \<or> re_state e = ''disabled''))"
proof -
  have inv: "lifecycle_inv d" using history_inv[OF assms(1)] by simp
  have same: "m = m'"
    by (rule same_id_same_migration[OF inv assms(2,3) lifecycle_invD(4)[OF inv assms(2-6)]])
  obtain e where e: "e \<in> set (db_registry d)" "re_id e = mg_registry m" "blocked e"
    using lifecycle_invD(3)[OF inv assms(2,4)] by blast
  have "load_entry (mg_registry m) d = Some e"
    using load_entry_unique[OF _ e(1)] lifecycle_invD(2)[OF inv] e(2) by simp
  then show ?thesis using same e(3) by (auto simp: blocked_def)
qed

abbreviation started_sample :: "migrate_error + (int \<Rightarrow> vec_row list) \<times> db" where
  "started_sample \<equiv> migrate (sample_venv\<lparr>ve_has_column := \<lambda>_ _. False\<rparr>) 1 ''public'' ''docs'' ''body'' ''n'' ''auto'' ''manual'' True sample_vtable sample_idle_db"

lemma sample_started:
  obtains tables d m where "started_sample = Ok (tables, d)" "db_migrations d = [m]" "mg_registry m = 7" "mg_state m = ''running''"
    "load_entry 7 d = Some (sample_active\<lparr>re_state := ''migrating''\<rparr>)"
proof -
  have entry: "db_registry sample_idle_db = [sample_active]" "db_migrations sample_idle_db = []"
    by (simp_all add: sample_idle_db_def)
  have load: "load_entry_checked (sample_venv\<lparr>ve_has_column := \<lambda>_ _. False\<rparr>) ''public'' ''docs'' ''body'' sample_idle_db = Ok sample_active"
    by (simp add: load_entry_checked_def load_active_def entry) (simp add: sample_active_def sample_docs_def sample_venv_def)
  have fields: "re_state sample_active = ''active''" "re_model sample_active = ''m''" "re_trigger_mode sample_active = ''row''" "re_id sample_active = 7"
    "re_vector_column sample_active = ''v''"
    by (simp_all add: sample_active_def sample_docs_def)
  have begun: "load_entry 7 (set_entry 7 (\<lambda>e. e\<lparr>re_state := ''migrating''\<rparr>) (sample_idle_db\<lparr>db_migrations := ms\<rparr>)) = Some (sample_active\<lparr>re_state := ''migrating''\<rparr>)" for ms
    by (simp add: load_entry_def set_entry_def entry fields)
  define started where "started = start_migration (sample_venv\<lparr>ve_has_column := \<lambda>_ _. False\<rparr>) 1 sample_active ''n'' ''auto'' ''manual'' True sample_vtable sample_idle_db"
  have run: "started_sample = started" by (simp add: migrate_def load started_def)
  obtain tables m where "started = Ok (tables, set_entry 7 (\<lambda>e. e\<lparr>re_state := ''migrating''\<rparr>) (sample_idle_db\<lparr>db_migrations := [m]\<rparr>))"
    "mg_registry m = 7" "mg_state m = ''running''"
    by (simp add: started_def start_migration_def fields sample_venv_def preflight_def attempt_stmt_def new_migration_def entry)
  then show thesis using that[OF _ _ _ _ begun] run by (simp add: set_entry_def)
qed

theorem one_open_migration_witness:
  "\<exists>tables d e. started_sample = Ok (tables, d) \<and> load_entry 7 d = Some e \<and> re_state e = ''migrating'' \<and> length (db_migrations d) = 1"
proof -
  obtain tables d m where ok: "started_sample = Ok (tables, d)" and m: "db_migrations d = [m]" "mg_registry m = 7" "mg_state m = ''running''"
    and e: "load_entry 7 d = Some (sample_active\<lparr>re_state := ''migrating''\<rparr>)"
    by (rule sample_started)
  have "1 \<notin> (\<Union>d0 \<in> set [sample_idle_db]. mg_id ` set (db_migrations d0))"
    by (simp add: sample_idle_db_def)
  then have "lifecycle_step sample_menv (set [sample_idle_db]) sample_idle_db d"
    using ok by (rule lifecycle_step.migrate_verb)
  moreover have "history sample_menv [sample_idle_db]"
    by (rule history.installed) (simp_all add: sample_idle_db_def)
  ultimately have hist: "history sample_menv (d # [sample_idle_db])" by (intro history.grown)
  have "m \<in> set (db_migrations d)" "is_abortable (mg_state m)" using m by (simp_all add: is_abortable_def)
  with one_open_migration[OF hist this(1) this(1) this(2) this(2) refl] show ?thesis
    using ok m e by auto
qed

end
