(* ===== verification/Spec2Isabelle.thy ===== *)
theory Spec2Isabelle
  imports TemplateSql Closure Redrive Wake Swap Archive Lifecycle
begin

text \<open>
  \<^bold>\<open>postvec: a verified model of the embedding pipeline, the model registry and the managed proxy.\<close>

  \<^medskip>
  \<^bold>\<open>The program.\<close> postvec keeps vector columns of PostgreSQL tables in step with their source
  columns. The extension (\<open>postvec/\<close>) registers tables; triggers queue a job for every changed row in
  \<open>postvec.jobs\<close>; a background worker (\<open>postvec/src/worker/\<close>) claims jobs, reads the rows, calls an
  inference service and writes the vectors back. Entries in recursive mode are split into chunks first.
  Entries can be backfilled by a cursor and moved to another model while they are in use. The server
  (\<open>postvec-server/\<close>) serves models and, as a managed proxy, rewrites the SQL of search calls. The command
  line (\<open>postvec-cli/\<close>) pulls models from a registry (\<open>registry/\<close>) and swaps them into the engine's root.

  \<^medskip>
  \<^bold>\<open>Theories and the code they model.\<close>

  \<^item> \<open>Prelude\<close>, \<open>Text\<close>: Rust results, loops with early return, byte strings, UTF-8, decimal numbers.

  \<^item> \<open>Chunking\<close> (\<open>core/src/chunking.rs\<close>): \<open>split_recursive\<close> with its merger and the mutually recursive
  walk. Chunks are exact substrings, advance, cover the text and stay within the output budget; refusals
  state their cause; the walk refines a specification of its pieces (\<open>pieces\<close>).

  \<^item> \<open>Templates\<close>, \<open>TemplateSql\<close> (\<open>core/src/registry.rs\<close>): registry entries, identifier and literal
  quoting, the template grammar with its canonical printer, and the SQL built for an entry. The SQL is read
  by the lexer of \<open>Rewrite\<close>: names and literals stay inside one token each, whatever bytes they hold.

  \<^item> \<open>Rewrite\<close> (\<open>postvec-server/src/managed/rewrite.rs\<close>): lexer, scan and rendering of the proxy.
  The rewritten statement is the original with arguments inserted before the closing parentheses.

  \<^item> \<open>IndexSchema\<close> (\<open>registry/schema/src/lib.rs\<close>, \<open>identity.rs\<close>): the index validator against a
  declarative rule set, Kahn's algorithm against acyclicity, model identity across revisions.

  \<^item> \<open>Closure\<close> (\<open>registry/client/src/index.rs\<close>, \<open>root.rs\<close>, \<open>postvec-server/src/models.rs\<close>,
  \<open>admin.rs\<close>): the pull closure, the server's load closure and the unload order.

  \<^item> \<open>Swap\<close> (\<open>registry/client/src/root.rs\<close>, \<open>postvec-cli/src/commands/model/\<close>): the batch of a pull as a
  transaction over directories, with failing system calls, kills at any call, and the recovery that follows.

  \<^item> \<open>Archive\<close> (\<open>registry/schema/src/archive.rs\<close>): the strict reader of model archives on a tree of files, with
  failing system calls, and the deterministic writer; extraction is confined and exact, and reads back
  what was written.

  \<^item> \<open>Embed\<close> (\<open>core/src/client/mod.rs\<close>, \<open>postvec/src/jobs.rs\<close>): error classes, request sizing and
  bisection. \<open>Queue\<close>, \<open>WriteBack\<close>, \<open>ClaimRead\<close> (\<open>postvec/src/jobs.rs\<close>): the job table and its three
  transactions. \<open>Worker\<close> (\<open>postvec/src/worker/mod.rs\<close>): one pass, the launcher's slots, gates, heartbeat.

  \<^item> \<open>Migrate\<close> (\<open>postvec/src/worker/migrate.rs\<close>, \<open>postvec/src/api/migrate.rs\<close>): the driver that fills
  the new column and the verbs that start, finalize and abort a migration, with the errors of the statements
  they send. \<open>Lifecycle\<close> (\<open>insert_registry_row\<close>, \<open>disable\<close>, \<open>disable_orphaned_entry\<close> and \<open>uninstall\<close> of
  \<open>postvec/src/api/registry.rs\<close>): the verbs that begin and end an entry, and the histories in which they
  interleave with the migration verbs, the driver and quarantine.

  \<^item> \<open>Backfill\<close> (\<open>postvec/src/worker/backfill.rs\<close>), \<open>ChunkRefresh\<close> (\<open>postvec/src/worker/chunk.rs\<close>): the
  cursor feeder and the transaction that splits a document and replaces its chunk rows and their jobs.

  \<^item> \<open>Redrive\<close> (\<open>retry_dead\<close> of \<open>postvec/src/api/registry.rs\<close>): putting dead letters back into the queue.
  \<open>AutoIndex\<close> (\<open>postvec/src/worker/index.rs\<close> and the index functions of \<open>postvec/src/api/registry.rs\<close>): the
  scan, the build and the parking of automatic vector indexes, readiness, ownership and teardown.

  \<^item> \<open>Wake\<close> (\<open>worker_wake\<close> of \<open>postvec/src/worker/mod.rs\<close>): the composition. A wake passes the version
  guard, the pause switch and the inference gate and then loops over the phases of \<open>Worker\<close>, \<open>Migrate\<close>,
  \<open>Backfill\<close> and \<open>ChunkRefresh\<close> as a summary probe asks for them, with other sessions at work in between,
  and ends with at most one index build.

  \<^medskip>
  \<^bold>\<open>State.\<close> The record \<open>db\<close> of \<open>Queue\<close> is the extension's own schema: \<open>postvec.jobs\<close> with its identity
  sequence, \<open>postvec.jobs_dead\<close>, \<open>postvec.registry\<close>, \<open>postvec.migrations\<close> and the claim cursor. Every
  worker theory passes it on, so their lemmas compose: \<open>quarantine_entry\<close>, \<open>insert_pending\<close> and
  \<open>fail_migration\<close> are shared. A transaction is a function on it; a transaction that aborts changes
  nothing, which the callers' abort parameters say. Statements on user tables are either recorded
  (\<open>table_write\<close>) or act on lists of rows (\<open>vec_row\<close>, \<open>chunk_row\<close>).

  \<^medskip>
  \<^bold>\<open>Lemma groups.\<close> Queue: ids and pending keys stay unique in every reachable state; releasing loses no
  work; a row the database refuses does not hold up its group; the locale \<open>disposal\<close> states what deleting,
  dead-lettering and releasing share and is interpreted for each. Claim and write-back: what one
  transaction hands over is what the next accepts, each job settled once, within byte budgets.
  Migration and backfill: invariants of interleaved runs (no wanted row below the watermark is left
  behind), completion when nothing interferes. Lifecycle: one open migration per entry, and never on an active
  entry. Refresh: progress in every
  branch and exact replacement, resting on the splitter's lemmas. Re-drive: what is consumed is exactly what
  was asked for and is work again. Index builder: it adds only wanted indexes under interference, removes
  only its own, and settles when left alone. Wake: the locales \<open>queue_relation\<close> and \<open>embedding_relation\<close>
  state what phases and other sessions have to respect and are interpreted for the queue invariant and
  for "no attempt is spent"; \<open>pass_invariant\<close> and \<open>pass_measure\<close> carry them through the loops. Swap: all or
  nothing under crashes.

  \<^medskip>
  \<^bold>\<open>Bounds and fuel.\<close> The client's closure visit has fuel one more than the number of index entries, which
  its path condition never exceeds; the server's load and enable walks stop at the depth limit of the code
  (fuel 34 is past it). \<open>convert_with_split\<close> halves at most three times, as the code does. The loops of a wake
  run over a list of passes; behind a closed gate a list longer than twice the rows to feed plus the refresh
  jobs plus the work that other sessions add meanwhile is enough, behind an open one the loop may go on as long as work arrives. All other loops are proved
  terminating. Times are integers in microseconds; sizes are integers where \<open>i64\<close> cannot
  overflow under the checked limits, and words where the code casts.

  \<^medskip>
  \<^bold>\<open>Parameters.\<close> The catalogue (missing dependencies, ownership, indexes), row locks held by other
  sessions, user tables between two reads, key casts and the typed key order, the inference client with its
  own state, floats with their formatting, the engine's admin endpoint, JSON decoding, the \<open>tar\<close> crate, the
  statements that Postgres refuses, and the fault script of system calls. Where a theorem needs something of them it is a hypothesis of that theorem, and its
  witness instantiates them. A completed rename or removal is taken to survive a crash.

  \<^medskip>
  \<^bold>\<open>Not modelled.\<close> The inference engine and tensor code (\<open>engine/\<close>, \<open>shared/\<close>: numeric kernels behind
  ONNX), the provider clients (\<open>providers/\<close>: HTTP), the servers' request handling and connection proxying
  (\<open>postvec-server/src\<close> apart from the files above), the command line's checks, plans and process control
  (\<open>postvec-cli/src\<close> apart from the model commands), and the SQL surface that is catalogue work
  (\<open>postvec/src/api/registry.rs\<close> apart from the verbs above, \<open>search.rs\<close>, \<open>embed.rs\<close>, \<open>status.rs\<close>). Their effects on the modelled
  state are the parameters above. Of the worker, process start-up,
  the unwind boundary around a wake and signal handling are left out.
\<close>

end
